(* ===== verification/Joker_Prelude.thy ===== *)
theory Joker_Prelude
  imports Main "HOL-Library.Word" "HOL-Library.Signed_Division"
begin

text \<open>
  The prelude of the development: the machine integer types of the C program, the outcomes of
  a C function that may not come back, and the generic lemmas the components share.

  A C function that returns is \<open>Inr\<close> of its result. The four other things that can happen are
  the constructors of \<open>halt\<close>: \<open>Panic\<close> is a call of \<open>panic\<close> (src/error.c, which prints and
  aborts), \<open>ExitCode\<close> a call of \<open>exit\<close>, \<open>Undefined\<close> a step the C standard leaves undefined (a null
  or out-of-range access, a signed overflow, an oversized shift) and \<open>Diverge\<close> a loop or a
  recursion that never ends.
\<close>

unbundle bit_operations_syntax

type_synonym u8 = "8 word"
type_synonym u16 = "16 word"
type_synonym u32 = "32 word"
type_synonym u64 = "64 word"

datatype halt = Panic string | ExitCode nat | Undefined string | Diverge

type_synonym 'a outcome = "halt + 'a"

text \<open>Sequencing: the rest of the function runs only if the first part came back.\<close>

definition andThen :: "'a outcome \<Rightarrow> ('a \<Rightarrow> 'b outcome) \<Rightarrow> 'b outcome" where
  "andThen m f = (case m of Inl h \<Rightarrow> Inl h | Inr x \<Rightarrow> f x)"

lemma andThen_simps [simp]:
  "andThen (Inl h) f = Inl h"
  "andThen (Inr x) f = f x"
  by (simp_all add: andThen_def)

lemma andThen_Inr_iff: "andThen m f = Inr y \<longleftrightarrow> (\<exists>x. m = Inr x \<and> f x = Inr y)"
  by (cases m) auto

lemma andThen_assoc: "andThen (andThen m f) g = andThen m (\<lambda>x. andThen (f x) g)"
  by (cases m) auto

lemma andThen_InrE:
  assumes "andThen m f = Inr y"
  obtains x where "m = Inr x" and "f x = Inr y"
  using assms by (auto simp: andThen_Inr_iff)

lemma andThen_cong [fundef_cong]:
  assumes "m = m'" and "\<And>x. m' = Inr x \<Longrightarrow> f x = f' x"
  shows "andThen m f = andThen m' f'"
  using assms by (cases m') auto

text \<open>
  A C function over a state: it takes the state and gives its result and the state it leaves, or
  does not come back. \<open>act_bind\<close> is the semicolon.
\<close>

type_synonym ('s, 'a) action = "'s \<Rightarrow> ('a \<times> 's) outcome"

definition act_return :: "'a \<Rightarrow> ('s, 'a) action" where
  "act_return x = (\<lambda>s. Inr (x, s))"

definition act_bind :: "('s, 'a) action \<Rightarrow> ('a \<Rightarrow> ('s, 'b) action) \<Rightarrow> ('s, 'b) action" where
  "act_bind m f = (\<lambda>s. andThen (m s) (\<lambda>(x, s'). f x s'))"

definition act_then :: "('s, unit) action \<Rightarrow> ('s, 'b) action \<Rightarrow> ('s, 'b) action" where
  "act_then m f = act_bind m (\<lambda>_. f)"

definition act_get :: "('s \<Rightarrow> 'a) \<Rightarrow> ('s, 'a) action" where
  "act_get f = (\<lambda>s. Inr (f s, s))"

definition act_update :: "('s \<Rightarrow> 's) \<Rightarrow> ('s, unit) action" where
  "act_update f = (\<lambda>s. Inr ((), f s))"

definition act_lift :: "'a outcome \<Rightarrow> ('s, 'a) action" where
  "act_lift m = (\<lambda>s. andThen m (\<lambda>x. Inr (x, s)))"

text \<open>A computation that may fail, on what the state holds.\<close>

definition act_with :: "('s \<Rightarrow> 'a outcome) \<Rightarrow> ('s, 'a) action" where
  "act_with f = (\<lambda>s. andThen (f s) (\<lambda>x. Inr (x, s)))"

definition act_halt :: "halt \<Rightarrow> ('s, 'a) action" where
  "act_halt h = (\<lambda>s. Inl h)"

named_theorems act_simps

lemma act_return_apply [act_simps]: "act_return x s = Inr (x, s)"
  by (simp add: act_return_def)

lemma act_bind_apply [act_simps]: "act_bind m f s = andThen (m s) (\<lambda>(x, s'). f x s')"
  by (simp add: act_bind_def)

lemma act_then_apply [act_simps]: "act_then m f s = andThen (m s) (\<lambda>(_, s'). f s')"
  by (simp add: act_then_def act_bind_def)

lemma act_get_apply [act_simps]: "act_get f s = Inr (f s, s)"
  by (simp add: act_get_def)

lemma act_update_apply [act_simps]: "act_update f s = Inr ((), f s)"
  by (simp add: act_update_def)

lemma act_lift_apply [act_simps]: "act_lift m s = andThen m (\<lambda>x. Inr (x, s))"
  by (simp add: act_lift_def)

lemma act_with_apply [act_simps]: "act_with f s = andThen (f s) (\<lambda>x. Inr (x, s))"
  by (simp add: act_with_def)

lemma act_halt_apply [act_simps]: "act_halt h s = Inl h"
  by (simp add: act_halt_def)

text \<open>
  \<open>keeps P m\<close>: whenever the function comes back from a state with \<open>P\<close>, it leaves a state with \<open>P\<close>.
\<close>

definition keeps :: "('s \<Rightarrow> bool) \<Rightarrow> ('s, 'a) action \<Rightarrow> bool" where
  "keeps P m \<longleftrightarrow> (\<forall>s x s'. P s \<longrightarrow> m s = Inr (x, s') \<longrightarrow> P s')"

lemma keepsD: "keeps P m \<Longrightarrow> P s \<Longrightarrow> m s = Inr (x, s') \<Longrightarrow> P s'"
  by (auto simp: keeps_def)

lemma keeps_bind:
  assumes "keeps P m" and "\<And>x. keeps P (f x)"
  shows "keeps P (act_bind m f)"
  unfolding keeps_def
proof (intro allI impI)
  fix s y s''
  assume s: "P s" and r: "act_bind m f s = Inr (y, s'')"
  then obtain x s' where "m s = Inr (x, s')" "f x s' = Inr (y, s'')"
    by (auto simp: act_bind_def andThen_Inr_iff)
  with s assms show "P s''" by (metis keepsD)
qed

lemma keeps_then: "keeps P m \<Longrightarrow> keeps P f \<Longrightarrow> keeps P (act_then m f)"
  by (simp add: act_then_def keeps_bind)

lemma keeps_return: "keeps P (act_return x)"
  by (simp add: keeps_def act_return_def)

lemma keeps_get: "keeps P (act_get f)"
  by (simp add: keeps_def act_get_def)

lemma keeps_with: "keeps P (act_with f)"
  by (auto simp: keeps_def act_with_def andThen_Inr_iff)

lemma keeps_lift: "keeps P (act_lift m)"
  by (auto simp: keeps_def act_lift_def andThen_Inr_iff)

lemma keeps_halt: "keeps P (act_halt h)"
  by (simp add: keeps_def act_halt_def)

lemma keeps_update: "(\<And>s. P s \<Longrightarrow> P (f s)) \<Longrightarrow> keeps P (act_update f)"
  by (simp add: keeps_def act_update_def)

lemma keeps_if: "(b \<Longrightarrow> keeps P m) \<Longrightarrow> (\<not> b \<Longrightarrow> keeps P n) \<Longrightarrow> keeps P (if b then m else n)"
  by simp

lemma keeps_option:
  "keeps P n \<Longrightarrow> (\<And>x. keeps P (f x)) \<Longrightarrow> keeps P (case opt of None \<Rightarrow> n | Some x \<Rightarrow> f x)"
  by (cases opt) simp_all

lemma keeps_list:
  "keeps P n \<Longrightarrow> (\<And>x xs. keeps P (f x xs)) \<Longrightarrow> keeps P (case l of [] \<Rightarrow> n | x # xs \<Rightarrow> f x xs)"
  by (cases l) simp_all

lemma keeps_prod: "(\<And>x y. keeps P (f x y)) \<Longrightarrow> keeps P (case p of (x, y) \<Rightarrow> f x y)"
  by (cases p) simp

lemma keeps_Let: "(\<And>x. keeps P (f x)) \<Longrightarrow> keeps P (Let x f)"
  by (simp add: Let_def)

lemmas keeps_intros = keeps_bind keeps_then keeps_return keeps_get keeps_with keeps_lift keeps_halt
  keeps_if keeps_option keeps_list keeps_prod keeps_Let

text \<open>A block of statements, a branch on a call, and the loops. A loop that outruns its bound diverges.\<close>

primrec act_seq :: "('s, unit) action list \<Rightarrow> ('s, unit) action" where
  "act_seq [] = act_return ()"
| "act_seq (m # ms) = act_then m (act_seq ms)"

definition act_if :: "('s, bool) action \<Rightarrow> ('s, 'a) action \<Rightarrow> ('s, 'a) action \<Rightarrow> ('s, 'a) action" where
  "act_if c m n = act_bind c (\<lambda>b. if b then m else n)"

definition act_not :: "('s, bool) action \<Rightarrow> ('s, bool) action" where
  "act_not c = act_bind c (\<lambda>b. act_return (\<not> b))"

definition act_ignore :: "('s, 'a) action \<Rightarrow> ('s, unit) action" where
  "act_ignore m = act_bind m (\<lambda>_. act_return ())"

primrec act_while :: "nat \<Rightarrow> ('s, bool) action \<Rightarrow> ('s, unit) action \<Rightarrow> ('s, unit) action" where
  "act_while 0 c m = act_halt Diverge"
| "act_while (Suc n) c m = act_if c (act_then m (act_while n c m)) (act_return ())"

text \<open>\<open>do m while (c)\<close>.\<close>

definition act_do_while :: "nat \<Rightarrow> ('s, unit) action \<Rightarrow> ('s, bool) action \<Rightarrow> ('s, unit) action" where
  "act_do_while n m c = act_then m (act_while n c m)"

lemma act_if_apply [act_simps]: "act_if c m n s = andThen (c s) (\<lambda>(b, s). (if b then m else n) s)"
  by (simp add: act_if_def act_bind_def)

lemma act_not_apply [act_simps]: "act_not c s = andThen (c s) (\<lambda>(b, s). Inr (\<not> b, s))"
  by (simp add: act_not_def act_bind_def act_return_def)

lemma act_ignore_apply [act_simps]: "act_ignore m s = andThen (m s) (\<lambda>(_, s). Inr ((), s))"
  by (simp add: act_ignore_def act_bind_def act_return_def)

lemma keeps_seq: "(\<And>m. m \<in> set ms \<Longrightarrow> keeps P m) \<Longrightarrow> keeps P (act_seq ms)"
  by (induction ms) (simp_all add: keeps_return keeps_then)

lemma keeps_seq_Nil: "keeps P (act_seq [])"
  by (simp add: keeps_return)

lemma keeps_seq_Cons: "keeps P m \<Longrightarrow> keeps P (act_seq ms) \<Longrightarrow> keeps P (act_seq (m # ms))"
  by (simp add: keeps_then)

lemma keeps_act_if: "keeps P c \<Longrightarrow> keeps P m \<Longrightarrow> keeps P n \<Longrightarrow> keeps P (act_if c m n)"
  unfolding act_if_def by (intro keeps_bind) simp_all

lemma keeps_act_not: "keeps P c \<Longrightarrow> keeps P (act_not c)"
  unfolding act_not_def by (intro keeps_bind keeps_return)

lemma keeps_act_ignore: "keeps P m \<Longrightarrow> keeps P (act_ignore m)"
  unfolding act_ignore_def by (intro keeps_bind keeps_return)

lemma keeps_act_while: "keeps P c \<Longrightarrow> keeps P m \<Longrightarrow> keeps P (act_while n c m)"
  by (induction n) (simp_all add: keeps_halt keeps_act_if keeps_then keeps_return)

lemma keeps_act_do_while: "keeps P c \<Longrightarrow> keeps P m \<Longrightarrow> keeps P (act_do_while n m c)"
  unfolding act_do_while_def by (intro keeps_then keeps_act_while)

lemmas keeps_control = keeps_seq_Nil keeps_seq_Cons keeps_act_if keeps_act_not keeps_act_ignore
  keeps_act_while keeps_act_do_while

text \<open>The result of a C function that never fails, for definedness statements.\<close>

definition returns :: "'a outcome \<Rightarrow> bool" where
  "returns m = (case m of Inl _ \<Rightarrow> False | Inr _ \<Rightarrow> True)"

lemma returns_simps [simp]: "returns (Inr x)" "\<not> returns (Inl h)"
  by (simp_all add: returns_def)

lemma returns_iff: "returns m \<longleftrightarrow> (\<exists>x. m = Inr x)"
  by (cases m) auto

text \<open>
  C integers: the value of a signed 32-bit or 64-bit word is its \<open>sint\<close>. A signed result out
  of range is undefined.
\<close>

definition in_i32 :: "int \<Rightarrow> bool" where
  "in_i32 i \<longleftrightarrow> - (2 ^ 31) \<le> i \<and> i < 2 ^ 31"

definition in_i64 :: "int \<Rightarrow> bool" where
  "in_i64 i \<longleftrightarrow> - (2 ^ 63) \<le> i \<and> i < 2 ^ 63"

lemma in_i32_sint [simp]: "in_i32 (sint (w :: u32))"
  using sint_range_size [of w] by (simp add: in_i32_def word_size)

lemma in_i64_sint [simp]: "in_i64 (sint (w :: u64))"
  using sint_range_size [of w] by (simp add: in_i64_def word_size)

lemma sint_of_int_i32: "in_i32 i \<Longrightarrow> sint (word_of_int i :: u32) = i"
  by (auto simp: in_i32_def int_word_sint)

lemma sint_of_int_i64: "in_i64 i \<Longrightarrow> sint (word_of_int i :: u64) = i"
  by (auto simp: in_i64_def int_word_sint)

lemma uint_sint_i32: "uint (a :: u32) = (if sint a < 0 then sint a + 2 ^ 32 else sint a)"
proof -
  have s: "sint a = (uint a + 2 ^ 31) mod 2 ^ 32 - 2 ^ 31"
    using int_word_sint [of "uint a", where 'a = 32] by simp
  have u: "0 \<le> uint a" "uint a < 2 ^ 32" using uint_lt2p [of a] by simp_all
  show ?thesis
  proof (cases "uint a < 2 ^ 31")
    case True
    with u s have "sint a = uint a" by (simp add: mod_pos_pos_trivial)
    with u show ?thesis by simp
  next
    case False
    then have "(uint a + 2 ^ 31) mod 2 ^ 32 = uint a + 2 ^ 31 - 2 ^ 32"
      using u by (subst mod_pos_geq) (simp_all add: mod_pos_pos_trivial)
    with s u False show ?thesis by simp
  qed
qed
text \<open>Lists updated by index.\<close>

lemma filter_update_length:
  assumes "i < length xs" and "P (xs ! i)" and "\<not> P y"
  shows "Suc (length (filter P (xs[i := y]))) = length (filter P xs)"
  using assms
proof (induction xs arbitrary: i)
  case Nil
  then show ?case by simp
next
  case (Cons x xs)
  then show ?case by (cases i) auto
qed

lemma filter_update_length':
  assumes "i < length xs" and "\<not> P (xs ! i)" and "P y"
  shows "length (filter P (xs[i := y])) = Suc (length (filter P xs))"
  using filter_update_length [of i "xs[i := y]" P "xs ! i"] assms by simp

lemma filter_update_same:
  assumes "i < length xs" and "P (xs ! i) = P y"
  shows "length (filter P (xs[i := y])) = length (filter P xs)"
  using assms
proof (induction xs arbitrary: i)
  case Nil
  then show ?case by simp
next
  case (Cons x xs)
  then show ?case by (cases i) auto
qed

lemma exists_not_filter:
  "length (filter P xs) < length xs \<Longrightarrow> \<exists>i<length xs. \<not> P (xs ! i)"
  by (metis filter_True length_filter_less less_irrefl in_set_conv_nth)

end
