(* ===== verification/Joker_Float.thy ===== *)
theory Joker_Float
  imports Joker_Prelude
begin

text \<open>
  The C types \<open>float\<close> and \<open>double\<close>, of which the interpreter uses the four operations, \<open>fmod\<close>,
  the comparisons, the unary minus and the casts (src/vm.c, include/value.h). They are modelled
  as IEEE-754 binary32 and binary64 bit patterns (\<open>32 word\<close>, \<open>64 word\<close>) with round to nearest,
  ties to even, computed exactly on integers, so that every definition here is executable.

  A format is given by the number of its fraction bits \<open>mb\<close> and of its exponent bits \<open>eb\<close>:
  23 and 8 for \<open>float\<close>, 52 and 11 for \<open>double\<close>. \<open>FFin s m e\<close> is the number
  \<open>(-1)^s * m * 2^e\<close>.
\<close>

datatype fval = FNan | FInf bool | FFin bool nat int

definition fp_bias :: "nat \<Rightarrow> int" where
  "fp_bias eb = 2 ^ (eb - 1) - 1"

definition fp_emin :: "nat \<Rightarrow> nat \<Rightarrow> int" where
  "fp_emin mb eb = 1 - fp_bias eb - int mb"

definition fp_decode :: "nat \<Rightarrow> nat \<Rightarrow> nat \<Rightarrow> fval" where
  "fp_decode mb eb bits =
     (let m = bits mod 2 ^ mb;
          e = (bits div 2 ^ mb) mod 2 ^ eb;
          s = (bits div 2 ^ (mb + eb)) mod 2 = 1
      in if e = 2 ^ eb - 1 then (if m = 0 then FInf s else FNan)
         else if e = 0 then FFin s m (fp_emin mb eb)
         else FFin s (m + 2 ^ mb) (int e - 1 + fp_emin mb eb))"

fun bitlen :: "nat \<Rightarrow> nat" where
  "bitlen n = (if n = 0 then 0 else Suc (bitlen (n div 2)))"

declare bitlen.simps [simp del]

text \<open>The nearest integer to \<open>num / den\<close>, the even one of two equally near.\<close>

definition round_quot :: "nat \<Rightarrow> nat \<Rightarrow> nat" where
  "round_quot num den =
     (let q = num div den; r = num mod den
      in if 2 * r > den \<or> (2 * r = den \<and> odd q) then Suc q else q)"

text \<open>The integer part of the base-2 logarithm of \<open>num / den\<close>, for positive \<open>num\<close> and \<open>den\<close>.\<close>

definition floor_log_quot :: "nat \<Rightarrow> nat \<Rightarrow> int" where
  "floor_log_quot num den =
     (let k = int (bitlen num) - int (bitlen den)
      in if (if 0 \<le> k then den * 2 ^ nat k \<le> num else den \<le> num * 2 ^ nat (- k)) then k else k - 1)"

definition fp_sign :: "nat \<Rightarrow> nat \<Rightarrow> bool \<Rightarrow> nat" where
  "fp_sign mb eb s = (if s then 2 ^ (mb + eb) else 0)"

definition fp_inf :: "nat \<Rightarrow> nat \<Rightarrow> bool \<Rightarrow> nat" where
  "fp_inf mb eb s = fp_sign mb eb s + (2 ^ eb - 1) * 2 ^ mb"

definition fp_nan :: "nat \<Rightarrow> nat \<Rightarrow> nat" where
  "fp_nan mb eb = (2 ^ eb - 1) * 2 ^ mb + 2 ^ (mb - 1)"

text \<open>
  The bit pattern of \<open>(-1)^s * num / den\<close>. The exponent is bounded below by that of the
  subnormal numbers; adding the rounded significand to the exponent field carries into the
  exponent when rounding reaches the next power of two.
\<close>

definition fp_encode :: "nat \<Rightarrow> nat \<Rightarrow> bool \<Rightarrow> nat \<Rightarrow> nat \<Rightarrow> nat" where
  "fp_encode mb eb s num den =
     (if num = 0 then fp_sign mb eb s
      else
        let e = max (fp_emin mb eb) (floor_log_quot num den - int mb);
            q = (if 0 \<le> e then round_quot num (den * 2 ^ nat e)
                 else round_quot (num * 2 ^ nat (- e)) den);
            bits = nat (e - fp_emin mb eb) * 2 ^ mb + q
        in if (2 ^ eb - 1) * 2 ^ mb \<le> bits then fp_inf mb eb s
           else fp_sign mb eb s + bits)"

definition fp_scaled :: "nat \<Rightarrow> nat \<Rightarrow> bool \<Rightarrow> nat \<Rightarrow> int \<Rightarrow> nat" where
  "fp_scaled mb eb s m e =
     (if 0 \<le> e then fp_encode mb eb s (m * 2 ^ nat e) 1
      else fp_encode mb eb s m (2 ^ nat (- e)))"

definition fp_of_int :: "nat \<Rightarrow> nat \<Rightarrow> int \<Rightarrow> nat" where
  "fp_of_int mb eb i = fp_encode mb eb (i < 0) (nat \<bar>i\<bar>) 1"

definition fin_int :: "bool \<Rightarrow> nat \<Rightarrow> int" where
  "fin_int s m = (if s then - int m else int m)"

definition fp_add :: "nat \<Rightarrow> nat \<Rightarrow> nat \<Rightarrow> nat \<Rightarrow> nat" where
  "fp_add mb eb a b =
     (case (fp_decode mb eb a, fp_decode mb eb b) of
        (FNan, _) \<Rightarrow> fp_nan mb eb
      | (_, FNan) \<Rightarrow> fp_nan mb eb
      | (FInf s, FInf t) \<Rightarrow> if s = t then fp_inf mb eb s else fp_nan mb eb
      | (FInf s, FFin _ _ _) \<Rightarrow> fp_inf mb eb s
      | (FFin _ _ _, FInf t) \<Rightarrow> fp_inf mb eb t
      | (FFin s m e, FFin t n f) \<Rightarrow>
          (let g = min e f;
               v = fin_int s m * 2 ^ nat (e - g) + fin_int t n * 2 ^ nat (f - g)
           in if v = 0 then fp_sign mb eb (s \<and> t)
              else fp_scaled mb eb (v < 0) (nat \<bar>v\<bar>) g))"

definition fp_neg :: "nat \<Rightarrow> nat \<Rightarrow> nat \<Rightarrow> nat" where
  "fp_neg mb eb a =
     (if (a div 2 ^ (mb + eb)) mod 2 = 1 then a - 2 ^ (mb + eb) else a + 2 ^ (mb + eb))"

definition fp_sub :: "nat \<Rightarrow> nat \<Rightarrow> nat \<Rightarrow> nat \<Rightarrow> nat" where
  "fp_sub mb eb a b = fp_add mb eb a (fp_neg mb eb b)"

definition fp_mul :: "nat \<Rightarrow> nat \<Rightarrow> nat \<Rightarrow> nat \<Rightarrow> nat" where
  "fp_mul mb eb a b =
     (case (fp_decode mb eb a, fp_decode mb eb b) of
        (FNan, _) \<Rightarrow> fp_nan mb eb
      | (_, FNan) \<Rightarrow> fp_nan mb eb
      | (FInf s, FInf t) \<Rightarrow> fp_inf mb eb (s \<noteq> t)
      | (FInf s, FFin t n _) \<Rightarrow> if n = 0 then fp_nan mb eb else fp_inf mb eb (s \<noteq> t)
      | (FFin s m _, FInf t) \<Rightarrow> if m = 0 then fp_nan mb eb else fp_inf mb eb (s \<noteq> t)
      | (FFin s m e, FFin t n f) \<Rightarrow> fp_scaled mb eb (s \<noteq> t) (m * n) (e + f))"

definition fp_div :: "nat \<Rightarrow> nat \<Rightarrow> nat \<Rightarrow> nat \<Rightarrow> nat" where
  "fp_div mb eb a b =
     (case (fp_decode mb eb a, fp_decode mb eb b) of
        (FNan, _) \<Rightarrow> fp_nan mb eb
      | (_, FNan) \<Rightarrow> fp_nan mb eb
      | (FInf s, FInf t) \<Rightarrow> fp_nan mb eb
      | (FInf s, FFin t _ _) \<Rightarrow> fp_inf mb eb (s \<noteq> t)
      | (FFin s _ _, FInf t) \<Rightarrow> fp_sign mb eb (s \<noteq> t)
      | (FFin s m e, FFin t n f) \<Rightarrow>
          if n = 0 then (if m = 0 then fp_nan mb eb else fp_inf mb eb (s \<noteq> t))
          else if 0 \<le> e - f then fp_encode mb eb (s \<noteq> t) (m * 2 ^ nat (e - f)) n
          else fp_encode mb eb (s \<noteq> t) m (n * 2 ^ nat (f - e)))"

text \<open>\<open>fmod\<close>: the exact remainder, with the sign of the dividend.\<close>

definition fp_fmod :: "nat \<Rightarrow> nat \<Rightarrow> nat \<Rightarrow> nat \<Rightarrow> nat" where
  "fp_fmod mb eb a b =
     (case (fp_decode mb eb a, fp_decode mb eb b) of
        (FFin s m e, FFin t n f) \<Rightarrow>
          if n = 0 then fp_nan mb eb
          else (let g = min e f;
                    r = (m * 2 ^ nat (e - g)) mod (n * 2 ^ nat (f - g))
                in if r = 0 then fp_sign mb eb s else fp_scaled mb eb s r g)
      | (FFin s m e, FInf t) \<Rightarrow> a
      | _ \<Rightarrow> fp_nan mb eb)"

text \<open>Comparison: \<open>None\<close> when an operand is not a number, else the sign of the difference.\<close>

definition fp_compare :: "nat \<Rightarrow> nat \<Rightarrow> nat \<Rightarrow> nat \<Rightarrow> int option" where
  "fp_compare mb eb a b =
     (case (fp_decode mb eb a, fp_decode mb eb b) of
        (FNan, _) \<Rightarrow> None
      | (_, FNan) \<Rightarrow> None
      | (FInf s, FInf t) \<Rightarrow> Some (if s = t then 0 else if s then - 1 else 1)
      | (FInf s, FFin _ _ _) \<Rightarrow> Some (if s then - 1 else 1)
      | (FFin _ _ _, FInf t) \<Rightarrow> Some (if t then 1 else - 1)
      | (FFin s m e, FFin t n f) \<Rightarrow>
          (let g = min e f
           in Some (sgn (fin_int s m * 2 ^ nat (e - g) - fin_int t n * 2 ^ nat (f - g)))))"

text \<open>The integer part, as a cast to an integer type takes it, before the range check.\<close>

definition fval_trunc :: "fval \<Rightarrow> int option" where
  "fval_trunc v =
     (case v of
        FFin s m e \<Rightarrow>
          Some (if 0 \<le> e then fin_int s m * 2 ^ nat e else fin_int s (m div 2 ^ nat (- e)))
      | _ \<Rightarrow> None)"


text \<open>The two formats, on words.\<close>

definition f64_add :: "u64 \<Rightarrow> u64 \<Rightarrow> u64" where
  "f64_add a b = of_nat (fp_add 52 11 (unat a) (unat b))"

definition f64_sub :: "u64 \<Rightarrow> u64 \<Rightarrow> u64" where
  "f64_sub a b = of_nat (fp_sub 52 11 (unat a) (unat b))"

definition f64_mul :: "u64 \<Rightarrow> u64 \<Rightarrow> u64" where
  "f64_mul a b = of_nat (fp_mul 52 11 (unat a) (unat b))"

definition f64_div :: "u64 \<Rightarrow> u64 \<Rightarrow> u64" where
  "f64_div a b = of_nat (fp_div 52 11 (unat a) (unat b))"

definition f64_fmod :: "u64 \<Rightarrow> u64 \<Rightarrow> u64" where
  "f64_fmod a b = of_nat (fp_fmod 52 11 (unat a) (unat b))"

definition f64_neg :: "u64 \<Rightarrow> u64" where
  "f64_neg a = of_nat (fp_neg 52 11 (unat a))"

definition f64_compare :: "u64 \<Rightarrow> u64 \<Rightarrow> int option" where
  "f64_compare a b = fp_compare 52 11 (unat a) (unat b)"

definition f64_of_int :: "int \<Rightarrow> u64" where
  "f64_of_int i = of_nat (fp_of_int 52 11 i)"

definition f64_trunc :: "u64 \<Rightarrow> int option" where
  "f64_trunc a = fval_trunc (fp_decode 52 11 (unat a))"

definition f32_add :: "u32 \<Rightarrow> u32 \<Rightarrow> u32" where
  "f32_add a b = of_nat (fp_add 23 8 (unat a) (unat b))"

definition f32_sub :: "u32 \<Rightarrow> u32 \<Rightarrow> u32" where
  "f32_sub a b = of_nat (fp_sub 23 8 (unat a) (unat b))"

definition f32_mul :: "u32 \<Rightarrow> u32 \<Rightarrow> u32" where
  "f32_mul a b = of_nat (fp_mul 23 8 (unat a) (unat b))"

definition f32_div :: "u32 \<Rightarrow> u32 \<Rightarrow> u32" where
  "f32_div a b = of_nat (fp_div 23 8 (unat a) (unat b))"

definition f32_neg :: "u32 \<Rightarrow> u32" where
  "f32_neg a = of_nat (fp_neg 23 8 (unat a))"

definition f32_compare :: "u32 \<Rightarrow> u32 \<Rightarrow> int option" where
  "f32_compare a b = fp_compare 23 8 (unat a) (unat b)"

definition f32_of_int :: "int \<Rightarrow> u32" where
  "f32_of_int i = of_nat (fp_of_int 23 8 i)"

definition f32_trunc :: "u32 \<Rightarrow> int option" where
  "f32_trunc a = fval_trunc (fp_decode 23 8 (unat a))"

lemma bitlen_0 [simp]: "bitlen 0 = 0"
  by (subst bitlen.simps) simp

lemma bitlen_1 [simp]: "bitlen (Suc 0) = Suc 0"
  by (subst bitlen.simps) simp

lemma bitlen_numeral [simp]: "bitlen (numeral n) = Suc (bitlen (numeral n div 2))"
  by (subst bitlen.simps) simp

text \<open>The definitions a closed computation unfolds.\<close>

named_theorems fp_eval

declare fp_bias_def [fp_eval] fp_emin_def [fp_eval] fp_decode_def [fp_eval] round_quot_def [fp_eval]
  floor_log_quot_def [fp_eval] fp_sign_def [fp_eval] fp_inf_def [fp_eval] fp_nan_def [fp_eval]
  fp_encode_def [fp_eval] fp_scaled_def [fp_eval] fp_of_int_def [fp_eval] fin_int_def [fp_eval]
  fp_add_def [fp_eval] fp_neg_def [fp_eval] fp_sub_def [fp_eval] fp_mul_def [fp_eval]
  fp_div_def [fp_eval] fp_fmod_def [fp_eval] fp_compare_def [fp_eval] fval_trunc_def [fp_eval]
  f64_add_def [fp_eval] f64_sub_def [fp_eval] f64_mul_def [fp_eval] f64_div_def [fp_eval]
  f64_fmod_def [fp_eval] f64_neg_def [fp_eval] f64_compare_def [fp_eval] f64_of_int_def [fp_eval]
  f64_trunc_def [fp_eval] f32_add_def [fp_eval] f32_sub_def [fp_eval] f32_mul_def [fp_eval]
  f32_div_def [fp_eval] f32_neg_def [fp_eval] f32_compare_def [fp_eval] f32_of_int_def [fp_eval]
  f32_trunc_def [fp_eval] Let_def [fp_eval]

text \<open>The bit length brackets a positive number between two powers of two.\<close>

lemma bitlen_bounds:
  assumes "0 < n"
  shows "0 < bitlen n" and "2 ^ (bitlen n - 1) \<le> n" and "n < 2 ^ bitlen n"
proof -
  have "0 < n \<longrightarrow> 0 < bitlen n \<and> 2 ^ (bitlen n - 1) \<le> n \<and> n < 2 ^ bitlen n"
  proof (induction n rule: bitlen.induct)
    case (1 n)
    show ?case
    proof (cases "n div 2 = 0")
      case True
      then have "n = 0 \<or> n = Suc 0" by auto
      then show ?thesis by auto
    next
      case False
      then have nz: "n \<noteq> 0" by auto
      with 1 False have ih: "0 < bitlen (n div 2)" "2 ^ (bitlen (n div 2) - 1) \<le> n div 2"
        "n div 2 < 2 ^ bitlen (n div 2)" by auto
      then obtain k where k: "bitlen (n div 2) = Suc k"
        using gr0_implies_Suc by blast
      from nz have b: "bitlen n = Suc (bitlen (n div 2))"
        by (subst bitlen.simps) simp
      from ih(2) have "2 * 2 ^ k \<le> n" unfolding k by simp
      moreover from ih(3) have "n < 4 * 2 ^ k" unfolding k by simp
      ultimately show ?thesis by (simp add: b k)
    qed
  qed
  with assms show "0 < bitlen n" and "2 ^ (bitlen n - 1) \<le> n" and "n < 2 ^ bitlen n"
    by auto
qed

lemma floor_log_one: "0 < n \<Longrightarrow> floor_log_quot n (Suc 0) = int (bitlen n) - 1"
proof -
  assume n: "0 < n"
  obtain k where k: "bitlen n = Suc k" using bitlen_bounds(1) [OF n] gr0_implies_Suc by blast
  from bitlen_bounds [OF n] have "2 ^ k \<le> n" and "n < 2 ^ Suc k" by (simp_all add: k)
  then show ?thesis by (simp add: floor_log_quot_def k Let_def)
qed

text \<open>
  Every integer of fewer than 54 bits is a \<open>double\<close> exactly: the encoder keeps it and the cast
  back gives it.
\<close>

lemma fp_encode_exact_64:
  assumes "0 < n" and "n < 2 ^ 53"
  shows "fp_encode 52 11 s n 1 = fp_sign 52 11 s + (bitlen n + 1021) * 2 ^ 52 + n * 2 ^ (53 - bitlen n)"
    and "bitlen n \<le> 53"
proof -
  obtain k where k: "bitlen n = Suc k" using bitlen_bounds(1) [OF assms(1)] gr0_implies_Suc by blast
  from bitlen_bounds [OF assms(1)] have lo: "2 ^ k \<le> n" and hi: "n < 2 ^ Suc k" by (simp_all add: k)
  have k52: "k \<le> 52"
  proof (rule ccontr)
    assume "\<not> k \<le> 52"
    then have "(2::nat) ^ 53 \<le> 2 ^ k" by (intro power_increasing) auto
    with lo assms(2) show False by simp
  qed
  then show "bitlen n \<le> 53" by (simp add: k)
  have q: "n * 2 ^ (52 - k) < 2 ^ 53"
  proof -
    have "n * 2 ^ (52 - k) < 2 ^ Suc k * 2 ^ (52 - k)" using hi by simp
    also have "\<dots> = 2 ^ 53" using k52 by (simp flip: power_add)
    finally show ?thesis .
  qed
  have rq: "round_quot m (Suc 0) = m" for m by (simp add: round_quot_def Let_def)
  have e: "max (fp_emin 52 11) (floor_log_quot n 1 - int 52) = int k - 52"
    by (simp add: floor_log_one [OF assms(1)] fp_emin_def fp_bias_def k)
  have bits: "nat (int k - 52 - fp_emin 52 11) = k + 1022"
    by (simp add: fp_emin_def fp_bias_def)
  have "(if 0 \<le> int k - 52 then round_quot n (1 * 2 ^ nat (int k - 52))
         else round_quot (n * 2 ^ nat (- (int k - 52))) 1) = n * 2 ^ (52 - k)"
  proof (cases "k = 52")
    case True
    then show ?thesis by (simp add: rq)
  next
    case False
    with k52 have "nat (- (int k - 52)) = 52 - k" and "\<not> 0 \<le> int k - 52" by auto
    then show ?thesis by (simp add: rq)
  qed
  moreover have "\<not> (2 ^ 11 - 1) * 2 ^ 52 \<le> (k + 1022) * 2 ^ 52 + n * 2 ^ (52 - k)"
    using q k52 by simp
  ultimately show "fp_encode 52 11 s n 1 = fp_sign 52 11 s + (bitlen n + 1021) * 2 ^ 52 + n * 2 ^ (53 - bitlen n)"
    using assms(1) unfolding fp_encode_def Let_def e bits by (simp add: k)
qed


lemma fp_decode_normal_64:
  assumes m: "m < 2 ^ 52" and e: "0 < e" "e < 2047"
  shows "fp_decode 52 11 (fp_sign 52 11 s + e * 2 ^ 52 + m) = FFin s (m + 2 ^ 52) (int e - 1075)"
proof -
  define b :: nat where "b = (if s then 2048 else 0)"
  have x: "fp_sign 52 11 s + e * 2 ^ 52 + m = (b + e) * 2 ^ 52 + m"
    by (simp add: fp_sign_def b_def)
  have d1: "((b + e) * 2 ^ 52 + m) mod 2 ^ 52 = m"
    using m by (metis mod_less mod_mult_self3)
  have d2: "((b + e) * 2 ^ 52 + m) div 2 ^ 52 = b + e"
    using m by simp
  have d3: "((b + e) * 2 ^ 52 + m) div 2 ^ 63 = (b + e) div 2048"
  proof -
    have "((b + e) * 2 ^ 52 + m) div 2 ^ 63 = ((b + e) * 2 ^ 52 + m) div 2 ^ 52 div 2 ^ 11"
      by (simp flip: div_mult2_eq)
    also have "\<dots> = (b + e) div 2048" unfolding d2 by simp
    finally show ?thesis .
  qed
  have d4: "(b + e) mod 2048 = e" and d5: "((b + e) div 2048) mod 2 = 1 \<longleftrightarrow> s"
    using e by (auto simp: b_def)
  define y where "y = (b + e) * 2 ^ 52 + m"
  note y = d1 [folded y_def] d2 [folded y_def] d3 [folded y_def]
  from y have "y mod 4503599627370496 = m" and "y div 4503599627370496 = b + e"
    and "y div 9223372036854775808 = (b + e) div 2048" by simp_all
  moreover have "(b + e) div 2048 mod 2 = Suc 0 \<longleftrightarrow> s" using d5 by simp
  ultimately have "fp_decode 52 11 y = FFin s (m + 2 ^ 52) (int e - 1075)"
    unfolding fp_decode_def Let_def using e
    by (simp add: d4 fp_emin_def fp_bias_def)
  then show ?thesis by (simp only: x y_def)
qed

lemma fp_of_int_trunc_64:
  assumes "\<bar>i\<bar> < 2 ^ 53"
  shows "fval_trunc (fp_decode 52 11 (fp_of_int 52 11 i)) = Some i"
    and "fp_of_int 52 11 i < 2 ^ 64"
proof -
  define n where "n = nat \<bar>i\<bar>"
  define s where "s = (i < 0)"
  have i: "i = fin_int s n" by (auto simp: n_def s_def fin_int_def)
  have f: "fp_of_int 52 11 i = fp_encode 52 11 s n 1" by (simp add: fp_of_int_def n_def s_def)
  have n53: "n < 2 ^ 53" using assms by (simp add: n_def nat_less_iff)
  have "fval_trunc (fp_decode 52 11 (fp_of_int 52 11 i)) = Some i \<and> fp_of_int 52 11 i < 2 ^ 64"
  proof (cases "n = 0")
    case True
    then have i0: "i = 0" by (simp add: n_def)
    then have "fp_of_int 52 11 i = 0" by (simp add: fp_of_int_def fp_encode_def fp_sign_def)
    then show ?thesis using i0
      by (simp add: fp_decode_def fval_trunc_def fp_emin_def fp_bias_def fin_int_def)
  next
    case False
    then have n0: "0 < n" by simp
    obtain k where k: "bitlen n = Suc k" using bitlen_bounds(1) [OF n0] gr0_implies_Suc by blast
    from bitlen_bounds [OF n0] have lo: "2 ^ k \<le> n" and hi: "n < 2 ^ Suc k" by (simp_all add: k)
    have k52: "k \<le> 52" using fp_encode_exact_64(2) [OF n0 n53] k by simp
    define q where "q = n * 2 ^ (52 - k)"
    have q1: "2 ^ 52 \<le> q"
    proof -
      have "(2::nat) ^ 52 = 2 ^ k * 2 ^ (52 - k)" using k52 by (simp flip: power_add)
      also have "\<dots> \<le> q" using lo unfolding q_def by (intro mult_le_mono1)
      finally show ?thesis .
    qed
    have q2: "q < 2 ^ 53"
    proof -
      have "q < 2 ^ Suc k * 2 ^ (52 - k)" using hi by (simp add: q_def)
      also have "\<dots> = 2 ^ 53" using k52 by (simp flip: power_add)
      finally show ?thesis .
    qed
    have "fp_of_int 52 11 i = fp_sign 52 11 s + (k + 1022) * 2 ^ 52 + q"
      unfolding f fp_encode_exact_64(1) [OF n0 n53, of s] by (simp add: k q_def)
    also have "\<dots> = fp_sign 52 11 s + (k + 1023) * 2 ^ 52 + (q - 2 ^ 52)" using q1 by simp
    finally have x: "fp_of_int 52 11 i = fp_sign 52 11 s + (k + 1023) * 2 ^ 52 + (q - 2 ^ 52)" .
    have d: "fp_decode 52 11 (fp_of_int 52 11 i) = FFin s q (int k - 52)"
      unfolding x by (subst fp_decode_normal_64) (use q1 q2 k52 in auto)
    have "fval_trunc (FFin s q (int k - 52)) = Some (fin_int s n)"
    proof (cases "k = 52")
      case True
      then show ?thesis by (simp add: fval_trunc_def q_def)
    next
      case False
      with k52 have "nat (- (int k - 52)) = 52 - k" by simp
      with False k52 show ?thesis by (simp add: fval_trunc_def q_def)
    qed
    moreover have "fp_of_int 52 11 i < 2 ^ 64"
      unfolding x fp_sign_def using q2 k52 by auto
    ultimately show ?thesis unfolding d using i by simp
  qed
  then show "fval_trunc (fp_decode 52 11 (fp_of_int 52 11 i)) = Some i"
    and "fp_of_int 52 11 i < 2 ^ 64" by auto
qed

lemma f64_trunc_of_int: "\<bar>i\<bar> < 2 ^ 53 \<Longrightarrow> f64_trunc (f64_of_int i) = Some i"
  using fp_of_int_trunc_64 [of i]
  by (simp add: f64_trunc_def f64_of_int_def unat_of_nat)

end
