(* ===== verification/Joker_Value.thy ===== *)
theory Joker_Value
  imports Joker_Float
begin

text \<open>
  Values (include/value.h, src/value.c): the tagged union \<open>Value\<close>, the reads of its members,
  the casts \<open>value_to_*\<close> and the promotion \<open>numeric_type_promotion\<close>.

  A \<open>String\<close> is immutable and interned (theory Joker_Intern), so a pointer to one is its content
  (\<open>StrRef\<close>); every other object is an address in the heap (\<open>ObjRef\<close>).

  The interpreter reads members of the union other than the one last stored: the promotion
  macros change the tag before they read, and the arithmetic handlers do not look at the tag of
  the right operand. The bytes such a read finds are those of the last store, then bytes C
  leaves unspecified, then the bits of a pointer: the record \<open>union_layout\<close> holds both, as a
  parameter of the model. The store order is little endian, as on the supported targets.
\<close>

datatype value_type =
  VAL_I32 | VAL_I64 | VAL_F32 | VAL_F64 | VAL_BOOL | VAL_OBJECT | VAL_NONE | VAL_NULL

datatype objref = StrRef string | ObjRef nat

datatype jvalue =
  VI32 u32 | VI64 u64 | VF32 u32 | VF64 u64 | VBool bool | VObject objref | VNone | VNull

fun vtype :: "jvalue \<Rightarrow> value_type" where
  "vtype (VI32 _) = VAL_I32"
| "vtype (VI64 _) = VAL_I64"
| "vtype (VF32 _) = VAL_F32"
| "vtype (VF64 _) = VAL_F64"
| "vtype (VBool _) = VAL_BOOL"
| "vtype (VObject _) = VAL_OBJECT"
| "vtype VNone = VAL_NONE"
| "vtype VNull = VAL_NULL"

definition macro_is_null :: "jvalue \<Rightarrow> bool" where
  "macro_is_null v = (vtype v = VAL_NULL)"

definition macro_is_none :: "jvalue \<Rightarrow> bool" where
  "macro_is_none v = (vtype v = VAL_NONE)"

definition macro_is_obj :: "jvalue \<Rightarrow> bool" where
  "macro_is_obj v = (vtype v = VAL_OBJECT)"

definition macro_is_number :: "jvalue \<Rightarrow> bool" where
  "macro_is_number v = (vtype v \<in> {VAL_I32, VAL_I64, VAL_F32, VAL_F64})"

lemma macro_is_null_iff [simp]: "macro_is_null v \<longleftrightarrow> v = VNull"
  by (cases v) (simp_all add: macro_is_null_def)

lemma macro_is_none_iff [simp]: "macro_is_none v \<longleftrightarrow> v = VNone"
  by (cases v) (simp_all add: macro_is_none_def)

lemma macro_is_obj_iff [simp]: "macro_is_obj v \<longleftrightarrow> (\<exists>r. v = VObject r)"
  by (cases v) (simp_all add: macro_is_obj_def)

lemma macro_is_number_simps [simp]:
  "macro_is_number (VI32 a)" "macro_is_number (VI64 b)" "macro_is_number (VF32 a)"
  "macro_is_number (VF64 b)" "\<not> macro_is_number (VBool c)" "\<not> macro_is_number (VObject r)"
  "\<not> macro_is_number VNone" "\<not> macro_is_number VNull"
  by (simp_all add: macro_is_number_def)

subsection \<open>Reads of a union member\<close>

record union_layout =
  pad32 :: u32
  pad56 :: "56 word"
  ptr_bits :: "objref \<Rightarrow> u64"

text \<open>The eight bytes of the union, after a store of the member the value was made with.\<close>

definition union_bits :: "union_layout \<Rightarrow> jvalue \<Rightarrow> u64" where
  "union_bits L v =
     (case v of
        VI32 w \<Rightarrow> word_cat (pad32 L) w
      | VI64 w \<Rightarrow> w
      | VF32 w \<Rightarrow> word_cat (pad32 L) w
      | VF64 w \<Rightarrow> w
      | VBool b \<Rightarrow> word_cat (pad56 L) (if b then 1 else 0 :: u8)
      | VObject r \<Rightarrow> ptr_bits L r
      | VNone \<Rightarrow> word_cat (pad32 L) (0 :: u32)
      | VNull \<Rightarrow> word_cat (pad32 L) (0 :: u32))"

definition macro_as_i32 :: "union_layout \<Rightarrow> jvalue \<Rightarrow> u32" where
  "macro_as_i32 L v = ucast (union_bits L v)"

definition macro_as_i64 :: "union_layout \<Rightarrow> jvalue \<Rightarrow> u64" where
  "macro_as_i64 L v = union_bits L v"

definition macro_as_f32 :: "union_layout \<Rightarrow> jvalue \<Rightarrow> u32" where
  "macro_as_f32 L v = ucast (union_bits L v)"

definition macro_as_f64 :: "union_layout \<Rightarrow> jvalue \<Rightarrow> u64" where
  "macro_as_f64 L v = union_bits L v"

text \<open>A byte other than 0 and 1 is no \<open>bool\<close>.\<close>

definition macro_as_bool :: "union_layout \<Rightarrow> jvalue \<Rightarrow> bool outcome" where
  "macro_as_bool L v =
     (let b = (ucast (union_bits L v) :: u8)
      in if b = 0 then Inr False else if b = 1 then Inr True
         else Inl (Undefined ''bool representation''))"

lemma ucast_word_cat_32: "(ucast (word_cat (p :: u32) (w :: u32) :: u64) :: u32) = w"
  by (rule bit_word_eqI) (auto simp: bit_simps bit_word_cat_iff)

lemma ucast_word_cat_8: "(ucast (word_cat (p :: 56 word) (w :: u8) :: u64) :: u8) = w"
  by (rule bit_word_eqI) (auto simp: bit_simps bit_word_cat_iff)

lemma macro_as_i32_simps [simp]:
  "macro_as_i32 L (VI32 w) = w"
  "macro_as_i32 L VNone = 0"
  "macro_as_i32 L VNull = 0"
  "macro_as_i32 L (VI64 x) = ucast x"
  by (simp_all add: macro_as_i32_def union_bits_def ucast_word_cat_32)

lemma macro_as_i64_simps [simp]:
  "macro_as_i64 L (VI64 x) = x"
  "macro_as_i64 L (VI32 w) = word_cat (pad32 L) w"
  by (simp_all add: macro_as_i64_def union_bits_def)

lemma macro_as_f64_simps [simp]:
  "macro_as_f64 L (VF64 x) = x"
  "macro_as_f64 L (VI32 w) = word_cat (pad32 L) w"
  by (simp_all add: macro_as_f64_def union_bits_def)

lemma macro_as_f32_simps [simp]: "macro_as_f32 L (VF32 w) = w" "macro_as_f32 L (VI32 w) = w"
  by (simp_all add: macro_as_f32_def union_bits_def ucast_word_cat_32)

lemma macro_as_bool_simps [simp]: "macro_as_bool L (VBool b) = Inr b"
  by (simp add: macro_as_bool_def union_bits_def ucast_word_cat_8)

subsection \<open>Casts\<close>

text \<open>A cast from a floating type is undefined when the integer part is out of range.\<close>

definition cast_i32 :: "int option \<Rightarrow> u32 outcome" where
  "cast_i32 t = (case t of
      Some i \<Rightarrow> if in_i32 i then Inr (word_of_int i) else Inl (Undefined ''float to int32_t'')
    | None \<Rightarrow> Inl (Undefined ''float to int32_t''))"

definition cast_i64 :: "int option \<Rightarrow> u64 outcome" where
  "cast_i64 t = (case t of
      Some i \<Rightarrow> if in_i64 i then Inr (word_of_int i) else Inl (Undefined ''float to int64_t'')
    | None \<Rightarrow> Inl (Undefined ''float to int64_t''))"

fun value_to_i32 :: "jvalue \<Rightarrow> u32 outcome" where
  "value_to_i32 (VI32 w) = Inr w"
| "value_to_i32 (VI64 w) = Inr (ucast w)"
| "value_to_i32 (VF32 w) = cast_i32 (f32_trunc w)"
| "value_to_i32 (VF64 w) = cast_i32 (f64_trunc w)"
| "value_to_i32 _ = Inr 0"

fun value_to_i64 :: "jvalue \<Rightarrow> u64 outcome" where
  "value_to_i64 (VI32 w) = Inr (scast w)"
| "value_to_i64 (VI64 w) = Inr w"
| "value_to_i64 (VF32 w) = cast_i64 (f32_trunc w)"
| "value_to_i64 (VF64 w) = cast_i64 (f64_trunc w)"
| "value_to_i64 _ = Inr 0"

text \<open>
  The promotion macros store the new tag first and then convert the value they find under it,
  so that the conversion reads the old bytes as the new type; both floating macros go through
  \<open>value_to_i32\<close>.
\<close>

definition macro_to_f32 :: "union_layout \<Rightarrow> jvalue \<Rightarrow> jvalue outcome" where
  "macro_to_f32 L v =
     andThen (value_to_i32 (VF32 (macro_as_f32 L v))) (\<lambda>i. Inr (VF32 (f32_of_int (sint i))))"

definition macro_to_f64 :: "union_layout \<Rightarrow> jvalue \<Rightarrow> jvalue outcome" where
  "macro_to_f64 L v =
     andThen (value_to_i32 (VF64 (macro_as_f64 L v))) (\<lambda>i. Inr (VF64 (f64_of_int (sint i))))"

definition macro_to_i64 :: "union_layout \<Rightarrow> jvalue \<Rightarrow> jvalue outcome" where
  "macro_to_i64 L v =
     andThen (value_to_i64 (VI64 (macro_as_i64 L v))) (\<lambda>i. Inr (VI64 i))"

definition both :: "(jvalue \<Rightarrow> jvalue outcome) \<Rightarrow> jvalue \<Rightarrow> jvalue \<Rightarrow> (jvalue \<times> jvalue) outcome" where
  "both f a b = andThen (f a) (\<lambda>a'. andThen (f b) (\<lambda>b'. Inr (a', b')))"

definition numeric_type_promotion ::
    "union_layout \<Rightarrow> jvalue \<Rightarrow> jvalue \<Rightarrow> (jvalue \<times> jvalue) outcome" where
  "numeric_type_promotion L a b =
     (if vtype a = VAL_F64 \<or> vtype b = VAL_F64 then both (macro_to_f64 L) a b
      else if vtype a = VAL_F32 \<or> vtype b = VAL_F32 then both (macro_to_f32 L) a b
      else if vtype a = VAL_I64 \<or> vtype b = VAL_I64 then both (macro_to_i64 L) a b
      else Inr (a, b))"

lemma macro_to_i64_simps [simp]:
  "macro_to_i64 L (VI64 x) = Inr (VI64 x)"
  "macro_to_i64 L (VI32 w) = Inr (VI64 (word_cat (pad32 L) w))"
  by (simp_all add: macro_to_i64_def)

lemma macro_to_f64_VF64:
  "f64_trunc d = Some i \<Longrightarrow> in_i32 i \<Longrightarrow> macro_to_f64 L (VF64 d) = Inr (VF64 (f64_of_int i))"
  by (simp add: macro_to_f64_def cast_i32_def sint_of_int_i32)

text \<open>
  An \<open>i64\<close> keeps its value. An \<open>i32\<close> promoted to \<open>i64\<close> keeps it only where the bytes above it
  happen to be its sign extension.
\<close>

lemma uint_word_cat_0: "uint (word_cat (0 :: u32) (w :: u32) :: u64) = uint w"
proof -
  have "(word_cat (0 :: u32) w :: u64) = ucast w"
    by (rule bit_word_eqI) (auto simp: bit_simps bit_word_cat_iff)
  moreover have "uint w < 2 ^ 64" using uint_lt2p [of w] by simp
  ultimately show ?thesis by (simp add: unsigned_ucast_eq take_bit_int_eq_self_iff)
qed

lemma sint_word_cat_0: "sint (word_cat (0 :: u32) (w :: u32) :: u64) = uint w"
proof -
  have "- (2 ^ 63) \<le> uint w" by (rule order_trans [OF _ uint_ge_0]) simp
  moreover have "uint w < 2 ^ 63" using uint_lt2p [of w] by simp
  ultimately have "signed_take_bit 63 (uint w) = uint w"
    by (rule signed_take_bit_int_eq_self)
  then show ?thesis by (simp only: sint_uint uint_word_cat_0) simp
qed

end
