(* ===== verification/Joker_Buffer.thy ===== *)
theory Joker_Buffer
  imports Joker_Prelude
begin

text \<open>
  Buffers (include/memory.h, src/memory.c): blocks of array elements as \<open>malloc\<close> and
  \<open>reallocate\<close> give them. A block is the list of its elements, \<open>None\<close> where nothing was stored
  yet; its length is the allocated size, so an access beyond it is \<open>Undefined\<close>, and so is a read
  of an element never stored. The null pointer is the empty block. The second half is the interface
  of a growing sequence, which the value array and the vector provide.
\<close>

type_synonym 'a buffer = "'a option list"

definition macro_grow_capacity :: "nat \<Rightarrow> nat" where
  "macro_grow_capacity c = (if c < 8 then 8 else c * 2)"

definition buf_alloc :: "nat \<Rightarrow> 'a buffer" where
  "buf_alloc n = replicate n None"

definition reallocate :: "'a buffer \<Rightarrow> nat \<Rightarrow> 'a buffer" where
  "reallocate b n = take n b @ replicate (n - length b) None"

definition buf_read :: "'a buffer \<Rightarrow> nat \<Rightarrow> 'a outcome" where
  "buf_read b i =
     (if length b \<le> i then Inl (Undefined ''read out of bounds'')
      else case b ! i of None \<Rightarrow> Inl (Undefined ''read of uninitialised memory'') | Some x \<Rightarrow> Inr x)"

definition buf_write :: "'a buffer \<Rightarrow> nat \<Rightarrow> 'a \<Rightarrow> 'a buffer outcome" where
  "buf_write b i x =
     (if length b \<le> i then Inl (Undefined ''write out of bounds'') else Inr (b[i := Some x]))"

text \<open>\<open>memcpy\<close> of the first \<open>n\<close> elements of one block to an offset in another.\<close>

definition buf_copy :: "'a buffer \<Rightarrow> nat \<Rightarrow> 'a buffer \<Rightarrow> nat \<Rightarrow> 'a buffer outcome" where
  "buf_copy dst off src n =
     (if length src < n \<or> length dst < off + n then Inl (Undefined ''memcpy out of bounds'')
      else Inr (take off dst @ take n src @ drop (off + n) dst))"

lemma length_buf_alloc [simp]: "length (buf_alloc n) = n"
  by (simp add: buf_alloc_def)

lemma length_reallocate [simp]: "length (reallocate b n) = n"
  by (simp add: reallocate_def)

lemma grow_capacity_gt: "c < macro_grow_capacity c"
  by (simp add: macro_grow_capacity_def)

lemma grow_capacity_pos: "8 \<le> macro_grow_capacity c"
  by (simp add: macro_grow_capacity_def)

text \<open>The capacities growth from nothing goes through.\<close>

inductive grown :: "nat \<Rightarrow> bool" where
  grown_0: "grown 0"
| grown_more: "grown c \<Longrightarrow> grown (macro_grow_capacity c)"

lemma grown_pow2: "grown c \<Longrightarrow> c = 0 \<or> (\<exists>k. c = 8 * 2 ^ k)"
proof (induction rule: grown.induct)
  case grown_0
  then show ?case by simp
next
  case (grown_more c)
  from grown_more.IH show ?case
  proof
    assume "c = 0"
    then show ?thesis by (auto simp: macro_grow_capacity_def intro!: exI [of _ 0])
  next
    assume "\<exists>k. c = 8 * 2 ^ k"
    then obtain k where "c = 8 * 2 ^ k" by blast
    then have "macro_grow_capacity c = 8 * 2 ^ Suc k" by (simp add: macro_grow_capacity_def)
    then show ?thesis by blast
  qed
qed

lemma grown_step:
  assumes "grown c" and "grown d" and "c < d"
  shows "macro_grow_capacity c \<le> d"
proof -
  obtain l where d: "d = 8 * 2 ^ l" using grown_pow2 [OF assms(2)] assms(3) by auto
  from grown_pow2 [OF assms(1)] show ?thesis
  proof
    assume "c = 0"
    then show ?thesis using d by (simp add: macro_grow_capacity_def)
  next
    assume "\<exists>k. c = 8 * 2 ^ k"
    then obtain k where c: "c = 8 * 2 ^ k" by blast
    with assms(3) d have "Suc k \<le> l" by simp
    then have "(2::nat) ^ Suc k \<le> 2 ^ l" by (rule power_increasing) simp
    then show ?thesis using c d by (simp add: macro_grow_capacity_def)
  qed
qed

subsection \<open>Blocks that hold a list\<close>

text \<open>\<open>holds b xs\<close>: the block starts with the elements of \<open>xs\<close>.\<close>

definition holds :: "'a buffer \<Rightarrow> 'a list \<Rightarrow> bool" where
  "holds b xs \<longleftrightarrow> length xs \<le> length b \<and> take (length xs) b = map Some xs"

lemma holds_iff_append: "holds b xs \<longleftrightarrow> (\<exists>rest. b = map Some xs @ rest)"
proof
  assume "holds b xs"
  then have "b = map Some xs @ drop (length xs) b"
    unfolding holds_def by (metis append_take_drop_id)
  then show "\<exists>rest. b = map Some xs @ rest" by blast
qed (auto simp: holds_def)

lemma holds_length: "holds b xs \<Longrightarrow> length xs \<le> length b"
  by (simp add: holds_def)

lemma holds_Nil [simp]: "holds b []"
  by (simp add: holds_def)

lemma holds_unique: "holds b xs \<Longrightarrow> holds b ys \<Longrightarrow> length xs = length ys \<Longrightarrow> xs = ys"
  unfolding holds_def by (metis inj_Some inj_map_eq_map)

lemma holds_read: "holds b xs \<Longrightarrow> i < length xs \<Longrightarrow> buf_read b i = Inr (xs ! i)"
  by (auto simp: holds_iff_append buf_read_def nth_append)

lemma holds_write_last:
  assumes "holds b xs" and "length xs < length b"
  shows "\<exists>b'. buf_write b (length xs) x = Inr b' \<and> holds b' (xs @ [x]) \<and> length b' = length b"
proof -
  from assms obtain c rest where "b = map Some xs @ c # rest"
    by (auto simp: holds_iff_append neq_Nil_conv)
  then show ?thesis by (simp add: buf_write_def holds_iff_append list_update_append)
qed

lemma holds_write:
  assumes "holds b xs" and "i < length xs"
  shows "\<exists>b'. buf_write b i x = Inr b' \<and> holds b' (xs[i := x]) \<and> length b' = length b"
  using assms by (auto simp: holds_iff_append buf_write_def list_update_append map_update)

lemma holds_reallocate: "holds b xs \<Longrightarrow> length xs \<le> n \<Longrightarrow> holds (reallocate b n) xs"
  by (auto simp: holds_def reallocate_def take_append min_def)

lemma holds_take: "holds b xs \<Longrightarrow> holds b (take n xs)"
  unfolding holds_iff_append by (metis append_assoc append_take_drop_id map_append)

lemma holds_butlast: "holds b xs \<Longrightarrow> holds b (butlast xs)"
  by (simp add: butlast_conv_take holds_take)

lemma holds_copy:
  assumes "holds dst xs" and "holds src ys" and "length xs + length ys \<le> length dst"
  shows "\<exists>b. buf_copy dst (length xs) src (length ys) = Inr b \<and> holds b (xs @ ys) \<and> length b = length dst"
  using assms by (auto simp: holds_def buf_copy_def)

subsection \<open>The interface of a growing sequence\<close>

text \<open>
  \<open>abs\<close> is the list a sequence holds; a push appends to it and a read gives its elements.
\<close>

locale growing =
  fixes inv :: "'m \<Rightarrow> bool" and abs :: "'m \<Rightarrow> 'a list"
    and push :: "'m \<Rightarrow> 'a \<Rightarrow> 'm outcome" and get :: "'m \<Rightarrow> nat \<Rightarrow> 'a outcome"
  assumes push_law: "inv m \<Longrightarrow> \<exists>m'. push m x = Inr m' \<and> inv m' \<and> abs m' = abs m @ [x]"
    and get_law: "inv m \<Longrightarrow> i < length (abs m) \<Longrightarrow> get m i = Inr (abs m ! i)"
begin

lemma push_get:
  assumes "inv m"
  shows "\<exists>m'. push m x = Inr m' \<and> inv m' \<and> get m' (length (abs m)) = Inr x \<and>
    (\<forall>i<length (abs m). get m' i = get m i)"
proof -
  obtain m' where m': "push m x = Inr m'" "inv m'" "abs m' = abs m @ [x]"
    using push_law [OF assms] by blast
  then have "get m' (length (abs m)) = Inr x" by (simp add: get_law nth_append)
  moreover have "\<forall>i<length (abs m). get m' i = get m i"
    using m' assms by (simp add: get_law nth_append)
  ultimately show ?thesis using m' by blast
qed

end

end
