(* ===== verification/Joker_Table.thy ===== *)
theory Joker_Table
  imports Joker_Prelude
begin

text \<open>
  What the clients of a table (globals, strings, types, members of classes, enums and modules)
  rely on: their calls, and the laws over an abstract map \<open>abs\<close>. \<open>count\<close> bounds the room a table
  still has below \<open>limit\<close>; \<open>null\<close> is what a lookup of an absent key gives.
\<close>

datatype ('k, 'v) table_op = Put 'k 'v | Del 'k

fun run_table ::
    "('m \<Rightarrow> 'k \<Rightarrow> 'v \<Rightarrow> ('m \<times> bool) outcome) \<Rightarrow> ('m \<Rightarrow> 'k \<Rightarrow> ('m \<times> bool) outcome) \<Rightarrow>
     ('k, 'v) table_op list \<Rightarrow> 'm \<Rightarrow> 'm outcome" where
  "run_table put del [] m = Inr m"
| "run_table put del (Put k v # ops) m = andThen (put m k v) (\<lambda>(m, _). run_table put del ops m)"
| "run_table put del (Del k # ops) m = andThen (del m k) (\<lambda>(m, _). run_table put del ops m)"

fun spec_table :: "('k, 'v) table_op list \<Rightarrow> ('k \<Rightarrow> 'v option) \<Rightarrow> ('k \<Rightarrow> 'v option)" where
  "spec_table [] f = f"
| "spec_table (Put k v # ops) f = spec_table ops (f(k \<mapsto> v))"
| "spec_table (Del k # ops) f = spec_table ops (f(k := None))"

locale table =
  fixes inv :: "'m \<Rightarrow> bool" and abs :: "'m \<Rightarrow> 'k \<Rightarrow> 'v option" and count :: "'m \<Rightarrow> nat"
    and limit :: nat and null :: 'v
    and put :: "'m \<Rightarrow> 'k \<Rightarrow> 'v \<Rightarrow> ('m \<times> bool) outcome"
    and get :: "'m \<Rightarrow> 'k \<Rightarrow> 'v outcome"
    and del :: "'m \<Rightarrow> 'k \<Rightarrow> ('m \<times> bool) outcome"
    and has :: "'m \<Rightarrow> 'k \<Rightarrow> bool outcome"
  assumes put_law: "inv m \<Longrightarrow> count m < limit \<Longrightarrow>
      \<exists>m'. put m k v = Inr (m', abs m k = None) \<and> inv m' \<and> abs m' = (abs m)(k \<mapsto> v) \<and> count m' \<le> Suc (count m)"
    and get_law: "inv m \<Longrightarrow> get m k = Inr (case abs m k of None \<Rightarrow> null | Some v \<Rightarrow> v)"
    and del_law: "inv m \<Longrightarrow>
      \<exists>m'. del m k = Inr (m', abs m k \<noteq> None) \<and> inv m' \<and> abs m' = (abs m)(k := None) \<and> count m' = count m"
    and has_law: "inv m \<Longrightarrow> has m k = Inr (abs m k \<noteq> None)"
begin

lemma put_get:
  assumes "inv m" and "count m < limit"
  obtains m' b where "put m k v = Inr (m', b)" and "inv m'"
    and "\<And>k'. get m' k' = (if k' = k then Inr v else get m k')"
  using put_law [OF assms, of k v] assms(1) by (auto simp: get_law)

text \<open>The clients' assignment to a name that must exist: store, and undo the store if it was new.\<close>

lemma assign_existing:
  assumes "inv m" and "count m < limit" and "abs m k \<noteq> None"
  shows "\<exists>m'. put m k v = Inr (m', False) \<and> inv m' \<and> abs m' = (abs m)(k \<mapsto> v)"
  using put_law [OF assms(1,2), of k v] assms(3) by auto

lemma assign_missing:
  assumes "inv m" and "count m < limit" and "abs m k = None"
  shows "\<exists>m' m''. put m k v = Inr (m', True) \<and> del m' k = Inr (m'', True) \<and> inv m'' \<and> abs m'' = abs m"
proof -
  obtain m' where m': "put m k v = Inr (m', True)" "inv m'" "abs m' = (abs m)(k \<mapsto> v)"
    using put_law [OF assms(1,2), of k v] assms(3) by auto
  obtain m'' where "del m' k = Inr (m'', abs m' k \<noteq> None)" "inv m''" "abs m'' = (abs m')(k := None)"
    using del_law [OF m'(2), of k] by auto
  with m' assms(3) show ?thesis by (auto simp: fun_upd_idem)
qed

lemma run_refines:
  assumes "inv m" and "count m + length ops \<le> limit"
  shows "\<exists>m'. run_table put del ops m = Inr m' \<and> inv m' \<and> abs m' = spec_table ops (abs m)"
  using assms
proof (induction ops arbitrary: m)
  case Nil
  then show ?case by simp
next
  case (Cons x ops)
  show ?case
  proof (cases x)
    case (Put k v)
    have "count m < limit" using Cons.prems(2) by simp
    with put_law [OF Cons.prems(1) this, of k v] Cons.IH Cons.prems(2) Put show ?thesis by fastforce
  next
    case (Del k)
    with del_law [OF Cons.prems(1), of k] Cons.IH Cons.prems(2) show ?thesis by fastforce
  qed
qed

end

end
