(* ===== verification/Joker_HashMap.thy ===== *)
theory Joker_HashMap
  imports Joker_Value Joker_Buffer Joker_Table
begin

text \<open>
  The hash table (include/hashmap.h, src/hashmap.c): open addressing with linear probing over a
  power-of-two array, tombstones for removed entries, growth at three quarters.

  A table is generic in the type \<open>'k\<close> of the \<open>String\<close> pointers it is keyed by, with the hash each
  one carries given by the argument \<open>hash\<close>. \<open>probe\<close> is the loop of \<open>find_entry\<close>: after as many
  rounds as there are slots it is back where it started, so a run that has not stopped by then
  never stops, and its value is \<open>Diverge\<close>. The invariant \<open>hm_wf\<close> is kept by every operation, and
  under it each operation returns and acts on the abstract map \<open>hm_map\<close> as its name says.
\<close>

subsection \<open>Data\<close>

record 'k entry =
  e_key :: "'k option"
  e_value :: jvalue

record 'k hashmap =
  hm_count :: nat
  hm_capacity :: nat
  hm_entries :: "'k entry list"

definition is_empty_entry :: "'k entry \<Rightarrow> bool" where
  "is_empty_entry e = (e_key e = None \<and> macro_is_null (e_value e))"

definition init_hashmap :: "'k hashmap" where
  "init_hashmap = \<lparr>hm_count = 0, hm_capacity = 0, hm_entries = []\<rparr>"

subsection \<open>Operations\<close>

text \<open>\<open>hash & (capacity - 1)\<close> and \<open>(index + 1) & (capacity - 1)\<close>, in \<open>uint32_t\<close>.\<close>

definition slot_of :: "u32 \<Rightarrow> nat \<Rightarrow> nat" where
  "slot_of h capacity = unat (h AND (of_nat capacity - 1))"

definition next_slot :: "nat \<Rightarrow> nat \<Rightarrow> nat" where
  "next_slot index capacity = unat ((of_nat index + 1 :: u32) AND (of_nat capacity - 1))"

fun probe ::
    "'k entry list \<Rightarrow> nat \<Rightarrow> 'k \<Rightarrow> nat \<Rightarrow> nat option \<Rightarrow> nat \<Rightarrow> nat outcome" where
  "probe entries capacity key index tombstone 0 = Inl Diverge"
| "probe entries capacity key index tombstone (Suc rounds) =
     (if length entries \<le> index then Inl (Undefined ''entries out of bounds'')
      else let entry = entries ! index in
        if e_key entry = None then
          (if macro_is_null (e_value entry) then
             Inr (case tombstone of Some t \<Rightarrow> t | None \<Rightarrow> index)
           else probe entries capacity key (next_slot index capacity)
                  (case tombstone of Some t \<Rightarrow> Some t | None \<Rightarrow> Some index) rounds)
        else if e_key entry = Some key then Inr index
        else probe entries capacity key (next_slot index capacity) tombstone rounds)"

definition find_entry :: "('k \<Rightarrow> u32) \<Rightarrow> 'k entry list \<Rightarrow> nat \<Rightarrow> 'k \<Rightarrow> nat outcome" where
  "find_entry hash entries capacity key =
     (if capacity = 0 then Inl (Undefined ''null entries'')
      else probe entries capacity key (slot_of (hash key) capacity) None capacity)"

text \<open>The copying loop of \<open>adjust_capacity\<close>; \<open>count\<close> is reset to the live entries.\<close>

fun rehash ::
    "('k \<Rightarrow> u32) \<Rightarrow> 'k entry list \<Rightarrow> 'k entry list \<Rightarrow> nat \<Rightarrow> nat \<Rightarrow> ('k entry list \<times> nat) outcome"
where
  "rehash hash [] new_entries new_capacity count = Inr (new_entries, count)"
| "rehash hash (entry # old) new_entries new_capacity count =
     (case e_key entry of
        None \<Rightarrow> rehash hash old new_entries new_capacity count
      | Some key \<Rightarrow>
          andThen (find_entry hash new_entries new_capacity key) (\<lambda>i.
            rehash hash old (new_entries[i := \<lparr>e_key = Some key, e_value = e_value entry\<rparr>])
              new_capacity (Suc count)))"

definition adjust_capacity :: "('k \<Rightarrow> u32) \<Rightarrow> 'k hashmap \<Rightarrow> nat \<Rightarrow> 'k hashmap outcome" where
  "adjust_capacity hash self new_capacity =
     andThen (rehash hash (hm_entries self)
               (replicate new_capacity \<lparr>e_key = None, e_value = VNull\<rparr>) new_capacity 0)
       (\<lambda>(entries, count).
          Inr \<lparr>hm_count = count, hm_capacity = new_capacity, hm_entries = entries\<rparr>)"

text \<open>The test \<open>count + 1 > capacity * 0.75\<close>, whose operands are exact in a \<open>double\<close>.\<close>

definition ensure_capacity :: "('k \<Rightarrow> u32) \<Rightarrow> 'k hashmap \<Rightarrow> 'k hashmap outcome" where
  "ensure_capacity hash self =
     (if 4 * (hm_count self + 1) > 3 * hm_capacity self
      then adjust_capacity hash self (macro_grow_capacity (hm_capacity self))
      else Inr self)"

definition hashmap_set ::
    "('k \<Rightarrow> u32) \<Rightarrow> 'k hashmap \<Rightarrow> 'k \<Rightarrow> jvalue \<Rightarrow> ('k hashmap \<times> bool) outcome" where
  "hashmap_set hash self key val =
     andThen (ensure_capacity hash self) (\<lambda>self.
     andThen (find_entry hash (hm_entries self) (hm_capacity self) key) (\<lambda>i.
       let entry = hm_entries self ! i;
           is_new_entry = (e_key entry = None);
           count = (if is_new_entry \<and> macro_is_null (e_value entry)
                    then hm_count self + 1 else hm_count self)
       in Inr (self\<lparr>hm_count := count,
                    hm_entries := (hm_entries self)[i := \<lparr>e_key = Some key, e_value = val\<rparr>]\<rparr>,
               is_new_entry)))"

definition hashmap_get :: "('k \<Rightarrow> u32) \<Rightarrow> 'k hashmap \<Rightarrow> 'k \<Rightarrow> jvalue outcome" where
  "hashmap_get hash self key =
     (if hm_count self = 0 then Inr VNull
      else andThen (find_entry hash (hm_entries self) (hm_capacity self) key) (\<lambda>i.
        let entry = hm_entries self ! i
        in Inr (if e_key entry = None then VNull else e_value entry)))"

definition hashmap_remove ::
    "('k \<Rightarrow> u32) \<Rightarrow> 'k hashmap \<Rightarrow> 'k \<Rightarrow> ('k hashmap \<times> bool) outcome" where
  "hashmap_remove hash self key =
     (if hm_count self = 0 then Inr (self, False)
      else andThen (find_entry hash (hm_entries self) (hm_capacity self) key) (\<lambda>i.
        if e_key (hm_entries self ! i) = None then Inr (self, False)
        else Inr (self\<lparr>hm_entries := (hm_entries self)[i := \<lparr>e_key = None, e_value = VBool True\<rparr>]\<rparr>,
                  True)))"

definition hashmap_contains_key :: "('k \<Rightarrow> u32) \<Rightarrow> 'k hashmap \<Rightarrow> 'k \<Rightarrow> bool outcome" where
  "hashmap_contains_key hash self key =
     (if hm_count self = 0 then Inr False
      else andThen (find_entry hash (hm_entries self) (hm_capacity self) key) (\<lambda>i.
        Inr (e_key (hm_entries self ! i) \<noteq> None)))"

text \<open>The entry \<open>hashmap_get_entry\<close> points to is given by its index in the table it leaves.\<close>

definition hashmap_get_entry ::
    "('k \<Rightarrow> u32) \<Rightarrow> 'k hashmap \<Rightarrow> 'k \<Rightarrow> ('k hashmap \<times> nat) outcome" where
  "hashmap_get_entry hash self key =
     andThen (ensure_capacity hash self) (\<lambda>self.
     andThen (find_entry hash (hm_entries self) (hm_capacity self) key) (\<lambda>i. Inr (self, i)))"

fun add_entries :: "('k \<Rightarrow> u32) \<Rightarrow> 'k entry list \<Rightarrow> 'k hashmap \<Rightarrow> 'k hashmap outcome" where
  "add_entries hash [] to = Inr to"
| "add_entries hash (entry # entries) to =
     (case e_key entry of
        None \<Rightarrow> add_entries hash entries to
      | Some key \<Rightarrow>
          andThen (hashmap_set hash to key (e_value entry)) (\<lambda>(to, _).
            add_entries hash entries to))"

definition hashmap_add_all ::
    "('k \<Rightarrow> u32) \<Rightarrow> 'k hashmap \<Rightarrow> 'k hashmap \<Rightarrow> 'k hashmap outcome" where
  "hashmap_add_all hash from to = add_entries hash (hm_entries from) to"

text \<open>
  The lookup by content: it compares length, hash and characters of the stored string, and
  stops at the first entry that was never used.
\<close>

fun find_key_loop ::
    "('k \<Rightarrow> u32) \<Rightarrow> ('k \<Rightarrow> string) \<Rightarrow> 'k entry list \<Rightarrow> nat \<Rightarrow> string \<Rightarrow> u32 \<Rightarrow> nat \<Rightarrow> nat \<Rightarrow>
     'k option outcome" where
  "find_key_loop hash chars entries capacity key h index 0 = Inl Diverge"
| "find_key_loop hash chars entries capacity key h index (Suc rounds) =
     (if length entries \<le> index then Inl (Undefined ''entries out of bounds'')
      else let entry = entries ! index in
        case e_key entry of
          None \<Rightarrow>
            if macro_is_null (e_value entry) then Inr None
            else find_key_loop hash chars entries capacity key h (next_slot index capacity) rounds
        | Some s \<Rightarrow>
            if length (chars s) = length key \<and> hash s = h \<and> chars s = key then Inr (Some s)
            else find_key_loop hash chars entries capacity key h (next_slot index capacity) rounds)"

definition hashmap_find_key ::
    "('k \<Rightarrow> u32) \<Rightarrow> ('k \<Rightarrow> string) \<Rightarrow> 'k hashmap \<Rightarrow> string \<Rightarrow> u32 \<Rightarrow> 'k option outcome" where
  "hashmap_find_key hash chars self key h =
     (if hm_count self = 0 then Inr None
      else find_key_loop hash chars (hm_entries self) (hm_capacity self) key h
             (slot_of h (hm_capacity self)) (hm_capacity self))"

text \<open>
  The collecting loops of \<open>hashmap_keys\<close> and \<open>hashmap_values\<close>, which stop as soon as they hold
  \<open>count\<close> elements.
\<close>

fun collect_entries :: "('k \<Rightarrow> jvalue \<Rightarrow> 'b) \<Rightarrow> nat \<Rightarrow> 'k entry list \<Rightarrow> 'b list \<Rightarrow> 'b list" where
  "collect_entries f count [] acc = acc"
| "collect_entries f count (entry # entries) acc =
     (let acc = (case e_key entry of None \<Rightarrow> acc | Some k \<Rightarrow> acc @ [f k (e_value entry)])
      in if length acc = count then acc else collect_entries f count entries acc)"

definition hashmap_keys :: "'k hashmap \<Rightarrow> 'k list" where
  "hashmap_keys self = collect_entries (\<lambda>k v. k) (hm_count self) (hm_entries self) []"

definition hashmap_values :: "'k hashmap \<Rightarrow> jvalue list" where
  "hashmap_values self = collect_entries (\<lambda>k v. v) (hm_count self) (hm_entries self) []"

fun keys_in :: "('k \<Rightarrow> u32) \<Rightarrow> 'k entry list \<Rightarrow> 'k hashmap \<Rightarrow> bool outcome" where
  "keys_in hash [] right = Inr True"
| "keys_in hash (entry # entries) right =
     (case e_key entry of
        None \<Rightarrow> keys_in hash entries right
      | Some k \<Rightarrow> andThen (hashmap_contains_key hash right k) (\<lambda>b.
          if b then keys_in hash entries right else Inr False))"

definition hashmap_equal :: "('k \<Rightarrow> u32) \<Rightarrow> 'k hashmap \<Rightarrow> 'k hashmap \<Rightarrow> bool outcome" where
  "hashmap_equal hash left right =
     (if hm_count left \<noteq> hm_count right then Inr False
      else keys_in hash (hm_entries left) right)"

subsection \<open>The invariant\<close>

definition pow2_capacity :: "nat \<Rightarrow> bool" where
  "pow2_capacity c \<longleftrightarrow> (\<exists>p. 3 \<le> p \<and> p \<le> 30 \<and> c = 2 ^ p)"

definition at :: "'k entry list \<Rightarrow> nat \<Rightarrow> nat \<Rightarrow> 'k entry" where
  "at es h d = es ! ((h + d) mod length es)"

definition home :: "('k \<Rightarrow> u32) \<Rightarrow> 'k entry list \<Rightarrow> 'k \<Rightarrow> nat" where
  "home hash es k = unat (hash k) mod length es"

text \<open>
  Keys are distinct, and from the home slot of a key to the key's own slot there is no slot that
  was never used.
\<close>

definition wf_entries :: "('k \<Rightarrow> u32) \<Rightarrow> 'k entry list \<Rightarrow> bool" where
  "wf_entries hash es \<longleftrightarrow>
     (\<forall>i<length es. \<forall>j<length es. e_key (es ! i) \<noteq> None \<longrightarrow> e_key (es ! i) = e_key (es ! j) \<longrightarrow> i = j) \<and>
     (\<forall>i<length es. \<forall>k. e_key (es ! i) = Some k \<longrightarrow>
        (\<exists>d<length es. i = (home hash es k + d) mod length es \<and>
           (\<forall>d'<d. \<not> is_empty_entry (at es (home hash es k) d'))))"

definition used :: "'k entry list \<Rightarrow> nat" where
  "used es = length (filter (\<lambda>e. \<not> is_empty_entry e) es)"

definition live :: "'k entry list \<Rightarrow> nat" where
  "live es = length (filter (\<lambda>e. e_key e \<noteq> None) es)"

definition hm_wf :: "('k \<Rightarrow> u32) \<Rightarrow> 'k hashmap \<Rightarrow> bool" where
  "hm_wf hash m \<longleftrightarrow>
     length (hm_entries m) = hm_capacity m \<and>
     (hm_capacity m = 0 \<or> pow2_capacity (hm_capacity m)) \<and>
     hm_count m = used (hm_entries m) \<and>
     4 * hm_count m \<le> 3 * hm_capacity m \<and>
     wf_entries hash (hm_entries m)"

definition entries_map :: "'k entry list \<Rightarrow> 'k \<Rightarrow> jvalue option" where
  "entries_map es k =
     (case find (\<lambda>e. e_key e = Some k) es of None \<Rightarrow> None | Some e \<Rightarrow> Some (e_value e))"

definition hm_map :: "'k hashmap \<Rightarrow> 'k \<Rightarrow> jvalue option" where
  "hm_map m = entries_map (hm_entries m)"

subsection \<open>Slots\<close>

lemma and_pow2_minus_1:
  "p \<le> 31 \<Longrightarrow> unat ((h :: u32) AND (of_nat (2 ^ p) - 1)) = unat h mod 2 ^ p"
proof -
  assume p: "p \<le> 31"
  have "(of_nat (2 ^ p) - 1 :: u32) = mask p"
    by (simp add: mask_eq_exp_minus_1)
  then have "h AND (of_nat (2 ^ p) - 1) = take_bit p h"
    by (simp add: take_bit_eq_mask)
  moreover have "unat (take_bit p h) = unat h mod 2 ^ p"
    unfolding unsigned_take_bit_eq by (rule take_bit_eq_mod)
  ultimately show ?thesis by (simp only:)
qed

lemma pow2_capacityD:
  assumes "pow2_capacity c"
  shows "8 \<le> c" and "c \<le> 2 ^ 30" and "0 < c"
proof -
  from assms obtain p where p: "3 \<le> p" "p \<le> 30" "c = 2 ^ p" by (auto simp: pow2_capacity_def)
  have "(2::nat) ^ 3 \<le> 2 ^ p" using p by (intro power_increasing) auto
  moreover have "(2::nat) ^ p \<le> 2 ^ 30" using p by (intro power_increasing) auto
  ultimately show "8 \<le> c" and "c \<le> 2 ^ 30" and "0 < c" using p by auto
qed

lemma slot_of_mod: "pow2_capacity c \<Longrightarrow> slot_of h c = unat h mod c"
  unfolding pow2_capacity_def slot_of_def using and_pow2_minus_1 by fastforce

lemma next_slot_mod:
  assumes "pow2_capacity c" and "i < c"
  shows "next_slot i c = Suc i mod c"
proof -
  from assms(1) obtain p where p: "p \<le> 30" "c = 2 ^ p" by (auto simp: pow2_capacity_def)
  have "Suc i < 2 ^ 32" using pow2_capacityD(2) [OF assms(1)] assms(2) by simp
  then have "unat (of_nat (Suc i) :: u32) = Suc i"
    by (simp only: unat_of_nat) simp
  then have "unat (of_nat i + 1 :: u32) = Suc i" by (simp add: add.commute)
  then show ?thesis
    unfolding next_slot_def p(2) using p(1) by (simp only: and_pow2_minus_1)
qed

lemma growth_pow2:
  assumes "c = 0 \<or> pow2_capacity c" and "c < 2 ^ 30"
  shows "pow2_capacity (macro_grow_capacity c)"
proof (cases "c = 0")
  case True
  then show ?thesis by (auto simp: macro_grow_capacity_def pow2_capacity_def intro!: exI [of _ 3])
next
  case False
  with assms obtain p where p: "3 \<le> p" "p \<le> 30" "c = 2 ^ p" by (auto simp: pow2_capacity_def)
  with assms(2) have "p \<noteq> 30" by auto
  moreover have "8 \<le> c" using pow2_capacityD(1) assms(1) False by auto
  ultimately show ?thesis using p
    by (auto simp: macro_grow_capacity_def pow2_capacity_def intro!: exI [of _ "Suc p"])
qed


subsection \<open>The probe loop\<close>

lemma at_mod: "es ! ((h + d) mod length es) = at es h d"
  by (simp add: at_def)

lemma next_slot_at:
  assumes "pow2_capacity (length es)"
  shows "next_slot ((h + d) mod length es) (length es) = (h + Suc d) mod length es"
  using assms pow2_capacityD(3) [OF assms] by (subst next_slot_mod) (auto simp: mod_Suc_eq)

lemma slots_distinct:
  fixes h :: nat
  assumes "(h + d) mod c = (h + d') mod c" and "d < c" and "d' < c"
  shows "d = d'"
proof -
  have "c dvd (h + d') - (h + d)" if "d \<le> d'"
    using that assms(1) by (subst mod_eq_dvd_iff_nat [symmetric]) auto
  moreover have "c dvd (h + d) - (h + d')" if "d' \<le> d"
    using that assms(1) by (subst mod_eq_dvd_iff_nat [symmetric]) auto
  ultimately show ?thesis using assms(2,3)
    by (metis add_diff_cancel_left diff_is_0_eq dvd_imp_le le_antisym le_less_trans less_imp_diff_less
        linorder_neqE_nat neq0_conv not_less order_less_imp_le)
qed

lemma slot_reaches:
  fixes h :: nat
  assumes "i < c"
  shows "\<exists>d<c. i = (h + d) mod c"
proof -
  let ?d = "(i + (c - h mod c)) mod c"
  have "(h + ?d) mod c = (h mod c + (i + (c - h mod c))) mod c"
    by (simp add: mod_simps)
  also have "h mod c + (i + (c - h mod c)) = i + c"
    using assms mod_less_divisor [of c h] by linarith
  finally have "(h + ?d) mod c = i" using assms by simp
  then show ?thesis using assms by (intro exI [of _ ?d]) auto
qed

text \<open>
  If the slots before distance \<open>D\<close> are all in use and none holds the key, and the slot at \<open>D\<close>
  ends the search, the loop returns: the key's slot, or a free slot no further than \<open>D\<close>.
\<close>

lemma probe_stops:
  assumes cap: "pow2_capacity (length es)"
    and before: "\<forall>d<D. \<not> is_empty_entry (at es h d) \<and> e_key (at es h d) \<noteq> Some k"
    and stop: "is_empty_entry (at es h D) \<or> e_key (at es h D) = Some k"
    and "d0 \<le> D" and "D - d0 < rounds"
    and "\<forall>t. tomb = Some t \<longrightarrow> (\<exists>d<d0. t = (h + d) mod length es \<and> e_key (es ! t) = None)"
  shows "\<exists>i. probe es (length es) k ((h + d0) mod length es) tomb rounds = Inr i \<and>
           (if e_key (at es h D) = Some k then i = (h + D) mod length es
            else \<exists>d\<le>D. i = (h + d) mod length es \<and> e_key (es ! i) = None)"
  using assms(4-6)
proof (induction rounds arbitrary: d0 tomb)
  case 0
  then show ?case by simp
next
  case (Suc rounds)
  let ?i = "(h + d0) mod length es"
  have bound: "\<not> length es \<le> ?i" using pow2_capacityD(3) [OF cap] by (simp add: not_le)
  show ?case
  proof (cases "d0 = D")
    case True
    show ?thesis
    proof (cases "e_key (at es h D) = Some k")
      case True
      with \<open>d0 = D\<close> bound show ?thesis by (simp add: at_mod Let_def)
    next
      case False
      with stop have e: "e_key (at es h D) = None" "e_value (at es h D) = VNull"
        by (auto simp: is_empty_entry_def)
      show ?thesis
      proof (cases tomb)
        case None
        with \<open>d0 = D\<close> bound e show ?thesis by (auto simp: at_mod Let_def)
      next
        case (Some t)
        with Suc.prems(3) obtain d where "d < d0" "t = (h + d) mod length es" "e_key (es ! t) = None"
          by blast
        with Some \<open>d0 = D\<close> bound e show ?thesis by (auto simp: at_mod Let_def intro!: exI [of _ d])
      qed
    qed
  next
    case False
    with Suc.prems have d0: "d0 < D" by simp
    with before have b: "\<not> is_empty_entry (at es h d0)" "e_key (at es h d0) \<noteq> Some k" by auto
    from d0 Suc.prems have lt: "Suc d0 \<le> D" "D - Suc d0 < rounds" by auto
    show ?thesis
    proof (cases "e_key (at es h d0) = None")
      case True
      let ?t = "case tomb of Some t \<Rightarrow> Some t | None \<Rightarrow> Some ?i"
      have "\<forall>t. ?t = Some t \<longrightarrow> (\<exists>d<Suc d0. t = (h + d) mod length es \<and> e_key (es ! t) = None)"
        using Suc.prems(3) True by (auto split: option.splits simp: at_mod less_Suc_eq)
      from Suc.IH [OF lt this] True b bound show ?thesis
        by (simp add: at_mod Let_def next_slot_at [OF cap] is_empty_entry_def)
    next
      case False
      then obtain k' where k': "e_key (at es h d0) = Some k'" by auto
      have "\<forall>t. tomb = Some t \<longrightarrow> (\<exists>d<Suc d0. t = (h + d) mod length es \<and> e_key (es ! t) = None)"
        using Suc.prems(3) less_SucI by blast
      from Suc.IH [OF lt this] k' b bound show ?thesis
        by (simp add: at_mod Let_def next_slot_at [OF cap])
    qed
  qed
qed

lemma find_entry_home:
  assumes "pow2_capacity (length es)"
  shows "find_entry hash es (length es) k
     = probe es (length es) k ((home hash es k + 0) mod length es) None (length es)"
  using pow2_capacityD(3) [OF assms]
  by (simp add: find_entry_def slot_of_mod [OF assms] home_def)

lemma find_entry_stops:
  assumes cap: "pow2_capacity (length es)"
    and D: "D < length es"
    and before: "\<forall>d<D. \<not> is_empty_entry (at es (home hash es k) d) \<and> e_key (at es (home hash es k) d) \<noteq> Some k"
    and stop: "is_empty_entry (at es (home hash es k) D) \<or> e_key (at es (home hash es k) D) = Some k"
  obtains i where "find_entry hash es (length es) k = Inr i"
    and "if e_key (at es (home hash es k) D) = Some k then i = (home hash es k + D) mod length es
         else \<exists>d\<le>D. i = (home hash es k + d) mod length es \<and> e_key (es ! i) = None"
  using probe_stops [OF cap before stop, of 0 "length es" None] D find_entry_home [OF cap, of hash k]
  by auto


subsection \<open>Lookups in a well-formed table\<close>

lemma wf_distinct:
  "wf_entries hash es \<Longrightarrow> i < length es \<Longrightarrow> j < length es \<Longrightarrow> e_key (es ! i) = Some k \<Longrightarrow>
   e_key (es ! j) = Some k \<Longrightarrow> i = j"
  unfolding wf_entries_def by (metis option.distinct(1))

lemma find_entry_present:
  assumes cap: "pow2_capacity (length es)" and wf: "wf_entries hash es"
    and i: "i < length es" "e_key (es ! i) = Some k"
  shows "find_entry hash es (length es) k = Inr i"
proof -
  let ?h = "home hash es k"
  from wf i obtain D where D: "D < length es" "i = (?h + D) mod length es"
    and before: "\<forall>d<D. \<not> is_empty_entry (at es ?h d)"
    unfolding wf_entries_def by blast
  have "e_key (at es ?h d) \<noteq> Some k" if "d < D" for d
  proof
    assume k: "e_key (at es ?h d) = Some k"
    have "(?h + d) mod length es = i"
      by (rule wf_distinct [OF wf _ _ _ i(2)]) (use k i pow2_capacityD(3) [OF cap] in \<open>auto simp: at_def\<close>)
    then have "d = D" using D that by (intro slots_distinct [of ?h d "length es" D]) auto
    with that show False by simp
  qed
  with before have b: "\<forall>d<D. \<not> is_empty_entry (at es ?h d) \<and> e_key (at es ?h d) \<noteq> Some k"
    by blast
  have s: "e_key (at es ?h D) = Some k" using D(2) i(2) by (simp add: at_def)
  from find_entry_stops [OF cap D(1) b] s D(2) show ?thesis by metis
qed

lemma find_entry_absent:
  assumes cap: "pow2_capacity (length es)" and wf: "wf_entries hash es"
    and absent: "\<forall>i<length es. e_key (es ! i) \<noteq> Some k"
    and room: "used es < length es"
  obtains i d where "find_entry hash es (length es) k = Inr i" and "i < length es"
    and "e_key (es ! i) = None" and "d < length es" and "i = (home hash es k + d) mod length es"
    and "\<forall>d'<d. \<not> is_empty_entry (at es (home hash es k) d')"
proof -
  let ?h = "home hash es k"
  have pos: "0 < length es" using pow2_capacityD(3) [OF cap] .
  from room obtain j where j: "j < length es" "is_empty_entry (es ! j)"
    unfolding used_def using exists_not_filter by blast
  from slot_reaches [OF j(1), of ?h] obtain d1 where "d1 < length es" "j = (?h + d1) mod length es"
    by blast
  with j(2) have d1: "is_empty_entry (at es ?h d1)" "d1 < length es" by (auto simp: at_def)
  define D where "D = (LEAST d. is_empty_entry (at es ?h d))"
  have D: "is_empty_entry (at es ?h D)" unfolding D_def using d1(1) by (rule LeastI)
  have "D \<le> d1" unfolding D_def using d1(1) by (rule Least_le)
  with d1 have Dlt: "D < length es" by simp
  have nk: "e_key (at es ?h d) \<noteq> Some k" for d
    using absent pos by (simp add: at_def)
  have b: "\<forall>d<D. \<not> is_empty_entry (at es ?h d) \<and> e_key (at es ?h d) \<noteq> Some k"
    using nk not_less_Least unfolding D_def by blast
  from find_entry_stops [OF cap Dlt b disjI1 [OF D]]
  obtain i where f: "find_entry hash es (length es) k = Inr i"
    and r: "if e_key (at es ?h D) = Some k then i = (?h + D) mod length es
         else \<exists>d\<le>D. i = (?h + d) mod length es \<and> e_key (es ! i) = None"
    by blast
  from r nk obtain d where d: "d \<le> D" "i = (?h + d) mod length es" "e_key (es ! i) = None"
    by auto
  show thesis
  proof (rule that [OF f])
    show "i < length es" using d(2) pos by simp
    show "d < length es" using d(1) Dlt by simp
    show "\<forall>d'<d. \<not> is_empty_entry (at es ?h d')" using b d(1) by auto
  qed (use d in auto)
qed

text \<open>A store at the slot the search found keeps the table well formed.\<close>

lemma wf_entries_update:
  assumes wf: "wf_entries hash es" and i: "i < length es"
    and other: "\<forall>j<length es. j \<noteq> i \<longrightarrow> e_key (es ! j) \<noteq> Some k"
    and path: "\<exists>d<length es. i = (home hash es k + d) mod length es \<and>
                 (\<forall>d'<d. \<not> is_empty_entry (at es (home hash es k) d'))"
  shows "wf_entries hash (es[i := \<lparr>e_key = Some k, e_value = v\<rparr>])"
proof -
  let ?es = "es[i := \<lparr>e_key = Some k, e_value = v\<rparr>]"
  have home: "home hash ?es k' = home hash es k'" for k' by (simp add: home_def)
  have used: "\<not> is_empty_entry (at es h d) \<Longrightarrow> \<not> is_empty_entry (at ?es h d)" for h d
    using i by (auto simp: at_def nth_list_update is_empty_entry_def)
  have "\<exists>d<length es. j = (home hash es k' + d) mod length es \<and>
          (\<forall>d'<d. \<not> is_empty_entry (at ?es (home hash es k') d'))"
    if j: "j < length es" "e_key (?es ! j) = Some k'" for j k'
  proof (cases "j = i")
    case True
    with j i have "k' = k" by simp
    with path True used show ?thesis by blast
  next
    case False
    with j have "e_key (es ! j) = Some k'" by simp
    with wf j(1) used show ?thesis unfolding wf_entries_def by blast
  qed
  moreover have "j1 = j2"
    if j: "j1 < length es" "j2 < length es" "e_key (?es ! j1) = Some k'" "e_key (?es ! j2) = Some k'"
    for j1 j2 k'
  proof (cases "j1 = i \<or> j2 = i")
    case True
    with j i other show ?thesis by (auto simp: nth_list_update split: if_splits)
  next
    case False
    with j show ?thesis by (intro wf_distinct [OF wf]) auto
  qed
  ultimately show ?thesis unfolding wf_entries_def by (auto simp: home)
qed

lemma wf_entries_tombstone:
  assumes wf: "wf_entries hash es" and i: "i < length es"
  shows "wf_entries hash (es[i := \<lparr>e_key = None, e_value = VBool True\<rparr>])"
proof -
  let ?es = "es[i := \<lparr>e_key = None, e_value = VBool True\<rparr>]"
  have home: "home hash ?es k' = home hash es k'" for k' by (simp add: home_def)
  have used: "\<not> is_empty_entry (at es h d) \<Longrightarrow> \<not> is_empty_entry (at ?es h d)" for h d
    using i by (auto simp: at_def nth_list_update is_empty_entry_def)
  have key: "e_key (?es ! j) = Some k \<Longrightarrow> j < length es \<Longrightarrow> e_key (es ! j) = Some k" for j k
    using i by (cases "j = i") auto
  have "\<exists>d<length es. j = (home hash es k' + d) mod length es \<and>
          (\<forall>d'<d. \<not> is_empty_entry (at ?es (home hash es k') d'))"
    if j: "j < length es" "e_key (?es ! j) = Some k'" for j k'
    using wf key [OF j(2,1)] j(1) used unfolding wf_entries_def by blast
  moreover have "j1 = j2"
    if j: "j1 < length es" "j2 < length es" "e_key (?es ! j1) = Some k'" "e_key (?es ! j2) = Some k'"
    for j1 j2 k'
    using j key by (intro wf_distinct [OF wf]) auto
  ultimately show ?thesis unfolding wf_entries_def by (auto simp: home)
qed

subsection \<open>The abstract map\<close>

lemma entries_map_Some:
  assumes "wf_entries hash es"
  shows "entries_map es k = Some v \<longleftrightarrow> (\<exists>i<length es. es ! i = \<lparr>e_key = Some k, e_value = v\<rparr>)"
proof
  assume "entries_map es k = Some v"
  then obtain e where "find (\<lambda>e. e_key e = Some k) es = Some e" "e_value e = v"
    by (auto simp: entries_map_def split: option.splits)
  then obtain i where "i < length es" "e_key (es ! i) = Some k" "es ! i = e" "e_value e = v"
    by (auto simp: find_Some_iff)
  then show "\<exists>i<length es. es ! i = \<lparr>e_key = Some k, e_value = v\<rparr>"
    by (intro exI [of _ i]) (auto intro: entry.equality)
next
  assume "\<exists>i<length es. es ! i = \<lparr>e_key = Some k, e_value = v\<rparr>"
  then obtain i where i: "i < length es" "es ! i = \<lparr>e_key = Some k, e_value = v\<rparr>" by blast
  have "find (\<lambda>e. e_key e = Some k) es = Some (es ! i)"
    unfolding find_Some_iff
  proof (intro exI [of _ i] conjI allI impI)
    fix j assume "j < i"
    then show "e_key (es ! j) \<noteq> Some k"
      using wf_distinct [OF assms, of j i k] i by auto
  qed (use i in auto)
  then show "entries_map es k = Some v" using i by (simp add: entries_map_def)
qed

lemma entries_map_None:
  "entries_map es k = None \<longleftrightarrow> (\<forall>i<length es. e_key (es ! i) \<noteq> Some k)"
proof (cases "find (\<lambda>e. e_key e = Some k) es")
  case None
  then have "entries_map es k = None" by (simp add: entries_map_def)
  moreover have "\<forall>i<length es. e_key (es ! i) \<noteq> Some k"
    using None by (auto simp: find_None_iff in_set_conv_nth)
  ultimately show ?thesis by simp
next
  case (Some e)
  then obtain i where "i < length es" "e_key (es ! i) = Some k" by (auto simp: find_Some_iff)
  with Some show ?thesis by (auto simp: entries_map_def)
qed

lemma entries_map_key:
  "i < length es \<Longrightarrow> e_key (es ! i) = Some k \<Longrightarrow> entries_map es k \<noteq> None"
  using entries_map_None by metis

lemma map_eqI: "(\<And>k v. f k = Some v \<longleftrightarrow> g k = Some v) \<Longrightarrow> f = g"
  by (rule ext) (metis option.exhaust)

lemma entries_map_update:
  assumes wf: "wf_entries hash es" and i: "i < length es"
    and other: "\<forall>j<length es. j \<noteq> i \<longrightarrow> e_key (es ! j) \<noteq> Some k"
    and here: "e_key (es ! i) = None \<or> e_key (es ! i) = Some k"
    and wf': "wf_entries hash (es[i := \<lparr>e_key = Some k, e_value = v\<rparr>])"
  shows "entries_map (es[i := \<lparr>e_key = Some k, e_value = v\<rparr>]) = (entries_map es)(k \<mapsto> v)"
proof (rule map_eqI)
  fix k' v'
  let ?es = "es[i := \<lparr>e_key = Some k, e_value = v\<rparr>]"
  show "entries_map ?es k' = Some v' \<longleftrightarrow> ((entries_map es)(k \<mapsto> v)) k' = Some v'"
  proof (cases "k' = k")
    case True
    have "entries_map ?es k = Some v"
      using i by (subst entries_map_Some [OF wf']) (auto intro!: exI [of _ i])
    with True show ?thesis by auto
  next
    case False
    have "(\<exists>j<length es. ?es ! j = \<lparr>e_key = Some k', e_value = v'\<rparr>) \<longleftrightarrow>
          (\<exists>j<length es. es ! j = \<lparr>e_key = Some k', e_value = v'\<rparr>)"
    proof -
      have "?es ! j = \<lparr>e_key = Some k', e_value = v'\<rparr> \<longleftrightarrow> es ! j = \<lparr>e_key = Some k', e_value = v'\<rparr>"
        if "j < length es" for j
        using False here i that by (cases "j = i") auto
      then show ?thesis by blast
    qed
    with False show ?thesis
      by (simp add: entries_map_Some [OF wf] entries_map_Some [OF wf'])
  qed
qed

lemma entries_map_tombstone:
  assumes wf: "wf_entries hash es" and i: "i < length es" "e_key (es ! i) = Some k"
  shows "entries_map (es[i := \<lparr>e_key = None, e_value = VBool True\<rparr>]) = (entries_map es)(k := None)"
proof (rule map_eqI)
  fix k' v'
  let ?es = "es[i := \<lparr>e_key = None, e_value = VBool True\<rparr>]"
  note wf' = wf_entries_tombstone [OF wf i(1)]
  have "?es ! j = \<lparr>e_key = Some k', e_value = v'\<rparr> \<longleftrightarrow>
        k' \<noteq> k \<and> es ! j = \<lparr>e_key = Some k', e_value = v'\<rparr>" if j: "j < length es" for j
  proof (cases "j = i")
    case True
    with i show ?thesis by auto
  next
    case False
    then have "e_key (es ! j) \<noteq> Some k" using wf_distinct [OF wf j i(1) _ i(2)] by blast
    with False show ?thesis by auto
  qed
  then show "entries_map ?es k' = Some v' \<longleftrightarrow> ((entries_map es)(k := None)) k' = Some v'"
    by (auto simp: entries_map_Some [OF wf] entries_map_Some [OF wf'])
qed


subsection \<open>Counting\<close>

lemma live_le_used: "live es \<le> used es"
  unfolding live_def used_def by (induction es) (auto simp: is_empty_entry_def)

lemma used_le_length: "used es \<le> length es"
  by (simp add: used_def)

lemma used_update:
  assumes "i < length es"
  shows "used (es[i := \<lparr>e_key = Some k, e_value = v\<rparr>])
     = (if is_empty_entry (es ! i) then Suc (used es) else used es)"
  using assms unfolding used_def
  by (auto simp: is_empty_entry_def intro!: filter_update_length' filter_update_same)

lemma used_tombstone:
  assumes "i < length es" and "e_key (es ! i) \<noteq> None"
  shows "used (es[i := \<lparr>e_key = None, e_value = VBool True\<rparr>]) = used es"
  using assms unfolding used_def
  by (auto simp: is_empty_entry_def intro!: filter_update_same)

subsection \<open>Finding and storing\<close>

text \<open>
  One store: the slot \<open>find_entry\<close> gives, in a well-formed table with a free slot, is the one to
  store the key at.
\<close>

definition good_slot :: "('k \<Rightarrow> u32) \<Rightarrow> 'k entry list \<Rightarrow> 'k \<Rightarrow> nat \<Rightarrow> bool" where
  "good_slot hash es k i \<longleftrightarrow>
     find_entry hash es (length es) k = Inr i \<and> i < length es \<and>
     (e_key (es ! i) = None \<or> e_key (es ! i) = Some k) \<and>
     entries_map es k = (if e_key (es ! i) = None then None else Some (e_value (es ! i))) \<and>
     (\<forall>v. wf_entries hash (es[i := \<lparr>e_key = Some k, e_value = v\<rparr>])) \<and>
     (\<forall>v. entries_map (es[i := \<lparr>e_key = Some k, e_value = v\<rparr>]) = (entries_map es)(k \<mapsto> v))"

lemma put_entry:
  assumes cap: "pow2_capacity (length es)" and wf: "wf_entries hash es" and room: "used es < length es"
  shows "\<exists>i. good_slot hash es k i"
proof (cases "entries_map es k")
  case None
  then have absent: "\<forall>i<length es. e_key (es ! i) \<noteq> Some k" by (simp add: entries_map_None)
  obtain i d where i: "find_entry hash es (length es) k = Inr i" "i < length es" "e_key (es ! i) = None"
    and d: "d < length es" "i = (home hash es k + d) mod length es"
      "\<forall>d'<d. \<not> is_empty_entry (at es (home hash es k) d')"
    using find_entry_absent [OF cap wf absent room] by blast
  have path: "\<exists>d<length es. i = (home hash es k + d) mod length es \<and>
      (\<forall>d'<d. \<not> is_empty_entry (at es (home hash es k) d'))" using d by blast
  have wf': "wf_entries hash (es[i := \<lparr>e_key = Some k, e_value = v\<rparr>])" for v
    using absent by (intro wf_entries_update [OF wf i(2) _ path]) blast
  have "entries_map (es[i := \<lparr>e_key = Some k, e_value = v\<rparr>]) = (entries_map es)(k \<mapsto> v)" for v
    using absent i(3) by (intro entries_map_update [OF wf i(2) _ _ wf']) auto
  with i wf' None have "good_slot hash es k i" by (simp add: good_slot_def)
  then show ?thesis by blast
next
  case (Some w)
  then obtain i where i: "i < length es" "es ! i = \<lparr>e_key = Some k, e_value = w\<rparr>"
    by (auto simp: entries_map_Some [OF wf])
  have other: "\<forall>j<length es. j \<noteq> i \<longrightarrow> e_key (es ! j) \<noteq> Some k"
    using wf_distinct [OF wf _ i(1), of _ k] i(2) by auto
  have f: "find_entry hash es (length es) k = Inr i"
    using i by (intro find_entry_present [OF cap wf]) auto
  have path: "\<exists>d<length es. i = (home hash es k + d) mod length es \<and>
      (\<forall>d'<d. \<not> is_empty_entry (at es (home hash es k) d'))"
    using wf i unfolding wf_entries_def by auto
  note wf' = wf_entries_update [OF wf i(1) other path]
  have "entries_map (es[i := \<lparr>e_key = Some k, e_value = v\<rparr>]) = (entries_map es)(k \<mapsto> v)" for v
    using i by (intro entries_map_update [OF wf i(1) other _ wf']) auto
  with f i wf' Some have "good_slot hash es k i" by (simp add: good_slot_def)
  then show ?thesis by blast
qed

lemma hm_wf_empty: "hm_wf hash init_hashmap"
  by (simp add: hm_wf_def init_hashmap_def used_def wf_entries_def)

lemma hm_map_empty: "hm_map init_hashmap = Map.empty"
  by (simp add: hm_map_def init_hashmap_def entries_map_def fun_eq_iff)

lemma hm_wf_room:
  assumes "hm_wf hash m" and "hm_capacity m \<noteq> 0"
  shows "pow2_capacity (length (hm_entries m))" and "wf_entries hash (hm_entries m)"
    and "used (hm_entries m) < length (hm_entries m)" and "hm_capacity m = length (hm_entries m)"
proof -
  from assms have p: "pow2_capacity (hm_capacity m)" by (auto simp: hm_wf_def)
  with assms pow2_capacityD(3) [OF p] show "pow2_capacity (length (hm_entries m))"
    and "wf_entries hash (hm_entries m)" and "used (hm_entries m) < length (hm_entries m)"
    and "hm_capacity m = length (hm_entries m)" by (auto simp: hm_wf_def)
qed

lemma hm_wf_count_0:
  assumes "hm_wf hash m" and "hm_count m = 0"
  shows "hm_map m k = None"
proof -
  have "live (hm_entries m) = 0"
    using assms live_le_used [of "hm_entries m"] by (simp add: hm_wf_def)
  then have "\<forall>e\<in>set (hm_entries m). e_key e = None"
    by (auto simp: live_def filter_empty_conv)
  then show ?thesis
    unfolding hm_map_def entries_map_None by (auto dest: nth_mem)
qed

text \<open>The copying loop, into a table without tombstones.\<close>

definition no_tombstones :: "'k entry list \<Rightarrow> bool" where
  "no_tombstones es \<longleftrightarrow> (\<forall>i<length es. e_key (es ! i) = None \<longrightarrow> is_empty_entry (es ! i))"

lemma entries_map_Nil [simp]: "entries_map [] = Map.empty"
  by (simp add: entries_map_def fun_eq_iff)

lemma entries_map_Cons:
  "entries_map (e # es) =
     (case e_key e of None \<Rightarrow> entries_map es | Some k \<Rightarrow> (entries_map es)(k \<mapsto> e_value e))"
  by (auto simp: entries_map_def fun_eq_iff split: option.splits)

lemma live_Cons: "live (e # es) = (if e_key e = None then live es else Suc (live es))"
  by (simp add: live_def)

lemma rehash_correct:
  assumes "pow2_capacity (length new)" and "wf_entries hash new"
    and "used new + live old < length new" and "no_tombstones new"
    and "\<forall>e\<in>set old. \<forall>k. e_key e = Some k \<longrightarrow> entries_map new k = None"
    and "distinct (map e_key (filter (\<lambda>e. e_key e \<noteq> None) old))"
  shows "\<exists>es. rehash hash old new (length new) (used new) = Inr (es, used new + live old) \<and>
     length es = length new \<and> wf_entries hash es \<and> used es = used new + live old \<and>
     entries_map es = entries_map new ++ entries_map old"
  using assms
proof (induction old arbitrary: new)
  case Nil
  then show ?case by (simp add: live_def)
next
  case (Cons e old)
  show ?case
  proof (cases "e_key e")
    case None
    with Cons.IH [OF Cons.prems(1,2)] Cons.prems(3-6) show ?thesis
      by (simp add: live_Cons entries_map_Cons)
  next
    case (Some k)
    have room: "used new < length new" using Cons.prems(3) by simp
    obtain i where "good_slot hash new k i" using put_entry [OF Cons.prems(1,2) room] by blast
    then have i: "find_entry hash new (length new) k = Inr i" "i < length new"
      and key: "e_key (new ! i) = None \<longleftrightarrow> entries_map new k = None"
      and wf: "\<And>v. wf_entries hash (new[i := \<lparr>e_key = Some k, e_value = v\<rparr>])"
      and map: "\<And>v. entries_map (new[i := \<lparr>e_key = Some k, e_value = v\<rparr>]) = (entries_map new)(k \<mapsto> v)"
      by (simp_all add: good_slot_def)
    let ?new = "new[i := \<lparr>e_key = Some k, e_value = e_value e\<rparr>]"
    have none: "entries_map new k = None" using Cons.prems(5) Some by simp
    have "e_key (new ! i) = None" using key none by blast
    then have "is_empty_entry (new ! i)" using Cons.prems(4) i(2) unfolding no_tombstones_def by blast
    with i(2) have u: "used ?new = Suc (used new)" by (simp add: used_update)
    have nt: "no_tombstones ?new"
      using Cons.prems(4) i(2) by (auto simp: no_tombstones_def nth_list_update is_empty_entry_def)
    have old_k: "e_key e' \<noteq> Some k" if "e' \<in> set old" for e'
      using Cons.prems(6) Some that by (force simp: image_iff)
    then have fresh: "\<forall>e\<in>set old. \<forall>k'. e_key e = Some k' \<longrightarrow> entries_map ?new k' = None"
      using Cons.prems(5) by (auto simp: map)
    have old_map: "entries_map old k = None"
      using old_k by (auto simp: entries_map_None)
    have step: "rehash hash (e # old) new (length new) (used new)
        = rehash hash old ?new (length ?new) (used ?new)"
      using Some i(1) by (simp add: u)
    have "\<exists>es. rehash hash old ?new (length ?new) (used ?new) = Inr (es, used ?new + live old) \<and>
       length es = length ?new \<and> wf_entries hash es \<and> used es = used ?new + live old \<and>
       entries_map es = entries_map ?new ++ entries_map old"
      by (rule Cons.IH) (use Cons.prems wf nt fresh Some in \<open>auto simp: u live_Cons\<close>)
    moreover have "(entries_map new)(k \<mapsto> e_value e) ++ entries_map old
        = entries_map new ++ entries_map (e # old)"
      using old_map Some by (auto simp: entries_map_Cons map_add_def fun_eq_iff split: option.splits)
    ultimately show ?thesis using step Some by (simp add: map live_Cons u)
  qed
qed

lemma distinct_map_filter_nth:
  assumes "\<forall>i<length xs. \<forall>j<length xs. f (xs ! i) \<noteq> None \<longrightarrow> f (xs ! i) = f (xs ! j) \<longrightarrow> i = j"
  shows "distinct (map f (filter (\<lambda>x. f x \<noteq> None) xs))"
  using assms
proof (induction xs)
  case Nil
  then show ?case by simp
next
  case (Cons x xs)
  have "\<forall>i<length xs. \<forall>j<length xs. f (xs ! i) \<noteq> None \<longrightarrow> f (xs ! i) = f (xs ! j) \<longrightarrow> i = j"
  proof (intro allI impI)
    fix i j
    assume "i < length xs" "j < length xs" "f (xs ! i) \<noteq> None" "f (xs ! i) = f (xs ! j)"
    with Cons.prems [rule_format, of "Suc i" "Suc j"] show "i = j" by simp
  qed
  with Cons.IH have d: "distinct (map f (filter (\<lambda>x. f x \<noteq> None) xs))" by blast
  have "f x \<notin> f ` set xs" if "f x \<noteq> None"
  proof
    assume "f x \<in> f ` set xs"
    then obtain j where "j < length xs" "f x = f (xs ! j)" by (auto simp: in_set_conv_nth)
    with Cons.prems [rule_format, of 0 "Suc j"] that show False by simp
  qed
  with d show ?case by auto
qed

lemma keys_distinct:
  "wf_entries hash es \<Longrightarrow> distinct (map e_key (filter (\<lambda>e. e_key e \<noteq> None) es))"
  unfolding wf_entries_def by (rule distinct_map_filter_nth) blast

subsection \<open>Growth\<close>

definition hm_limit :: nat where
  "hm_limit = 805306368"

lemma hm_limit_pow2: "hm_limit = 3 * 2 ^ 28"
  by (simp add: hm_limit_def)

lemma wf_entries_fresh: "wf_entries hash (replicate n \<lparr>e_key = None, e_value = VNull\<rparr>)"
  by (simp add: wf_entries_def)

lemma used_fresh: "used (replicate n \<lparr>e_key = None, e_value = VNull\<rparr>) = 0"
  by (simp add: used_def is_empty_entry_def)

lemma entries_map_fresh: "entries_map (replicate n \<lparr>e_key = None, e_value = VNull\<rparr>) = Map.empty"
  by (rule ext) (simp add: entries_map_None)

lemma adjust_capacity_correct:
  fixes m :: "'k hashmap"
  assumes "hm_wf hash m" and "pow2_capacity c" and "4 * live (hm_entries m) \<le> 3 * c"
  shows "\<exists>m'. adjust_capacity hash m c = Inr m' \<and> hm_wf hash m' \<and> hm_map m' = hm_map m \<and>
    hm_capacity m' = c \<and> hm_count m' = live (hm_entries m)"
proof -
  let ?new = "replicate c \<lparr>e_key = None, e_value = VNull\<rparr> :: 'k entry list"
  have wf: "wf_entries hash (hm_entries m)" using assms(1) by (simp add: hm_wf_def)
  have lt: "live (hm_entries m) < c" using assms(3) pow2_capacityD(3) [OF assms(2)] by linarith
  have "\<exists>es. rehash hash (hm_entries m) ?new (length ?new) (used ?new)
          = Inr (es, used ?new + live (hm_entries m)) \<and>
     length es = length ?new \<and> wf_entries hash es \<and> used es = used ?new + live (hm_entries m) \<and>
     entries_map es = entries_map ?new ++ entries_map (hm_entries m)"
    using keys_distinct [OF wf]
    by (intro rehash_correct)
       (simp_all add: assms lt wf_entries_fresh used_fresh entries_map_fresh
          no_tombstones_def is_empty_entry_def)
  then show ?thesis using assms(2,3)
    by (auto simp: adjust_capacity_def used_fresh entries_map_fresh hm_wf_def hm_map_def)
qed

lemma ensure_capacity_correct:
  assumes "hm_wf hash m" and "hm_count m < hm_limit"
  shows "\<exists>m'. ensure_capacity hash m = Inr m' \<and> hm_wf hash m' \<and> hm_map m' = hm_map m \<and>
    hm_count m' \<le> hm_count m \<and> pow2_capacity (hm_capacity m') \<and>
    4 * (hm_count m' + 1) \<le> 3 * hm_capacity m'"
proof (cases "4 * (hm_count m + 1) > 3 * hm_capacity m")
  case False
  with assms show ?thesis by (auto simp: ensure_capacity_def hm_wf_def)
next
  case True
  let ?c = "macro_grow_capacity (hm_capacity m)"
  have "hm_capacity m < 2 ^ 30" using True assms(2) by (simp add: hm_limit_def)
  moreover have "hm_capacity m = 0 \<or> pow2_capacity (hm_capacity m)"
    using assms(1) by (simp add: hm_wf_def)
  ultimately have c: "pow2_capacity ?c" by (intro growth_pow2)
  have live: "live (hm_entries m) \<le> hm_count m"
    using assms(1) live_le_used by (simp add: hm_wf_def)
  have "4 * hm_count m \<le> 3 * hm_capacity m" using assms(1) by (simp add: hm_wf_def)
  then have room: "4 * (hm_count m + 1) \<le> 3 * ?c"
    by (auto simp: macro_grow_capacity_def)
  from adjust_capacity_correct [OF assms(1) c] live room
  obtain m' where "adjust_capacity hash m ?c = Inr m'" "hm_wf hash m'" "hm_map m' = hm_map m"
    "hm_capacity m' = ?c" "hm_count m' = live (hm_entries m)" by auto
  with True c live room show ?thesis by (auto simp: ensure_capacity_def)
qed

subsection \<open>The operations\<close>

lemma hm_wf_good_slot:
  assumes "hm_wf hash m" and "hm_capacity m \<noteq> 0"
  obtains i where "good_slot hash (hm_entries m) k i"
  using put_entry [OF hm_wf_room(1-3) [OF assms]] by blast

lemma good_slotD:
  assumes "good_slot hash (hm_entries m) k i" and "hm_wf hash m"
  shows "find_entry hash (hm_entries m) (hm_capacity m) k = Inr i"
    and "i < length (hm_entries m)"
    and "e_key (hm_entries m ! i) = None \<or> e_key (hm_entries m ! i) = Some k"
    and "hm_map m k = (if e_key (hm_entries m ! i) = None then None else Some (e_value (hm_entries m ! i)))"
  using assms by (auto simp: good_slot_def hm_wf_def hm_map_def)

lemma hashmap_set_map:
  assumes "hm_wf hash m" and "hm_count m < hm_limit"
  shows "\<exists>m'. hashmap_set hash m k v = Inr (m', hm_map m k = None) \<and> hm_wf hash m' \<and>
    hm_map m' = (hm_map m)(k \<mapsto> v) \<and> hm_count m' \<le> Suc (hm_count m)"
proof -
  obtain m1 where m1: "ensure_capacity hash m = Inr m1" "hm_wf hash m1" "hm_map m1 = hm_map m"
    "hm_count m1 \<le> hm_count m" "pow2_capacity (hm_capacity m1)"
    "4 * (hm_count m1 + 1) \<le> 3 * hm_capacity m1"
    using ensure_capacity_correct [OF assms] by blast
  have "hm_capacity m1 \<noteq> 0" using m1(6) by auto
  from hm_wf_good_slot [OF m1(2) this] obtain i where i: "good_slot hash (hm_entries m1) k i" .
  note slot = good_slotD [OF i m1(2)]
  let ?m = "m1\<lparr>hm_count := (if is_empty_entry (hm_entries m1 ! i) then hm_count m1 + 1 else hm_count m1),
                hm_entries := (hm_entries m1)[i := \<lparr>e_key = Some k, e_value = v\<rparr>]\<rparr>"
  have "hashmap_set hash m k v = Inr (?m, hm_map m k = None)"
    using slot(4) m1(3) by (simp add: hashmap_set_def m1(1) slot(1) Let_def is_empty_entry_def)
  moreover have "hm_wf hash ?m"
    using m1(2,6) i slot(2) by (simp add: hm_wf_def used_update good_slot_def)
  moreover have "hm_map ?m = (hm_map m)(k \<mapsto> v)"
    using i m1(3) by (simp add: hm_map_def good_slot_def)
  moreover have "hm_count ?m \<le> Suc (hm_count m)" using m1(4) by simp
  ultimately show ?thesis by blast
qed

lemma hm_count_capacity: "hm_wf hash m \<Longrightarrow> hm_count m \<noteq> 0 \<Longrightarrow> hm_capacity m \<noteq> 0"
  by (auto simp: hm_wf_def)

lemma hashmap_get_map:
  assumes "hm_wf hash m"
  shows "hashmap_get hash m k = Inr (case hm_map m k of None \<Rightarrow> VNull | Some v \<Rightarrow> v)"
proof (cases "hm_count m = 0")
  case True
  with hm_wf_count_0 [OF assms True] show ?thesis by (simp add: hashmap_get_def)
next
  case False
  obtain i where "good_slot hash (hm_entries m) k i"
    using hm_wf_good_slot [OF assms hm_count_capacity [OF assms False]] .
  note slot = good_slotD [OF this assms]
  show ?thesis using False by (simp add: hashmap_get_def slot(1,4) Let_def)
qed

lemma hashmap_contains_map:
  assumes "hm_wf hash m"
  shows "hashmap_contains_key hash m k = Inr (hm_map m k \<noteq> None)"
proof (cases "hm_count m = 0")
  case True
  with hm_wf_count_0 [OF assms True] show ?thesis by (simp add: hashmap_contains_key_def)
next
  case False
  obtain i where "good_slot hash (hm_entries m) k i"
    using hm_wf_good_slot [OF assms hm_count_capacity [OF assms False]] .
  note slot = good_slotD [OF this assms]
  show ?thesis using False by (simp add: hashmap_contains_key_def slot(1,4))
qed

lemma hashmap_remove_map:
  assumes "hm_wf hash m"
  shows "\<exists>m'. hashmap_remove hash m k = Inr (m', hm_map m k \<noteq> None) \<and> hm_wf hash m' \<and>
    hm_map m' = (hm_map m)(k := None) \<and> hm_count m' = hm_count m"
proof (cases "hm_count m = 0")
  case True
  with hm_wf_count_0 [OF assms True] assms show ?thesis by (simp add: hashmap_remove_def fun_upd_idem)
next
  case False
  obtain i where i: "good_slot hash (hm_entries m) k i"
    using hm_wf_good_slot [OF assms hm_count_capacity [OF assms False]] .
  note slot = good_slotD [OF i assms]
  have wf: "wf_entries hash (hm_entries m)" using assms by (simp add: hm_wf_def)
  show ?thesis
  proof (cases "e_key (hm_entries m ! i) = None")
    case True
    with False slot assms show ?thesis by (simp add: hashmap_remove_def fun_upd_idem)
  next
    case key: False
    let ?m = "m\<lparr>hm_entries := (hm_entries m)[i := \<lparr>e_key = None, e_value = VBool True\<rparr>]\<rparr>"
    have k: "e_key (hm_entries m ! i) = Some k" using slot(3) key by blast
    have "hashmap_remove hash m k = Inr (?m, hm_map m k \<noteq> None)"
      using False k slot(1,4) by (simp add: hashmap_remove_def)
    moreover have "hm_wf hash ?m"
      using assms by (simp add: hm_wf_def used_tombstone [OF slot(2) key] wf_entries_tombstone [OF wf slot(2)])
    moreover have "hm_map ?m = (hm_map m)(k := None)"
      by (simp add: hm_map_def entries_map_tombstone [OF wf slot(2) k])
    ultimately show ?thesis by simp
  qed
qed

lemma hashmap_get_entry_map:
  assumes "hm_wf hash m" and "hm_count m < hm_limit"
  shows "\<exists>m' i. hashmap_get_entry hash m k = Inr (m', i) \<and> hm_wf hash m' \<and> hm_map m' = hm_map m \<and>
    i < length (hm_entries m') \<and>
    hm_map m k = (if e_key (hm_entries m' ! i) = None then None else Some (e_value (hm_entries m' ! i)))"
proof -
  obtain m1 where m1: "ensure_capacity hash m = Inr m1" "hm_wf hash m1" "hm_map m1 = hm_map m"
    "4 * (hm_count m1 + 1) \<le> 3 * hm_capacity m1"
    using ensure_capacity_correct [OF assms] by blast
  have "hm_capacity m1 \<noteq> 0" using m1(4) by auto
  from hm_wf_good_slot [OF m1(2) this] obtain i where i: "good_slot hash (hm_entries m1) k i" .
  note slot = good_slotD [OF i m1(2)]
  from m1 slot show ?thesis by (auto simp: hashmap_get_entry_def)
qed

subsection \<open>Copying one table into another\<close>

lemma add_entries_map:
  assumes "hm_wf hash to" and "hm_count to + live es \<le> hm_limit"
    and "distinct (map e_key (filter (\<lambda>e. e_key e \<noteq> None) es))"
  shows "\<exists>m'. add_entries hash es to = Inr m' \<and> hm_wf hash m' \<and>
    hm_map m' = hm_map to ++ entries_map es \<and> hm_count m' \<le> hm_count to + live es"
  using assms
proof (induction es arbitrary: to)
  case Nil
  then show ?case by (simp add: live_def)
next
  case (Cons e es)
  show ?case
  proof (cases "e_key e")
    case None
    with Cons show ?thesis by (simp add: live_Cons entries_map_Cons)
  next
    case (Some k)
    have "hm_count to < hm_limit" using Cons.prems(2) Some by (simp add: live_Cons)
    from hashmap_set_map [OF Cons.prems(1) this]
    obtain m1 b where m1: "hashmap_set hash to k (e_value e) = Inr (m1, b)" "hm_wf hash m1"
      "hm_map m1 = (hm_map to)(k \<mapsto> e_value e)" "hm_count m1 \<le> Suc (hm_count to)"
      by metis
    have "hm_count m1 + live es \<le> hm_limit" using m1(4) Cons.prems(2) Some by (simp add: live_Cons)
    with Cons.IH [OF m1(2)] Cons.prems(3) obtain m' where m': "add_entries hash es m1 = Inr m'"
      "hm_wf hash m'" "hm_map m' = hm_map m1 ++ entries_map es" "hm_count m' \<le> hm_count m1 + live es"
      using Some by auto
    have "e_key e' \<noteq> Some k" if "e' \<in> set es" for e'
      using Cons.prems(3) Some that by (force simp: image_iff)
    then have "entries_map es k = None" by (auto simp: entries_map_None)
    then have "(hm_map to)(k \<mapsto> e_value e) ++ entries_map es = hm_map to ++ entries_map (e # es)"
      using Some by (auto simp: entries_map_Cons map_add_def fun_eq_iff split: option.splits)
    with m' m1 Some show ?thesis by (simp add: live_Cons)
  qed
qed

lemma hashmap_add_all_map:
  assumes "hm_wf hash from" and "hm_wf hash to" and "hm_count to + hm_count from \<le> hm_limit"
  shows "\<exists>m'. hashmap_add_all hash from to = Inr m' \<and> hm_wf hash m' \<and> hm_map m' = hm_map to ++ hm_map from"
proof -
  have wf: "wf_entries hash (hm_entries from)" using assms(1) by (simp add: hm_wf_def)
  have "live (hm_entries from) \<le> hm_count from"
    using assms(1) live_le_used by (simp add: hm_wf_def)
  then have "hm_count to + live (hm_entries from) \<le> hm_limit" using assms(3) by simp
  from add_entries_map [OF assms(2) this keys_distinct [OF wf]] show ?thesis
    by (auto simp: hashmap_add_all_def hm_map_def)
qed

subsection \<open>Lookup by content\<close>

definition key_matches :: "('k \<Rightarrow> u32) \<Rightarrow> ('k \<Rightarrow> string) \<Rightarrow> string \<Rightarrow> u32 \<Rightarrow> 'k entry \<Rightarrow> bool" where
  "key_matches hash chars key h e =
     (case e_key e of None \<Rightarrow> False | Some s \<Rightarrow> chars s = key \<and> hash s = h)"

lemma find_key_stops:
  assumes cap: "pow2_capacity (length es)"
    and before: "\<forall>d<D. \<not> is_empty_entry (at es s0 d) \<and> \<not> key_matches hash chars key h (at es s0 d)"
    and stop: "is_empty_entry (at es s0 D) \<or> key_matches hash chars key h (at es s0 D)"
    and "d0 \<le> D" and "D - d0 < rounds"
  shows "find_key_loop hash chars es (length es) key h ((s0 + d0) mod length es) rounds
     = Inr (e_key (at es s0 D))"
  using assms(4,5)
proof (induction rounds arbitrary: d0)
  case 0
  then show ?case by simp
next
  case (Suc rounds)
  let ?i = "(s0 + d0) mod length es"
  have bound: "\<not> length es \<le> ?i" using pow2_capacityD(3) [OF cap] by (simp add: not_le)
  show ?case
  proof (cases "d0 = D")
    case True
    with stop bound show ?thesis
      by (auto simp: at_mod Let_def is_empty_entry_def key_matches_def split: option.splits)
  next
    case False
    with Suc.prems have d0: "d0 < D" by simp
    with before have b: "\<not> is_empty_entry (at es s0 d0)" "\<not> key_matches hash chars key h (at es s0 d0)"
      by auto
    from d0 Suc.prems have lt: "Suc d0 \<le> D" "D - Suc d0 < rounds" by auto
    from Suc.IH [OF lt] b bound show ?thesis
      by (auto simp: at_mod Let_def next_slot_at [OF cap] is_empty_entry_def key_matches_def
          split: option.splits)
  qed
qed

lemma hashmap_find_key_map:
  assumes "hm_wf hash m"
  shows "\<exists>r. hashmap_find_key hash chars m key h = Inr r \<and>
    (case r of
       Some s \<Rightarrow> s \<in> dom (hm_map m) \<and> chars s = key \<and> hash s = h
     | None \<Rightarrow> \<forall>s \<in> dom (hm_map m). \<not> (chars s = key \<and> hash s = h))"
proof (cases "hm_count m = 0")
  case True
  with hm_wf_count_0 [OF assms True] show ?thesis by (simp add: hashmap_find_key_def dom_def)
next
  case False
  note room = hm_wf_room [OF assms hm_count_capacity [OF assms False]]
  let ?es = "hm_entries m" and ?h0 = "unat h mod length (hm_entries m)"
  define stops where "stops d \<longleftrightarrow> is_empty_entry (at ?es ?h0 d) \<or> key_matches hash chars key h (at ?es ?h0 d)" for d
  define D where "D = (LEAST d. stops d)"
  from room(3) obtain j where j: "j < length ?es" "is_empty_entry (?es ! j)"
    unfolding used_def using exists_not_filter by blast
  from slot_reaches [OF j(1), of ?h0] obtain d1 where d1: "d1 < length ?es" "j = (?h0 + d1) mod length ?es"
    by blast
  with j(2) have s1: "stops d1" by (simp add: stops_def at_def)
  have D: "stops D" unfolding D_def using s1 by (rule LeastI)
  have le: "D \<le> d" if "stops d" for d unfolding D_def using that by (rule Least_le)
  have "D < length ?es" using le [OF s1] d1(1) by simp
  moreover have "\<forall>d<D. \<not> stops d" using not_less_Least unfolding D_def by blast
  ultimately have "find_key_loop hash chars ?es (length ?es) key h ((?h0 + 0) mod length ?es) (length ?es)
      = Inr (e_key (at ?es ?h0 D))"
    using D by (intro find_key_stops [OF room(1)]) (auto simp: stops_def)
  then have r: "hashmap_find_key hash chars m key h = Inr (e_key (at ?es ?h0 D))"
    using False room by (simp add: hashmap_find_key_def slot_of_mod)
  have pos: "0 < length ?es" using pow2_capacityD(3) [OF room(1)] .
  show ?thesis
  proof (cases "e_key (at ?es ?h0 D)")
    case (Some s)
    with D have "chars s = key" "hash s = h"
      by (auto simp: stops_def key_matches_def is_empty_entry_def)
    moreover have "hm_map m s \<noteq> None"
      using entries_map_key [of "(?h0 + D) mod length ?es" ?es s] Some pos
      by (simp add: hm_map_def at_def)
    ultimately show ?thesis using r Some by auto
  next
    case None
    have "False" if s: "hm_map m s = Some v" "chars s = key" "hash s = h" for s v
    proof -
      from s(1) obtain i where i: "i < length ?es" "e_key (?es ! i) = Some s"
        by (auto simp: hm_map_def entries_map_Some [OF room(2)])
      from s(3) have "home hash ?es s = ?h0" by (simp add: home_def)
      with room(2) i obtain d where d: "i = (?h0 + d) mod length ?es"
        "\<forall>d'<d. \<not> is_empty_entry (at ?es ?h0 d')" unfolding wf_entries_def by metis
      have "key_matches hash chars key h (at ?es ?h0 d)"
        using d(1) i(2) s(2,3) by (simp add: key_matches_def at_def)
      then have "D \<le> d" by (intro le) (simp add: stops_def)
      moreover have "D \<noteq> d" using None d(1) i(2) by (auto simp: at_def)
      ultimately have "\<not> is_empty_entry (at ?es ?h0 D)" using d(2) by simp
      with D None show False by (simp add: stops_def key_matches_def)
    qed
    then show ?thesis using r None by auto
  qed
qed

subsection \<open>Keys, values and equality\<close>

lemma collect_entries_live:
  fixes acc :: "'b list"
  shows "length acc + live es \<le> count \<Longrightarrow>
   collect_entries f count es acc = acc @ [f (the (e_key e)) (e_value e). e \<leftarrow> es, e_key e \<noteq> None]"
proof (induction es arbitrary: acc)
  case Nil
  then show ?case by simp
next
  case (Cons e es)
  have none: "length acc' = count \<Longrightarrow> length acc' + live es \<le> count \<Longrightarrow>
      [f (the (e_key e)) (e_value e). e \<leftarrow> es, e_key e \<noteq> None] = []" for acc' :: "'b list"
    by (auto simp: live_def filter_empty_conv)
  show ?case
  proof (cases "e_key e")
    case None
    with Cons.prems Cons.IH [of acc] none [of acc] show ?thesis by (auto simp: Let_def live_Cons)
  next
    case (Some k)
    with Cons.prems Cons.IH [of "acc @ [f k (e_value e)]"] none [of "acc @ [f k (e_value e)]"]
    show ?thesis by (auto simp: Let_def live_Cons)
  qed
qed

lemma live_keys:
  "map Some [the (e_key e). e \<leftarrow> es, e_key e \<noteq> None] = map e_key (filter (\<lambda>e. e_key e \<noteq> None) es)"
  by (induction es) auto

lemma hashmap_keys_map:
  assumes "hm_wf hash m"
  shows "distinct (hashmap_keys m)" and "set (hashmap_keys m) = dom (hm_map m)"
    and "map (hm_map m) (hashmap_keys m) = map Some (hashmap_values m)"
proof -
  let ?ks = "[the (e_key e). e \<leftarrow> hm_entries m, e_key e \<noteq> None]"
  have wf: "wf_entries hash (hm_entries m)" using assms by (simp add: hm_wf_def)
  have le: "length ([] :: 'b list) + live (hm_entries m) \<le> hm_count m"
    using assms live_le_used by (simp add: hm_wf_def)
  have ks: "hashmap_keys m = ?ks"
    using collect_entries_live [OF le] by (simp add: hashmap_keys_def)
  have vs: "hashmap_values m = [e_value e. e \<leftarrow> hm_entries m, e_key e \<noteq> None]"
    using collect_entries_live [OF le] by (simp add: hashmap_values_def)
  show "distinct (hashmap_keys m)"
    using keys_distinct [OF wf] unfolding ks live_keys [symmetric] by (simp add: distinct_map)
  show "set (hashmap_keys m) = dom (hm_map m)"
  proof (intro set_eqI iffI)
    fix k assume "k \<in> set (hashmap_keys m)"
    then obtain e where "e \<in> set (hm_entries m)" "e_key e = Some k" by (auto simp: ks)
    then show "k \<in> dom (hm_map m)"
      using entries_map_key by (fastforce simp: hm_map_def in_set_conv_nth)
  next
    fix k assume "k \<in> dom (hm_map m)"
    then obtain i v where "i < length (hm_entries m)" "hm_entries m ! i = \<lparr>e_key = Some k, e_value = v\<rparr>"
      by (auto simp: hm_map_def entries_map_Some [OF wf])
    then have "\<lparr>e_key = Some k, e_value = v\<rparr> \<in> set (hm_entries m)" by (metis nth_mem)
    then show "k \<in> set (hashmap_keys m)" by (force simp: ks)
  qed
  have vals: "\<forall>e\<in>set es. e_key e \<noteq> None \<longrightarrow> hm_map m (the (e_key e)) = Some (e_value e) \<Longrightarrow>
      map (hm_map m) [the (e_key e). e \<leftarrow> es, e_key e \<noteq> None]
      = map Some [e_value e. e \<leftarrow> es, e_key e \<noteq> None]" for es
    by (induction es) auto
  have "hm_map m k = Some (e_value e)" if "e \<in> set (hm_entries m)" "e_key e = Some k" for e k
  proof -
    have "e = \<lparr>e_key = Some k, e_value = e_value e\<rparr>" using that(2) by (cases e) simp
    with that(1) show ?thesis
      unfolding hm_map_def entries_map_Some [OF wf] in_set_conv_nth by metis
  qed
  then have "\<forall>e\<in>set (hm_entries m). e_key e \<noteq> None \<longrightarrow> hm_map m (the (e_key e)) = Some (e_value e)"
    by auto
  then show "map (hm_map m) (hashmap_keys m) = map Some (hashmap_values m)"
    unfolding ks vs by (rule vals)
qed

lemma keys_in_map:
  assumes "hm_wf hash right"
  shows "keys_in hash es right = Inr (\<forall>e\<in>set es. \<forall>k. e_key e = Some k \<longrightarrow> k \<in> dom (hm_map right))"
  by (induction es) (auto simp: hashmap_contains_map [OF assms] split: option.splits)

lemma hashmap_equal_map:
  assumes "hm_wf hash left" and "hm_wf hash right"
  shows "hashmap_equal hash left right
     = Inr (hm_count left = hm_count right \<and> dom (hm_map left) \<subseteq> dom (hm_map right))"
proof -
  have "(\<forall>e\<in>set (hm_entries left). \<forall>k. e_key e = Some k \<longrightarrow> k \<in> dom (hm_map right))
      \<longleftrightarrow> dom (hm_map left) \<subseteq> dom (hm_map right)"
  proof -
    have wf: "wf_entries hash (hm_entries left)" using assms(1) by (simp add: hm_wf_def)
    have "k \<in> dom (hm_map left) \<longleftrightarrow> (\<exists>e\<in>set (hm_entries left). e_key e = Some k)" for k
      unfolding hm_map_def domIff entries_map_None by (metis in_set_conv_nth)
    then show ?thesis by blast
  qed
  then show ?thesis by (simp add: hashmap_equal_def keys_in_map [OF assms(2)])
qed

subsection \<open>The interface, provided\<close>

interpretation hm: table "hm_wf hash" hm_map hm_count hm_limit VNull "hashmap_set hash"
  "hashmap_get hash" "hashmap_remove hash" "hashmap_contains_key hash"
  for hash :: "'k \<Rightarrow> u32"
  by unfold_locales
    (rule hashmap_set_map hashmap_get_map hashmap_remove_map hashmap_contains_map; assumption)+

subsection \<open>The properties of the hash table\<close>

text \<open>
  C19: Every sequence of insertions and removals on a fresh table, up to 805306368 (three quarters
  of 2 to the 30) of them, returns, and the table it leaves answers every lookup as the finite
  map the operations describe.
\<close>

theorem hashmap_refines_map:
  fixes hash :: "'k \<Rightarrow> u32"
  assumes "length ops \<le> hm_limit"
  shows "\<exists>m. run_table (hashmap_set hash) (hashmap_remove hash) ops init_hashmap = Inr m \<and>
    hm_wf hash m \<and> hm_map m = spec_table ops Map.empty \<and>
    (\<forall>k. hashmap_get hash m k = Inr (case spec_table ops Map.empty k of None \<Rightarrow> VNull | Some v \<Rightarrow> v))"
proof -
  have "hm_count (init_hashmap :: 'k hashmap) + length ops \<le> hm_limit"
    using assms by (simp add: init_hashmap_def)
  from hm.run_refines [OF hm_wf_empty [of hash] this] show ?thesis
    by (auto simp: hm_map_empty hashmap_get_map)
qed

lemma hashmap_refines_map_witness:
  "\<exists>m. run_table (hashmap_set of_nat) (hashmap_remove of_nat)
      [Put 1 VNone, Put 9 (VBool True), Del (1 :: nat)] init_hashmap = Inr m \<and>
    hashmap_get of_nat m 9 = Inr (VBool True) \<and> hashmap_get of_nat m 1 = Inr VNull"
  using hashmap_refines_map [of "[Put 1 VNone, Put 9 (VBool True), Del (1 :: nat)]" of_nat]
  by (auto simp: hm_limit_def)

text \<open>
  C20: Inserting into a well-formed table with room returns, keeps the table well formed (capacity
  a power of two, load at most three quarters, every key reachable from its home slot), changes
  the map at that key alone, and reports whether the key is new; growing the table is invisible.
\<close>

theorem hashmap_set_correct:
  assumes "hm_wf hash m" and "hm_count m < hm_limit"
  shows "\<exists>m'. hashmap_set hash m k v = Inr (m', hm_map m k = None) \<and> hm_wf hash m' \<and>
    hm_map m' = (hm_map m)(k \<mapsto> v) \<and> hm_count m' \<le> Suc (hm_count m)"
  by (rule hm.put_law [OF assms])

lemma hashmap_set_correct_witness:
  "\<exists>m. hashmap_set of_nat init_hashmap (5 :: nat) VNone = Inr (m, True) \<and> hm_map m = [5 \<mapsto> VNone]"
  using hashmap_set_correct [OF hm_wf_empty, of of_nat 5 VNone]
  by (auto simp: init_hashmap_def hm_limit_def hm_map_def)

text \<open>Removing a key from a well-formed table returns and removes that key alone: the tombstone
  left in its slot keeps every other key findable. The count does not go down.
\<close>

theorem hashmap_remove_correct:
  assumes "hm_wf hash m"
  shows "\<exists>m'. hashmap_remove hash m k = Inr (m', hm_map m k \<noteq> None) \<and> hm_wf hash m' \<and>
    hm_map m' = (hm_map m)(k := None) \<and> hm_count m' = hm_count m"
  by (rule hm.del_law [OF assms])

lemma hashmap_remove_correct_witness:
  "hashmap_remove of_nat init_hashmap (5 :: nat) = Inr (init_hashmap, False)"
  using hashmap_remove_correct [OF hm_wf_empty, of of_nat 5]
  by (simp add: hashmap_remove_def init_hashmap_def hm_map_def)

text \<open>
  The content lookup the string pool uses returns, and finds a stored key exactly when one
  with these characters and this hash is stored.
\<close>

theorem hashmap_find_key_correct:
  assumes "hm_wf hash m"
  shows "\<exists>r. hashmap_find_key hash chars m key h = Inr r \<and>
    (case r of
       Some s \<Rightarrow> s \<in> dom (hm_map m) \<and> chars s = key \<and> hash s = h
     | None \<Rightarrow> \<forall>s \<in> dom (hm_map m). \<not> (chars s = key \<and> hash s = h))"
  by (rule hashmap_find_key_map [OF assms])

lemma hashmap_find_key_correct_witness:
  "hashmap_find_key of_nat (\<lambda>_. ''a'') init_hashmap ''a'' 0 = Inr (None :: nat option)"
  using hashmap_find_key_correct [OF hm_wf_empty, of of_nat "\<lambda>_. ''a''" "''a''" 0]
  by (simp add: hashmap_find_key_def init_hashmap_def)

text \<open>
  \<open>hashmap_equal\<close> compares the counts, removed entries included, and the keys, never the
  values: it answers whether the counts agree and the left keys are among the right ones.
\<close>

theorem hashmap_equal_compares_keys:
  assumes "hm_wf hash left" and "hm_wf hash right"
  shows "hashmap_equal hash left right
     = Inr (hm_count left = hm_count right \<and> dom (hm_map left) \<subseteq> dom (hm_map right))"
  by (rule hashmap_equal_map [OF assms])

lemma hashmap_equal_compares_keys_witness:
  "hashmap_equal of_nat (init_hashmap :: nat hashmap) init_hashmap = Inr True"
  using hashmap_equal_compares_keys [OF hm_wf_empty hm_wf_empty, of of_nat] by simp

text \<open>
  Copying a table into another (inheritance of members) returns when the target has room, and
  leaves the union of the two maps, the copied table winning.
\<close>

theorem hashmap_add_all_correct:
  assumes "hm_wf hash from" and "hm_wf hash to" and "hm_count to + hm_count from \<le> hm_limit"
  shows "\<exists>m'. hashmap_add_all hash from to = Inr m' \<and> hm_wf hash m' \<and> hm_map m' = hm_map to ++ hm_map from"
  by (rule hashmap_add_all_map [OF assms])

lemma hashmap_add_all_correct_witness:
  "hashmap_add_all of_nat init_hashmap (init_hashmap :: nat hashmap) = Inr init_hashmap"
  using hashmap_add_all_correct [OF hm_wf_empty hm_wf_empty, of of_nat]
  by (simp add: hashmap_add_all_def init_hashmap_def hm_limit_def)

end
