(* ===== verification/Joker_Vec.thy ===== *)
theory Joker_Vec
  imports Joker_Value Joker_Buffer
begin

text \<open>
  The two growing arrays of values: the value array \<open>Values\<close> (include/value.h, src/value.c), which
  holds the constants of a chunk, and the vector \<open>Vec\<close> (include/vec.h, src/vec.c), which holds the
  elements of a Joker \<open>Vec\<close>. Both are provided as a \<open>growing\<close> sequence; every other operation of the
  vector is proved to be the list operation it implements, on the elements \<open>vec_list\<close>.
\<close>

subsection \<open>The value array\<close>

record value_array =
  va_count :: nat
  va_capacity :: nat
  va_values :: "jvalue buffer"

definition init_value_array :: value_array where
  "init_value_array = \<lparr>va_count = 0, va_capacity = 0, va_values = []\<rparr>"

definition write_value_array :: "value_array \<Rightarrow> jvalue \<Rightarrow> value_array outcome" where
  "write_value_array array v =
     (let array = (if va_capacity array < va_count array + 1
                   then array\<lparr>va_capacity := macro_grow_capacity (va_capacity array),
                              va_values := reallocate (va_values array) (macro_grow_capacity (va_capacity array))\<rparr>
                   else array)
      in andThen (buf_write (va_values array) (va_count array) v) (\<lambda>b.
           Inr (array\<lparr>va_values := b, va_count := va_count array + 1\<rparr>)))"

definition value_at :: "value_array \<Rightarrow> nat \<Rightarrow> jvalue outcome" where
  "value_at array i = buf_read (va_values array) i"

definition va_list :: "value_array \<Rightarrow> jvalue list" where
  "va_list array = map the (take (va_count array) (va_values array))"

definition va_wf :: "value_array \<Rightarrow> bool" where
  "va_wf array \<longleftrightarrow> holds (va_values array) (va_list array) \<and>
     length (va_values array) = va_capacity array \<and> va_count array = length (va_list array)"

lemma va_list_eqI: "holds (va_values a) xs \<Longrightarrow> va_count a = length xs \<Longrightarrow> va_list a = xs"
  by (auto simp: va_list_def holds_def comp_def)

lemma va_wfI:
  "holds (va_values a) xs \<Longrightarrow> va_count a = length xs \<Longrightarrow> length (va_values a) = va_capacity a \<Longrightarrow>
   va_wf a \<and> va_list a = xs"
  using va_list_eqI [of a xs] by (simp add: va_wf_def)

lemma va_wf_init: "va_wf init_value_array \<and> va_list init_value_array = []"
  by (rule va_wfI) (simp_all add: init_value_array_def)

lemma write_value_array_list:
  assumes "va_wf a"
  shows "\<exists>a'. write_value_array a v = Inr a' \<and> va_wf a' \<and> va_list a' = va_list a @ [v]"
proof -
  let ?a = "if va_capacity a < va_count a + 1
     then a\<lparr>va_capacity := macro_grow_capacity (va_capacity a),
            va_values := reallocate (va_values a) (macro_grow_capacity (va_capacity a))\<rparr> else a"
  have h: "holds (va_values ?a) (va_list a)" "va_count a = length (va_list a)"
    and c: "length (va_values ?a) = va_capacity ?a" "va_count ?a = va_count a" "va_count a < va_capacity ?a"
    using assms holds_length [of "va_values a" "va_list a"] grow_capacity_gt [of "va_capacity a"]
    by (auto simp: va_wf_def holds_reallocate)
  then obtain b where b: "buf_write (va_values ?a) (length (va_list a)) v = Inr b"
    "holds b (va_list a @ [v])" "length b = length (va_values ?a)"
    using holds_write_last [OF h(1), of v] by auto
  then have "write_value_array a v = Inr (?a\<lparr>va_values := b, va_count := va_count a + 1\<rparr>)"
    using c(2) h(2) by (simp only: write_value_array_def Let_def andThen_simps)
  moreover have "va_wf (?a\<lparr>va_values := b, va_count := va_count a + 1\<rparr>) \<and>
      va_list (?a\<lparr>va_values := b, va_count := va_count a + 1\<rparr>) = va_list a @ [v]"
    using b c h(2) by (intro va_wfI) auto
  ultimately show ?thesis by blast
qed

interpretation va: growing va_wf va_list write_value_array value_at
proof unfold_locales
  show "va_wf m \<Longrightarrow> \<exists>m'. write_value_array m x = Inr m' \<and> va_wf m' \<and> va_list m' = va_list m @ [x]" for m x
    by (rule write_value_array_list)
  show "va_wf m \<Longrightarrow> i < length (va_list m) \<Longrightarrow> value_at m i = Inr (va_list m ! i)" for m i
    by (simp add: va_wf_def value_at_def holds_read)
qed

subsection \<open>The vector: its state and operations\<close>

text \<open>
  \<open>start\<close> is the block, \<open>end - start\<close> its length and \<open>finish - start\<close> the count of elements;
  \<open>start = NULL\<close> is the empty block.
\<close>

record vec =
  v_start :: "jvalue buffer"
  v_finish :: nat

definition new_vec :: "vec" where
  "new_vec = \<lparr>v_start = [], v_finish = 0\<rparr>"

definition new_vec_with_capacity :: "nat \<Rightarrow> vec" where
  "new_vec_with_capacity n = \<lparr>v_start = buf_alloc n, v_finish = 0\<rparr>"

definition vec_capacity :: "vec \<Rightarrow> nat" where
  "vec_capacity v = length (v_start v)"

definition vec_len :: "vec \<Rightarrow> nat" where
  "vec_len v = (if v_start v = [] then 0 else v_finish v)"

definition vec_is_empty :: "vec \<Rightarrow> bool" where
  "vec_is_empty v = (v_finish v = 0)"

function grow_until :: "nat \<Rightarrow> nat \<Rightarrow> nat" where
  "grow_until c m = (if c < m then grow_until (macro_grow_capacity c) m else c)"
  by auto
termination
  by (relation "measure (\<lambda>(c, m). m - c)") (auto simp: macro_grow_capacity_def)

declare grow_until.simps [simp del]

definition vec_resize :: "vec \<Rightarrow> nat \<Rightarrow> vec outcome" where
  "vec_resize v min_capacity =
     (let new_capacity = grow_until (macro_grow_capacity (vec_capacity v)) min_capacity;
          old_size = vec_len v
      in andThen (buf_copy (buf_alloc new_capacity) 0 (v_start v) old_size) (\<lambda>b.
           Inr \<lparr>v_start = b, v_finish = old_size\<rparr>))"

definition vec_room :: "vec \<Rightarrow> bool \<Rightarrow> nat \<Rightarrow> vec outcome" where
  "vec_room v full n = (if full then vec_resize v n else Inr v)"

definition vec_push :: "vec \<Rightarrow> jvalue \<Rightarrow> vec outcome" where
  "vec_push v x =
     andThen (vec_room v (vec_len v = vec_capacity v) (vec_len v + 1)) (\<lambda>v.
     andThen (buf_write (v_start v) (v_finish v) x) (\<lambda>b.
       Inr \<lparr>v_start = b, v_finish = v_finish v + 1\<rparr>))"

definition vec_pop :: "vec \<Rightarrow> (vec \<times> jvalue) outcome" where
  "vec_pop v =
     (if vec_is_empty v then Inl (Panic ''vec::pop'')
      else andThen (buf_read (v_start v) (v_finish v - 1)) (\<lambda>x.
        Inr (v\<lparr>v_finish := v_finish v - 1\<rparr>, x)))"

definition vec_first :: "vec \<Rightarrow> jvalue outcome" where
  "vec_first v = (if vec_is_empty v then Inl (Panic ''vec::first'') else buf_read (v_start v) 0)"

definition vec_last :: "vec \<Rightarrow> jvalue outcome" where
  "vec_last v =
     (if vec_is_empty v then Inl (Panic ''vec::last'') else buf_read (v_start v) (v_finish v - 1))"

definition vec_get :: "vec \<Rightarrow> nat \<Rightarrow> jvalue outcome" where
  "vec_get v index =
     (if vec_len v \<le> index then Inl (Panic ''vec::get'') else buf_read (v_start v) index)"

definition vec_set :: "vec \<Rightarrow> nat \<Rightarrow> jvalue \<Rightarrow> vec outcome" where
  "vec_set v index x =
     (if vec_len v \<le> index then Inl (Panic ''vec::set'')
      else andThen (buf_write (v_start v) index x) (\<lambda>b. Inr (v\<lparr>v_start := b\<rparr>)))"

text \<open>\<open>for (i = length; i > index; i--) start[i] = start[i - 1]\<close>\<close>

fun shift_up :: "jvalue buffer \<Rightarrow> nat \<Rightarrow> nat \<Rightarrow> jvalue buffer outcome" where
  "shift_up b 0 index = Inr b"
| "shift_up b (Suc i) index =
     (if index < Suc i then
        andThen (buf_read b i) (\<lambda>x. andThen (buf_write b (Suc i) x) (\<lambda>b. shift_up b i index))
      else Inr b)"

definition vec_insert :: "vec \<Rightarrow> nat \<Rightarrow> jvalue \<Rightarrow> vec outcome" where
  "vec_insert v index x =
     (let len = vec_len v in
      if len < index then Inl (Panic ''vec::insert'')
      else andThen (vec_room v (len = vec_capacity v) (len + 1)) (\<lambda>v.
        if index = len then
          andThen (buf_write (v_start v) (v_finish v) x) (\<lambda>b.
            Inr \<lparr>v_start = b, v_finish = v_finish v + 1\<rparr>)
        else
          andThen (shift_up (v_start v) len index) (\<lambda>b.
          andThen (buf_write b index x) (\<lambda>b.
            Inr \<lparr>v_start = b, v_finish = v_finish v + 1\<rparr>))))"

text \<open>\<open>for (i = index; i < length - 1; i++) start[i] = start[i + 1]\<close>, with \<open>n\<close> rounds left.\<close>

fun shift_down :: "jvalue buffer \<Rightarrow> nat \<Rightarrow> nat \<Rightarrow> jvalue buffer outcome" where
  "shift_down b i 0 = Inr b"
| "shift_down b i (Suc n) =
     andThen (buf_read b (i + 1)) (\<lambda>x. andThen (buf_write b i x) (\<lambda>b. shift_down b (i + 1) n))"

definition vec_remove :: "vec \<Rightarrow> nat \<Rightarrow> vec outcome" where
  "vec_remove v index =
     (let len = vec_len v in
      if len \<le> index then Inl (Panic ''vec::remove'')
      else andThen (shift_down (v_start v) index (len - 1 - index)) (\<lambda>b.
        Inr \<lparr>v_start = b, v_finish = v_finish v - 1\<rparr>))"

text \<open>The argument is a vector, never null, in every call.\<close>

definition vec_extend :: "vec \<Rightarrow> vec \<Rightarrow> vec outcome" where
  "vec_extend v other =
     (if vec_is_empty other then Inr v
      else let required = vec_len v + vec_len other in
        andThen (vec_room v (vec_capacity v < required) required) (\<lambda>v.
        andThen (buf_copy (v_start v) (v_finish v) (v_start other) (vec_len other)) (\<lambda>b.
          Inr \<lparr>v_start = b, v_finish = v_finish v + vec_len other\<rparr>)))"

definition vec_clear :: "vec \<Rightarrow> vec" where
  "vec_clear v = v\<lparr>v_finish := 0\<rparr>"

text \<open>\<open>for (i = 0; i < length / 2; i++)\<close> swap \<open>start[i]\<close> and \<open>start[length - i - 1]\<close>.\<close>

fun reverse_loop :: "jvalue buffer \<Rightarrow> nat \<Rightarrow> nat \<Rightarrow> nat \<Rightarrow> jvalue buffer outcome" where
  "reverse_loop b len i 0 = Inr b"
| "reverse_loop b len i (Suc n) =
     andThen (buf_read b i) (\<lambda>tmp.
     andThen (buf_read b (len - i - 1)) (\<lambda>x.
     andThen (buf_write b i x) (\<lambda>b.
     andThen (buf_write b (len - i - 1) tmp) (\<lambda>b.
       reverse_loop b len (i + 1) n))))"

definition vec_reverse :: "vec \<Rightarrow> vec outcome" where
  "vec_reverse v =
     andThen (reverse_loop (v_start v) (vec_len v) 0 (vec_len v div 2)) (\<lambda>b.
       Inr (v\<lparr>v_start := b\<rparr>))"

text \<open>
  \<open>vec_equal\<close> is given the equality of values, which belongs to the heap; like \<open>values_equal\<close> that
  equality may itself not come back.
\<close>

fun equal_loop ::
    "(jvalue \<Rightarrow> jvalue \<Rightarrow> bool outcome) \<Rightarrow> jvalue buffer \<Rightarrow> jvalue buffer \<Rightarrow> nat \<Rightarrow> nat \<Rightarrow> bool outcome" where
  "equal_loop eq l r i 0 = Inr True"
| "equal_loop eq l r i (Suc n) =
     andThen (buf_read l i) (\<lambda>x. andThen (buf_read r i) (\<lambda>y. andThen (eq x y) (\<lambda>e.
       if e then equal_loop eq l r (i + 1) n else Inr False)))"

definition vec_equal :: "(jvalue \<Rightarrow> jvalue \<Rightarrow> bool outcome) \<Rightarrow> vec \<Rightarrow> vec \<Rightarrow> bool outcome" where
  "vec_equal eq left right =
     (if vec_len left \<noteq> vec_len right then Inr False
      else equal_loop eq (v_start left) (v_start right) 0 (vec_len left))"

subsection \<open>The list a vector holds\<close>

definition vec_list :: "vec \<Rightarrow> jvalue list" where
  "vec_list v = map the (take (v_finish v) (v_start v))"

definition vec_wf :: "vec \<Rightarrow> bool" where
  "vec_wf v \<longleftrightarrow> holds (v_start v) (vec_list v) \<and> v_finish v = length (vec_list v)"

lemma vec_list_eqI: "holds (v_start v) xs \<Longrightarrow> v_finish v = length xs \<Longrightarrow> vec_list v = xs"
  by (auto simp: vec_list_def holds_def comp_def)

lemma vec_wfI:
  "holds (v_start v) xs \<Longrightarrow> v_finish v = length xs \<Longrightarrow> vec_wf v \<and> vec_list v = xs"
  using vec_list_eqI [of v xs] by (simp add: vec_wf_def)

lemma vec_wfD:
  assumes "vec_wf v"
  shows "holds (v_start v) (vec_list v)" and "v_finish v = length (vec_list v)"
    and "vec_len v = length (vec_list v)" and "vec_is_empty v \<longleftrightarrow> vec_list v = []"
    and "length (vec_list v) \<le> vec_capacity v"
  using assms holds_length [of "v_start v" "vec_list v"]
  by (auto simp: vec_wf_def vec_len_def vec_is_empty_def vec_capacity_def)

lemma vec_wf_new: "vec_wf new_vec \<and> vec_list new_vec = []"
  by (rule vec_wfI) (simp_all add: new_vec_def)

lemma vec_wf_new_with_capacity:
  "vec_wf (new_vec_with_capacity n) \<and> vec_list (new_vec_with_capacity n) = []"
  by (rule vec_wfI) (simp_all add: new_vec_with_capacity_def)

lemma grow_until_ge: "m \<le> grow_until c m \<and> c \<le> grow_until c m"
proof (induction c m rule: grow_until.induct)
  case (1 c m)
  then show ?case
    using grow_capacity_gt [of c] by (subst (1 2) grow_until.simps) (auto intro: order_trans)
qed

lemma vec_resize_list:
  assumes "vec_wf v"
  shows "\<exists>v'. vec_resize v n = Inr v' \<and> vec_wf v' \<and> vec_list v' = vec_list v \<and>
    n \<le> vec_capacity v' \<and> vec_capacity v < vec_capacity v'"
proof -
  let ?c = "grow_until (macro_grow_capacity (vec_capacity v)) n"
  note v = vec_wfD [OF assms]
  have c: "n \<le> ?c" "vec_capacity v < ?c"
    using grow_until_ge [of n "macro_grow_capacity (vec_capacity v)"] grow_capacity_gt [of "vec_capacity v"]
    by auto
  have "0 + length (vec_list v) \<le> length (buf_alloc ?c)" using v(5) c(2) by simp
  with holds_copy [OF holds_Nil v(1), of "buf_alloc ?c"] obtain b
    where b: "buf_copy (buf_alloc ?c) 0 (v_start v) (length (vec_list v)) = Inr b"
      "holds b (vec_list v)" "length b = ?c" by auto
  let ?v = "\<lparr>v_start = b, v_finish = vec_len v\<rparr>"
  have "vec_wf ?v \<and> vec_list ?v = vec_list v" using b v(3) by (intro vec_wfI) simp_all
  with b v(3) c show ?thesis by (simp add: vec_resize_def Let_def vec_capacity_def)
qed

lemma vec_room_list:
  assumes "vec_wf v" and "\<not> full \<Longrightarrow> n \<le> vec_capacity v"
  shows "\<exists>v'. vec_room v full n = Inr v' \<and> vec_wf v' \<and> vec_list v' = vec_list v \<and> n \<le> vec_capacity v'"
  using vec_resize_list [OF assms(1), of n] assms by (auto simp: vec_room_def)

lemma vec_append_last:
  assumes "vec_wf v" and "length (vec_list v) < vec_capacity v"
  shows "\<exists>b. buf_write (v_start v) (v_finish v) x = Inr b \<and>
    vec_wf \<lparr>v_start = b, v_finish = v_finish v + 1\<rparr> \<and>
    vec_list \<lparr>v_start = b, v_finish = v_finish v + 1\<rparr> = vec_list v @ [x]"
proof -
  note v = vec_wfD [OF assms(1)]
  obtain b where b: "buf_write (v_start v) (length (vec_list v)) x = Inr b" "holds b (vec_list v @ [x])"
    using holds_write_last [OF v(1)] assms(2) by (auto simp: vec_capacity_def)
  have "vec_wf \<lparr>v_start = b, v_finish = v_finish v + 1\<rparr> \<and>
    vec_list \<lparr>v_start = b, v_finish = v_finish v + 1\<rparr> = vec_list v @ [x]"
    using b v(2) by (intro vec_wfI) simp_all
  with b v(2) show ?thesis by auto
qed

lemma vec_push_list:
  assumes "vec_wf v"
  shows "\<exists>v'. vec_push v x = Inr v' \<and> vec_wf v' \<and> vec_list v' = vec_list v @ [x]"
proof -
  note v = vec_wfD [OF assms]
  obtain v1 where v1: "vec_room v (vec_len v = vec_capacity v) (vec_len v + 1) = Inr v1" "vec_wf v1"
    "vec_list v1 = vec_list v" "vec_len v + 1 \<le> vec_capacity v1"
    using vec_room_list [OF assms, of "vec_len v = vec_capacity v" "vec_len v + 1"] v(3,5) by auto
  with vec_append_last [OF v1(2), of x] v(3) show ?thesis by (auto simp: vec_push_def)
qed

lemma vec_get_list: "vec_wf v \<Longrightarrow> i < length (vec_list v) \<Longrightarrow> vec_get v i = Inr (vec_list v ! i)"
  using vec_wfD [of v] by (simp add: vec_get_def holds_read)

interpretation vec: growing vec_wf vec_list vec_push vec_get
  by unfold_locales (simp_all add: vec_push_list vec_get_list)

subsection \<open>The loops\<close>

lemma shift_up_block:
  "\<exists>c. shift_up (map Some (ys @ zs) @ c0 # rest) (length ys + length zs) (length ys)
     = Inr (map Some ys @ c # map Some zs @ rest)"
proof (induction zs arbitrary: c0 rest rule: rev_induct)
  case Nil
  then show ?case by (cases "length ys") (auto intro!: exI [of _ c0])
next
  case (snoc z zs)
  let ?b = "map Some (ys @ zs @ [z]) @ c0 # rest"
  have "buf_read ?b (length ys + length zs) = Inr z"
    by (simp add: buf_read_def nth_append)
  moreover have "buf_write ?b (Suc (length ys + length zs)) z
      = Inr (map Some (ys @ zs) @ Some z # (Some z # rest))"
    by (simp add: buf_write_def list_update_append)
  ultimately show ?case using snoc [of "Some z" "Some z # rest"] by simp
qed

lemma shift_down_block:
  "\<exists>c. shift_down (map Some (ys @ x # zs) @ rest) (length ys) (length zs)
     = Inr (map Some (ys @ zs) @ c # rest)"
proof (induction zs arbitrary: ys x)
  case Nil
  then show ?case by auto
next
  case (Cons z zs)
  let ?b = "map Some (ys @ x # z # zs) @ rest"
  have "buf_read ?b (length ys + 1) = Inr z"
    by (simp add: buf_read_def nth_append)
  moreover have "buf_write ?b (length ys) z = Inr (map Some ((ys @ [z]) @ z # zs) @ rest)"
    by (simp add: buf_write_def list_update_append)
  ultimately show ?case using Cons.IH [of "ys @ [z]" z] by simp
qed

lemma reverse_loop_block:
  "length as = length bs \<Longrightarrow> n = length ms div 2 \<Longrightarrow> len = 2 * length as + length ms \<Longrightarrow>
   reverse_loop (map Some (as @ ms @ bs) @ rest) len (length as) n
     = Inr (map Some (as @ rev ms @ bs) @ rest)"
proof (induction n arbitrary: as ms bs)
  case 0
  then have "length ms < 2" by auto
  then have "rev ms = ms" by (cases ms) (auto simp: less_Suc_eq)
  then show ?case by simp
next
  case (Suc n)
  then have "2 \<le> length ms" by (cases "length ms < 2") auto
  then obtain m ms1 where "ms = m # ms1" "ms1 \<noteq> []" by (cases ms) fastforce+
  then obtain ms' m' where ms: "ms = m # ms' @ [m']" by (metis rev_exhaust)
  let ?b = "map Some (as @ ms @ bs) @ rest" and ?i = "length as"
  have j: "len - ?i - 1 = length as + Suc (length ms')" using Suc.prems ms by simp
  have "buf_read ?b ?i = Inr m" "buf_read ?b (len - ?i - 1) = Inr m'"
    unfolding j ms by (simp_all add: buf_read_def nth_append)
  moreover have "buf_write ?b ?i m' = Inr (map Some (as @ m' # ms' @ [m'] @ bs) @ rest)"
    unfolding ms by (simp add: buf_write_def list_update_append)
  moreover have "buf_write (map Some (as @ m' # ms' @ [m'] @ bs) @ rest) (len - ?i - 1) m
      = Inr (map Some ((as @ [m']) @ ms' @ (m # bs)) @ rest)"
    unfolding j by (simp add: buf_write_def list_update_append)
  ultimately have "reverse_loop ?b len ?i (Suc n)
      = reverse_loop (map Some ((as @ [m']) @ ms' @ (m # bs)) @ rest) len (length (as @ [m'])) n"
    by simp
  also have "\<dots> = Inr (map Some ((as @ [m']) @ rev ms' @ (m # bs)) @ rest)"
    using Suc.prems ms by (intro Suc.IH) auto
  finally show ?case unfolding ms by simp
qed

subsection \<open>The operations, as list operations\<close>

lemma vec_block:
  assumes "vec_wf v" obtains rest where "v_start v = map Some (vec_list v) @ rest"
  using vec_wfD(1) [OF assms] by (auto simp: holds_iff_append)

lemma vec_insert_list:
  assumes "vec_wf v" and "index \<le> length (vec_list v)"
  shows "\<exists>v'. vec_insert v index x = Inr v' \<and> vec_wf v' \<and>
    vec_list v' = take index (vec_list v) @ x # drop index (vec_list v)"
proof -
  note v = vec_wfD [OF assms(1)]
  obtain v1 where v1: "vec_room v (vec_len v = vec_capacity v) (vec_len v + 1) = Inr v1" "vec_wf v1"
    "vec_list v1 = vec_list v" "vec_len v + 1 \<le> vec_capacity v1"
    using vec_room_list [OF assms(1), of "vec_len v = vec_capacity v" "vec_len v + 1"] v(3,5) by auto
  show ?thesis
  proof (cases "index = vec_len v")
    case True
    with vec_append_last [OF v1(2), of x] v1 v(3) show ?thesis
      by (auto simp: vec_insert_def Let_def)
  next
    case False
    let ?ys = "take index (vec_list v)" and ?zs = "drop index (vec_list v)"
    obtain r where r: "v_start v1 = map Some (?ys @ ?zs) @ r"
      using vec_block [OF v1(2)] v1(3) by (metis append_take_drop_id)
    moreover have "r \<noteq> []" using v1(4) v(3) r by (auto simp: vec_capacity_def)
    ultimately obtain c0 rest where b: "v_start v1 = map Some (?ys @ ?zs) @ c0 # rest"
      by (cases r) auto
    have len: "vec_len v = length ?ys + length ?zs" "index = length ?ys" using v(3) assms(2) by auto
    obtain c where c: "shift_up (v_start v1) (vec_len v) index = Inr (map Some ?ys @ c # map Some ?zs @ rest)"
      using shift_up_block [of ?ys ?zs c0 rest] b len by metis
    have w: "buf_write (map Some ?ys @ c # map Some ?zs @ rest) index x
        = Inr (map Some (?ys @ x # ?zs) @ rest)"
      using len(2) by (simp add: buf_write_def list_update_append)
    let ?v = "\<lparr>v_start = map Some (?ys @ x # ?zs) @ rest, v_finish = v_finish v1 + 1\<rparr>"
    have "vec_wf ?v \<and> vec_list ?v = ?ys @ x # ?zs"
      using vec_wfD(2) [OF v1(2)] v1(3) by (intro vec_wfI) (auto simp: holds_iff_append)
    moreover have "vec_insert v index x = Inr ?v"
      using False c w v1(1) v(3) assms(2) by (simp add: vec_insert_def Let_def)
    ultimately show ?thesis by blast
  qed
qed

lemma vec_remove_list:
  assumes "vec_wf v" and "index < length (vec_list v)"
  shows "\<exists>v'. vec_remove v index = Inr v' \<and> vec_wf v' \<and>
    vec_list v' = take index (vec_list v) @ drop (Suc index) (vec_list v)"
proof -
  note v = vec_wfD [OF assms(1)]
  let ?ys = "take index (vec_list v)" and ?zs = "drop (Suc index) (vec_list v)"
  obtain rest where "v_start v = map Some (vec_list v) @ rest" using vec_block [OF assms(1)] .
  then have b: "v_start v = map Some (?ys @ vec_list v ! index # ?zs) @ rest"
    using id_take_nth_drop [OF assms(2)] by simp
  have len: "vec_len v - 1 - index = length ?zs" "index = length ?ys" using v(3) assms(2) by auto
  obtain c where c: "shift_down (v_start v) index (vec_len v - 1 - index) = Inr (map Some (?ys @ ?zs) @ c # rest)"
    using shift_down_block [of ?ys "vec_list v ! index" ?zs rest] b len by metis
  let ?v = "\<lparr>v_start = map Some (?ys @ ?zs) @ c # rest, v_finish = v_finish v - 1\<rparr>"
  have "vec_wf ?v \<and> vec_list ?v = ?ys @ ?zs"
    using v(2) assms(2) by (intro vec_wfI) (auto simp: holds_iff_append)
  moreover have "vec_remove v index = Inr ?v"
    using c v(3) assms(2) by (simp add: vec_remove_def Let_def)
  ultimately show ?thesis by blast
qed

lemma vec_reverse_list:
  assumes "vec_wf v"
  shows "\<exists>v'. vec_reverse v = Inr v' \<and> vec_wf v' \<and> vec_list v' = rev (vec_list v)"
proof -
  note v = vec_wfD [OF assms]
  obtain rest where b: "v_start v = map Some (vec_list v) @ rest" using vec_block [OF assms] .
  have "reverse_loop (v_start v) (vec_len v) 0 (vec_len v div 2) = Inr (map Some (rev (vec_list v)) @ rest)"
    using reverse_loop_block [of "[]" "[]" "vec_len v div 2" "vec_list v" "vec_len v" rest] b v(3) by simp
  moreover have "vec_wf (v\<lparr>v_start := map Some (rev (vec_list v)) @ rest\<rparr>) \<and>
      vec_list (v\<lparr>v_start := map Some (rev (vec_list v)) @ rest\<rparr>) = rev (vec_list v)"
    using v(2) by (intro vec_wfI) (auto simp: holds_iff_append rev_map)
  ultimately show ?thesis by (simp add: vec_reverse_def)
qed

lemma vec_extend_list:
  assumes "vec_wf v" and "vec_wf w"
  shows "\<exists>v'. vec_extend v w = Inr v' \<and> vec_wf v' \<and> vec_list v' = vec_list v @ vec_list w"
proof (cases "vec_list w = []")
  case True
  with assms vec_wfD(4) [OF assms(2)] show ?thesis by (simp add: vec_extend_def)
next
  case False
  note v = vec_wfD [OF assms(1)] and w = vec_wfD [OF assms(2)]
  let ?n = "vec_len v + vec_len w"
  obtain v1 where v1: "vec_room v (vec_capacity v < ?n) ?n = Inr v1" "vec_wf v1"
    "vec_list v1 = vec_list v" "?n \<le> vec_capacity v1"
    using vec_room_list [OF assms(1), of "vec_capacity v < ?n" ?n] by auto
  note v1' = vec_wfD [OF v1(2)]
  obtain b where b: "buf_copy (v_start v1) (length (vec_list v1)) (v_start w) (length (vec_list w)) = Inr b"
    "holds b (vec_list v1 @ vec_list w)"
    using holds_copy [OF v1'(1) w(1)] v1(3,4) v(3) w(3) by (auto simp: vec_capacity_def)
  let ?v = "\<lparr>v_start = b, v_finish = v_finish v1 + vec_len w\<rparr>"
  have "vec_wf ?v \<and> vec_list ?v = vec_list v @ vec_list w"
    using b v1(3) v1'(2) w(3) by (intro vec_wfI) simp_all
  moreover have "vec_extend v w = Inr ?v"
    using False v1(1,3) b(1) v1'(2) w(3,4) by (simp add: vec_extend_def Let_def)
  ultimately show ?thesis by blast
qed

lemma vec_pop_list:
  assumes "vec_wf v" and "vec_list v \<noteq> []"
  shows "\<exists>v'. vec_pop v = Inr (v', last (vec_list v)) \<and> vec_wf v' \<and> vec_list v' = butlast (vec_list v)"
proof -
  note v = vec_wfD [OF assms(1)]
  have "buf_read (v_start v) (v_finish v - 1) = Inr (last (vec_list v))"
    using holds_read [OF v(1), of "length (vec_list v) - 1"] v(2) assms(2) by (simp add: last_conv_nth)
  moreover have "vec_wf (v\<lparr>v_finish := v_finish v - 1\<rparr>) \<and>
      vec_list (v\<lparr>v_finish := v_finish v - 1\<rparr>) = butlast (vec_list v)"
    using v(1,2) by (intro vec_wfI) (auto simp: holds_butlast)
  ultimately show ?thesis using v(4) assms(2) by (simp add: vec_pop_def)
qed

lemma vec_set_list:
  assumes "vec_wf v" and "i < length (vec_list v)"
  shows "\<exists>v'. vec_set v i x = Inr v' \<and> vec_wf v' \<and> vec_list v' = (vec_list v)[i := x]"
proof -
  note v = vec_wfD [OF assms(1)]
  obtain b where b: "buf_write (v_start v) i x = Inr b" "holds b ((vec_list v)[i := x])"
    using holds_write [OF v(1) assms(2)] by blast
  have "vec_wf (v\<lparr>v_start := b\<rparr>) \<and> vec_list (v\<lparr>v_start := b\<rparr>) = (vec_list v)[i := x]"
    using b v(2) by (intro vec_wfI) simp_all
  with b v(3) assms(2) show ?thesis by (simp add: vec_set_def)
qed

lemma vec_clear_list: "vec_wf (vec_clear v) \<and> vec_list (vec_clear v) = []"
  by (rule vec_wfI) (simp_all add: vec_clear_def)

subsection \<open>The properties of the vector\<close>

text \<open>Inserting at an index up to the length returns and puts the element there: the backward
  shifting loop moves the tail one slot up without losing an element, growing the block first when
  it is full. An index beyond the length panics.
\<close>

theorem vec_insert_correct:
  assumes "vec_wf v"
  shows "if index \<le> length (vec_list v)
    then \<exists>v'. vec_insert v index x = Inr v' \<and> vec_wf v' \<and>
      vec_list v' = take index (vec_list v) @ x # drop index (vec_list v)
    else vec_insert v index x = Inl (Panic ''vec::insert'')"
  using vec_insert_list [OF assms] vec_wfD(3) [OF assms] by (auto simp: vec_insert_def Let_def)

lemma vec_insert_correct_witness:
  "\<exists>v. vec_insert \<lparr>v_start = [Some VNone, Some VNull, None], v_finish = 2\<rparr> 1 (VBool True) = Inr v \<and>
     vec_list v = [VNone, VBool True, VNull]"
  using vec_insert_correct [of "\<lparr>v_start = [Some VNone, Some VNull, None], v_finish = 2\<rparr>" 1 "VBool True"]
  by (auto simp: vec_wf_def vec_list_def holds_def)

text \<open>
  Removing at an index below the length returns and closes the gap, keeping the other elements
  in order; an index out of range panics.
\<close>

theorem vec_remove_correct:
  assumes "vec_wf v"
  shows "if index < length (vec_list v)
    then \<exists>v'. vec_remove v index = Inr v' \<and> vec_wf v' \<and>
      vec_list v' = take index (vec_list v) @ drop (Suc index) (vec_list v)
    else vec_remove v index = Inl (Panic ''vec::remove'')"
  using vec_remove_list [OF assms] vec_wfD(3) [OF assms] by (auto simp: vec_remove_def Let_def)

lemma vec_remove_correct_witness:
  "\<exists>v. vec_remove \<lparr>v_start = [Some VNone, Some VNull, None], v_finish = 2\<rparr> 0 = Inr v \<and>
     vec_list v = [VNull]"
  using vec_remove_correct [of "\<lparr>v_start = [Some VNone, Some VNull, None], v_finish = 2\<rparr>" 0]
  by (auto simp: vec_wf_def vec_list_def holds_def)

text \<open>
  Reversing in place and appending another vector return, and are list reversal and
  concatenation; both stay inside the allocated blocks.
\<close>

theorem vec_reverse_extend_correct:
  assumes "vec_wf v" and "vec_wf w"
  shows "(\<exists>v'. vec_reverse v = Inr v' \<and> vec_wf v' \<and> vec_list v' = rev (vec_list v)) \<and>
    (\<exists>v'. vec_extend v w = Inr v' \<and> vec_wf v' \<and> vec_list v' = vec_list v @ vec_list w)"
  using vec_reverse_list [OF assms(1)] vec_extend_list [OF assms] by blast

lemma vec_reverse_extend_correct_witness:
  "\<exists>v. vec_reverse \<lparr>v_start = [Some VNone, Some VNull, None], v_finish = 2\<rparr> = Inr v \<and>
     vec_list v = [VNull, VNone]"
  using vec_reverse_extend_correct [of "\<lparr>v_start = [Some VNone, Some VNull, None], v_finish = 2\<rparr>" new_vec]
  by (auto simp: vec_wf_def vec_list_def holds_def new_vec_def)

end
