(* ===== verification/Joker_Chunk.thy ===== *)
theory Joker_Chunk
  imports Joker_Vec
begin

text \<open>
  Chunks of bytecode (include/chunk.h, src/chunk.c): the instructions, the run-length encoded line
  numbers and the constants.

  The two blocks of a chunk grow by different rules: the block of runs is reallocated both with
  the code, to the code's capacity, and on its own, to its own capacity. \<open>chunk_wf\<close> is why no store
  leaves either block; \<open>chunk_bytes\<close> and \<open>chunk_lines\<close> are the bytes and the line of each byte.
\<close>

subsection \<open>Operation codes\<close>

text \<open>The enum has the values 0 to 67, in this order.\<close>

datatype (plugins only: code) op_code =
  op_pop | op_dup | op_constant | op_constant_long | op_value | op_none | op_true | op_false
    | op_not | op_negate | op_equal | op_not_equal | op_less | op_less_equal | op_greater
    | op_greater_equal | op_add | op_subtract | op_multiply | op_divide | op_mod | op_bw_and
    | op_bw_or | op_bw_xor | op_bw_sl | op_bw_sr | op_bw_not | op_define_global | op_get_global
    | op_set_global | op_get_local | op_set_local | op_get_upvalue | op_set_upvalue
    | op_get_property | op_set_property | op_get_super | op_get_layer_property | op_get_type
    | op_jump_if_false | op_jump_if_neq | op_jump | op_loop | op_call | op_closure
    | op_close_upvalue | op_print | op_return | op_break | op_continue | op_match | op_class
    | op_method | op_inherit | op_invoke | op_super_invoke | op_struct | op_member
    | op_struct_inherit | op_enum | op_enum_define_member | op_enum_get_member
    | op_enum_member_bind | op_enum_member_match | op_layer_property_call | op_vector_new
    | op_vector_set | op_vector_get

definition all_ops :: "op_code list" where
  "all_ops =
   [op_pop, op_dup, op_constant, op_constant_long, op_value, op_none, op_true, op_false,
     op_not, op_negate, op_equal, op_not_equal, op_less, op_less_equal, op_greater,
     op_greater_equal, op_add, op_subtract, op_multiply, op_divide, op_mod, op_bw_and,
     op_bw_or, op_bw_xor, op_bw_sl, op_bw_sr, op_bw_not, op_define_global, op_get_global,
     op_set_global, op_get_local, op_set_local, op_get_upvalue, op_set_upvalue,
     op_get_property, op_set_property, op_get_super, op_get_layer_property, op_get_type,
     op_jump_if_false, op_jump_if_neq, op_jump, op_loop, op_call, op_closure, op_close_upvalue,
     op_print, op_return, op_break, op_continue, op_match, op_class, op_method, op_inherit,
     op_invoke, op_super_invoke, op_struct, op_member, op_struct_inherit, op_enum,
     op_enum_define_member, op_enum_get_member, op_enum_member_bind, op_enum_member_match,
     op_layer_property_call, op_vector_new, op_vector_set, op_vector_get]"

definition OP_COUNT :: nat where
  "OP_COUNT = length all_ops"

primrec op_byte :: "op_code \<Rightarrow> u8" where
  "op_byte op_pop = 0"
| "op_byte op_dup = 1"
| "op_byte op_constant = 2"
| "op_byte op_constant_long = 3"
| "op_byte op_value = 4"
| "op_byte op_none = 5"
| "op_byte op_true = 6"
| "op_byte op_false = 7"
| "op_byte op_not = 8"
| "op_byte op_negate = 9"
| "op_byte op_equal = 10"
| "op_byte op_not_equal = 11"
| "op_byte op_less = 12"
| "op_byte op_less_equal = 13"
| "op_byte op_greater = 14"
| "op_byte op_greater_equal = 15"
| "op_byte op_add = 16"
| "op_byte op_subtract = 17"
| "op_byte op_multiply = 18"
| "op_byte op_divide = 19"
| "op_byte op_mod = 20"
| "op_byte op_bw_and = 21"
| "op_byte op_bw_or = 22"
| "op_byte op_bw_xor = 23"
| "op_byte op_bw_sl = 24"
| "op_byte op_bw_sr = 25"
| "op_byte op_bw_not = 26"
| "op_byte op_define_global = 27"
| "op_byte op_get_global = 28"
| "op_byte op_set_global = 29"
| "op_byte op_get_local = 30"
| "op_byte op_set_local = 31"
| "op_byte op_get_upvalue = 32"
| "op_byte op_set_upvalue = 33"
| "op_byte op_get_property = 34"
| "op_byte op_set_property = 35"
| "op_byte op_get_super = 36"
| "op_byte op_get_layer_property = 37"
| "op_byte op_get_type = 38"
| "op_byte op_jump_if_false = 39"
| "op_byte op_jump_if_neq = 40"
| "op_byte op_jump = 41"
| "op_byte op_loop = 42"
| "op_byte op_call = 43"
| "op_byte op_closure = 44"
| "op_byte op_close_upvalue = 45"
| "op_byte op_print = 46"
| "op_byte op_return = 47"
| "op_byte op_break = 48"
| "op_byte op_continue = 49"
| "op_byte op_match = 50"
| "op_byte op_class = 51"
| "op_byte op_method = 52"
| "op_byte op_inherit = 53"
| "op_byte op_invoke = 54"
| "op_byte op_super_invoke = 55"
| "op_byte op_struct = 56"
| "op_byte op_member = 57"
| "op_byte op_struct_inherit = 58"
| "op_byte op_enum = 59"
| "op_byte op_enum_define_member = 60"
| "op_byte op_enum_get_member = 61"
| "op_byte op_enum_member_bind = 62"
| "op_byte op_enum_member_match = 63"
| "op_byte op_layer_property_call = 64"
| "op_byte op_vector_new = 65"
| "op_byte op_vector_set = 66"
| "op_byte op_vector_get = 67"

definition op_of_byte :: "u8 \<Rightarrow> op_code option" where
  "op_of_byte b = (if unat b < length all_ops then Some (all_ops ! unat b) else None)"

lemma all_ops_complete: "op \<in> set all_ops"
  by (cases op) (simp_all add: all_ops_def)

lemma op_of_byte_op_byte: "op_of_byte (op_byte op) = Some op"
proof -
  have "\<forall>op\<in>set all_ops. op_of_byte (op_byte op) = Some op"
    by (simp add: all_ops_def op_of_byte_def)
  then show ?thesis using all_ops_complete by blast
qed

lemma op_byte_inject: "op_byte a = op_byte b \<longleftrightarrow> a = b"
  by (metis op_of_byte_op_byte option.inject)

subsection \<open>State\<close>

text \<open>\<open>line_t\<close> and \<open>index_t\<close> are \<open>int\<close>.\<close>

record rle_line =
  rl_line :: int
  rl_count :: nat

record rle_lines =
  rls_count :: nat
  rls_capacity :: nat
  rls_lines :: "rle_line buffer"

record chunk =
  ck_count :: nat
  ck_capacity :: nat
  ck_code :: "u8 buffer"
  ck_lines :: "rle_lines"
  ck_constants :: value_array

definition init_rle_lines :: "rle_lines" where
  "init_rle_lines = \<lparr>rls_count = 0, rls_capacity = 0, rls_lines = []\<rparr>"

definition init_chunk :: "chunk" where
  "init_chunk = \<lparr>ck_count = 0, ck_capacity = 0, ck_code = [], ck_lines = init_rle_lines,
     ck_constants = init_value_array\<rparr>"

subsection \<open>Operations\<close>

text \<open>The loop of \<open>get_rle_line\<close>, with \<open>n\<close> runs left.\<close>

fun rle_loop :: "rle_line buffer \<Rightarrow> nat \<Rightarrow> nat \<Rightarrow> int \<Rightarrow> int \<Rightarrow> int outcome" where
  "rle_loop b i 0 tot code_count = Inl (Panic ''Chunk::get_rle_line'')"
| "rle_loop b i (Suc n) tot code_count =
     andThen (buf_read b i) (\<lambda>r.
       let tot = tot + int (rl_count r) in
       if code_count < tot then Inr (rl_line r) else rle_loop b (i + 1) n tot code_count)"

definition get_rle_line :: "rle_lines \<Rightarrow> int \<Rightarrow> int outcome" where
  "get_rle_line lines code_count = rle_loop (rls_lines lines) 0 (rls_count lines) 0 code_count"

definition grow_code :: "chunk \<Rightarrow> chunk" where
  "grow_code chunk =
     (if ck_capacity chunk < ck_count chunk + 1 then
        let capacity = macro_grow_capacity (ck_capacity chunk);
            lines = ck_lines chunk
        in chunk\<lparr>ck_capacity := capacity, ck_code := reallocate (ck_code chunk) capacity,
             ck_lines := lines\<lparr>rls_lines := reallocate (rls_lines lines) capacity\<rparr>\<rparr>
      else chunk)"

definition grow_lines :: "rle_lines \<Rightarrow> rle_lines" where
  "grow_lines lines =
     (if rls_capacity lines < rls_count lines + 1 then
        let capacity = macro_grow_capacity (rls_capacity lines)
        in lines\<lparr>rls_capacity := capacity, rls_lines := reallocate (rls_lines lines) capacity\<rparr>
      else lines)"

definition add_line :: "rle_lines \<Rightarrow> int \<Rightarrow> rle_lines outcome" where
  "add_line lines line =
     andThen (if rls_count lines = 0 then Inr None
              else andThen (buf_read (rls_lines lines) (rls_count lines - 1)) (\<lambda>r. Inr (Some r)))
     (\<lambda>top. case top of
        Some r \<Rightarrow>
          if rl_line r \<noteq> line then
            let lines = grow_lines lines in
            andThen (buf_write (rls_lines lines) (rls_count lines) \<lparr>rl_line = line, rl_count = 1\<rparr>)
              (\<lambda>b. Inr (lines\<lparr>rls_lines := b, rls_count := rls_count lines + 1\<rparr>))
          else
            andThen (buf_write (rls_lines lines) (rls_count lines - 1) (r\<lparr>rl_count := rl_count r + 1\<rparr>))
              (\<lambda>b. Inr (lines\<lparr>rls_lines := b\<rparr>))
      | None \<Rightarrow>
          let lines = grow_lines lines in
          andThen (buf_write (rls_lines lines) (rls_count lines) \<lparr>rl_line = line, rl_count = 1\<rparr>)
            (\<lambda>b. Inr (lines\<lparr>rls_lines := b, rls_count := rls_count lines + 1\<rparr>)))"

definition write_chunk :: "chunk \<Rightarrow> u8 \<Rightarrow> int \<Rightarrow> chunk outcome" where
  "write_chunk chunk code line =
     (let chunk = grow_code chunk in
      andThen (add_line (ck_lines chunk) line) (\<lambda>lines.
      andThen (buf_write (ck_code chunk) (ck_count chunk) code) (\<lambda>b.
        Inr (chunk\<lparr>ck_lines := lines, ck_code := b, ck_count := ck_count chunk + 1\<rparr>))))"

text \<open>
  The push and pop around the store in \<open>add_constant\<close> only keep the value alive for the collector.
\<close>

definition add_constant :: "chunk \<Rightarrow> jvalue \<Rightarrow> (chunk \<times> nat) outcome" where
  "add_constant chunk v =
     (if 2 ^ 31 - 1 \<le> va_count (ck_constants chunk) then Inl (Panic ''Chunk::add_constant'')
      else andThen (write_value_array (ck_constants chunk) v) (\<lambda>constants.
        Inr (chunk\<lparr>ck_constants := constants\<rparr>, va_count constants - 1)))"

fun write_bytes :: "chunk \<Rightarrow> u8 list \<Rightarrow> int \<Rightarrow> chunk outcome" where
  "write_bytes chunk [] line = Inr chunk"
| "write_bytes chunk (b # bs) line = andThen (write_chunk chunk b line) (\<lambda>chunk. write_bytes chunk bs line)"

definition write_constant :: "chunk \<Rightarrow> jvalue \<Rightarrow> int \<Rightarrow> chunk outcome" where
  "write_constant chunk v line =
     andThen (add_constant chunk v) (\<lambda>(chunk, index).
       if index < 255 then write_bytes chunk [op_byte op_constant, of_nat index] line
       else if index < 65535 then
         write_bytes chunk [op_byte op_constant_long, of_nat (index div 256), of_nat index] line
       else Inl (Panic ''Chunk::write_constant''))"

subsection \<open>The bytes and lines of a chunk\<close>

definition rle_runs :: "rle_lines \<Rightarrow> rle_line list" where
  "rle_runs lines = map the (take (rls_count lines) (rls_lines lines))"

definition expand_runs :: "rle_line list \<Rightarrow> int list" where
  "expand_runs rs = concat (map (\<lambda>r. replicate (rl_count r) (rl_line r)) rs)"

definition chunk_bytes :: "chunk \<Rightarrow> u8 list" where
  "chunk_bytes c = map the (take (ck_count c) (ck_code c))"

definition chunk_lines :: "chunk \<Rightarrow> int list" where
  "chunk_lines c = expand_runs (rle_runs (ck_lines c))"

text \<open>Every run is of at least one byte and adjacent runs are of different lines.\<close>

fun runs_ok :: "rle_line list \<Rightarrow> bool" where
  "runs_ok [] = True"
| "runs_ok [r] = (0 < rl_count r)"
| "runs_ok (r # s # rs) = (0 < rl_count r \<and> rl_line r \<noteq> rl_line s \<and> runs_ok (s # rs))"

definition lines_wf :: "nat \<Rightarrow> rle_lines \<Rightarrow> rle_line list \<Rightarrow> bool" where
  "lines_wf room l rs \<longleftrightarrow> holds (rls_lines l) rs \<and> rls_count l = length rs \<and> runs_ok rs \<and>
     length rs \<le> rls_capacity l \<and> rls_capacity l \<le> length (rls_lines l) \<and>
     grown (rls_capacity l) \<and> rls_capacity l \<le> room"

text \<open>
  The block of runs is at least as long as its own capacity says, whichever of the two rules
  reallocated it last, because that capacity never overtakes the capacity of the code.
\<close>

definition chunk_wf :: "chunk \<Rightarrow> bool" where
  "chunk_wf c \<longleftrightarrow>
     holds (ck_code c) (chunk_bytes c) \<and> ck_count c = length (chunk_bytes c) \<and>
     length (ck_code c) = ck_capacity c \<and> grown (ck_capacity c) \<and>
     lines_wf (ck_capacity c) (ck_lines c) (rle_runs (ck_lines c)) \<and>
     length (chunk_lines c) = ck_count c \<and> va_wf (ck_constants c)"

subsection \<open>Runs\<close>

definition push_run :: "rle_line list \<Rightarrow> int \<Rightarrow> rle_line list" where
  "push_run rs line =
     (if rs = [] \<or> rl_line (last rs) \<noteq> line then rs @ [\<lparr>rl_line = line, rl_count = 1\<rparr>]
      else butlast rs @ [(last rs)\<lparr>rl_count := rl_count (last rs) + 1\<rparr>])"

lemma expand_runs_append [simp]: "expand_runs (rs @ ss) = expand_runs rs @ expand_runs ss"
  by (simp add: expand_runs_def)

lemma expand_runs_simps [simp]:
  "expand_runs [] = []"
  "expand_runs (r # rs) = replicate (rl_count r) (rl_line r) @ expand_runs rs"
  by (simp_all add: expand_runs_def)

lemma runs_ok_snoc:
  "runs_ok (rs @ [r]) \<longleftrightarrow> runs_ok rs \<and> 0 < rl_count r \<and> (rs \<noteq> [] \<longrightarrow> rl_line (last rs) \<noteq> rl_line r)"
  by (induction rs rule: runs_ok.induct) auto

lemma runs_ok_length: "runs_ok rs \<Longrightarrow> length rs \<le> length (expand_runs rs)"
  by (induction rs rule: runs_ok.induct) auto

lemma push_run_ok: "runs_ok rs \<Longrightarrow> runs_ok (push_run rs line)"
  using runs_ok_snoc [of rs "\<lparr>rl_line = line, rl_count = 1\<rparr>"]
  by (cases rs rule: rev_cases) (auto simp: push_run_def runs_ok_snoc)

lemma push_run_expand: "expand_runs (push_run rs line) = expand_runs rs @ [line]"
  by (cases rs rule: rev_cases) (auto simp: push_run_def replicate_append_same)

lemma chunk_constants_simps [simp]:
  "chunk_bytes (c\<lparr>ck_constants := a\<rparr>) = chunk_bytes c"
  "chunk_lines (c\<lparr>ck_constants := a\<rparr>) = chunk_lines c"
  by (simp_all add: chunk_bytes_def chunk_lines_def)

lemma chunk_bytes_eqI: "holds (ck_code c) bs \<Longrightarrow> ck_count c = length bs \<Longrightarrow> chunk_bytes c = bs"
  by (auto simp: chunk_bytes_def holds_def comp_def)

lemma rle_runs_eqI: "holds (rls_lines l) rs \<Longrightarrow> rls_count l = length rs \<Longrightarrow> rle_runs l = rs"
  by (auto simp: rle_runs_def holds_def comp_def)

lemma grow_lines_room:
  assumes "lines_wf room l rs" and "length rs < room" and "grown room"
  shows "lines_wf room (grow_lines l) rs \<and> length rs < rls_capacity (grow_lines l)"
  using assms holds_reallocate [of "rls_lines l" rs "macro_grow_capacity (rls_capacity l)"]
    grown_step [of "rls_capacity l" room] grow_capacity_gt [of "rls_capacity l"]
  by (auto simp: lines_wf_def grow_lines_def Let_def grown_more)

lemma append_run:
  assumes "lines_wf room l rs" and "length rs < room" and "grown room" and "runs_ok (rs @ [r])"
  shows "\<exists>b. buf_write (rls_lines (grow_lines l)) (rls_count (grow_lines l)) r = Inr b \<and>
    lines_wf room ((grow_lines l)\<lparr>rls_lines := b, rls_count := rls_count (grow_lines l) + 1\<rparr>) (rs @ [r])"
proof -
  have g: "lines_wf room (grow_lines l) rs" "length rs < rls_capacity (grow_lines l)"
    using grow_lines_room [OF assms(1-3)] by auto
  then have h: "holds (rls_lines (grow_lines l)) rs" "rls_count (grow_lines l) = length rs"
    "length rs < length (rls_lines (grow_lines l))" by (auto simp: lines_wf_def)
  from holds_write_last [OF h(1,3), of r] obtain b
    where b: "buf_write (rls_lines (grow_lines l)) (length rs) r = Inr b" "holds b (rs @ [r])"
      "length b = length (rls_lines (grow_lines l))" by blast
  with g h(2) assms(4) show ?thesis by (auto simp: lines_wf_def)
qed

lemma add_line_runs:
  assumes "lines_wf room l rs" and "length rs < room" and "grown room"
  shows "\<exists>l'. add_line l line = Inr l' \<and> lines_wf room l' (push_run rs line)"
proof (cases "rs = []")
  case True
  with append_run [OF assms, of "\<lparr>rl_line = line, rl_count = 1\<rparr>"] assms(1) show ?thesis
    by (auto simp: add_line_def Let_def push_run_def lines_wf_def)
next
  case False
  have h: "holds (rls_lines l) rs" "rls_count l = length rs" "runs_ok rs"
    using assms(1) by (auto simp: lines_wf_def)
  have read: "buf_read (rls_lines l) (rls_count l - 1) = Inr (last rs)"
    using holds_read [OF h(1), of "length rs - 1"] h(2) False by (simp add: last_conv_nth)
  show ?thesis
  proof (cases "rl_line (last rs) = line")
    case True
    let ?r = "(last rs)\<lparr>rl_count := rl_count (last rs) + 1\<rparr>"
    have "length rs - 1 < length rs" using False by simp
    from holds_write [OF h(1) this, of ?r] obtain b
      where b: "buf_write (rls_lines l) (length rs - 1) ?r = Inr b" "holds b (rs[length rs - 1 := ?r])"
        "length b = length (rls_lines l)" by blast
    have upd: "rs[length rs - 1 := ?r] = push_run rs line"
      using False True by (cases rs rule: rev_cases) (auto simp: push_run_def list_update_append)
    then have "length (push_run rs line) = length rs" by (metis length_list_update)
    with b(2,3) upd assms(1) push_run_ok [OF h(3)] have "lines_wf room (l\<lparr>rls_lines := b\<rparr>) (push_run rs line)"
      by (simp add: lines_wf_def)
    with True False b(1) read h(2) show ?thesis by (simp add: add_line_def)
  next
    case line: False
    have "runs_ok (rs @ [\<lparr>rl_line = line, rl_count = 1\<rparr>])" using h(3) line by (simp add: runs_ok_snoc)
    from append_run [OF assms this] line False read h(2) show ?thesis
      by (auto simp: add_line_def Let_def push_run_def)
  qed
qed

subsection \<open>Writing and reading\<close>

lemma grow_code_room:
  assumes "chunk_wf c"
  shows "holds (ck_code (grow_code c)) (chunk_bytes c)" and "ck_count (grow_code c) = ck_count c"
    and "length (ck_code (grow_code c)) = ck_capacity (grow_code c)" and "grown (ck_capacity (grow_code c))"
    and "ck_count c < ck_capacity (grow_code c)"
    and "lines_wf (ck_capacity (grow_code c)) (ck_lines (grow_code c)) (rle_runs (ck_lines c))"
    and "ck_constants (grow_code c) = ck_constants c"
  using assms holds_length [of "ck_code c" "chunk_bytes c"] grow_capacity_gt [of "ck_capacity c"]
  by (auto simp: chunk_wf_def grow_code_def Let_def lines_wf_def grown_more
      intro!: holds_reallocate)

lemma write_chunk_bytes:
  assumes "chunk_wf c"
  shows "\<exists>c'. write_chunk c b line = Inr c' \<and> chunk_wf c' \<and> chunk_bytes c' = chunk_bytes c @ [b] \<and>
    chunk_lines c' = chunk_lines c @ [line] \<and> ck_constants c' = ck_constants c"
proof -
  let ?c = "grow_code c" and ?rs = "rle_runs (ck_lines c)"
  note g = grow_code_room [OF assms]
  have n: "ck_count c = length (chunk_bytes c)" "length (expand_runs ?rs) = ck_count c" "runs_ok ?rs"
    using assms by (auto simp: chunk_wf_def chunk_lines_def lines_wf_def)
  then have "length ?rs < ck_capacity ?c" using runs_ok_length [of ?rs] g(5) by linarith
  from add_line_runs [OF g(6) this g(4)] obtain l
    where l: "add_line (ck_lines ?c) line = Inr l" "lines_wf (ck_capacity ?c) l (push_run ?rs line)" by blast
  have "length (chunk_bytes c) < length (ck_code ?c)" using n(1) g(3,5) by simp
  from holds_write_last [OF g(1) this, of b] obtain code
    where code: "buf_write (ck_code ?c) (length (chunk_bytes c)) b = Inr code"
      "holds code (chunk_bytes c @ [b])" "length code = length (ck_code ?c)" by blast
  let ?c' = "?c\<lparr>ck_lines := l, ck_code := code, ck_count := ck_count ?c + 1\<rparr>"
  have bytes: "chunk_bytes ?c' = chunk_bytes c @ [b]"
    by (rule chunk_bytes_eqI) (use code(2) g(2) n(1) in simp_all)
  have runs: "rle_runs (ck_lines ?c') = push_run ?rs line"
    using l(2) by (auto simp: lines_wf_def intro!: rle_runs_eqI)
  then have lines: "chunk_lines ?c' = chunk_lines c @ [line]"
    by (simp add: chunk_lines_def push_run_expand)
  have "chunk_wf ?c'"
    unfolding chunk_wf_def bytes runs lines
    using assms code g l n(1,2) by (simp add: chunk_wf_def chunk_lines_def)
  with bytes lines show ?thesis using l(1) code(1) g(2,7) n(1) by (simp add: write_chunk_def Let_def)
qed

lemma chunk_wf_init:
  "chunk_wf init_chunk \<and> chunk_bytes init_chunk = [] \<and> chunk_lines init_chunk = [] \<and>
   va_list (ck_constants init_chunk) = []"
  by (simp add: chunk_wf_def init_chunk_def init_rle_lines_def chunk_bytes_def chunk_lines_def
      rle_runs_def lines_wf_def grown_0 va_wf_init)

lemma rle_loop_lines:
  assumes "holds b (pre @ rs)" and "tot \<le> k"
  shows "rle_loop b (length pre) (length rs) tot k =
     (if nat (k - tot) < length (expand_runs rs) then Inr (expand_runs rs ! nat (k - tot))
      else Inl (Panic ''Chunk::get_rle_line''))"
  using assms
proof (induction rs arbitrary: pre tot)
  case Nil
  then show ?case by simp
next
  case (Cons r rs)
  have read: "buf_read b (length pre) = Inr r"
    using holds_read [OF Cons.prems(1), of "length pre"] by (simp add: nth_append)
  let ?tot = "tot + int (rl_count r)"
  show ?case
  proof (cases "k < ?tot")
    case True
    then have "nat (k - tot) < rl_count r" using Cons.prems(2) by linarith
    with True read show ?thesis by (simp add: nth_append)
  next
    case False
    have "nat (k - tot) = rl_count r + nat (k - ?tot)" using False by linarith
    with False read Cons.IH [of "pre @ [r]" ?tot] Cons.prems(1) show ?thesis
      by (simp add: nth_append)
  qed
qed

lemma get_rle_line_lines:
  assumes "chunk_wf c"
  shows "get_rle_line (ck_lines c) (int i) =
    (if i < ck_count c then Inr (chunk_lines c ! i) else Inl (Panic ''Chunk::get_rle_line''))"
proof -
  have "holds (rls_lines (ck_lines c)) ([] @ rle_runs (ck_lines c))"
    and "rls_count (ck_lines c) = length (rle_runs (ck_lines c))"
    and "length (expand_runs (rle_runs (ck_lines c))) = ck_count c"
    using assms by (auto simp: chunk_wf_def lines_wf_def chunk_lines_def)
  with rle_loop_lines [of "rls_lines (ck_lines c)" "[]" "rle_runs (ck_lines c)" 0 "int i"]
  show ?thesis by (simp add: get_rle_line_def chunk_lines_def)
qed

lemma code_read:
  assumes "chunk_wf c" and "i < ck_count c"
  shows "buf_read (ck_code c) i = Inr (chunk_bytes c ! i)"
  using assms by (simp add: chunk_wf_def holds_read)

text \<open>The bytes of a chunk as a growing sequence.\<close>

interpretation ck: growing chunk_wf chunk_bytes "\<lambda>c b. write_chunk c b line" "\<lambda>c i. buf_read (ck_code c) i"
  for line :: int
proof unfold_locales
  show "chunk_wf m \<Longrightarrow> \<exists>m'. write_chunk m x line = Inr m' \<and> chunk_wf m' \<and> chunk_bytes m' = chunk_bytes m @ [x]"
    for m x using write_chunk_bytes by blast
  show "chunk_wf m \<Longrightarrow> i < length (chunk_bytes m) \<Longrightarrow> buf_read (ck_code m) i = Inr (chunk_bytes m ! i)" for m i
    by (simp add: code_read chunk_wf_def)
qed

lemma write_bytes_bytes:
  assumes "chunk_wf c"
  shows "\<exists>c'. write_bytes c bs line = Inr c' \<and> chunk_wf c' \<and> chunk_bytes c' = chunk_bytes c @ bs \<and>
    chunk_lines c' = chunk_lines c @ replicate (length bs) line \<and> ck_constants c' = ck_constants c"
  using assms
proof (induction bs arbitrary: c)
  case Nil
  then show ?case by simp
next
  case (Cons b bs)
  from write_chunk_bytes [OF Cons.prems, of b line] Cons.IH show ?case by fastforce
qed

lemma add_constant_list:
  assumes "chunk_wf c" and "length (va_list (ck_constants c)) < 2 ^ 31 - 1"
  shows "\<exists>c'. add_constant c v = Inr (c', length (va_list (ck_constants c))) \<and> chunk_wf c' \<and>
    chunk_bytes c' = chunk_bytes c \<and> chunk_lines c' = chunk_lines c \<and>
    va_list (ck_constants c') = va_list (ck_constants c) @ [v]"
proof -
  have va: "va_wf (ck_constants c)" "va_count (ck_constants c) = length (va_list (ck_constants c))"
    using assms(1) by (auto simp: chunk_wf_def va_wf_def)
  obtain a where a: "write_value_array (ck_constants c) v = Inr a" "va_wf a"
    "va_list a = va_list (ck_constants c) @ [v]"
    using va.push_law [OF va(1)] by blast
  then have "va_count a = Suc (length (va_list (ck_constants c)))" by (simp add: va_wf_def)
  with a va assms show ?thesis
    by (simp add: add_constant_def chunk_wf_def)
qed

subsection \<open>The properties of chunks\<close>



text \<open>
  Emitting a constant returns as long as its index fits: it appends the value to the constants
  and the short instruction below index 255, the long one below 65535, whose operand bytes, high
  byte first, give the index back. From 65535 on it panics.
\<close>

theorem write_constant_correct:
  assumes "chunk_wf c" and "length (va_list (ck_constants c)) < 2 ^ 31 - 1"
  shows "let n = length (va_list (ck_constants c)) in
    if n < 65535 then
      \<exists>c'. write_constant c v line = Inr c' \<and> chunk_wf c' \<and>
        va_list (ck_constants c') = va_list (ck_constants c) @ [v] \<and>
        (if n < 255
         then chunk_bytes c' = chunk_bytes c @ [op_byte op_constant, of_nat n] \<and> unat (of_nat n :: u8) = n
         else \<exists>h l. chunk_bytes c' = chunk_bytes c @ [op_byte op_constant_long, h, l] \<and>
                unat h * 256 + unat l = n)
    else write_constant c v line = Inl (Panic ''Chunk::write_constant'')"
proof -
  let ?n = "length (va_list (ck_constants c))"
  obtain c1 where c1: "add_constant c v = Inr (c1, ?n)" "chunk_wf c1" "chunk_bytes c1 = chunk_bytes c"
    "va_list (ck_constants c1) = va_list (ck_constants c) @ [v]"
    using add_constant_list [OF assms] by blast
  have w: "\<exists>c'. write_bytes c1 bs line = Inr c' \<and> chunk_wf c' \<and> chunk_bytes c' = chunk_bytes c @ bs \<and>
      va_list (ck_constants c') = va_list (ck_constants c) @ [v]" for bs
    using write_bytes_bytes [OF c1(2), of bs line] c1(3,4) by auto
  consider "?n < 255" | "255 \<le> ?n" "?n < 65535" | "65535 \<le> ?n" by linarith
  then show ?thesis
  proof cases
    case 1
    then have "unat (of_nat ?n :: u8) = ?n" by (simp add: unat_of_nat)
    with 1 w [of "[op_byte op_constant, of_nat ?n]"] show ?thesis
      by (auto simp: write_constant_def c1(1) Let_def simp del: write_bytes.simps)
  next
    case 2
    then have "?n div 256 < 256" by linarith
    then have "unat (of_nat (?n div 256) :: u8) * 256 + unat (of_nat ?n :: u8) = ?n"
      by (simp add: unat_of_nat)
    with 2 w [of "[op_byte op_constant_long, of_nat (?n div 256), of_nat ?n]"] show ?thesis
      by (auto simp: write_constant_def c1(1) Let_def simp del: write_bytes.simps of_nat_div)
  next
    case 3
    then show ?thesis by (simp add: write_constant_def c1(1))
  qed
qed

lemma write_constant_correct_witness:
  "\<exists>c. write_constant init_chunk VNone 3 = Inr c \<and> va_list (ck_constants c) = [VNone] \<and>
     chunk_bytes c = [op_byte op_constant, 0]"
  using write_constant_correct [of init_chunk VNone 3] chunk_wf_init by auto

text \<open>Every operation code survives being stored in a byte and decoded by the dispatch.\<close>

theorem op_code_roundtrip: "op_of_byte (op_byte op) = Some op"
  by (rule op_of_byte_op_byte)

end
