(* ===== verification/Joker_Token.thy ===== *)
theory Joker_Token
  imports Joker_Prelude
begin

text \<open>
  Tokens (include/token.h, src/token.c). A token's \<open>start\<close> and \<open>length\<close> are its lexeme, a list of
  characters; an error token carries its message there. The linked \<open>TokenList\<close> with its tail pointer
  is the list of its tokens.
\<close>

text \<open>The enum as it is compiled, with \<open>deprecated_print_keyword\<close> defined.\<close>

datatype (plugins only: code) token_type =
  token_left_paren | token_right_paren | token_left_bracket | token_right_bracket
    | token_left_brace | token_right_brace | token_comma | token_dot | token_pipe | token_colon
    | token_question | token_semicolon | token_minus | token_plus | token_star | token_slash
    | token_mod | token_plus_assign | token_minus_assign | token_star_assign
    | token_slash_assign | token_mod_assign | token_bit_and | token_bit_and_assign
    | token_bit_or | token_bit_or_assign | token_bit_xor | token_bit_xor_assign | token_shl
    | token_shl_assign | token_shr | token_shr_assign | token_bit_not | token_bit_not_assign
    | token_not | token_neq | token_assign | token_eq | token_gt | token_egt | token_le
    | token_let | token_arrow | token_fat_arrow | token_underscore | token_layer
    | token_identifier | token_string | token_i32 | token_i64 | token_f32 | token_f64
    | token_type | token_and | token_class | token_struct | token_else | token_false | token_for
    | token_fn | token_if | token_none | token_or | token_return | token_super | token_self
    | token_true | token_var | token_while | token_break | token_continue | token_match
    | token_loop | token_enum | token_error | token_eof

record token =
  tk_type :: token_type
  tk_lexeme :: string
  tk_line :: int

definition make_token :: "token_type \<Rightarrow> string \<Rightarrow> int \<Rightarrow> token" where
  "make_token type lexeme line = \<lparr>tk_type = type, tk_lexeme = lexeme, tk_line = line\<rparr>"

definition new_token :: "string \<Rightarrow> int \<Rightarrow> token_type \<Rightarrow> token" where
  "new_token lexeme line type = \<lparr>tk_type = type, tk_lexeme = lexeme, tk_line = line\<rparr>"

definition eof_token :: "int \<Rightarrow> token" where
  "eof_token line = new_token [] line token_eof"

definition equal_token :: "token \<Rightarrow> token \<Rightarrow> bool" where
  "equal_token left right =
     (length (tk_lexeme left) = length (tk_lexeme right) \<and> tk_lexeme left = tk_lexeme right)"

definition equal_tkn :: "token \<Rightarrow> string \<Rightarrow> bool" where
  "equal_tkn left name = (length name = length (tk_lexeme left) \<and> tk_lexeme left = name)"

definition list_add_token :: "token list \<Rightarrow> token \<Rightarrow> token list" where
  "list_add_token toks t = toks @ [t]"

definition list_extend_token :: "token list \<Rightarrow> token list \<Rightarrow> token list" where
  "list_extend_token to from = to @ from"

definition first_token :: "token list \<Rightarrow> token option" where
  "first_token toks = (case toks of [] \<Rightarrow> None | t # _ \<Rightarrow> Some t)"

definition last_token :: "token list \<Rightarrow> token option" where
  "last_token toks = (if toks = [] then None else Some (last toks))"

text \<open>\<open>nth_token\<close> reads \<open>next\<close> of a null head when the list is empty and \<open>n\<close> is positive.\<close>

definition nth_token :: "token list \<Rightarrow> nat \<Rightarrow> token option outcome" where
  "nth_token toks n =
     (if toks = [] \<and> 0 < n then Inl (Undefined ''null node'')
      else Inr (if n < length toks then Some (toks ! n) else None))"

lemma new_token_simps [simp]:
  "tk_type (new_token lexeme line type) = type"
  "tk_lexeme (new_token lexeme line type) = lexeme"
  "tk_line (new_token lexeme line type) = line"
  by (simp_all add: new_token_def)

lemma equal_token_iff: "equal_token a b \<longleftrightarrow> tk_lexeme a = tk_lexeme b"
  by (auto simp: equal_token_def)

lemma equal_tkn_iff: "equal_tkn a name \<longleftrightarrow> tk_lexeme a = name"
  by (auto simp: equal_tkn_def)

end
