(* ===== verification/Joker_Scanner.thy ===== *)
theory Joker_Scanner
  imports Joker_Token
begin

text \<open>
  The scanner (include/scanner.h, src/scanner.c). The pointers \<open>start\<close> and \<open>current\<close> into the source
  are the characters from there on; the end is the null character, so \<open>peek\<close> past the last character
  gives it, and a null character inside the source ends it as well.

  \<open>scan_tokens\<close> is shown total, its loop consuming a character in every round; every token's lexeme
  is a piece of the source, the line count is the number of line ends consumed, and the trie of
  \<open>identifier_type\<close> is the table of keywords, but for the words starting with \<open>fn\<close>.
\<close>

subsection \<open>Characters\<close>

definition NUL :: char where
  "NUL = CHR 0x00"

definition NL :: char where
  "NL = CHR 0x0A"

definition QUOTE :: char where
  "QUOTE = CHR 0x22"

definition code_of :: "char \<Rightarrow> nat" where
  "code_of c = of_char c"

definition is_digit :: "char \<Rightarrow> bool" where
  "is_digit ch = (code_of CHR ''0'' \<le> code_of ch \<and> code_of ch \<le> code_of CHR ''9'')"

definition is_alpha :: "char \<Rightarrow> bool" where
  "is_alpha ch =
     (code_of CHR ''a'' \<le> code_of ch \<and> code_of ch \<le> code_of CHR ''z'' \<or>
      code_of CHR ''A'' \<le> code_of ch \<and> code_of ch \<le> code_of CHR ''Z'' \<or> ch = CHR ''_'')"

fun peek :: "string \<Rightarrow> char" where
  "peek [] = NUL"
| "peek (c # cs) = c"

definition is_at_end :: "string \<Rightarrow> bool" where
  "is_at_end cs = (peek cs = NUL)"

definition peek_next :: "string \<Rightarrow> char" where
  "peek_next cs = (if is_at_end cs then NUL else peek (tl cs))"

subsection \<open>Blanks and comments\<close>

fun skip_line :: "string \<Rightarrow> string" where
  "skip_line [] = []"
| "skip_line (c # cs) = (if c \<noteq> NL \<and> c \<noteq> NUL then skip_line cs else c # cs)"

fun skip_block :: "string \<Rightarrow> int \<Rightarrow> (string \<times> int) outcome" where
  "skip_block [] line = Inl (Panic ''scanner::skip_with_espace'')"
| "skip_block (c # cs) line =
     (if c = NUL then Inl (Panic ''scanner::skip_with_espace'')
      else let line = (if c = NL then line + 1 else line) in
        if c = CHR ''*'' \<and> peek cs = CHR ''/'' then Inr (tl cs, line) else skip_block cs line)"

lemma skip_line_length: "length (skip_line cs) \<le> length cs"
  by (induction cs) auto

lemma skip_block_length: "skip_block cs line = Inr (cs', line') \<Longrightarrow> length cs' < length cs"
  by (induction cs line rule: skip_block.induct) (auto simp: Let_def split: if_splits)

function skip_with_espace :: "string \<Rightarrow> int \<Rightarrow> (string \<times> int) outcome" where
  "skip_with_espace [] line = Inr ([], line)"
| "skip_with_espace (ch # cs) line =
     (if ch = CHR '' '' \<or> ch = CHR 0x0D \<or> ch = CHR 0x09 then skip_with_espace cs line
      else if ch = NL then skip_with_espace cs (line + 1)
      else if ch = CHR ''/'' then
        (if peek cs = CHR ''/'' then skip_with_espace (skip_line cs) line
         else if peek cs = CHR ''*'' then
           andThen (skip_block (tl cs) line) (\<lambda>(cs, line). skip_with_espace cs line)
         else Inr (ch # cs, line))
      else Inr (ch # cs, line))"
  by pat_completeness auto
termination
proof (relation "measure (\<lambda>(cs, _). length cs)", goal_cases)
  case (4 ch cs line)
  then show ?case using skip_line_length [of cs] by simp
next
  case (5 ch cs line x a b)
  then show ?case using skip_block_length [of "tl cs" line] by fastforce
qed auto

subsection \<open>State\<close>

record scanner =
  sc_start :: string
  sc_current :: string
  sc_line :: int

definition init_scanner :: "string \<Rightarrow> scanner" where
  "init_scanner source = \<lparr>sc_start = source, sc_current = source, sc_line = 1\<rparr>"

definition lexeme :: "scanner \<Rightarrow> string" where
  "lexeme s = take (length (sc_start s) - length (sc_current s)) (sc_start s)"

definition make_tk :: "scanner \<Rightarrow> token_type \<Rightarrow> token" where
  "make_tk s type = new_token (lexeme s) (sc_line s) type"

definition error_token :: "scanner \<Rightarrow> string \<Rightarrow> token" where
  "error_token s msg = new_token msg (sc_line s) token_error"

definition advance :: "scanner \<Rightarrow> scanner" where
  "advance s = (if is_at_end (sc_current s) then s else s\<lparr>sc_current := tl (sc_current s)\<rparr>)"

definition match_char :: "scanner \<Rightarrow> char \<Rightarrow> bool \<times> scanner" where
  "match_char s expected =
     (if is_at_end (sc_current s) then (False, s)
      else if peek (sc_current s) \<noteq> expected then (False, s)
      else (True, s\<lparr>sc_current := tl (sc_current s)\<rparr>))"

subsection \<open>Keywords\<close>

definition check_keyword :: "string \<Rightarrow> nat \<Rightarrow> nat \<Rightarrow> string \<Rightarrow> token_type \<Rightarrow> token_type" where
  "check_keyword w start len rest type =
     (if length w = start + len \<and> take len (drop start w) = rest then type else token_identifier)"

definition identifier_type :: "string \<Rightarrow> token_type" where
  "identifier_type w =
     (let c = w ! 0 in
      if c = CHR ''a'' then check_keyword w 1 2 ''nd'' token_and
      else if c = CHR ''b'' then check_keyword w 1 4 ''reak'' token_break
      else if c = CHR ''c'' then
        (if 1 < length w then
           (if w ! 1 = CHR ''l'' then check_keyword w 2 3 ''ass'' token_class
            else if w ! 1 = CHR ''o'' then check_keyword w 2 6 ''ntinue'' token_continue
            else token_identifier)
         else token_identifier)
      else if c = CHR ''e'' then
        (if 1 < length w then
           (if w ! 1 = CHR ''l'' then check_keyword w 2 2 ''se'' token_else
            else if w ! 1 = CHR ''n'' then check_keyword w 2 2 ''um'' token_enum
            else token_identifier)
         else token_identifier)
      else if c = CHR ''f'' then
        (if 1 < length w then
           (if w ! 1 = CHR ''a'' then check_keyword w 2 3 ''lse'' token_false
            else if w ! 1 = CHR ''o'' then check_keyword w 2 1 ''r'' token_for
            else if w ! 1 = CHR ''n'' then token_fn
            else token_identifier)
         else token_identifier)
      else if c = CHR ''i'' then check_keyword w 1 1 ''f'' token_if
      else if c = CHR ''l'' then check_keyword w 1 3 ''oop'' token_loop
      else if c = CHR ''m'' then check_keyword w 1 4 ''atch'' token_match
      else if c = CHR ''N'' then check_keyword w 1 3 ''one'' token_none
      else if c = CHR ''o'' then check_keyword w 1 1 ''r'' token_or
      else if c = CHR ''r'' then check_keyword w 1 5 ''eturn'' token_return
      else if c = CHR ''t'' then check_keyword w 1 3 ''rue'' token_true
      else if c = CHR ''v'' then check_keyword w 1 2 ''ar'' token_var
      else if c = CHR ''w'' then check_keyword w 1 4 ''hile'' token_while
      else if c = CHR ''s'' then
        (if 1 < length w then
           (if w ! 1 = CHR ''e'' then check_keyword w 2 2 ''lf'' token_self
            else if w ! 1 = CHR ''u'' then check_keyword w 2 3 ''per'' token_super
            else if w ! 1 = CHR ''t'' then check_keyword w 2 4 ''ruct'' token_struct
            else token_identifier)
         else token_identifier)
      else token_identifier)"

subsection \<open>Literals and identifiers\<close>

fun string_loop :: "string \<Rightarrow> int \<Rightarrow> string \<times> int" where
  "string_loop [] line = ([], line)"
| "string_loop (c # cs) line =
     (if c \<noteq> QUOTE \<and> c \<noteq> NUL then string_loop cs (if c = NL then line + 1 else line)
      else (c # cs, line))"

definition scan_string :: "scanner \<Rightarrow> token \<times> scanner" where
  "scan_string s =
     (let (cs, line) = string_loop (sc_current s) (sc_line s);
          s = s\<lparr>sc_current := cs, sc_line := line\<rparr> in
      if is_at_end (sc_current s) then (error_token s ''Unterminated string.'', s)
      else let s = advance s in (make_tk s token_string, s))"

text \<open>\<open>strtoul\<close> saturates, above \<open>INT32_MAX\<close>.\<close>

definition strtoul :: "string \<Rightarrow> nat" where
  "strtoul ds = min (foldl (\<lambda>a c. 10 * a + (code_of c - code_of CHR ''0'')) 0 ds) (2 ^ 64 - 1)"

definition check_number :: "scanner \<Rightarrow> bool \<Rightarrow> token_type" where
  "check_number s is_float =
     (if lexeme s = [] then token_error
      else if is_float then token_f64
      else if 2 ^ 31 - 1 < strtoul (lexeme s) then token_i64 else token_i32)"

definition scan_number :: "scanner \<Rightarrow> (token \<times> scanner) outcome" where
  "scan_number s =
     (let s = s\<lparr>sc_current := dropWhile is_digit (sc_current s)\<rparr> in
      if peek (sc_current s) = CHR ''.'' then
        if \<not> is_digit (peek_next (sc_current s)) then Inl (ExitCode 66)
        else let s = advance s; s = s\<lparr>sc_current := dropWhile is_digit (sc_current s)\<rparr>
             in Inr (make_tk s (check_number s True), s)
      else Inr (make_tk s (check_number s False), s))"

definition scan_identifier :: "scanner \<Rightarrow> token \<times> scanner" where
  "scan_identifier s =
     (let s = s\<lparr>sc_current := dropWhile (\<lambda>c. is_alpha c \<or> is_digit c) (sc_current s)\<rparr> in
      if lexeme s = ''_'' then (make_tk s token_underscore, s)
      else (make_tk s (identifier_type (lexeme s)), s))"

subsection \<open>Tokens\<close>

definition mk_tk :: "scanner \<Rightarrow> token_type \<Rightarrow> token \<times> scanner" where
  "mk_tk s type = (make_tk s type, s)"

text \<open>The chains \<open>match(c1) ? t1 : match(c2) ? t2 : t\<close>.\<close>

fun pick :: "scanner \<Rightarrow> (char \<times> token_type) list \<Rightarrow> token_type \<Rightarrow> token \<times> scanner" where
  "pick s [] d = mk_tk s d"
| "pick s ((c, t) # alts) d = (let (b, s) = match_char s c in if b then mk_tk s t else pick s alts d)"

text \<open>The cases of \<open><\<close> and \<open>>\<close>.\<close>

definition scan_angle ::
    "scanner \<Rightarrow> char \<Rightarrow> token_type \<Rightarrow> token_type \<Rightarrow> token_type \<Rightarrow> token_type \<Rightarrow> token \<times> scanner" where
  "scan_angle s c single with_eq double double_eq =
     (let (b, s) = match_char s (CHR ''='') in
      if b then mk_tk s with_eq
      else let (b, s) = match_char s c in
        if b then let (b, s) = match_char s (CHR ''='') in mk_tk s (if b then double_eq else double)
        else mk_tk s single)"

definition scan_symbol :: "char \<Rightarrow> scanner \<Rightarrow> token \<times> scanner" where
  "scan_symbol ch s =
     (if ch = CHR ''('' then mk_tk s token_left_paren
      else if ch = CHR '')'' then mk_tk s token_right_paren
      else if ch = CHR ''['' then mk_tk s token_left_bracket
      else if ch = CHR '']'' then mk_tk s token_right_bracket
      else if ch = CHR ''{'' then mk_tk s token_left_brace
      else if ch = CHR ''}'' then mk_tk s token_right_brace
      else if ch = CHR ''?'' then mk_tk s token_question
      else if ch = CHR '':'' then pick s [(CHR '':'', token_layer)] token_colon
      else if ch = CHR '';'' then mk_tk s token_semicolon
      else if ch = CHR '','' then mk_tk s token_comma
      else if ch = CHR ''.'' then mk_tk s token_dot
      else if ch = CHR ''_'' then mk_tk s token_underscore
      else if ch = CHR ''%'' then pick s [(CHR ''='', token_mod_assign)] token_mod
      else if ch = CHR ''-'' then pick s [(CHR ''='', token_minus_assign), (CHR ''>'', token_arrow)] token_minus
      else if ch = CHR ''+'' then pick s [(CHR ''='', token_plus_assign)] token_plus
      else if ch = CHR ''/'' then pick s [(CHR ''='', token_slash_assign)] token_slash
      else if ch = CHR ''*'' then pick s [(CHR ''='', token_star_assign)] token_star
      else if ch = CHR ''|'' then pick s [(CHR ''='', token_bit_or_assign)] token_pipe
      else if ch = CHR ''&'' then pick s [(CHR ''='', token_bit_and_assign)] token_bit_and
      else if ch = CHR ''^'' then pick s [(CHR ''='', token_bit_xor_assign)] token_bit_xor
      else if ch = CHR ''~'' then pick s [(CHR ''='', token_bit_not_assign)] token_bit_not
      else if ch = CHR ''!'' then pick s [(CHR ''='', token_neq)] token_not
      else if ch = CHR ''='' then pick s [(CHR ''='', token_eq), (CHR ''>'', token_fat_arrow)] token_assign
      else if ch = CHR ''<'' then scan_angle s (CHR ''<'') token_le token_let token_shl token_shl_assign
      else if ch = CHR ''>'' then scan_angle s (CHR ''>'') token_gt token_egt token_shr token_shr_assign
      else if ch = QUOTE then scan_string s
      else (error_token s ''Unexpected character.'', s))"

definition scan_token :: "scanner \<Rightarrow> (token \<times> scanner) outcome" where
  "scan_token s =
     andThen (skip_with_espace (sc_current s) (sc_line s)) (\<lambda>(cs, line).
       let s = \<lparr>sc_start = cs, sc_current = cs, sc_line = line\<rparr> in
       if is_at_end (sc_current s) then Inr (make_tk s token_eof, s)
       else let ch = peek (sc_current s); s = advance s in
         if is_alpha ch then Inr (scan_identifier s)
         else if is_digit ch then scan_number s
         else Inr (scan_symbol ch s))"

subsection \<open>What a scan consumes\<close>

definition newlines :: "string \<Rightarrow> int" where
  "newlines cs = int (length (filter (\<lambda>c. c = NL) cs))"

lemma newlines_simps [simp]:
  "newlines [] = 0"
  "newlines (c # cs) = (if c = NL then 1 else 0) + newlines cs"
  "newlines (cs @ ds) = newlines cs + newlines ds"
  by (simp_all add: newlines_def)

lemma newlines_none: "\<forall>c\<in>set cs. c \<noteq> NL \<Longrightarrow> newlines cs = 0"
  by (induction cs) auto

lemma char_codes [simp]:
  "\<not> is_digit NL" "\<not> is_alpha NL" "NL \<noteq> NUL" "NL \<noteq> QUOTE" "QUOTE \<noteq> NUL"
  "\<not> is_digit NUL" "\<not> is_alpha NUL"
  by (simp_all add: is_digit_def is_alpha_def code_of_def NL_def NUL_def QUOTE_def)

text \<open>\<open>runs k s s'\<close>: from \<open>s\<close> to \<open>s'\<close> the scanner moved over \<open>k\<close>, counting its line ends.\<close>

definition runs :: "string \<Rightarrow> scanner \<Rightarrow> scanner \<Rightarrow> bool" where
  "runs k s s' \<longleftrightarrow> sc_current s = k @ sc_current s' \<and> sc_line s' = sc_line s + newlines k \<and>
     sc_start s' = sc_start s"

lemma runs_refl: "runs [] s s"
  by (simp add: runs_def)

lemma runs_trans: "runs k s s' \<Longrightarrow> runs l s' s'' \<Longrightarrow> runs (k @ l) s s''"
  by (simp add: runs_def)

lemma peek_cases: "\<not> is_at_end cs \<Longrightarrow> cs = peek cs # tl cs"
  by (cases cs) (auto simp: is_at_end_def)

lemma runs_step:
  assumes "\<not> is_at_end (sc_current s)" and "peek (sc_current s) \<noteq> NL"
  shows "runs [peek (sc_current s)] s (s\<lparr>sc_current := tl (sc_current s)\<rparr>)"
  using assms peek_cases [of "sc_current s"] by (simp add: runs_def)

lemma runs_dropWhile:
  assumes "\<not> P NL"
  shows "runs (takeWhile P (sc_current s)) s (s\<lparr>sc_current := dropWhile P (sc_current s)\<rparr>)"
proof -
  have "newlines (takeWhile P (sc_current s)) = 0"
    using assms by (intro newlines_none) (auto dest: set_takeWhileD)
  then show ?thesis by (simp add: runs_def)
qed

lemma skip_line_runs: "\<exists>k. cs = k @ skip_line cs \<and> newlines k = 0"
proof (induction cs)
  case Nil
  then show ?case by simp
next
  case (Cons c cs)
  then obtain k where "cs = k @ skip_line cs" "newlines k = 0" by blast
  then show ?case by (auto intro!: exI [of _ "c # k"])
qed

lemma skip_block_runs:
  "skip_block cs line = Inr (cs', line') \<Longrightarrow> \<exists>k. cs = k @ cs' \<and> line' = line + newlines k"
proof (induction cs line rule: skip_block.induct)
  case (1 line)
  then show ?case by simp
next
  case (2 c cs line)
  have c: "c \<noteq> NUL" using 2(2) by auto
  let ?line = "if c = NL then line + 1 else line"
  show ?case
  proof (cases "c = CHR ''*'' \<and> peek cs = CHR ''/''")
    case True
    then obtain ds where "cs = CHR ''/'' # ds" by (cases cs) (auto simp: NUL_def)
    with True 2(2) c show ?thesis by (auto simp: NL_def intro!: exI [of _ "[CHR ''*'', CHR ''/'']"])
  next
    case False
    with 2(2) c have "skip_block cs ?line = Inr (cs', line')" by (auto simp: Let_def)
    with 2(1) [OF c refl False] obtain k where "cs = k @ cs'" "line' = ?line + newlines k" by blast
    then show ?thesis by (auto intro!: exI [of _ "c # k"])
  qed
qed

text \<open>What the blanks and comments before a token are, and that none is left after them.\<close>

lemma skip_runs:
  "skip_with_espace cs line = Inr (cs', line') \<Longrightarrow>
   (\<exists>k. cs = k @ cs' \<and> line' = line + newlines k) \<and> peek cs' \<noteq> NL"
proof (induction cs line rule: skip_with_espace.induct)
  case (1 line)
  then show ?case by (auto simp: NL_def NUL_def)
next
  case (2 ch cs line)
  consider (blank) "ch = CHR '' '' \<or> ch = CHR 0x0D \<or> ch = CHR 0x09" | (nl) "ch = NL"
    | (line) "ch = CHR ''/''" "peek cs = CHR ''/''" | (block) "ch = CHR ''/''" "peek cs = CHR ''*''"
    | (stop) "\<not> (ch = CHR '' '' \<or> ch = CHR 0x0D \<or> ch = CHR 0x09)" "ch \<noteq> NL"
        "ch \<noteq> CHR ''/'' \<or> peek cs \<noteq> CHR ''/'' \<and> peek cs \<noteq> CHR ''*''"
    by blast
  then show ?case
  proof cases
    case blank
    with 2 obtain k where "cs = k @ cs'" "line' = line + newlines k" "peek cs' \<noteq> NL" by auto
    with blank show ?thesis by (auto simp: NL_def intro!: exI [of _ "ch # k"])
  next
    case nl
    then have "skip_with_espace cs (line + 1) = Inr (cs', line')" using 2(5) by (simp add: NL_def)
    with 2(2) nl obtain k where "cs = k @ cs'" "line' = line + 1 + newlines k" "peek cs' \<noteq> NL"
      by (auto simp: NL_def)
    with nl show ?thesis by (auto intro!: exI [of _ "ch # k"])
  next
    case line
    then have r: "skip_with_espace (skip_line cs) line = Inr (cs', line')" using 2(5) by (simp add: NL_def)
    from 2(3) line r obtain k where k: "skip_line cs = k @ cs'" "line' = line + newlines k" "peek cs' \<noteq> NL"
      by (auto simp: NL_def)
    obtain l where "cs = l @ skip_line cs" "newlines l = 0" using skip_line_runs by blast
    with k line(1) show ?thesis by (auto simp: NL_def intro!: exI [of _ "CHR ''/'' # l @ k"])
  next
    case block
    then have "andThen (skip_block (tl cs) line) (\<lambda>(cs, line). skip_with_espace cs line) = Inr (cs', line')"
      using 2(5) by (simp add: NL_def)
    then obtain ds l where b: "skip_block (tl cs) line = Inr (ds, l)" "skip_with_espace ds l = Inr (cs', line')"
      by (auto elim!: andThen_InrE)
    from 2(4) block b obtain k where k: "ds = k @ cs'" "line' = l + newlines k" "peek cs' \<noteq> NL"
      by (fastforce simp: NL_def)
    obtain k0 where k0: "tl cs = k0 @ ds" "l = line + newlines k0" using skip_block_runs [OF b(1)] by blast
    have "cs = CHR ''*'' # tl cs" using block(2) by (cases cs) (auto simp: NUL_def)
    then have "cs = CHR ''*'' # k0 @ k @ cs'" using k0(1) k(1) by simp
    with k0 k block(1) show ?thesis by (auto simp: NL_def intro!: exI [of _ "CHR ''/'' # CHR ''*'' # k0 @ k"])
  next
    case stop
    with 2(5) show ?thesis by (auto split: if_splits)
  qed
qed

text \<open>
  \<open>good\<close>: the result of scanning one token from \<open>s\<close>, whose lexeme began before \<open>s\<close>.
\<close>

definition good :: "scanner \<Rightarrow> token \<times> scanner \<Rightarrow> bool" where
  "good s r \<longleftrightarrow> (case r of (t, s') \<Rightarrow>
     (\<exists>k. runs k s s') \<and> tk_line t = sc_line s' \<and> tk_type t \<noteq> token_eof \<and>
     (tk_type t \<noteq> token_error \<longrightarrow> tk_lexeme t = lexeme s'))"

lemma good_make: "runs k s s' \<Longrightarrow> t \<noteq> token_eof \<Longrightarrow> good s (mk_tk s' t)"
  by (auto simp: good_def mk_tk_def make_tk_def)

lemma good_make_tk: "runs k s s' \<Longrightarrow> t \<noteq> token_eof \<Longrightarrow> good s (make_tk s' t, s')"
  by (auto simp: good_def make_tk_def)

lemma good_error: "runs k s s' \<Longrightarrow> good s (error_token s' msg, s')"
  by (auto simp: good_def error_token_def)

lemma good_trans: "runs k s s' \<Longrightarrow> good s' r \<Longrightarrow> good s r"
  by (auto simp: good_def split: prod.splits intro: runs_trans)

lemma good_if: "good s x \<Longrightarrow> good s y \<Longrightarrow> good s (if b then x else y)"
  by simp

lemma match_char_runs:
  assumes "match_char s c = (b, s')" and "c \<noteq> NL"
  obtains k where "runs k s s'"
  using assms runs_step [of s] runs_refl [of s]
  by (auto simp: match_char_def split: if_splits)

lemma pick_good:
  assumes "\<forall>(c, t)\<in>set alts. c \<noteq> NL \<and> t \<noteq> token_eof" and "d \<noteq> token_eof"
  shows "good s (pick s alts d)"
  using assms
proof (induction s alts d rule: pick.induct)
  case (1 s d)
  then show ?case by (auto intro: good_make runs_refl)
next
  case (2 s c t alts d)
  obtain b s' where m: "match_char s c = (b, s')" by fastforce
  have "c \<noteq> NL" "t \<noteq> token_eof" using 2(2) by auto
  with m obtain k where k: "runs k s s'" using match_char_runs by metis
  show ?case
  proof (cases b)
    case True
    with m k \<open>t \<noteq> token_eof\<close> show ?thesis by (simp add: good_make)
  next
    case False
    with m 2 have "good s' (pick s' alts d)" by (metis list.set_intros(2))
    with m k False show ?thesis by (simp add: good_trans)
  qed
qed

lemma scan_angle_good:
  assumes "c \<noteq> NL" and "a \<noteq> token_eof" "b \<noteq> token_eof" "d \<noteq> token_eof" "e \<noteq> token_eof"
  shows "good s (scan_angle s c a b d e)"
proof -
  have eq: "CHR ''='' \<noteq> NL" by (simp add: NL_def)
  obtain b1 s1 where m1: "match_char s (CHR ''='') = (b1, s1)" by fastforce
  obtain b2 s2 where m2: "match_char s1 c = (b2, s2)" by fastforce
  obtain b3 s3 where m3: "match_char s2 (CHR ''='') = (b3, s3)" by fastforce
  obtain k1 where k1: "runs k1 s s1" using match_char_runs [OF m1 eq] .
  obtain k2 where k2: "runs k2 s1 s2" using match_char_runs [OF m2 assms(1)] .
  obtain k3 where k3: "runs k3 s2 s3" using match_char_runs [OF m3 eq] .
  show ?thesis using assms(2-)
    by (auto simp: scan_angle_def m1 m2 m3 Let_def
        intro: good_make [OF k1] good_make [OF runs_trans [OF k1 k2]]
          good_make [OF runs_trans [OF runs_trans [OF k1 k2] k3]])
qed

lemma string_loop_runs:
  "string_loop cs line = (cs', line') \<Longrightarrow>
   (\<exists>k. cs = k @ cs' \<and> line' = line + newlines k) \<and> (peek cs' = QUOTE \<or> is_at_end cs')"
proof (induction cs line rule: string_loop.induct)
  case (1 line)
  then show ?case by (simp add: is_at_end_def)
next
  case (2 c cs line)
  show ?case
  proof (cases "c \<noteq> QUOTE \<and> c \<noteq> NUL")
    case True
    with 2 obtain k where "cs = k @ cs'" "line' = (if c = NL then line + 1 else line) + newlines k"
      "peek cs' = QUOTE \<or> is_at_end cs'" by auto
    then show ?thesis by (auto intro!: exI [of _ "c # k"])
  next
    case False
    with 2 show ?thesis by (auto simp: is_at_end_def)
  qed
qed

lemma scan_string_good: "good s (scan_string s)"
proof -
  obtain cs line where l: "string_loop (sc_current s) (sc_line s) = (cs, line)" by fastforce
  let ?s = "s\<lparr>sc_current := cs, sc_line := line\<rparr>"
  obtain k where k: "runs k s ?s" and q: "peek cs = QUOTE \<or> is_at_end cs"
    using string_loop_runs [OF l] by (auto simp: runs_def)
  show ?thesis
  proof (cases "is_at_end cs")
    case True
    with l good_error [OF k] show ?thesis by (simp add: scan_string_def Let_def)
  next
    case False
    with q have "peek (sc_current ?s) \<noteq> NL" by (metis char_codes(4) scanner.select_convs(2) scanner.surjective scanner.update_convs(2,3))
    with False have "runs [peek cs] ?s (?s\<lparr>sc_current := tl cs\<rparr>)" using runs_step [of ?s] by simp
    with k have "runs (k @ [peek cs]) s (?s\<lparr>sc_current := tl cs\<rparr>)" by (rule runs_trans)
    with l False show ?thesis by (simp add: scan_string_def advance_def Let_def good_make_tk)
  qed
qed

lemma not_eof_if: "x \<noteq> token_eof \<Longrightarrow> y \<noteq> token_eof \<Longrightarrow> (if b then x else y) \<noteq> token_eof"
  by simp

lemma check_keyword_not_eof: "t \<noteq> token_eof \<Longrightarrow> check_keyword w a b r t \<noteq> token_eof"
  by (simp add: check_keyword_def)

lemma identifier_type_not_eof: "identifier_type w \<noteq> token_eof"
  unfolding identifier_type_def Let_def
  by (intro not_eof_if check_keyword_not_eof) simp_all

lemma scan_identifier_good: "good s (scan_identifier s)"
proof -
  let ?P = "\<lambda>c. is_alpha c \<or> is_digit c"
  have "\<not> ?P NL" by simp
  note k = runs_dropWhile [of ?P s, OF this]
  from good_make_tk [OF k, of token_underscore]
    good_make_tk [OF k identifier_type_not_eof [of "lexeme (s\<lparr>sc_current := dropWhile ?P (sc_current s)\<rparr>)"]]
  show ?thesis by (simp add: scan_identifier_def Let_def)
qed

lemma check_number_not_eof: "check_number s f \<noteq> token_eof"
  by (simp add: check_number_def)

lemma scan_number_good:
  "(\<exists>r. scan_number s = Inr r \<and> good s r) \<or> scan_number s = Inl (ExitCode 66)"
proof -
  let ?s = "s\<lparr>sc_current := dropWhile is_digit (sc_current s)\<rparr>"
  have "\<not> is_digit NL" by simp
  note k = runs_dropWhile [of is_digit s, OF this]
  show ?thesis
  proof (cases "peek (sc_current ?s) = CHR ''.'' \<and> is_digit (peek_next (sc_current ?s))")
    case True
    then have e: "\<not> is_at_end (sc_current ?s)" "peek (sc_current ?s) \<noteq> NL"
      by (auto simp: is_at_end_def NUL_def NL_def)
    note k1 = runs_trans [OF k runs_step [OF e]]
    let ?t = "?s\<lparr>sc_current := tl (sc_current ?s)\<rparr>"
    note k2 = runs_trans [OF k1 runs_dropWhile [of is_digit ?t, OF \<open>\<not> is_digit NL\<close>]]
    from True e good_make_tk [OF k2 check_number_not_eof] show ?thesis
      by (simp add: scan_number_def advance_def Let_def)
  next
    case False
    with good_make_tk [OF k check_number_not_eof] show ?thesis
      by (auto simp: scan_number_def Let_def)
  qed
qed

lemma scan_symbol_good: "good s (scan_symbol ch s)"
  unfolding scan_symbol_def
  by (intro good_if good_make [OF runs_refl] pick_good scan_angle_good scan_string_good
      good_error [OF runs_refl]) (simp_all add: NL_def)

text \<open>
  \<open>scanned g l s t s'\<close>: after the blanks \<open>g\<close> the token \<open>t\<close> was scanned from the characters \<open>l\<close>.
\<close>

definition scanned :: "string \<Rightarrow> string \<Rightarrow> scanner \<Rightarrow> token \<Rightarrow> scanner \<Rightarrow> bool" where
  "scanned g l s t s' \<longleftrightarrow>
     sc_current s = g @ l @ sc_current s' \<and> sc_line s' = sc_line s + newlines (g @ l) \<and>
     tk_line t = sc_line s' \<and>
     skip_with_espace (sc_current s) (sc_line s) = Inr (l @ sc_current s', sc_line s + newlines g) \<and>
     (tk_type t \<noteq> token_error \<longrightarrow> tk_lexeme t = l) \<and>
     (tk_type t = token_eof \<longleftrightarrow> l = []) \<and> (l = [] \<longrightarrow> is_at_end (sc_current s'))"

lemma lexeme_eqI: "sc_start s = l @ sc_current s \<Longrightarrow> lexeme s = l"
  by (simp add: lexeme_def)

lemma scanned_good:
  assumes "\<not> is_at_end (sc_current s0)" and "peek (sc_current s0) \<noteq> NL" and "sc_start s0 = sc_current s0"
    and "good (s0\<lparr>sc_current := tl (sc_current s0)\<rparr>) (t, s')"
    and "skip_with_espace (sc_current s) (sc_line s) = Inr (sc_current s0, sc_line s0)"
    and "sc_current s = g @ sc_current s0" and "sc_line s0 = sc_line s + newlines g"
  shows "\<exists>l. scanned g l s t s'"
proof -
  let ?c = "peek (sc_current s0)"
  obtain k where k: "runs k (s0\<lparr>sc_current := tl (sc_current s0)\<rparr>) s'" using assms(4) by (auto simp: good_def)
  have step: "runs (?c # k) s0 s'" using runs_trans [OF runs_step [OF assms(1,2)] k] by simp
  then have "sc_start s' = (?c # k) @ sc_current s'" using assms(3) unfolding runs_def by metis
  then have "lexeme s' = ?c # k" by (rule lexeme_eqI)
  with step assms have "scanned g (?c # k) s t s'"
    by (auto simp: scanned_def runs_def good_def)
  then show ?thesis by blast
qed

lemma scan_token_scanned:
  "(\<exists>g l t s'. scan_token s = Inr (t, s') \<and> scanned g l s t s') \<or>
   scan_token s = Inl (Panic ''scanner::skip_with_espace'') \<or> scan_token s = Inl (ExitCode 66)"
proof (cases "skip_with_espace (sc_current s) (sc_line s)")
  case (Inl h)
  have "skip_block cs line = Inl h \<Longrightarrow> h = Panic ''scanner::skip_with_espace''" for cs line h
    by (induction cs line rule: skip_block.induct) (auto simp: Let_def split: if_splits)
  then have "skip_with_espace cs line = Inl h \<Longrightarrow> h = Panic ''scanner::skip_with_espace''" for cs line h
    by (induction cs line rule: skip_with_espace.induct) (auto simp: andThen_def split: if_splits sum.splits)
  with Inl show ?thesis by (auto simp: scan_token_def)
next
  case (Inr r)
  then obtain cs line where skip: "skip_with_espace (sc_current s) (sc_line s) = Inr (cs, line)"
    by (cases r) auto
  obtain g where g: "sc_current s = g @ cs" "line = sc_line s + newlines g" "peek cs \<noteq> NL"
    using skip_runs [OF skip] by blast
  let ?s0 = "\<lparr>sc_start = cs, sc_current = cs, sc_line = line\<rparr>"
  show ?thesis
  proof (cases "is_at_end cs")
    case True
    then have "scan_token s = Inr (make_tk ?s0 token_eof, ?s0)" by (simp add: scan_token_def skip Let_def)
    moreover have "scanned g [] s (make_tk ?s0 token_eof) ?s0"
      using True g skip by (simp add: scanned_def make_tk_def lexeme_def)
    ultimately show ?thesis by blast
  next
    case False
    let ?s1 = "?s0\<lparr>sc_current := tl cs\<rparr>"
    have s1: "scan_token s = (if is_alpha (peek cs) then Inr (scan_identifier ?s1)
        else if is_digit (peek cs) then scan_number ?s1 else Inr (scan_symbol (peek cs) ?s1))"
      using False by (simp add: scan_token_def skip advance_def Let_def)
    have "(\<exists>r. scan_token s = Inr r \<and> good ?s1 r) \<or> scan_token s = Inl (ExitCode 66)"
      unfolding s1 using scan_identifier_good scan_symbol_good scan_number_good by metis
    moreover have "\<exists>l. scanned g l s t s'" if "good ?s1 (t, s')" for t s'
      using scanned_good [of ?s0 t s' s g] False g that skip by auto
    ultimately show ?thesis by fastforce
  qed
qed

lemma scan_token_length:
  assumes "scan_token s = Inr (t, s')" and "\<not> is_at_end (sc_current s)"
  shows "length (sc_current s') < length (sc_current s)"
proof -
  obtain g l where sc: "scanned g l s t s'" using scan_token_scanned [of s] assms(1) by auto
  then have "sc_current s = g @ l @ sc_current s'" by (simp add: scanned_def)
  moreover have "l = [] \<Longrightarrow> g \<noteq> []" using sc assms(2) by (auto simp: scanned_def)
  ultimately show ?thesis by (cases "l = []") auto
qed

subsection \<open>The whole source\<close>

function scan_tokens :: "scanner \<Rightarrow> token list \<Rightarrow> (token list \<times> scanner) outcome" where
  "scan_tokens s toks =
     (if is_at_end (sc_current s) then Inr (list_add_token toks (eof_token (sc_line s)), s)
      else andThen (scan_token s) (\<lambda>(t, s). scan_tokens s (list_add_token toks t)))"
  by auto
termination
  by (relation "measure (\<lambda>(s, _). length (sc_current s))") (auto dest: scan_token_length)

declare scan_tokens.simps [simp del]

definition scan :: "string \<Rightarrow> token list outcome" where
  "scan source = andThen (scan_tokens (init_scanner source) []) (\<lambda>(toks, _). Inr toks)"

text \<open>
  The pieces of the source under the tokens: \<open>chain s ps s'\<close> lists for each token the blanks
  before it and its characters.
\<close>

inductive chain :: "scanner \<Rightarrow> (string \<times> string \<times> token) list \<Rightarrow> scanner \<Rightarrow> bool" where
  chain_Nil: "chain s [] s"
| chain_Cons: "\<not> is_at_end (sc_current s) \<Longrightarrow> scanned g l s t s' \<Longrightarrow> chain s' ps s'' \<Longrightarrow>
    chain s ((g, l, t) # ps) s''"

inductive_cases chain_ConsE: "chain s (p # ps) s'"
inductive_cases chain_NilE: "chain s [] s'"

lemma scan_tokens_chain:
  "(\<exists>ps s'. scan_tokens s toks = Inr (toks @ map (snd \<circ> snd) ps @ [eof_token (sc_line s')], s') \<and>
      chain s ps s' \<and> is_at_end (sc_current s')) \<or>
   scan_tokens s toks = Inl (Panic ''scanner::skip_with_espace'') \<or> scan_tokens s toks = Inl (ExitCode 66)"
proof (induction s toks rule: scan_tokens.induct)
  case (1 s toks)
  show ?case
  proof (cases "is_at_end (sc_current s)")
    case True
    then have "scan_tokens s toks = Inr (toks @ [eof_token (sc_line s)], s)"
      by (simp add: scan_tokens.simps [of s] list_add_token_def)
    with True show ?thesis using chain_Nil by fastforce
  next
    case False
    consider g l t s' where "scan_token s = Inr (t, s')" "scanned g l s t s'"
      | h where "scan_token s = Inl h" "h = Panic ''scanner::skip_with_espace'' \<or> h = ExitCode 66"
      using scan_token_scanned [of s] by blast
    then show ?thesis
    proof cases
      case 1
      have eq: "scan_tokens s toks = scan_tokens s' (toks @ [t])"
        using False 1(1) by (simp add: scan_tokens.simps [of s] list_add_token_def)
      from "1.IH" [OF False 1(1)] consider ps s'' where
          "scan_tokens s' (toks @ [t]) = Inr ((toks @ [t]) @ map (snd \<circ> snd) ps @ [eof_token (sc_line s'')], s'')"
          "chain s' ps s''" "is_at_end (sc_current s'')"
        | h where "scan_tokens s' (toks @ [t]) = Inl h" "h = Panic ''scanner::skip_with_espace'' \<or> h = ExitCode 66"
        unfolding list_add_token_def by blast
      then show ?thesis
      proof cases
        case (1 ps s'')
        with chain_Cons [OF False \<open>scanned g l s t s'\<close> 1(2)] eq show ?thesis
          by (intro disjI1 exI [of _ "(g, l, t) # ps"] exI [of _ s'']) simp
      next
        case (2 h)
        with eq show ?thesis by auto
      qed
    next
      case (2 h)
      with False show ?thesis by (auto simp: scan_tokens.simps [of s])
    qed
  qed
qed

text \<open>A scan from a state at the end of the source would add nothing but the end.\<close>

lemma chain_current:
  "chain s ps s' \<Longrightarrow>
   sc_current s = concat (map (\<lambda>(g, l, _). g @ l) ps) @ sc_current s' \<and>
   sc_line s' = sc_line s + newlines (concat (map (\<lambda>(g, l, _). g @ l) ps))"
  by (induction rule: chain.induct) (auto simp: scanned_def)

lemma chain_token:
  assumes "chain s ps s'" and "i < length ps" and "ps ! i = (g, l, t)"
  shows "(tk_type t \<noteq> token_error \<longrightarrow> tk_lexeme t = l) \<and> (tk_type t = token_eof \<longleftrightarrow> l = []) \<and>
    tk_line t = sc_line s + newlines (concat (map (\<lambda>(g, l, _). g @ l) (take (Suc i) ps))) \<and>
    (\<exists>line rest. skip_with_espace (g @ l @ rest) line = Inr (l @ rest, line + newlines g))"
  using assms
proof (induction arbitrary: i rule: chain.induct)
  case (chain_Nil s)
  then show ?case by simp
next
  case (chain_Cons g' l' s t' s' ps s'')
  show ?case
  proof (cases i)
    case 0
    with chain_Cons show ?thesis by (fastforce simp: scanned_def)
  next
    case (Suc j)
    with chain_Cons.IH [of j] chain_Cons.prems chain_Cons.hyps(2) show ?thesis
      by (auto simp: scanned_def)
  qed
qed

text \<open>A scanned end token is the last one.\<close>

lemma chain_at_end: "chain s ps s' \<Longrightarrow> is_at_end (sc_current s) \<Longrightarrow> ps = []"
  by (erule chain.cases) auto

lemma chain_no_eof: "chain s ps s' \<Longrightarrow> t \<in> set (butlast (map (snd \<circ> snd) ps)) \<Longrightarrow> tk_type t \<noteq> token_eof"
proof (induction rule: chain.induct)
  case (chain_Nil s)
  then show ?case by simp
next
  case (chain_Cons s g l t' s' ps s'')
  have "tk_type t' \<noteq> token_eof" if "ps \<noteq> []"
    using that chain_at_end [OF chain_Cons.hyps(3)] chain_Cons.hyps(2) by (auto simp: scanned_def)
  with chain_Cons show ?case by (auto split: if_splits)
qed

subsection \<open>Keywords, as a table\<close>

definition keyword_table :: "(string \<times> token_type) list" where
  "keyword_table =
     [(''and'', token_and), (''break'', token_break), (''class'', token_class),
      (''continue'', token_continue), (''else'', token_else), (''enum'', token_enum),
      (''false'', token_false), (''for'', token_for), (''if'', token_if), (''loop'', token_loop),
      (''match'', token_match), (''None'', token_none), (''or'', token_or),
      (''return'', token_return), (''true'', token_true), (''var'', token_var),
      (''while'', token_while), (''self'', token_self), (''super'', token_super),
      (''struct'', token_struct)]"

lemma check_keyword_1:
  "length rest = n \<Longrightarrow> check_keyword (c # r) (Suc 0) n rest t = (if r = rest then t else token_identifier)"
  by (auto simp: check_keyword_def)

lemma check_keyword_2:
  "length rest = n \<Longrightarrow> check_keyword (c # d # r) 2 n rest t = (if r = rest then t else token_identifier)"
  by (auto simp: check_keyword_def)

lemma check_keyword_short: "check_keyword [c] 2 (Suc n) rest t = token_identifier"
  by (simp add: check_keyword_def)

lemma identifier_type_table:
  assumes "w \<noteq> []"
  shows "identifier_type w =
    (if take 2 w = ''fn'' then token_fn
     else case map_of keyword_table w of Some t \<Rightarrow> t | None \<Rightarrow> token_identifier)"
proof -
  obtain c r where w: "w = c # r" using assms by (cases w) auto
  show ?thesis
  proof (cases r)
    case Nil
    then show ?thesis unfolding w
      by (simp add: identifier_type_def keyword_table_def check_keyword_1 check_keyword_short)
  next
    case (Cons d r')
    show ?thesis unfolding w Cons
      by (simp add: identifier_type_def keyword_table_def check_keyword_1 check_keyword_2)
  qed
qed

subsection \<open>The properties of the scanner\<close>

lemma scan_empty: "scan [] = Inr [eof_token 1]"
  by (simp add: scan_def init_scanner_def scan_tokens.simps is_at_end_def list_add_token_def)

text \<open>
  C33: Scanning any source ends: it gives tokens of which the last is the end token, no end token
  standing before the last two places, or it panics on a comment left open, or exits with the
  scanner's code 66 on a point without a digit after it. (The end token comes twice when blanks
  close the source.)
\<close>

theorem scan_total:
  "case scan source of
     Inr toks \<Rightarrow> toks \<noteq> [] \<and> tk_type (last toks) = token_eof \<and>
       (\<forall>t\<in>set (butlast (butlast toks)). tk_type t \<noteq> token_eof)
   | Inl h \<Rightarrow> h = Panic ''scanner::skip_with_espace'' \<or> h = ExitCode 66"
proof -
  consider ps s' where "scan source = Inr (map (snd \<circ> snd) ps @ [eof_token (sc_line s')])"
      "chain (init_scanner source) ps s'"
    | h where "scan source = Inl h" "h = Panic ''scanner::skip_with_espace'' \<or> h = ExitCode 66"
    using scan_tokens_chain [of "init_scanner source" "[]"] by (auto simp: scan_def)
  then show ?thesis
  proof cases
    case (1 ps s')
    with chain_no_eof [OF 1(2)] show ?thesis by (simp add: eof_token_def butlast_append)
  next
    case (2 h)
    then show ?thesis by auto
  qed
qed

lemma scan_total_witness: "tk_type (last [eof_token 1]) = token_eof \<and> scan [] \<noteq> Inl Diverge"
  using scan_total [of "[]"] by (auto simp: scan_empty split: sum.splits)

text \<open>
  C32: The tokens are the source, in order: it is cut into pieces, blanks and comments then
  characters, one pair for each token but the last, up to the end of the source; each token that is
  no error has exactly its characters as lexeme, and carries the line number that counting the line
  ends up to and including it gives.
\<close>

theorem scan_pieces:
  assumes "scan source = Inr toks"
  shows "\<exists>ps rest. butlast toks = map (snd \<circ> snd) ps \<and>
    source = concat (map (\<lambda>(g, l, _). g @ l) ps) @ rest \<and> is_at_end rest \<and>
    (\<forall>i<length ps. case ps ! i of (g, l, t) \<Rightarrow>
       (tk_type t \<noteq> token_error \<longrightarrow> tk_lexeme t = l) \<and> (tk_type t = token_eof \<longleftrightarrow> l = []) \<and>
       tk_line t = 1 + newlines (concat (map (\<lambda>(g, l, _). g @ l) (take (Suc i) ps))) \<and>
       (\<exists>line rest. skip_with_espace (g @ l @ rest) line = Inr (l @ rest, line + newlines g)))"
proof -
  obtain ps s' where toks: "toks = map (snd \<circ> snd) ps @ [eof_token (sc_line s')]"
    and ps: "chain (init_scanner source) ps s'" and e: "is_at_end (sc_current s')"
    using scan_tokens_chain [of "init_scanner source" "[]"] assms by (auto simp: scan_def)
  have "source = concat (map (\<lambda>(g, l, _). g @ l) ps) @ sc_current s'"
    using chain_current [OF ps] by (simp add: init_scanner_def)
  moreover have "case ps ! i of (g, l, t) \<Rightarrow>
       (tk_type t \<noteq> token_error \<longrightarrow> tk_lexeme t = l) \<and> (tk_type t = token_eof \<longleftrightarrow> l = []) \<and>
       tk_line t = 1 + newlines (concat (map (\<lambda>(g, l, _). g @ l) (take (Suc i) ps))) \<and>
       (\<exists>line rest. skip_with_espace (g @ l @ rest) line = Inr (l @ rest, line + newlines g))"
    if "i < length ps" for i
    using chain_token [OF ps that] by (cases "ps ! i") (simp add: init_scanner_def)
  ultimately show ?thesis using toks e by (intro exI [of _ ps] exI [of _ "sc_current s'"]) simp
qed

lemma scan_pieces_witness:
  "scan [] = Inr [eof_token 1] \<and>
   (\<exists>ps rest. ([] :: token list) = map (snd \<circ> snd) (ps :: (string \<times> string \<times> token) list) \<and> is_at_end rest)"
  using scan_pieces [OF scan_empty] scan_empty by auto

text \<open>The trie that types identifiers is the table of keywords, apart from \<open>fn\<close>: every identifier
  that starts with these two letters, \<open>fnord\<close> say, is typed as the keyword \<open>fn\<close>.
\<close>

theorem identifier_type_keywords:
  assumes "w \<noteq> []"
  shows "identifier_type w =
    (if take 2 w = ''fn'' then token_fn
     else case map_of keyword_table w of Some t \<Rightarrow> t | None \<Rightarrow> token_identifier)"
  by (rule identifier_type_table [OF assms])

lemma identifier_type_keywords_witness:
  "identifier_type ''fnord'' = token_fn \<and> identifier_type ''while'' = token_while \<and>
   identifier_type ''whale'' = token_identifier"
  using identifier_type_keywords [of "''fnord''"] identifier_type_keywords [of "''while''"]
    identifier_type_keywords [of "''whale''"]
  by (simp add: keyword_table_def)

end
