(* ===== verification/Joker_Intern.thy ===== *)
theory Joker_Intern
  imports Joker_HashMap
begin

text \<open>
  Strings (include/string_.h, src/string.c): the \<open>String\<close> objects at their addresses and the pool
  \<open>vm->strings\<close> that interns them, a hash table keyed by those addresses.

  Under \<open>pool_inv\<close>, which creation and concatenation keep, an address determines a content and a
  content an address. The theories after this one therefore name a string by its content.
\<close>

subsection \<open>State\<close>

record string_obj =
  so_hash :: u32
  so_chars :: string

record str_pool =
  sp_table :: "nat hashmap"
  sp_heap :: "nat \<Rightarrow> string_obj option"
  sp_next :: nat

definition init_pool :: str_pool where
  "init_pool = \<lparr>sp_table = init_hashmap, sp_heap = (\<lambda>_. None), sp_next = 0\<rparr>"

text \<open>The hash field and the characters an address in the table leads to.\<close>

definition hash_at :: "(nat \<Rightarrow> string_obj option) \<Rightarrow> nat \<Rightarrow> u32" where
  "hash_at h a = (case h a of Some s \<Rightarrow> so_hash s | None \<Rightarrow> 0)"

definition chars_at :: "(nat \<Rightarrow> string_obj option) \<Rightarrow> nat \<Rightarrow> string" where
  "chars_at h a = (case h a of Some s \<Rightarrow> so_chars s | None \<Rightarrow> [])"

subsection \<open>Operations\<close>

fun hash_loop :: "u32 \<Rightarrow> string \<Rightarrow> u32" where
  "hash_loop hash [] = hash"
| "hash_loop hash (c # cs) = hash_loop ((hash XOR ucast (of_char c :: u8)) * 16777619) cs"

definition hash_string :: "string \<Rightarrow> u32" where
  "hash_string key = hash_loop 2166136261 key"

definition INT32_MAX :: nat where
  "INT32_MAX = 2147483647"

text \<open>The object is stored, and entered in the pool with the value null.\<close>

definition add_string :: "str_pool \<Rightarrow> string \<Rightarrow> u32 \<Rightarrow> (str_pool \<times> nat) outcome" where
  "add_string p chars hash =
     (let a = sp_next p;
          heap = (sp_heap p)(a \<mapsto> \<lparr>so_hash = hash, so_chars = chars\<rparr>)
      in andThen (hashmap_set (hash_at heap) (sp_table p) a VNull) (\<lambda>(table, _).
           Inr (\<lparr>sp_table = table, sp_heap = heap, sp_next = a + 1\<rparr>, a)))"

text \<open>\<open>None\<close> is the null pointer, after the runtime error for a length out of range.\<close>

definition new_string :: "str_pool \<Rightarrow> string \<Rightarrow> (str_pool \<times> nat option) outcome" where
  "new_string p chars =
     (if INT32_MAX - 1 < length chars then Inr (p, None)
      else let hash = hash_string chars in
        andThen (hashmap_find_key (hash_at (sp_heap p)) (chars_at (sp_heap p)) (sp_table p) chars hash)
          (\<lambda>interned. case interned of
              Some a \<Rightarrow> Inr (p, Some a)
            | None \<Rightarrow> andThen (add_string p chars hash) (\<lambda>(p, a). Inr (p, Some a))))"

text \<open>
  The object \<open>concat_string_uninterned\<close> makes is released again when its content is interned
  already. The sum of the two lengths is an \<open>int\<close>.
\<close>

definition concat_string :: "str_pool \<Rightarrow> nat \<Rightarrow> nat \<Rightarrow> (str_pool \<times> nat option) outcome" where
  "concat_string p left right =
     (let l = chars_at (sp_heap p) left; r = chars_at (sp_heap p) right in
      if INT32_MAX - 1 < length l then Inr (p, None)
      else if INT32_MAX - 1 < length r then Inr (p, None)
      else if INT32_MAX < length l + length r then Inl (Undefined ''signed overflow'')
      else if INT32_MAX - 1 < length l + length r then Inr (p, None)
      else let chars = l @ r; hash = hash_string chars in
        andThen (hashmap_find_key (hash_at (sp_heap p)) (chars_at (sp_heap p)) (sp_table p) chars hash)
          (\<lambda>interned. case interned of
              Some a \<Rightarrow> Inr (p, Some a)
            | None \<Rightarrow> andThen (add_string p chars hash) (\<lambda>(p, a). Inr (p, Some a))))"

definition string_equal :: "nat \<Rightarrow> nat \<Rightarrow> bool" where
  "string_equal left right = (left = right)"

subsection \<open>The invariant of the pool\<close>

definition pool_inv :: "str_pool \<Rightarrow> bool" where
  "pool_inv p \<longleftrightarrow>
     hm_wf (hash_at (sp_heap p)) (sp_table p) \<and> dom (hm_map (sp_table p)) = dom (sp_heap p) \<and>
     (\<forall>a s. sp_heap p a = Some s \<longrightarrow> a < sp_next p \<and> so_hash s = hash_string (so_chars s)) \<and>
     (\<forall>a b s t. sp_heap p a = Some s \<longrightarrow> sp_heap p b = Some t \<longrightarrow> so_chars s = so_chars t \<longrightarrow> a = b)"

text \<open>A table stays well formed when the hash changes on keys it does not hold.\<close>

lemma wf_entries_cong:
  assumes "wf_entries hash es" and "\<And>i k. i < length es \<Longrightarrow> e_key (es ! i) = Some k \<Longrightarrow> hash' k = hash k"
  shows "wf_entries hash' es"
proof -
  have "home hash' es k = home hash es k" if "i < length es" "e_key (es ! i) = Some k" for i k
    using assms(2) [OF that] by (simp add: home_def)
  with assms(1) show ?thesis unfolding wf_entries_def by metis
qed

lemma hm_wf_cong:
  assumes "hm_wf hash m" and "\<And>k. k \<in> dom (hm_map m) \<Longrightarrow> hash' k = hash k"
  shows "hm_wf hash' m"
proof -
  have "wf_entries hash' (hm_entries m)"
  proof (rule wf_entries_cong)
    show "wf_entries hash (hm_entries m)" using assms(1) by (simp add: hm_wf_def)
    fix i k assume "i < length (hm_entries m)" "e_key (hm_entries m ! i) = Some k"
    then show "hash' k = hash k" using entries_map_key assms(2) by (fastforce simp: hm_map_def)
  qed
  with assms(1) show ?thesis by (simp add: hm_wf_def)
qed

lemma pool_inv_init: "pool_inv init_pool"
  by (simp add: pool_inv_def init_pool_def hm_wf_empty hm_map_empty)

lemma add_string_inv:
  assumes "pool_inv p" and "hm_count (sp_table p) < hm_limit"
    and "\<forall>a s. sp_heap p a = Some s \<longrightarrow> so_chars s \<noteq> chars"
  shows "\<exists>p' a. add_string p chars (hash_string chars) = Inr (p', a) \<and> pool_inv p' \<and>
    sp_heap p a = None \<and>
    sp_heap p' = (sp_heap p)(a \<mapsto> \<lparr>so_hash = hash_string chars, so_chars = chars\<rparr>)"
proof -
  let ?a = "sp_next p"
  let ?h = "(sp_heap p)(?a \<mapsto> \<lparr>so_hash = hash_string chars, so_chars = chars\<rparr>)"
  have new: "sp_heap p ?a = None"
    using assms(1) unfolding pool_inv_def by (metis less_irrefl option.exhaust)
  have "hm_wf (hash_at ?h) (sp_table p)"
  proof (rule hm_wf_cong)
    show "hm_wf (hash_at (sp_heap p)) (sp_table p)" using assms(1) by (simp add: pool_inv_def)
    fix k assume "k \<in> dom (hm_map (sp_table p))"
    then have "k \<noteq> ?a" using assms(1) new by (auto simp: pool_inv_def)
    then show "hash_at ?h k = hash_at (sp_heap p) k" by (simp add: hash_at_def)
  qed
  from hm.put_law [OF this assms(2), of ?a VNull] obtain m
    where m: "hashmap_set (hash_at ?h) (sp_table p) ?a VNull = Inr (m, hm_map (sp_table p) ?a = None)"
      "hm_wf (hash_at ?h) m" "hm_map m = (hm_map (sp_table p))(?a \<mapsto> VNull)" by blast
  let ?p = "\<lparr>sp_table = m, sp_heap = ?h, sp_next = ?a + 1\<rparr>"
  have "pool_inv ?p"
    using assms(1,3) m(2,3) new unfolding pool_inv_def by (auto simp: less_Suc_eq)
  with m(1) new show ?thesis by (auto simp: add_string_def Let_def)
qed

text \<open>Looking a content up in the pool and adding it when it is missing.\<close>

lemma intern_inv:
  assumes "pool_inv p" and "hm_count (sp_table p) < hm_limit"
  shows "\<exists>p' a s. andThen (hashmap_find_key (hash_at (sp_heap p)) (chars_at (sp_heap p)) (sp_table p)
            chars (hash_string chars))
          (\<lambda>interned. case interned of
              Some a \<Rightarrow> Inr (p, Some a)
            | None \<Rightarrow> andThen (add_string p chars (hash_string chars)) (\<lambda>(p, a). Inr (p, Some a)))
     = Inr (p', Some a) \<and> pool_inv p' \<and> sp_heap p \<subseteq>\<^sub>m sp_heap p' \<and>
       sp_heap p' a = Some s \<and> so_chars s = chars"
proof -
  have wf: "hm_wf (hash_at (sp_heap p)) (sp_table p)" using assms(1) by (simp add: pool_inv_def)
  have dom: "dom (hm_map (sp_table p)) = dom (sp_heap p)" using assms(1) by (simp add: pool_inv_def)
  obtain r where r: "hashmap_find_key (hash_at (sp_heap p)) (chars_at (sp_heap p)) (sp_table p) chars
      (hash_string chars) = Inr r"
    and case_r: "case r of
       Some s \<Rightarrow> s \<in> dom (hm_map (sp_table p)) \<and> chars_at (sp_heap p) s = chars \<and>
         hash_at (sp_heap p) s = hash_string chars
     | None \<Rightarrow> \<forall>s \<in> dom (hm_map (sp_table p)). \<not> (chars_at (sp_heap p) s = chars \<and>
         hash_at (sp_heap p) s = hash_string chars)"
    using hashmap_find_key_map [OF wf, of "chars_at (sp_heap p)" chars "hash_string chars"] by blast
  show ?thesis
  proof (cases r)
    case (Some a)
    with case_r dom obtain s where "sp_heap p a = Some s" "so_chars s = chars"
      by (auto simp: chars_at_def)
    with r Some assms(1) show ?thesis by auto
  next
    case None
    have "so_chars s \<noteq> chars" if "sp_heap p a = Some s" for a s
    proof
      assume "so_chars s = chars"
      moreover have "so_hash s = hash_string (so_chars s)" using assms(1) that by (auto simp: pool_inv_def)
      moreover have "a \<in> dom (hm_map (sp_table p))" using that dom by auto
      ultimately have "chars_at (sp_heap p) a = chars" "hash_at (sp_heap p) a = hash_string chars"
        "a \<in> dom (hm_map (sp_table p))" using that by (simp_all add: chars_at_def hash_at_def)
      then show False using case_r None by simp
    qed
    with add_string_inv [OF assms] obtain p' a where "add_string p chars (hash_string chars) = Inr (p', a)"
      "pool_inv p'" "sp_heap p a = None"
      "sp_heap p' = (sp_heap p)(a \<mapsto> \<lparr>so_hash = hash_string chars, so_chars = chars\<rparr>)" by metis
    with r None show ?thesis by (auto simp: map_le_def)
  qed
qed

lemma pool_content:
  assumes "pool_inv p" and "sp_heap p a = Some s" and "sp_heap p b = Some t"
  shows "string_equal a b \<longleftrightarrow> so_chars s = so_chars t"
  using assms unfolding pool_inv_def string_equal_def by auto

subsection \<open>The properties of strings\<close>

text \<open>
  C36: Creating a string returns an object with these characters, without disturbing the others,
  and in the resulting pool comparing two strings by pointer is comparing them by content.
\<close>

theorem new_string_interned:
  assumes "pool_inv p" and "hm_count (sp_table p) < hm_limit" and "length chars \<le> INT32_MAX - 1"
  shows "\<exists>p' a s. new_string p chars = Inr (p', Some a) \<and> pool_inv p' \<and> sp_heap p \<subseteq>\<^sub>m sp_heap p' \<and>
    sp_heap p' a = Some s \<and> so_chars s = chars \<and>
    (\<forall>b c t u. sp_heap p' b = Some t \<longrightarrow> sp_heap p' c = Some u \<longrightarrow>
       (string_equal b c \<longleftrightarrow> so_chars t = so_chars u))"
proof -
  obtain p' a s where r: "new_string p chars = Inr (p', Some a)" "pool_inv p'" "sp_heap p \<subseteq>\<^sub>m sp_heap p'"
    "sp_heap p' a = Some s" "so_chars s = chars"
    using intern_inv [OF assms(1,2), of chars] assms(3) by (auto simp: new_string_def Let_def)
  with pool_content [OF r(2)] show ?thesis by blast
qed

lemma new_string_interned_witness:
  "\<exists>p a s. new_string init_pool ''init'' = Inr (p, Some a) \<and> sp_heap p a = Some s \<and> so_chars s = ''init''"
  using new_string_interned [OF pool_inv_init, of "''init''"]
  by (auto simp: init_pool_def init_hashmap_def hm_limit_def INT32_MAX_def)

text \<open>
  Concatenating two strings of the pool returns an interned string holding the characters of
  both, as long as the sum of the lengths stays below \<open>INT32_MAX\<close>.
\<close>

theorem concat_string_interned:
  assumes "pool_inv p" and "hm_count (sp_table p) < hm_limit"
    and "sp_heap p left = Some l" and "sp_heap p right = Some r"
    and "length (so_chars l) + length (so_chars r) < INT32_MAX"
  shows "\<exists>p' a s. concat_string p left right = Inr (p', Some a) \<and> pool_inv p' \<and>
    sp_heap p \<subseteq>\<^sub>m sp_heap p' \<and> sp_heap p' a = Some s \<and> so_chars s = so_chars l @ so_chars r"
  using intern_inv [OF assms(1,2), of "so_chars l @ so_chars r"] assms(3-5)
  by (auto simp: concat_string_def Let_def chars_at_def)

lemma concat_string_interned_witness:
  "\<exists>p a q b s. new_string init_pool ''ab'' = Inr (p, Some a) \<and> concat_string p a a = Inr (q, Some b) \<and>
     sp_heap q b = Some s \<and> so_chars s = ''abab''"
proof -
  let ?h = "[0 \<mapsto> \<lparr>so_hash = hash_string ''ab'', so_chars = ''ab''\<rparr>]"
  obtain p where p: "new_string init_pool ''ab'' = Inr (p, Some 0)" "pool_inv p"
      "sp_heap p = ?h" "hm_count (sp_table p) \<le> 1"
  proof -
    obtain m where m: "hashmap_set (hash_at ?h) init_hashmap 0 VNull = Inr (m, True)"
        "hm_wf (hash_at ?h) m" "hm_map m = [0 \<mapsto> VNull]" "hm_count m \<le> 1"
      using hm.put_law [OF hm_wf_empty, of "hash_at ?h" 0 VNull]
      by (auto simp: init_hashmap_def hm_limit_def hm_map_def)
    have "new_string init_pool ''ab'' = Inr (\<lparr>sp_table = m, sp_heap = ?h, sp_next = 1\<rparr>, Some 0)"
      using m(1) by (simp add: new_string_def INT32_MAX_def init_pool_def hashmap_find_key_def
          init_hashmap_def add_string_def Let_def)
    moreover have "pool_inv \<lparr>sp_table = m, sp_heap = ?h, sp_next = 1\<rparr>"
      using m by (auto simp: pool_inv_def split: if_splits)
    ultimately show thesis using m(4) that by simp
  qed
  have "\<exists>p' a s. concat_string p 0 0 = Inr (p', Some a) \<and> pool_inv p' \<and>
      sp_heap p \<subseteq>\<^sub>m sp_heap p' \<and> sp_heap p' a = Some s \<and> so_chars s = ''ab'' @ ''ab''"
    using concat_string_interned [OF p(2), of 0 "\<lparr>so_hash = hash_string ''ab'', so_chars = ''ab''\<rparr>" 0
        "\<lparr>so_hash = hash_string ''ab'', so_chars = ''ab''\<rparr>"] p(3,4)
    by (simp add: hm_limit_def INT32_MAX_def)
  with p(1) show ?thesis by auto
qed

end
