(* ===== verification/Joker_Arith.thy ===== *)
theory Joker_Arith
  imports Joker_Value
begin

text \<open>
  The operators on values that are no objects (include/operator.h; \<open>coerce_types\<close>,
  \<open>handle_binary_*_op\<close>, \<open>handle_unary_*_op\<close>, \<open>negate\<close> and \<open>not_\<close> of src/vm.c).

  A handler stores its result in the left operand's slot and pops the right one, or reports a
  runtime error: here it gives \<open>Result\<close> of the value or \<open>Error\<close> of the message, and the virtual machine
  theory does the storing and popping. A handler chooses by the type of the left operand alone and
  reads the right one as that type, whatever it is. Signed overflow of \<open>i64\<close>, \<open>INT_MIN / -1\<close> and
  shifts by a negative or oversized amount are \<open>Undefined\<close>; a left shift of a negative number is what
  two's complement gives, as the compiler used documents.
\<close>

subsection \<open>Operators\<close>

datatype (plugins only: code) operator =
  OP_ADD | OP_SUB | OP_MUL | OP_DIV | OP_MOD | OP_POW | OP_EQ | OP_NEQ | OP_GT | OP_LT | OP_GTE
  | OP_LTE | OP_AND | OP_OR | OP_XOR | OP_NEG | OP_ASSIGN | OP_SHL | OP_SHR | OP_BIT_AND
  | OP_BIT_OR | OP_BIT_XOR | BINARY_COUNT | OP_NOT | OP_BIT_NOT | OPERATOR_COUNT

definition all_operators :: "operator list" where
  "all_operators =
     [OP_ADD, OP_SUB, OP_MUL, OP_DIV, OP_MOD, OP_POW, OP_EQ, OP_NEQ, OP_GT, OP_LT, OP_GTE,
      OP_LTE, OP_AND, OP_OR, OP_XOR, OP_NEG, OP_ASSIGN, OP_SHL, OP_SHR, OP_BIT_AND,
      OP_BIT_OR, OP_BIT_XOR, BINARY_COUNT, OP_NOT, OP_BIT_NOT, OPERATOR_COUNT]"

definition MACRO_IN_BINARY_OP :: "operator \<Rightarrow> bool" where
  "MACRO_IN_BINARY_OP op = (op \<in> set (take 22 all_operators))"

definition MACRO_IN_UNARY_OP :: "operator \<Rightarrow> bool" where
  "MACRO_IN_UNARY_OP op = (op = OP_NOT \<or> op = OP_BIT_NOT)"

datatype arith_result = Result jvalue | Error string

definition not_supported :: "string \<Rightarrow> arith_result outcome" where
  "not_supported type = Inr (Error (''Operator not supported for '' @ type))"

subsection \<open>32-bit integers\<close>

text \<open>\<open>MACRO_CHECK_I32_OVERFLOW\<close>: the operation is done in \<open>int64_t\<close>, where it cannot overflow.\<close>

definition checked_i32 :: "int \<Rightarrow> arith_result outcome" where
  "checked_i32 result =
     (if result < - (2 ^ 31) \<or> 2 ^ 31 - 1 < result then Inr (Error ''i32 overflow in operation'')
      else Inr (Result (VI32 (word_of_int result))))"

definition shift_i32 :: "(int \<Rightarrow> nat \<Rightarrow> int) \<Rightarrow> int \<Rightarrow> int \<Rightarrow> arith_result outcome" where
  "shift_i32 f a b =
     (if b < 0 \<or> 32 \<le> b then Inl (Undefined ''shift amount'')
      else Inr (Result (VI32 (word_of_int (f a (nat b))))))"

definition handle_binary_i32_op ::
    "union_layout \<Rightarrow> operator \<Rightarrow> jvalue \<Rightarrow> jvalue \<Rightarrow> arith_result outcome" where
  "handle_binary_i32_op L op lhs rhs =
     (let x = macro_as_i32 L lhs; y = macro_as_i32 L rhs; a = sint x; b = sint y in
      case op of
        OP_ADD \<Rightarrow> checked_i32 (a + b)
      | OP_SUB \<Rightarrow> checked_i32 (a - b)
      | OP_MUL \<Rightarrow> checked_i32 (a * b)
      | OP_DIV \<Rightarrow>
          if b = 0 then Inr (Error ''Division by zero'')
          else if a = - (2 ^ 31) \<and> b = -1 then Inl (Undefined ''INT_MIN / -1'')
          else Inr (Result (VI32 (word_of_int (a sdiv b))))
      | OP_MOD \<Rightarrow>
          if b = 0 then Inr (Error ''Modulo by zero'')
          else if a = - (2 ^ 31) \<and> b = -1 then Inl (Undefined ''INT_MIN % -1'')
          else Inr (Result (VI32 (word_of_int (a smod b))))
      | OP_EQ \<Rightarrow> Inr (Result (VBool (a = b)))
      | OP_NEQ \<Rightarrow> Inr (Result (VBool (a \<noteq> b)))
      | OP_GT \<Rightarrow> Inr (Result (VBool (a > b)))
      | OP_LT \<Rightarrow> Inr (Result (VBool (a < b)))
      | OP_GTE \<Rightarrow> Inr (Result (VBool (a \<ge> b)))
      | OP_LTE \<Rightarrow> Inr (Result (VBool (a \<le> b)))
      | OP_SHL \<Rightarrow> shift_i32 (\<lambda>a n. a * 2 ^ n) a b
      | OP_SHR \<Rightarrow> shift_i32 (\<lambda>a n. a div 2 ^ n) a b
      | OP_BIT_XOR \<Rightarrow> Inr (Result (VI32 (x XOR y)))
      | OP_BIT_OR \<Rightarrow> Inr (Result (VI32 (x OR y)))
      | OP_BIT_AND \<Rightarrow> Inr (Result (VI32 (x AND y)))
      | _ \<Rightarrow> not_supported ''i32'')"

subsection \<open>64-bit integers\<close>

definition signed_i64 :: "int \<Rightarrow> arith_result outcome" where
  "signed_i64 result =
     (if in_i64 result then Inr (Result (VI64 (word_of_int result)))
      else Inl (Undefined ''signed overflow''))"

definition shift_i64 :: "(int \<Rightarrow> nat \<Rightarrow> int) \<Rightarrow> int \<Rightarrow> int \<Rightarrow> arith_result outcome" where
  "shift_i64 f a b =
     (if b < 0 \<or> 64 \<le> b then Inl (Undefined ''shift amount'')
      else Inr (Result (VI64 (word_of_int (f a (nat b))))))"

definition handle_binary_i64_op ::
    "union_layout \<Rightarrow> operator \<Rightarrow> jvalue \<Rightarrow> jvalue \<Rightarrow> arith_result outcome" where
  "handle_binary_i64_op L op lhs rhs =
     (let x = macro_as_i64 L lhs; y = macro_as_i64 L rhs; a = sint x; b = sint y in
      case op of
        OP_ADD \<Rightarrow> signed_i64 (a + b)
      | OP_SUB \<Rightarrow> signed_i64 (a - b)
      | OP_MUL \<Rightarrow> signed_i64 (a * b)
      | OP_DIV \<Rightarrow>
          if b = 0 then Inr (Error ''Division by zero'')
          else if a = - (2 ^ 63) \<and> b = -1 then Inl (Undefined ''INT64_MIN / -1'')
          else Inr (Result (VI64 (word_of_int (a sdiv b))))
      | OP_MOD \<Rightarrow>
          if b = 0 then Inr (Error ''Modulo by zero'')
          else if a = - (2 ^ 63) \<and> b = -1 then Inl (Undefined ''INT64_MIN % -1'')
          else Inr (Result (VI64 (word_of_int (a smod b))))
      | OP_EQ \<Rightarrow> Inr (Result (VBool (a = b)))
      | OP_NEQ \<Rightarrow> Inr (Result (VBool (a \<noteq> b)))
      | OP_GT \<Rightarrow> Inr (Result (VBool (a > b)))
      | OP_LT \<Rightarrow> Inr (Result (VBool (a < b)))
      | OP_GTE \<Rightarrow> Inr (Result (VBool (a \<ge> b)))
      | OP_LTE \<Rightarrow> Inr (Result (VBool (a \<le> b)))
      | OP_SHL \<Rightarrow> shift_i64 (\<lambda>a n. a * 2 ^ n) a b
      | OP_SHR \<Rightarrow> shift_i64 (\<lambda>a n. a div 2 ^ n) a b
      | OP_BIT_AND \<Rightarrow> Inr (Result (VI64 (x AND y)))
      | OP_BIT_OR \<Rightarrow> Inr (Result (VI64 (x OR y)))
      | OP_BIT_XOR \<Rightarrow> Inr (Result (VI64 (x XOR y)))
      | _ \<Rightarrow> not_supported ''i64'')"

subsection \<open>Floating point\<close>

text \<open>
  The six comparisons, from the order of the operands; \<open>None\<close> when one is a NaN, where only \<open>!=\<close>
  holds.
\<close>

definition compare_result :: "operator \<Rightarrow> int option \<Rightarrow> arith_result outcome" where
  "compare_result op c =
     Inr (Result (VBool (case op of
         OP_EQ \<Rightarrow> c = Some 0
       | OP_NEQ \<Rightarrow> c \<noteq> Some 0
       | OP_GT \<Rightarrow> (case c of Some i \<Rightarrow> 0 < i | None \<Rightarrow> False)
       | OP_LT \<Rightarrow> (case c of Some i \<Rightarrow> i < 0 | None \<Rightarrow> False)
       | OP_GTE \<Rightarrow> (case c of Some i \<Rightarrow> 0 \<le> i | None \<Rightarrow> False)
       | _ \<Rightarrow> (case c of Some i \<Rightarrow> i \<le> 0 | None \<Rightarrow> False))))"

definition handle_binary_f32_op ::
    "union_layout \<Rightarrow> operator \<Rightarrow> jvalue \<Rightarrow> jvalue \<Rightarrow> arith_result outcome" where
  "handle_binary_f32_op L op lhs rhs =
     (let a = macro_as_f32 L lhs; b = macro_as_f32 L rhs in
      if op = OP_ADD then Inr (Result (VF32 (f32_add a b)))
      else if op = OP_SUB then Inr (Result (VF32 (f32_sub a b)))
      else if op = OP_MUL then Inr (Result (VF32 (f32_mul a b)))
      else if op = OP_DIV then
        (if f32_compare b 0 = Some 0 then Inr (Error ''Division by zero'')
         else Inr (Result (VF32 (f32_div a b))))
      else if op \<in> {OP_EQ, OP_NEQ, OP_GT, OP_LT, OP_GTE, OP_LTE} then compare_result op (f32_compare a b)
      else not_supported ''f32'')"

definition handle_binary_f64_op ::
    "union_layout \<Rightarrow> operator \<Rightarrow> jvalue \<Rightarrow> jvalue \<Rightarrow> arith_result outcome" where
  "handle_binary_f64_op L op lhs rhs =
     (let a = macro_as_f64 L lhs; b = macro_as_f64 L rhs in
      if op = OP_ADD then Inr (Result (VF64 (f64_add a b)))
      else if op = OP_SUB then Inr (Result (VF64 (f64_sub a b)))
      else if op = OP_MUL then Inr (Result (VF64 (f64_mul a b)))
      else if op = OP_DIV then
        (if f64_compare b 0 = Some 0 then Inr (Error ''Division by zero'')
         else Inr (Result (VF64 (f64_div a b))))
      else if op = OP_MOD then Inr (Result (VF64 (f64_fmod a b)))
      else if op \<in> {OP_EQ, OP_NEQ, OP_GT, OP_LT, OP_GTE, OP_LTE} then compare_result op (f64_compare a b)
      else not_supported ''f64'')"

subsection \<open>Booleans and None\<close>

definition handle_binary_bool_op ::
    "union_layout \<Rightarrow> operator \<Rightarrow> jvalue \<Rightarrow> jvalue \<Rightarrow> arith_result outcome" where
  "handle_binary_bool_op L op lhs rhs =
     andThen (macro_as_bool L lhs) (\<lambda>a. andThen (macro_as_bool L rhs) (\<lambda>b.
       if op = OP_EQ then Inr (Result (VBool (a = b)))
       else if op = OP_NEQ then Inr (Result (VBool (a \<noteq> b)))
       else if op = OP_AND then Inr (Result (VBool (a \<and> b)))
       else if op = OP_OR then Inr (Result (VBool (a \<or> b)))
       else not_supported ''bool''))"

definition handle_binary_none_op ::
    "operator \<Rightarrow> jvalue \<Rightarrow> jvalue \<Rightarrow> arith_result outcome" where
  "handle_binary_none_op op lhs rhs =
     (if op = OP_EQ then Inr (Result (VBool (macro_is_none rhs)))
      else if op = OP_NEQ then Inr (Result (VBool (\<not> macro_is_none rhs)))
      else Inr (Error ''Operation not supported for None type''))"

text \<open>The switch on the left operand at the end of \<open>read_binary\<close>.\<close>

definition binary_basic ::
    "union_layout \<Rightarrow> operator \<Rightarrow> jvalue \<Rightarrow> jvalue \<Rightarrow> arith_result outcome" where
  "binary_basic L op lhs rhs =
     (case vtype lhs of
        VAL_I32 \<Rightarrow> handle_binary_i32_op L op lhs rhs
      | VAL_I64 \<Rightarrow> handle_binary_i64_op L op lhs rhs
      | VAL_F32 \<Rightarrow> handle_binary_f32_op L op lhs rhs
      | VAL_F64 \<Rightarrow> handle_binary_f64_op L op lhs rhs
      | VAL_BOOL \<Rightarrow> handle_binary_bool_op L op lhs rhs
      | VAL_NONE \<Rightarrow> handle_binary_none_op op lhs rhs
      | _ \<Rightarrow> Inr (Error ''Unsupported operand types''))"

subsection \<open>Conversion of the operands\<close>

text \<open>
  The tables of operators are \<open>static const\<close> objects of headers, so each C file that includes the
  header has its own, at its own address: an object made in src/string.c carries the \<open>string_vtable\<close>
  of that file, and src/vm.c compares it with its own.
\<close>

datatype c_file = STRING_C | VM_C | VEC_C | OBJECT_C

datatype vtable = string_vtable c_file | vec_vtable c_file | default_object_vtable c_file

fun dec_of_nat :: "nat \<Rightarrow> string" where
  "dec_of_nat n = (if n < 10 then [char_of (48 + n)] else dec_of_nat (n div 10) @ [char_of (48 + n mod 10)])"

declare dec_of_nat.simps [simp del]

definition dec_of_int :: "int \<Rightarrow> string" where
  "dec_of_int i = (if i < 0 then CHR ''-'' # dec_of_nat (nat (- i)) else dec_of_nat (nat i))"

text \<open>\<open>fmt\<close> stands for the C library's \<open>%.6g\<close>.\<close>

definition number_to_string :: "(jvalue \<Rightarrow> string) \<Rightarrow> jvalue \<Rightarrow> string option" where
  "number_to_string fmt v =
     (case v of
        VI32 w \<Rightarrow> Some (dec_of_int (sint w))
      | VI64 w \<Rightarrow> Some (dec_of_int (sint w))
      | VF32 w \<Rightarrow> Some (fmt v)
      | VF64 w \<Rightarrow> Some (fmt v)
      | _ \<Rightarrow> None)"

definition has_string_vtable :: "(objref \<Rightarrow> vtable) \<Rightarrow> jvalue \<Rightarrow> bool" where
  "has_string_vtable vt v = (case v of VObject r \<Rightarrow> vt r = string_vtable VM_C | _ \<Rightarrow> False)"

definition stored_string :: "string option \<Rightarrow> jvalue" where
  "stored_string s = (case s of Some t \<Rightarrow> VObject (StrRef t) | None \<Rightarrow> VNull)"

definition coerce_types ::
    "union_layout \<Rightarrow> (objref \<Rightarrow> vtable) \<Rightarrow> (jvalue \<Rightarrow> string) \<Rightarrow> operator \<Rightarrow> jvalue \<Rightarrow> jvalue \<Rightarrow>
     (jvalue \<times> jvalue) outcome" where
  "coerce_types L vt fmt op lhs rhs =
     (if macro_is_number lhs \<and> macro_is_number rhs then numeric_type_promotion L lhs rhs
      else if op = OP_ADD \<and> macro_is_number lhs \<and> has_string_vtable vt rhs then
        Inr (stored_string (number_to_string fmt lhs), rhs)
      else if op = OP_ADD \<and> macro_is_number rhs \<and> has_string_vtable vt lhs then
        Inr (lhs, stored_string (number_to_string fmt rhs))
      else Inr (lhs, rhs))"

subsection \<open>Unary operators\<close>

definition negate :: "jvalue \<Rightarrow> arith_result outcome" where
  "negate v =
     (case v of
        VI32 w \<Rightarrow> if sint w = - (2 ^ 31) then Inl (Undefined ''signed overflow'') else Inr (Result (VI32 (- w)))
      | VI64 w \<Rightarrow> if sint w = - (2 ^ 63) then Inl (Undefined ''signed overflow'') else Inr (Result (VI64 (- w)))
      | VF32 w \<Rightarrow> Inr (Result (VF32 (f32_neg w)))
      | VF64 w \<Rightarrow> Inr (Result (VF64 (f64_neg w)))
      | _ \<Rightarrow> Inr (Error ''Expected number type''))"

definition not_value :: "jvalue \<Rightarrow> arith_result outcome" where
  "not_value v =
     (case v of VBool b \<Rightarrow> Inr (Result (VBool (\<not> b))) | _ \<Rightarrow> Inr (Error ''Expected boolean for not operation''))"

definition handle_unary_i32_op :: "operator \<Rightarrow> u32 \<Rightarrow> arith_result outcome" where
  "handle_unary_i32_op op w =
     (if op = OP_NEG then
        (if sint w = - (2 ^ 31) then Inl (Undefined ''signed overflow'') else Inr (Result (VI32 (- w))))
      else if op = OP_BIT_NOT then Inr (Result (VI32 (NOT w)))
      else Inr (Error ''Invalid unary operator for i32''))"

definition handle_unary_i64_op :: "operator \<Rightarrow> u64 \<Rightarrow> arith_result outcome" where
  "handle_unary_i64_op op w =
     (if op = OP_NEG then
        (if sint w = - (2 ^ 63) then Inl (Undefined ''signed overflow'') else Inr (Result (VI64 (- w))))
      else if op = OP_BIT_NOT then Inr (Result (VI64 (NOT w)))
      else Inr (Error ''Invalid unary operator for i64''))"

definition handle_unary_f32_op :: "operator \<Rightarrow> u32 \<Rightarrow> arith_result outcome" where
  "handle_unary_f32_op op w =
     (if op = OP_NEG then Inr (Result (VF32 (f32_neg w))) else Inr (Error ''Invalid unary operator for f32''))"

definition handle_unary_f64_op :: "operator \<Rightarrow> u64 \<Rightarrow> arith_result outcome" where
  "handle_unary_f64_op op w =
     (if op = OP_NEG then Inr (Result (VF64 (f64_neg w))) else Inr (Error ''Invalid unary operator for f64''))"

definition handle_unary_bool_op :: "operator \<Rightarrow> bool \<Rightarrow> arith_result outcome" where
  "handle_unary_bool_op op b =
     (if op = OP_NOT then Inr (Result (VBool (\<not> b))) else Inr (Error ''Invalid unary operator for bool''))"

definition handle_unary_none_op :: "operator \<Rightarrow> arith_result outcome" where
  "handle_unary_none_op op = Inr (Error ''Cannot apply unary operator to None'')"

text \<open>The switch at the end of \<open>read_unary\<close>.\<close>

definition unary_basic :: "operator \<Rightarrow> jvalue \<Rightarrow> arith_result outcome" where
  "unary_basic op v =
     (case v of
        VI32 w \<Rightarrow> handle_unary_i32_op op w
      | VI64 w \<Rightarrow> handle_unary_i64_op op w
      | VF32 w \<Rightarrow> handle_unary_f32_op op w
      | VF64 w \<Rightarrow> handle_unary_f64_op op w
      | VNone \<Rightarrow> handle_unary_none_op op
      | VBool b \<Rightarrow> handle_unary_bool_op op b
      | _ \<Rightarrow> Inr (Error ''Unsupported operand types''))"

subsection \<open>Integer arithmetic\<close>

text \<open>What the three checked operations are meant to give.\<close>

definition exact :: "operator \<Rightarrow> int \<Rightarrow> int \<Rightarrow> int" where
  "exact op a b = (if op = OP_ADD then a + b else if op = OP_SUB then a - b else a * b)"

lemma checked_i32_exact:
  "(in_i32 r \<and> (\<exists>w. checked_i32 r = Inr (Result (VI32 w)) \<and> sint w = r)) \<or>
   (\<not> in_i32 r \<and> checked_i32 r = Inr (Error ''i32 overflow in operation''))"
proof (cases "in_i32 r")
  case True
  with sint_of_int_i32 [OF True] show ?thesis by (auto simp: checked_i32_def in_i32_def)
next
  case False
  then show ?thesis by (auto simp: checked_i32_def in_i32_def)
qed

lemma sdiv_in_i32:
  assumes "in_i32 a" and "\<not> (a = - (2 ^ 31) \<and> b = -1)"
  shows "in_i32 (a sdiv b)"
proof -
  have r: "- \<bar>a\<bar> \<le> a sdiv b" "a sdiv b \<le> \<bar>a\<bar>" using sdiv_int_range [of a b] by auto
  show ?thesis
  proof (cases "a = - (2 ^ 31)")
    case True
    then have "a sdiv b \<noteq> - a" using int_sdiv_negated_is_minus1 [of a b] assms(2) by auto
    with True r show ?thesis by (simp add: in_i32_def)
  next
    case False
    with assms(1) r show ?thesis by (auto simp: in_i32_def)
  qed
qed

lemma smod_in_i32: "in_i32 b \<Longrightarrow> b \<noteq> 0 \<Longrightarrow> in_i32 (a smod b)"
  using smod_int_range [of b a] by (auto simp: in_i32_def)

lemma smod_sign: "(a :: int) smod b = 0 \<or> sgn (a smod b) = sgn a"
  by (cases "\<bar>a\<bar> mod \<bar>b\<bar> = 0") (auto simp: signed_modulo_int_def sgn_mult abs_mult mod_int_pos_iff
      intro!: sgn_1_pos [THEN iffD2] le_neq_trans split: if_splits)

subsection \<open>The properties of the operators\<close>

text \<open>
  C37: Addition, subtraction and multiplication of 32-bit integers give the exact result when it
  fits and the overflow error when it does not; they never wrap around and are never undefined.
\<close>

theorem i32_arith_exact:
  assumes "op \<in> {OP_ADD, OP_SUB, OP_MUL}"
  shows "(in_i32 (exact op (sint a) (sint b)) \<and>
      (\<exists>w. handle_binary_i32_op L op (VI32 a) (VI32 b) = Inr (Result (VI32 w)) \<and>
           sint w = exact op (sint a) (sint b))) \<or>
    (\<not> in_i32 (exact op (sint a) (sint b)) \<and>
      handle_binary_i32_op L op (VI32 a) (VI32 b) = Inr (Error ''i32 overflow in operation''))"
  using assms checked_i32_exact [of "exact op (sint a) (sint b)"]
  by (auto simp: handle_binary_i32_op_def exact_def)

lemma i32_arith_exact_witness:
  "\<forall>L. handle_binary_i32_op L OP_ADD (VI32 2147483647) (VI32 1) = Inr (Error ''i32 overflow in operation'')"
  using i32_arith_exact [of OP_ADD 2147483647 1] by (simp add: exact_def in_i32_def)

text \<open>
  Division of 32-bit integers by a divisor that is not zero truncates towards zero and goes
  with the remainder: quotient times divisor plus remainder is the dividend, and the remainder is
  smaller than the divisor and has the dividend's sign. The one quotient that does not fit is
  undefined; a zero divisor is a runtime error for both.
\<close>

theorem i32_division:
  assumes "\<not> (sint a = - (2 ^ 31) \<and> sint b = -1)"
  shows "if b = 0
    then handle_binary_i32_op L OP_DIV (VI32 a) (VI32 b) = Inr (Error ''Division by zero'') \<and>
         handle_binary_i32_op L OP_MOD (VI32 a) (VI32 b) = Inr (Error ''Modulo by zero'')
    else \<exists>q r. handle_binary_i32_op L OP_DIV (VI32 a) (VI32 b) = Inr (Result (VI32 q)) \<and>
         handle_binary_i32_op L OP_MOD (VI32 a) (VI32 b) = Inr (Result (VI32 r)) \<and>
         sint q * sint b + sint r = sint a \<and> \<bar>sint r\<bar> < \<bar>sint b\<bar> \<and>
         (sint r = 0 \<or> sgn (sint r) = sgn (sint a))"
proof (cases "b = 0")
  case True
  then show ?thesis by (simp add: handle_binary_i32_op_def)
next
  case False
  then have b: "sint b \<noteq> 0" by (metis signed_eq_0_iff)
  have q: "sint (word_of_int (sint a sdiv sint b) :: u32) = sint a sdiv sint b"
    by (intro sint_of_int_i32 sdiv_in_i32 assms) simp
  have r: "sint (word_of_int (sint a smod sint b) :: u32) = sint a smod sint b"
    by (intro sint_of_int_i32 smod_in_i32 b) simp
  have "\<bar>sint a smod sint b\<bar> < \<bar>sint b\<bar>" using smod_int_range [OF b, of "sint a"] by auto
  moreover have "handle_binary_i32_op L OP_DIV (VI32 a) (VI32 b) = Inr (Result (VI32 (word_of_int (sint a sdiv sint b))))"
    "handle_binary_i32_op L OP_MOD (VI32 a) (VI32 b) = Inr (Result (VI32 (word_of_int (sint a smod sint b))))"
    using b assms by (auto simp: handle_binary_i32_op_def)
  moreover note sdiv_mult_smod_eq [of "sint a" "sint b"] smod_sign [of "sint a" "sint b"]
  ultimately show ?thesis using False q r by metis
qed

lemma i32_division_witness:
  "\<forall>L. \<exists>q. handle_binary_i32_op L OP_DIV (VI32 (-7)) (VI32 2) = Inr (Result (VI32 q)) \<and> sint q = -3"
  using i32_division [of "-7" 2] by (auto simp: handle_binary_i32_op_def)

text \<open>The promotion of two \<open>f64\<close> operands rounds both towards zero: it goes through
  \<open>value_to_i32\<close>, so every operator on doubles sees only the integer parts.
\<close>

theorem f64_promotion_truncates:
  assumes "f64_trunc d = Some i" and "in_i32 i" and "f64_trunc e = Some j" and "in_i32 j"
  shows "coerce_types L vt fmt op (VF64 d) (VF64 e) = Inr (VF64 (f64_of_int i), VF64 (f64_of_int j)) \<and>
    f64_trunc (f64_of_int i) = Some i \<and> f64_trunc (f64_of_int j) = Some j"
proof -
  have "\<bar>i\<bar> < 2 ^ 53" "\<bar>j\<bar> < 2 ^ 53" using assms(2,4) by (auto simp: in_i32_def)
  then show ?thesis using assms
    by (simp add: coerce_types_def numeric_type_promotion_def both_def macro_to_f64_VF64 f64_trunc_of_int)
qed

text \<open>1.5 + 2.5 is 3.\<close>

lemma f64_promotion_truncates_witness:
  "\<forall>L vt fmt. andThen (coerce_types L vt fmt OP_ADD (VF64 0x3FF8000000000000) (VF64 0x4004000000000000))
     (\<lambda>(l, r). binary_basic L OP_ADD l r) = Inr (Result (VF64 0x4008000000000000))"
proof (intro allI)
  fix L vt fmt
  have t: "f64_trunc 0x3FF8000000000000 = Some 1" "f64_trunc 0x4004000000000000 = Some 2"
    by (simp_all add: fp_eval)
  have "f64_add (f64_of_int 1) (f64_of_int 2) = 0x4008000000000000" by (simp add: fp_eval)
  with f64_promotion_truncates [OF t(1) _ t(2), of L vt fmt OP_ADD]
  show "andThen (coerce_types L vt fmt OP_ADD (VF64 0x3FF8000000000000) (VF64 0x4004000000000000))
     (\<lambda>(l, r). binary_basic L OP_ADD l r) = Inr (Result (VF64 0x4008000000000000))"
    by (simp add: in_i32_def binary_basic_def handle_binary_f64_op_def)
qed

text \<open>
  Promoting an \<open>i32\<close> operand to \<open>i64\<close> extends it with whatever the upper half of the union
  holds: with zero bytes there, the promoted value of a negative number is larger by 2 to the 32.
\<close>

theorem i64_promotion_zero_extends:
  assumes "pad32 L = 0"
  shows "\<exists>w. coerce_types L vt fmt op (VI32 a) (VI64 b) = Inr (VI64 w, VI64 b) \<and>
    sint w = (if sint a < 0 then sint a + 2 ^ 32 else sint a)"
proof -
  have "coerce_types L vt fmt op (VI32 a) (VI64 b) = Inr (VI64 (word_cat (0 :: u32) a), VI64 b)"
    using assms by (simp add: coerce_types_def numeric_type_promotion_def both_def)
  moreover have "sint (word_cat (0 :: u32) a :: u64) = (if sint a < 0 then sint a + 2 ^ 32 else sint a)"
    by (simp only: sint_word_cat_0) (rule uint_sint_i32)
  ultimately show ?thesis by blast
qed

lemma i64_promotion_zero_extends_witness:
  "\<forall>vt fmt. \<exists>w. coerce_types \<lparr>pad32 = 0, pad56 = 0, ptr_bits = (\<lambda>_. 0)\<rparr> vt fmt OP_ADD (VI32 (-1)) (VI64 0)
     = Inr (VI64 w, VI64 0) \<and> sint w = 4294967295"
  using i64_promotion_zero_extends [of "\<lparr>pad32 = 0, pad56 = 0, ptr_bits = (\<lambda>_. 0)\<rparr>" _ _ OP_ADD "-1" 0]
  by simp

text \<open>
  The handler is chosen by the left operand alone and reads the right one as the same type,
  whatever its tag says: for an \<open>i32\<close> on the left, equality compares it with the low bytes of the
  right operand, so that \<open>0 == None\<close> holds.
\<close>

theorem right_operand_unchecked:
  "binary_basic L OP_EQ (VI32 a) rhs = Inr (Result (VBool (a = macro_as_i32 L rhs))) \<and>
   binary_basic L OP_EQ (VI32 0) VNone = Inr (Result (VBool True)) \<and>
   binary_basic L OP_ADD (VI32 a) VNone = Inr (Result (VI32 a))"
proof -
  have "sint a = sint (macro_as_i32 L rhs) \<longleftrightarrow> a = macro_as_i32 L rhs" by (auto intro: signed_word_eqI)
  moreover have "checked_i32 (sint a) = Inr (Result (VI32 a))"
    using in_i32_sint [of a] by (simp add: checked_i32_def in_i32_def)
  ultimately show ?thesis by (simp add: binary_basic_def handle_binary_i32_op_def)
qed

end
