(* ===== verification/Joker_Heap.thy ===== *)
theory Joker_Heap
  imports Joker_Chunk Joker_Intern Joker_Arith
begin

text \<open>
  The objects (include/object.h, src/object.c and the files of each kind: fn, closure, upvalue,
  class, instance, bound_method, struct_, enum, enum_instance, pair, native) and the heap they live
  in: an address leads to an object, and allocation takes the next address. Strings are not in this
  heap: a pointer to a string is its content (theory Joker_Intern), and the tables of members,
  fields and methods are keyed by contents. Objects are not released here; the collector is a
  theory of its own.

  A read through a pointer of an object of another kind is \<open>Undefined\<close>.
\<close>

subsection \<open>Objects\<close>

datatype object_type =
  OBJ_STRING | OBJ_FN | OBJ_NATIVE | OBJ_CLOSURE | OBJ_UPVALUE | OBJ_CLASS | OBJ_INSTANCE
  | OBJ_BOUND_METHOD | OBJ_STRUCT | OBJ_PAIR | OBJ_VEC | OBJ_ENUM | OBJ_ENUM_INSTANCE | OBJ_TYPE

text \<open>\<open>name\<close> is null for the script.\<close>

record fn_obj =
  fn_arity :: nat
  fn_chunk :: chunk
  fn_name :: "string option"
  fn_upvalue_count :: nat

text \<open>The functions of src/type/src/vec.c, and those of src/native, which are external.\<close>

datatype native_fn =
  native_vec_get | native_vec_set | native_vec_push | native_vec_pop | native_vec_insert
  | native_vec_remove | native_vec_extend | native_vec_clear | native_vec_reverse
  | native_vec_length | native_vec_first | native_vec_last | native_extern string

record native_obj =
  nt_fn :: native_fn
  nt_is_builtin_method :: bool

text \<open>\<open>upvalue_ptrs\<close> has \<open>upvalue_count\<close> entries, null until they are filled.\<close>

record closure_obj =
  cl_fn :: nat
  cl_upvalue_ptrs :: "nat option list"

text \<open>\<open>location\<close> points to a slot of the stack or to the upvalue's own \<open>closed\<close>.\<close>

datatype location = Slot nat | Own

record upvalue_obj =
  uv_location :: location
  uv_closed :: jvalue
  uv_next :: "nat option"

record class_obj =
  cls_name :: string
  cls_methods :: "string hashmap"
  cls_vtable :: vtable

record instance_obj =
  in_klass :: nat
  in_fields :: "string hashmap"
  in_vtable :: vtable

record bound_method_obj =
  bm_receiver :: jvalue
  bm_method :: nat

record struct_obj =
  st_name :: string
  st_fields :: "string hashmap"
  st_names :: nat
  st_count :: nat

record pair_obj =
  pr_first :: jvalue
  pr_second :: jvalue

record enum_obj =
  en_name :: string
  en_members :: "string hashmap"

text \<open>The payload vector is part of the object itself, null when there is none.\<close>

record enum_instance_obj =
  ei_enum_type :: nat
  ei_index :: u32
  ei_name :: string
  ei_values :: "vec option"

datatype obj =
  OFn fn_obj | ONative native_obj | OClosure closure_obj | OUpvalue upvalue_obj | OClass class_obj
  | OInstance instance_obj | OBoundMethod bound_method_obj | OStruct struct_obj | OPair pair_obj
  | OVec "vec" | OEnum enum_obj | OEnumInstance enum_instance_obj

fun type_of_obj :: "obj \<Rightarrow> object_type" where
  "type_of_obj (OFn _) = OBJ_FN"
| "type_of_obj (ONative _) = OBJ_NATIVE"
| "type_of_obj (OClosure _) = OBJ_CLOSURE"
| "type_of_obj (OUpvalue _) = OBJ_UPVALUE"
| "type_of_obj (OClass _) = OBJ_CLASS"
| "type_of_obj (OInstance _) = OBJ_INSTANCE"
| "type_of_obj (OBoundMethod _) = OBJ_BOUND_METHOD"
| "type_of_obj (OStruct _) = OBJ_STRUCT"
| "type_of_obj (OPair _) = OBJ_PAIR"
| "type_of_obj (OVec _) = OBJ_VEC"
| "type_of_obj (OEnum _) = OBJ_ENUM"
| "type_of_obj (OEnumInstance _) = OBJ_ENUM_INSTANCE"

subsection \<open>The heap\<close>

record heap =
  h_objs :: "nat \<Rightarrow> obj option"
  h_next :: nat

definition empty_heap :: heap where
  "empty_heap = \<lparr>h_objs = (\<lambda>_. None), h_next = 0\<rparr>"

definition allocate_object :: "obj \<Rightarrow> heap \<Rightarrow> nat \<times> heap" where
  "allocate_object obj h = (h_next h, h\<lparr>h_objs := (h_objs h)(h_next h \<mapsto> obj), h_next := h_next h + 1\<rparr>)"

definition write_obj :: "nat \<Rightarrow> obj \<Rightarrow> heap \<Rightarrow> heap" where
  "write_obj a obj h = h\<lparr>h_objs := (h_objs h)(a \<mapsto> obj)\<rparr>"

definition obj_type :: "heap \<Rightarrow> objref \<Rightarrow> object_type option" where
  "obj_type h r = (case r of StrRef _ \<Rightarrow> Some OBJ_STRING | ObjRef a \<Rightarrow> map_option type_of_obj (h_objs h a))"

definition is_obj_type :: "heap \<Rightarrow> jvalue \<Rightarrow> object_type \<Rightarrow> bool" where
  "is_obj_type h v t = (case v of VObject r \<Rightarrow> obj_type h r = Some t | _ \<Rightarrow> False)"

definition obj_vtable :: "heap \<Rightarrow> objref \<Rightarrow> vtable" where
  "obj_vtable h r =
     (case r of
        StrRef _ \<Rightarrow> string_vtable STRING_C
      | ObjRef a \<Rightarrow>
          (case h_objs h a of
             Some (OClass c) \<Rightarrow> cls_vtable c
           | Some (OInstance i) \<Rightarrow> in_vtable i
           | Some (OVec _) \<Rightarrow> vec_vtable VEC_C
           | _ \<Rightarrow> default_object_vtable OBJECT_C))"

subsection \<open>Pointer casts\<close>

definition as_string :: "jvalue \<Rightarrow> string outcome" where
  "as_string v = (case v of VObject (StrRef s) \<Rightarrow> Inr s | _ \<Rightarrow> Inl (Undefined ''not a String''))"

definition as_addr :: "jvalue \<Rightarrow> nat outcome" where
  "as_addr v = (case v of VObject (ObjRef a) \<Rightarrow> Inr a | _ \<Rightarrow> Inl (Undefined ''not such an object''))"

definition get_fn :: "heap \<Rightarrow> nat \<Rightarrow> fn_obj outcome" where
  "get_fn h a = (case h_objs h a of Some (OFn x) \<Rightarrow> Inr x | _ \<Rightarrow> Inl (Undefined ''not a Fn''))"

definition get_closure :: "heap \<Rightarrow> nat \<Rightarrow> closure_obj outcome" where
  "get_closure h a = (case h_objs h a of Some (OClosure x) \<Rightarrow> Inr x | _ \<Rightarrow> Inl (Undefined ''not a Closure''))"

definition get_upvalue_obj :: "heap \<Rightarrow> nat \<Rightarrow> upvalue_obj outcome" where
  "get_upvalue_obj h a = (case h_objs h a of Some (OUpvalue x) \<Rightarrow> Inr x | _ \<Rightarrow> Inl (Undefined ''not an Upvalue''))"

definition get_class :: "heap \<Rightarrow> nat \<Rightarrow> class_obj outcome" where
  "get_class h a = (case h_objs h a of Some (OClass x) \<Rightarrow> Inr x | _ \<Rightarrow> Inl (Undefined ''not a Class''))"

definition get_instance :: "heap \<Rightarrow> nat \<Rightarrow> instance_obj outcome" where
  "get_instance h a = (case h_objs h a of Some (OInstance x) \<Rightarrow> Inr x | _ \<Rightarrow> Inl (Undefined ''not an Instance''))"

definition get_struct :: "heap \<Rightarrow> nat \<Rightarrow> struct_obj outcome" where
  "get_struct h a = (case h_objs h a of Some (OStruct x) \<Rightarrow> Inr x | _ \<Rightarrow> Inl (Undefined ''not a Struct''))"

definition get_pair :: "heap \<Rightarrow> nat \<Rightarrow> pair_obj outcome" where
  "get_pair h a = (case h_objs h a of Some (OPair x) \<Rightarrow> Inr x | _ \<Rightarrow> Inl (Undefined ''not a Pair''))"

definition get_vec :: "heap \<Rightarrow> nat \<Rightarrow> vec outcome" where
  "get_vec h a = (case h_objs h a of Some (OVec x) \<Rightarrow> Inr x | _ \<Rightarrow> Inl (Undefined ''not a Vec''))"

definition get_enum :: "heap \<Rightarrow> nat \<Rightarrow> enum_obj outcome" where
  "get_enum h a = (case h_objs h a of Some (OEnum x) \<Rightarrow> Inr x | _ \<Rightarrow> Inl (Undefined ''not an Enum''))"

definition get_enum_instance :: "heap \<Rightarrow> nat \<Rightarrow> enum_instance_obj outcome" where
  "get_enum_instance h a =
     (case h_objs h a of Some (OEnumInstance x) \<Rightarrow> Inr x | _ \<Rightarrow> Inl (Undefined ''not an EnumInstance''))"

subsection \<open>Constructors\<close>

definition empty_fn :: fn_obj where
  "empty_fn = \<lparr>fn_arity = 0, fn_chunk = init_chunk, fn_name = None, fn_upvalue_count = 0\<rparr>"

definition new_fn :: "heap \<Rightarrow> nat \<times> heap" where
  "new_fn h = allocate_object (OFn empty_fn) h"

definition new_closure :: "nat \<Rightarrow> heap \<Rightarrow> (nat \<times> heap) outcome" where
  "new_closure fn h =
     andThen (get_fn h fn) (\<lambda>f. Inr (allocate_object
       (OClosure \<lparr>cl_fn = fn, cl_upvalue_ptrs = replicate (fn_upvalue_count f) None\<rparr>) h))"

definition new_upvalue :: "nat \<Rightarrow> heap \<Rightarrow> nat \<times> heap" where
  "new_upvalue slot h =
     allocate_object (OUpvalue \<lparr>uv_location = Slot slot, uv_closed = VNull, uv_next = None\<rparr>) h"

definition new_class :: "string \<Rightarrow> heap \<Rightarrow> nat \<times> heap" where
  "new_class name h = allocate_object
     (OClass \<lparr>cls_name = name, cls_methods = init_hashmap, cls_vtable = default_object_vtable OBJECT_C\<rparr>) h"

definition new_instance :: "nat \<Rightarrow> heap \<Rightarrow> (nat \<times> heap) outcome" where
  "new_instance klass h =
     andThen (get_class h klass) (\<lambda>c. Inr (allocate_object
       (OInstance \<lparr>in_klass = klass, in_fields = init_hashmap, in_vtable = cls_vtable c\<rparr>) h))"

definition new_bound_method :: "jvalue \<Rightarrow> nat \<Rightarrow> heap \<Rightarrow> nat \<times> heap" where
  "new_bound_method receiver method h =
     allocate_object (OBoundMethod \<lparr>bm_receiver = receiver, bm_method = method\<rparr>) h"

definition new_struct :: "string \<Rightarrow> heap \<Rightarrow> nat \<times> heap" where
  "new_struct name h =
     (let (names, h) = allocate_object (OVec new_vec) h
      in allocate_object (OStruct \<lparr>st_name = name, st_fields = init_hashmap, st_names = names, st_count = 0\<rparr>) h)"

definition new_pair :: "jvalue \<Rightarrow> jvalue \<Rightarrow> heap \<Rightarrow> nat \<times> heap" where
  "new_pair x y h = allocate_object (OPair \<lparr>pr_first = x, pr_second = y\<rparr>) h"

definition new_enum :: "string \<Rightarrow> heap \<Rightarrow> nat \<times> heap" where
  "new_enum name h = allocate_object (OEnum \<lparr>en_name = name, en_members = init_hashmap\<rparr>) h"

text \<open>The payload starts full, of elements not stored yet.\<close>

definition new_enum_instance :: "nat \<Rightarrow> string \<Rightarrow> u32 \<Rightarrow> nat \<Rightarrow> heap \<Rightarrow> nat \<times> heap" where
  "new_enum_instance enum_type name index capacity h = allocate_object
     (OEnumInstance \<lparr>ei_enum_type = enum_type, ei_index = index, ei_name = name,
        ei_values = (if 0 < capacity then Some \<lparr>v_start = buf_alloc capacity, v_finish = capacity\<rparr> else None)\<rparr>) h"

definition new_native :: "native_fn \<Rightarrow> bool \<Rightarrow> heap \<Rightarrow> nat \<times> heap" where
  "new_native f builtin h = allocate_object (ONative \<lparr>nt_fn = f, nt_is_builtin_method = builtin\<rparr>) h"

subsection \<open>Equality\<close>

text \<open>
  \<open>eq\<close> is the equality of values one level down. \<open>values_equal\<close> follows pointers without keeping
  track of where it has been; \<open>fuel\<close> bounds the depth.
\<close>

definition object_equal ::
    "(jvalue \<Rightarrow> jvalue \<Rightarrow> bool outcome) \<Rightarrow> heap \<Rightarrow> objref \<Rightarrow> objref \<Rightarrow> bool outcome" where
  "object_equal eq h left right =
     (case (left, right) of
        (StrRef s, StrRef t) \<Rightarrow> Inr (s = t)
      | (ObjRef a, ObjRef b) \<Rightarrow>
          (case (h_objs h a, h_objs h b) of
             (Some (OFn x), Some (OFn y)) \<Rightarrow> Inr (fn_name x = fn_name y)
           | (Some (ONative x), Some (ONative y)) \<Rightarrow> Inr (nt_fn x = nt_fn y)
           | (Some (OClosure x), Some (OClosure y)) \<Rightarrow>
               andThen (get_fn h (cl_fn x)) (\<lambda>f. andThen (get_fn h (cl_fn y)) (\<lambda>g.
                 Inr (fn_name f = fn_name g)))
           | (Some (OUpvalue x), Some (OUpvalue y)) \<Rightarrow> eq (uv_closed x) (uv_closed y)
           | (Some (OClass x), Some (OClass y)) \<Rightarrow> Inr (cls_name x = cls_name y)
           | (Some (OInstance x), Some (OInstance y)) \<Rightarrow>
               andThen (get_class h (in_klass x)) (\<lambda>c. andThen (get_class h (in_klass y)) (\<lambda>d.
                 Inr (cls_name c = cls_name d)))
           | (Some (OBoundMethod x), Some (OBoundMethod y)) \<Rightarrow>
               (if bm_method x = bm_method y then eq (bm_receiver x) (bm_receiver y) else Inr False)
           | (Some (OStruct x), Some (OStruct y)) \<Rightarrow> Inr (st_name x = st_name y)
           | (Some (OPair x), Some (OPair y)) \<Rightarrow>
               andThen (eq (pr_first x) (pr_first y)) (\<lambda>e.
                 if e then eq (pr_second x) (pr_second y) else Inr False)
           | (Some (OVec x), Some (OVec y)) \<Rightarrow> if a = b then Inr True else vec_equal eq x y
           | (Some (OEnum x), Some (OEnum y)) \<Rightarrow> Inr (a = b)
           | (Some (OEnumInstance x), Some (OEnumInstance y)) \<Rightarrow>
               Inr (ei_enum_type x = ei_enum_type y \<and> ei_index x = ei_index y)
           | (Some _, Some _) \<Rightarrow> Inr False
           | _ \<Rightarrow> Inl (Undefined ''dangling pointer''))
      | _ \<Rightarrow> Inr False)"

primrec values_equal :: "nat \<Rightarrow> heap \<Rightarrow> jvalue \<Rightarrow> jvalue \<Rightarrow> bool outcome" where
  "values_equal 0 h left right = Inl Diverge"
| "values_equal (Suc fuel) h left right =
     (case (left, right) of
        (VNull, VNull) \<Rightarrow> Inr True
      | (VNone, VNone) \<Rightarrow> Inr True
      | (VI32 a, VI32 b) \<Rightarrow> Inr (a = b)
      | (VI64 a, VI64 b) \<Rightarrow> Inr (a = b)
      | (VF32 a, VF32 b) \<Rightarrow> Inr (f32_compare a b = Some 0)
      | (VF64 a, VF64 b) \<Rightarrow> Inr (f64_compare a b = Some 0)
      | (VBool a, VBool b) \<Rightarrow> Inr (a = b)
      | (VObject a, VObject b) \<Rightarrow> object_equal (values_equal fuel h) h a b
      | _ \<Rightarrow> Inr False)"

subsection \<open>Allocation\<close>

lemma allocate_object_simps [simp]:
  "fst (allocate_object obj h) = h_next h"
  "h_objs (snd (allocate_object obj h)) = (h_objs h)(h_next h \<mapsto> obj)"
  "h_next (snd (allocate_object obj h)) = Suc (h_next h)"
  by (simp_all add: allocate_object_def)

lemma write_obj_simps [simp]:
  "h_objs (write_obj a obj h) = (h_objs h)(a \<mapsto> obj)"
  "h_next (write_obj a obj h) = h_next h"
  by (simp_all add: write_obj_def)

subsection \<open>When equality comes back\<close>

text \<open>The values \<open>values_equal\<close> goes on to from an object.\<close>

fun child_values :: "obj \<Rightarrow> jvalue list" where
  "child_values (OUpvalue u) = [uv_closed u]"
| "child_values (OBoundMethod b) = [bm_receiver b]"
| "child_values (OPair p) = [pr_first p, pr_second p]"
| "child_values (OVec v) = vec_list v"
| "child_values _ = []"

fun obj_sound :: "heap \<Rightarrow> obj \<Rightarrow> bool" where
  "obj_sound h (OClosure c) = (case h_objs h (cl_fn c) of Some (OFn _) \<Rightarrow> True | _ \<Rightarrow> False)"
| "obj_sound h (OInstance i) = (case h_objs h (in_klass i) of Some (OClass _) \<Rightarrow> True | _ \<Rightarrow> False)"
| "obj_sound h (OVec v) = vec_wf v"
| "obj_sound h _ = True"

fun below :: "heap \<Rightarrow> (nat \<Rightarrow> nat) \<Rightarrow> nat \<Rightarrow> jvalue \<Rightarrow> bool" where
  "below h rk n (VObject (ObjRef a)) = (h_objs h a \<noteq> None \<and> rk a < n)"
| "below h rk n _ = True"

text \<open>Every object is sound and the values it leads to are of smaller rank: no cycles.\<close>

definition ranked :: "heap \<Rightarrow> (nat \<Rightarrow> nat) \<Rightarrow> bool" where
  "ranked h rk \<longleftrightarrow> (\<forall>a obj. h_objs h a = Some obj \<longrightarrow>
     obj_sound h obj \<and> (\<forall>v\<in>set (child_values obj). below h rk (rk a) v))"

lemma below_mono: "below h rk m v \<Longrightarrow> m \<le> n \<Longrightarrow> below h rk n v"
  by (cases "(h, rk, m, v)" rule: below.cases) auto

lemma returns_andThen: "returns m \<Longrightarrow> (\<And>x. m = Inr x \<Longrightarrow> returns (f x)) \<Longrightarrow> returns (andThen m f)"
  by (auto simp: returns_iff)

lemma equal_loop_returns:
  assumes "holds l xs" and "holds r ys" and "i + n \<le> length xs" and "i + n \<le> length ys"
    and "\<forall>x\<in>set xs. \<forall>y\<in>set ys. returns (eq x y)"
  shows "returns (equal_loop eq l r i n)"
  using assms(3,4)
proof (induction n arbitrary: i)
  case 0
  then show ?case by simp
next
  case (Suc n)
  then have i: "i < length xs" "i < length ys" by auto
  have "returns (eq (xs ! i) (ys ! i))" using assms(5) i by simp
  with Suc.IH [of "i + 1"] Suc.prems show ?case
    by (auto simp: holds_read [OF assms(1) i(1)] holds_read [OF assms(2) i(2)] returns_iff)
qed

lemma vec_equal_returns:
  assumes "vec_wf v" and "vec_wf w" and "\<forall>x\<in>set (vec_list v). \<forall>y\<in>set (vec_list w). returns (eq x y)"
  shows "returns (vec_equal eq v w)"
  using equal_loop_returns [OF vec_wfD(1) [OF assms(1)] vec_wfD(1) [OF assms(2)] _ _ assms(3), of 0 "vec_len v"]
    vec_wfD(3) [OF assms(1)] vec_wfD(3) [OF assms(2)]
  by (auto simp: vec_equal_def)

lemma get_fn_sound: "obj_sound h (OClosure c) \<Longrightarrow> \<exists>f. get_fn h (cl_fn c) = Inr f"
  by (auto simp: get_fn_def split: option.splits obj.splits)

lemma get_class_sound: "obj_sound h (OInstance i) \<Longrightarrow> \<exists>c. get_class h (in_klass i) = Inr c"
  by (auto simp: get_class_def split: option.splits obj.splits)

lemma object_equal_returns:
  assumes "ranked h rk" and "h_objs h a = Some x" and "h_objs h b = Some y"
    and eq: "\<And>u v. below h rk (rk a) u \<Longrightarrow> below h rk (rk b) v \<Longrightarrow> returns (eq u v)"
  shows "returns (object_equal eq h (ObjRef a) (ObjRef b))"
proof -
  have x: "obj_sound h x" "\<forall>v\<in>set (child_values x). below h rk (rk a) v"
    and y: "obj_sound h y" "\<forall>v\<in>set (child_values y). below h rk (rk b) v"
    using assms(1-3) by (auto simp: ranked_def)
  have kids: "returns (eq u v)" if "u \<in> set (child_values x)" "v \<in> set (child_values y)" for u v
    using that x(2) y(2) eq by blast
  show ?thesis
  proof (cases "type_of_obj x = type_of_obj y")
    case False
    then show ?thesis by (cases x; cases y) (simp_all add: object_equal_def assms(2,3))
  next
    case True
    then show ?thesis
    proof (cases x)
      case (OVec v)
      with True obtain w where "y = OVec w" by (cases y) auto
      with OVec x(1) y(1) kids show ?thesis
        by (simp add: object_equal_def assms(2,3) vec_equal_returns)
    next
      case (OClosure c)
      with True obtain d where "y = OClosure d" by (cases y) auto
      with OClosure x(1) y(1) get_fn_sound [of h c] get_fn_sound [of h d] show ?thesis
        by (auto simp: object_equal_def assms(2,3))
    next
      case (OInstance c)
      with True obtain d where "y = OInstance d" by (cases y) auto
      with OInstance x(1) y(1) get_class_sound [of h c] get_class_sound [of h d] show ?thesis
        by (auto simp: object_equal_def assms(2,3))
    next
      case (OPair p)
      with True obtain q where "y = OPair q" by (cases y) auto
      with OPair kids show ?thesis
        by (auto simp: object_equal_def assms(2,3) intro!: returns_andThen)
    qed (use True kids in \<open>(cases y; simp add: object_equal_def assms(2,3))+\<close>)
  qed
qed

lemma values_equal_returns:
  "ranked h rk \<Longrightarrow> below h rk n left \<Longrightarrow> below h rk n right \<Longrightarrow> returns (values_equal (Suc n) h left right)"
proof (induction n arbitrary: left right)
  case 0
  show ?case
  proof (cases "\<exists>r s. left = VObject r \<and> right = VObject s")
    case True
    then obtain r s where v: "left = VObject r" "right = VObject s" by blast
    with 0 show ?thesis by (cases r; cases s) (simp_all add: object_equal_def)
  next
    case False
    then show ?thesis by (cases left; cases right) simp_all
  qed
next
  case (Suc n)
  show ?case
  proof (cases "\<exists>a b. left = VObject (ObjRef a) \<and> right = VObject (ObjRef b)")
    case True
    then obtain a b where v: "left = VObject (ObjRef a)" "right = VObject (ObjRef b)" by blast
    with Suc.prems obtain x y where xy: "h_objs h a = Some x" "h_objs h b = Some y" "rk a \<le> n" "rk b \<le> n"
      by auto
    have "returns (values_equal (Suc n) h u w)" if "below h rk (rk a) u" "below h rk (rk b) w" for u w
      using that xy(3,4) below_mono Suc.IH [OF Suc.prems(1)] by blast
    from object_equal_returns [OF Suc.prems(1) xy(1,2) this] v show ?thesis
      by (simp del: values_equal.simps add: values_equal.simps(2) [of "Suc n"])
  next
    case False
    then show ?thesis
      by (cases left; cases right) (auto simp: object_equal_def split: objref.splits)
  qed
qed

text \<open>
  C35: Comparing values comes back, without a bad access, whenever the objects they lead to are
  well formed and do not form a cycle: fuel of one more than the rank is enough.
\<close>

theorem values_equal_terminates:
  assumes "ranked h rk" and "below h rk n left" and "below h rk n right" and "n < fuel"
  shows "returns (values_equal fuel h left right)"
proof -
  obtain m where "fuel = Suc m" "n \<le> m" using assms(4) by (cases fuel) auto
  with values_equal_returns [OF assms(1)] assms(2,3) below_mono show ?thesis by blast
qed

lemma values_equal_terminates_witness:
  "returns (values_equal 3
     \<lparr>h_objs = [0 \<mapsto> OPair \<lparr>pr_first = VI32 1, pr_second = VObject (StrRef ''a'')\<rparr>,
                1 \<mapsto> OPair \<lparr>pr_first = VObject (ObjRef 0), pr_second = VNone\<rparr>], h_next = 2\<rparr>
     (VObject (ObjRef 1)) (VObject (ObjRef 1)))"
  by (rule values_equal_terminates [where rk = id and n = 2]) (auto simp: ranked_def)

text \<open>
  Two instances are equal as soon as their classes have the same name, whatever their fields
  hold.
\<close>

theorem instances_equal_by_class:
  assumes "h_objs h a = Some (OInstance x)" and "h_objs h b = Some (OInstance y)"
    and "h_objs h (in_klass x) = Some (OClass c)" and "h_objs h (in_klass y) = Some (OClass d)"
  shows "values_equal (Suc n) h (VObject (ObjRef a)) (VObject (ObjRef b)) = Inr (cls_name c = cls_name d)"
  using assms by (simp add: object_equal_def get_class_def)

lemma instances_equal_by_class_witness:
  "let c = \<lparr>cls_name = ''P'', cls_methods = init_hashmap, cls_vtable = vec_vtable VM_C\<rparr>;
       x = \<lparr>in_klass = 0, in_fields = init_hashmap, in_vtable = vec_vtable VM_C\<rparr>;
       y = \<lparr>in_klass = 0, in_fields = \<lparr>hm_count = 1, hm_capacity = 1,
              hm_entries = [\<lparr>e_key = Some ''x'', e_value = VNone\<rparr>]\<rparr>, in_vtable = vec_vtable VM_C\<rparr>;
       h = \<lparr>h_objs = [0 \<mapsto> OClass c, 1 \<mapsto> OInstance x, 2 \<mapsto> OInstance y], h_next = 3\<rparr>
   in values_equal 1 h (VObject (ObjRef 1)) (VObject (ObjRef 2)) = Inr True"
proof -
  define c where "c = \<lparr>cls_name = ''P'', cls_methods = init_hashmap, cls_vtable = vec_vtable VM_C\<rparr>"
  define x where "x = \<lparr>in_klass = 0, in_fields = init_hashmap, in_vtable = vec_vtable VM_C\<rparr>"
  define y where "y = \<lparr>in_klass = 0, in_fields = \<lparr>hm_count = 1, hm_capacity = 1,
              hm_entries = [\<lparr>e_key = Some ''x'', e_value = VNone\<rparr>]\<rparr>, in_vtable = vec_vtable VM_C\<rparr>"
  define h where "h = \<lparr>h_objs = [0 \<mapsto> OClass c, 1 \<mapsto> OInstance x, 2 \<mapsto> OInstance y], h_next = 3\<rparr>"
  have "values_equal (Suc 0) h (VObject (ObjRef 1)) (VObject (ObjRef 2)) = Inr True"
    by (subst instances_equal_by_class [where x = x and y = y and c = c and d = c])
      (simp_all add: h_def x_def y_def del: values_equal.simps)
  then show ?thesis by (simp only: Let_def c_def x_def y_def h_def One_nat_def)
qed

end
