(* ===== verification/Joker_Machine.thy ===== *)
theory Joker_Machine
  imports Joker_Heap
begin

text \<open>
  The state of the virtual machine (include/vm.h), its stack, frames and error reporting (the first
  part of src/vm.c) and the upvalues (src/upvalue.c).

  \<open>frames\<close> and \<open>stack\<close> are arrays inside the machine, so a slot above \<open>stack_top\<close> keeps what it held
  and can be read again through a pointer. Pointers into them are indices. A runtime error prints
  its message and a trace, and empties stack and frames; the message is kept in \<open>vm_errors\<close>, the
  values printed in \<open>vm_printed\<close>.

  The record \<open>env\<close> holds what the machine takes from its surroundings: the layout of unions, the
  C library's rendering of floats, the natives that print or read the clock, and whether the
  address of a heap object compares above the addresses of the stack.
\<close>

subsection \<open>State\<close>

datatype interpret_result =
  interpret_ok | interpret_passed | interpret_compile_error | interpret_runtime_error

record env =
  e_layout :: union_layout
  e_fmt :: "jvalue \<Rightarrow> string"
  e_extern :: "string \<Rightarrow> jvalue list \<Rightarrow> jvalue outcome"
  e_heap_above_stack :: bool

record call_frame =
  cf_slots :: nat
  cf_closure :: nat
  cf_ip :: nat

record vm =
  vm_frames :: "call_frame buffer"
  vm_frame_count :: nat
  vm_stack :: "jvalue buffer"
  vm_stack_top :: nat
  vm_globals :: "string hashmap"
  vm_types :: "string hashmap"
  vm_open_upv_ptr :: "nat option"
  vm_heap :: heap
  vm_printed :: "jvalue list"
  vm_errors :: "string list"

type_synonym 'a vm_action = "(vm, 'a) action"

definition frames_stack_max :: nat where
  "frames_stack_max = 64"

definition constant_stack_max :: nat where
  "constant_stack_max = frames_stack_max * 256"

definition reset_stack :: "vm \<Rightarrow> vm" where
  "reset_stack vm = vm\<lparr>vm_stack_top := 0, vm_frame_count := 0, vm_open_upv_ptr := None\<rparr>"

text \<open>The machine before types and natives are registered.\<close>

definition fresh_vm :: vm where
  "fresh_vm = \<lparr>vm_frames = buf_alloc frames_stack_max, vm_frame_count = 0,
     vm_stack = buf_alloc constant_stack_max, vm_stack_top = 0,
     vm_globals = init_hashmap, vm_types = init_hashmap, vm_open_upv_ptr = None,
     vm_heap = empty_heap, vm_printed = [], vm_errors = []\<rparr>"

subsection \<open>Frames and code\<close>

definition frame_at :: "nat \<Rightarrow> call_frame vm_action" where
  "frame_at fp = act_with (\<lambda>vm. buf_read (vm_frames vm) fp)"

definition set_frame :: "nat \<Rightarrow> call_frame \<Rightarrow> unit vm_action" where
  "set_frame fp f =
     act_bind (act_with (\<lambda>vm. buf_write (vm_frames vm) fp f)) (\<lambda>b. act_update (\<lambda>vm. vm\<lparr>vm_frames := b\<rparr>))"

definition set_ip :: "nat \<Rightarrow> nat \<Rightarrow> unit vm_action" where
  "set_ip fp ip = act_bind (frame_at fp) (\<lambda>f. set_frame fp (f\<lparr>cf_ip := ip\<rparr>))"

definition frame_fn :: "call_frame \<Rightarrow> fn_obj vm_action" where
  "frame_fn f = act_with (\<lambda>vm.
     andThen (get_closure (vm_heap vm) (cf_closure f)) (\<lambda>c. get_fn (vm_heap vm) (cl_fn c)))"

text \<open>\<open>get_rle_line(&chunk.lines, current_code_index(frame))\<close>, with the check of \<open>convert_check\<close>.\<close>

definition frame_line :: "nat \<Rightarrow> int vm_action" where
  "frame_line fp =
     act_bind (frame_at fp) (\<lambda>f. act_bind (frame_fn f) (\<lambda>fn.
       if cf_ip f = 0 then act_halt (Panic ''Negative stack index'')
       else act_lift (get_rle_line (ck_lines (fn_chunk fn)) (int (cf_ip f) - 1))))"

text \<open>The trace of \<open>runtime_error\<close>: one line for each frame, the innermost first.\<close>

fun trace_frames :: "nat \<Rightarrow> unit vm_action" where
  "trace_frames 0 = act_return ()"
| "trace_frames (Suc i) = act_bind (frame_line i) (\<lambda>_. trace_frames i)"

definition runtime_error :: "string \<Rightarrow> unit vm_action" where
  "runtime_error msg =
     act_then (act_update (\<lambda>vm. vm\<lparr>vm_errors := vm_errors vm @ [msg]\<rparr>))
     (act_then (act_bind (act_get vm_frame_count) trace_frames)
       (act_update reset_stack))"

definition runtime_error_at :: "nat \<Rightarrow> string \<Rightarrow> unit vm_action" where
  "runtime_error_at fp msg = act_bind (frame_line fp) (\<lambda>_. runtime_error msg)"

definition fail_with :: "string \<Rightarrow> interpret_result vm_action" where
  "fail_with msg = act_then (runtime_error msg) (act_return interpret_runtime_error)"

definition fail_at :: "nat \<Rightarrow> string \<Rightarrow> interpret_result vm_action" where
  "fail_at fp msg = act_then (runtime_error_at fp msg) (act_return interpret_runtime_error)"

definition ok :: "interpret_result vm_action" where
  "ok = act_return interpret_ok"

subsection \<open>The stack\<close>

definition push :: "jvalue \<Rightarrow> unit vm_action" where
  "push v = act_bind (act_get vm_stack_top) (\<lambda>top.
     if constant_stack_max \<le> top then act_halt (Panic ''VirtualMachine::push'')
     else act_bind (act_with (\<lambda>vm. buf_write (vm_stack vm) top v)) (\<lambda>b.
       act_update (\<lambda>vm. vm\<lparr>vm_stack := b, vm_stack_top := top + 1\<rparr>)))"

definition pop :: "jvalue vm_action" where
  "pop = act_bind (act_get vm_stack_top) (\<lambda>top.
     if top = 0 then act_halt (Panic ''VirtualMachine::pop'')
     else act_then (act_update (\<lambda>vm. vm\<lparr>vm_stack_top := top - 1\<rparr>))
       (act_with (\<lambda>vm. buf_read (vm_stack vm) (top - 1))))"

text \<open>
  \<open>peek\<close> lets the distance equal the height, and then points in front of the stack.
\<close>

definition peek_slot :: "nat \<Rightarrow> nat vm_action" where
  "peek_slot distance = act_bind (act_get vm_stack_top) (\<lambda>top.
     if top < distance then act_halt (Panic ''VirtualMachine::peek'')
     else if top = distance then act_halt (Undefined ''stack[-1]'')
     else act_return (top - 1 - distance))"

definition read_slot :: "nat \<Rightarrow> jvalue vm_action" where
  "read_slot i = act_with (\<lambda>vm. buf_read (vm_stack vm) i)"

definition write_slot :: "nat \<Rightarrow> jvalue \<Rightarrow> unit vm_action" where
  "write_slot i v =
     act_bind (act_with (\<lambda>vm. buf_write (vm_stack vm) i v)) (\<lambda>b. act_update (\<lambda>vm. vm\<lparr>vm_stack := b\<rparr>))"

definition peek_value :: "nat \<Rightarrow> jvalue vm_action" where
  "peek_value distance = act_bind (peek_slot distance) read_slot"

text \<open>Moving the top down by a pointer subtraction, unchecked in the source.\<close>

definition drop_stack :: "nat \<Rightarrow> unit vm_action" where
  "drop_stack n = act_bind (act_get vm_stack_top) (\<lambda>top.
     if top < n then act_halt (Undefined ''stack_top before the stack'')
     else act_update (\<lambda>vm. vm\<lparr>vm_stack_top := top - n\<rparr>))"

text \<open>\<open>self->stack_top[-n]\<close> as the target of an assignment.\<close>

definition write_below_top :: "nat \<Rightarrow> jvalue \<Rightarrow> unit vm_action" where
  "write_below_top n v = act_bind (act_get vm_stack_top) (\<lambda>top.
     if top < n then act_halt (Undefined ''write before the stack'') else write_slot (top - n) v)"

subsection \<open>Operands\<close>

definition read_byte :: "nat \<Rightarrow> u8 vm_action" where
  "read_byte fp =
     act_bind (frame_at fp) (\<lambda>f. act_bind (frame_fn f) (\<lambda>fn.
     act_bind (act_lift (buf_read (ck_code (fn_chunk fn)) (cf_ip f))) (\<lambda>b.
     act_then (set_ip fp (cf_ip f + 1)) (act_return b))))"

definition read_short :: "nat \<Rightarrow> nat vm_action" where
  "read_short fp =
     act_bind (read_byte fp) (\<lambda>high. act_bind (read_byte fp) (\<lambda>low.
       act_return (unat high * 256 + unat low)))"

definition constant_at :: "nat \<Rightarrow> nat \<Rightarrow> jvalue vm_action" where
  "constant_at fp i =
     act_bind (frame_at fp) (\<lambda>f. act_bind (frame_fn f) (\<lambda>fn.
       act_lift (value_at (ck_constants (fn_chunk fn)) i)))"

definition read_constant :: "nat \<Rightarrow> jvalue vm_action" where
  "read_constant fp = act_bind (read_byte fp) (\<lambda>b. constant_at fp (unat b))"

definition read_constant_long :: "nat \<Rightarrow> jvalue vm_action" where
  "read_constant_long fp = act_bind (read_short fp) (constant_at fp)"

definition read_string :: "nat \<Rightarrow> string vm_action" where
  "read_string fp = act_bind (read_constant fp) (\<lambda>v. act_lift (as_string v))"

definition jump_forward :: "nat \<Rightarrow> nat \<Rightarrow> unit vm_action" where
  "jump_forward fp offset = act_bind (frame_at fp) (\<lambda>f. set_ip fp (cf_ip f + offset))"

definition jump_back :: "nat \<Rightarrow> nat \<Rightarrow> unit vm_action" where
  "jump_back fp offset = act_bind (frame_at fp) (\<lambda>f.
     if cf_ip f < offset then act_halt (Undefined ''ip before the code'')
     else set_ip fp (cf_ip f - offset))"

subsection \<open>The heap and the tables of the machine\<close>

definition on_heap :: "(heap \<Rightarrow> 'a outcome) \<Rightarrow> 'a vm_action" where
  "on_heap f = act_with (\<lambda>vm. f (vm_heap vm))"

definition allocate :: "(heap \<Rightarrow> nat \<times> heap) \<Rightarrow> nat vm_action" where
  "allocate f = (\<lambda>vm. let (a, h) = f (vm_heap vm) in Inr (a, vm\<lparr>vm_heap := h\<rparr>))"

definition allocate_outcome :: "(heap \<Rightarrow> (nat \<times> heap) outcome) \<Rightarrow> nat vm_action" where
  "allocate_outcome f = (\<lambda>vm. andThen (f (vm_heap vm)) (\<lambda>(a, h). Inr (a, vm\<lparr>vm_heap := h\<rparr>)))"

definition store_obj :: "nat \<Rightarrow> obj \<Rightarrow> unit vm_action" where
  "store_obj a obj = act_update (\<lambda>vm. vm\<lparr>vm_heap := write_obj a obj (vm_heap vm)\<rparr>)"

definition obj_value :: "nat \<Rightarrow> jvalue" where
  "obj_value a = VObject (ObjRef a)"

definition string_value :: "string \<Rightarrow> jvalue" where
  "string_value s = VObject (StrRef s)"

text \<open>\<open>values_equal\<close> never nests deeper than there are pairs of objects unless it never ends.\<close>

definition vm_values_equal :: "jvalue \<Rightarrow> jvalue \<Rightarrow> bool vm_action" where
  "vm_values_equal x y = on_heap (\<lambda>h. values_equal (Suc (h_next h * h_next h)) h x y)"

subsection \<open>Upvalues\<close>

definition new_upvalue_info :: "u8 \<Rightarrow> bool \<Rightarrow> u8" where
  "new_upvalue_info index is_local = index OR push_bit 7 (if is_local then 1 else 0)"

definition location_above :: "env \<Rightarrow> location \<Rightarrow> nat \<Rightarrow> bool" where
  "location_above E l i = (case l of Slot s \<Rightarrow> i < s | Own \<Rightarrow> e_heap_above_stack E)"

text \<open>The loop of \<open>capture_upvalue\<close>, from the previous and the current node.\<close>

fun capture_loop ::
    "env \<Rightarrow> heap \<Rightarrow> nat \<Rightarrow> nat option \<Rightarrow> nat option \<Rightarrow> nat \<Rightarrow> (nat option \<times> nat option) outcome" where
  "capture_loop E h i prev cur 0 = Inl Diverge"
| "capture_loop E h i prev cur (Suc fuel) =
     (case cur of
        None \<Rightarrow> Inr (prev, None)
      | Some a \<Rightarrow> andThen (get_upvalue_obj h a) (\<lambda>u.
          if location_above E (uv_location u) i then capture_loop E h i (Some a) (uv_next u) fuel
          else Inr (prev, Some a)))"

definition link_upvalue :: "nat option \<Rightarrow> nat \<Rightarrow> unit vm_action" where
  "link_upvalue prev a =
     (case prev of
        None \<Rightarrow> act_update (\<lambda>vm. vm\<lparr>vm_open_upv_ptr := Some a\<rparr>)
      | Some p \<Rightarrow> act_bind (on_heap (\<lambda>h. get_upvalue_obj h p)) (\<lambda>u.
          store_obj p (OUpvalue (u\<lparr>uv_next := Some a\<rparr>))))"

definition capture_upvalue :: "env \<Rightarrow> nat \<Rightarrow> nat vm_action" where
  "capture_upvalue E i =
     act_bind (act_with (\<lambda>vm. capture_loop E (vm_heap vm) i None (vm_open_upv_ptr vm) (h_next (vm_heap vm) + 1)))
     (\<lambda>(prev, cur).
       act_bind (case cur of None \<Rightarrow> act_return False
                 | Some a \<Rightarrow> act_bind (on_heap (\<lambda>h. get_upvalue_obj h a)) (\<lambda>u. act_return (uv_location u = Slot i)))
       (\<lambda>found.
         if found then act_return (the cur)
         else act_bind (allocate (allocate_object
                  (OUpvalue \<lparr>uv_location = Slot i, uv_closed = VNull, uv_next = cur\<rparr>))) (\<lambda>a.
              act_then (link_upvalue prev a) (act_return a))))"

text \<open>
  The loop of \<open>close_upvalues\<close>. It stops at the first location that is not strictly above \<open>last\<close>,
  and leaves the list and its head as they are.
\<close>

primrec close_loop :: "env \<Rightarrow> nat \<Rightarrow> nat option \<Rightarrow> nat \<Rightarrow> unit vm_action" where
  "close_loop E lst upv 0 = act_halt Diverge"
| "close_loop E lst upv (Suc fuel) =
     (case upv of
        None \<Rightarrow> act_return ()
      | Some a \<Rightarrow> act_bind (on_heap (\<lambda>h. get_upvalue_obj h a)) (\<lambda>u.
          if location_above E (uv_location u) lst then
            act_bind (case uv_location u of Slot s \<Rightarrow> read_slot s | Own \<Rightarrow> act_return (uv_closed u)) (\<lambda>v.
            act_then (store_obj a (OUpvalue (u\<lparr>uv_closed := v, uv_location := Own\<rparr>)))
              (close_loop E lst (uv_next u) fuel))
          else act_return ()))"

definition close_upvalues :: "env \<Rightarrow> nat \<Rightarrow> unit vm_action" where
  "close_upvalues E lst =
     act_bind (act_get (\<lambda>vm. (vm_open_upv_ptr vm, h_next (vm_heap vm)))) (\<lambda>(upv, n).
       close_loop E lst upv (n + 1))"

definition read_upvalue :: "nat \<Rightarrow> jvalue vm_action" where
  "read_upvalue a = act_bind (on_heap (\<lambda>h. get_upvalue_obj h a)) (\<lambda>u.
     case uv_location u of Slot s \<Rightarrow> read_slot s | Own \<Rightarrow> act_return (uv_closed u))"

definition write_upvalue :: "nat \<Rightarrow> jvalue \<Rightarrow> unit vm_action" where
  "write_upvalue a v = act_bind (on_heap (\<lambda>h. get_upvalue_obj h a)) (\<lambda>u.
     case uv_location u of Slot s \<Rightarrow> write_slot s v | Own \<Rightarrow> store_obj a (OUpvalue (u\<lparr>uv_closed := v\<rparr>)))"

subsection \<open>The machine's own invariant\<close>

text \<open>
  The arrays keep their sizes, the top of the stack and the slots of every frame stay within the
  stack and the frame count within the frames.
\<close>

definition machine_ok :: "vm \<Rightarrow> bool" where
  "machine_ok vm \<longleftrightarrow>
     length (vm_frames vm) = frames_stack_max \<and> length (vm_stack vm) = constant_stack_max \<and>
     vm_stack_top vm \<le> constant_stack_max \<and> vm_frame_count vm \<le> frames_stack_max \<and>
     (\<forall>f. Some f \<in> set (vm_frames vm) \<longrightarrow> cf_slots f \<le> constant_stack_max)"

named_theorems keeps_ok

lemma machine_ok_fresh: "machine_ok fresh_vm"
  by (simp add: machine_ok_def fresh_vm_def buf_alloc_def)

lemma buf_write_length: "buf_write b i x = Inr b' \<Longrightarrow> length b' = length b"
  by (auto simp: buf_write_def split: if_splits)

lemma keeps_frame_at [keeps_ok]: "keeps machine_ok (frame_at fp)"
  unfolding frame_at_def by (rule keeps_with)

lemma buf_write_set: "buf_write b i x = Inr b' \<Longrightarrow> set b' \<subseteq> insert (Some x) (set b)"
  using set_update_subset_insert [of b i "Some x"] by (auto simp: buf_write_def split: if_splits)

lemma buf_read_set: "buf_read b i = Inr x \<Longrightarrow> Some x \<in> set b"
  by (auto simp: buf_read_def split: if_splits option.splits) (metis not_le nth_mem)

lemma keeps_set_frame:
  assumes "cf_slots f \<le> constant_stack_max"
  shows "keeps machine_ok (set_frame fp f)"
  unfolding keeps_def
proof (intro allI impI)
  fix vm u vm'
  assume vm: "machine_ok vm" and r: "set_frame fp f vm = Inr (u, vm')"
  then obtain b where b: "buf_write (vm_frames vm) fp f = Inr b" "vm' = vm\<lparr>vm_frames := b\<rparr>"
    by (auto simp: set_frame_def act_simps andThen_Inr_iff)
  from b(1) have "length b = length (vm_frames vm)" "set b \<subseteq> insert (Some f) (set (vm_frames vm))"
    by (rule buf_write_length, rule buf_write_set)
  with vm b(2) assms show "machine_ok vm'" by (auto simp: machine_ok_def)
qed

lemma keeps_set_ip [keeps_ok]: "keeps machine_ok (set_ip fp ip)"
  unfolding keeps_def
proof (intro allI impI)
  fix vm u vm'
  assume vm: "machine_ok vm" and r: "set_ip fp ip vm = Inr (u, vm')"
  then obtain f where f: "buf_read (vm_frames vm) fp = Inr f" "set_frame fp (f\<lparr>cf_ip := ip\<rparr>) vm = Inr (u, vm')"
    by (auto simp: set_ip_def frame_at_def act_simps andThen_Inr_iff)
  with vm have "cf_slots f \<le> constant_stack_max" by (auto simp: machine_ok_def dest: buf_read_set)
  with keepsD [OF keeps_set_frame vm f(2)] show "machine_ok vm'" by simp
qed

lemma keeps_frame_fn [keeps_ok]: "keeps machine_ok (frame_fn f)"
  unfolding frame_fn_def by (rule keeps_with)

lemma keeps_frame_line [keeps_ok]: "keeps machine_ok (frame_line fp)"
  unfolding frame_line_def by (intro keeps_intros keeps_ok)

lemma keeps_trace_frames [keeps_ok]: "keeps machine_ok (trace_frames n)"
  by (induction n) (auto intro!: keeps_intros keeps_ok)

lemma keeps_reset_stack [keeps_ok]: "keeps machine_ok (act_update reset_stack)"
  by (rule keeps_update) (simp add: machine_ok_def reset_stack_def)

lemma keeps_runtime_error [keeps_ok]: "keeps machine_ok (runtime_error msg)"
  unfolding runtime_error_def
  by (intro keeps_intros keeps_ok keeps_update) (simp add: machine_ok_def)

lemma keeps_runtime_error_at [keeps_ok]: "keeps machine_ok (runtime_error_at fp msg)"
  unfolding runtime_error_at_def by (intro keeps_intros keeps_ok)

lemma keeps_fail_with [keeps_ok]: "keeps machine_ok (fail_with msg)"
  unfolding fail_with_def by (intro keeps_intros keeps_ok)

lemma keeps_fail_at [keeps_ok]: "keeps machine_ok (fail_at fp msg)"
  unfolding fail_at_def by (intro keeps_intros keeps_ok)

lemma keeps_ok_action [keeps_ok]: "keeps machine_ok ok"
  unfolding ok_def by (rule keeps_return)

lemma keeps_push [keeps_ok]: "keeps machine_ok (push v)"
  by (auto simp: keeps_def push_def act_simps andThen_Inr_iff machine_ok_def split: if_splits
      dest: buf_write_length)

lemma keeps_pop [keeps_ok]: "keeps machine_ok pop"
  by (auto simp: keeps_def pop_def act_simps andThen_Inr_iff machine_ok_def split: if_splits)

lemma keeps_peek_slot [keeps_ok]: "keeps machine_ok (peek_slot d)"
  unfolding peek_slot_def by (intro keeps_intros)

lemma keeps_read_slot [keeps_ok]: "keeps machine_ok (read_slot i)"
  unfolding read_slot_def by (rule keeps_with)

lemma keeps_write_slot [keeps_ok]: "keeps machine_ok (write_slot i v)"
  by (auto simp: keeps_def write_slot_def act_simps andThen_Inr_iff machine_ok_def dest: buf_write_length)

lemma keeps_peek_value [keeps_ok]: "keeps machine_ok (peek_value d)"
  unfolding peek_value_def by (intro keeps_intros keeps_ok)

lemma keeps_drop_stack [keeps_ok]: "keeps machine_ok (drop_stack n)"
  by (auto simp: keeps_def drop_stack_def act_simps machine_ok_def split: if_splits)

lemma keeps_write_below_top [keeps_ok]: "keeps machine_ok (write_below_top n v)"
  unfolding write_below_top_def by (intro keeps_intros keeps_ok)

lemma keeps_read_byte [keeps_ok]: "keeps machine_ok (read_byte fp)"
  unfolding read_byte_def by (intro keeps_intros keeps_ok)

lemma keeps_read_short [keeps_ok]: "keeps machine_ok (read_short fp)"
  unfolding read_short_def by (intro keeps_intros keeps_ok)

lemma keeps_constant_at [keeps_ok]: "keeps machine_ok (constant_at fp i)"
  unfolding constant_at_def by (intro keeps_intros keeps_ok)

lemma keeps_read_constant [keeps_ok]: "keeps machine_ok (read_constant fp)"
  unfolding read_constant_def by (intro keeps_intros keeps_ok)

lemma keeps_read_constant_long [keeps_ok]: "keeps machine_ok (read_constant_long fp)"
  unfolding read_constant_long_def by (intro keeps_intros keeps_ok)

lemma keeps_read_string [keeps_ok]: "keeps machine_ok (read_string fp)"
  unfolding read_string_def by (intro keeps_intros keeps_ok)

lemma keeps_jump_forward [keeps_ok]: "keeps machine_ok (jump_forward fp n)"
  unfolding jump_forward_def by (intro keeps_intros keeps_ok)

lemma keeps_jump_back [keeps_ok]: "keeps machine_ok (jump_back fp n)"
  unfolding jump_back_def by (intro keeps_intros keeps_ok)

lemma keeps_on_heap [keeps_ok]: "keeps machine_ok (on_heap f)"
  unfolding on_heap_def by (rule keeps_with)

lemma keeps_allocate [keeps_ok]: "keeps machine_ok (allocate f)"
  by (auto simp: keeps_def allocate_def machine_ok_def split: prod.splits)

lemma keeps_allocate_outcome [keeps_ok]: "keeps machine_ok (allocate_outcome f)"
  by (auto simp: keeps_def allocate_outcome_def machine_ok_def andThen_Inr_iff split: prod.splits)

lemma keeps_store_obj [keeps_ok]: "keeps machine_ok (store_obj a obj)"
  unfolding store_obj_def by (rule keeps_update) (simp add: machine_ok_def)

lemma keeps_values_equal [keeps_ok]: "keeps machine_ok (vm_values_equal x y)"
  unfolding vm_values_equal_def by (rule keeps_on_heap)

lemma keeps_link_upvalue [keeps_ok]: "keeps machine_ok (link_upvalue prev a)"
  unfolding link_upvalue_def by (intro keeps_intros keeps_ok keeps_update) (simp add: machine_ok_def)

lemma keeps_location:
  "(\<And>s. keeps P (f s)) \<Longrightarrow> keeps P g \<Longrightarrow> keeps P (case l of Slot s \<Rightarrow> f s | Own \<Rightarrow> g)"
  by (cases l) simp_all

lemma keeps_capture_upvalue [keeps_ok]: "keeps machine_ok (capture_upvalue E i)"
  unfolding capture_upvalue_def by (intro keeps_intros keeps_ok)

lemma keeps_close_loop [keeps_ok]: "keeps machine_ok (close_loop E i upv n)"
proof (induction n arbitrary: upv)
  case 0
  then show ?case by (simp add: keeps_halt)
next
  case (Suc n)
  then show ?case by (auto intro!: keeps_intros keeps_location keeps_ok)
qed

lemma keeps_close_upvalues [keeps_ok]: "keeps machine_ok (close_upvalues E i)"
  unfolding close_upvalues_def by (intro keeps_intros keeps_ok)

lemma keeps_read_upvalue [keeps_ok]: "keeps machine_ok (read_upvalue a)"
  unfolding read_upvalue_def by (intro keeps_intros keeps_location keeps_ok)

lemma keeps_write_upvalue [keeps_ok]: "keeps machine_ok (write_upvalue a v)"
  unfolding write_upvalue_def by (intro keeps_intros keeps_location keeps_ok)

end
