(* ===== verification/Joker_Native.thy ===== *)
theory Joker_Native
  imports Joker_Machine
begin

text \<open>
  The methods of the type \<open>Vec\<close> (src/type/src/vec.c), the equality and concatenation of its
  operator table (include/vec.h) and of the strings' (include/string_.h), and the call of a native
  function.

  A native function gets the number of its arguments and a pointer to the first, a slot of the
  stack. A Joker \<open>Vec\<close> is an instance of the class \<open>Vec\<close> whose field \<open>_data\<close> holds the vector. After a
  runtime error the methods return null.
\<close>

subsection \<open>The vector of an instance\<close>

definition data_field :: "instance_obj \<Rightarrow> jvalue outcome" where
  "data_field i = hashmap_get hash_string (in_fields i) ''_data''"

definition instance_of :: "jvalue \<Rightarrow> instance_obj vm_action" where
  "instance_of v = act_bind (act_lift (as_addr v)) (\<lambda>a. on_heap (\<lambda>h. get_instance h a))"

definition data_of :: "jvalue \<Rightarrow> jvalue vm_action" where
  "data_of v = act_bind (instance_of v) (\<lambda>i. act_lift (data_field i))"

definition native_error :: "string \<Rightarrow> jvalue vm_action" where
  "native_error msg = act_then (runtime_error msg) (act_return VNull)"

text \<open>The common part of the methods: \<open>f\<close> runs on the vector of the argument in \<open>slot\<close>.\<close>

definition with_vec :: "nat \<Rightarrow> (nat \<Rightarrow> vec \<Rightarrow> jvalue vm_action) \<Rightarrow> jvalue vm_action" where
  "with_vec slot f =
     act_bind (read_slot slot) (\<lambda>receiver. act_bind (data_of receiver) (\<lambda>data_val.
     act_bind (act_get (\<lambda>vm. is_obj_type (vm_heap vm) data_val OBJ_VEC)) (\<lambda>is_vec.
       if is_vec then
         act_bind (act_lift (as_addr data_val)) (\<lambda>a. act_bind (on_heap (\<lambda>h. get_vec h a)) (f a))
       else native_error ''Vector data corrupted.'')))"

definition store_vec :: "nat \<Rightarrow> vec \<Rightarrow> unit vm_action" where
  "store_vec a v = store_obj a (OVec v)"

text \<open>Calls of the operations of src/vec.c: one that changes the vector, one that returns a value.\<close>

definition update_vec :: "nat \<Rightarrow> vec outcome \<Rightarrow> jvalue vm_action" where
  "update_vec a m = act_bind (act_lift m) (\<lambda>v. act_then (store_vec a v) (act_return VNull))"

text \<open>The check \<open>arg_count != n || !macro_is_i32(args[1])\<close>, then \<open>f\<close> on the index.\<close>

definition with_index :: "nat \<Rightarrow> nat \<Rightarrow> nat \<Rightarrow> string \<Rightarrow> (int \<Rightarrow> jvalue vm_action) \<Rightarrow> jvalue vm_action" where
  "with_index n arg_count args msg f =
     (if arg_count \<noteq> n then native_error msg
      else act_bind (read_slot (args + 1)) (\<lambda>v.
        case v of VI32 w \<Rightarrow> f (sint w) | _ \<Rightarrow> native_error msg))"

definition out_of_bounds :: "jvalue vm_action" where
  "out_of_bounds = native_error ''Index out of bounds''"

subsection \<open>The methods\<close>

definition vec_method_get :: "nat \<Rightarrow> nat \<Rightarrow> jvalue vm_action" where
  "vec_method_get arg_count args =
     with_index 2 arg_count args ''Expected 1 integer argument for 'get'.'' (\<lambda>index.
     with_vec args (\<lambda>a v.
       if index < 0 \<or> int (vec_len v) \<le> index then out_of_bounds
       else act_lift (vec_get v (nat index))))"

definition vec_method_set :: "nat \<Rightarrow> nat \<Rightarrow> jvalue vm_action" where
  "vec_method_set arg_count args =
     with_index 3 arg_count args ''Expected 2 integer argument for 'set'.'' (\<lambda>index.
     with_vec args (\<lambda>a v.
       if index < 0 \<or> int (vec_len v) \<le> index then out_of_bounds
       else act_bind (read_slot (args + 2)) (\<lambda>x. update_vec a (vec_set v (nat index) x))))"

definition vec_method_push :: "nat \<Rightarrow> nat \<Rightarrow> jvalue vm_action" where
  "vec_method_push arg_count args =
     (if arg_count \<noteq> 2 then native_error ''Expected 1 argument for 'push'.''
      else with_vec args (\<lambda>a v. act_bind (read_slot (args + 1)) (\<lambda>x. update_vec a (vec_push v x))))"

definition vec_method_pop :: "nat \<Rightarrow> nat \<Rightarrow> jvalue vm_action" where
  "vec_method_pop arg_count args =
     (if arg_count \<noteq> 1 then native_error ''Expected 0 arguments for 'pop'.''
      else with_vec args (\<lambda>a v. act_bind (act_lift (vec_pop v)) (\<lambda>(v, x).
        act_then (store_vec a v) (act_return x))))"

definition vec_method_insert :: "nat \<Rightarrow> nat \<Rightarrow> jvalue vm_action" where
  "vec_method_insert arg_count args =
     with_index 3 arg_count args ''Expected 2 integer argument for 'insert'.'' (\<lambda>index.
     with_vec args (\<lambda>a v.
       if index < 0 \<or> int (vec_len v) < index then out_of_bounds
       else act_bind (read_slot (args + 2)) (\<lambda>x. update_vec a (vec_insert v (nat index) x))))"

definition vec_method_remove :: "nat \<Rightarrow> nat \<Rightarrow> jvalue vm_action" where
  "vec_method_remove arg_count args =
     with_index 2 arg_count args ''Expected 1 integer argument for 'remove'.'' (\<lambda>index.
     with_vec args (\<lambda>a v.
       if index < 0 \<or> int (vec_len v) \<le> index then out_of_bounds
       else update_vec a (vec_remove v (nat index))))"

definition vec_method_extend :: "nat \<Rightarrow> nat \<Rightarrow> jvalue vm_action" where
  "vec_method_extend arg_count args =
     (if arg_count \<noteq> 2 then native_error ''Expected 1 argument for 'extend'.''
      else with_vec args (\<lambda>a v. with_vec (args + 1) (\<lambda>_ w. update_vec a (vec_extend v w))))"

definition vec_method_clear :: "nat \<Rightarrow> nat \<Rightarrow> jvalue vm_action" where
  "vec_method_clear arg_count args =
     (if arg_count \<noteq> 1 then native_error ''Expected 0 arguments for 'clear'.''
      else with_vec args (\<lambda>a v. update_vec a (Inr (vec_clear v))))"

definition vec_method_reverse :: "nat \<Rightarrow> nat \<Rightarrow> jvalue vm_action" where
  "vec_method_reverse arg_count args =
     (if arg_count \<noteq> 1 then native_error ''Expected 0 arguments for 'reverse'.''
      else with_vec args (\<lambda>a v. update_vec a (vec_reverse v)))"

definition vec_method_length :: "nat \<Rightarrow> nat \<Rightarrow> jvalue vm_action" where
  "vec_method_length arg_count args =
     (if arg_count \<noteq> 1 then native_error ''Expected 0 arguments for 'length'.''
      else with_vec args (\<lambda>a v. act_return (VI32 (of_nat (vec_len v)))))"

definition vec_method_first :: "nat \<Rightarrow> nat \<Rightarrow> jvalue vm_action" where
  "vec_method_first arg_count args =
     (if arg_count \<noteq> 1 then native_error ''Expected 0 arguments for 'first'.''
      else with_vec args (\<lambda>a v. act_lift (vec_first v)))"

definition vec_method_last :: "nat \<Rightarrow> nat \<Rightarrow> jvalue vm_action" where
  "vec_method_last arg_count args =
     (if arg_count \<noteq> 1 then native_error ''Expected 0 arguments for 'last'.''
      else with_vec args (\<lambda>a v. act_lift (vec_last v)))"

text \<open>The table \<open>vec_export_methods\<close>.\<close>

definition vec_export_methods :: "(string \<times> native_fn) list" where
  "vec_export_methods =
     [(''get'', native_vec_get), (''set'', native_vec_set), (''push'', native_vec_push),
      (''pop'', native_vec_pop), (''insert'', native_vec_insert), (''remove'', native_vec_remove),
      (''extend'', native_vec_extend), (''clear'', native_vec_clear),
      (''reverse'', native_vec_reverse), (''len'', native_vec_length),
      (''first'', native_vec_first), (''last'', native_vec_last)]"

fun read_slots :: "nat \<Rightarrow> nat \<Rightarrow> jvalue list vm_action" where
  "read_slots i 0 = act_return []"
| "read_slots i (Suc n) =
     act_bind (read_slot i) (\<lambda>v. act_bind (read_slots (i + 1) n) (\<lambda>vs. act_return (v # vs)))"

definition native_call :: "env \<Rightarrow> native_fn \<Rightarrow> nat \<Rightarrow> nat \<Rightarrow> jvalue vm_action" where
  "native_call E f arg_count args =
     (case f of
        native_vec_get \<Rightarrow> vec_method_get arg_count args
      | native_vec_set \<Rightarrow> vec_method_set arg_count args
      | native_vec_push \<Rightarrow> vec_method_push arg_count args
      | native_vec_pop \<Rightarrow> vec_method_pop arg_count args
      | native_vec_insert \<Rightarrow> vec_method_insert arg_count args
      | native_vec_remove \<Rightarrow> vec_method_remove arg_count args
      | native_vec_extend \<Rightarrow> vec_method_extend arg_count args
      | native_vec_clear \<Rightarrow> vec_method_clear arg_count args
      | native_vec_reverse \<Rightarrow> vec_method_reverse arg_count args
      | native_vec_length \<Rightarrow> vec_method_length arg_count args
      | native_vec_first \<Rightarrow> vec_method_first arg_count args
      | native_vec_last \<Rightarrow> vec_method_last arg_count args
      | native_extern name \<Rightarrow>
          act_bind (read_slots args arg_count) (\<lambda>vs. act_lift (e_extern E name vs)))"

subsection \<open>Operators of objects\<close>

text \<open>
  A handler takes the slots of the operands and may store its result in the left one; it gives
  \<open>False\<close> for \<open>interpret_runtime_error\<close>.
\<close>

definition string_eq :: "nat \<Rightarrow> nat \<Rightarrow> bool vm_action" where
  "string_eq left right =
     act_bind (read_slot left) (\<lambda>l. act_bind (read_slot right) (\<lambda>r.
       case (l, r) of
         (VObject (StrRef s), VObject (StrRef t)) \<Rightarrow>
           act_then (write_slot left (VBool (s = t))) (act_return True)
       | _ \<Rightarrow> act_return False))"

text \<open>
  The negation reads the left slot as a \<open>bool\<close> whatever \<open>string_eq\<close> returned.
\<close>

definition string_neq :: "env \<Rightarrow> nat \<Rightarrow> nat \<Rightarrow> bool vm_action" where
  "string_neq E left right =
     act_bind (string_eq left right) (\<lambda>result. act_bind (read_slot left) (\<lambda>l.
     act_bind (act_lift (macro_as_bool (e_layout E) l)) (\<lambda>b.
       act_then (write_slot left (VBool (\<not> b))) (act_return result))))"

text \<open>\<open>concat_string\<close> on contents; \<open>None\<close> is the null pointer, after its runtime error.\<close>

definition concat_contents :: "string \<Rightarrow> string \<Rightarrow> string option vm_action" where
  "concat_contents l r =
     (if INT32_MAX - 1 < length l \<or> INT32_MAX - 1 < length r then
        act_then (runtime_error ''String length out of range'') (act_return None)
      else if INT32_MAX < length l + length r then act_halt (Undefined ''signed overflow'')
      else if INT32_MAX - 1 < length l + length r then
        act_then (runtime_error ''String length out of range'') (act_return None)
      else act_return (Some (l @ r)))"

definition string_add :: "nat \<Rightarrow> nat \<Rightarrow> bool vm_action" where
  "string_add left right =
     act_bind (read_slot left) (\<lambda>l. act_bind (read_slot right) (\<lambda>r.
     act_bind (act_lift (as_string l)) (\<lambda>s. act_bind (act_lift (as_string r)) (\<lambda>t.
     act_bind (concat_contents s t) (\<lambda>result.
       case result of
         None \<Rightarrow> act_return False
       | Some u \<Rightarrow> act_then (write_slot left (string_value u)) (act_return True))))))"

definition vec_operand :: "nat \<Rightarrow> vec vm_action" where
  "vec_operand slot =
     act_bind (read_slot slot) (\<lambda>v. act_bind (data_of v) (\<lambda>d.
     act_bind (act_lift (as_addr d)) (\<lambda>a. on_heap (\<lambda>h. get_vec h a))))"

text \<open>The result is the bare vector, not an instance of the class \<open>Vec\<close>.\<close>

definition vec_add :: "nat \<Rightarrow> nat \<Rightarrow> bool vm_action" where
  "vec_add left right =
     act_bind (vec_operand left) (\<lambda>l. act_bind (vec_operand right) (\<lambda>r.
     act_bind (act_lift (vec_extend (new_vec_with_capacity (vec_len l + vec_len r)) l)) (\<lambda>v.
     act_bind (act_lift (vec_extend v r)) (\<lambda>v.
     act_bind (allocate (allocate_object (OVec v))) (\<lambda>a.
       act_then (write_slot left (obj_value a)) (act_return True))))))"

definition vec_eq :: "nat \<Rightarrow> nat \<Rightarrow> bool vm_action" where
  "vec_eq left right =
     act_bind (vec_operand left) (\<lambda>l. act_bind (vec_operand right) (\<lambda>r.
     act_bind (on_heap (\<lambda>h. vec_equal (values_equal (Suc (h_next h * h_next h)) h) l r)) (\<lambda>b.
       act_then (write_slot left (VBool b)) (act_return True))))"

definition vec_neq :: "env \<Rightarrow> nat \<Rightarrow> nat \<Rightarrow> bool vm_action" where
  "vec_neq E left right =
     act_then (act_bind (vec_eq left right) (\<lambda>_. act_return ()))
     (act_bind (read_slot left) (\<lambda>l. act_bind (act_lift (macro_as_bool (e_layout E) l)) (\<lambda>b.
       act_then (write_slot left (VBool (\<not> b))) (act_return True))))"

text \<open>
  The dispatch \<open>vtable->binary_operators[op]\<close>. An operator missing from the table, like every
  operator of the default table, is a handler that returns an error. The unary tables hold
  nothing else.
\<close>

definition binary_handler :: "env \<Rightarrow> vtable \<Rightarrow> operator \<Rightarrow> nat \<Rightarrow> nat \<Rightarrow> bool vm_action" where
  "binary_handler E vt op left right =
     (case vt of
        string_vtable _ \<Rightarrow>
          if op = OP_EQ then string_eq left right
          else if op = OP_NEQ then string_neq E left right
          else if op = OP_ADD then string_add left right
          else act_return False
      | vec_vtable _ \<Rightarrow>
          if op = OP_ADD then vec_add left right
          else if op = OP_EQ then vec_eq left right
          else if op = OP_NEQ then vec_neq E left right
          else act_return False
      | default_object_vtable _ \<Rightarrow> act_return False)"

subsection \<open>The machine's invariant\<close>

lemma keeps_jvalue:
  "(\<And>w. keeps P (f w)) \<Longrightarrow> keeps P m \<Longrightarrow> keeps P (case v of VI32 w \<Rightarrow> f w | _ \<Rightarrow> m)"
  by (cases v) simp_all

lemma keeps_native_error [keeps_ok]: "keeps machine_ok (native_error msg)"
  unfolding native_error_def by (intro keeps_intros keeps_ok)

lemma keeps_out_of_bounds [keeps_ok]: "keeps machine_ok out_of_bounds"
  unfolding out_of_bounds_def by (rule keeps_ok)

lemma keeps_data_of [keeps_ok]: "keeps machine_ok (data_of v)"
  unfolding data_of_def instance_of_def by (intro keeps_intros keeps_ok)

lemma keeps_with_vec [keeps_ok]:
  "(\<And>a v. keeps machine_ok (f a v)) \<Longrightarrow> keeps machine_ok (with_vec slot f)"
  unfolding with_vec_def by (intro keeps_intros keeps_ok)

lemma keeps_with_index [keeps_ok]:
  "(\<And>i. keeps machine_ok (f i)) \<Longrightarrow> keeps machine_ok (with_index n c args msg f)"
  unfolding with_index_def by (intro keeps_intros keeps_jvalue keeps_ok)

lemma keeps_store_vec [keeps_ok]: "keeps machine_ok (store_vec a v)"
  unfolding store_vec_def by (rule keeps_ok)

lemma keeps_update_vec [keeps_ok]: "keeps machine_ok (update_vec a m)"
  unfolding update_vec_def by (intro keeps_intros keeps_ok)

lemmas vec_method_defs = vec_method_get_def vec_method_set_def vec_method_push_def vec_method_pop_def
  vec_method_insert_def vec_method_remove_def vec_method_extend_def vec_method_clear_def
  vec_method_reverse_def vec_method_length_def vec_method_first_def vec_method_last_def

lemma keeps_read_slots [keeps_ok]: "keeps machine_ok (read_slots i n)"
  by (induction n arbitrary: i) (auto intro!: keeps_intros keeps_ok)

lemma keeps_native_call [keeps_ok]: "keeps machine_ok (native_call E f n args)"
  unfolding native_call_def vec_method_defs
  by (cases f; simp only: native_fn.case; intro keeps_intros keeps_ok)

lemma keeps_string_eq [keeps_ok]: "keeps machine_ok (string_eq l r)"
  unfolding string_eq_def
  by (intro keeps_intros keeps_ok; simp split: jvalue.split objref.split; intro allI impI conjI keeps_intros keeps_ok)

lemma keeps_string_neq [keeps_ok]: "keeps machine_ok (string_neq E l r)"
  unfolding string_neq_def by (intro keeps_intros keeps_ok)

lemma keeps_concat_contents [keeps_ok]: "keeps machine_ok (concat_contents l r)"
  unfolding concat_contents_def by (intro keeps_intros keeps_ok)

lemma keeps_string_add [keeps_ok]: "keeps machine_ok (string_add l r)"
  unfolding string_add_def by (intro keeps_intros keeps_ok)

lemma keeps_vec_operand [keeps_ok]: "keeps machine_ok (vec_operand l)"
  unfolding vec_operand_def by (intro keeps_intros keeps_ok)

lemma keeps_vec_add [keeps_ok]: "keeps machine_ok (vec_add l r)"
  unfolding vec_add_def by (intro keeps_intros keeps_ok)

lemma keeps_vec_eq [keeps_ok]: "keeps machine_ok (vec_eq l r)"
  unfolding vec_eq_def by (intro keeps_intros keeps_ok)

lemma keeps_vec_neq [keeps_ok]: "keeps machine_ok (vec_neq E l r)"
  unfolding vec_neq_def by (intro keeps_intros keeps_ok)

lemma keeps_binary_handler [keeps_ok]: "keeps machine_ok (binary_handler E vt op l r)"
  unfolding binary_handler_def
  by (cases vt; simp only: vtable.case; intro keeps_intros keeps_ok)

end
