(* ===== verification/Joker_Call.thy ===== *)
theory Joker_Call
  imports Joker_Native
begin

text \<open>
  Calls, members and methods of the virtual machine (src/vm.c): \<open>call\<close>, \<open>call_value\<close>, \<open>invoke\<close>,
  \<open>bind_method\<close>, the property accesses and the definitions of members and methods.

  The functions that return \<open>bool\<close> in the source return \<open>bool\<close> here; each has reported its error
  when it returns \<open>False\<close>. A Value pointer they get is passed as the value it points to, since none
  of them reads it again after a change.
\<close>

subsection \<open>Tables of the machine's objects\<close>

definition lookup :: "string hashmap \<Rightarrow> string \<Rightarrow> jvalue vm_action" where
  "lookup m name = act_lift (hashmap_get hash_string m name)"

definition insert_entry :: "string hashmap \<Rightarrow> string \<Rightarrow> jvalue \<Rightarrow> string hashmap vm_action" where
  "insert_entry m name v =
     act_bind (act_lift (hashmap_set hash_string m name v)) (\<lambda>(m, _). act_return m)"

definition set_globals :: "string hashmap \<Rightarrow> unit vm_action" where
  "set_globals m = act_update (\<lambda>vm. vm\<lparr>vm_globals := m\<rparr>)"

definition report_false :: "string \<Rightarrow> bool vm_action" where
  "report_false msg = act_then (runtime_error msg) (act_return False)"

definition is_type :: "jvalue \<Rightarrow> object_type \<Rightarrow> bool vm_action" where
  "is_type v t = act_get (\<lambda>vm. is_obj_type (vm_heap vm) v t)"

text \<open>A cast of a value's object pointer, then the access through it.\<close>

definition deref :: "jvalue \<Rightarrow> (heap \<Rightarrow> nat \<Rightarrow> 'a outcome) \<Rightarrow> (nat \<times> 'a) vm_action" where
  "deref v get = act_bind (act_lift (as_addr v)) (\<lambda>a. act_bind (on_heap (\<lambda>h. get h a)) (\<lambda>x. act_return (a, x)))"

subsection \<open>Calling\<close>

definition call :: "nat \<Rightarrow> nat \<Rightarrow> bool vm_action" where
  "call closure arg_count =
     act_bind (on_heap (\<lambda>h. andThen (get_closure h closure) (\<lambda>c. get_fn h (cl_fn c)))) (\<lambda>fn.
       if arg_count \<noteq> fn_arity fn then report_false ''Expected a different number of arguments''
       else act_bind (act_get (\<lambda>vm. (vm_frame_count vm, vm_stack_top vm))) (\<lambda>(n, top).
         if n = frames_stack_max then report_false ''CallFrame Stack overflow.''
         else if top < arg_count + 1 then act_halt (Undefined ''slots before the stack'')
         else act_then (act_update (\<lambda>vm. vm\<lparr>vm_frame_count := n + 1\<rparr>))
           (act_then (set_frame n \<lparr>cf_slots = top - (arg_count + 1), cf_closure = closure, cf_ip = 0\<rparr>)
             (act_return True))))"

text \<open>The loop that fills the fields of a new struct from the stack, last member first.\<close>

primrec fill_fields :: "nat \<Rightarrow> vec \<Rightarrow> string hashmap \<Rightarrow> string hashmap vm_action" where
  "fill_fields 0 names m = act_return m"
| "fill_fields (Suc i) names m =
     act_bind (act_lift (andThen (vec_get names i) as_string)) (\<lambda>name. act_bind pop (\<lambda>v.
     act_bind (insert_entry m name v) (fill_fields i names)))"

definition call_struct :: "struct_obj \<Rightarrow> nat \<Rightarrow> bool vm_action" where
  "call_struct s arg_count =
     (if arg_count \<noteq> st_count s then report_false ''Expected a different number of arguments''
      else act_bind (allocate (new_struct (st_name s))) (\<lambda>a.
        act_bind (on_heap (\<lambda>h. get_struct h a)) (\<lambda>inst.
        act_bind (on_heap (\<lambda>h. get_vec h (st_names s))) (\<lambda>names.
        act_bind (fill_fields (st_count s) names (st_fields inst)) (\<lambda>m.
        act_then (store_obj a (OStruct (inst\<lparr>st_fields := m\<rparr>)))
          (act_then (write_below_top 1 (obj_value a)) (act_return True)))))))"

definition call_class :: "nat \<Rightarrow> class_obj \<Rightarrow> nat \<Rightarrow> bool vm_action" where
  "call_class a klass arg_count =
     act_bind (allocate_outcome (new_instance a)) (\<lambda>i.
     act_then (write_below_top (arg_count + 1) (obj_value i))
     (act_bind (lookup (cls_methods klass) ''init'') (\<lambda>initializer.
       if \<not> macro_is_null initializer then
         act_bind (act_lift (as_addr initializer)) (\<lambda>c. call c arg_count)
       else if arg_count \<noteq> 0 then report_false ''Expected 0 arguments''
       else act_return True)))"

definition call_native :: "env \<Rightarrow> native_obj \<Rightarrow> nat \<Rightarrow> bool vm_action" where
  "call_native E native arg_count =
     (let adjusted = (if nt_is_builtin_method native then arg_count + 1 else arg_count)
      in act_bind (act_get vm_stack_top) (\<lambda>top.
           if top < adjusted then act_halt (Undefined ''arguments before the stack'')
           else act_bind (native_call E (nt_fn native) adjusted (top - adjusted)) (\<lambda>result.
             act_then (drop_stack (arg_count + 1)) (act_then (push result) (act_return True)))))"

definition call_value :: "env \<Rightarrow> jvalue \<Rightarrow> nat \<Rightarrow> bool vm_action" where
  "call_value E callee arg_count =
     (case callee of
        VObject (ObjRef a) \<Rightarrow>
          act_bind (act_get (\<lambda>vm. h_objs (vm_heap vm) a)) (\<lambda>obj.
            case obj of
              Some (OStruct s) \<Rightarrow> call_struct s arg_count
            | Some (OBoundMethod b) \<Rightarrow>
                act_then (write_below_top (arg_count + 1) (bm_receiver b)) (call (bm_method b) arg_count)
            | Some (OClass k) \<Rightarrow> call_class a k arg_count
            | Some (OClosure c) \<Rightarrow> call a arg_count
            | Some (ONative n) \<Rightarrow> call_native E n arg_count
            | Some _ \<Rightarrow> report_false ''Can only call functions and classes.''
            | None \<Rightarrow> act_halt (Undefined ''dangling pointer''))
      | _ \<Rightarrow> report_false ''Can only call functions and classes.'')"

subsection \<open>Methods\<close>

definition invoke_from_class :: "nat \<Rightarrow> string \<Rightarrow> nat \<Rightarrow> bool vm_action" where
  "invoke_from_class klass name arg_count =
     act_bind (on_heap (\<lambda>h. get_class h klass)) (\<lambda>k. act_bind (lookup (cls_methods k) name) (\<lambda>method.
       if macro_is_null method then report_false ''Undefined property''
       else act_bind (act_lift (as_addr method)) (\<lambda>c. call c arg_count)))"

definition invoke :: "env \<Rightarrow> string \<Rightarrow> nat \<Rightarrow> bool vm_action" where
  "invoke E name arg_count =
     act_bind (peek_value arg_count) (\<lambda>receiver. act_bind (is_type receiver OBJ_INSTANCE) (\<lambda>is_instance.
       if \<not> is_instance then report_false ''Only instances have methods.''
       else act_bind (deref receiver get_instance) (\<lambda>(_, i).
         act_bind (on_heap (\<lambda>h. get_class h (in_klass i))) (\<lambda>k.
         act_bind (act_with (\<lambda>vm. hashmap_contains_key hash_string (vm_types vm) (cls_name k))) (\<lambda>builtin.
           if builtin then
             act_bind (lookup (cls_methods k) name) (\<lambda>v.
               if macro_is_null v then report_false ''Undefined property'' else call_value E v arg_count)
           else
             act_bind (lookup (in_fields i) name) (\<lambda>v.
               if \<not> macro_is_null v then
                 act_then (write_below_top (arg_count + 1) v) (call_value E v arg_count)
               else invoke_from_class (in_klass i) name arg_count))))))"

definition bind_method :: "nat \<Rightarrow> string \<Rightarrow> bool vm_action" where
  "bind_method klass name =
     act_bind (on_heap (\<lambda>h. get_class h klass)) (\<lambda>k. act_bind (lookup (cls_methods k) name) (\<lambda>method.
       if macro_is_null method then report_false ''undefined property''
       else act_bind (peek_value 0) (\<lambda>receiver. act_bind (act_lift (as_addr method)) (\<lambda>m.
         act_bind (allocate (new_bound_method receiver m)) (\<lambda>b.
         act_bind pop (\<lambda>_. act_then (push (obj_value b)) (act_return True)))))))"

subsection \<open>Properties\<close>

definition is_valid_property_holder :: "jvalue \<Rightarrow> bool vm_action" where
  "is_valid_property_holder v =
     act_bind (is_type v OBJ_INSTANCE) (\<lambda>i. act_bind (is_type v OBJ_STRUCT) (\<lambda>s. act_return (i \<or> s)))"

text \<open>The frame is \<open>frames[frame_count - 1]\<close>.\<close>

definition report_property_error :: "string \<Rightarrow> unit vm_action" where
  "report_property_error msg =
     act_bind (act_get vm_frame_count) (\<lambda>n.
       if n = 0 then act_halt (Undefined ''frames[-1]'') else runtime_error_at (n - 1) msg)"

definition property_failure :: "string \<Rightarrow> interpret_result vm_action" where
  "property_failure msg = act_then (report_property_error msg) (act_return interpret_runtime_error)"

definition replace_top :: "jvalue \<Rightarrow> unit vm_action" where
  "replace_top v = act_bind pop (\<lambda>_. push v)"

definition as_result :: "bool \<Rightarrow> interpret_result" where
  "as_result b = (if b then interpret_ok else interpret_runtime_error)"

definition get_property :: "jvalue \<Rightarrow> string \<Rightarrow> interpret_result vm_action" where
  "get_property holder name =
     act_bind (is_type holder OBJ_INSTANCE) (\<lambda>is_instance. act_bind (is_type holder OBJ_STRUCT) (\<lambda>is_struct.
       if is_instance then
         act_bind (deref holder get_instance) (\<lambda>(_, i). act_bind (lookup (in_fields i) name) (\<lambda>v.
           if \<not> macro_is_null v then act_then (replace_top v) ok
           else act_bind (bind_method (in_klass i) name) (\<lambda>b. act_return (as_result b))))
       else if is_struct then
         act_bind (deref holder get_struct) (\<lambda>(_, s). act_bind (lookup (st_fields s) name) (\<lambda>v.
           if macro_is_null v then property_failure ''Undefined struct field''
           else act_then (replace_top v) ok))
       else act_return interpret_runtime_error))"

definition set_property :: "jvalue \<Rightarrow> string \<Rightarrow> jvalue \<Rightarrow> interpret_result vm_action" where
  "set_property holder name v =
     act_bind (is_type holder OBJ_INSTANCE) (\<lambda>is_instance. act_bind (is_type holder OBJ_STRUCT) (\<lambda>is_struct.
       if is_instance then
         act_bind (deref holder get_instance) (\<lambda>(a, i). act_bind (insert_entry (in_fields i) name v) (\<lambda>m.
           act_then (store_obj a (OInstance (i\<lparr>in_fields := m\<rparr>))) ok))
       else if is_struct then
         act_bind (deref holder get_struct) (\<lambda>(a, s).
         act_bind (act_lift (hashmap_contains_key hash_string (st_fields s) name)) (\<lambda>present.
           if \<not> present then property_failure ''Cannot set undefined struct field''
           else act_bind (insert_entry (st_fields s) name v) (\<lambda>m.
             act_then (store_obj a (OStruct (s\<lparr>st_fields := m\<rparr>))) ok)))
       else act_return interpret_runtime_error))"

text \<open>
  The enum branch answers an undefined member with \<open>interpret_runtime_error\<close>, which as a \<open>bool\<close>
  is true.
\<close>

definition get_layer_property :: "env \<Rightarrow> jvalue \<Rightarrow> string \<Rightarrow> bool vm_action" where
  "get_layer_property E receiver name =
     (if macro_is_obj receiver then
        act_bind (is_type receiver OBJ_ENUM) (\<lambda>is_enum. act_bind (is_type receiver OBJ_CLASS) (\<lambda>is_class.
          if is_enum then
            act_bind (deref receiver get_enum) (\<lambda>(e, enum). act_bind (lookup (en_members enum) name) (\<lambda>v.
              if macro_is_null v then act_then (runtime_error ''undefined property'') (act_return True)
              else act_bind (deref v get_pair) (\<lambda>(_, p).
                act_bind (allocate (new_enum_instance e name (macro_as_i32 (e_layout E) (pr_first p)) 0)) (\<lambda>i.
                act_then (replace_top (obj_value i)) (act_return True)))))
          else if is_class then
            act_bind (deref receiver get_class) (\<lambda>(_, k). act_bind (lookup (cls_methods k) name) (\<lambda>method.
              if \<not> macro_is_null method then act_then (replace_top method) (act_return True)
              else act_then (report_property_error ''Undefined static property'') (act_return False)))
          else act_then (report_property_error ''Unsupported type for layer access.'') (act_return False)))
      else
        act_bind (act_get vm_types) (\<lambda>types. act_bind (lookup types name) (\<lambda>t.
        act_bind (is_type t OBJ_CLASS) (\<lambda>is_class.
          if is_class then act_then (replace_top t) (act_return True)
          else act_then (report_property_error ''Undefined layer property'') (act_return False)))))"

subsection \<open>Definitions of members and methods\<close>

primrec pop_times :: "nat \<Rightarrow> unit vm_action" where
  "pop_times 0 = act_return ()"
| "pop_times (Suc n) = act_bind pop (\<lambda>_. pop_times n)"

text \<open>\<open>for (i = 0; i < store_count; i++) vec_push(values, *peek(self, 1 + i))\<close>\<close>

primrec push_peeked :: "nat \<Rightarrow> nat \<Rightarrow> vec \<Rightarrow> vec vm_action" where
  "push_peeked 0 i v = act_return v"
| "push_peeked (Suc n) i v =
     act_bind (peek_value (1 + i)) (\<lambda>x. act_bind (act_lift (vec_push v x)) (push_peeked n (i + 1)))"

definition add_enum_member :: "nat \<Rightarrow> enum_obj \<Rightarrow> string \<Rightarrow> jvalue \<Rightarrow> unit vm_action" where
  "add_enum_member e enum name second =
     act_bind (allocate (new_pair (VI32 (of_nat (hm_count (en_members enum)))) second)) (\<lambda>p.
     act_bind (insert_entry (en_members enum) name (obj_value p)) (\<lambda>m.
       store_obj e (OEnum (enum\<lparr>en_members := m\<rparr>))))"

definition define_enum_member :: "env \<Rightarrow> string \<Rightarrow> unit vm_action" where
  "define_enum_member E name =
     act_bind (peek_value 0) (\<lambda>v.
       let store_count = sint (macro_as_i32 (e_layout E) v) in
       if store_count < 1 then
         act_bind (peek_value 1) (\<lambda>w. act_bind (deref w get_enum) (\<lambda>(e, enum).
         act_then (add_enum_member e enum name VNone) (pop_times 1)))
       else
         let n = nat store_count in
         act_bind (peek_value (1 + n)) (\<lambda>w. act_bind (deref w get_enum) (\<lambda>(e, enum).
         act_bind (push_peeked n 0 new_vec) (\<lambda>xs.
         act_bind (allocate (allocate_object (OVec xs))) (\<lambda>a.
         act_then (add_enum_member e enum name (obj_value a)) (pop_times (n + 1)))))))"

definition define_member :: "string \<Rightarrow> unit vm_action" where
  "define_member name =
     act_bind (peek_value 0) (\<lambda>initializer. act_bind (peek_value 1) (\<lambda>w.
     act_bind (deref w get_struct) (\<lambda>(a, s).
     act_bind (on_heap (\<lambda>h. get_vec h (st_names s))) (\<lambda>names.
     act_bind (act_lift (vec_push names (string_value name))) (\<lambda>names.
     act_then (store_obj (st_names s) (OVec names))
     (act_bind (insert_entry (st_fields s) name initializer) (\<lambda>m.
     act_then (store_obj a (OStruct (s\<lparr>st_fields := m, st_count := st_count s + 1\<rparr>)))
       (pop_times 1))))))))"

definition define_method :: "string \<Rightarrow> unit vm_action" where
  "define_method name =
     act_bind (peek_value 0) (\<lambda>method. act_bind (peek_value 1) (\<lambda>w.
     act_bind (deref w get_class) (\<lambda>(a, k).
     act_bind (insert_entry (cls_methods k) name method) (\<lambda>m.
     act_then (store_obj a (OClass (k\<lparr>cls_methods := m\<rparr>))) (pop_times 1)))))"

subsection \<open>The machine's invariant\<close>

lemma keeps_lookup [keeps_ok]: "keeps machine_ok (lookup m name)"
  unfolding lookup_def by (rule keeps_lift)

lemma keeps_insert_entry [keeps_ok]: "keeps machine_ok (insert_entry m name v)"
  unfolding insert_entry_def by (intro keeps_intros keeps_ok)

lemma keeps_set_globals [keeps_ok]: "keeps machine_ok (set_globals m)"
  unfolding set_globals_def by (rule keeps_update) (simp add: machine_ok_def)

lemma keeps_report_false [keeps_ok]: "keeps machine_ok (report_false msg)"
  unfolding report_false_def by (intro keeps_intros keeps_ok)

lemma keeps_is_type [keeps_ok]: "keeps machine_ok (is_type v t)"
  unfolding is_type_def by (rule keeps_get)

lemma keeps_deref [keeps_ok]: "keeps machine_ok (deref v get)"
  unfolding deref_def by (intro keeps_intros keeps_ok)

lemma keeps_enter_frame:
  "keeps machine_ok (act_bind (act_get (\<lambda>vm. (vm_frame_count vm, vm_stack_top vm))) (\<lambda>(n, top).
     if n = frames_stack_max then report_false msg
     else if top < k then act_halt h
     else act_then (act_update (\<lambda>vm. vm\<lparr>vm_frame_count := n + 1\<rparr>))
       (act_then (set_frame n \<lparr>cf_slots = top - k, cf_closure = c, cf_ip = 0\<rparr>) (act_return True))))"
  unfolding keeps_def
proof (intro allI impI)
  fix vm :: vm and b vm'
  let ?n = "vm_frame_count vm"
  let ?rest = "act_then (set_frame ?n \<lparr>cf_slots = vm_stack_top vm - k, cf_closure = c, cf_ip = 0\<rparr>) (act_return True)"
  assume vm: "machine_ok vm" and r: "act_bind (act_get (\<lambda>vm. (vm_frame_count vm, vm_stack_top vm))) (\<lambda>(n, top).
     if n = frames_stack_max then report_false msg
     else if top < k then act_halt h
     else act_then (act_update (\<lambda>vm. vm\<lparr>vm_frame_count := n + 1\<rparr>))
       (act_then (set_frame n \<lparr>cf_slots = top - k, cf_closure = c, cf_ip = 0\<rparr>) (act_return True))) vm = Inr (b, vm')"
  show "machine_ok vm'"
  proof (cases "?n = frames_stack_max")
    case True
    then show ?thesis using r vm keepsD [OF keeps_report_false] by (simp add: act_bind_apply act_get_apply)
  next
    case False
    with vm have "machine_ok (vm\<lparr>vm_frame_count := ?n + 1\<rparr>)" by (simp add: machine_ok_def)
    moreover from False r have "?rest (vm\<lparr>vm_frame_count := ?n + 1\<rparr>) = Inr (b, vm')"
      by (simp add: act_bind_apply act_get_apply act_halt_apply act_then_apply [of "act_update _"] act_update_apply
          split: if_splits)
    moreover have "keeps machine_ok ?rest" using vm by (intro keeps_intros keeps_set_frame) (auto simp: machine_ok_def)
    ultimately show ?thesis by (blast dest: keepsD)
  qed
qed

lemma keeps_call [keeps_ok]: "keeps machine_ok (call closure n)"
  unfolding call_def by (intro keeps_bind keeps_if keeps_on_heap keeps_report_false keeps_enter_frame)

lemma keeps_fill_fields [keeps_ok]: "keeps machine_ok (fill_fields n names m)"
  by (induction n arbitrary: m) (auto intro!: keeps_intros keeps_ok)

lemma keeps_call_struct [keeps_ok]: "keeps machine_ok (call_struct s n)"
  unfolding call_struct_def by (intro keeps_intros keeps_ok)

lemma keeps_call_class [keeps_ok]: "keeps machine_ok (call_class a k n)"
  unfolding call_class_def by (intro keeps_intros keeps_ok)

lemma keeps_call_native [keeps_ok]: "keeps machine_ok (call_native E f n)"
  unfolding call_native_def by (intro keeps_intros keeps_ok)

lemma keeps_call_value [keeps_ok]: "keeps machine_ok (call_value E callee n)"
proof -
  have obj: "keeps machine_ok
      (case obj of
              Some (OStruct s) \<Rightarrow> call_struct s n
            | Some (OBoundMethod b) \<Rightarrow>
                act_then (write_below_top (n + 1) (bm_receiver b)) (call (bm_method b) n)
            | Some (OClass k) \<Rightarrow> call_class a k n
            | Some (OClosure c) \<Rightarrow> call a n
            | Some (ONative f) \<Rightarrow> call_native E f n
            | Some _ \<Rightarrow> report_false msg
            | None \<Rightarrow> act_halt h)" for obj a msg h
  proof (cases obj)
    case None
    then show ?thesis by (simp add: keeps_halt)
  next
    case (Some x)
    then show ?thesis by (cases x; simp only: option.case obj.case; intro keeps_intros keeps_ok)
  qed
  show ?thesis
  proof (cases "\<exists>a. callee = VObject (ObjRef a)")
    case True
    then obtain a where v: "callee = VObject (ObjRef a)" by blast
    show ?thesis
      unfolding v call_value_def jvalue.case objref.case by (rule keeps_bind [OF keeps_get obj])
  next
    case False
    then show ?thesis
      by (auto simp: call_value_def keeps_report_false split: jvalue.splits objref.splits)
  qed
qed

lemma keeps_invoke_from_class [keeps_ok]: "keeps machine_ok (invoke_from_class k name n)"
  unfolding invoke_from_class_def by (intro keeps_intros keeps_ok)

lemma keeps_invoke [keeps_ok]: "keeps machine_ok (invoke E name n)"
  unfolding invoke_def by (intro keeps_intros keeps_ok)

lemma keeps_bind_method [keeps_ok]: "keeps machine_ok (bind_method k name)"
  unfolding bind_method_def by (intro keeps_intros keeps_ok)

lemma keeps_report_property_error [keeps_ok]: "keeps machine_ok (report_property_error msg)"
  unfolding report_property_error_def by (intro keeps_intros keeps_ok)

lemma keeps_property_failure [keeps_ok]: "keeps machine_ok (property_failure msg)"
  unfolding property_failure_def by (intro keeps_intros keeps_ok)

lemma keeps_replace_top [keeps_ok]: "keeps machine_ok (replace_top v)"
  unfolding replace_top_def by (intro keeps_intros keeps_ok)

lemma keeps_is_valid_property_holder [keeps_ok]: "keeps machine_ok (is_valid_property_holder v)"
  unfolding is_valid_property_holder_def by (intro keeps_intros keeps_ok)

lemma keeps_get_property [keeps_ok]: "keeps machine_ok (get_property v name)"
  unfolding get_property_def by (intro keeps_intros keeps_ok)

lemma keeps_set_property [keeps_ok]: "keeps machine_ok (set_property v name x)"
  unfolding set_property_def by (intro keeps_intros keeps_ok)

lemma keeps_get_layer_property [keeps_ok]: "keeps machine_ok (get_layer_property E v name)"
  unfolding get_layer_property_def by (intro keeps_intros keeps_ok)

lemma keeps_pop_times [keeps_ok]: "keeps machine_ok (pop_times n)"
  by (induction n) (auto intro!: keeps_intros keeps_ok)

lemma keeps_push_peeked [keeps_ok]: "keeps machine_ok (push_peeked n i v)"
  by (induction n arbitrary: i v) (auto intro!: keeps_intros keeps_ok)

lemma keeps_add_enum_member [keeps_ok]: "keeps machine_ok (add_enum_member e enum name v)"
  unfolding add_enum_member_def by (intro keeps_intros keeps_ok)

lemma keeps_define_enum_member [keeps_ok]: "keeps machine_ok (define_enum_member E name)"
  unfolding define_enum_member_def by (intro keeps_intros keeps_ok)

lemma keeps_define_member [keeps_ok]: "keeps machine_ok (define_member name)"
  unfolding define_member_def by (intro keeps_intros keeps_ok)

lemma keeps_define_method [keeps_ok]: "keeps machine_ok (define_method name)"
  unfolding define_method_def by (intro keeps_intros keeps_ok)

end
