(* ===== verification/Joker_Handlers.thy ===== *)
theory Joker_Handlers
  imports Joker_Call
begin

text \<open>
  The instruction handlers \<open>handle_op_*\<close> of src/vm.c, with \<open>read_binary\<close>, \<open>read_unary\<close>, \<open>negate\<close>,
  \<open>not_\<close> and \<open>is_falsey\<close>. \<open>fp\<close> is the index of the frame the handler is given.
\<close>

subsection \<open>Operators\<close>

definition coerce_slots :: "env \<Rightarrow> operator \<Rightarrow> nat \<Rightarrow> nat \<Rightarrow> unit vm_action" where
  "coerce_slots E op lhs rhs =
     act_bind (read_slot lhs) (\<lambda>l. act_bind (read_slot rhs) (\<lambda>r.
     act_bind (act_with (\<lambda>vm. coerce_types (e_layout E) (obj_vtable (vm_heap vm)) (e_fmt E) op l r)) (\<lambda>(l, r).
       act_then (write_slot lhs l) (write_slot rhs r))))"

text \<open>
  What a handler of \<open>Joker_Arith\<close> decides, carried out: the value goes to the left slot, or the
  error is reported, without a line number except for an unknown type.
\<close>

definition finish_basic :: "nat \<Rightarrow> nat \<Rightarrow> arith_result \<Rightarrow> interpret_result vm_action" where
  "finish_basic fp lhs result =
     (case result of
        Result v \<Rightarrow> act_then (write_slot lhs v) (act_bind pop (\<lambda>_. ok))
      | Error msg \<Rightarrow> if msg = ''Unsupported operand types'' then fail_at fp msg else fail_with msg)"

definition read_binary :: "env \<Rightarrow> operator \<Rightarrow> nat \<Rightarrow> interpret_result vm_action" where
  "read_binary E op fp =
     act_bind (peek_slot 0) (\<lambda>rhs. act_bind (peek_slot 1) (\<lambda>lhs.
       if \<not> MACRO_IN_BINARY_OP op then fail_with ''Invalid operands or operator''
       else act_then (coerce_slots E op lhs rhs)
         (act_bind (read_slot lhs) (\<lambda>l.
            case l of
              VObject r \<Rightarrow>
                act_bind (act_get (\<lambda>vm. obj_vtable (vm_heap vm) r)) (\<lambda>vt.
                act_bind (binary_handler E vt op lhs rhs) (\<lambda>done.
                  if done then act_bind pop (\<lambda>_. ok) else fail_at fp ''Operator not supported''))
            | _ \<Rightarrow>
                act_bind (read_slot rhs) (\<lambda>r.
                act_bind (act_lift (binary_basic (e_layout E) op l r)) (finish_basic fp lhs))))))"

text \<open>No table holds a unary operator, so an object is always refused.\<close>

definition read_unary :: "operator \<Rightarrow> nat \<Rightarrow> interpret_result vm_action" where
  "read_unary op fp =
     act_bind (peek_slot 0) (\<lambda>slot.
       if \<not> MACRO_IN_UNARY_OP op then fail_with ''Invalid operands or operator''
       else act_bind (read_slot slot) (\<lambda>v.
         case v of
           VObject r \<Rightarrow> fail_at fp ''Operator not supported''
         | _ \<Rightarrow> act_bind (act_lift (unary_basic op v)) (\<lambda>result.
             case result of
               Result w \<Rightarrow> act_then (write_slot slot w) ok
             | Error msg \<Rightarrow> if msg = ''Unsupported operand types'' then fail_at fp msg else fail_with msg)))"

definition update_top :: "nat \<Rightarrow> (jvalue \<Rightarrow> arith_result outcome) \<Rightarrow> interpret_result vm_action" where
  "update_top fp f =
     act_bind (act_get vm_stack_top) (\<lambda>top.
       if top = 0 then act_halt (Panic ''stack underflow'')
       else act_bind (peek_slot 0) (\<lambda>slot. act_bind (read_slot slot) (\<lambda>v.
         act_bind (act_lift (f v)) (\<lambda>result.
           case result of
             Result w \<Rightarrow> act_then (write_slot slot w) ok
           | Error msg \<Rightarrow> fail_at fp msg))))"

definition is_falsey :: "jvalue \<Rightarrow> bool vm_action" where
  "is_falsey v =
     (case v of
        VBool b \<Rightarrow> act_return (\<not> b)
      | _ \<Rightarrow> act_then (runtime_error ''Expected boolean for not operation'') (act_return False))"

subsection \<open>Constants and the stack\<close>

definition push_ok :: "jvalue \<Rightarrow> interpret_result vm_action" where
  "push_ok v = act_then (push v) ok"

definition handle_op_pop :: "nat \<Rightarrow> interpret_result vm_action" where
  "handle_op_pop fp = act_bind pop (\<lambda>_. ok)"

definition handle_op_dup :: "nat \<Rightarrow> interpret_result vm_action" where
  "handle_op_dup fp = act_bind (peek_value 0) push_ok"

definition handle_op_constant :: "nat \<Rightarrow> interpret_result vm_action" where
  "handle_op_constant fp = act_bind (read_constant fp) push_ok"

definition handle_op_constant_long :: "nat \<Rightarrow> interpret_result vm_action" where
  "handle_op_constant_long fp = act_bind (read_constant_long fp) push_ok"

definition handle_op_value :: "nat \<Rightarrow> interpret_result vm_action" where
  "handle_op_value fp = act_bind (read_byte fp) (\<lambda>b. push_ok (VI32 (ucast b)))"

definition handle_op_none :: "nat \<Rightarrow> interpret_result vm_action" where
  "handle_op_none fp = push_ok VNone"

definition handle_op_true :: "nat \<Rightarrow> interpret_result vm_action" where
  "handle_op_true fp = push_ok (VBool True)"

definition handle_op_false :: "nat \<Rightarrow> interpret_result vm_action" where
  "handle_op_false fp = push_ok (VBool False)"

definition handle_op_not :: "nat \<Rightarrow> interpret_result vm_action" where
  "handle_op_not fp = update_top fp not_value"

definition handle_op_negate :: "nat \<Rightarrow> interpret_result vm_action" where
  "handle_op_negate fp = update_top fp negate"

subsection \<open>Variables\<close>

definition handle_op_define_global :: "nat \<Rightarrow> interpret_result vm_action" where
  "handle_op_define_global fp =
     act_bind (read_string fp) (\<lambda>identifier. act_bind (peek_value 0) (\<lambda>v.
     act_bind (act_get vm_globals) (\<lambda>globals. act_bind (insert_entry globals identifier v) (\<lambda>globals.
     act_then (set_globals globals) (act_bind pop (\<lambda>_. ok))))))"

definition handle_op_get_global :: "nat \<Rightarrow> interpret_result vm_action" where
  "handle_op_get_global fp =
     act_bind (read_string fp) (\<lambda>identifier.
     act_bind (act_get vm_globals) (\<lambda>globals. act_bind (lookup globals identifier) (\<lambda>v.
       if macro_is_null v then fail_at fp ''undefined global variable'' else push_ok v)))"

text \<open>
  The entry \<open>hashmap_get_entry\<close> points to is inside the table, which may have grown; it is written
  in place, key and count as they are.
\<close>

definition handle_op_set_global :: "nat \<Rightarrow> interpret_result vm_action" where
  "handle_op_set_global fp =
     act_bind (read_string fp) (\<lambda>identifier.
     act_bind (act_with (\<lambda>vm. hashmap_get_entry hash_string (vm_globals vm) identifier)) (\<lambda>(globals, i).
     act_then (set_globals globals)
       (if is_empty_entry (hm_entries globals ! i) then fail_at fp ''undefined global variable''
        else act_bind (peek_value 0) (\<lambda>v.
          act_then (set_globals (globals\<lparr>hm_entries :=
              (hm_entries globals)[i := (hm_entries globals ! i)\<lparr>e_value := v\<rparr>]\<rparr>)) ok))))"

definition frame_slot :: "nat \<Rightarrow> nat \<Rightarrow> nat vm_action" where
  "frame_slot fp i = act_bind (frame_at fp) (\<lambda>f. act_return (cf_slots f + i))"

definition handle_op_get_local :: "nat \<Rightarrow> interpret_result vm_action" where
  "handle_op_get_local fp =
     act_bind (read_byte fp) (\<lambda>slot. act_bind (frame_slot fp (unat slot)) (\<lambda>i. act_bind (read_slot i) (\<lambda>v.
       if macro_is_null v then fail_at fp ''undefined local variable'' else push_ok v)))"

definition handle_op_set_local :: "nat \<Rightarrow> interpret_result vm_action" where
  "handle_op_set_local fp =
     act_bind (read_byte fp) (\<lambda>slot. act_bind (frame_slot fp (unat slot)) (\<lambda>i.
     act_bind (peek_value 0) (\<lambda>v. act_then (write_slot i v) ok)))"

text \<open>\<open>frame->closure->upvalue_ptrs[slot]\<close>\<close>

definition frame_upvalue :: "nat \<Rightarrow> nat \<Rightarrow> nat option vm_action" where
  "frame_upvalue fp i =
     act_bind (frame_at fp) (\<lambda>f. act_bind (on_heap (\<lambda>h. get_closure h (cf_closure f))) (\<lambda>c.
       if length (cl_upvalue_ptrs c) \<le> i then act_halt (Undefined ''upvalue_ptrs out of bounds'')
       else act_return (cl_upvalue_ptrs c ! i)))"

definition frame_upvalue_ptr :: "nat \<Rightarrow> nat \<Rightarrow> nat vm_action" where
  "frame_upvalue_ptr fp i =
     act_bind (frame_upvalue fp i) (\<lambda>p.
       case p of None \<Rightarrow> act_halt (Undefined ''null upvalue'') | Some a \<Rightarrow> act_return a)"

definition handle_op_get_upvalue :: "nat \<Rightarrow> interpret_result vm_action" where
  "handle_op_get_upvalue fp =
     act_bind (read_byte fp) (\<lambda>slot. act_bind (frame_upvalue_ptr fp (unat slot)) (\<lambda>a.
     act_bind (read_upvalue a) push_ok))"

definition handle_op_set_upvalue :: "nat \<Rightarrow> interpret_result vm_action" where
  "handle_op_set_upvalue fp =
     act_bind (read_byte fp) (\<lambda>slot. act_bind (frame_upvalue_ptr fp (unat slot)) (\<lambda>a.
     act_bind (peek_value 0) (\<lambda>v. act_then (write_upvalue a v) ok)))"

subsection \<open>Properties\<close>

definition handle_op_get_property :: "nat \<Rightarrow> interpret_result vm_action" where
  "handle_op_get_property fp =
     act_bind (read_string fp) (\<lambda>name. act_bind (peek_value 0) (\<lambda>holder.
     act_bind (is_valid_property_holder holder) (\<lambda>valid.
       if \<not> valid then fail_with ''Property access on non-object type.''
       else act_bind (get_property holder name) (\<lambda>r.
         act_return (if r \<noteq> interpret_ok then interpret_runtime_error else interpret_ok)))))"

definition handle_op_set_property :: "nat \<Rightarrow> interpret_result vm_action" where
  "handle_op_set_property fp =
     act_bind (read_string fp) (\<lambda>name. act_bind (peek_value 0) (\<lambda>v. act_bind (peek_value 1) (\<lambda>holder.
     act_bind (is_valid_property_holder holder) (\<lambda>valid.
       if \<not> valid then fail_with ''Cannot set property on non-object type.''
       else act_bind (set_property holder name v) (\<lambda>r.
         if r \<noteq> interpret_ok then act_return r
         else act_bind pop (\<lambda>_. act_bind pop (\<lambda>_. push_ok v)))))))"

definition handle_op_get_super :: "nat \<Rightarrow> interpret_result vm_action" where
  "handle_op_get_super fp =
     act_bind (read_string fp) (\<lambda>name. act_bind pop (\<lambda>v. act_bind (act_lift (as_addr v)) (\<lambda>k.
     act_bind (bind_method k name) (\<lambda>b. act_return (as_result b)))))"

definition handle_op_get_layer_property :: "env \<Rightarrow> nat \<Rightarrow> interpret_result vm_action" where
  "handle_op_get_layer_property E fp =
     act_bind (peek_value 0) (\<lambda>v. act_bind (read_string fp) (\<lambda>name.
     act_bind (get_layer_property E v name) (\<lambda>b. act_return (as_result b))))"

definition handle_op_get_type :: "nat \<Rightarrow> interpret_result vm_action" where
  "handle_op_get_type fp =
     act_bind (read_string fp) (\<lambda>identifier. act_bind (act_get vm_types) (\<lambda>types.
     act_bind (lookup types identifier) (\<lambda>t.
       if macro_is_null t then fail_at fp ''undefined global type variable'' else push_ok t)))"

subsection \<open>Jumps\<close>

definition handle_op_jump_if_false :: "nat \<Rightarrow> interpret_result vm_action" where
  "handle_op_jump_if_false fp =
     act_bind (read_short fp) (\<lambda>offset. act_bind (peek_value 0) (\<lambda>v. act_bind (is_falsey v) (\<lambda>b.
       act_then (if b then jump_forward fp offset else act_return ()) ok)))"

definition handle_op_jump_if_neq :: "nat \<Rightarrow> interpret_result vm_action" where
  "handle_op_jump_if_neq fp =
     act_bind pop (\<lambda>pattern. act_bind pop (\<lambda>matched. act_bind (vm_values_equal matched pattern) (\<lambda>eq.
     act_then
       (if \<not> eq then act_bind (read_short fp) (jump_forward fp) else jump_forward fp 2)
       (push_ok matched))))"

definition handle_op_jump :: "nat \<Rightarrow> interpret_result vm_action" where
  "handle_op_jump fp = act_bind (read_short fp) (\<lambda>offset. act_then (jump_forward fp offset) ok)"

definition handle_op_loop :: "nat \<Rightarrow> interpret_result vm_action" where
  "handle_op_loop fp = act_bind (read_short fp) (\<lambda>offset. act_then (jump_back fp offset) ok)"

definition handle_op_break :: "nat \<Rightarrow> interpret_result vm_action" where
  "handle_op_break fp = act_bind (read_short fp) (\<lambda>offset. act_then (jump_forward fp offset) ok)"

definition handle_op_continue :: "nat \<Rightarrow> interpret_result vm_action" where
  "handle_op_continue fp = act_bind (read_short fp) (\<lambda>offset. act_then (jump_back fp offset) ok)"

definition handle_op_match :: "nat \<Rightarrow> interpret_result vm_action" where
  "handle_op_match fp = act_bind (read_short fp) (\<lambda>_. ok)"

subsection \<open>Functions and closures\<close>

definition handle_op_call :: "env \<Rightarrow> nat \<Rightarrow> interpret_result vm_action" where
  "handle_op_call E fp =
     act_bind (read_byte fp) (\<lambda>b. act_bind (peek_value (unat b)) (\<lambda>callee.
     act_bind (call_value E callee (unat b)) (\<lambda>r. act_return (as_result r))))"

definition set_upvalue_ptr :: "nat \<Rightarrow> nat \<Rightarrow> nat option \<Rightarrow> unit vm_action" where
  "set_upvalue_ptr closure i p =
     act_bind (on_heap (\<lambda>h. get_closure h closure)) (\<lambda>c.
       store_obj closure (OClosure (c\<lparr>cl_upvalue_ptrs := (cl_upvalue_ptrs c)[i := p]\<rparr>)))"

text \<open>The loop over the upvalues of a new closure, with \<open>n\<close> of them left.\<close>

primrec fill_upvalues :: "nat \<Rightarrow> env \<Rightarrow> nat \<Rightarrow> nat \<Rightarrow> nat \<Rightarrow> unit vm_action" where
  "fill_upvalues 0 E fp closure i = act_return ()"
| "fill_upvalues (Suc n) E fp closure i =
     act_bind (read_byte fp) (\<lambda>info.
       let is_local = (drop_bit 7 info \<noteq> 0); index = unat (info AND 127) in
       act_bind (if is_local then
                   act_bind (frame_slot fp index) (\<lambda>slot.
                   act_bind (capture_upvalue E slot) (\<lambda>a. act_return (Some a)))
                 else frame_upvalue fp index)
       (\<lambda>p. act_then (set_upvalue_ptr closure i p) (fill_upvalues n E fp closure (i + 1))))"

definition handle_op_closure :: "env \<Rightarrow> nat \<Rightarrow> interpret_result vm_action" where
  "handle_op_closure E fp =
     act_bind (read_constant fp) (\<lambda>v. act_bind (act_lift (as_addr v)) (\<lambda>fn.
     act_bind (allocate_outcome (new_closure fn)) (\<lambda>c. act_then (push (obj_value c))
     (act_bind (on_heap (\<lambda>h. get_closure h c)) (\<lambda>closure.
       act_then (fill_upvalues (length (cl_upvalue_ptrs closure)) E fp c 0) ok)))))"

definition handle_op_close_upvalue :: "env \<Rightarrow> nat \<Rightarrow> interpret_result vm_action" where
  "handle_op_close_upvalue E fp =
     act_bind (act_get vm_stack_top) (\<lambda>top.
       if top = 0 then act_halt (Undefined ''stack[-1]'')
       else act_then (close_upvalues E (top - 1)) (act_bind pop (\<lambda>_. ok)))"

definition handle_op_print :: "nat \<Rightarrow> interpret_result vm_action" where
  "handle_op_print fp =
     act_bind pop (\<lambda>v. act_then (act_update (\<lambda>vm. vm\<lparr>vm_printed := vm_printed vm @ [v]\<rparr>)) ok)"

definition handle_op_return :: "env \<Rightarrow> nat \<Rightarrow> interpret_result vm_action" where
  "handle_op_return E fp =
     act_bind pop (\<lambda>result. act_bind (frame_at fp) (\<lambda>f.
     act_then (close_upvalues E (cf_slots f))
     (act_bind (act_get vm_frame_count) (\<lambda>n.
       if n = 0 then act_halt (Undefined ''frames[-2]'')
       else act_then (act_update (\<lambda>vm. vm\<lparr>vm_frame_count := n - 1\<rparr>))
         (if n = 1 then ok
          else act_then (act_update (\<lambda>vm. vm\<lparr>vm_stack_top := cf_slots f\<rparr>))
            (act_then (push result) (act_return interpret_passed)))))))"

subsection \<open>The machine's invariant\<close>

lemma keeps_coerce_slots [keeps_ok]: "keeps machine_ok (coerce_slots E op l r)"
  unfolding coerce_slots_def by (intro keeps_intros keeps_ok)

lemma keeps_arith_result:
  "(\<And>v. keeps P (f v)) \<Longrightarrow> (\<And>m. keeps P (g m)) \<Longrightarrow> keeps P (case r of Result v \<Rightarrow> f v | Error m \<Rightarrow> g m)"
  by (cases r) simp_all

lemma keeps_object_value:
  "(\<And>r. keeps P (f r)) \<Longrightarrow> keeps P m \<Longrightarrow> keeps P (case v of VObject r \<Rightarrow> f r | _ \<Rightarrow> m)"
  by (cases v) simp_all

lemma keeps_finish_basic [keeps_ok]: "keeps machine_ok (finish_basic fp l r)"
  unfolding finish_basic_def by (intro keeps_intros keeps_arith_result keeps_ok)

lemma keeps_read_binary [keeps_ok]: "keeps machine_ok (read_binary E op fp)"
  unfolding read_binary_def by (intro keeps_intros keeps_object_value keeps_ok)

lemma keeps_read_unary [keeps_ok]: "keeps machine_ok (read_unary op fp)"
  unfolding read_unary_def by (intro keeps_intros keeps_object_value keeps_arith_result keeps_ok)

lemma keeps_update_top [keeps_ok]: "keeps machine_ok (update_top fp f)"
  unfolding update_top_def by (intro keeps_intros keeps_arith_result keeps_ok)

lemma keeps_is_falsey [keeps_ok]: "keeps machine_ok (is_falsey v)"
  unfolding is_falsey_def by (cases v; simp only: jvalue.case; intro keeps_intros keeps_ok)

lemma keeps_push_ok [keeps_ok]: "keeps machine_ok (push_ok v)"
  unfolding push_ok_def by (intro keeps_intros keeps_ok)

lemma keeps_frame_slot [keeps_ok]: "keeps machine_ok (frame_slot fp i)"
  unfolding frame_slot_def by (intro keeps_intros keeps_ok)

lemma keeps_frame_upvalue [keeps_ok]: "keeps machine_ok (frame_upvalue fp i)"
  unfolding frame_upvalue_def by (intro keeps_intros keeps_ok)

lemma keeps_frame_upvalue_ptr [keeps_ok]: "keeps machine_ok (frame_upvalue_ptr fp i)"
  unfolding frame_upvalue_ptr_def by (intro keeps_intros keeps_ok)

lemma keeps_set_upvalue_ptr [keeps_ok]: "keeps machine_ok (set_upvalue_ptr c i p)"
  unfolding set_upvalue_ptr_def by (intro keeps_intros keeps_ok)

lemma keeps_fill_upvalues [keeps_ok]: "keeps machine_ok (fill_upvalues n E fp c i)"
  by (induction n arbitrary: i) (auto simp: Let_def intro!: keeps_intros keeps_ok)

lemmas simple_handler_defs =
  handle_op_pop_def handle_op_dup_def handle_op_constant_def handle_op_constant_long_def
  handle_op_value_def handle_op_none_def handle_op_true_def handle_op_false_def handle_op_not_def
  handle_op_negate_def handle_op_define_global_def handle_op_get_global_def
  handle_op_set_global_def handle_op_get_local_def handle_op_set_local_def
  handle_op_get_upvalue_def handle_op_set_upvalue_def handle_op_get_property_def
  handle_op_set_property_def handle_op_get_super_def handle_op_get_layer_property_def
  handle_op_get_type_def handle_op_jump_if_false_def handle_op_jump_if_neq_def handle_op_jump_def
  handle_op_loop_def handle_op_break_def handle_op_continue_def handle_op_match_def
  handle_op_call_def handle_op_closure_def handle_op_close_upvalue_def

lemma keeps_handlers [keeps_ok]:
  "keeps machine_ok (handle_op_pop fp)" "keeps machine_ok (handle_op_dup fp)"
  "keeps machine_ok (handle_op_constant fp)" "keeps machine_ok (handle_op_constant_long fp)"
  "keeps machine_ok (handle_op_value fp)" "keeps machine_ok (handle_op_none fp)"
  "keeps machine_ok (handle_op_true fp)" "keeps machine_ok (handle_op_false fp)"
  "keeps machine_ok (handle_op_not fp)" "keeps machine_ok (handle_op_negate fp)"
  "keeps machine_ok (handle_op_define_global fp)" "keeps machine_ok (handle_op_get_global fp)"
  "keeps machine_ok (handle_op_set_global fp)" "keeps machine_ok (handle_op_get_local fp)"
  "keeps machine_ok (handle_op_set_local fp)" "keeps machine_ok (handle_op_get_upvalue fp)"
  "keeps machine_ok (handle_op_set_upvalue fp)" "keeps machine_ok (handle_op_get_property fp)"
  "keeps machine_ok (handle_op_set_property fp)" "keeps machine_ok (handle_op_get_super fp)"
  "keeps machine_ok (handle_op_get_layer_property E fp)" "keeps machine_ok (handle_op_get_type fp)"
  "keeps machine_ok (handle_op_jump_if_false fp)" "keeps machine_ok (handle_op_jump_if_neq fp)"
  "keeps machine_ok (handle_op_jump fp)" "keeps machine_ok (handle_op_loop fp)"
  "keeps machine_ok (handle_op_break fp)" "keeps machine_ok (handle_op_continue fp)"
  "keeps machine_ok (handle_op_match fp)" "keeps machine_ok (handle_op_call E fp)"
  "keeps machine_ok (handle_op_closure E fp)" "keeps machine_ok (handle_op_close_upvalue E fp)"
  unfolding simple_handler_defs by (intro keeps_intros keeps_ok)+

lemma keeps_handle_op_print [keeps_ok]: "keeps machine_ok (handle_op_print fp)"
  unfolding handle_op_print_def
  by (intro keeps_intros keeps_ok keeps_update) (simp add: machine_ok_def)

lemma keeps_handle_op_return [keeps_ok]: "keeps machine_ok (handle_op_return E fp)"
  unfolding keeps_def
proof (intro allI impI)
  fix vm r vm'
  let ?rest = "\<lambda>f result. act_bind (act_get vm_frame_count) (\<lambda>n.
       if n = 0 then act_halt (Undefined ''frames[-2]'')
       else act_then (act_update (\<lambda>vm. vm\<lparr>vm_frame_count := n - 1\<rparr>))
         (if n = 1 then ok
          else act_then (act_update (\<lambda>vm. vm\<lparr>vm_stack_top := cf_slots f\<rparr>))
            (act_then (push result) (act_return interpret_passed))))"
  assume vm: "machine_ok vm" and "handle_op_return E fp vm = Inr (r, vm')"
  then obtain result vm1 f vm2 where p: "pop vm = Inr (result, vm1)"
    "buf_read (vm_frames vm1) fp = Inr f" "close_upvalues E (cf_slots f) vm1 = Inr ((), vm2)"
    "?rest f result vm2 = Inr (r, vm')"
    by (auto simp: handle_op_return_def frame_at_def act_bind_apply act_then_apply act_with_apply andThen_Inr_iff)
  have vm1: "machine_ok vm1" by (rule keepsD [OF keeps_pop vm p(1)])
  have vm2: "machine_ok vm2" by (rule keepsD [OF keeps_close_upvalues vm1 p(3)])
  have slots: "cf_slots f \<le> constant_stack_max"
    using vm1 p(2) by (auto simp: machine_ok_def dest: buf_read_set)
  have "keeps machine_ok (act_then (push result) (act_return interpret_passed))"
    by (intro keeps_intros keeps_ok)
  moreover have "machine_ok (vm2\<lparr>vm_frame_count := vm_frame_count vm2 - 1, vm_stack_top := cf_slots f\<rparr>)"
    using vm2 slots by (auto simp: machine_ok_def)
  moreover have "machine_ok (vm2\<lparr>vm_frame_count := vm_frame_count vm2 - 1\<rparr>)"
    using vm2 by (auto simp: machine_ok_def)
  ultimately show "machine_ok vm'"
    using p(4) by (auto simp: act_bind_apply act_get_apply act_halt_apply ok_def act_return_apply
        act_then_apply [of "act_update _"] act_update_apply split: if_splits dest: keepsD)
qed

end
