(* ===== verification/Joker_Objects.thy ===== *)
theory Joker_Objects
  imports Joker_Handlers
begin

text \<open>
  The instruction handlers of src/vm.c for classes, structs, enums and vectors.
\<close>

subsection \<open>Classes\<close>

definition handle_op_class :: "nat \<Rightarrow> interpret_result vm_action" where
  "handle_op_class fp =
     act_bind (read_string fp) (\<lambda>name. act_bind (allocate (new_class name)) (\<lambda>a. push_ok (obj_value a)))"

definition handle_op_method :: "nat \<Rightarrow> interpret_result vm_action" where
  "handle_op_method fp = act_bind (read_string fp) (\<lambda>name. act_then (define_method name) ok)"

definition handle_op_inherit :: "nat \<Rightarrow> interpret_result vm_action" where
  "handle_op_inherit fp =
     act_bind (peek_value 1) (\<lambda>superclass. act_bind (is_type superclass OBJ_CLASS) (\<lambda>is_class.
       if \<not> is_class then fail_at fp ''superclass must be a class''
       else act_bind (peek_value 0) (\<lambda>v. act_bind (deref v get_class) (\<lambda>(a, klass).
         act_bind (deref superclass get_class) (\<lambda>(_, super).
         act_bind (act_lift (hashmap_add_all hash_string (cls_methods super) (cls_methods klass))) (\<lambda>m.
         act_then (store_obj a (OClass (klass\<lparr>cls_methods := m\<rparr>))) (act_bind pop (\<lambda>_. ok))))))))"

definition handle_op_invoke :: "env \<Rightarrow> nat \<Rightarrow> interpret_result vm_action" where
  "handle_op_invoke E fp =
     act_bind (read_string fp) (\<lambda>name. act_bind (read_byte fp) (\<lambda>b.
     act_bind (invoke E name (unat b)) (\<lambda>r. act_return (as_result r))))"

definition handle_op_super_invoke :: "nat \<Rightarrow> interpret_result vm_action" where
  "handle_op_super_invoke fp =
     act_bind (read_string fp) (\<lambda>name. act_bind (read_byte fp) (\<lambda>b. act_bind pop (\<lambda>v.
     act_bind (act_lift (as_addr v)) (\<lambda>super. act_bind (invoke_from_class super name (unat b)) (\<lambda>r.
       if r then ok else fail_at fp ''undefined superclass method'')))))"

subsection \<open>Structs\<close>

definition handle_op_struct :: "nat \<Rightarrow> interpret_result vm_action" where
  "handle_op_struct fp =
     act_bind (read_string fp) (\<lambda>name. act_bind (allocate (new_struct name)) (\<lambda>a. push_ok (obj_value a)))"

definition handle_op_member :: "nat \<Rightarrow> interpret_result vm_action" where
  "handle_op_member fp = act_bind (read_string fp) (\<lambda>name. act_then (define_member name) ok)"

definition handle_op_struct_inherit :: "nat \<Rightarrow> interpret_result vm_action" where
  "handle_op_struct_inherit fp =
     act_bind (peek_value 1) (\<lambda>w. act_bind (is_type w OBJ_STRUCT) (\<lambda>is_struct.
       if \<not> is_struct then fail_at fp ''super must be a struct''
       else act_bind (deref w get_struct) (\<lambda>(_, super). act_bind (peek_value 0) (\<lambda>v.
         act_bind (deref v get_struct) (\<lambda>(a, s).
         act_bind (act_lift (hashmap_add_all hash_string (st_fields super) (st_fields s))) (\<lambda>m.
         act_bind (on_heap (\<lambda>h. get_vec h (st_names s))) (\<lambda>names.
         act_bind (on_heap (\<lambda>h. get_vec h (st_names super))) (\<lambda>super_names.
         act_bind (act_lift (vec_extend names super_names)) (\<lambda>names.
         act_then (store_obj (st_names s) (OVec names))
         (act_then (store_obj a (OStruct (s\<lparr>st_fields := m, st_count := st_count super\<rparr>)))
           (act_bind pop (\<lambda>_. ok))))))))))))"

subsection \<open>Enums\<close>

definition handle_op_enum :: "nat \<Rightarrow> interpret_result vm_action" where
  "handle_op_enum fp =
     act_bind (read_string fp) (\<lambda>name. act_bind (allocate (new_enum name)) (\<lambda>a. push_ok (obj_value a)))"

definition handle_op_enum_define_member :: "env \<Rightarrow> nat \<Rightarrow> interpret_result vm_action" where
  "handle_op_enum_define_member E fp =
     act_bind (read_string fp) (\<lambda>name. act_then (define_enum_member E name) ok)"

definition handle_op_enum_get_member :: "nat \<Rightarrow> interpret_result vm_action" where
  "handle_op_enum_get_member fp = act_bind (read_string fp) (\<lambda>name. push_ok (string_value name))"

primrec bind_members :: "nat \<Rightarrow> nat \<Rightarrow> unit vm_action" where
  "bind_members 0 fp = act_return ()"
| "bind_members (Suc n) fp =
     act_bind (read_byte fp) (\<lambda>index. act_bind (peek_value n) (\<lambda>v.
     act_bind (frame_slot fp (unat index)) (\<lambda>i. act_then (write_slot i v) (bind_members n fp))))"

definition handle_op_enum_member_bind :: "nat \<Rightarrow> interpret_result vm_action" where
  "handle_op_enum_member_bind fp =
     act_bind (read_byte fp) (\<lambda>bind_count. act_then (bind_members (unat bind_count) fp) ok)"

primrec push_all :: "nat \<Rightarrow> nat \<Rightarrow> vec \<Rightarrow> unit vm_action" where
  "push_all 0 i v = act_return ()"
| "push_all (Suc n) i v =
     act_bind (act_lift (vec_get v i)) (\<lambda>x. act_then (push x) (push_all n (i + 1) v))"

text \<open>\<open>enum_values_is_empty\<close>, then the pushes.\<close>

definition push_values :: "vec option \<Rightarrow> unit vm_action" where
  "push_values vs = (case vs of None \<Rightarrow> act_return () | Some v \<Rightarrow> push_all (vec_len v) 0 v)"

definition handle_op_enum_member_match :: "nat \<Rightarrow> interpret_result vm_action" where
  "handle_op_enum_member_match fp =
     act_bind pop (\<lambda>m. act_bind (act_lift (as_string m)) (\<lambda>member.
     act_bind pop (\<lambda>pattern. act_bind pop (\<lambda>matched. act_then (push matched)
     (act_bind (deref matched get_enum_instance) (\<lambda>(_, inst).
     act_bind (if ei_name inst = member
               then act_bind (act_lift (as_addr pattern)) (\<lambda>e. act_return (e = ei_enum_type inst))
               else act_return False) (\<lambda>matches.
       act_then
         (if matches then act_then (jump_forward fp 2) (push_values (ei_values inst))
          else act_bind (read_short fp) (jump_forward fp))
         ok)))))))"

text \<open>\<open>for (i = arg_count - 1; i >= 0; i--) vec_set(instance->values, i, pop(self))\<close>\<close>

primrec pop_into :: "nat \<Rightarrow> vec \<Rightarrow> vec vm_action" where
  "pop_into 0 v = act_return v"
| "pop_into (Suc i) v = act_bind pop (\<lambda>x. act_bind (act_lift (vec_set v i x)) (pop_into i))"

definition call_enum_member :: "env \<Rightarrow> jvalue \<Rightarrow> string \<Rightarrow> nat \<Rightarrow> unit vm_action" where
  "call_enum_member E w name arg_count =
     act_bind (deref w get_enum) (\<lambda>(e, enum). act_bind (lookup (en_members enum) name) (\<lambda>member.
     act_bind (deref member get_pair) (\<lambda>(_, p).
     act_bind (allocate (new_enum_instance e name (macro_as_i32 (e_layout E) (pr_first p)) arg_count)) (\<lambda>i.
     act_bind (on_heap (\<lambda>h. get_enum_instance h i)) (\<lambda>inst.
     act_then
       (case ei_values inst of
          None \<Rightarrow> act_return ()
        | Some v \<Rightarrow> act_bind (pop_into arg_count v) (\<lambda>v.
            store_obj i (OEnumInstance (inst\<lparr>ei_values := Some v\<rparr>))))
       (act_bind pop (\<lambda>_. push (obj_value i))))))))"

definition handle_op_layer_property_call :: "env \<Rightarrow> nat \<Rightarrow> interpret_result vm_action" where
  "handle_op_layer_property_call E fp =
     act_bind (read_string fp) (\<lambda>name. act_bind (read_byte fp) (\<lambda>b.
     act_bind (peek_value (unat b)) (\<lambda>w. act_bind (is_type w OBJ_CLASS) (\<lambda>is_class.
     act_bind (is_type w OBJ_ENUM) (\<lambda>is_enum.
       if is_class then
         act_bind (deref w get_class) (\<lambda>(_, k). act_bind (lookup (cls_methods k) name) (\<lambda>method.
           if macro_is_null method then fail_with ''Undefined static method''
           else act_then (write_below_top (unat b + 1) method)
             (act_bind (call_value E method (unat b)) (\<lambda>r. act_return (as_result r)))))
       else if is_enum then act_then (call_enum_member E w name (unat b)) ok
       else ok)))))"

subsection \<open>Vectors\<close>

text \<open>\<open>vec->start[i] = element; vec->finish++\<close>, from the last element down.\<close>

primrec pop_elements :: "nat \<Rightarrow> vec \<Rightarrow> vec vm_action" where
  "pop_elements 0 v = act_return v"
| "pop_elements (Suc i) v =
     act_bind pop (\<lambda>x. act_bind (act_lift (buf_write (v_start v) i x)) (\<lambda>b.
       pop_elements i \<lparr>v_start = b, v_finish = v_finish v + 1\<rparr>))"

definition type_find :: "string \<Rightarrow> nat option vm_action" where
  "type_find name =
     act_bind (act_get vm_types) (\<lambda>types. act_bind (lookup types name) (\<lambda>v.
     act_bind (is_type v OBJ_CLASS) (\<lambda>is_class.
       if is_class then act_bind (act_lift (as_addr v)) (\<lambda>a. act_return (Some a)) else act_return None)))"

definition handle_op_vector_new :: "nat \<Rightarrow> interpret_result vm_action" where
  "handle_op_vector_new fp =
     act_bind (read_byte fp) (\<lambda>n. act_bind (pop_elements (unat n) (new_vec_with_capacity (unat n))) (\<lambda>v.
     act_bind (allocate (allocate_object (OVec v))) (\<lambda>d.
     act_bind (type_find ''Vec'') (\<lambda>k.
       case k of
         None \<Rightarrow> act_halt (Undefined ''null class'')
       | Some k \<Rightarrow>
           act_bind (allocate_outcome (new_instance k)) (\<lambda>a.
           act_bind (on_heap (\<lambda>h. get_instance h a)) (\<lambda>inst.
           act_bind (insert_entry (in_fields inst) ''_data'' (obj_value d)) (\<lambda>m.
           act_then (store_obj a (OInstance (inst\<lparr>in_fields := m\<rparr>))) (push_ok (obj_value a)))))))))"

text \<open>
  The checks shared by \<open>handle_op_vector_set\<close> and \<open>handle_op_vector_get\<close>. The first asks whether the
  value is \<^emph>\<open>not\<close> an instance and then reads it as one; every instance passes it. \<open>f\<close> gets the vector
  and an index within it.
\<close>

definition checked_vector ::
    "nat \<Rightarrow> jvalue \<Rightarrow> jvalue \<Rightarrow> (nat \<Rightarrow> vec \<Rightarrow> nat \<Rightarrow> interpret_result vm_action) \<Rightarrow>
     interpret_result vm_action" where
  "checked_vector fp vec_val index_val f =
     act_bind (is_type vec_val OBJ_INSTANCE) (\<lambda>is_instance.
       if \<not> is_instance then act_halt (Undefined ''not an Instance'')
       else case index_val of
         VI32 w \<Rightarrow>
           act_bind (data_of vec_val) (\<lambda>d. act_bind (deref d get_vec) (\<lambda>(a, v).
             if sint w < 0 \<or> int (vec_len v) \<le> sint w then fail_at fp ''Vector index out of bounds''
             else f a v (nat (sint w))))
       | _ \<Rightarrow> fail_at fp ''Expected integer index'')"

definition handle_op_vector_set :: "nat \<Rightarrow> interpret_result vm_action" where
  "handle_op_vector_set fp =
     act_bind pop (\<lambda>x. act_bind pop (\<lambda>index_val. act_bind pop (\<lambda>vec_val.
       checked_vector fp vec_val index_val (\<lambda>a v i.
         act_bind (act_lift (vec_set v i x)) (\<lambda>v. act_then (store_vec a v) (push_ok x))))))"

definition handle_op_vector_get :: "nat \<Rightarrow> interpret_result vm_action" where
  "handle_op_vector_get fp =
     act_bind pop (\<lambda>index_val. act_bind pop (\<lambda>vec_val.
       checked_vector fp vec_val index_val (\<lambda>a v i.
         act_bind (act_lift (buf_read (v_start v) i)) push_ok)))"

subsection \<open>The machine's invariant\<close>

lemma keeps_bind_members [keeps_ok]: "keeps machine_ok (bind_members n fp)"
  by (induction n) (auto intro!: keeps_intros keeps_ok)

lemma keeps_push_all [keeps_ok]: "keeps machine_ok (push_all n i v)"
  by (induction n arbitrary: i) (auto intro!: keeps_intros keeps_ok)

lemma keeps_push_values [keeps_ok]: "keeps machine_ok (push_values vs)"
  unfolding push_values_def by (intro keeps_intros keeps_ok)

lemma keeps_pop_into [keeps_ok]: "keeps machine_ok (pop_into n v)"
  by (induction n arbitrary: v) (auto intro!: keeps_intros keeps_ok)

lemma keeps_call_enum_member [keeps_ok]: "keeps machine_ok (call_enum_member E w name n)"
  unfolding call_enum_member_def by (intro keeps_intros keeps_ok)

lemma keeps_pop_elements [keeps_ok]: "keeps machine_ok (pop_elements n v)"
  by (induction n arbitrary: v) (auto intro!: keeps_intros keeps_ok)

lemma keeps_type_find [keeps_ok]: "keeps machine_ok (type_find name)"
  unfolding type_find_def by (intro keeps_intros keeps_ok)

lemma keeps_checked_vector [keeps_ok]:
  "(\<And>a v i. keeps machine_ok (f a v i)) \<Longrightarrow> keeps machine_ok (checked_vector fp x y f)"
  unfolding checked_vector_def by (intro keeps_intros keeps_jvalue keeps_ok)

lemmas object_handler_defs =
  handle_op_class_def handle_op_method_def handle_op_inherit_def handle_op_invoke_def
  handle_op_super_invoke_def handle_op_struct_def handle_op_member_def
  handle_op_struct_inherit_def handle_op_enum_def handle_op_enum_define_member_def
  handle_op_enum_get_member_def handle_op_enum_member_bind_def handle_op_enum_member_match_def
  handle_op_layer_property_call_def handle_op_vector_new_def handle_op_vector_set_def
  handle_op_vector_get_def

lemma keeps_object_handlers [keeps_ok]:
  "keeps machine_ok (handle_op_class fp)" "keeps machine_ok (handle_op_method fp)"
  "keeps machine_ok (handle_op_inherit fp)" "keeps machine_ok (handle_op_invoke E fp)"
  "keeps machine_ok (handle_op_super_invoke fp)" "keeps machine_ok (handle_op_struct fp)"
  "keeps machine_ok (handle_op_member fp)" "keeps machine_ok (handle_op_struct_inherit fp)"
  "keeps machine_ok (handle_op_enum fp)" "keeps machine_ok (handle_op_enum_define_member E fp)"
  "keeps machine_ok (handle_op_enum_get_member fp)"
  "keeps machine_ok (handle_op_enum_member_bind fp)"
  "keeps machine_ok (handle_op_enum_member_match fp)"
  "keeps machine_ok (handle_op_layer_property_call E fp)"
  "keeps machine_ok (handle_op_vector_new fp)" "keeps machine_ok (handle_op_vector_set fp)"
  "keeps machine_ok (handle_op_vector_get fp)"
  unfolding object_handler_defs by (intro keeps_intros keeps_ok)+

end
