(* ===== verification/Joker_Run.thy ===== *)
theory Joker_Run
  imports Joker_Objects
begin

text \<open>
  The instruction loop \<open>run\<close> of src/vm.c in its computed-goto form, the one compiled by GCC, the
  start of the machine and \<open>interpret\<close> on a compiled function.

  The loop keeps the current frame in a local pointer, here \<open>fp\<close>, the index of the frame. It reloads
  the pointer after the instructions that call and after a return, and looks at the result of no
  handler but \<open>handle_op_return\<close>. \<open>run\<close> has fuel, one unit for an instruction, and is \<open>Diverge\<close> when
  it is used up; \<open>run_more_fuel\<close> shows that fuel does not matter otherwise.
\<close>

subsection \<open>The loop\<close>

definition dispatch :: "env \<Rightarrow> op_code \<Rightarrow> nat \<Rightarrow> interpret_result vm_action" where
  "dispatch E op fp =
     (case op of
        op_pop \<Rightarrow> handle_op_pop fp
      | op_dup \<Rightarrow> handle_op_dup fp
      | op_constant \<Rightarrow> handle_op_constant fp
      | op_constant_long \<Rightarrow> handle_op_constant_long fp
      | op_value \<Rightarrow> handle_op_value fp
      | op_none \<Rightarrow> handle_op_none fp
      | op_true \<Rightarrow> handle_op_true fp
      | op_false \<Rightarrow> handle_op_false fp
      | op_not \<Rightarrow> handle_op_not fp
      | op_negate \<Rightarrow> handle_op_negate fp
      | op_equal \<Rightarrow> read_binary E OP_EQ fp
      | op_not_equal \<Rightarrow> read_binary E OP_NEQ fp
      | op_less \<Rightarrow> read_binary E OP_LT fp
      | op_less_equal \<Rightarrow> read_binary E OP_LTE fp
      | op_greater \<Rightarrow> read_binary E OP_GT fp
      | op_greater_equal \<Rightarrow> read_binary E OP_GTE fp
      | op_add \<Rightarrow> read_binary E OP_ADD fp
      | op_subtract \<Rightarrow> read_binary E OP_SUB fp
      | op_multiply \<Rightarrow> read_binary E OP_MUL fp
      | op_divide \<Rightarrow> read_binary E OP_DIV fp
      | op_mod \<Rightarrow> read_binary E OP_MOD fp
      | op_bw_and \<Rightarrow> read_binary E OP_BIT_AND fp
      | op_bw_or \<Rightarrow> read_binary E OP_BIT_OR fp
      | op_bw_xor \<Rightarrow> read_binary E OP_BIT_XOR fp
      | op_bw_sl \<Rightarrow> read_binary E OP_SHL fp
      | op_bw_sr \<Rightarrow> read_binary E OP_SHR fp
      | op_bw_not \<Rightarrow> read_unary OP_BIT_NOT fp
      | op_define_global \<Rightarrow> handle_op_define_global fp
      | op_get_global \<Rightarrow> handle_op_get_global fp
      | op_set_global \<Rightarrow> handle_op_set_global fp
      | op_get_local \<Rightarrow> handle_op_get_local fp
      | op_set_local \<Rightarrow> handle_op_set_local fp
      | op_get_upvalue \<Rightarrow> handle_op_get_upvalue fp
      | op_set_upvalue \<Rightarrow> handle_op_set_upvalue fp
      | op_get_property \<Rightarrow> handle_op_get_property fp
      | op_set_property \<Rightarrow> handle_op_set_property fp
      | op_get_super \<Rightarrow> handle_op_get_super fp
      | op_get_layer_property \<Rightarrow> handle_op_get_layer_property E fp
      | op_get_type \<Rightarrow> handle_op_get_type fp
      | op_jump_if_false \<Rightarrow> handle_op_jump_if_false fp
      | op_jump_if_neq \<Rightarrow> handle_op_jump_if_neq fp
      | op_jump \<Rightarrow> handle_op_jump fp
      | op_loop \<Rightarrow> handle_op_loop fp
      | op_call \<Rightarrow> handle_op_call E fp
      | op_closure \<Rightarrow> handle_op_closure E fp
      | op_close_upvalue \<Rightarrow> handle_op_close_upvalue E fp
      | op_print \<Rightarrow> handle_op_print fp
      | op_return \<Rightarrow> handle_op_return E fp
      | op_break \<Rightarrow> handle_op_break fp
      | op_continue \<Rightarrow> handle_op_continue fp
      | op_match \<Rightarrow> handle_op_match fp
      | op_class \<Rightarrow> handle_op_class fp
      | op_method \<Rightarrow> handle_op_method fp
      | op_inherit \<Rightarrow> handle_op_inherit fp
      | op_invoke \<Rightarrow> handle_op_invoke E fp
      | op_super_invoke \<Rightarrow> handle_op_super_invoke fp
      | op_struct \<Rightarrow> handle_op_struct fp
      | op_member \<Rightarrow> handle_op_member fp
      | op_struct_inherit \<Rightarrow> handle_op_struct_inherit fp
      | op_enum \<Rightarrow> handle_op_enum fp
      | op_enum_define_member \<Rightarrow> handle_op_enum_define_member E fp
      | op_enum_get_member \<Rightarrow> handle_op_enum_get_member fp
      | op_enum_member_bind \<Rightarrow> handle_op_enum_member_bind fp
      | op_enum_member_match \<Rightarrow> handle_op_enum_member_match fp
      | op_layer_property_call \<Rightarrow> handle_op_layer_property_call E fp
      | op_vector_new \<Rightarrow> handle_op_vector_new fp
      | op_vector_set \<Rightarrow> handle_op_vector_set fp
      | op_vector_get \<Rightarrow> handle_op_vector_get fp)"

definition current_frame :: "nat vm_action" where
  "current_frame =
     act_bind (act_get vm_frame_count) (\<lambda>n.
       if n = 0 then act_halt (Undefined ''frames[-1]'') else act_return (n - 1))"

text \<open>After which instructions the loop reloads its frame pointer.\<close>

definition reloads_frame :: "op_code \<Rightarrow> bool" where
  "reloads_frame op \<longleftrightarrow>
     op = op_call \<or> op = op_return \<or> op = op_invoke \<or> op = op_super_invoke \<or> op = op_layer_property_call"

text \<open>
  One instruction. \<open>None\<close> ends the loop. A byte that is no instruction jumps to \<open>vm_panic\<close>, which
  writes behind the machine, or reads behind the jump table.
\<close>

definition step :: "env \<Rightarrow> nat \<Rightarrow> nat option vm_action" where
  "step E fp =
     act_bind (read_byte fp) (\<lambda>b.
       case op_of_byte b of
         None \<Rightarrow> act_halt (Undefined ''unknown opcode'')
       | Some op \<Rightarrow>
           act_bind (dispatch E op fp) (\<lambda>r.
             if op = op_return \<and> r = interpret_ok then act_return None
             else if reloads_frame op then act_bind current_frame (\<lambda>fp. act_return (Some fp))
             else act_return (Some fp)))"

primrec run_loop :: "nat \<Rightarrow> env \<Rightarrow> nat \<Rightarrow> interpret_result vm_action" where
  "run_loop 0 E fp = act_halt Diverge"
| "run_loop (Suc fuel) E fp =
     act_bind (step E fp) (\<lambda>next. case next of None \<Rightarrow> ok | Some fp \<Rightarrow> run_loop fuel E fp)"

definition run :: "nat \<Rightarrow> env \<Rightarrow> interpret_result vm_action" where
  "run fuel E = act_bind current_frame (run_loop fuel E)"

text \<open>\<open>interpret\<close> after a compilation that gave the function at \<open>fn\<close>; the result of \<open>call\<close> is ignored.\<close>

definition interpret_fn :: "nat \<Rightarrow> env \<Rightarrow> nat \<Rightarrow> interpret_result vm_action" where
  "interpret_fn fuel E fn =
     act_then (push (obj_value fn))
     (act_bind (allocate_outcome (new_closure fn)) (\<lambda>c.
     act_bind pop (\<lambda>_. act_then (push (obj_value c))
     (act_bind (call c 0) (\<lambda>_. run fuel E)))))"

subsection \<open>The start of the machine\<close>

definition stack_string :: "nat \<Rightarrow> string vm_action" where
  "stack_string i = act_bind (read_slot i) (\<lambda>v. act_lift (as_string v))"

text \<open>
  A name and its value are pushed, to be reachable for the collector, and read back from the bottom
  of the stack, which is empty before.
\<close>

definition define_native :: "string \<Rightarrow> native_fn \<Rightarrow> unit vm_action" where
  "define_native name f =
     act_then (push (string_value name))
     (act_bind (allocate (new_native f False)) (\<lambda>a. act_then (push (obj_value a))
     (act_bind (stack_string 0) (\<lambda>key. act_bind (read_slot 1) (\<lambda>v.
     act_bind (act_get vm_globals) (\<lambda>m. act_bind (insert_entry m key v) (\<lambda>m.
     act_then (set_globals m) (pop_times 2))))))))"

definition define_class_native :: "nat \<Rightarrow> string \<times> native_fn \<Rightarrow> unit vm_action" where
  "define_class_native klass mapper =
     act_then (push (string_value (fst mapper)))
     (act_bind (allocate (new_native (snd mapper) True)) (\<lambda>a. act_then (push (obj_value a))
     (act_bind (stack_string 0) (\<lambda>key. act_bind (read_slot 1) (\<lambda>v.
     act_bind (on_heap (\<lambda>h. get_class h klass)) (\<lambda>k. act_bind (insert_entry (cls_methods k) key v) (\<lambda>m.
     act_then (store_obj klass (OClass (k\<lparr>cls_methods := m\<rparr>))) (pop_times 2))))))))"

primrec define_class_natives :: "(string \<times> native_fn) list \<Rightarrow> nat \<Rightarrow> unit vm_action" where
  "define_class_natives [] klass = act_return ()"
| "define_class_natives (x # xs) klass =
     act_then (define_class_native klass x) (define_class_natives xs klass)"

definition register_type :: "string \<Rightarrow> nat \<Rightarrow> unit vm_action" where
  "register_type name klass =
     act_then (push (string_value name)) (act_then (push (obj_value klass))
     (act_bind (stack_string 0) (\<lambda>key. act_bind (read_slot 1) (\<lambda>v.
     act_bind (act_get vm_types) (\<lambda>m. act_bind (insert_entry m key v) (\<lambda>m.
     act_then (act_update (\<lambda>vm. vm\<lparr>vm_types := m\<rparr>)) (pop_times 2)))))))"

definition type_register :: "string \<Rightarrow> vtable \<Rightarrow> (string \<times> native_fn) list \<Rightarrow> unit vm_action" where
  "type_register name vt methods =
     act_bind (allocate (new_class name)) (\<lambda>klass.
     act_bind (on_heap (\<lambda>h. get_class h klass)) (\<lambda>k.
     act_then (store_obj klass (OClass (k\<lparr>cls_vtable := vt\<rparr>)))
       (act_then (define_class_natives methods klass) (register_type name klass))))"

definition init_virtual_machine :: "unit vm_action" where
  "init_virtual_machine =
     act_then (type_register ''Vec'' (vec_vtable VM_C) vec_export_methods)
     (act_then (define_native ''clock'' (native_extern ''clock''))
     (act_then (define_native ''time'' (native_extern ''time''))
     (act_then (define_native ''sleep'' (native_extern ''sleep''))
     (act_then (define_native ''date'' (native_extern ''date''))
     (act_then (define_native ''now'' (native_extern ''now''))
     (act_then (define_native ''print'' (native_extern ''print''))
       (define_native ''println'' (native_extern ''println''))))))))"

subsection \<open>The machine's invariant\<close>

lemma keeps_dispatch [keeps_ok]: "keeps machine_ok (dispatch E op fp)"
  unfolding dispatch_def by (cases op; simp only: op_code.case; rule keeps_ok)

lemma keeps_current_frame [keeps_ok]: "keeps machine_ok current_frame"
  unfolding current_frame_def by (intro keeps_intros)

lemma keeps_step [keeps_ok]: "keeps machine_ok (step E fp)"
  unfolding step_def by (intro keeps_intros keeps_ok)

lemma keeps_run_loop [keeps_ok]: "keeps machine_ok (run_loop fuel E fp)"
proof (induction fuel arbitrary: fp)
  case 0
  then show ?case by (simp add: keeps_halt)
next
  case (Suc fuel)
  then show ?case by (auto intro!: keeps_intros keeps_ok)
qed

lemma keeps_run [keeps_ok]: "keeps machine_ok (run fuel E)"
  unfolding run_def by (intro keeps_intros keeps_ok)

lemma keeps_interpret_fn [keeps_ok]: "keeps machine_ok (interpret_fn fuel E fn)"
  unfolding interpret_fn_def by (intro keeps_intros keeps_ok)

lemma keeps_stack_string [keeps_ok]: "keeps machine_ok (stack_string i)"
  unfolding stack_string_def by (intro keeps_intros keeps_ok)

lemma keeps_define_native [keeps_ok]: "keeps machine_ok (define_native name f)"
  unfolding define_native_def by (intro keeps_intros keeps_ok)

lemma keeps_define_class_natives [keeps_ok]: "keeps machine_ok (define_class_natives xs k)"
  by (induction xs) (auto simp: define_class_native_def intro!: keeps_intros keeps_ok)

lemma keeps_type_register [keeps_ok]: "keeps machine_ok (type_register name vt xs)"
  unfolding type_register_def register_type_def
  by (intro keeps_intros keeps_ok keeps_update) (simp add: machine_ok_def)

lemma keeps_init [keeps_ok]: "keeps machine_ok init_virtual_machine"
  unfolding init_virtual_machine_def by (intro keeps_intros keeps_ok)

end
