(* ===== verification/Joker_Upvalues.thy ===== *)
theory Joker_Upvalues
  imports Joker_Machine
begin

text \<open>
  The open upvalues of src/upvalue.c as a linked list in the heap. \<open>path h p xs q\<close> says that the
  nodes from \<open>p\<close> to \<open>q\<close> are \<open>xs\<close>, each an address with the stack slot it is open on. Capturing keeps
  the list strictly descending in the slots and shares one upvalue for a slot. Closing is proved for
  what it does, which leaves the closed nodes in the list and the slot it is given open.
\<close>

subsection \<open>Paths through the list\<close>

fun path :: "heap \<Rightarrow> nat option \<Rightarrow> (nat \<times> nat) list \<Rightarrow> nat option \<Rightarrow> bool" where
  "path h p [] q \<longleftrightarrow> p = q"
| "path h p ((a, s) # xs) q \<longleftrightarrow>
     p = Some a \<and> (\<exists>u. h_objs h a = Some (OUpvalue u) \<and> uv_location u = Slot s \<and> path h (uv_next u) xs q)"

lemma path_append: "path h p (xs @ ys) q \<longleftrightarrow> (\<exists>r. path h p xs r \<and> path h r ys q)"
proof (induction xs arbitrary: p)
  case Nil
  then show ?case by simp
next
  case (Cons x xs)
  obtain a s where "x = (a, s)" by (cases x)
  then show ?case by (simp add: Cons.IH) metis
qed

lemma path_frame:
  "\<forall>a\<in>fst ` set xs. h_objs h' a = h_objs h a \<Longrightarrow> path h' p xs q \<longleftrightarrow> path h p xs q"
  by (induction xs arbitrary: p) auto

lemma path_node:
  "path h p xs q \<Longrightarrow> (a, s) \<in> set xs \<Longrightarrow> \<exists>u. h_objs h a = Some (OUpvalue u) \<and> uv_location u = Slot s"
  by (induction xs arbitrary: p) auto

lemma path_address_slot:
  assumes "path h p xs q" and "(a, s) \<in> set xs" and "(a, t) \<in> set xs"
  shows "s = t"
  using path_node [OF assms(1,2)] path_node [OF assms(1,3)] by auto

definition descending :: "(nat \<times> nat) list \<Rightarrow> bool" where
  "descending xs \<longleftrightarrow> sorted_wrt (\<lambda>x y. snd y < snd x) xs"

lemma descending_append:
  "descending (xs @ ys) \<longleftrightarrow> descending xs \<and> descending ys \<and> (\<forall>x\<in>set xs. \<forall>y\<in>set ys. snd y < snd x)"
  by (simp add: descending_def sorted_wrt_append)

lemma descending_Cons: "descending (x # xs) \<longleftrightarrow> (\<forall>y\<in>set xs. snd y < snd x) \<and> descending xs"
  by (simp add: descending_def)

lemma path_distinct: "path h p xs q \<Longrightarrow> descending xs \<Longrightarrow> distinct (map fst xs)"
proof (induction xs arbitrary: p)
  case Nil
  then show ?case by simp
next
  case (Cons x xs)
  obtain a s where x: "x = (a, s)" by (cases x)
  from Cons.prems x obtain r where r: "path h r xs q" by auto
  have "(a, t) \<notin> set xs" for t
  proof
    assume t: "(a, t) \<in> set xs"
    with Cons.prems(1) x have "s = t" using path_address_slot [OF Cons.prems(1), of a s t] by auto
    with t Cons.prems(2) x show False by (auto simp: descending_Cons)
  qed
  with Cons.IH [OF r] Cons.prems(2) x show ?case by (force simp: descending_Cons)
qed

text \<open>The open list of a machine, and that it is in order.\<close>

definition open_upvalues :: "vm \<Rightarrow> (nat \<times> nat) list \<Rightarrow> bool" where
  "open_upvalues vm xs \<longleftrightarrow>
     path (vm_heap vm) (vm_open_upv_ptr vm) xs None \<and> descending xs \<and>
     (\<forall>a. h_objs (vm_heap vm) a \<noteq> None \<longrightarrow> a < h_next (vm_heap vm))"

lemma open_upvalues_below:
  assumes "open_upvalues vm xs" and "(a, s) \<in> set xs"
  shows "a < h_next (vm_heap vm)"
  using assms path_node [of "vm_heap vm" "vm_open_upv_ptr vm" xs None a s]
  by (auto simp: open_upvalues_def)

lemma open_upvalues_length:
  assumes "open_upvalues vm xs"
  shows "length xs \<le> h_next (vm_heap vm)"
proof -
  have "distinct (map fst xs)" using assms path_distinct by (auto simp: open_upvalues_def)
  moreover have "set (map fst xs) \<subseteq> {..<h_next (vm_heap vm)}"
    using open_upvalues_below [OF assms] by auto
  ultimately have "card (set (map fst xs)) \<le> h_next (vm_heap vm)" "card (set (map fst xs)) = length xs"
    using card_mono [of "{..<h_next (vm_heap vm)}"] distinct_card by fastforce+
  then show ?thesis by simp
qed

subsection \<open>Capturing\<close>

definition above :: "nat \<Rightarrow> (nat \<times> nat) list \<Rightarrow> (nat \<times> nat) list" where
  "above i xs = takeWhile (\<lambda>x. i < snd x) xs"

definition not_above :: "nat \<Rightarrow> (nat \<times> nat) list \<Rightarrow> (nat \<times> nat) list" where
  "not_above i xs = dropWhile (\<lambda>x. i < snd x) xs"

definition last_address :: "nat option \<Rightarrow> (nat \<times> nat) list \<Rightarrow> nat option" where
  "last_address p xs = (if xs = [] then p else Some (fst (last xs)))"

lemma above_not_above: "above i xs @ not_above i xs = xs"
  by (simp add: above_def not_above_def)

lemma capture_loop_path:
  "path h p xs q \<Longrightarrow> q = None \<Longrightarrow> length xs < fuel \<Longrightarrow>
   capture_loop E h i prev p fuel =
     Inr (last_address prev (above i xs), map_option fst (case not_above i xs of [] \<Rightarrow> None | x # _ \<Rightarrow> Some x))"
proof (induction xs arbitrary: p prev fuel)
  case Nil
  then obtain n where "fuel = Suc n" by (cases fuel) auto
  with Nil show ?case by (simp add: above_def not_above_def last_address_def)
next
  case (Cons x xs)
  obtain a s where x: "x = (a, s)" by (cases x)
  obtain n where n: "fuel = Suc n" using Cons.prems(3) by (cases fuel) auto
  from Cons.prems(1) x obtain u where u: "p = Some a" "h_objs h a = Some (OUpvalue u)"
    "uv_location u = Slot s" "path h (uv_next u) xs q" by auto
  show ?case
  proof (cases "i < s")
    case True
    with Cons.IH [OF u(4) Cons.prems(2), of n "Some a"] Cons.prems(3) u n x show ?thesis
      by (simp add: get_upvalue_obj_def location_above_def above_def not_above_def last_address_def)
  next
    case False
    with u n x show ?thesis
      by (simp add: get_upvalue_obj_def location_above_def above_def not_above_def last_address_def)
  qed
qed

declare capture_loop.simps [simp del]

text \<open>The list after capturing slot \<open>i\<close> with the new upvalue \<open>a\<close>, and the one found for it.\<close>

definition insert_open :: "nat \<Rightarrow> nat \<Rightarrow> (nat \<times> nat) list \<Rightarrow> (nat \<times> nat) list" where
  "insert_open a i xs = above i xs @ (a, i) # not_above i xs"

lemma set_insert_open [simp]: "set (insert_open a i xs) = insert (a, i) (set xs)"
proof -
  have "set (insert_open a i xs) = insert (a, i) (set (above i xs @ not_above i xs))"
    by (simp add: insert_open_def)
  then show ?thesis by (simp only: above_not_above)
qed

lemma above_greater: "x \<in> set (above i xs) \<Longrightarrow> i < snd x"
  by (auto simp: above_def dest: set_takeWhileD)

lemma not_above_less:
  assumes "descending xs" and "i \<notin> snd ` set xs" and "x \<in> set (not_above i xs)"
  shows "snd x < i"
proof -
  obtain y ys where ys: "not_above i xs = y # ys" using assms(3) by (cases "not_above i xs") auto
  then have "\<not> i < snd y" by (metis hd_dropWhile list.distinct(1) list.sel(1) not_above_def)
  moreover have "y \<in> set xs" using ys above_not_above [of i xs] by (metis in_set_conv_decomp)
  ultimately have "snd y < i" using assms(2) by (metis imageI linorder_neqE_nat)
  moreover have "descending (y # ys)"
    using assms(1) ys above_not_above [of i xs] by (metis descending_append)
  ultimately show ?thesis using assms(3) ys by (auto simp: descending_Cons)
qed

lemma descending_insert_open:
  assumes "descending xs" and "i \<notin> snd ` set xs"
  shows "descending (insert_open a i xs)"
proof -
  have "descending (above i xs @ not_above i xs)" using assms(1) by (simp add: above_not_above)
  then show ?thesis
    using above_greater [of _ i xs] not_above_less [OF assms]
    by (auto simp: insert_open_def descending_append descending_Cons)
qed

text \<open>The slot is found exactly when the list has a node for it.\<close>

lemma not_above_found:
  assumes "descending xs" and "(a, i) \<in> set xs"
  obtains ys where "not_above i xs = (a, i) # ys"
proof -
  obtain ps ys where xs: "xs = ps @ (a, i) # ys" using assms(2) by (meson split_list)
  with assms(1) have "\<forall>x\<in>set ps. i < snd x" by (auto simp: descending_append)
  then have "not_above i xs = (a, i) # ys" by (simp add: xs not_above_def dropWhile_append3)
  then show thesis by (rule that)
qed

lemma path_link:
  assumes p: "path h p ((ps @ [(b, t)]) @ ys) q" and b: "h_objs h b = Some (OUpvalue u)"
    and fresh: "a \<notin> fst ` set ((ps @ [(b, t)]) @ ys)" and d: "distinct (map fst ((ps @ [(b, t)]) @ ys))"
    and h': "h_objs h' = (h_objs h)(a \<mapsto> OUpvalue v, b \<mapsto> OUpvalue (u\<lparr>uv_next := Some a\<rparr>))"
    and v: "uv_location v = Slot i" "path h (uv_next v) ys q"
  shows "path h' p ((ps @ [(b, t)]) @ (a, i) # ys) q"
proof -
  obtain r where r: "path h p ps r" "path h r [(b, t)] (uv_next u)" "path h (uv_next u) ys q"
    using p b by (auto simp: path_append)
  have "path h' p ps r" using r(1) fresh d h' by (subst path_frame [of _ _ h]) auto
  moreover have "path h' r [(b, t)] (Some a)" using r(2) h' b by auto
  moreover have "path h' (uv_next v) ys q" using v(2) fresh d h' by (subst path_frame [of _ _ h]) auto
  ultimately show ?thesis using h' fresh v(1) by (auto simp: path_append)
qed

lemma capture_loop_open:
  assumes "open_upvalues vm xs"
  shows "capture_loop E (vm_heap vm) i None (vm_open_upv_ptr vm) (Suc (h_next (vm_heap vm))) =
    Inr (last_address None (above i xs), map_option fst (case not_above i xs of [] \<Rightarrow> None | x # _ \<Rightarrow> Some x))"
  using assms open_upvalues_length [OF assms]
  by (intro capture_loop_path) (auto simp: open_upvalues_def)

lemma capture_found:
  assumes "open_upvalues vm xs" and "(a, i) \<in> set xs"
  shows "capture_upvalue E i vm = Inr (a, vm)"
proof -
  obtain ys where ys: "not_above i xs = (a, i) # ys"
    using not_above_found [of xs a i] assms by (auto simp: open_upvalues_def)
  obtain u where "h_objs (vm_heap vm) a = Some (OUpvalue u)" "uv_location u = Slot i"
    using assms path_node [of "vm_heap vm" "vm_open_upv_ptr vm" xs None a i] by (auto simp: open_upvalues_def)
  then have node: "on_heap (\<lambda>h. get_upvalue_obj h a) vm = Inr (u, vm)"
    by (simp add: on_heap_def act_with_apply get_upvalue_obj_def)
  note loop = capture_loop_open [OF assms(1), of E i, unfolded Suc_eq_plus1 ys]
  have "capture_upvalue E i vm =
      andThen (act_bind (on_heap (\<lambda>h. get_upvalue_obj h a)) (\<lambda>u. act_return (uv_location u = Slot i)) vm)
        (\<lambda>(found, vm). (if found then act_return a else
           act_bind (allocate (allocate_object (OUpvalue \<lparr>uv_location = Slot i, uv_closed = VNull, uv_next = Some a\<rparr>)))
             (\<lambda>b. act_then (link_upvalue (last_address None (above i xs)) b) (act_return b))) vm)"
    by (simp only: capture_upvalue_def act_bind_apply [of "act_with _"] act_with_apply loop andThen_simps prod.case
        list.case option.case option.map fst_conv option.sel act_bind_apply)
  then show ?thesis using \<open>uv_location u = Slot i\<close>
    by (simp only: act_bind_apply [of "on_heap _"] node andThen_simps prod.case act_return_apply if_True simp_thms)
qed

lemma capture_new:
  assumes "open_upvalues vm xs" and "i \<notin> snd ` set xs"
  defines "a \<equiv> h_next (vm_heap vm)"
  shows "\<exists>vm'. capture_upvalue E i vm = Inr (a, vm') \<and> open_upvalues vm' (insert_open a i xs) \<and>
    (\<forall>b. b \<notin> insert a (fst ` set xs) \<longrightarrow> h_objs (vm_heap vm') b = h_objs (vm_heap vm) b) \<and>
    vm' = vm\<lparr>vm_heap := vm_heap vm', vm_open_upv_ptr := vm_open_upv_ptr vm'\<rparr>"
proof -
  let ?h = "vm_heap vm"
  define cur where "cur = map_option fst (case not_above i xs of [] \<Rightarrow> None | x # _ \<Rightarrow> Some x)"
  define v where "v = \<lparr>uv_location = Slot i, uv_closed = VNull, uv_next = cur\<rparr>"
  let ?h1 = "snd (allocate_object (OUpvalue v) ?h)"
  have p: "path ?h (vm_open_upv_ptr vm) (above i xs @ not_above i xs) None" and d: "descending xs"
    and bound: "\<And>b. h_objs ?h b \<noteq> None \<Longrightarrow> b < a"
    using assms(1) by (auto simp: open_upvalues_def above_not_above a_def)
  have fresh: "a \<notin> fst ` set xs" using open_upvalues_below [OF assms(1)] by (force simp: a_def)
  have dist: "distinct (map fst (above i xs @ not_above i xs))"
    using path_distinct p d by (simp add: above_not_above)
  obtain r where r: "path ?h (vm_open_upv_ptr vm) (above i xs) r" "path ?h r (not_above i xs) None"
    using p by (auto simp: path_append)
  have cur: "r = cur" using r(2) by (cases "not_above i xs") (auto simp: cur_def)
  have not_found: "(case cur of None \<Rightarrow> act_return False
      | Some c \<Rightarrow> act_bind (on_heap (\<lambda>h. get_upvalue_obj h c)) (\<lambda>u. act_return (uv_location u = Slot i))) vm =
      Inr (False, vm)"
  proof (cases "not_above i xs")
    case Nil
    then show ?thesis by (simp add: cur_def act_simps)
  next
    case (Cons y ys)
    then obtain c s where y: "not_above i xs = (c, s) # ys" by (cases y) auto
    then have "s \<noteq> i" using assms(2) above_not_above [of i xs] by (metis image_eqI in_set_conv_decomp snd_conv)
    moreover obtain u where "h_objs ?h c = Some (OUpvalue u)" "uv_location u = Slot s"
      using r(2) y by auto
    ultimately show ?thesis by (simp add: cur_def y act_simps on_heap_def get_upvalue_obj_def)
  qed
  have run: "capture_upvalue E i vm =
      andThen (link_upvalue (last_address None (above i xs)) a (vm\<lparr>vm_heap := ?h1\<rparr>)) (\<lambda>(_, vm). Inr (a, vm))"
    using not_found
    by (simp add: capture_upvalue_def act_simps capture_loop_open [OF assms(1)] flip: cur_def)
      (simp add: allocate_def a_def v_def allocate_object_def act_simps)
  show ?thesis
  proof (cases "above i xs = []")
    case True
    let ?vm = "vm\<lparr>vm_heap := ?h1, vm_open_upv_ptr := Some a\<rparr>"
    have "capture_upvalue E i vm = Inr (a, ?vm)"
      by (simp add: run True last_address_def link_upvalue_def act_simps)
    moreover have "path ?h1 cur (not_above i xs) None"
      using r(2) cur fresh True above_not_above [of i xs] by (subst path_frame [of _ _ ?h]) (force simp: a_def)+
    then have "open_upvalues ?vm (insert_open a i xs)"
      using descending_insert_open [OF d assms(2), of a] True bound
      by (auto simp: open_upvalues_def insert_open_def v_def a_def less_Suc_eq)
    ultimately show ?thesis by (auto simp: a_def)
  next
    case False
    then obtain ps b t where ps: "above i xs = ps @ [(b, t)]" by (metis rev_exhaust surj_pair)
    obtain u where u: "h_objs ?h b = Some (OUpvalue u)" using r(1) ps by (auto simp: path_append)
    have ab: "b \<noteq> a" "b < a" using u bound by blast+
    let ?h2 = "write_obj b (OUpvalue (u\<lparr>uv_next := Some a\<rparr>)) ?h1"
    let ?vm = "vm\<lparr>vm_heap := ?h2\<rparr>"
    have "capture_upvalue E i vm = Inr (a, ?vm)"
      using u ab by (simp add: run ps last_address_def link_upvalue_def act_simps on_heap_def get_upvalue_obj_def
          store_obj_def a_def)
    moreover have xs: "(ps @ [(b, t)]) @ not_above i xs = xs" by (metis above_not_above ps)
    have "path ?h2 (vm_open_upv_ptr vm) ((ps @ [(b, t)]) @ (a, i) # not_above i xs) None"
    proof (rule path_link)
      show "path ?h (vm_open_upv_ptr vm) ((ps @ [(b, t)]) @ not_above i xs) None" using p by (simp only: ps)
      show "distinct (map fst ((ps @ [(b, t)]) @ not_above i xs))" using dist by (simp only: ps)
      show "a \<notin> fst ` set ((ps @ [(b, t)]) @ not_above i xs)" unfolding xs by (rule fresh)
      show "h_objs ?h b = Some (OUpvalue u)" by (rule u)
      show "uv_location v = Slot i" by (simp add: v_def)
      show "path ?h (uv_next v) (not_above i xs) None" using r(2) cur by (simp add: v_def)
      show "h_objs ?h2 = (h_objs ?h)(a \<mapsto> OUpvalue v, b \<mapsto> OUpvalue (u\<lparr>uv_next := Some a\<rparr>))"
        by (simp add: a_def)
    qed
    then have "open_upvalues ?vm (insert_open a i xs)"
      using descending_insert_open [OF d assms(2), of a] ab bound
      by (auto simp: open_upvalues_def insert_open_def ps a_def less_Suc_eq)
    moreover have "b \<in> fst ` set ((ps @ [(b, t)]) @ not_above i xs)" by simp
    then have "b \<in> fst ` set xs" by (simp only: xs)
    ultimately show ?thesis by (auto simp: a_def)
  qed
qed

subsection \<open>Closing\<close>

text \<open>What closing does to the object at an address of the list that is open on slot \<open>s\<close>.\<close>

definition closed_at :: "vm \<Rightarrow> nat \<Rightarrow> heap \<Rightarrow> nat \<Rightarrow> nat \<Rightarrow> bool" where
  "closed_at vm lst h a s \<longleftrightarrow>
     (\<exists>u x. h_objs (vm_heap vm) a = Some (OUpvalue u) \<and> buf_read (vm_stack vm) s = Inr x \<and>
        h_objs h a = Some (OUpvalue (if lst < s then u\<lparr>uv_closed := x, uv_location := Own\<rparr> else u)))"

lemma close_loop_path:
  assumes "path (vm_heap vm) p xs None" and "descending xs" and "length xs < fuel"
    and "\<forall>(a, s)\<in>set xs. \<exists>x. buf_read (vm_stack vm) s = Inr x"
  shows "\<exists>h. close_loop E lst p fuel vm = Inr ((), vm\<lparr>vm_heap := h\<rparr>) \<and>
    (\<forall>(a, s)\<in>set xs. closed_at vm lst h a s) \<and> h_next h = h_next (vm_heap vm) \<and>
    (\<forall>b. b \<notin> fst ` set xs \<longrightarrow> h_objs h b = h_objs (vm_heap vm) b)"
  using assms
proof (induction xs arbitrary: vm p fuel)
  case Nil
  then obtain n where "fuel = Suc n" by (cases fuel) auto
  with Nil show ?case by (intro exI [of _ "vm_heap vm"]) (simp add: act_simps)
next
  case (Cons y xs)
  obtain a s where y: "y = (a, s)" by (cases y)
  obtain n where n: "fuel = Suc n" using Cons.prems(3) by (cases fuel) auto
  from Cons.prems(1) y obtain u where u: "p = Some a" "h_objs (vm_heap vm) a = Some (OUpvalue u)"
    "uv_location u = Slot s" "path (vm_heap vm) (uv_next u) xs None" by auto
  from Cons.prems(4) y obtain x where x: "buf_read (vm_stack vm) s = Inr x" by auto
  show ?case
  proof (cases "lst < s")
    case True
    let ?h = "write_obj a (OUpvalue (u\<lparr>uv_closed := x, uv_location := Own\<rparr>)) (vm_heap vm)"
    let ?vm = "vm\<lparr>vm_heap := ?h\<rparr>"
    have a: "a \<notin> fst ` set xs" using path_distinct [OF Cons.prems(1,2)] y by (simp add: image_image)
    have "path ?h (uv_next u) xs None" using u(4) a by (subst path_frame [of _ _ "vm_heap vm"]) auto
    with Cons.IH [of ?vm "uv_next u" n] Cons.prems(2-4) n obtain h where h:
      "close_loop E lst (uv_next u) n ?vm = Inr ((), ?vm\<lparr>vm_heap := h\<rparr>)"
      "\<forall>(b, s)\<in>set xs. closed_at ?vm lst h b s" "h_next h = h_next (vm_heap vm)"
      "\<forall>b. b \<notin> fst ` set xs \<longrightarrow> h_objs h b = h_objs ?h b"
      by (auto simp: descending_Cons)
    have "close_loop E lst p fuel vm = Inr ((), vm\<lparr>vm_heap := h\<rparr>)"
      using h(1) u x True by (simp add: n act_simps on_heap_def get_upvalue_obj_def location_above_def
          read_slot_def store_obj_def)
    moreover have "closed_at vm lst h b t" if "(b, t) \<in> set xs" for b t
    proof -
      from that a have "b \<noteq> a" by force
      with h(2) that show ?thesis by (fastforce simp: closed_at_def)
    qed
    moreover have "closed_at vm lst h a s" using h(4) a u x True by (auto simp: closed_at_def)
    ultimately show ?thesis using h(3,4) y by auto
  next
    case False
    have "closed_at vm lst (vm_heap vm) b t" if bt: "(b, t) \<in> set (y # xs)" for b t
    proof -
      have "\<not> lst < t" using bt Cons.prems(2) y False by (auto simp: descending_Cons)
      moreover obtain v where "h_objs (vm_heap vm) b = Some (OUpvalue v)"
        using path_node [OF Cons.prems(1) bt] by auto
      ultimately show ?thesis using Cons.prems(4) bt by (auto simp: closed_at_def)
    qed
    then show ?thesis
      using u False by (intro exI [of _ "vm_heap vm"])
        (auto simp: n act_simps on_heap_def get_upvalue_obj_def location_above_def)
  qed
qed

subsection \<open>The properties of upvalues\<close>

text \<open>
  C12: Capturing a stack slot returns an upvalue open on it and keeps the list of open upvalues in
  strictly descending order with all its members; a slot that is open already is shared, with the
  machine as it was, and so is the slot captured next time. No object outside the list changes.
\<close>

theorem capture_upvalue_correct:
  assumes "open_upvalues vm xs"
  shows "\<exists>a vm' ys. capture_upvalue E i vm = Inr (a, vm') \<and> open_upvalues vm' ys \<and>
    set ys = insert (a, i) (set xs) \<and> capture_upvalue E i vm' = Inr (a, vm') \<and>
    (if i \<in> snd ` set xs then vm' = vm else a = h_next (vm_heap vm)) \<and>
    (\<forall>b. b \<notin> insert a (fst ` set xs) \<longrightarrow> h_objs (vm_heap vm') b = h_objs (vm_heap vm) b)"
proof (cases "i \<in> snd ` set xs")
  case True
  then obtain a where a: "(a, i) \<in> set xs" by force
  with capture_found [OF assms a] assms True show ?thesis by (intro exI [of _ a] exI [of _ vm] exI [of _ xs]) auto
next
  case False
  let ?a = "h_next (vm_heap vm)"
  obtain vm' where vm': "capture_upvalue E i vm = Inr (?a, vm')" "open_upvalues vm' (insert_open ?a i xs)"
    "\<forall>b. b \<notin> insert ?a (fst ` set xs) \<longrightarrow> h_objs (vm_heap vm') b = h_objs (vm_heap vm) b"
    using capture_new [OF assms False] by blast
  moreover have "capture_upvalue E i vm' = Inr (?a, vm')" by (rule capture_found [OF vm'(2)]) simp
  ultimately show ?thesis using False by (intro exI [of _ ?a] exI [of _ vm'] exI [of _ "insert_open ?a i xs"]) simp
qed

lemma open_upvalues_fresh: "open_upvalues fresh_vm []"
  by (simp add: open_upvalues_def fresh_vm_def empty_heap_def descending_def)

lemma capture_upvalue_correct_witness:
  "\<forall>E. \<exists>vm a vm'. vm_open_upv_ptr vm = None \<and> capture_upvalue E 3 vm = Inr (a, vm') \<and>
     capture_upvalue E 3 vm' = Inr (a, vm')"
proof
  fix E
  have "vm_open_upv_ptr fresh_vm = None" by (simp add: fresh_vm_def)
  with capture_upvalue_correct [OF open_upvalues_fresh, of E 3]
  show "\<exists>vm a vm'. vm_open_upv_ptr vm = None \<and> capture_upvalue E 3 vm = Inr (a, vm') \<and>
     capture_upvalue E 3 vm' = Inr (a, vm')" by blast
qed

lemma close_upvalues_run:
  assumes "open_upvalues vm xs" and "\<forall>(a, s)\<in>set xs. \<exists>x. buf_read (vm_stack vm) s = Inr x"
  shows "\<exists>h. close_upvalues E lst vm = Inr ((), vm\<lparr>vm_heap := h\<rparr>) \<and>
    (\<forall>(a, s)\<in>set xs. closed_at vm lst h a s) \<and>
    (\<forall>b. b \<notin> fst ` set xs \<longrightarrow> h_objs h b = h_objs (vm_heap vm) b)"
  using close_loop_path [of vm "vm_open_upv_ptr vm" xs "Suc (h_next (vm_heap vm))" E lst] assms
    open_upvalues_length [OF assms(1)]
  by (auto simp: open_upvalues_def close_upvalues_def act_simps)

text \<open>
  C13: Closing the upvalues above a slot returns and moves exactly those open on a slot strictly
  above it off the stack, each with the value its slot held; the upvalue of the slot itself and
  those below stay open, and no other object changes.
\<close>

theorem close_upvalues_correct:
  assumes "open_upvalues vm xs" and "\<forall>(a, s)\<in>set xs. \<exists>x. buf_read (vm_stack vm) s = Inr x"
  shows "\<exists>h. close_upvalues E lst vm = Inr ((), vm\<lparr>vm_heap := h\<rparr>) \<and>
    (\<forall>(a, s)\<in>set xs. closed_at vm lst h a s) \<and>
    (\<forall>b. b \<notin> fst ` set xs \<longrightarrow> h_objs h b = h_objs (vm_heap vm) b)"
  by (rule close_upvalues_run [OF assms])

text \<open>A machine with two open upvalues, on the slots 1 and 0.\<close>

definition two_open :: vm where
  "two_open = fresh_vm\<lparr>vm_stack := (buf_alloc constant_stack_max)[0 := Some VNone, 1 := Some (VBool True)],
     vm_stack_top := 2, vm_open_upv_ptr := Some 1,
     vm_heap := \<lparr>h_objs = [0 \<mapsto> OUpvalue \<lparr>uv_location = Slot 0, uv_closed = VNull, uv_next = None\<rparr>,
                           1 \<mapsto> OUpvalue \<lparr>uv_location = Slot 1, uv_closed = VNull, uv_next = Some 0\<rparr>],
                 h_next = 2\<rparr>\<rparr>"

lemma two_open:
  "open_upvalues two_open [(1, 1), (0, 0)]"
  "buf_read (vm_stack two_open) 0 = Inr VNone" "buf_read (vm_stack two_open) 1 = Inr (VBool True)"
  by (auto simp: two_open_def open_upvalues_def descending_def buf_read_def constant_stack_max_def
      frames_stack_max_def split: if_splits)

lemma close_upvalues_correct_witness:
  "\<forall>E. \<exists>h. close_upvalues E 0 two_open = Inr ((), two_open\<lparr>vm_heap := h\<rparr>) \<and>
     h_objs h 1 = Some (OUpvalue \<lparr>uv_location = Own, uv_closed = VBool True, uv_next = Some 0\<rparr>) \<and>
     h_objs h 0 = Some (OUpvalue \<lparr>uv_location = Slot 0, uv_closed = VNull, uv_next = None\<rparr>)"
proof
  fix E
  have "\<forall>(a, s)\<in>set [(1, 1), (0, 0)]. \<exists>x. buf_read (vm_stack two_open) s = Inr x"
    using two_open(2,3) by (simp del: One_nat_def)
  from close_upvalues_correct [OF two_open(1) this, of E 0]
  show "\<exists>h. close_upvalues E 0 two_open = Inr ((), two_open\<lparr>vm_heap := h\<rparr>) \<and>
     h_objs h 1 = Some (OUpvalue \<lparr>uv_location = Own, uv_closed = VBool True, uv_next = Some 0\<rparr>) \<and>
     h_objs h 0 = Some (OUpvalue \<lparr>uv_location = Slot 0, uv_closed = VNull, uv_next = None\<rparr>)"
    using two_open(3) by (auto simp: closed_at_def) (auto simp: two_open_def)
qed

text \<open>Closing leaves the closed upvalue at the head of the list. Where the heap lies below the
  stack, the next capture stops there, so an upvalue further down that is still open is not found
  and its slot gets a second one.
\<close>

theorem close_breaks_sharing:
  assumes "open_upvalues vm ((a, s) # (b, t) # xs)" and "lst < s" and "t \<le> lst" and "\<not> e_heap_above_stack E"
    and "\<forall>(a, s)\<in>set ((a, s) # (b, t) # xs). \<exists>x. buf_read (vm_stack vm) s = Inr x"
  shows "\<exists>vm1 vm2 c u. close_upvalues E lst vm = Inr ((), vm1) \<and>
    h_objs (vm_heap vm1) b = Some (OUpvalue u) \<and> uv_location u = Slot t \<and>
    capture_upvalue E t vm1 = Inr (c, vm2) \<and> c \<noteq> b"
proof -
  obtain h where h: "close_upvalues E lst vm = Inr ((), vm\<lparr>vm_heap := h\<rparr>)"
    "closed_at vm lst h a s" "closed_at vm lst h b t" "h_next h = h_next (vm_heap vm)"
    using close_loop_path [of vm "vm_open_upv_ptr vm" "(a, s) # (b, t) # xs" "Suc (h_next (vm_heap vm))" E lst]
      assms(1,5) open_upvalues_length [OF assms(1)]
    by (auto simp: open_upvalues_def close_upvalues_def act_simps)
  let ?vm = "vm\<lparr>vm_heap := h\<rparr>"
  obtain u where u: "h_objs h a = Some (OUpvalue u)" "uv_location u = Own"
    using h(2) assms(2) by (auto simp: closed_at_def)
  obtain v where v: "h_objs h b = Some (OUpvalue v)" "uv_location v = Slot t"
    using h(3) assms(1,3) by (auto simp: closed_at_def open_upvalues_def)
  have b: "b < h_next h" using open_upvalues_below [OF assms(1), of b t] h(4) by simp
  have "vm_open_upv_ptr ?vm = Some a" using assms(1) by (simp add: open_upvalues_def)
  then have "\<exists>vm2. capture_upvalue E t ?vm = Inr (h_next h, vm2)"
    using u assms(4) by (simp add: capture_upvalue_def act_simps capture_loop.simps on_heap_def get_upvalue_obj_def
        location_above_def allocate_def allocate_object_def link_upvalue_def)
  with h(1) v b show ?thesis by fastforce
qed

definition plain_env :: env where
  "plain_env = \<lparr>e_layout = \<lparr>pad32 = 0, pad56 = 0, ptr_bits = (\<lambda>_. 0)\<rparr>, e_fmt = (\<lambda>_. []),
     e_extern = (\<lambda>_ _. Inr VNull), e_heap_above_stack = False\<rparr>"

lemma close_breaks_sharing_witness:
  "\<exists>vm1 vm2 c. close_upvalues plain_env 0 two_open = Inr ((), vm1) \<and>
     capture_upvalue plain_env 0 vm1 = Inr (c, vm2) \<and> c \<noteq> 0"
proof -
  have "\<forall>(a, s)\<in>set [(1, 1), (0, 0)]. \<exists>x. buf_read (vm_stack two_open) s = Inr x"
    using two_open(2,3) by (simp del: One_nat_def)
  moreover have "\<not> e_heap_above_stack plain_env" by (simp add: plain_env_def)
  ultimately show ?thesis using close_breaks_sharing [OF two_open(1), of 0 plain_env] by auto
qed

end
