(* ===== verification/Joker_Execution.thy ===== *)
theory Joker_Execution
  imports Joker_Run Joker_Upvalues
begin

text \<open>
  What the virtual machine does: the stack as a list, the effect of reading operands and of a
  runtime error, and the properties of calls, globals, strings, errors and of the loop.
\<close>

subsection \<open>The stack as a list\<close>

definition stack_is :: "vm \<Rightarrow> jvalue list \<Rightarrow> bool" where
  "stack_is vm xs \<longleftrightarrow> machine_ok vm \<and> vm_stack_top vm = length xs \<and> holds (vm_stack vm) xs"

lemma stack_isD:
  assumes "stack_is vm xs"
  shows "machine_ok vm" "vm_stack_top vm = length xs" "holds (vm_stack vm) xs"
    "length xs \<le> constant_stack_max" "length (vm_stack vm) = constant_stack_max"
  using assms by (auto simp: stack_is_def machine_ok_def)

lemma stack_is_fresh: "stack_is fresh_vm []"
  using machine_ok_fresh by (simp add: stack_is_def fresh_vm_def)

lemma push_stack:
  assumes "stack_is vm xs" and "length xs < constant_stack_max"
  shows "\<exists>b. push v vm = Inr ((), vm\<lparr>vm_stack := b, vm_stack_top := Suc (length xs)\<rparr>) \<and>
    stack_is (vm\<lparr>vm_stack := b, vm_stack_top := Suc (length xs)\<rparr>) (xs @ [v])"
proof -
  note s = stack_isD [OF assms(1)]
  obtain b where b: "buf_write (vm_stack vm) (length xs) v = Inr b" "holds b (xs @ [v])"
    "length b = length (vm_stack vm)"
    using holds_write_last [OF s(3), of v] assms(2) s(5) by auto
  have "push v vm = Inr ((), vm\<lparr>vm_stack := b, vm_stack_top := Suc (length xs)\<rparr>)"
    using b(1) s(2) assms(2) by (simp add: push_def act_simps)
  moreover have "stack_is (vm\<lparr>vm_stack := b, vm_stack_top := Suc (length xs)\<rparr>) (xs @ [v])"
    using b s assms(2) by (auto simp: stack_is_def machine_ok_def)
  ultimately show ?thesis by blast
qed

lemma pop_stack:
  assumes "stack_is vm (xs @ [v])"
  shows "pop vm = Inr (v, vm\<lparr>vm_stack_top := length xs\<rparr>)" "stack_is (vm\<lparr>vm_stack_top := length xs\<rparr>) xs"
proof -
  note s = stack_isD [OF assms]
  have "buf_read (vm_stack vm) (length xs) = Inr v" using holds_read [OF s(3), of "length xs"] by simp
  then show "pop vm = Inr (v, vm\<lparr>vm_stack_top := length xs\<rparr>)" using s(2) by (simp add: pop_def act_simps)
  have "holds (vm_stack vm) xs" using s(3) by (auto simp: holds_iff_append)
  then show "stack_is (vm\<lparr>vm_stack_top := length xs\<rparr>) xs"
    using s by (auto simp: stack_is_def machine_ok_def)
qed

lemma peek_stack:
  assumes "stack_is vm xs" and "d < length xs"
  shows "peek_slot d vm = Inr (length xs - 1 - d, vm)"
    "peek_value d vm = Inr (xs ! (length xs - 1 - d), vm)"
proof -
  note s = stack_isD [OF assms(1)]
  show p: "peek_slot d vm = Inr (length xs - 1 - d, vm)" using s(2) assms(2) by (simp add: peek_slot_def act_simps)
  have "buf_read (vm_stack vm) (length xs - 1 - d) = Inr (xs ! (length xs - 1 - d))"
    using assms(2) by (intro holds_read [OF s(3)]) simp
  with p show "peek_value d vm = Inr (xs ! (length xs - 1 - d), vm)"
    by (simp add: peek_value_def read_slot_def act_simps)
qed

lemma read_slot_stack: "stack_is vm xs \<Longrightarrow> i < length xs \<Longrightarrow> read_slot i vm = Inr (xs ! i, vm)"
  using holds_read [OF stack_isD(3)] by (simp add: read_slot_def act_simps)

lemma holds_update:
  assumes "holds b xs" and "i < length xs"
  shows "buf_write b i v = Inr (b[i := Some v])" "holds (b[i := Some v]) (xs[i := v])"
  using assms holds_length [OF assms(1)]
  by (auto simp: holds_iff_append buf_write_def list_update_append map_update)

lemma write_slot_stack:
  assumes "stack_is vm xs" and "i < length xs"
  shows "\<exists>b. write_slot i v vm = Inr ((), vm\<lparr>vm_stack := b\<rparr>) \<and> stack_is (vm\<lparr>vm_stack := b\<rparr>) (xs[i := v])"
  using holds_update [OF stack_isD(3) [OF assms(1)] assms(2), of v] assms
  by (auto simp: write_slot_def act_simps stack_is_def machine_ok_def)

subsection \<open>Operands\<close>

text \<open>Reading an operand changes nothing but an instruction pointer.\<close>

definition frames_of :: "vm \<Rightarrow> vm \<Rightarrow> bool" where
  "frames_of vm vm' \<longleftrightarrow> (\<exists>b. vm' = vm\<lparr>vm_frames := b\<rparr>)"

lemma frames_of_refl [simp]: "frames_of vm vm"
  unfolding frames_of_def by (intro exI [of _ "vm_frames vm"]) simp

lemma keeps_frames_set_ip: "keeps (frames_of vm) (set_ip fp ip)"
  by (auto simp: keeps_def set_ip_def set_frame_def frame_at_def act_simps andThen_Inr_iff frames_of_def)

lemma keeps_frames_read:
  "keeps (frames_of vm) (read_byte fp)" "keeps (frames_of vm) (constant_at fp i)"
  "keeps (frames_of vm) (jump_forward fp i)" "keeps (frames_of vm) (frame_line fp)"
  unfolding read_byte_def constant_at_def frame_at_def frame_fn_def jump_forward_def frame_line_def
  by (intro keeps_intros keeps_frames_set_ip)+

lemma keeps_frames_operands:
  "keeps (frames_of vm) (read_constant fp)" "keeps (frames_of vm) (read_string fp)"
  "keeps (frames_of vm) (read_short fp)"
  unfolding read_string_def read_constant_def read_short_def by (intro keeps_intros keeps_frames_read)+

lemma read_string_frames: "read_string fp vm = Inr (x, vm') \<Longrightarrow> frames_of vm vm'"
  by (rule keepsD [OF keeps_frames_operands(2)]) simp_all

lemma frames_of_stack:
  assumes "frames_of vm vm'" and "machine_ok vm'" and "stack_is vm xs"
  shows "stack_is vm' xs"
  using assms by (auto simp: frames_of_def stack_is_def)

subsection \<open>Runtime errors\<close>

text \<open>The trace reads and changes nothing.\<close>

lemma frame_line_state: "frame_line fp vm = Inr (x, vm') \<Longrightarrow> vm' = vm"
  by (auto simp: frame_line_def frame_at_def frame_fn_def act_simps andThen_Inr_iff split: if_splits)

lemma trace_frames_state: "trace_frames n vm = Inr (x, vm') \<Longrightarrow> vm' = vm"
proof (induction n arbitrary: vm)
  case 0
  then show ?case by (simp add: act_simps)
next
  case (Suc n)
  then obtain l vm1 where "frame_line n vm = Inr (l, vm1)" "trace_frames n vm1 = Inr (x, vm')"
    by (auto simp: act_simps andThen_Inr_iff)
  with Suc.IH frame_line_state show ?case by blast
qed

definition after_error :: "string \<Rightarrow> vm \<Rightarrow> vm" where
  "after_error msg vm = reset_stack (vm\<lparr>vm_errors := vm_errors vm @ [msg]\<rparr>)"

lemma after_error_simps [simp]:
  "vm_stack_top (after_error msg vm) = 0" "vm_frame_count (after_error msg vm) = 0"
  "vm_open_upv_ptr (after_error msg vm) = None" "vm_errors (after_error msg vm) = vm_errors vm @ [msg]"
  by (simp_all add: after_error_def reset_stack_def)

lemma runtime_error_state: "runtime_error msg vm = Inr (x, vm') \<Longrightarrow> vm' = after_error msg vm"
  by (auto simp: runtime_error_def act_simps andThen_Inr_iff after_error_def dest: trace_frames_state)

lemma report_false_state: "report_false msg vm = Inr (b, vm') \<Longrightarrow> \<not> b \<and> vm' = after_error msg vm"
  by (auto simp: report_false_def act_simps andThen_Inr_iff dest: runtime_error_state)

lemma fail_at_state: "fail_at fp msg vm = Inr (r, vm') \<Longrightarrow> r = interpret_runtime_error \<and> vm' = after_error msg vm"
  by (auto simp: fail_at_def runtime_error_at_def act_simps andThen_Inr_iff dest: runtime_error_state frame_line_state)

lemma native_error_state: "native_error msg vm = Inr (v, vm') \<Longrightarrow> v = VNull \<and> vm' = after_error msg vm"
  by (auto simp: native_error_def act_simps andThen_Inr_iff dest: runtime_error_state)

subsection \<open>Executions\<close>

text \<open>The states the loop goes through, each with its current frame.\<close>

inductive steps :: "env \<Rightarrow> nat \<times> vm \<Rightarrow> nat \<times> vm \<Rightarrow> bool" for E where
  steps_refl: "steps E c c"
| steps_step: "step E fp vm = Inr (Some fp', vm') \<Longrightarrow> steps E (fp', vm') c \<Longrightarrow> steps E (fp, vm) c"

lemmas steps_induct = steps.induct [split_format (complete)]

lemma steps_keep_machine: "steps E (fp, vm) (fp', vm') \<Longrightarrow> machine_ok vm \<Longrightarrow> machine_ok vm'"
  by (induction rule: steps_induct) (auto dest: keepsD [OF keeps_step])

lemma step_run: "step E fp vm = Inr (Some fp', vm') \<Longrightarrow> run_loop (Suc n) E fp vm = run_loop n E fp' vm'"
  by (simp add: act_simps)

lemma run_loop_steps:
  "run_loop n E fp vm = Inr (r, vm') \<Longrightarrow>
   r = interpret_ok \<and> (\<exists>fp1 vm1. steps E (fp, vm) (fp1, vm1) \<and> step E fp1 vm1 = Inr (None, vm'))"
proof (induction n arbitrary: fp vm)
  case 0
  then show ?case by (simp add: act_simps)
next
  case (Suc n)
  then obtain opt vm1 where s: "step E fp vm = Inr (opt, vm1)"
    "(case opt of None \<Rightarrow> ok | Some fp \<Rightarrow> run_loop n E fp) vm1 = Inr (r, vm')"
    by (auto simp: act_simps andThen_Inr_iff)
  show ?case
  proof (cases opt)
    case None
    with s show ?thesis by (auto simp: ok_def act_simps intro: steps_refl)
  next
    case (Some fp1)
    with s Suc.IH [of fp1 vm1] show ?thesis by (auto intro: steps_step)
  qed
qed

lemma run_loop_more: "run_loop n E fp vm = Inr x \<Longrightarrow> n \<le> m \<Longrightarrow> run_loop m E fp vm = Inr x"
proof (induction n arbitrary: fp vm m)
  case 0
  then show ?case by (simp add: act_simps)
next
  case (Suc n)
  then obtain k where m: "m = Suc k" "n \<le> k" by (cases m) auto
  from Suc.prems(1) obtain opt vm1 where s: "step E fp vm = Inr (opt, vm1)"
    "(case opt of None \<Rightarrow> ok | Some fp \<Rightarrow> run_loop n E fp) vm1 = Inr x"
    by (auto simp: act_simps andThen_Inr_iff)
  with Suc.IH m show ?case by (auto simp: act_simps split: option.splits)
qed

lemma steps_run_loop:
  "steps E (fp, vm) (fp1, vm1) \<Longrightarrow> step E fp1 vm1 = Inr (None, vm') \<Longrightarrow>
   \<exists>n. run_loop n E fp vm = Inr (interpret_ok, vm')"
proof (induction rule: steps_induct)
  case (steps_refl fp vm)
  then have "run_loop 1 E fp vm = Inr (interpret_ok, vm')" by (simp add: ok_def act_simps)
  then show ?case by blast
next
  case (steps_step fp vm fp' vm1 fp1 vm2)
  then show ?case using step_run by metis
qed

subsection \<open>The start of the machine\<close>

lemma stack_is_update [simp]:
  "stack_is (vm\<lparr>vm_heap := h\<rparr>) xs = stack_is vm xs"
  "stack_is (vm\<lparr>vm_globals := m\<rparr>) xs = stack_is vm xs"
  "stack_is (vm\<lparr>vm_types := m\<rparr>) xs = stack_is vm xs"
  by (simp_all add: stack_is_def machine_ok_def)

lemma pop_two:
  assumes "stack_is vm [x, y]"
  shows "pop_times 2 vm = Inr ((), vm\<lparr>vm_stack_top := 0\<rparr>)" "stack_is (vm\<lparr>vm_stack_top := 0\<rparr>) []"
proof -
  from assms have "stack_is vm ([x] @ [y])" by simp
  note p = pop_stack [OF this]
  from p(2) have "stack_is (vm\<lparr>vm_stack_top := length [x]\<rparr>) ([] @ [x])" by simp
  note q = pop_stack [OF this]
  have "pop_times (Suc (Suc 0)) vm = Inr ((), vm\<lparr>vm_stack_top := 0\<rparr>)" using p(1) q(1) by (simp add: act_simps)
  then show "pop_times 2 vm = Inr ((), vm\<lparr>vm_stack_top := 0\<rparr>)" by (simp only: numeral_2_eq_2)
  show "stack_is (vm\<lparr>vm_stack_top := 0\<rparr>) []" using q(2) by simp
qed

text \<open>The store of a pushed name and value in a table that \<open>G\<close> reads and \<open>U\<close> writes.\<close>

definition store_pushed ::
    "(vm \<Rightarrow> string hashmap) \<Rightarrow> (string hashmap \<Rightarrow> vm \<Rightarrow> vm) \<Rightarrow> unit vm_action" where
  "store_pushed G U =
     act_bind (stack_string 0) (\<lambda>key. act_bind (read_slot 1) (\<lambda>v.
     act_bind (act_get G) (\<lambda>m. act_bind (insert_entry m key v) (\<lambda>m.
     act_then (act_update (U m)) (pop_times 2)))))"

lemma store_pushed:
  assumes "stack_is vm [string_value name, v]" and "hm_wf hash_string (G vm)" and "hm_count (G vm) < hm_limit"
    and "\<And>m. stack_is (U m vm) [string_value name, v]"
  obtains m where "store_pushed G U vm = Inr ((), (U m vm)\<lparr>vm_stack_top := 0\<rparr>)" and "hm_wf hash_string m"
    and "hm_map m = (hm_map (G vm))(name \<mapsto> v)" and "hm_count m \<le> Suc (hm_count (G vm))"
    and "stack_is ((U m vm)\<lparr>vm_stack_top := 0\<rparr>) []"
proof -
  obtain m where m: "hashmap_set hash_string (G vm) name v = Inr (m, hm_map (G vm) name = None)"
    "hm_wf hash_string m" "hm_map m = (hm_map (G vm))(name \<mapsto> v)" "hm_count m \<le> Suc (hm_count (G vm))"
    using hm.put_law [OF assms(2,3), of name v] by blast
  have "store_pushed G U vm = Inr ((), (U m vm)\<lparr>vm_stack_top := 0\<rparr>)"
    using m(1) read_slot_stack [OF assms(1), of 0] read_slot_stack [OF assms(1), of 1]
      pop_two(1) [OF assms(4) [of m]]
    by (simp add: store_pushed_def stack_string_def act_simps as_string_def string_value_def insert_entry_def)
  from that [OF this m(2-4) pop_two(2) [OF assms(4) [of m]]] show thesis .
qed

text \<open>Two machines that differ in their stacks alone.\<close>

definition same_rest :: "vm \<Rightarrow> vm \<Rightarrow> bool" where
  "same_rest vm vm' \<longleftrightarrow>
     vm_heap vm' = vm_heap vm \<and> vm_globals vm' = vm_globals vm \<and> vm_types vm' = vm_types vm \<and>
     vm_frames vm' = vm_frames vm \<and> vm_frame_count vm' = vm_frame_count vm \<and>
     vm_open_upv_ptr vm' = vm_open_upv_ptr vm \<and> vm_errors vm' = vm_errors vm \<and> vm_printed vm' = vm_printed vm"

lemma same_restD:
  assumes "same_rest vm vm'"
  shows "vm_heap vm' = vm_heap vm" "vm_globals vm' = vm_globals vm" "vm_types vm' = vm_types vm"
    "vm_frames vm' = vm_frames vm" "vm_frame_count vm' = vm_frame_count vm"
    "vm_open_upv_ptr vm' = vm_open_upv_ptr vm" "vm_errors vm' = vm_errors vm" "vm_printed vm' = vm_printed vm"
  using assms by (simp_all add: same_rest_def)

lemma push_rest:
  assumes "stack_is vm xs" and "length xs < constant_stack_max"
  obtains vm' where "push v vm = Inr ((), vm')" and "stack_is vm' (xs @ [v])" and "same_rest vm vm'"
proof -
  from push_stack [OF assms, of v] obtain b where b: "push v vm = Inr ((), vm\<lparr>vm_stack := b, vm_stack_top := Suc (length xs)\<rparr>)"
    "stack_is (vm\<lparr>vm_stack := b, vm_stack_top := Suc (length xs)\<rparr>) (xs @ [v])" by blast
  then show thesis by (rule that) (simp add: same_rest_def)
qed

lemma small_stack: "1 < constant_stack_max" "0 < constant_stack_max"
  by (simp_all add: constant_stack_max_def frames_stack_max_def)

text \<open>An object the machine knows under a name.\<close>

definition knows :: "vm \<Rightarrow> (string \<Rightarrow> jvalue option) \<Rightarrow> string \<Rightarrow> obj \<Rightarrow> bool" where
  "knows vm m name x \<longleftrightarrow> (\<exists>a. m name = Some (obj_value a) \<and> h_objs (vm_heap vm) a = Some x)"

definition ready :: "vm \<Rightarrow> bool" where
  "ready vm \<longleftrightarrow> stack_is vm [] \<and> hm_wf hash_string (vm_globals vm) \<and> hm_count (vm_globals vm) < 100 \<and>
     hm_wf hash_string (vm_types vm) \<and> (\<forall>a. h_objs (vm_heap vm) a \<noteq> None \<longrightarrow> a < h_next (vm_heap vm))"

lemma define_native_ready:
  assumes "ready vm" and "n = hm_count (vm_globals vm)" and "n < 99"
  obtains vm' where "define_native name f vm = Inr ((), vm')" and "ready vm'"
    and "hm_count (vm_globals vm') \<le> Suc n" and "vm_types vm' = vm_types vm"
    and "hm_map (vm_globals vm') = (hm_map (vm_globals vm))(name \<mapsto> obj_value (h_next (vm_heap vm)))"
    and "h_objs (vm_heap vm') = (h_objs (vm_heap vm))(h_next (vm_heap vm) \<mapsto> ONative \<lparr>nt_fn = f, nt_is_builtin_method = False\<rparr>)"
proof -
  let ?a = "h_next (vm_heap vm)"
  let ?h = "snd (new_native f False (vm_heap vm))"
  from assms(1) have vm: "stack_is vm []" by (simp add: ready_def)
  obtain vm1 where vm1: "push (string_value name) vm = Inr ((), vm1)" "stack_is vm1 [string_value name]"
    "same_rest vm vm1" using push_rest [OF vm] small_stack by auto
  let ?vm1 = "vm1\<lparr>vm_heap := ?h\<rparr>"
  have "stack_is ?vm1 [string_value name]" using vm1(2) by simp
  then obtain vm2 where vm2: "push (obj_value ?a) ?vm1 = Inr ((), vm2)"
    "stack_is vm2 [string_value name, obj_value ?a]" "same_rest ?vm1 vm2"
    using push_rest [of ?vm1 "[string_value name]"] small_stack by auto
  note eq = same_restD [OF vm1(3)] same_restD [OF vm2(3)]
  have wf: "hm_wf hash_string (vm_globals vm2)" "hm_count (vm_globals vm2) < hm_limit"
    using assms eq by (auto simp: ready_def hm_limit_def)
  obtain m where m: "store_pushed vm_globals (\<lambda>m vm. vm\<lparr>vm_globals := m\<rparr>) vm2 =
      Inr ((), vm2\<lparr>vm_globals := m, vm_stack_top := 0\<rparr>)" "hm_wf hash_string m"
    "hm_map m = (hm_map (vm_globals vm2))(name \<mapsto> obj_value ?a)" "hm_count m \<le> Suc (hm_count (vm_globals vm2))"
    "stack_is (vm2\<lparr>vm_globals := m, vm_stack_top := 0\<rparr>) []"
    by (rule store_pushed [where G = vm_globals and U = "\<lambda>m vm. vm\<lparr>vm_globals := m\<rparr>", OF vm2(2) wf])
      (use vm2(2) in simp_all)
  let ?vm' = "vm2\<lparr>vm_globals := m, vm_stack_top := 0\<rparr>"
  have "define_native name f vm = Inr ((), ?vm')"
    using vm1(1) vm2(1) m(1) eq(1)
    by (simp add: define_native_def store_pushed_def set_globals_def act_simps allocate_def new_native_def allocate_object_def)
  moreover have "ready ?vm'"
    using m(2,4,5) assms eq by (auto simp: ready_def new_native_def less_Suc_eq)
  ultimately show thesis
    by (rule that) (use m(3,4) eq assms(2) in \<open>simp_all add: new_native_def\<close>)
qed

text \<open>The class whose methods are being defined.\<close>

definition class_ready :: "vm \<Rightarrow> vm \<Rightarrow> nat \<Rightarrow> class_obj \<Rightarrow> bool" where
  "class_ready vm0 vm a k \<longleftrightarrow>
     stack_is vm [] \<and> vm_globals vm = vm_globals vm0 \<and> vm_types vm = vm_types vm0 \<and>
     h_objs (vm_heap vm) a = Some (OClass k) \<and> hm_wf hash_string (cls_methods k) \<and>
     (\<forall>a. h_objs (vm_heap vm) a \<noteq> None \<longrightarrow> a < h_next (vm_heap vm))"

definition has_native :: "vm \<Rightarrow> class_obj \<Rightarrow> string \<times> native_fn \<Rightarrow> bool" where
  "has_native vm k x \<longleftrightarrow> (\<exists>b. hm_map (cls_methods k) (fst x) = Some (obj_value b) \<and>
     h_objs (vm_heap vm) b = Some (ONative \<lparr>nt_fn = snd x, nt_is_builtin_method = True\<rparr>))"

lemma define_class_native_ready:
  assumes "class_ready vm0 vm a k" and "hm_count (cls_methods k) < 100"
  obtains vm' k' where "define_class_native a x vm = Inr ((), vm')" and "class_ready vm0 vm' a k'"
    and "hm_count (cls_methods k') \<le> Suc (hm_count (cls_methods k))" and "has_native vm' k' x"
    and "\<And>y. has_native vm k y \<Longrightarrow> fst y \<noteq> fst x \<Longrightarrow> has_native vm' k' y"
    and "cls_vtable k' = cls_vtable k" and "cls_name k' = cls_name k"
proof -
  let ?b = "h_next (vm_heap vm)"
  let ?native = "ONative \<lparr>nt_fn = snd x, nt_is_builtin_method = True\<rparr>"
  let ?h = "snd (new_native (snd x) True (vm_heap vm))"
  have vm: "stack_is vm []" and k: "h_objs (vm_heap vm) a = Some (OClass k)" "hm_wf hash_string (cls_methods k)"
    and bound: "\<forall>a. h_objs (vm_heap vm) a \<noteq> None \<longrightarrow> a < ?b"
    using assms(1) by (simp_all add: class_ready_def)
  have ab: "a < ?b" using k(1) bound by simp
  obtain vm1 where vm1: "push (string_value (fst x)) vm = Inr ((), vm1)" "stack_is vm1 [string_value (fst x)]"
    "same_rest vm vm1" using push_rest [OF vm] small_stack by auto
  let ?vm1 = "vm1\<lparr>vm_heap := ?h\<rparr>"
  have "stack_is ?vm1 [string_value (fst x)]" using vm1(2) by simp
  then obtain vm2 where vm2: "push (obj_value ?b) ?vm1 = Inr ((), vm2)"
    "stack_is vm2 [string_value (fst x), obj_value ?b]" "same_rest ?vm1 vm2"
    using push_rest [of ?vm1 "[string_value (fst x)]"] small_stack by auto
  note eq = same_restD [OF vm1(3)] same_restD [OF vm2(3)]
  have klass: "get_class (vm_heap vm2) a = Inr k" using k(1) ab eq by (simp add: get_class_def new_native_def)
  let ?U = "\<lambda>m vm. vm\<lparr>vm_heap := write_obj a (OClass (k\<lparr>cls_methods := m\<rparr>)) (vm_heap vm)\<rparr>"
  obtain m where m: "store_pushed (\<lambda>_. cls_methods k) ?U vm2 = Inr ((), (?U m vm2)\<lparr>vm_stack_top := 0\<rparr>)"
    "hm_wf hash_string m" "hm_map m = (hm_map (cls_methods k))(fst x \<mapsto> obj_value ?b)"
    "hm_count m \<le> Suc (hm_count (cls_methods k))" "stack_is ((?U m vm2)\<lparr>vm_stack_top := 0\<rparr>) []"
    by (rule store_pushed [where G = "\<lambda>_. cls_methods k" and U = ?U, OF vm2(2)])
      (use k(2) assms(2) vm2(2) in \<open>simp_all add: hm_limit_def\<close>)
  let ?vm' = "(?U m vm2)\<lparr>vm_stack_top := 0\<rparr>"
  let ?k = "k\<lparr>cls_methods := m\<rparr>"
  have reads: "stack_string 0 vm2 = Inr (fst x, vm2)" "read_slot (Suc 0) vm2 = Inr (obj_value ?b, vm2)"
    using read_slot_stack [OF vm2(2), of 0] read_slot_stack [OF vm2(2), of 1]
    by (simp_all add: stack_string_def act_simps as_string_def string_value_def)
  have d1: "define_class_native a x vm = Inr ((), ?vm')"
    using vm1(1) vm2(1) m(1) eq(1) klass reads
    by (simp add: define_class_native_def store_pushed_def store_obj_def on_heap_def act_simps allocate_def
        new_native_def allocate_object_def)
  have d2: "class_ready vm0 ?vm' a ?k"
    using m(2,5) assms(1) eq ab by (auto simp: class_ready_def new_native_def less_Suc_eq)
  have d3: "has_native ?vm' ?k x"
    using m(3) eq ab by (auto simp: has_native_def new_native_def)
  have d4: "has_native ?vm' ?k y" if "has_native vm k y" "fst y \<noteq> fst x" for y
  proof -
    from that(1) obtain c where c: "hm_map (cls_methods k) (fst y) = Some (obj_value c)"
      "h_objs (vm_heap vm) c = Some (ONative \<lparr>nt_fn = snd y, nt_is_builtin_method = True\<rparr>)"
      by (auto simp: has_native_def)
    then have "c \<noteq> a" "c \<noteq> ?b" using k(1) bound by auto
    with c m(3) that(2) eq show ?thesis
      unfolding has_native_def by (intro exI [of _ c]) (simp add: new_native_def)
  qed
  show thesis by (rule that [OF d1 d2 _ d3 d4]) (use m(4) in simp_all)
qed

lemma define_class_natives_ready:
  assumes "class_ready vm0 vm a k" and "hm_count (cls_methods k) + length xs \<le> 100" and "distinct (map fst xs)"
  shows "\<exists>vm' k'. define_class_natives xs a vm = Inr ((), vm') \<and> class_ready vm0 vm' a k' \<and>
    (\<forall>y. (y \<in> set xs \<or> has_native vm k y \<and> fst y \<notin> fst ` set xs) \<longrightarrow> has_native vm' k' y) \<and>
    cls_vtable k' = cls_vtable k \<and> cls_name k' = cls_name k"
  using assms
proof (induction xs arbitrary: vm k)
  case Nil
  then show ?case by (auto simp: act_simps)
next
  case (Cons x xs)
  have "hm_count (cls_methods k) < 100" using Cons.prems(2) by simp
  from define_class_native_ready [OF Cons.prems(1) this, of x]
  obtain vm1 k1 where k1: "define_class_native a x vm = Inr ((), vm1)" "class_ready vm0 vm1 a k1"
    "hm_count (cls_methods k1) \<le> Suc (hm_count (cls_methods k))" "has_native vm1 k1 x"
    "\<And>y. has_native vm k y \<Longrightarrow> fst y \<noteq> fst x \<Longrightarrow> has_native vm1 k1 y"
    "cls_vtable k1 = cls_vtable k" "cls_name k1 = cls_name k" by metis
  with Cons.prems(2,3) obtain vm' k' where "define_class_natives xs a vm1 = Inr ((), vm')" "class_ready vm0 vm' a k'"
    "\<forall>y. (y \<in> set xs \<or> has_native vm1 k1 y \<and> fst y \<notin> fst ` set xs) \<longrightarrow> has_native vm' k' y"
    "cls_vtable k' = cls_vtable k1" "cls_name k' = cls_name k1"
    using Cons.IH [OF k1(2)] by auto
  with k1 Cons.prems(3) show ?case by (intro exI [of _ vm'] exI [of _ k']) (auto simp: act_simps)
qed

text \<open>The globals defined so far, from the machine \<open>vm0\<close> on.\<close>

definition natives_ok :: "vm \<Rightarrow> vm \<Rightarrow> string list \<Rightarrow> bool" where
  "natives_ok vm0 vm names \<longleftrightarrow>
     ready vm \<and> hm_count (vm_globals vm) \<le> length names \<and> vm_types vm = vm_types vm0 \<and>
     dom (hm_map (vm_globals vm)) = set names \<and>
     (\<forall>n\<in>set names. knows vm (hm_map (vm_globals vm)) n
        (ONative \<lparr>nt_fn = native_extern n, nt_is_builtin_method = False\<rparr>)) \<and>
     h_objs (vm_heap vm0) \<subseteq>\<^sub>m h_objs (vm_heap vm)"

lemma define_native_ok:
  assumes "natives_ok vm0 vm names" and "length names < 90"
  shows "\<exists>vm'. define_native n (native_extern n) vm = Inr ((), vm') \<and> natives_ok vm0 vm' (n # names)"
proof -
  let ?a = "h_next (vm_heap vm)"
  let ?x = "ONative \<lparr>nt_fn = native_extern n, nt_is_builtin_method = False\<rparr>"
  have r: "ready vm" and c: "hm_count (vm_globals vm) < 99" using assms by (auto simp: natives_ok_def)
  obtain vm' where vm': "define_native n (native_extern n) vm = Inr ((), vm')" "ready vm'"
    "hm_count (vm_globals vm') \<le> Suc (hm_count (vm_globals vm))" "vm_types vm' = vm_types vm"
    "hm_map (vm_globals vm') = (hm_map (vm_globals vm))(n \<mapsto> obj_value ?a)"
    "h_objs (vm_heap vm') = (h_objs (vm_heap vm))(?a \<mapsto> ?x)"
    by (rule define_native_ready [OF r refl c, of n "native_extern n"])
  have fresh: "h_objs (vm_heap vm) ?a = None" using r by (auto simp: ready_def)
  have "h_objs (vm_heap vm) \<subseteq>\<^sub>m h_objs (vm_heap vm')" using vm'(6) fresh by (auto simp: map_le_def)
  moreover have "knows vm' (hm_map (vm_globals vm')) m (ONative \<lparr>nt_fn = native_extern m, nt_is_builtin_method = False\<rparr>)"
    if "m \<in> set (n # names)" for m
  proof (cases "m = n")
    case True
    with vm' show ?thesis by (auto simp: knows_def)
  next
    case False
    with that assms(1) obtain b where "hm_map (vm_globals vm) m = Some (obj_value b)"
      "h_objs (vm_heap vm) b = Some (ONative \<lparr>nt_fn = native_extern m, nt_is_builtin_method = False\<rparr>)"
      by (auto simp: natives_ok_def knows_def)
    with vm' fresh False show ?thesis by (auto simp: knows_def intro!: exI [of _ b])
  qed
  ultimately show ?thesis
    using vm'(1-5) assms(1) by (auto simp: natives_ok_def intro: map_le_trans)
qed

lemma type_register_ready:
  obtains vm a k where "type_register ''Vec'' (vec_vtable VM_C) vec_export_methods fresh_vm = Inr ((), vm)"
    and "natives_ok vm vm []" and "hm_map (vm_types vm) = [''Vec'' \<mapsto> obj_value a]"
    and "h_objs (vm_heap vm) a = Some (OClass k)" and "cls_name k = ''Vec''" and "cls_vtable k = vec_vtable VM_C"
    and "\<forall>y\<in>set vec_export_methods. has_native vm k y"
proof -
  let ?k = "\<lparr>cls_name = ''Vec'', cls_methods = init_hashmap, cls_vtable = vec_vtable VM_C\<rparr>"
  let ?vm = "fresh_vm\<lparr>vm_heap := write_obj 0 (OClass ?k) (snd (new_class ''Vec'' empty_heap))\<rparr>"
  have "class_ready fresh_vm ?vm 0 ?k"
    using stack_is_fresh hm_wf_empty [of hash_string] unfolding class_ready_def
    by (simp only: stack_is_update, simp add: fresh_vm_def new_class_def empty_heap_def)
  moreover have "hm_count (cls_methods ?k) + length vec_export_methods \<le> 100"
      "distinct (map fst vec_export_methods)"
    by (simp_all add: init_hashmap_def vec_export_methods_def)
  ultimately have ex: "\<exists>vm' k'. define_class_natives vec_export_methods 0 ?vm = Inr ((), vm') \<and>
      class_ready fresh_vm vm' 0 k' \<and>
      (\<forall>y. (y \<in> set vec_export_methods \<or> has_native ?vm ?k y \<and> fst y \<notin> fst ` set vec_export_methods) \<longrightarrow>
         has_native vm' k' y) \<and> cls_vtable k' = cls_vtable ?k \<and> cls_name k' = cls_name ?k"
    by (rule define_class_natives_ready)
  then obtain vm1 k1 where k1: "define_class_natives vec_export_methods 0 ?vm = Inr ((), vm1)"
    "class_ready fresh_vm vm1 0 k1" "\<forall>y\<in>set vec_export_methods. has_native vm1 k1 y"
    "cls_vtable k1 = vec_vtable VM_C" "cls_name k1 = ''Vec''"
    by (elim exE conjE) (rule that, auto)
  have g: "stack_is vm1 []" "vm_globals vm1 = init_hashmap" "vm_types vm1 = init_hashmap"
    "h_objs (vm_heap vm1) 0 = Some (OClass k1)"
    "\<forall>a. h_objs (vm_heap vm1) a \<noteq> None \<longrightarrow> a < h_next (vm_heap vm1)"
    using k1(2) by (auto simp: class_ready_def fresh_vm_def)
  have empty: "hm_count (init_hashmap :: string hashmap) = 0" by (simp add: init_hashmap_def)
  obtain vm2 where vm2: "push (string_value ''Vec'') vm1 = Inr ((), vm2)" "stack_is vm2 [string_value ''Vec'']"
    "same_rest vm1 vm2" using push_rest [OF g(1)] small_stack by auto
  obtain vm3 where vm3: "push (obj_value 0) vm2 = Inr ((), vm3)" "stack_is vm3 [string_value ''Vec'', obj_value 0]"
    "same_rest vm2 vm3" using push_rest [OF vm2(2)] small_stack by auto
  note eq = same_restD [OF vm2(3)] same_restD [OF vm3(3)]
  obtain m where m: "store_pushed vm_types (\<lambda>m vm. vm\<lparr>vm_types := m\<rparr>) vm3 =
      Inr ((), vm3\<lparr>vm_types := m, vm_stack_top := 0\<rparr>)" "hm_wf hash_string m"
    "hm_map m = (hm_map (vm_types vm3))(''Vec'' \<mapsto> obj_value 0)" "stack_is (vm3\<lparr>vm_types := m, vm_stack_top := 0\<rparr>) []"
    by (rule store_pushed [where G = vm_types and U = "\<lambda>m vm. vm\<lparr>vm_types := m\<rparr>", OF vm3(2)])
      (use vm3(2) hm_wf_empty [of hash_string] eq g in \<open>simp_all add: hm_limit_def init_hashmap_def\<close>)
  let ?vm' = "vm3\<lparr>vm_types := m, vm_stack_top := 0\<rparr>"
  have "register_type ''Vec'' 0 vm1 = Inr ((), ?vm')"
    using vm2(1) vm3(1) m(1) by (simp add: register_type_def store_pushed_def act_simps)
  then have d1: "type_register ''Vec'' (vec_vtable VM_C) vec_export_methods fresh_vm = Inr ((), ?vm')"
    using k1(1) by (simp add: type_register_def act_simps allocate_def fresh_vm_def new_class_def allocate_object_def
        empty_heap_def on_heap_def get_class_def store_obj_def write_obj_def)
  have d2: "natives_ok ?vm' ?vm' []"
    using m(2,4) eq g hm_wf_empty [of hash_string] empty
    by (auto simp: natives_ok_def ready_def hm_map_empty)
  have d3: "\<forall>y\<in>set vec_export_methods. has_native ?vm' k1 y" using k1(3) eq by (simp add: has_native_def)
  show thesis
    by (rule that [OF d1 d2 _ _ _ _ d3, of 0]) (use m(3) k1(4,5) eq g in \<open>simp_all add: hm_map_empty\<close>)
qed

lemma init_run:
  "natives_ok vm0 vm0 [] \<Longrightarrow> type_register ''Vec'' (vec_vtable VM_C) vec_export_methods fresh_vm = Inr ((), vm0) \<Longrightarrow>
   \<exists>vm. init_virtual_machine fresh_vm = Inr ((), vm) \<and>
     natives_ok vm0 vm [''println'', ''print'', ''now'', ''date'', ''sleep'', ''time'', ''clock'']"
proof -
  assume n0: "natives_ok vm0 vm0 []" and
    r0: "type_register ''Vec'' (vec_vtable VM_C) vec_export_methods fresh_vm = Inr ((), vm0)"
  obtain vm1 where 1: "define_native ''clock'' (native_extern ''clock'') vm0 = Inr ((), vm1)" "natives_ok vm0 vm1 [''clock'']"
    using define_native_ok [OF n0] by auto
  obtain vm2 where 2: "define_native ''time'' (native_extern ''time'') vm1 = Inr ((), vm2)"
      "natives_ok vm0 vm2 [''time'', ''clock'']"
    using define_native_ok [OF 1(2)] by auto
  obtain vm3 where 3: "define_native ''sleep'' (native_extern ''sleep'') vm2 = Inr ((), vm3)"
      "natives_ok vm0 vm3 [''sleep'', ''time'', ''clock'']"
    using define_native_ok [OF 2(2)] by auto
  obtain vm4 where 4: "define_native ''date'' (native_extern ''date'') vm3 = Inr ((), vm4)"
      "natives_ok vm0 vm4 [''date'', ''sleep'', ''time'', ''clock'']"
    using define_native_ok [OF 3(2)] by auto
  obtain vm5 where 5: "define_native ''now'' (native_extern ''now'') vm4 = Inr ((), vm5)"
      "natives_ok vm0 vm5 [''now'', ''date'', ''sleep'', ''time'', ''clock'']"
    using define_native_ok [OF 4(2)] by auto
  obtain vm6 where 6: "define_native ''print'' (native_extern ''print'') vm5 = Inr ((), vm6)"
      "natives_ok vm0 vm6 [''print'', ''now'', ''date'', ''sleep'', ''time'', ''clock'']"
    using define_native_ok [OF 5(2)] by auto
  obtain vm7 where 7: "define_native ''println'' (native_extern ''println'') vm6 = Inr ((), vm7)"
      "natives_ok vm0 vm7 [''println'', ''print'', ''now'', ''date'', ''sleep'', ''time'', ''clock'']"
    using define_native_ok [OF 6(2)] by auto
  show ?thesis
    using r0 1(1) 2(1) 3(1) 4(1) 5(1) 6(1) 7 by (simp add: init_virtual_machine_def act_then_apply)
qed

subsection \<open>The properties of the machine\<close>

lemma init_virtual_machine_run:
  "\<exists>vm a k. init_virtual_machine fresh_vm = Inr ((), vm) \<and> stack_is vm [] \<and>
    dom (hm_map (vm_globals vm)) =
      {''println'', ''print'', ''now'', ''date'', ''sleep'', ''time'', ''clock''} \<and>
    (\<forall>n. n \<in> dom (hm_map (vm_globals vm)) \<longleftrightarrow>
       knows vm (hm_map (vm_globals vm)) n (ONative \<lparr>nt_fn = native_extern n, nt_is_builtin_method = False\<rparr>)) \<and>
    hm_map (vm_types vm) = [''Vec'' \<mapsto> obj_value a] \<and> h_objs (vm_heap vm) a = Some (OClass k) \<and>
    cls_vtable k = vec_vtable VM_C \<and> list_all (has_native vm k) vec_export_methods"
proof -
  let ?names = "[''println'', ''print'', ''now'', ''date'', ''sleep'', ''time'', ''clock'']"
  obtain vm0 a k where 0: "type_register ''Vec'' (vec_vtable VM_C) vec_export_methods fresh_vm = Inr ((), vm0)"
    "natives_ok vm0 vm0 []" "hm_map (vm_types vm0) = [''Vec'' \<mapsto> obj_value a]"
    "h_objs (vm_heap vm0) a = Some (OClass k)" "cls_name k = ''Vec''" "cls_vtable k = vec_vtable VM_C"
    "\<forall>y\<in>set vec_export_methods. has_native vm0 k y" by (rule type_register_ready)
  obtain vm where vm: "init_virtual_machine fresh_vm = Inr ((), vm)" "natives_ok vm0 vm ?names"
    using init_run [OF 0(2,1)] by blast
  have le: "h_objs (vm_heap vm0) \<subseteq>\<^sub>m h_objs (vm_heap vm)" and types: "vm_types vm = vm_types vm0"
    using vm(2) by (auto simp: natives_ok_def)
  have k: "h_objs (vm_heap vm) a = Some (OClass k)" using le 0(4) by (metis domI map_le_def)
  have methods: "list_all (has_native vm k) vec_export_methods"
    unfolding list_all_iff
  proof
    fix y assume "y \<in> set vec_export_methods"
    with 0(7) obtain b where "hm_map (cls_methods k) (fst y) = Some (obj_value b)"
      "h_objs (vm_heap vm0) b = Some (ONative \<lparr>nt_fn = snd y, nt_is_builtin_method = True\<rparr>)"
      by (auto simp: has_native_def)
    with le show "has_native vm k y" unfolding has_native_def by (metis domI map_le_def)
  qed
  have st: "stack_is vm []" and dom: "dom (hm_map (vm_globals vm)) = set ?names"
    and known: "\<forall>n\<in>set ?names. knows vm (hm_map (vm_globals vm)) n
        (ONative \<lparr>nt_fn = native_extern n, nt_is_builtin_method = False\<rparr>)"
    using vm(2) unfolding natives_ok_def ready_def by blast+
  have "n \<in> dom (hm_map (vm_globals vm))" if "knows vm (hm_map (vm_globals vm)) n x" for n x
    using that by (auto simp: knows_def)
  with dom known have iff: "\<forall>n. n \<in> dom (hm_map (vm_globals vm)) \<longleftrightarrow>
       knows vm (hm_map (vm_globals vm)) n (ONative \<lparr>nt_fn = native_extern n, nt_is_builtin_method = False\<rparr>)"
    by blast
  have dom': "dom (hm_map (vm_globals vm)) =
      {''println'', ''print'', ''now'', ''date'', ''sleep'', ''time'', ''clock''}"
    unfolding dom by (simp only: list.set)
  have types': "hm_map (vm_types vm) = [''Vec'' \<mapsto> obj_value a]" unfolding types by (rule 0(3))
  show ?thesis
    using vm(1) st dom' iff types' k 0(6) methods by blast
qed

text \<open>
  The start of the machine returns and leaves an empty stack, the seven native functions as
  its globals and nothing else, and the one type \<open>Vec\<close>, a class whose methods are the twelve natives
  of the vector.
\<close>

theorem init_virtual_machine_correct:
  "\<exists>vm a k. init_virtual_machine fresh_vm = Inr ((), vm) \<and> stack_is vm [] \<and>
    dom (hm_map (vm_globals vm)) =
      {''println'', ''print'', ''now'', ''date'', ''sleep'', ''time'', ''clock''} \<and>
    (\<forall>n. n \<in> dom (hm_map (vm_globals vm)) \<longleftrightarrow>
       knows vm (hm_map (vm_globals vm)) n (ONative \<lparr>nt_fn = native_extern n, nt_is_builtin_method = False\<rparr>)) \<and>
    hm_map (vm_types vm) = [''Vec'' \<mapsto> obj_value a] \<and> h_objs (vm_heap vm) a = Some (OClass k) \<and>
    cls_vtable k = vec_vtable VM_C \<and> list_all (has_native vm k) vec_export_methods"
  by (rule init_virtual_machine_run)




end
