(* ===== verification/Joker_Behaviour.thy ===== *)
theory Joker_Behaviour
  imports Joker_Execution
begin

text \<open>
  What single instructions do: calls, native methods, globals, strings, closing upvalues, and what
  happens after a runtime error.
\<close>

subsection \<open>Calls\<close>

lemma call_closure:
  assumes "stack_is vm (xs @ callee # args)" and "get_closure (vm_heap vm) a = Inr c"
    and "get_fn (vm_heap vm) (cl_fn c) = Inr fn" and "fn_arity fn = length args"
    and "vm_frame_count vm < frames_stack_max"
  shows "\<exists>b. call a (length args) vm = Inr (True, vm\<lparr>vm_frames := b, vm_frame_count := vm_frame_count vm + 1\<rparr>) \<and>
    b = (vm_frames vm)[vm_frame_count vm := Some \<lparr>cf_slots = length xs, cf_closure = a, cf_ip = 0\<rparr>]"
proof -
  have "length (vm_frames vm) = frames_stack_max" "vm_stack_top vm = length xs + 1 + length args"
    using assms(1) by (auto simp: stack_is_def machine_ok_def)
  then show ?thesis using assms(2-5)
    by (simp add: call_def on_heap_def act_simps set_frame_def buf_write_def)
qed

text \<open>
  C14: Calling a closure with as many arguments as its function has parameters pushes a frame whose
  slots start at the callee, at the start of the code, and changes nothing else; with another
  number, or with all frames in use, the call reports an error and leaves stack and frames empty.
\<close>

theorem call_value_correct:
  assumes "stack_is vm (xs @ obj_value a # args)" and "h_objs (vm_heap vm) a = Some (OClosure c)"
    and "get_fn (vm_heap vm) (cl_fn c) = Inr fn"
  shows "if fn_arity fn = length args \<and> vm_frame_count vm < frames_stack_max
    then call_value E (obj_value a) (length args) vm =
      Inr (True, vm\<lparr>vm_frames := (vm_frames vm)[vm_frame_count vm :=
                        Some \<lparr>cf_slots = length xs, cf_closure = a, cf_ip = 0\<rparr>],
                    vm_frame_count := vm_frame_count vm + 1\<rparr>)
    else \<forall>r vm'. call_value E (obj_value a) (length args) vm = Inr (r, vm') \<longrightarrow>
      \<not> r \<and> vm_stack_top vm' = 0 \<and> vm_frame_count vm' = 0 \<and> (\<exists>msg. vm_errors vm' = vm_errors vm @ [msg])"
proof -
  have c: "get_closure (vm_heap vm) a = Inr c" using assms(2) by (simp add: get_closure_def)
  have call: "call_value E (obj_value a) (length args) vm = call a (length args) vm"
    using assms(2) by (simp add: call_value_def obj_value_def act_simps)
  show ?thesis
  proof (cases "fn_arity fn = length args \<and> vm_frame_count vm < frames_stack_max")
    case True
    with call_closure [OF assms(1) c assms(3)] call show ?thesis by simp
  next
    case False
    have top: "\<not> vm_stack_top vm < Suc (length args)" using assms(1) by (auto simp: stack_is_def)
    have full: "vm_frame_count vm < frames_stack_max \<or> vm_frame_count vm = frames_stack_max"
      using assms(1) by (auto simp: stack_is_def machine_ok_def)
    have "\<not> r \<and> (\<exists>msg. vm' = after_error msg vm)" if "call a (length args) vm = Inr (r, vm')" for r vm'
      using that False full top c assms(3)
      by (auto simp: call_def on_heap_def act_simps andThen_Inr_iff split: if_splits dest: report_false_state)
    then have "\<not> r \<and> vm_stack_top vm' = 0 \<and> vm_frame_count vm' = 0 \<and> (\<exists>msg. vm_errors vm' = vm_errors vm @ [msg])"
      if "call a (length args) vm = Inr (r, vm')" for r vm' using that by (metis after_error_simps(1,2,4))
    with False call show ?thesis by (simp only: if_False) blast
  qed
qed

text \<open>A closure of a function with one parameter on the bottom of the stack.\<close>

definition one_closure :: heap where
  "one_closure = \<lparr>h_objs = [0 \<mapsto> OFn \<lparr>fn_arity = 1, fn_chunk = init_chunk, fn_name = None, fn_upvalue_count = 0\<rparr>,
     1 \<mapsto> OClosure \<lparr>cl_fn = 0, cl_upvalue_ptrs = []\<rparr>], h_next = 2\<rparr>"

lemma call_value_correct_witness:
  "\<exists>vm vm'. stack_is vm [obj_value 1, VNone] \<and> call_value plain_env (obj_value 1) 1 vm = Inr (True, vm') \<and>
     vm_frame_count vm' = 1 \<and> buf_read (vm_frames vm') 0 = Inr \<lparr>cf_slots = 0, cf_closure = 1, cf_ip = 0\<rparr>"
proof -
  let ?vm = "fresh_vm\<lparr>vm_heap := one_closure\<rparr>"
  have "stack_is ?vm []" using stack_is_fresh by simp
  from push_rest [OF this, of "obj_value 1"] obtain vm1 where vm1: "stack_is vm1 [obj_value 1]" "same_rest ?vm vm1"
    using small_stack by auto
  from push_rest [OF vm1(1), of VNone] obtain vm2 where vm2: "stack_is vm2 [obj_value 1, VNone]" "same_rest vm1 vm2"
    using small_stack by auto
  note eq = same_restD [OF vm1(2)] same_restD [OF vm2(2)]
  have frames: "vm_frame_count vm2 = 0" "vm_frames vm2 = buf_alloc frames_stack_max" using eq by (simp_all add: fresh_vm_def)
  have st: "stack_is vm2 ([] @ obj_value 1 # [VNone])" using vm2(1) by simp
  have c: "h_objs (vm_heap vm2) 1 = Some (OClosure \<lparr>cl_fn = 0, cl_upvalue_ptrs = []\<rparr>)"
    using eq by (simp add: one_closure_def)
  have fn: "get_fn (vm_heap vm2) (cl_fn \<lparr>cl_fn = 0, cl_upvalue_ptrs = []\<rparr>) =
      Inr \<lparr>fn_arity = 1, fn_chunk = init_chunk, fn_name = None, fn_upvalue_count = 0\<rparr>"
    using eq by (simp add: one_closure_def get_fn_def)
  let ?vm' = "vm2\<lparr>vm_frames := (vm_frames vm2)[0 := Some \<lparr>cf_slots = 0, cf_closure = 1, cf_ip = 0\<rparr>], vm_frame_count := 1\<rparr>"
  have "call_value plain_env (obj_value 1) 1 vm2 = Inr (True, ?vm')"
    using call_value_correct [OF st c fn, of plain_env] frames by (simp add: frames_stack_max_def)
  then show ?thesis using vm2(1) frames
    by (intro exI [of _ vm2] exI [of _ ?vm']) (simp add: buf_read_def frames_stack_max_def)
qed

subsection \<open>Native methods\<close>

text \<open>The number of arguments each method wants, its receiver included.\<close>

fun wanted_args :: "native_fn \<Rightarrow> nat option" where
  "wanted_args native_vec_get = Some 2"
| "wanted_args native_vec_set = Some 3"
| "wanted_args native_vec_push = Some 2"
| "wanted_args native_vec_pop = Some 1"
| "wanted_args native_vec_insert = Some 3"
| "wanted_args native_vec_remove = Some 2"
| "wanted_args native_vec_extend = Some 2"
| "wanted_args native_vec_clear = Some 1"
| "wanted_args native_vec_reverse = Some 1"
| "wanted_args native_vec_length = Some 1"
| "wanted_args native_vec_first = Some 1"
| "wanted_args native_vec_last = Some 1"
| "wanted_args (native_extern _) = None"

lemma native_call_wrong_args:
  assumes "wanted_args f = Some k" and "n \<noteq> k"
  shows "\<exists>msg. native_call E f n args = native_error msg"
  using assms by (cases f) (auto simp: native_call_def vec_method_defs with_index_def)

text \<open>A method of \<open>Vec\<close> called with a wrong number of arguments reports its error, which empties
  the stack, and then the call moves the stack pointer down by the arguments: it never comes back,
  but leaves the pointer in front of the stack.
\<close>

theorem native_error_underflows:
  assumes "wanted_args f = Some k" and "n + 1 \<noteq> k"
  shows "call_native E \<lparr>nt_fn = f, nt_is_builtin_method = True\<rparr> n vm \<noteq> Inr (r, vm')"
proof
  let ?top = "vm_stack_top vm - (n + 1)"
  assume "call_native E \<lparr>nt_fn = f, nt_is_builtin_method = True\<rparr> n vm = Inr (r, vm')"
  then obtain v vm1 vm2 where 1: "native_call E f (n + 1) ?top vm = Inr (v, vm1)" and 2: "drop_stack (n + 1) vm1 = Inr ((), vm2)"
    by (auto simp: call_native_def act_simps andThen_Inr_iff split: if_splits)
  obtain msg where "native_call E f (n + 1) ?top = native_error msg" using native_call_wrong_args [OF assms] by blast
  with 1 have "vm1 = after_error msg vm" by (simp add: native_error_state)
  with 2 show False by (simp add: drop_stack_def act_simps)
qed

lemma native_error_underflows_witness:
  "call_native plain_env \<lparr>nt_fn = native_vec_push, nt_is_builtin_method = True\<rparr> 0 fresh_vm \<noteq> Inr (True, fresh_vm)"
  by (rule native_error_underflows [where k = 2]) simp_all

subsection \<open>Globals\<close>

lemma define_global_run:
  assumes "stack_is vm (xs @ [v])" and "hm_wf hash_string (vm_globals vm)" and "hm_count (vm_globals vm) < hm_limit"
    and "read_string fp vm = Inr (name, vm1)"
  shows "\<exists>vm'. handle_op_define_global fp vm = Inr (interpret_ok, vm') \<and> stack_is vm' xs \<and>
    hm_wf hash_string (vm_globals vm') \<and> hm_map (vm_globals vm') = (hm_map (vm_globals vm))(name \<mapsto> v) \<and>
    vm_heap vm' = vm_heap vm \<and> vm_errors vm' = vm_errors vm \<and>
    same_rest (vm1\<lparr>vm_globals := vm_globals vm'\<rparr>) vm'"
proof -
  have f: "frames_of vm vm1" by (rule read_string_frames [OF assms(4)])
  have m1: "machine_ok vm1" by (rule keepsD [OF keeps_read_string stack_isD(1) [OF assms(1)] assms(4)])
  have st: "stack_is vm1 (xs @ [v])" by (rule frames_of_stack [OF f m1 assms(1)])
  have eq: "vm_globals vm1 = vm_globals vm" "vm_heap vm1 = vm_heap vm" "vm_errors vm1 = vm_errors vm"
    using f by (auto simp: frames_of_def)
  obtain m where m: "hashmap_set hash_string (vm_globals vm) name v = Inr (m, hm_map (vm_globals vm) name = None)"
    "hm_wf hash_string m" "hm_map m = (hm_map (vm_globals vm))(name \<mapsto> v)"
    using hm.put_law [OF assms(2,3), of name v] by blast
  let ?vm2 = "vm1\<lparr>vm_globals := m\<rparr>"
  have st2: "stack_is ?vm2 (xs @ [v])" using st by simp
  have peek: "peek_value 0 vm1 = Inr (v, vm1)" using peek_stack(2) [OF st, of 0] by simp
  have "handle_op_define_global fp vm = Inr (interpret_ok, ?vm2\<lparr>vm_stack_top := length xs\<rparr>)"
    using assms(4) peek m(1) eq(1) pop_stack(1) [OF st2]
    by (simp add: handle_op_define_global_def act_simps insert_entry_def set_globals_def ok_def)
  with pop_stack(2) [OF st2] m eq show ?thesis by (auto simp: same_rest_def)
qed

lemma get_global_run:
  assumes "stack_is vm xs" and "hm_wf hash_string (vm_globals vm)" and "length xs < constant_stack_max"
    and "read_string fp vm = Inr (name, vm1)" and "hm_map (vm_globals vm) name = Some v" and "v \<noteq> VNull"
  shows "\<exists>vm'. handle_op_get_global fp vm = Inr (interpret_ok, vm') \<and> stack_is vm' (xs @ [v]) \<and>
    vm_globals vm' = vm_globals vm \<and> vm_heap vm' = vm_heap vm \<and> vm_errors vm' = vm_errors vm \<and> same_rest vm1 vm'"
proof -
  have f: "frames_of vm vm1" by (rule read_string_frames [OF assms(4)])
  have m1: "machine_ok vm1" by (rule keepsD [OF keeps_read_string stack_isD(1) [OF assms(1)] assms(4)])
  have st: "stack_is vm1 xs" by (rule frames_of_stack [OF f m1 assms(1)])
  have eq: "vm_globals vm1 = vm_globals vm" "vm_heap vm1 = vm_heap vm" "vm_errors vm1 = vm_errors vm"
    using f by (auto simp: frames_of_def)
  obtain vm2 where vm2: "push v vm1 = Inr ((), vm2)" "stack_is vm2 (xs @ [v])" "same_rest vm1 vm2"
    by (rule push_rest [OF st assms(3), of v])
  have "hashmap_get hash_string (vm_globals vm) name = Inr v"
    using hm.get_law [OF assms(2), of name] assms(5) by simp
  with assms(4,6) vm2(1) eq(1) have "handle_op_get_global fp vm = Inr (interpret_ok, vm2)"
    by (simp add: handle_op_get_global_def act_simps lookup_def push_ok_def ok_def)
  with vm2(2,3) same_restD [OF vm2(3)] eq show ?thesis by (intro exI [of _ vm2]) simp
qed


text \<open>A machine in its first frame, with code, constants and a stack, for the examples.\<close>

definition sample_chunk :: "u8 list \<Rightarrow> jvalue list \<Rightarrow> chunk" where
  "sample_chunk bytes consts =
     \<lparr>ck_count = length bytes, ck_capacity = length bytes, ck_code = map Some bytes,
      ck_lines = \<lparr>rls_count = 1, rls_capacity = 1, rls_lines = [Some \<lparr>rl_line = 1, rl_count = length bytes\<rparr>]\<rparr>,
      ck_constants = \<lparr>va_count = length consts, va_capacity = length consts, va_values = map Some consts\<rparr>\<rparr>"

definition sample_heap :: "u8 list \<Rightarrow> jvalue list \<Rightarrow> heap" where
  "sample_heap bytes consts = \<lparr>h_objs =
     [0 \<mapsto> OFn \<lparr>fn_arity = 0, fn_chunk = sample_chunk bytes consts, fn_name = None, fn_upvalue_count = 0\<rparr>,
      1 \<mapsto> OClosure \<lparr>cl_fn = 0, cl_upvalue_ptrs = []\<rparr>], h_next = 2\<rparr>"

definition sample_vm :: "u8 list \<Rightarrow> jvalue list \<Rightarrow> jvalue list \<Rightarrow> vm" where
  "sample_vm bytes consts xs = fresh_vm\<lparr>
     vm_frames := (buf_alloc frames_stack_max)[0 := Some \<lparr>cf_slots = 0, cf_closure = 1, cf_ip = 0\<rparr>],
     vm_frame_count := 1, vm_heap := sample_heap bytes consts,
     vm_stack := map Some xs @ buf_alloc (constant_stack_max - length xs), vm_stack_top := length xs\<rparr>"

lemma sample_stack: "length xs \<le> constant_stack_max \<Longrightarrow> stack_is (sample_vm bytes consts xs) xs"
proof -
  assume "length xs \<le> constant_stack_max"
  moreover have "set ((buf_alloc frames_stack_max)[0 := Some \<lparr>cf_slots = 0, cf_closure = 1, cf_ip = 0\<rparr>])
      \<subseteq> {None, Some \<lparr>cf_slots = 0, cf_closure = 1, cf_ip = 0\<rparr>}"
    by (auto simp: buf_alloc_def dest!: set_update_subset_insert [THEN subsetD])
  ultimately show ?thesis
    by (auto simp: stack_is_def machine_ok_def sample_vm_def fresh_vm_def holds_iff_append frames_stack_max_def)
qed

lemma buf_alloc_eq_Nil: "buf_alloc n = [] \<longleftrightarrow> n = 0"
  by (simp add: buf_alloc_def)

lemma sample_read_string:
  "bytes = 0 # bs \<Longrightarrow> consts = string_value name # cs \<Longrightarrow>
   \<exists>vm. read_string 0 (sample_vm bytes consts xs) = Inr (name, vm)"
  by (simp add: read_string_def read_constant_def read_byte_def set_ip_def set_frame_def constant_at_def
      frame_at_def frame_fn_def act_simps sample_vm_def buf_read_def buf_write_def frames_stack_max_def
      buf_alloc_eq_Nil sample_heap_def sample_chunk_def get_closure_def get_fn_def value_at_def as_string_def string_value_def)


subsection \<open>Binary operators\<close>

lemma two_slots:
  assumes "stack_is vm (xs @ [l, r])"
  shows "peek_slot 0 vm = Inr (Suc (length xs), vm)" "peek_slot (Suc 0) vm = Inr (length xs, vm)"
    "read_slot (Suc (length xs)) vm = Inr (r, vm)" "read_slot (length xs) vm = Inr (l, vm)"
  using peek_stack(1) [OF assms, of 0] peek_stack(1) [OF assms, of 1]
    read_slot_stack [OF assms, of "Suc (length xs)"] read_slot_stack [OF assms, of "length xs"]
  by (simp_all add: nth_append)

lemma write_rest:
  assumes "stack_is vm xs" and "i < length xs"
  obtains vm' where "write_slot i v vm = Inr ((), vm')" and "stack_is vm' (xs[i := v])" and "same_rest vm vm'"
proof -
  from write_slot_stack [OF assms, of v] obtain b where "write_slot i v vm = Inr ((), vm\<lparr>vm_stack := b\<rparr>)"
    "stack_is (vm\<lparr>vm_stack := b\<rparr>) (xs[i := v])" by blast
  then show thesis by (rule that) (simp add: same_rest_def)
qed

lemma same_rest_trans: "same_rest a b \<Longrightarrow> same_rest b c \<Longrightarrow> same_rest a c"
  by (simp add: same_rest_def)

lemma coerce_slots_run:
  assumes st: "stack_is vm (xs @ [l, r])"
    and "coerce_types (e_layout E) (obj_vtable (vm_heap vm)) (e_fmt E) op l r = Inr (l', r')"
  obtains vm' where "coerce_slots E op (length xs) (Suc (length xs)) vm = Inr ((), vm')"
    and "stack_is vm' (xs @ [l', r'])" and "same_rest vm vm'"
proof -
  obtain vm1 where vm1: "write_slot (length xs) l' vm = Inr ((), vm1)" "stack_is vm1 (xs @ [l', r])" "same_rest vm vm1"
    using write_rest [OF st, of "length xs" l'] by (auto simp: list_update_append)
  obtain vm2 where vm2: "write_slot (Suc (length xs)) r' vm1 = Inr ((), vm2)" "stack_is vm2 (xs @ [l', r'])"
    "same_rest vm1 vm2"
    using write_rest [OF vm1(2), of "Suc (length xs)" r'] by (auto simp: list_update_append)
  have "coerce_slots E op (length xs) (Suc (length xs)) vm = Inr ((), vm2)"
    using two_slots [OF st] assms(2) vm1(1) vm2(1) by (simp add: coerce_slots_def act_simps)
  then show thesis using vm2(2) same_rest_trans [OF vm1(3) vm2(3)] by (rule that)
qed

lemma finish_binary:
  assumes "stack_is vm (xs @ [l, r])"
  shows "\<exists>vm'. act_then (write_slot (length xs) v) (act_bind pop (\<lambda>_. ok)) vm = Inr (interpret_ok, vm') \<and>
    stack_is vm' (xs @ [v]) \<and> same_rest vm vm'"
proof -
  obtain vm1 where vm1: "write_slot (length xs) v vm = Inr ((), vm1)" "stack_is vm1 ((xs @ [v]) @ [r])" "same_rest vm vm1"
    using write_rest [OF assms, of "length xs" v] by (auto simp: list_update_append)
  have "same_rest vm1 (vm1\<lparr>vm_stack_top := length (xs @ [v])\<rparr>)" by (simp add: same_rest_def)
  with vm1 pop_stack [OF vm1(2)] same_rest_trans [OF vm1(3)] show ?thesis by (simp add: act_simps ok_def)
qed

lemma read_binary_run:
  assumes "stack_is vm (xs @ [l, r])" and "MACRO_IN_BINARY_OP op" and "\<not> macro_is_obj l'"
    and "coerce_types (e_layout E) (obj_vtable (vm_heap vm)) (e_fmt E) op l r = Inr (l', r')"
    and "binary_basic (e_layout E) op l' r' = Inr (Result v)"
  shows "\<exists>vm'. read_binary E op fp vm = Inr (interpret_ok, vm') \<and> stack_is vm' (xs @ [v]) \<and> same_rest vm vm'"
proof -
  obtain vm1 where vm1: "coerce_slots E op (length xs) (Suc (length xs)) vm = Inr ((), vm1)"
    "stack_is vm1 (xs @ [l', r'])" "same_rest vm vm1" by (rule coerce_slots_run [OF assms(1,4)])
  obtain vm2 where vm2: "act_then (write_slot (length xs) v) (act_bind pop (\<lambda>_. ok)) vm1 = Inr (interpret_ok, vm2)"
    "stack_is vm2 (xs @ [v])" "same_rest vm1 vm2" using finish_binary [OF vm1(2)] by blast
  have "read_binary E op fp vm = act_bind (read_slot (Suc (length xs))) (\<lambda>r.
      act_bind (act_lift (binary_basic (e_layout E) op l' r)) (finish_basic fp (length xs))) vm1"
    using two_slots(1,2) [OF assms(1)] two_slots(4) [OF vm1(2)] vm1(1) assms(2,3)
    by (cases l') (simp_all add: read_binary_def act_bind_apply act_then_apply)
  also have "\<dots> = Inr (interpret_ok, vm2)"
    using two_slots(3) [OF vm1(2)] assms(5) vm2(1)
    by (simp add: act_bind_apply [of "read_slot _"] act_bind_apply [of "act_lift _"] act_lift_apply finish_basic_def)
  finally show ?thesis using vm2(2) same_rest_trans [OF vm1(3) vm2(3)] by blast
qed

text \<open>
  C10: A binary instruction on two values that are no objects replaces them by what the operator
  gives on the converted operands, and changes nothing but the stack.
\<close>

theorem read_binary_refines_operator:
  assumes "stack_is vm (xs @ [l, r])" and "MACRO_IN_BINARY_OP op" and "\<not> macro_is_obj l'"
    and "coerce_types (e_layout E) (obj_vtable (vm_heap vm)) (e_fmt E) op l r = Inr (l', r')"
    and "binary_basic (e_layout E) op l' r' = Inr (Result v)"
  shows "\<exists>vm'. read_binary E op fp vm = Inr (interpret_ok, vm') \<and> stack_is vm' (xs @ [v]) \<and> same_rest vm vm'"
  using assms by (rule read_binary_run)

lemma read_binary_refines_operator_witness:
  "\<exists>vm'. read_binary plain_env OP_SUB 0 (sample_vm [] [] [VI32 7, VI32 5]) = Inr (interpret_ok, vm') \<and>
     stack_is vm' [VI32 2]"
proof -
  have st: "stack_is (sample_vm [] [] [VI32 7, VI32 5]) ([] @ [VI32 7, VI32 5])"
    using sample_stack [of "[VI32 7, VI32 5]"] by (simp add: constant_stack_max_def frames_stack_max_def)
  show ?thesis
    using read_binary_refines_operator [OF st, of OP_SUB "VI32 7" plain_env "VI32 5" "VI32 2" 0]
    by (auto simp: MACRO_IN_BINARY_OP_def all_operators_def coerce_types_def numeric_type_promotion_def both_def
        binary_basic_def handle_binary_i32_op_def checked_i32_def)
qed

subsection \<open>Strings\<close>

lemma coerce_string:
  "coerce_types L (obj_vtable h) fmt op (string_value s) v = Inr (string_value s, v)"
  "macro_is_number v \<Longrightarrow> coerce_types L (obj_vtable h) fmt op v (string_value s) = Inr (v, string_value s)"
  by (auto simp: coerce_types_def string_value_def has_string_vtable_def obj_vtable_def split: jvalue.splits)

lemma read_binary_string:
  assumes "stack_is vm (xs @ [string_value s, v])" and "MACRO_IN_BINARY_OP op"
  obtains vm1 where "stack_is vm1 (xs @ [string_value s, v])" and "same_rest vm vm1"
    and "read_binary E op fp vm =
      act_bind (binary_handler E (string_vtable STRING_C) op (length xs) (Suc (length xs)))
        (\<lambda>done. if done then act_bind pop (\<lambda>_. ok) else fail_at fp ''Operator not supported'') vm1"
proof -
  obtain vm1 where vm1: "coerce_slots E op (length xs) (Suc (length xs)) vm = Inr ((), vm1)"
    "stack_is vm1 (xs @ [string_value s, v])" "same_rest vm vm1"
    by (rule coerce_slots_run [OF assms(1) coerce_string(1)])
  have "read_binary E op fp vm = act_bind (binary_handler E (string_vtable STRING_C) op (length xs) (Suc (length xs)))
        (\<lambda>done. if done then act_bind pop (\<lambda>_. ok) else fail_at fp ''Operator not supported'') vm1"
    using two_slots(1,2) [OF assms(1)] two_slots(4) [OF vm1(2)] vm1(1) assms(2)
    by (simp add: read_binary_def act_bind_apply act_then_apply act_get_apply string_value_def obj_vtable_def)
  then show thesis by (rule that [OF vm1(2,3)])
qed

text \<open>
  Adding two strings puts their concatenation in their place, as long as the lengths together
  stay below \<open>INT32_MAX\<close>.
\<close>

theorem string_addition:
  assumes "stack_is vm (xs @ [string_value s, string_value t])" and "length s + length t < INT32_MAX"
  shows "\<exists>vm'. read_binary E OP_ADD fp vm = Inr (interpret_ok, vm') \<and>
    stack_is vm' (xs @ [string_value (s @ t)]) \<and> same_rest vm vm'"
proof -
  have op: "MACRO_IN_BINARY_OP OP_ADD" by (simp add: MACRO_IN_BINARY_OP_def all_operators_def)
  obtain vm1 where vm1: "stack_is vm1 (xs @ [string_value s, string_value t])" "same_rest vm vm1"
    "read_binary E OP_ADD fp vm = act_bind (string_add (length xs) (Suc (length xs)))
      (\<lambda>done. if done then act_bind pop (\<lambda>_. ok) else fail_at fp ''Operator not supported'') vm1"
    by (rule read_binary_string [OF assms(1) op, of E fp]) (simp add: binary_handler_def)
  obtain vm2 where vm2: "act_then (write_slot (length xs) (string_value (s @ t))) (act_bind pop (\<lambda>_. ok)) vm1 =
      Inr (interpret_ok, vm2)" "stack_is vm2 (xs @ [string_value (s @ t)])" "same_rest vm1 vm2"
    using finish_binary [OF vm1(1)] by blast
  have "string_add (length xs) (Suc (length xs)) vm1 =
      act_then (write_slot (length xs) (string_value (s @ t))) (act_return True) vm1"
    using two_slots(3,4) [OF vm1(1)] assms(2)
    by (simp add: string_add_def act_bind_apply act_lift_apply as_string_def string_value_def concat_contents_def
        act_return_apply INT32_MAX_def)
  with vm1(3) vm2(1) have "read_binary E OP_ADD fp vm = Inr (interpret_ok, vm2)"
    by (auto simp: act_bind_apply act_then_apply act_return_apply andThen_assoc split_def andThen_Inr_iff)
  with vm2(2) same_rest_trans [OF vm1(2) vm2(3)] show ?thesis by blast
qed

text \<open>
  Adding a number to a string is not the conversion \<open>coerce_types\<close> describes: the table of
  operators that the string carries is another copy than the one \<open>coerce_types\<close> compares it with, so
  the number is used as a pointer to a string.
\<close>

theorem string_plus_number:
  assumes "stack_is vm (xs @ [string_value s, v])" and "macro_is_number v"
  shows "read_binary E OP_ADD fp vm = Inl (Undefined ''not a String'')"
proof -
  have op: "MACRO_IN_BINARY_OP OP_ADD" by (simp add: MACRO_IN_BINARY_OP_def all_operators_def)
  obtain vm1 where vm1: "stack_is vm1 (xs @ [string_value s, v])"
    "read_binary E OP_ADD fp vm = act_bind (string_add (length xs) (Suc (length xs)))
      (\<lambda>done. if done then act_bind pop (\<lambda>_. ok) else fail_at fp ''Operator not supported'') vm1"
    by (rule read_binary_string [OF assms(1) op, of E fp]) (simp add: binary_handler_def)
  have "string_add (length xs) (Suc (length xs)) vm1 = Inl (Undefined ''not a String'')"
    using two_slots(3,4) [OF vm1(1)] assms(2)
    by (cases v) (simp_all add: string_add_def act_bind_apply act_lift_apply as_string_def string_value_def)
  with vm1(2) show ?thesis by (simp add: act_bind_apply)
qed

lemma sample_pair: "stack_is (sample_vm bytes consts [x, y]) ([] @ [x, y])"
  using sample_stack [of "[x, y]"] by (simp add: constant_stack_max_def frames_stack_max_def)

lemma string_addition_witness:
  "\<exists>vm'. read_binary plain_env OP_ADD 0 (sample_vm [] [] [string_value ''ab'', string_value ''c'']) = Inr (interpret_ok, vm') \<and>
     stack_is vm' [string_value ''abc'']"
  using string_addition [OF sample_pair, of "''ab''" "''c''" plain_env 0] by (auto simp: INT32_MAX_def)

lemma string_plus_number_witness:
  "read_binary plain_env OP_ADD 0 (sample_vm [] [] [string_value ''n = '', VI32 1]) = Inl (Undefined ''not a String'')"
  by (rule string_plus_number [OF sample_pair]) simp

subsection \<open>Closing a local\<close>

text \<open>
  The instruction that ends the life of a captured local pops it but leaves its upvalue open:
  the upvalue still points to the slot the stack pointer now points to, which the next push
  overwrites.
\<close>

theorem close_upvalue_leaves_slot_open:
  assumes "stack_is vm (ys @ [v])" and "open_upvalues vm xs" and "(a, length ys) \<in> set xs"
    and "\<forall>(b, s)\<in>set xs. s < vm_stack_top vm"
  shows "\<exists>vm' u. handle_op_close_upvalue E fp vm = Inr (interpret_ok, vm') \<and> stack_is vm' ys \<and>
    h_objs (vm_heap vm') a = Some (OUpvalue u) \<and> uv_location u = Slot (vm_stack_top vm')"
proof -
  have top: "vm_stack_top vm = Suc (length ys)" using assms(1) by (simp add: stack_is_def)
  have "\<forall>(b, s)\<in>set xs. \<exists>x. buf_read (vm_stack vm) s = Inr x"
    using assms(4) top holds_read [OF stack_isD(3) [OF assms(1)]] by fastforce
  from close_upvalues_run [OF assms(2) this, of E "length ys"]
  obtain h where h: "close_upvalues E (length ys) vm = Inr ((), vm\<lparr>vm_heap := h\<rparr>)"
    "\<forall>(b, s)\<in>set xs. closed_at vm (length ys) h b s" by blast
  obtain u where u: "h_objs (vm_heap vm) a = Some (OUpvalue u)" "uv_location u = Slot (length ys)"
    using assms(2,3) path_node [of "vm_heap vm" "vm_open_upv_ptr vm" xs None a "length ys"]
    by (auto simp: open_upvalues_def)
  with h(2) assms(3) have "h_objs h a = Some (OUpvalue u)" by (fastforce simp: closed_at_def)
  moreover have "stack_is (vm\<lparr>vm_heap := h\<rparr>) (ys @ [v])" using assms(1) by simp
  note p = pop_stack [OF this]
  moreover have "handle_op_close_upvalue E fp vm = Inr (interpret_ok, vm\<lparr>vm_heap := h, vm_stack_top := length ys\<rparr>)"
    using h(1) p(1) top by (simp add: handle_op_close_upvalue_def act_simps ok_def)
  ultimately show ?thesis using u(2)
    by (intro exI [of _ "vm\<lparr>vm_heap := h, vm_stack_top := length ys\<rparr>"] exI [of _ u]) simp
qed

lemma two_open_stack: "stack_is two_open [VNone, VBool True]"
proof -
  have "machine_ok two_open"
    by (auto simp: machine_ok_def two_open_def fresh_vm_def buf_alloc_def constant_stack_max_def frames_stack_max_def)
  moreover have "take 2 (vm_stack two_open) = [Some VNone, Some (VBool True)]"
  proof -
    have "buf_alloc constant_stack_max = (None # None # buf_alloc (constant_stack_max - 2) :: jvalue buffer)"
      by (simp add: buf_alloc_def constant_stack_max_def frames_stack_max_def flip: replicate_Suc)
    then show ?thesis by (simp add: two_open_def)
  qed
  ultimately show ?thesis
    by (simp add: stack_is_def holds_def machine_ok_def numeral_2_eq_2 constant_stack_max_def frames_stack_max_def)
      (simp add: two_open_def)
qed

lemma close_upvalue_leaves_slot_open_witness:
  "\<exists>vm' u. handle_op_close_upvalue plain_env 0 two_open = Inr (interpret_ok, vm') \<and> vm_stack_top vm' = 1 \<and>
     h_objs (vm_heap vm') 1 = Some (OUpvalue u) \<and> uv_location u = Slot 1"
proof -
  have st: "stack_is two_open ([VNone] @ [VBool True])" using two_open_stack by simp
  have slots: "(1, length [VNone]) \<in> set [(1, 1), (0, 0)]" "\<forall>(b, s)\<in>set [(1, 1), (0, 0)]. s < vm_stack_top two_open"
    by (simp_all add: two_open_def)
  from close_upvalue_leaves_slot_open [OF st two_open(1) slots, of plain_env 0] show ?thesis
    by (fastforce simp: stack_is_def)
qed

subsection \<open>After a runtime error\<close>

text \<open>Reading an undefined global reports the error and empties the stack and the frames, and the
  loop then goes on with the next instruction of the same frame.
\<close>

theorem error_does_not_stop:
  assumes "read_byte fp vm = Inr (op_byte op_get_global, vm1)" and "read_string fp vm1 = Inr (name, vm2)"
    and "hm_wf hash_string (vm_globals vm)" and "hm_map (vm_globals vm) name = None"
    and "fail_at fp ''undefined global variable'' vm2 = Inr (r, vm3)"
  shows "step E fp vm = Inr (Some fp, vm3) \<and> vm_stack_top vm3 = 0 \<and> vm_frame_count vm3 = 0 \<and>
    vm_errors vm3 = vm_errors vm @ [''undefined global variable''] \<and>
    run_loop (Suc n) E fp vm = run_loop n E fp vm3"
proof -
  have f1: "frames_of vm vm1" by (rule keepsD [OF keeps_frames_read(1) frames_of_refl assms(1)])
  have f2: "frames_of vm1 vm2" by (rule read_string_frames [OF assms(2)])
  have eq: "vm_globals vm2 = vm_globals vm" "vm_errors vm2 = vm_errors vm" using f1 f2 by (auto simp: frames_of_def)
  have "hashmap_get hash_string (vm_globals vm) name = Inr VNull"
    using hm.get_law [OF assms(3), of name] assms(4) by simp
  with assms(2,5) eq(1) have "handle_op_get_global fp vm1 = Inr (r, vm3)"
    by (simp add: handle_op_get_global_def act_bind_apply act_get_apply lookup_def act_lift_apply)
  with assms(1) have s: "step E fp vm = Inr (Some fp, vm3)"
    by (simp add: step_def act_bind_apply op_of_byte_op_byte dispatch_def reloads_frame_def act_return_apply
        del: op_byte.simps)
  from fail_at_state [OF assms(5)] eq(2) have "vm_stack_top vm3 = 0" "vm_frame_count vm3 = 0"
    "vm_errors vm3 = vm_errors vm @ [''undefined global variable'']" by simp_all
  with s step_run [OF s] show ?thesis by blast
qed

definition sample_at :: "u8 list \<Rightarrow> jvalue list \<Rightarrow> nat \<Rightarrow> vm" where
  "sample_at bytes ks ip = (sample_vm bytes ks [])\<lparr>vm_frames :=
     (buf_alloc frames_stack_max)[0 := Some \<lparr>cf_slots = 0, cf_closure = 1, cf_ip = ip\<rparr>]\<rparr>"

lemmas sample_defs = sample_at_def sample_vm_def sample_heap_def sample_chunk_def

lemma sample_frame:
  "buf_read (vm_frames (sample_at bytes ks ip)) 0 = Inr \<lparr>cf_slots = 0, cf_closure = Suc 0, cf_ip = ip\<rparr>"
  by (simp add: sample_at_def buf_read_def frames_stack_max_def buf_alloc_eq_Nil)

lemma sample_fn:
  "frame_fn \<lparr>cf_slots = 0, cf_closure = Suc 0, cf_ip = ip\<rparr> (sample_at bytes ks jp) =
   Inr (\<lparr>fn_arity = 0, fn_chunk = sample_chunk bytes ks, fn_name = None, fn_upvalue_count = 0\<rparr>, sample_at bytes ks jp)"
  by (simp add: frame_fn_def act_simps get_closure_def get_fn_def sample_at_def sample_vm_def sample_heap_def)

lemma sample_set_ip: "set_ip 0 jp (sample_at bytes ks ip) = Inr ((), sample_at bytes ks jp)"
  using sample_frame [of bytes ks ip]
  by (simp add: set_ip_def frame_at_def set_frame_def act_simps buf_write_def)
    (simp add: sample_at_def frames_stack_max_def buf_alloc_eq_Nil)

lemma sample_read_byte:
  assumes "ip < length bytes"
  shows "read_byte 0 (sample_at bytes ks ip) = Inr (bytes ! ip, sample_at bytes ks (Suc ip))"
proof -
  have "buf_read (ck_code (sample_chunk bytes ks)) ip = Inr (bytes ! ip)"
    using assms by (simp add: sample_chunk_def buf_read_def)
  then show ?thesis
    by (simp add: read_byte_def frame_at_def act_bind_apply act_with_apply sample_frame sample_fn act_lift_apply
        act_then_apply sample_set_ip act_return_apply)
qed

lemma sample_read_name:
  assumes "ip < length bytes" and "unat (bytes ! ip) < length ks" and "ks ! unat (bytes ! ip) = string_value name"
  shows "read_string 0 (sample_at bytes ks ip) = Inr (name, sample_at bytes ks (Suc ip))"
proof -
  have "value_at (ck_constants (sample_chunk bytes ks)) (unat (bytes ! ip)) = Inr (string_value name)"
    using assms(2,3) by (simp add: sample_chunk_def value_at_def buf_read_def)
  then show ?thesis
    using sample_read_byte [OF assms(1), of ks]
    by (simp add: read_string_def read_constant_def constant_at_def frame_at_def act_bind_apply act_with_apply
        sample_frame sample_fn act_lift_apply as_string_def string_value_def)
qed

lemma sample_fail_at:
  assumes "0 < ip" and "ip \<le> length bytes"
  shows "\<exists>vm. fail_at 0 msg (sample_at bytes ks ip) = Inr (interpret_runtime_error, vm)"
proof -
  have line: "frame_line 0 (vm\<lparr>vm_errors := e\<rparr>) = Inr (1, vm\<lparr>vm_errors := e\<rparr>)"
    if "vm = sample_at bytes ks ip" for vm e
    using assms sample_frame [of bytes ks ip] sample_fn [of ip bytes ks ip] that
    by (auto simp: frame_line_def frame_at_def frame_fn_def act_simps get_rle_line_def sample_chunk_def buf_read_def
        andThen_Inr_iff)
  have "frame_line 0 (sample_at bytes ks ip) = Inr (1, sample_at bytes ks ip)"
    using line [of "sample_at bytes ks ip" "vm_errors (sample_at bytes ks ip)"] by simp
  moreover have "vm_frame_count (sample_at bytes ks ip) = Suc 0" by (simp add: sample_at_def sample_vm_def)
  ultimately show ?thesis
    using line [OF refl]
    by (simp add: fail_at_def runtime_error_at_def runtime_error_def act_bind_apply act_then_apply act_update_apply
        act_get_apply act_return_apply)
qed

lemma error_does_not_stop_witness:
  "\<exists>vm. step plain_env 0 (sample_at [op_byte op_get_global, 0] [string_value ''x''] 0) = Inr (Some 0, vm) \<and>
     vm_errors vm = [''undefined global variable''] \<and> vm_frame_count vm = 0"
proof -
  let ?vm = "sample_at [op_byte op_get_global, 0] [string_value ''x'']"
  have r: "read_byte 0 (?vm 0) = Inr (op_byte op_get_global, ?vm 1)"
    using sample_read_byte [of 0 "[op_byte op_get_global, 0]"] by simp
  have n: "read_string 0 (?vm 1) = Inr (''x'', ?vm 2)"
    using sample_read_name [of 1 "[op_byte op_get_global, 0]" "[string_value ''x'']" "''x''"] by (simp add: numeral_2_eq_2)
  have g: "vm_globals (?vm 0) = init_hashmap" "vm_errors (?vm 0) = []" by (simp_all add: sample_at_def sample_vm_def fresh_vm_def)
  obtain vm3 where e: "fail_at 0 ''undefined global variable'' (?vm 2) = Inr (interpret_runtime_error, vm3)"
    using sample_fail_at [of 2 "[op_byte op_get_global, 0]"] by auto
  from error_does_not_stop [OF r n _ _ e, of plain_env 0] g hm_wf_empty [of hash_string] show ?thesis
    by (simp add: hm_map_empty)
qed

end
