(* ===== verification/Joker_Compiler.thy ===== *)
theory Joker_Compiler
  imports Joker_Machine Joker_Scanner
begin

text \<open>
  The state of a compilation (include/parser.h, include/compiler.h, include/class_compiler.h) and
  its operations below the grammar: the moves over the tokens and the error reports (src/parser.c),
  the compilers and their loops and scopes (src/compiler.c), the emission of code and the
  resolution of variables (src/parser.c).

  The parser's pointers \<open>curr\<close>, \<open>prev\<close> and \<open>pprev\<close> go along one linked list: \<open>pa_curr\<close> is the list
  from \<open>curr\<close> on (empty for null), \<open>pa_prev\<close> and \<open>pa_pprev\<close> the tokens before it. The chain of
  compilers from \<open>vm->compiler\<close> through \<open>enclosing\<close> is the list \<open>pa_compilers\<close>, the innermost first,
  and the chains of loops and class compilers are lists in the same way. A function being compiled is
  held by its compiler and stored at its address when it is finished; nothing reads it there
  before. Errors go to \<open>pa_errors\<close> instead of \<open>stderr\<close>, with their token and without the name of the
  function in the text.
\<close>

subsection \<open>State\<close>

datatype fn_type = type_fn | type_method | type_initializer | type_script | type_lambda

record local_variable =
  lv_name :: token
  lv_depth :: int
  lv_is_captured :: bool

text \<open>\<open>lp_end\<close> is the operand of the \<open>break\<close> to patch, \<open>None\<close> for -1.\<close>

record loop_info =
  lp_start :: nat
  lp_end :: "nat option"

text \<open>
  \<open>locals\<close> and \<open>upvalues\<close> are arrays with a count; the lists hold their used parts.
\<close>

record compiler =
  co_fn_at :: nat
  co_fn :: fn_obj
  co_fn_type :: fn_type
  co_locals :: "local_variable list"
  co_scope_depth :: int
  co_upvalues :: "u8 list"
  co_loops :: "loop_info list"

record parser =
  pa_tokens :: "token list"
  pa_curr :: "token list"
  pa_prev :: "token option"
  pa_pprev :: "token option"
  pa_had_error :: bool
  pa_panic_mode :: bool
  pa_errors :: "(token \<times> string) list"
  pa_compilers :: "compiler list"
  pa_classes :: "bool list"
  pa_heap :: heap

type_synonym 'a pact = "(parser, 'a) action"

definition uint8_count :: nat where
  "uint8_count = 256"

definition upvalue_index_count :: nat where
  "upvalue_index_count = 128"

definition argument_count_max :: nat where
  "argument_count_max = 255"

definition UINT16_MAX :: int where
  "UINT16_MAX = 65535"

definition init_parser :: "heap \<Rightarrow> token list \<Rightarrow> parser" where
  "init_parser h toks = \<lparr>pa_tokens = toks, pa_curr = toks, pa_prev = None, pa_pprev = None,
     pa_had_error = False, pa_panic_mode = False, pa_errors = [], pa_compilers = [],
     pa_classes = [], pa_heap = h\<rparr>"

definition free_parser :: "parser \<Rightarrow> parser" where
  "free_parser p = p\<lparr>pa_tokens := [], pa_curr := [], pa_prev := None, pa_pprev := None,
     pa_had_error := False, pa_panic_mode := False\<rparr>"

subsection \<open>Errors and moves\<close>

definition parse_error_at :: "token \<Rightarrow> string \<Rightarrow> unit pact" where
  "parse_error_at error message =
     act_update (\<lambda>p. if pa_panic_mode p then p
       else p\<lparr>pa_panic_mode := True, pa_had_error := True, pa_errors := pa_errors p @ [(error, message)]\<rparr>)"

definition parse_error_at_prev :: "string \<Rightarrow> unit pact" where
  "parse_error_at_prev message =
     act_bind (act_get (\<lambda>p. (pa_prev p, pa_tokens p))) (\<lambda>(prev, toks).
       case prev of
         Some t \<Rightarrow> parse_error_at t message
       | None \<Rightarrow> (case toks of
           [] \<Rightarrow> act_halt (Undefined ''null token'')
         | t # _ \<Rightarrow> parse_error_at t ''Expected expression, Found end of file.''))"

definition parse_error_at_curr :: "string \<Rightarrow> unit pact" where
  "parse_error_at_curr message =
     act_bind (act_get pa_curr) (\<lambda>curr.
       case curr of
         [] \<Rightarrow> parse_error_at_prev ''Expected expression, Found end of file.''
       | t # _ \<Rightarrow> parse_error_at t message)"

text \<open>\<open>self->prev\<close>, \<open>self->pprev\<close> and \<open>self->curr\<close>, read through.\<close>

definition prev_token :: "token pact" where
  "prev_token = act_with (\<lambda>p. case pa_prev p of None \<Rightarrow> Inl (Undefined ''null token'') | Some t \<Rightarrow> Inr t)"

definition pprev_token :: "token pact" where
  "pprev_token = act_with (\<lambda>p. case pa_pprev p of None \<Rightarrow> Inl (Undefined ''null token'') | Some t \<Rightarrow> Inr t)"

definition curr_token :: "token pact" where
  "curr_token = act_with (\<lambda>p. case pa_curr p of [] \<Rightarrow> Inl (Undefined ''null token'') | t # _ \<Rightarrow> Inr t)"

definition parse_is_at_end :: "bool pact" where
  "parse_is_at_end =
     act_bind (act_get pa_curr) (\<lambda>curr.
       case curr of
         [] \<Rightarrow> act_then (parse_error_at_prev ''Expected match end of file'') (act_return True)
       | t # _ \<Rightarrow> act_return (tk_type t = token_eof))"

definition parse_advance :: "token option pact" where
  "parse_advance =
     act_if parse_is_at_end (act_return None)
       (act_then (act_update (\<lambda>p. p\<lparr>pa_pprev := pa_prev p, pa_prev := Some (hd (pa_curr p)),
                                     pa_curr := tl (pa_curr p)\<rparr>))
         (act_get pa_prev))"

definition parse_check :: "token_type \<Rightarrow> bool pact" where
  "parse_check type = act_get (\<lambda>p. case pa_curr p of [] \<Rightarrow> False | t # _ \<Rightarrow> tk_type t = type)"

definition parse_match :: "token_type \<Rightarrow> bool pact" where
  "parse_match type =
     act_if (act_not (parse_check type)) (act_return False)
       (act_then (act_ignore parse_advance) (act_return True))"

definition parse_consume :: "token_type \<Rightarrow> string \<Rightarrow> unit pact" where
  "parse_consume type message =
     act_bind curr_token (\<lambda>t.
       if tk_type t = type then act_ignore parse_advance else parse_error_at_curr message)"

text \<open>\<open>!check(a) && !check(b)\<close>, the guard of most loops.\<close>

definition check_neither :: "token_type \<Rightarrow> token_type \<Rightarrow> bool pact" where
  "check_neither a b = act_if (act_not (parse_check a)) (act_not (parse_check b)) (act_return False)"

definition starts_statement :: "token_type \<Rightarrow> bool" where
  "starts_statement t \<longleftrightarrow>
     t \<in> {token_class, token_fn, token_var, token_for, token_if, token_while, token_return}"

text \<open>The loop of \<open>synchronize\<close>, over the tokens from \<open>curr\<close> on.\<close>

primrec synchronize_loop :: "token list \<Rightarrow> unit pact" where
  "synchronize_loop [] = act_ignore parse_is_at_end"
| "synchronize_loop (t # ts) =
     act_if parse_is_at_end (act_return ())
       (act_bind prev_token (\<lambda>prev.
         if tk_type prev = token_semicolon then act_return ()
         else if starts_statement (tk_type t) then act_return ()
         else act_then (act_ignore parse_advance) (synchronize_loop ts)))"

definition synchronize :: "unit pact" where
  "synchronize =
     act_then (act_update (\<lambda>p. p\<lparr>pa_panic_mode := False\<rparr>))
       (act_bind (act_get pa_curr) synchronize_loop)"

subsection \<open>The current compiler\<close>

definition this_compiler :: "compiler pact" where
  "this_compiler = act_with (\<lambda>p.
     case pa_compilers p of [] \<Rightarrow> Inl (Undefined ''null compiler'') | c # _ \<Rightarrow> Inr c)"

definition put_compiler :: "compiler \<Rightarrow> unit pact" where
  "put_compiler c = act_update (\<lambda>p. p\<lparr>pa_compilers := c # tl (pa_compilers p)\<rparr>)"

definition modify_compiler :: "(compiler \<Rightarrow> compiler) \<Rightarrow> unit pact" where
  "modify_compiler f = act_bind this_compiler (\<lambda>c. put_compiler (f c))"

definition curr_chunk :: "chunk pact" where
  "curr_chunk = act_bind this_compiler (\<lambda>c. act_return (fn_chunk (co_fn c)))"

definition set_chunk :: "chunk \<Rightarrow> compiler \<Rightarrow> compiler" where
  "set_chunk ck c = c\<lparr>co_fn := (co_fn c)\<lparr>fn_chunk := ck\<rparr>\<rparr>"

definition write_code :: "(chunk \<Rightarrow> chunk outcome) \<Rightarrow> unit pact" where
  "write_code f = act_bind curr_chunk (\<lambda>ck. act_bind (act_lift (f ck)) (\<lambda>ck. modify_compiler (set_chunk ck)))"

definition code_count :: "nat pact" where
  "code_count = act_bind curr_chunk (\<lambda>ck. act_return (ck_count ck))"

definition begin_loop :: "nat \<Rightarrow> unit pact" where
  "begin_loop start =
     modify_compiler (\<lambda>c. c\<lparr>co_loops := \<lparr>lp_start = start, lp_end = None\<rparr> # co_loops c\<rparr>)"

definition end_loop :: "unit pact" where
  "end_loop = act_bind this_compiler (\<lambda>c.
     case co_loops c of
       [] \<Rightarrow> act_halt (Panic ''Compiler::end_loop'')
     | _ # ls \<Rightarrow> modify_compiler (\<lambda>c. c\<lparr>co_loops := ls\<rparr>))"

text \<open>\<open>vm->compiler->loop->end\<close> and \<open>->start\<close>, which read through a null pointer outside of loops.\<close>

definition curr_loop :: "loop_info pact" where
  "curr_loop = act_bind this_compiler (\<lambda>c.
     case co_loops c of [] \<Rightarrow> act_halt (Undefined ''null loop'') | l # _ \<Rightarrow> act_return l)"

definition compile_begin_scope :: "unit pact" where
  "compile_begin_scope = modify_compiler (\<lambda>c. c\<lparr>co_scope_depth := co_scope_depth c + 1\<rparr>)"

definition compile_end_scope :: "unit pact" where
  "compile_end_scope = modify_compiler (\<lambda>c. c\<lparr>co_scope_depth := co_scope_depth c - 1\<rparr>)"

definition first_local :: "fn_type \<Rightarrow> local_variable" where
  "first_local type =
     \<lparr>lv_name = (if type = type_initializer \<or> type = type_method then make_token token_self ''self'' 0
                 else make_token token_identifier [] 0),
      lv_depth = 0, lv_is_captured = False\<rparr>"

definition init_compiler :: "fn_type \<Rightarrow> compiler pact" where
  "init_compiler type =
     (\<lambda>p. let (a, h) = new_fn (pa_heap p)
          in Inr (\<lparr>co_fn_at = a, co_fn = empty_fn, co_fn_type = type, co_locals = [first_local type],
                   co_scope_depth = 0, co_upvalues = [], co_loops = []\<rparr>, p\<lparr>pa_heap := h\<rparr>))"

definition push_compiler :: "compiler \<Rightarrow> unit pact" where
  "push_compiler c = act_update (\<lambda>p. p\<lparr>pa_compilers := c # pa_compilers p\<rparr>)"

definition into_curr_class_compiler :: "unit pact" where
  "into_curr_class_compiler = act_update (\<lambda>p. p\<lparr>pa_classes := False # pa_classes p\<rparr>)"

definition set_curr_class_superclass :: "bool \<Rightarrow> unit pact" where
  "set_curr_class_superclass b = act_update (\<lambda>p. p\<lparr>pa_classes := b # tl (pa_classes p)\<rparr>)"

definition out_curr_class_compiler :: "unit pact" where
  "out_curr_class_compiler =
     act_bind (act_get pa_classes) (\<lambda>cs.
       case cs of [] \<Rightarrow> act_halt (Undefined ''null class compiler'')
       | _ # cs \<Rightarrow> act_update (\<lambda>p. p\<lparr>pa_classes := cs\<rparr>))"

end
