(* ===== verification/Joker_Emit.thy ===== *)
theory Joker_Emit
  imports Joker_Compiler
begin

text \<open>
  The emission of code and the resolution of variables (the second part of src/parser.c, from
  \<open>emit_byte\<close> to \<open>curr_from_sub_compiler\<close>). Every byte is written with the line of the previous
  token. An operand is the low byte of the index it stands for, whatever the index is.
\<close>

subsection \<open>Code\<close>

definition emit_byte :: "u8 \<Rightarrow> unit pact" where
  "emit_byte b = act_bind prev_token (\<lambda>t. write_code (\<lambda>ck. write_chunk ck b (tk_line t)))"

definition emit_op :: "op_code \<Rightarrow> unit pact" where
  "emit_op op = emit_byte (op_byte op)"

definition emit_constant :: "jvalue \<Rightarrow> unit pact" where
  "emit_constant v = act_bind prev_token (\<lambda>t. write_code (\<lambda>ck. write_constant ck v (tk_line t)))"

definition emit_bytes :: "op_code \<Rightarrow> u8 \<Rightarrow> unit pact" where
  "emit_bytes opcode operand = act_seq [emit_op opcode, emit_byte operand]"

definition emit_return :: "unit pact" where
  "emit_return = act_bind this_compiler (\<lambda>c. act_seq
     [if co_fn_type c = type_initializer then emit_bytes op_get_local 0 else act_return (),
      emit_op op_return])"

definition emit_jump :: "op_code \<Rightarrow> nat pact" where
  "emit_jump opcode =
     act_then (act_seq [emit_op opcode, emit_byte 0xFF, emit_byte 0xFF])
       (act_bind code_count (\<lambda>n. act_return (n - 2)))"

text \<open>The two bytes of a jump, in the order high, low.\<close>

definition high_byte :: "int \<Rightarrow> u8" where
  "high_byte i = word_of_int (i div 256)"

definition low_byte :: "int \<Rightarrow> u8" where
  "low_byte i = word_of_int i"

definition store_jump :: "nat \<Rightarrow> int \<Rightarrow> chunk \<Rightarrow> chunk outcome" where
  "store_jump offset jump ck =
     andThen (buf_write (ck_code ck) offset (high_byte jump)) (\<lambda>b.
     andThen (buf_write b (offset + 1) (low_byte jump)) (\<lambda>b. Inr (ck\<lparr>ck_code := b\<rparr>)))"

definition patch_jump :: "nat \<Rightarrow> unit pact" where
  "patch_jump offset =
     act_bind code_count (\<lambda>n.
       let jump = int n - int offset - 2 in act_seq
         [if jump > UINT16_MAX then parse_error_at_curr ''Expected jump offset less than 2^16'' else act_return (),
          write_code (store_jump offset jump)])"

definition emit_back :: "op_code \<Rightarrow> nat \<Rightarrow> unit pact" where
  "emit_back opcode loop_start =
     act_then (emit_op opcode) (act_bind code_count (\<lambda>n.
       let offset = int n - int loop_start + 2 in act_seq
         [if offset > UINT16_MAX then parse_error_at_curr ''Expected loop offset less than 2^16'' else act_return (),
          emit_byte (high_byte offset), emit_byte (low_byte offset)]))"

definition emit_loop :: "nat \<Rightarrow> unit pact" where
  "emit_loop loop_start = emit_back op_loop loop_start"

definition emit_continue :: "nat \<Rightarrow> unit pact" where
  "emit_continue loop_start = emit_back op_continue loop_start"

text \<open>\<open>code[-1]\<close> when the loop has no \<open>break\<close>; the callers test it before.\<close>

definition emit_break :: "unit pact" where
  "emit_break = act_bind this_compiler (\<lambda>c.
     case co_loops c of
       [] \<Rightarrow> parse_error_at_curr ''Can't use 'break' outside of a loop.''
     | l # _ \<Rightarrow> (case lp_end l of None \<Rightarrow> act_halt (Undefined ''code[-1]'') | Some i \<Rightarrow> patch_jump i))"

definition make_constant :: "jvalue \<Rightarrow> nat pact" where
  "make_constant v =
     act_bind curr_chunk (\<lambda>ck. act_bind (act_lift (add_constant ck v)) (\<lambda>(ck, index).
     act_then (modify_compiler (set_chunk ck))
     (act_then (if int index > UINT16_MAX then parse_error_at_curr ''Expected constant index less than 2^16''
                else act_return ())
       (act_return index))))"

definition identifier_constant :: "token \<Rightarrow> nat pact" where
  "identifier_constant t = make_constant (string_value (tk_lexeme t))"

subsection \<open>Variables\<close>

definition identifiers_equal :: "token \<Rightarrow> token \<Rightarrow> bool" where
  "identifiers_equal left right = equal_token left right"

definition synthetic_token :: "string \<Rightarrow> token" where
  "synthetic_token text = make_token token_identifier text 0"

definition add_local :: "token \<Rightarrow> unit pact" where
  "add_local name = act_bind this_compiler (\<lambda>c.
     if length (co_locals c) = uint8_count
     then parse_error_at_curr ''Expected local variable count less than 256''
     else modify_compiler (\<lambda>c. c\<lparr>co_locals := co_locals c @
       [\<lparr>lv_name = make_token (tk_type name) (tk_lexeme name) (tk_line name), lv_depth = -1,
         lv_is_captured = False\<rparr>]\<rparr>))"

text \<open>The loop of \<open>declare_variable\<close>, from the last local down.\<close>

primrec declare_loop :: "local_variable list \<Rightarrow> int \<Rightarrow> token \<Rightarrow> unit pact" where
  "declare_loop [] depth name = act_return ()"
| "declare_loop (l # ls) depth name =
     (if lv_depth l \<noteq> -1 \<and> lv_depth l < depth then act_return ()
      else act_seq
        [if identifiers_equal (lv_name l) name
         then parse_error_at_curr ''Variable with this name already declared in this scope.''
         else act_return (),
         declare_loop ls depth name])"

definition declare_variable :: "token \<Rightarrow> unit pact" where
  "declare_variable name = act_bind this_compiler (\<lambda>c.
     if co_scope_depth c = 0 then act_return ()
     else act_seq [declare_loop (rev (co_locals c)) (co_scope_depth c) name, add_local name])"

definition mark_initialized :: "unit pact" where
  "mark_initialized = act_bind this_compiler (\<lambda>c.
     if co_scope_depth c = 0 then act_return ()
     else if co_locals c = [] then act_halt (Undefined ''locals[-1]'')
     else modify_compiler (\<lambda>c. c\<lparr>co_locals :=
       butlast (co_locals c) @ [(last (co_locals c))\<lparr>lv_depth := co_scope_depth c\<rparr>]\<rparr>))"

definition define_variable :: "u8 \<Rightarrow> unit pact" where
  "define_variable index = act_bind this_compiler (\<lambda>c.
     if co_scope_depth c > 0 then mark_initialized else emit_bytes op_define_global index)"

text \<open>The index of the last local with the name.\<close>

primrec find_local :: "local_variable list \<Rightarrow> token \<Rightarrow> nat option" where
  "find_local [] name = None"
| "find_local (l # ls) name =
     (case find_local ls name of
        Some i \<Rightarrow> Some (Suc i)
      | None \<Rightarrow> if identifiers_equal (lv_name l) name then Some 0 else None)"

definition resolve_local :: "compiler \<Rightarrow> token \<Rightarrow> nat option pact" where
  "resolve_local c name =
     (case find_local (co_locals c) name of
        None \<Rightarrow> act_return None
      | Some i \<Rightarrow> act_then
          (if lv_depth (co_locals c ! i) = -1
           then parse_error_at_curr ''Local variable with this name is not initialized in this scope.''
           else act_return ())
          (act_return (Some i)))"

primrec index_of :: "u8 list \<Rightarrow> u8 \<Rightarrow> nat option" where
  "index_of [] x = None"
| "index_of (y # ys) x = (if y = x then Some 0 else map_option Suc (index_of ys x))"

definition add_upvalue :: "compiler \<Rightarrow> u8 \<Rightarrow> (nat \<times> compiler) pact" where
  "add_upvalue c info =
     (if length (co_upvalues c) = upvalue_index_count
      then act_then (parse_error_at_curr ''Expected upvalue count less than 128'') (act_return (0, c))
      else case index_of (co_upvalues c) info of
        Some i \<Rightarrow> act_return (i, c)
      | None \<Rightarrow> act_return (length (co_upvalues c),
          c\<lparr>co_upvalues := co_upvalues c @ [info],
            co_fn := (co_fn c)\<lparr>fn_upvalue_count := Suc (length (co_upvalues c))\<rparr>\<rparr>))"

definition capture_local :: "nat \<Rightarrow> compiler \<Rightarrow> compiler" where
  "capture_local i c = c\<lparr>co_locals := (co_locals c)[i := (co_locals c ! i)\<lparr>lv_is_captured := True\<rparr>]\<rparr>"

text \<open>From a compiler and those that enclose it, to the index and the compilers changed.\<close>

fun resolve_upvalue :: "compiler list \<Rightarrow> token \<Rightarrow> (nat option \<times> compiler list) pact" where
  "resolve_upvalue [] name = act_halt (Undefined ''null compiler'')"
| "resolve_upvalue [c] name = act_return (None, [c])"
| "resolve_upvalue (c # up # cs) name =
     (if co_fn_type c = type_script then act_return (None, c # up # cs)
      else act_bind (resolve_local up name) (\<lambda>up_local. case up_local of
          Some i \<Rightarrow> act_bind (add_upvalue c (new_upvalue_info (of_nat i) True)) (\<lambda>(j, c).
            act_return (Some j, c # capture_local i up # cs))
        | None \<Rightarrow> act_bind (resolve_upvalue (up # cs) name) (\<lambda>(up_upvalue, ups). case up_upvalue of
            Some i \<Rightarrow> act_bind (add_upvalue c (new_upvalue_info (of_nat i) False)) (\<lambda>(j, c).
              act_return (Some j, c # ups))
          | None \<Rightarrow> act_return (None, c # ups))))"

definition resolve_here :: "token \<Rightarrow> nat option pact" where
  "resolve_here name = act_bind this_compiler (\<lambda>c. resolve_local c name)"

definition resolve_upvalue_here :: "token \<Rightarrow> nat option pact" where
  "resolve_upvalue_here name =
     act_bind (act_get pa_compilers) (\<lambda>cs. act_bind (resolve_upvalue cs name) (\<lambda>(r, cs).
       act_then (act_update (\<lambda>p. p\<lparr>pa_compilers := cs\<rparr>)) (act_return r)))"

text \<open>
  How a name is read and written: the local, the upvalue or the global it resolves to, with the
  operand. A global enters the constants each time.
\<close>

definition resolve_variable :: "token \<Rightarrow> (op_code \<times> op_code \<times> u8) pact" where
  "resolve_variable name =
     act_bind (resolve_here name) (\<lambda>l. case l of
       Some i \<Rightarrow> act_return (op_get_local, op_set_local, of_nat i)
     | None \<Rightarrow> act_bind (resolve_upvalue_here name) (\<lambda>u. case u of
         Some i \<Rightarrow> act_return (op_get_upvalue, op_set_upvalue, of_nat i)
       | None \<Rightarrow> act_bind (identifier_constant name) (\<lambda>i.
           act_return (op_get_global, op_set_global, of_nat i))))"

subsection \<open>Scopes and functions\<close>

definition begin_scope :: "unit pact" where
  "begin_scope = compile_begin_scope"

text \<open>The loop of \<open>end_scope\<close>, over the locals from the last one down.\<close>

primrec end_scope_loop :: "local_variable list \<Rightarrow> int \<Rightarrow> unit pact" where
  "end_scope_loop [] depth = act_return ()"
| "end_scope_loop (l # ls) depth =
     (if lv_depth l > depth then act_seq
        [emit_op (if lv_is_captured l then op_close_upvalue else op_pop),
         modify_compiler (\<lambda>c. c\<lparr>co_locals := butlast (co_locals c)\<rparr>),
         end_scope_loop ls depth]
      else act_return ())"

definition end_scope :: "unit pact" where
  "end_scope =
     act_then compile_end_scope (act_bind this_compiler (\<lambda>c.
       end_scope_loop (rev (co_locals c)) (co_scope_depth c)))"

definition curr_into_sub_compiler :: "fn_type \<Rightarrow> unit pact" where
  "curr_into_sub_compiler type =
     act_bind (init_compiler type) (\<lambda>sub. act_seq
       [push_compiler sub,
        if type \<noteq> type_script then act_bind prev_token (\<lambda>t.
          modify_compiler (\<lambda>c. c\<lparr>co_fn := (co_fn c)\<lparr>fn_name := Some (tk_lexeme t)\<rparr>\<rparr>))
        else act_return ()])"

text \<open>The compiler that is left is given back, for its function and its upvalues.\<close>

definition curr_from_sub_compiler :: "compiler pact" where
  "curr_from_sub_compiler =
     act_then emit_return (act_bind this_compiler (\<lambda>c.
     act_then (act_update (\<lambda>p. p\<lparr>pa_compilers := tl (pa_compilers p),
                                 pa_heap := write_obj (co_fn_at c) (OFn (co_fn c)) (pa_heap p)\<rparr>))
       (act_return c)))"

text \<open>The closure instruction of \<open>parse_function\<close> and \<open>parse_lambda\<close>.\<close>

definition emit_closure :: "compiler \<Rightarrow> unit pact" where
  "emit_closure c =
     act_bind (make_constant (obj_value (co_fn_at c))) (\<lambda>index. act_seq
       (emit_bytes op_closure (of_nat index) # map emit_byte (co_upvalues c)))"

end
