(* ===== verification/Joker_Parser.thy ===== *)
theory Joker_Parser
  imports Joker_Emit
begin

text \<open>
  The grammar (src/parser.c from \<open>parse_tokens\<close> on) and \<open>compile\<close> (src/compiler.c).

  The functions call each other in a circle. Each is defined over a context that holds the four
  entry points of the circle, as a function on \<open>nonterm\<close>; \<open>parse_fuel\<close> ties the knot over fuel, which
  also bounds every loop, and a parse that runs out of fuel diverges. The type labels that are
  skipped and the rules of the static table are as in the source. The number literals of floating
  point are read by the C library, which is a parameter.
\<close>

subsection \<open>Precedences and rules\<close>

datatype (plugins only: code) precedence_level =
  prec_none | prec_assign | prec_conditional | prec_or | prec_and | prec_bitwise_or
    | prec_bitwise_xor | prec_bitwise_and | prec_equality | prec_comparison | prec_shift
    | prec_term | prec_factor | prec_unary | prec_call | prec_primary

primrec prec_level :: "precedence_level \<Rightarrow> nat" where
  "prec_level prec_none = 0"
| "prec_level prec_assign = 1"
| "prec_level prec_conditional = 2"
| "prec_level prec_or = 3"
| "prec_level prec_and = 4"
| "prec_level prec_bitwise_or = 5"
| "prec_level prec_bitwise_xor = 6"
| "prec_level prec_bitwise_and = 7"
| "prec_level prec_equality = 8"
| "prec_level prec_comparison = 9"
| "prec_level prec_shift = 10"
| "prec_level prec_term = 11"
| "prec_level prec_factor = 12"
| "prec_level prec_unary = 13"
| "prec_level prec_call = 14"
| "prec_level prec_primary = 15"

text \<open>The functions the table points to.\<close>

datatype (plugins only: code) parse_fn =
  P_grouping | P_call | P_dot | P_layer | P_i32 | P_i64 | P_f32 | P_f64 | P_unary | P_binary
    | P_literal | P_string | P_identifier | P_and | P_or | P_self | P_super | P_vector
    | P_vector_index | P_bitwise_and | P_bitwise_or | P_bitwise_xor | P_shift_left
    | P_shift_right | P_bitwise_not | P_compound_assign | P_ternary | P_lambda

record parse_rule =
  pr_prefix :: "parse_fn option"
  pr_infix :: "parse_fn option"
  pr_outer :: precedence_level
  pr_level :: precedence_level

definition rule :: "parse_fn option \<Rightarrow> parse_fn option \<Rightarrow> precedence_level \<Rightarrow> precedence_level \<Rightarrow> parse_rule" where
  "rule prefix infix p0 p1 = \<lparr>pr_prefix = prefix, pr_infix = infix, pr_outer = p0, pr_level = p1\<rparr>"

text \<open>Tokens without a row of their own have the row of zeros.\<close>

primrec get_rule :: "token_type \<Rightarrow> parse_rule" where
  "get_rule token_left_paren = rule (Some P_grouping) (Some P_call) prec_call prec_call"
| "get_rule token_right_paren = rule None None prec_none prec_none"
| "get_rule token_left_bracket = rule (Some P_vector) (Some P_vector_index) prec_call prec_call"
| "get_rule token_right_bracket = rule None None prec_none prec_none"
| "get_rule token_left_brace = rule None None prec_none prec_none"
| "get_rule token_right_brace = rule None None prec_none prec_none"
| "get_rule token_comma = rule None None prec_none prec_none"
| "get_rule token_dot = rule None (Some P_dot) prec_call prec_call"
| "get_rule token_pipe = rule (Some P_lambda) (Some P_bitwise_or) prec_primary prec_bitwise_or"
| "get_rule token_colon = rule None None prec_none prec_none"
| "get_rule token_question = rule None (Some P_ternary) prec_conditional prec_conditional"
| "get_rule token_semicolon = rule None None prec_none prec_none"
| "get_rule token_minus = rule (Some P_unary) (Some P_binary) prec_term prec_term"
| "get_rule token_plus = rule None (Some P_binary) prec_term prec_term"
| "get_rule token_star = rule None (Some P_binary) prec_factor prec_factor"
| "get_rule token_slash = rule None (Some P_binary) prec_factor prec_factor"
| "get_rule token_mod = rule None (Some P_binary) prec_factor prec_factor"
| "get_rule token_plus_assign = rule None (Some P_compound_assign) prec_assign prec_assign"
| "get_rule token_minus_assign = rule None (Some P_compound_assign) prec_assign prec_assign"
| "get_rule token_star_assign = rule None (Some P_compound_assign) prec_assign prec_assign"
| "get_rule token_slash_assign = rule None (Some P_compound_assign) prec_assign prec_assign"
| "get_rule token_mod_assign = rule None (Some P_compound_assign) prec_assign prec_assign"
| "get_rule token_bit_and = rule None (Some P_bitwise_and) prec_bitwise_and prec_bitwise_and"
| "get_rule token_bit_and_assign = rule None (Some P_compound_assign) prec_assign prec_assign"
| "get_rule token_bit_or = rule None None prec_none prec_none"
| "get_rule token_bit_or_assign = rule None (Some P_compound_assign) prec_assign prec_assign"
| "get_rule token_bit_xor = rule None (Some P_bitwise_xor) prec_bitwise_xor prec_bitwise_xor"
| "get_rule token_bit_xor_assign = rule None (Some P_compound_assign) prec_assign prec_assign"
| "get_rule token_shl = rule None (Some P_shift_left) prec_shift prec_shift"
| "get_rule token_shl_assign = rule None (Some P_compound_assign) prec_assign prec_assign"
| "get_rule token_shr = rule None (Some P_shift_right) prec_shift prec_shift"
| "get_rule token_shr_assign = rule None (Some P_compound_assign) prec_assign prec_assign"
| "get_rule token_bit_not = rule (Some P_bitwise_not) None prec_unary prec_unary"
| "get_rule token_bit_not_assign = rule None (Some P_compound_assign) prec_assign prec_assign"
| "get_rule token_not = rule (Some P_unary) None prec_unary prec_unary"
| "get_rule token_neq = rule None (Some P_binary) prec_equality prec_equality"
| "get_rule token_assign = rule None None prec_none prec_none"
| "get_rule token_eq = rule None (Some P_binary) prec_equality prec_equality"
| "get_rule token_gt = rule None (Some P_binary) prec_comparison prec_comparison"
| "get_rule token_egt = rule None (Some P_binary) prec_comparison prec_comparison"
| "get_rule token_le = rule None (Some P_binary) prec_comparison prec_comparison"
| "get_rule token_let = rule None (Some P_binary) prec_comparison prec_comparison"
| "get_rule token_arrow = rule None None prec_none prec_none"
| "get_rule token_fat_arrow = rule None None prec_none prec_none"
| "get_rule token_underscore = rule None None prec_none prec_none"
| "get_rule token_layer = rule None (Some P_layer) prec_call prec_call"
| "get_rule token_identifier = rule (Some P_identifier) None prec_none prec_none"
| "get_rule token_string = rule (Some P_string) None prec_none prec_none"
| "get_rule token_i32 = rule (Some P_i32) None prec_none prec_none"
| "get_rule token_i64 = rule (Some P_i64) None prec_none prec_none"
| "get_rule token_f32 = rule (Some P_f32) None prec_none prec_none"
| "get_rule token_f64 = rule (Some P_f64) None prec_none prec_none"
| "get_rule token_type = rule None None prec_none prec_none"
| "get_rule token_and = rule None (Some P_and) prec_and prec_and"
| "get_rule token_class = rule None None prec_none prec_none"
| "get_rule token_struct = rule None None prec_none prec_none"
| "get_rule token_else = rule None None prec_none prec_none"
| "get_rule token_false = rule (Some P_literal) None prec_none prec_none"
| "get_rule token_for = rule None None prec_none prec_none"
| "get_rule token_fn = rule None None prec_none prec_none"
| "get_rule token_if = rule None None prec_none prec_none"
| "get_rule token_none = rule (Some P_literal) None prec_none prec_none"
| "get_rule token_or = rule None (Some P_or) prec_or prec_or"
| "get_rule token_return = rule None None prec_none prec_none"
| "get_rule token_super = rule (Some P_super) None prec_none prec_none"
| "get_rule token_self = rule (Some P_self) None prec_none prec_none"
| "get_rule token_true = rule (Some P_literal) None prec_none prec_none"
| "get_rule token_var = rule None None prec_none prec_none"
| "get_rule token_while = rule None None prec_none prec_none"
| "get_rule token_break = rule None None prec_none prec_none"
| "get_rule token_continue = rule None None prec_none prec_none"
| "get_rule token_match = rule None None prec_none prec_none"
| "get_rule token_loop = rule None None prec_none prec_none"
| "get_rule token_enum = rule None None prec_none prec_none"
| "get_rule token_error = rule None None prec_none prec_none"
| "get_rule token_eof = rule None None prec_none prec_none"

subsection \<open>The circle\<close>

text \<open>\<open>N_precedence n\<close> is \<open>parse_precedence\<close> with the level \<open>n\<close>.\<close>

datatype nonterm =
  N_declaration | N_class_declaration | N_statement | N_match_statement | N_precedence nat

record libc =
  lc_strtof :: "string \<Rightarrow> u32"
  lc_strtod :: "string \<Rightarrow> u64"

record ctx =
  cx_libc :: libc
  cx_fuel :: nat
  cx_rec :: "nonterm \<Rightarrow> unit pact"

definition precedence :: "ctx \<Rightarrow> precedence_level \<Rightarrow> unit pact" where
  "precedence C p = cx_rec C (N_precedence (prec_level p))"

definition parse_expression :: "ctx \<Rightarrow> unit pact" where
  "parse_expression C = precedence C prec_assign"

definition parse_block_statement :: "ctx \<Rightarrow> unit pact" where
  "parse_block_statement C = act_seq
     [act_while (cx_fuel C) (check_neither token_right_brace token_eof) (cx_rec C N_declaration),
      parse_consume token_right_brace ''Expected } after block statement.'']"

subsection \<open>Variables and functions\<close>

definition parse_named_variable :: "ctx \<Rightarrow> token \<Rightarrow> bool \<Rightarrow> unit pact" where
  "parse_named_variable C name can_assign =
     act_bind (resolve_variable name) (\<lambda>(get_op, set_op, index).
       act_if (if can_assign then parse_match token_assign else act_return False)
         (act_seq [parse_expression C, emit_bytes set_op index])
         (emit_bytes get_op index))"

definition parse_variable :: "string \<Rightarrow> nat pact" where
  "parse_variable message =
     act_then (parse_consume token_identifier message)
     (act_bind prev_token (\<lambda>name.
     act_then (declare_variable name)
     (act_bind this_compiler (\<lambda>c.
       if co_scope_depth c > 0 then act_return 0 else identifier_constant name))))"

definition count_parameter :: "unit pact \<Rightarrow> unit pact" where
  "count_parameter too_many =
     act_then (modify_compiler (\<lambda>c. c\<lparr>co_fn := (co_fn c)\<lparr>fn_arity := fn_arity (co_fn c) + 1\<rparr>\<rparr>))
     (act_bind this_compiler (\<lambda>c.
       if fn_arity (co_fn c) > argument_count_max then too_many else act_return ()))"

text \<open>
  With more than 255 parameters \<open>parse_function\<close> returns with \<open>vm->compiler\<close> pointing to its own
  variable, which its callers read next.
\<close>

definition parse_parameter :: "ctx \<Rightarrow> unit pact" where
  "parse_parameter C = act_seq
     [count_parameter (act_halt (Undefined ''compiler of a function that returned'')),
      act_bind (parse_variable ''Expected parameter name.'') (\<lambda>i. define_variable (of_nat i)),
      act_if (parse_match token_colon)
        (act_do_while (cx_fuel C) (act_ignore parse_advance) (check_neither token_right_paren token_comma))
        (act_return ())]"

definition parse_function :: "ctx \<Rightarrow> fn_type \<Rightarrow> unit pact" where
  "parse_function C type =
     act_then (act_seq
       [curr_into_sub_compiler type,
        begin_scope,
        parse_consume token_left_paren ''Expected ( after function name.'',
        act_if (act_not (parse_check token_right_paren))
          (act_do_while (cx_fuel C) (parse_parameter C) (parse_match token_comma))
          (act_return ()),
        parse_consume token_right_paren ''Expected ) after function parameters.'',
        act_if (parse_match token_arrow)
          (act_while (cx_fuel C) (act_not (parse_check token_left_brace)) (act_ignore parse_advance))
          (act_return ()),
        parse_consume token_left_brace ''Expected { before function body.'',
        parse_block_statement C])
     (act_bind curr_from_sub_compiler emit_closure)"

definition parse_fn_declaration :: "ctx \<Rightarrow> unit pact" where
  "parse_fn_declaration C =
     act_bind (parse_variable ''Expected function name.'') (\<lambda>i. act_seq
       [mark_initialized, parse_function C type_fn, define_variable (of_nat i)])"

definition parse_var :: "ctx \<Rightarrow> unit pact" where
  "parse_var C =
     act_bind (parse_variable ''Expected variable name.'') (\<lambda>i. act_seq
       [act_if (parse_match token_colon)
          (act_while (cx_fuel C)
            (act_if (check_neither token_assign token_comma) (act_not (parse_check token_semicolon)) (act_return False))
            (act_ignore parse_advance))
          (act_return ()),
        act_if (parse_match token_assign) (parse_expression C) (emit_op op_none),
        define_variable (of_nat i)])"

definition parse_var_declaration :: "ctx \<Rightarrow> unit pact" where
  "parse_var_declaration C = act_seq
     [act_do_while (cx_fuel C) (parse_var C) (parse_match token_comma),
      parse_consume token_semicolon ''Expected ; after variable declaration.'']"

subsection \<open>Expressions\<close>

text \<open>\<open>strtol\<close> and \<open>strtoll\<close> on the lexeme of a number, which the digits of the token end.\<close>

definition strtoll :: "string \<Rightarrow> int" where
  "strtoll cs = min (int (foldl (\<lambda>a c. 10 * a + (code_of c - code_of CHR ''0'')) 0 (takeWhile is_digit cs))) (2 ^ 63 - 1)"

definition parse_i32 :: "unit pact" where
  "parse_i32 = act_bind prev_token (\<lambda>t. emit_constant (VI32 (word_of_int (strtoll (tk_lexeme t)))))"

definition parse_i64 :: "unit pact" where
  "parse_i64 = act_bind prev_token (\<lambda>t. emit_constant (VI64 (word_of_int (strtoll (tk_lexeme t)))))"

definition parse_f32 :: "ctx \<Rightarrow> unit pact" where
  "parse_f32 C = act_bind prev_token (\<lambda>t. emit_constant (VF32 (lc_strtof (cx_libc C) (tk_lexeme t))))"

definition parse_f64 :: "ctx \<Rightarrow> unit pact" where
  "parse_f64 C = act_bind prev_token (\<lambda>t. emit_constant (VF64 (lc_strtod (cx_libc C) (tk_lexeme t))))"

definition parse_grouping :: "ctx \<Rightarrow> unit pact" where
  "parse_grouping C = act_seq
     [parse_expression C, parse_consume token_right_paren ''Expected ) after expression.'']"

text \<open>The count is a byte, so a 256th argument makes it 0.\<close>

primrec argument_loop :: "nat \<Rightarrow> ctx \<Rightarrow> u8 \<Rightarrow> u8 pact" where
  "argument_loop 0 C arg_count = act_halt Diverge"
| "argument_loop (Suc n) C arg_count =
     act_then (act_seq
       [parse_expression C,
        if unat arg_count = argument_count_max then parse_error_at_curr ''Too many arguments, limit is 255.''
        else act_return ()])
     (act_if (parse_match token_comma) (argument_loop n C (arg_count + 1)) (act_return (arg_count + 1)))"

definition parse_argument_list :: "ctx \<Rightarrow> u8 pact" where
  "parse_argument_list C =
     act_bind (act_if (act_not (parse_check token_right_paren)) (argument_loop (cx_fuel C) C 0) (act_return 0))
       (\<lambda>arg_count. act_then (parse_consume token_right_paren ''Expected ) after arguments.'')
         (act_return arg_count))"

definition parse_call :: "ctx \<Rightarrow> unit pact" where
  "parse_call C = act_bind (parse_argument_list C) (\<lambda>n. emit_bytes op_call n)"

definition parse_unary :: "ctx \<Rightarrow> unit pact" where
  "parse_unary C = act_bind prev_token (\<lambda>t. act_seq
     [precedence C prec_unary,
      if tk_type t = token_not then emit_op op_not
      else if tk_type t = token_minus then emit_op op_negate
      else act_halt (Panic ''Parser::parse_unary'')])"

definition binary_op :: "token_type \<Rightarrow> op_code option" where
  "binary_op type = map_of
     [(token_neq, op_not_equal), (token_eq, op_equal), (token_gt, op_greater), (token_egt, op_greater_equal),
      (token_le, op_less), (token_let, op_less_equal), (token_plus, op_add), (token_minus, op_subtract),
      (token_star, op_multiply), (token_slash, op_divide), (token_mod, op_mod)] type"

definition parse_binary :: "ctx \<Rightarrow> unit pact" where
  "parse_binary C = act_bind prev_token (\<lambda>t. act_seq
     [cx_rec C (N_precedence (prec_level (pr_outer (get_rule (tk_type t))) + 1)),
      case binary_op (tk_type t) of
        Some op \<Rightarrow> emit_op op
      | None \<Rightarrow> act_halt (Panic ''Parser::parse_unary'')])"

definition parse_literal :: "unit pact" where
  "parse_literal = act_bind prev_token (\<lambda>t.
     if tk_type t = token_false then emit_op op_false
     else if tk_type t = token_true then emit_op op_true
     else if tk_type t = token_none then emit_op op_none
     else act_halt (Panic ''Parser::parse_literal''))"

text \<open>The lexeme has its quotes, or is at least two characters long.\<close>

definition parse_string :: "unit pact" where
  "parse_string = act_bind prev_token (\<lambda>t.
     emit_constant (string_value (take (length (tk_lexeme t) - 2) (drop 1 (tk_lexeme t)))))"

definition parse_and :: "ctx \<Rightarrow> unit pact" where
  "parse_and C = act_bind (emit_jump op_jump_if_false) (\<lambda>end_jump. act_seq
     [emit_op op_pop, precedence C prec_and, patch_jump end_jump])"

definition parse_or :: "ctx \<Rightarrow> unit pact" where
  "parse_or C = act_bind (emit_jump op_jump_if_false) (\<lambda>else_jump.
     act_bind (emit_jump op_jump) (\<lambda>end_jump. act_seq
       [patch_jump else_jump, emit_op op_pop, precedence C prec_or, patch_jump end_jump]))"

definition parse_operator :: "ctx \<Rightarrow> precedence_level \<Rightarrow> op_code \<Rightarrow> unit pact" where
  "parse_operator C p op = act_seq [precedence C p, emit_op op]"

definition parse_bitwise_and :: "ctx \<Rightarrow> unit pact" where
  "parse_bitwise_and C = parse_operator C prec_bitwise_and op_bw_and"

definition parse_bitwise_or :: "ctx \<Rightarrow> unit pact" where
  "parse_bitwise_or C = parse_operator C prec_bitwise_or op_bw_or"

definition parse_bitwise_xor :: "ctx \<Rightarrow> unit pact" where
  "parse_bitwise_xor C = parse_operator C prec_bitwise_xor op_bw_xor"

definition parse_shift_left :: "ctx \<Rightarrow> unit pact" where
  "parse_shift_left C = parse_operator C prec_shift op_bw_sl"

definition parse_shift_right :: "ctx \<Rightarrow> unit pact" where
  "parse_shift_right C = parse_operator C prec_shift op_bw_sr"

definition parse_bitwise_not :: "ctx \<Rightarrow> unit pact" where
  "parse_bitwise_not C = parse_operator C prec_unary op_bw_not"

definition parse_dot :: "ctx \<Rightarrow> bool \<Rightarrow> unit pact" where
  "parse_dot C can_assign =
     act_then (parse_consume token_identifier ''Expected property name after ..'')
     (act_bind prev_token (\<lambda>name. act_bind (identifier_constant name) (\<lambda>i.
       act_if (if can_assign then parse_match token_assign else act_return False)
         (act_seq [parse_expression C, emit_bytes op_set_property (of_nat i)])
         (act_if (parse_match token_left_paren)
           (act_bind (parse_argument_list C) (\<lambda>n. act_seq [emit_bytes op_invoke (of_nat i), emit_byte n]))
           (emit_bytes op_get_property (of_nat i))))))"

definition parse_layer :: "ctx \<Rightarrow> unit pact" where
  "parse_layer C =
     act_then (parse_consume token_identifier ''Expected layer property name after ::.'')
     (act_bind prev_token (\<lambda>name. act_bind (identifier_constant name) (\<lambda>i.
       act_if (parse_match token_left_paren)
         (act_bind (parse_argument_list C) (\<lambda>n. act_seq
           [emit_bytes op_layer_property_call (of_nat i), emit_byte n]))
         (emit_bytes op_get_layer_property (of_nat i)))))"

definition compound_op :: "token_type \<Rightarrow> op_code option" where
  "compound_op type = map_of
     [(token_plus_assign, op_add), (token_minus_assign, op_subtract), (token_star_assign, op_multiply),
      (token_slash_assign, op_divide), (token_shl_assign, op_bw_sl), (token_shr_assign, op_bw_sr),
      (token_bit_and_assign, op_bw_and), (token_bit_or_assign, op_bw_or), (token_bit_xor_assign, op_bw_xor),
      (token_bit_not_assign, op_bw_not), (token_mod_assign, op_mod)] type"

definition parse_compound_assign :: "ctx \<Rightarrow> bool \<Rightarrow> unit pact" where
  "parse_compound_assign C can_assign =
     (if \<not> can_assign then parse_error_at_curr ''Invalid assignment target.''
      else act_bind pprev_token (\<lambda>name. act_bind prev_token (\<lambda>t. act_then (act_seq
        [precedence C prec_assign,
         case compound_op (tk_type t) of
           Some op \<Rightarrow> emit_op op
         | None \<Rightarrow> parse_error_at_curr ''Unsupported compound operator.''])
        (act_bind (resolve_variable name) (\<lambda>(_, set_op, index). emit_bytes set_op index)))))"

definition parse_ternary :: "ctx \<Rightarrow> unit pact" where
  "parse_ternary C = act_bind (emit_jump op_jump_if_false) (\<lambda>then_jump.
     act_then (act_seq [emit_op op_pop, precedence C prec_assign])
     (act_bind (emit_jump op_jump) (\<lambda>else_jump. act_seq
       [patch_jump then_jump,
        emit_op op_pop,
        parse_consume token_colon ''Expected : in ternary expression'',
        precedence C prec_assign,
        patch_jump else_jump])))"

definition parse_lambda_parameter :: "unit pact" where
  "parse_lambda_parameter =
     act_then (count_parameter (parse_error_at_curr ''Too many lambda parameters''))
     (act_bind (parse_variable ''Expected parameter name'') (\<lambda>i. act_seq
       [act_if (parse_match token_colon)
          (parse_consume token_identifier ''Expected type annotation'') (act_return ()),
        define_variable (of_nat i)]))"

definition parse_lambda :: "ctx \<Rightarrow> unit pact" where
  "parse_lambda C =
     act_then (act_seq
       [curr_into_sub_compiler type_lambda,
        begin_scope,
        act_if (act_not (parse_match token_pipe))
          (act_seq
            [act_do_while (cx_fuel C) parse_lambda_parameter (parse_match token_comma),
             parse_consume token_pipe ''Expected | after parameters''])
          (act_return ()),
        act_if (parse_match token_arrow)
          (parse_consume token_identifier ''Expected return type'') (act_return ()),
        act_if (parse_match token_left_brace) (parse_block_statement C) (parse_expression C)])
     (act_bind curr_from_sub_compiler emit_closure)"

primrec vector_loop :: "nat \<Rightarrow> ctx \<Rightarrow> nat \<Rightarrow> nat pact" where
  "vector_loop 0 C element_count = act_halt Diverge"
| "vector_loop (Suc n) C element_count =
     act_if (parse_check token_right_bracket) (act_return element_count)
       (act_then (parse_expression C)
         (act_if (parse_match token_comma) (vector_loop n C (element_count + 1))
           (act_return (element_count + 1))))"

definition parse_vector :: "ctx \<Rightarrow> unit pact" where
  "parse_vector C = act_bind (vector_loop (cx_fuel C) C 0) (\<lambda>element_count. act_seq
     [parse_consume token_right_bracket ''Expected ] after vector elements.'',
      emit_bytes op_vector_new (of_nat element_count)])"

definition parse_vector_index :: "ctx \<Rightarrow> bool \<Rightarrow> unit pact" where
  "parse_vector_index C can_assign = act_seq
     [parse_expression C,
      parse_consume token_right_bracket ''Expected ] after vector index.'',
      act_if (if can_assign then parse_match token_assign else act_return False)
        (act_seq [parse_expression C, emit_op op_vector_set])
        (emit_op op_vector_get)]"

definition parse_identifier :: "ctx \<Rightarrow> bool \<Rightarrow> unit pact" where
  "parse_identifier C can_assign = act_bind prev_token (\<lambda>t. parse_named_variable C t can_assign)"

definition parse_self :: "ctx \<Rightarrow> unit pact" where
  "parse_self C = act_bind (act_get pa_classes) (\<lambda>cs.
     if cs = [] then parse_error_at_curr ''Cant use self outside of a class.''
     else parse_identifier C False)"

definition parse_super :: "ctx \<Rightarrow> unit pact" where
  "parse_super C = act_bind (act_get pa_classes) (\<lambda>cs. case cs of
     [] \<Rightarrow> parse_error_at_curr ''Cant use super outside of a class.''
   | has_superclass # _ \<Rightarrow>
       if \<not> has_superclass then parse_error_at_curr ''Cant use super in a class with no superclass.''
       else act_then (act_seq
         [parse_consume token_dot ''Expected . after super.'',
          parse_consume token_identifier ''Expected superclass method name.''])
         (act_bind prev_token (\<lambda>name. act_bind (identifier_constant name) (\<lambda>i.
          act_then (parse_named_variable C (synthetic_token ''self'') False)
          (act_if (parse_match token_left_paren)
            (act_bind (parse_argument_list C) (\<lambda>n. act_seq
              [parse_named_variable C (synthetic_token ''super'') False,
               emit_bytes op_super_invoke (of_nat i),
               emit_byte n]))
            (act_seq
              [parse_named_variable C (synthetic_token ''super'') False,
               emit_bytes op_get_super (of_nat i)]))))))"

primrec parse_rule_fn :: "parse_fn \<Rightarrow> ctx \<Rightarrow> bool \<Rightarrow> unit pact" where
  "parse_rule_fn P_grouping C b = parse_grouping C"
| "parse_rule_fn P_call C b = parse_call C"
| "parse_rule_fn P_dot C b = parse_dot C b"
| "parse_rule_fn P_layer C b = parse_layer C"
| "parse_rule_fn P_i32 C b = parse_i32"
| "parse_rule_fn P_i64 C b = parse_i64"
| "parse_rule_fn P_f32 C b = parse_f32 C"
| "parse_rule_fn P_f64 C b = parse_f64 C"
| "parse_rule_fn P_unary C b = parse_unary C"
| "parse_rule_fn P_binary C b = parse_binary C"
| "parse_rule_fn P_literal C b = parse_literal"
| "parse_rule_fn P_string C b = parse_string"
| "parse_rule_fn P_identifier C b = parse_identifier C b"
| "parse_rule_fn P_and C b = parse_and C"
| "parse_rule_fn P_or C b = parse_or C"
| "parse_rule_fn P_self C b = parse_self C"
| "parse_rule_fn P_super C b = parse_super C"
| "parse_rule_fn P_vector C b = parse_vector C"
| "parse_rule_fn P_vector_index C b = parse_vector_index C b"
| "parse_rule_fn P_bitwise_and C b = parse_bitwise_and C"
| "parse_rule_fn P_bitwise_or C b = parse_bitwise_or C"
| "parse_rule_fn P_bitwise_xor C b = parse_bitwise_xor C"
| "parse_rule_fn P_shift_left C b = parse_shift_left C"
| "parse_rule_fn P_shift_right C b = parse_shift_right C"
| "parse_rule_fn P_bitwise_not C b = parse_bitwise_not C"
| "parse_rule_fn P_compound_assign C b = parse_compound_assign C b"
| "parse_rule_fn P_ternary C b = parse_ternary C"
| "parse_rule_fn P_lambda C b = parse_lambda C"

text \<open>
  The loop over the infix operators. It gives False when the function returns from inside it. A
  token with a level but no infix function (\<open>!\<close> and \<open>~\<close>) is a call through a null pointer.
\<close>

primrec infix_loop :: "nat \<Rightarrow> ctx \<Rightarrow> nat \<Rightarrow> bool \<Rightarrow> bool pact" where
  "infix_loop 0 C outer can_assign = act_halt Diverge"
| "infix_loop (Suc n) C outer can_assign = act_bind curr_token (\<lambda>t.
     if outer \<le> prec_level (pr_level (get_rule (tk_type t))) then
       act_bind parse_advance (\<lambda>r. case r of
         None \<Rightarrow> act_then (parse_error_at_prev ''Expected expression, Found end of file.'') (act_return False)
       | Some t \<Rightarrow> (case pr_infix (get_rule (tk_type t)) of
           None \<Rightarrow> act_halt (Undefined ''call of a null function'')
         | Some f \<Rightarrow> act_then (parse_rule_fn f C can_assign) (infix_loop n C outer can_assign)))
     else act_return True)"

definition parse_precedence :: "ctx \<Rightarrow> nat \<Rightarrow> unit pact" where
  "parse_precedence C outer = act_bind parse_advance (\<lambda>r. case r of
     None \<Rightarrow> parse_error_at_prev ''Expected expression, Found end of file.''
   | Some t \<Rightarrow> (case pr_prefix (get_rule (tk_type t)) of
       None \<Rightarrow> parse_error_at_prev ''Expected prefix rule for this token, Found NULL.''
     | Some f \<Rightarrow>
         let can_assign = outer \<le> prec_level prec_assign in
         act_then (parse_rule_fn f C can_assign)
         (act_if parse_is_at_end (act_return ())
           (act_if (infix_loop (cx_fuel C) C outer can_assign)
             (act_if (if can_assign then parse_match token_assign else act_return False)
               (parse_error_at_curr ''Expected expression, Found assignment operator.'')
               (act_return ()))
             (act_return ())))))"

end
