(* ===== verification/Joker_Grammar.thy ===== *)
theory Joker_Grammar
  imports Joker_Parser
begin

text \<open>
  Statements and declarations (src/parser.c), the knot over fuel, and \<open>compile\<close> (src/compiler.c).
  The \<open>print\<close> statement is compiled out by \<open>deprecated_print_keyword\<close>.
\<close>

subsection \<open>Statements\<close>

definition parse_expr_statement :: "ctx \<Rightarrow> unit pact" where
  "parse_expr_statement C = act_seq
     [parse_expression C, act_ignore (parse_match token_semicolon), emit_op op_pop]"

text \<open>Only the first \<open>break\<close> of a loop emits a jump.\<close>

definition parse_break_statement :: "unit pact" where
  "parse_break_statement =
     act_then (parse_consume token_semicolon ''Expected ; after break.'')
     (act_bind this_compiler (\<lambda>c. case co_loops c of
       [] \<Rightarrow> parse_error_at_curr ''Break statement must be inside a loop.''
     | l # ls \<Rightarrow>
         if lp_end l = None then act_bind (emit_jump op_break) (\<lambda>i.
           modify_compiler (\<lambda>c. c\<lparr>co_loops := l\<lparr>lp_end := Some i\<rparr> # ls\<rparr>))
         else act_return ()))"

definition parse_continue_statement :: "unit pact" where
  "parse_continue_statement =
     act_then (parse_consume token_semicolon ''Expected ; after continue.'')
     (act_bind this_compiler (\<lambda>c. case co_loops c of
       [] \<Rightarrow> parse_error_at_curr ''Continue statement must be inside a loop.''
     | l # _ \<Rightarrow> emit_continue (lp_start l)))"

definition parse_return_statement :: "ctx \<Rightarrow> unit pact" where
  "parse_return_statement C = act_bind this_compiler (\<lambda>c.
     if co_fn_type c = type_script
     then parse_error_at_curr ''Expected return in function, Found return in top-level code.''
     else act_seq
       [act_if (act_not (parse_match token_semicolon))
          (act_seq [parse_expression C, parse_consume token_semicolon ''Expected ; after return value.''])
          (if co_fn_type c = type_initializer
           then parse_error_at_curr ''Cannot return a value from an initializer.''
           else act_return ()),
        emit_return])"

text \<open>The end of a loop: \<open>vm->compiler->loop\<close> may be another loop, or null, after a \<open>for\<close>.\<close>

definition finish_loop :: "unit pact" where
  "finish_loop = act_bind curr_loop (\<lambda>l. act_seq
     [if lp_end l \<noteq> None then emit_break else act_return (), end_loop])"

definition parse_for_condition :: "ctx \<Rightarrow> nat option pact" where
  "parse_for_condition C =
     act_if (act_not (parse_match token_semicolon))
       (act_then (act_seq
         [parse_expression C, parse_consume token_semicolon ''Expected ; after loop condition.''])
         (act_bind (emit_jump op_jump_if_false) (\<lambda>exit_jump.
          act_then (emit_op op_pop) (act_return (Some exit_jump)))))
       (act_return None)"

definition parse_for_increment :: "ctx \<Rightarrow> nat \<Rightarrow> nat pact" where
  "parse_for_increment C loop_start =
     act_if (act_not (parse_match token_right_paren))
       (act_bind (emit_jump op_jump) (\<lambda>body_jump. act_bind code_count (\<lambda>increment_start.
        act_then (act_seq
          [parse_expression C,
           emit_op op_pop,
           parse_consume token_right_paren ''Expected ) after for clauses.'',
           emit_loop loop_start,
           begin_loop increment_start,
           patch_jump body_jump])
          (act_return increment_start))))
       (act_return loop_start)"

definition parse_for_statement :: "ctx \<Rightarrow> unit pact" where
  "parse_for_statement C =
     act_then (act_seq
       [begin_scope,
        parse_consume token_left_paren ''Expected ( after for.'',
        act_if (parse_match token_semicolon) (act_return ())
          (act_if (parse_match token_var) (parse_var_declaration C) (parse_expr_statement C))])
     (act_bind code_count (\<lambda>loop_start.
      act_bind (parse_for_condition C) (\<lambda>exit_jump.
      act_bind (parse_for_increment C loop_start) (\<lambda>loop_start. act_seq
        [cx_rec C N_statement,
         emit_loop loop_start,
         case exit_jump of None \<Rightarrow> act_return () | Some i \<Rightarrow> act_seq [patch_jump i, emit_op op_pop],
         finish_loop,
         end_scope]))))"

text \<open>\<open>(\<close> expression \<open>)\<close> or an expression alone, before a body.\<close>

definition parse_condition :: "ctx \<Rightarrow> string \<Rightarrow> unit pact" where
  "parse_condition C message =
     act_if (parse_match token_left_paren)
       (act_seq [parse_expression C, parse_consume token_right_paren message])
       (parse_expression C)"

definition parse_while_statement :: "ctx \<Rightarrow> unit pact" where
  "parse_while_statement C = act_bind code_count (\<lambda>loop_start.
     act_then (act_seq [parse_condition C ''Expected ) after condition.'', begin_loop loop_start])
     (act_bind (emit_jump op_jump_if_false) (\<lambda>exit_jump. act_seq
       [emit_op op_pop,
        cx_rec C N_statement,
        emit_loop loop_start,
        patch_jump exit_jump,
        emit_op op_pop,
        finish_loop])))"

definition parse_loop_statement :: "ctx \<Rightarrow> unit pact" where
  "parse_loop_statement C = act_bind code_count (\<lambda>loop_start. act_seq
     [begin_loop loop_start, cx_rec C N_statement, emit_loop loop_start, finish_loop])"

definition parse_if_statement :: "ctx \<Rightarrow> unit pact" where
  "parse_if_statement C =
     act_then (parse_condition C ''Expected ) after condition.'')
     (act_bind (emit_jump op_jump_if_false) (\<lambda>then_jump.
      act_then (act_seq [emit_op op_pop, cx_rec C N_statement])
      (act_bind (emit_jump op_jump) (\<lambda>else_jump. act_seq
        [patch_jump then_jump,
         emit_op op_pop,
         act_if (parse_match token_else) (cx_rec C N_statement) (act_return ()),
         patch_jump else_jump]))))"

subsection \<open>Match\<close>

text \<open>What follows the arrow of a case.\<close>

definition parse_arm :: "ctx \<Rightarrow> unit pact" where
  "parse_arm C =
     act_if (parse_match token_return) (parse_return_statement C)
    (act_if (parse_match token_match) (cx_rec C N_match_statement)
    (act_if (parse_match token_loop) (parse_loop_statement C)
    (act_if (parse_match token_left_brace) (parse_block_statement C)
      (parse_expr_statement C))))"

text \<open>\<open>identifier :: identifier\<close> ahead.\<close>

fun is_enum_pattern :: "token list \<Rightarrow> bool outcome" where
  "is_enum_pattern [] = Inl (Undefined ''null token'')"
| "is_enum_pattern [t] =
     (if tk_type t = token_identifier then Inl (Undefined ''null token'') else Inr False)"
| "is_enum_pattern [t, u] =
     (if tk_type t = token_identifier \<and> tk_type u = token_layer then Inl (Undefined ''null token'')
      else Inr False)"
| "is_enum_pattern (t # u # v # ts) =
     Inr (tk_type t = token_identifier \<and> tk_type u = token_layer \<and> tk_type v = token_identifier)"

fun count_binds :: "token list \<Rightarrow> nat outcome" where
  "count_binds [] = Inl (Undefined ''null token'')"
| "count_binds [t] = (if tk_type t = token_identifier then Inl (Undefined ''null token'') else Inr 0)"
| "count_binds (t # u # ts) =
     (if tk_type t = token_identifier then
        andThen (if tk_type u = token_comma then count_binds ts else count_binds (u # ts)) (\<lambda>n. Inr (Suc n))
      else Inr 0)"

primrec bind_loop :: "nat \<Rightarrow> int list \<Rightarrow> int list pact" where
  "bind_loop 0 pattern_index = act_halt Diverge"
| "bind_loop (Suc n) pattern_index =
     act_if (parse_match token_identifier)
       (act_bind prev_token (\<lambda>name. act_bind (identifier_constant name) (\<lambda>param_index.
        act_then (act_seq [declare_variable name, define_variable (of_nat param_index)])
        (act_bind (resolve_here name) (\<lambda>r.
         act_then (act_if (parse_check token_comma) (act_ignore parse_advance) (act_return ()))
          (bind_loop n (pattern_index @ [case r of None \<Rightarrow> -1 | Some i \<Rightarrow> int i])))))))
       (act_return pattern_index)"

definition parse_binds :: "ctx \<Rightarrow> unit pact" where
  "parse_binds C =
     act_bind (act_with (\<lambda>p. count_binds (pa_curr p))) (\<lambda>bind_count.
     act_bind (bind_loop (cx_fuel C) []) (\<lambda>pattern_index.
       if length pattern_index \<noteq> bind_count then act_halt (Undefined ''pattern_index'')
       else act_seq
         [emit_bytes op_enum_member_bind (of_nat bind_count),
          act_seq (map (\<lambda>i. emit_byte (word_of_int i)) pattern_index),
          parse_consume token_right_paren ''Expected ) after match pattern arguments.'']))"

text \<open>The pattern of a case, to the jump taken when it does not match.\<close>

definition parse_pattern :: "ctx \<Rightarrow> nat pact" where
  "parse_pattern C =
     act_if (act_with (\<lambda>p. is_enum_pattern (pa_curr p)))
       (act_then (act_ignore parse_advance)
       (act_bind prev_token (\<lambda>enum.
        act_then (act_seq
          [parse_named_variable C enum False, act_ignore parse_advance, act_ignore parse_advance])
        (act_bind prev_token (\<lambda>name. act_bind (identifier_constant name) (\<lambda>i.
         act_then (emit_bytes op_enum_get_member (of_nat i))
         (act_bind (emit_jump op_enum_member_match) (\<lambda>jump.
          act_then (act_if (parse_match token_left_paren) (parse_binds C) (act_return ()))
            (act_return jump)))))))))
       (act_then (parse_expression C) (emit_jump op_jump_if_neq))"

text \<open>The result is the jump from the end of the case to the end of the match.\<close>

definition parse_match_member :: "ctx \<Rightarrow> nat pact" where
  "parse_match_member C =
     act_then begin_scope
     (act_bind (parse_pattern C) (\<lambda>jump_if_not_matched.
      act_then (act_seq
        [parse_consume token_fat_arrow ''Expected => after match pattern.'', parse_arm C])
      (act_bind (emit_jump op_jump) (\<lambda>end_jump.
       act_then (act_seq [patch_jump jump_if_not_matched, end_scope]) (act_return end_jump)))))"

definition parse_default :: "ctx \<Rightarrow> nat pact" where
  "parse_default C =
     act_then (act_seq
       [begin_scope, parse_consume token_fat_arrow ''Expected => after _.'', parse_arm C])
     (act_bind (emit_jump op_jump) (\<lambda>end_jump.
      act_then (act_seq [end_scope, act_ignore (parse_match token_comma)]) (act_return end_jump)))"

text \<open>The cases, to the jumps to the end and whether there is a default, which is the last.\<close>

primrec match_loop :: "nat \<Rightarrow> ctx \<Rightarrow> nat list \<Rightarrow> (nat list \<times> bool) pact" where
  "match_loop 0 C stack = act_halt Diverge"
| "match_loop (Suc n) C stack =
     act_if (check_neither token_right_brace token_eof)
       (act_if (parse_match token_underscore)
         (act_bind (parse_default C) (\<lambda>j. act_return (stack @ [j], True)))
         (act_bind (parse_match_member C) (\<lambda>j.
          act_then (act_seq [act_ignore (parse_match token_comma), act_ignore (parse_match token_comma)])
          (if uint8_count \<le> length (stack @ [j]) then act_halt (Panic ''parser::parse_match_statement'')
           else match_loop n C (stack @ [j])))))
       (act_return (stack, False))"

definition parse_match_statement :: "ctx \<Rightarrow> unit pact" where
  "parse_match_statement C =
     act_then (act_seq [begin_scope, parse_condition C ''Expected ) after match expression.''])
     (act_bind (emit_jump op_match) (\<lambda>start.
      act_then (parse_consume token_left_brace ''Expected { after match expression.'')
      (act_bind (match_loop (cx_fuel C) C []) (\<lambda>(stack, has_default).
       act_bind (if has_default then act_return start
                 else act_bind (emit_jump op_jump) (\<lambda>end_jump.
                   act_then (patch_jump start) (act_return end_jump))) (\<lambda>start. act_seq
        [patch_jump start,
         act_seq (map patch_jump stack),
         emit_op op_pop,
         parse_consume token_right_brace ''Expected } after match cases.'',
         end_scope])))))"

definition parse_statement :: "ctx \<Rightarrow> unit pact" where
  "parse_statement C =
     act_if (parse_match token_for) (parse_for_statement C)
    (act_if (parse_match token_if) (parse_if_statement C)
    (act_if (parse_match token_return) (parse_return_statement C)
    (act_if (parse_match token_break) parse_break_statement
    (act_if (parse_match token_continue) parse_continue_statement
    (act_if (parse_match token_match) (cx_rec C N_match_statement)
    (act_if (parse_match token_while) (parse_while_statement C)
    (act_if (parse_match token_loop) (parse_loop_statement C)
    (act_if (parse_match token_left_brace) (act_seq [begin_scope, parse_block_statement C, end_scope])
      (parse_expr_statement C)))))))))"

subsection \<open>Declarations\<close>

text \<open>The name of an enum, struct or class: declared, made by the instruction, and defined.\<close>

definition declare_type :: "op_code \<Rightarrow> string \<Rightarrow> token pact" where
  "declare_type op message =
     act_then (parse_consume token_identifier message)
     (act_bind prev_token (\<lambda>name. act_bind (identifier_constant name) (\<lambda>i.
      act_then (act_seq
        [declare_variable name, emit_bytes op (of_nat i), define_variable (of_nat i)])
        (act_return name))))"

text \<open>The payload of an enum member, to the number of its names.\<close>

primrec payload_loop :: "nat \<Rightarrow> ctx \<Rightarrow> nat \<Rightarrow> nat pact" where
  "payload_loop 0 C arg_count = act_halt Diverge"
| "payload_loop (Suc n) C arg_count =
     act_if (act_not (parse_match token_right_paren))
       (act_bind curr_token (\<lambda>t.
          if tk_type t = token_identifier then
            act_then (act_ignore parse_advance) (act_bind prev_token (\<lambda>name.
            act_then (act_seq
              [parse_named_variable C name False,
               act_if (act_not (parse_check token_right_paren))
                 (parse_consume token_comma ''Expected , after member value.'') (act_return ())])
              (payload_loop n C (arg_count + 1))))
          else act_halt (Panic ''Parser::parse_enum_member'')))
       (act_return arg_count)"

definition separate_members :: "unit pact" where
  "separate_members =
     act_if (act_not (parse_check token_right_brace))
       (parse_consume token_comma ''Expected , after member declaration.'') (act_return ())"

definition parse_enum_member :: "ctx \<Rightarrow> unit pact" where
  "parse_enum_member C =
     act_then (parse_consume token_identifier ''Expected member name.'')
     (act_bind prev_token (\<lambda>name. act_bind (identifier_constant name) (\<lambda>i. act_seq
       [act_if (parse_match token_left_paren)
          (act_bind (payload_loop (cx_fuel C) C 0) (\<lambda>n.
            if n < 1 then act_halt (Panic ''Parser::parse_enum_member'')
            else emit_bytes op_value (of_nat n)))
          (emit_bytes op_value 0),
        emit_bytes op_enum_define_member (of_nat i),
        separate_members])))"

definition parse_enum_declaration :: "ctx \<Rightarrow> unit pact" where
  "parse_enum_declaration C =
     act_bind (declare_type op_enum ''Expected enum name.'') (\<lambda>name. act_seq
       [parse_named_variable C name False,
        parse_consume token_left_brace ''Expected { after enum name.'',
        act_while (cx_fuel C) (act_not (parse_check token_right_brace)) (parse_enum_member C),
        parse_consume token_right_brace ''Expected } after enum members.'',
        emit_op op_pop])"

definition parse_member :: "ctx \<Rightarrow> unit pact" where
  "parse_member C =
     act_then (parse_consume token_identifier ''Expected method name.'')
     (act_bind prev_token (\<lambda>name. act_bind (identifier_constant name) (\<lambda>i. act_seq
       [act_if (parse_match token_colon)
          (act_while (cx_fuel C) (check_neither token_right_brace token_comma) (act_ignore parse_advance))
          (act_return ()),
        emit_op op_none,
        emit_bytes op_member (of_nat i),
        separate_members])))"

definition parse_super_struct :: "ctx \<Rightarrow> token \<Rightarrow> unit pact" where
  "parse_super_struct C struct_name =
     act_then (parse_consume token_identifier ''Expected super struct name.'')
     (act_bind prev_token (\<lambda>super. act_then (parse_named_variable C super False)
     (act_bind prev_token (\<lambda>prev. act_seq
       [if identifiers_equal prev struct_name
        then parse_error_at_curr ''A struct cannot inherit from itself.'' else act_return (),
        parse_named_variable C struct_name False,
        emit_op op_struct_inherit]))))"

definition parse_struct_declaration :: "ctx \<Rightarrow> unit pact" where
  "parse_struct_declaration C =
     act_bind (declare_type op_struct ''Expected struct name.'') (\<lambda>name. act_seq
       [act_if (parse_match token_colon) (parse_super_struct C name) (act_return ()),
        parse_named_variable C name False,
        parse_consume token_left_brace ''Expected { before struct body.'',
        act_while (cx_fuel C) (check_neither token_right_brace token_eof) (parse_member C),
        parse_consume token_right_brace ''Expected } after struct body.'',
        emit_op op_pop])"

definition parse_method :: "ctx \<Rightarrow> unit pact" where
  "parse_method C =
     act_then (parse_consume token_identifier ''Expected method name.'')
     (act_bind prev_token (\<lambda>name. act_bind (identifier_constant name) (\<lambda>i. act_seq
       [parse_function C (if tk_lexeme name = ''init'' then type_initializer else type_method),
        emit_bytes op_method (of_nat i)])))"

definition parse_class_member :: "ctx \<Rightarrow> unit pact" where
  "parse_class_member C =
     act_if (parse_match token_class) (cx_rec C N_class_declaration)
    (act_if (parse_match token_struct) (parse_struct_declaration C)
    (act_if (parse_match token_fn) (parse_method C)
      (parse_error_at_curr ''Expected method or member.'')))"

text \<open>The superclass is a local named \<open>super\<close> of a scope around the methods.\<close>

definition parse_superclass :: "ctx \<Rightarrow> token \<Rightarrow> unit pact" where
  "parse_superclass C class_name =
     act_then (parse_consume token_identifier ''Expected superclass name.'')
     (act_bind prev_token (\<lambda>super. act_then (parse_named_variable C super False)
     (act_bind prev_token (\<lambda>prev. act_seq
       [if identifiers_equal class_name prev
        then parse_error_at_curr ''A class cannot inherit from itself.'' else act_return (),
        compile_begin_scope,
        add_local (synthetic_token ''super''),
        define_variable 0,
        parse_named_variable C class_name False,
        emit_op op_inherit,
        set_curr_class_superclass True]))))"

text \<open>\<open>class_compiler.has_superclass\<close> of the class being left.\<close>

definition leave_class :: "unit pact" where
  "leave_class = act_bind (act_get pa_classes) (\<lambda>cs. case cs of
     [] \<Rightarrow> act_halt (Undefined ''null class compiler'')
   | has_superclass # _ \<Rightarrow> act_seq
       [if has_superclass then compile_end_scope else act_return (), out_curr_class_compiler])"

definition parse_class_declaration :: "ctx \<Rightarrow> unit pact" where
  "parse_class_declaration C =
     act_bind (declare_type op_class ''Expected class name.'') (\<lambda>name. act_seq
       [into_curr_class_compiler,
        act_if (parse_match token_colon) (parse_superclass C name) (act_return ()),
        parse_named_variable C name False,
        parse_consume token_left_brace ''Expected { before class body.'',
        act_while (cx_fuel C) (check_neither token_right_brace token_eof) (parse_class_member C),
        parse_consume token_right_brace ''Expected } after class body.'',
        emit_op op_pop,
        leave_class])"

definition parse_declaration :: "ctx \<Rightarrow> unit pact" where
  "parse_declaration C = act_seq
     [act_if (parse_match token_class) (cx_rec C N_class_declaration)
     (act_if (parse_match token_struct) (parse_struct_declaration C)
     (act_if (parse_match token_enum) (parse_enum_declaration C)
     (act_if (parse_match token_fn) (parse_fn_declaration C)
     (act_if (parse_match token_var) (parse_var_declaration C)
       (cx_rec C N_statement))))),
      act_if (act_get pa_panic_mode) synchronize (act_return ())]"

subsection \<open>The knot\<close>

primrec parse_nonterm :: "nonterm \<Rightarrow> ctx \<Rightarrow> unit pact" where
  "parse_nonterm N_declaration C = parse_declaration C"
| "parse_nonterm N_class_declaration C = parse_class_declaration C"
| "parse_nonterm N_statement C = parse_statement C"
| "parse_nonterm N_match_statement C = parse_match_statement C"
| "parse_nonterm (N_precedence n) C = parse_precedence C n"

primrec parse_fuel :: "nat \<Rightarrow> libc \<Rightarrow> nonterm \<Rightarrow> unit pact" where
  "parse_fuel 0 L t = act_halt Diverge"
| "parse_fuel (Suc n) L t = parse_nonterm t \<lparr>cx_libc = L, cx_fuel = n, cx_rec = parse_fuel n L\<rparr>"

definition parse_tokens :: "nat \<Rightarrow> libc \<Rightarrow> compiler pact" where
  "parse_tokens fuel L =
     act_then (act_seq
       [act_while fuel (act_not parse_is_at_end) (parse_fuel fuel L N_declaration),
        parse_consume token_eof ''Expected end of expression.''])
     curr_from_sub_compiler"

definition compile_tokens :: "nat \<Rightarrow> libc \<Rightarrow> compiler pact" where
  "compile_tokens fuel L =
     act_bind (init_compiler type_script) (\<lambda>c. act_then (push_compiler c) (parse_tokens fuel L))"

text \<open>
  \<open>compile\<close>, from the heap of the machine: the address of the function, or none after an error, the
  heap it leaves, and the errors it printed. \<open>had_error\<close> is read after \<open>free_parser\<close>.
\<close>

definition compile ::
    "nat \<Rightarrow> libc \<Rightarrow> heap \<Rightarrow> string \<Rightarrow> (nat option \<times> heap \<times> (token \<times> string) list) outcome" where
  "compile fuel L h source =
     andThen (scan source) (\<lambda>toks.
     andThen (compile_tokens fuel L (init_parser h toks)) (\<lambda>(c, p).
       let p = free_parser p in
       Inr (if pa_had_error p then None else Some (co_fn_at c), pa_heap p, pa_errors p)))"

end
