(* ===== verification/Joker_Triples.thy ===== *)
theory Joker_Triples
  imports Joker_Prelude
begin

text \<open>
  Total-correctness triples for the functions over a state. \<open>triple H P m Q\<close>: from a state with \<open>P\<close>,
  \<open>m\<close> comes back with a result and a state in \<open>Q\<close>, or it fails in one of the ways of \<open>H\<close>.
  \<open>sound H P m\<close> is the case where \<open>P\<close> holds again. Unlike \<open>keeps\<close>, both say how \<open>m\<close> can fail.
\<close>

definition triple :: "halt set \<Rightarrow> ('s \<Rightarrow> bool) \<Rightarrow> ('s, 'a) action \<Rightarrow> ('a \<Rightarrow> 's \<Rightarrow> bool) \<Rightarrow> bool" where
  "triple H P m Q \<longleftrightarrow> (\<forall>s. P s \<longrightarrow> (case m s of Inl h \<Rightarrow> h \<in> H | Inr (x, s') \<Rightarrow> Q x s'))"

definition sound :: "halt set \<Rightarrow> ('s \<Rightarrow> bool) \<Rightarrow> ('s, 'a) action \<Rightarrow> bool" where
  "sound H P m \<longleftrightarrow> triple H P m (\<lambda>_. P)"

lemma tripleI:
  assumes "\<And>s h. P s \<Longrightarrow> m s = Inl h \<Longrightarrow> h \<in> H" and "\<And>s x s'. P s \<Longrightarrow> m s = Inr (x, s') \<Longrightarrow> Q x s'"
  shows "triple H P m Q"
  using assms by (auto simp: triple_def split: sum.splits)

lemma triple_Inl: "triple H P m Q \<Longrightarrow> P s \<Longrightarrow> m s = Inl h \<Longrightarrow> h \<in> H"
  by (auto simp: triple_def split: sum.splits)

lemma triple_Inr: "triple H P m Q \<Longrightarrow> P s \<Longrightarrow> m s = Inr (x, s') \<Longrightarrow> Q x s'"
  by (auto simp: triple_def split: sum.splits)

lemma triple_outcome:
  "triple H P m Q \<Longrightarrow> P s \<Longrightarrow> case m s of Inl h \<Rightarrow> h \<in> H | Inr (x, s') \<Rightarrow> Q x s'"
  by (simp add: triple_def)

lemma triple_conseq:
  assumes "triple H P m Q" and "\<And>s. P' s \<Longrightarrow> P s" and "\<And>x s. Q x s \<Longrightarrow> Q' x s"
  shows "triple H P' m Q'"
  using assms by (fastforce simp: triple_def split: sum.splits)

lemma triple_pre: "triple H P m Q \<Longrightarrow> (\<And>s. P' s \<Longrightarrow> P s) \<Longrightarrow> triple H P' m Q"
  by (rule triple_conseq)

lemma triple_bind:
  assumes "triple H P m R" and "\<And>x. triple H (R x) (f x) Q"
  shows "triple H P (act_bind m f) Q"
  unfolding triple_def
proof (intro allI impI)
  fix s
  assume "P s"
  with assms(1) have "case m s of Inl h \<Rightarrow> h \<in> H | Inr (x, s') \<Rightarrow> R x s'" by (simp add: triple_def)
  then show "case act_bind m f s of Inl h \<Rightarrow> h \<in> H | Inr (x, s') \<Rightarrow> Q x s'"
    using assms(2) by (cases "m s") (auto simp: act_bind_def triple_def)
qed

lemma triple_then: "triple H P m (\<lambda>_. R) \<Longrightarrow> triple H R f Q \<Longrightarrow> triple H P (act_then m f) Q"
  by (simp add: act_then_def triple_bind)

lemma triple_return: "(\<And>s. P s \<Longrightarrow> Q x s) \<Longrightarrow> triple H P (act_return x) Q"
  by (simp add: triple_def act_return_def)

lemma triple_seq_Nil: "(\<And>s. P s \<Longrightarrow> Q () s) \<Longrightarrow> triple H P (act_seq []) Q"
  by (simp add: triple_return)

lemma triple_seq_Cons: "triple H P m (\<lambda>_. R) \<Longrightarrow> triple H R (act_seq ms) Q \<Longrightarrow> triple H P (act_seq (m # ms)) Q"
  by (simp add: triple_then)

lemma triple_if: "(b \<Longrightarrow> triple H P m Q) \<Longrightarrow> (\<not> b \<Longrightarrow> triple H P n Q) \<Longrightarrow> triple H P (if b then m else n) Q"
  by simp

lemma triple_act_if:
  "triple H P c R \<Longrightarrow> triple H (R True) m Q \<Longrightarrow> triple H (R False) n Q \<Longrightarrow> triple H P (act_if c m n) Q"
  unfolding act_if_def by (rule triple_bind) (auto intro: triple_if)

lemma triple_halt: "h \<in> H \<Longrightarrow> triple H P (act_halt h) Q"
  by (simp add: triple_def act_halt_def)

lemma triple_sound: "sound H P m \<Longrightarrow> triple H P m (\<lambda>_. P)"
  by (simp add: sound_def)

lemma sound_triple: "triple H P m (\<lambda>_. P) \<Longrightarrow> sound H P m"
  by (simp add: sound_def)

text \<open>Sequencing where the first part keeps the state's property.\<close>

lemma triple_bind_sound: "sound H P m \<Longrightarrow> (\<And>x. triple H P (f x) Q) \<Longrightarrow> triple H P (act_bind m f) Q"
  by (rule triple_bind [OF triple_sound])

lemma triple_then_sound: "sound H P m \<Longrightarrow> triple H P f Q \<Longrightarrow> triple H P (act_then m f) Q"
  by (rule triple_then [OF triple_sound])

lemma triple_seq_sound: "sound H P m \<Longrightarrow> triple H P (act_seq ms) Q \<Longrightarrow> triple H P (act_seq (m # ms)) Q"
  by (rule triple_seq_Cons [OF triple_sound])

lemmas triple_steps = triple_bind_sound triple_then_sound triple_seq_sound

lemma sound_bind: "sound H P m \<Longrightarrow> (\<And>x. sound H P (f x)) \<Longrightarrow> sound H P (act_bind m f)"
  unfolding sound_def by (rule triple_bind)

lemma sound_then: "sound H P m \<Longrightarrow> sound H P f \<Longrightarrow> sound H P (act_then m f)"
  unfolding sound_def by (rule triple_then)

lemma sound_return: "sound H P (act_return x)"
  unfolding sound_def by (rule triple_return)

lemma sound_get: "sound H P (act_get f)"
  by (simp add: sound_def triple_def act_get_def)

lemma sound_update: "(\<And>s. P s \<Longrightarrow> P (f s)) \<Longrightarrow> sound H P (act_update f)"
  by (simp add: sound_def triple_def act_update_def)

lemma sound_halt: "h \<in> H \<Longrightarrow> sound H P (act_halt h)"
  unfolding sound_def by (rule triple_halt)

lemma sound_with: "(\<And>s h. P s \<Longrightarrow> f s = Inl h \<Longrightarrow> h \<in> H) \<Longrightarrow> sound H P (act_with f)"
  by (auto simp: sound_def triple_def act_with_def andThen_def split: sum.splits)

lemma sound_lift: "(\<And>h. m = Inl h \<Longrightarrow> h \<in> H) \<Longrightarrow> sound H P (act_lift m)"
  by (auto simp: sound_def triple_def act_lift_def andThen_def split: sum.splits)

lemma sound_if: "(b \<Longrightarrow> sound H P m) \<Longrightarrow> (\<not> b \<Longrightarrow> sound H P n) \<Longrightarrow> sound H P (if b then m else n)"
  by simp

lemma sound_option:
  "sound H P n \<Longrightarrow> (\<And>x. sound H P (f x)) \<Longrightarrow> sound H P (case opt of None \<Rightarrow> n | Some x \<Rightarrow> f x)"
  by (cases opt) simp_all

lemma sound_list:
  "sound H P n \<Longrightarrow> (\<And>x xs. sound H P (f x xs)) \<Longrightarrow> sound H P (case l of [] \<Rightarrow> n | x # xs \<Rightarrow> f x xs)"
  by (cases l) simp_all

lemma sound_prod: "(\<And>x y. sound H P (f x y)) \<Longrightarrow> sound H P (case p of (x, y) \<Rightarrow> f x y)"
  by (cases p) simp

lemma sound_Let: "(\<And>x. sound H P (f x)) \<Longrightarrow> sound H P (Let x f)"
  by (simp add: Let_def)

lemma sound_seq_Nil: "sound H P (act_seq [])"
  by (simp add: sound_return)

lemma sound_seq_Cons: "sound H P m \<Longrightarrow> sound H P (act_seq ms) \<Longrightarrow> sound H P (act_seq (m # ms))"
  by (simp add: sound_then)

lemma sound_seq_map: "(\<And>x. x \<in> set xs \<Longrightarrow> sound H P (f x)) \<Longrightarrow> sound H P (act_seq (map f xs))"
  by (induction xs) (simp_all add: sound_return sound_then)

lemma sound_act_if: "sound H P c \<Longrightarrow> sound H P m \<Longrightarrow> sound H P n \<Longrightarrow> sound H P (act_if c m n)"
  unfolding act_if_def by (intro sound_bind sound_if)

lemma sound_act_not: "sound H P c \<Longrightarrow> sound H P (act_not c)"
  unfolding act_not_def by (intro sound_bind sound_return)

lemma sound_act_ignore: "sound H P m \<Longrightarrow> sound H P (act_ignore m)"
  unfolding act_ignore_def by (intro sound_bind sound_return)

lemma sound_act_while: "Diverge \<in> H \<Longrightarrow> sound H P c \<Longrightarrow> sound H P m \<Longrightarrow> sound H P (act_while n c m)"
  by (induction n) (simp_all add: sound_halt sound_act_if sound_then sound_return)

lemma sound_act_do_while: "Diverge \<in> H \<Longrightarrow> sound H P c \<Longrightarrow> sound H P m \<Longrightarrow> sound H P (act_do_while n m c)"
  unfolding act_do_while_def by (intro sound_then sound_act_while)

text \<open>Reading the state, with what is known of it.\<close>

lemma triple_state: "(\<And>s. P s \<Longrightarrow> triple H (\<lambda>s'. s' = s) m Q) \<Longrightarrow> triple H P m Q"
  by (simp add: triple_def)

lemma triple_bind_get:
  "(\<And>s. P s \<Longrightarrow> triple H (\<lambda>s'. s' = s) (f (g s)) Q) \<Longrightarrow> triple H P (act_bind (act_get g) f) Q"
  by (auto simp: triple_def act_bind_def act_get_def)

lemma sound_bind_get: "(\<And>s. P s \<Longrightarrow> sound H P (f (g s))) \<Longrightarrow> sound H P (act_bind (act_get g) f)"
  by (auto simp: sound_def triple_def act_bind_def act_get_def)

lemma sound_bind_with:
  assumes "\<And>s h. P s \<Longrightarrow> g s = Inl h \<Longrightarrow> h \<in> H" and "\<And>s x. P s \<Longrightarrow> g s = Inr x \<Longrightarrow> sound H P (f x)"
  shows "sound H P (act_bind (act_with g) f)"
  unfolding sound_def triple_def
proof (intro allI impI)
  fix s
  assume s: "P s"
  show "case act_bind (act_with g) f s of Inl h \<Rightarrow> h \<in> H | Inr (x, s') \<Rightarrow> P s'"
    using s assms(1) [OF s] assms(2) [OF s]
    by (cases "g s") (auto simp: act_bind_def act_with_def sound_def triple_def)
qed

lemma triple_mono: "triple H P m Q \<Longrightarrow> (\<And>x s. Q x s \<Longrightarrow> Q' x s) \<Longrightarrow> triple H P m Q'"
  by (rule triple_conseq)

lemmas sound_intros = sound_bind sound_then sound_return sound_get sound_if sound_option sound_list
  sound_prod sound_Let sound_seq_Nil sound_seq_Cons sound_act_if sound_act_not sound_act_ignore
  sound_act_while sound_act_do_while

end
