(* ===== verification/Joker_Wellformed.thy ===== *)
theory Joker_Wellformed
  imports Joker_Grammar Joker_Triples
begin

text \<open>
  What holds of a compilation at every step. \<open>here fs cls toks l\<close> says: the compilers are well formed
  and have the scope depths, the kinds and the pending jumps of \<open>fs\<close>, innermost first; the class
  compilers are \<open>cls\<close>; \<open>curr\<close> is somewhere in \<open>toks\<close>, which ends with an eof token; \<open>prev\<close> is not null
  if \<open>l\<close> is at least 1, and \<open>pprev\<close> if it is at least 2; and an error is recorded exactly if one was
  reported. A pending jump is the position of an operand inside the code.

  The lemmas show that the operations below the grammar keep this and how they can fail.
\<close>

subsection \<open>The state\<close>

type_synonym frame = "int \<times> fn_type \<times> nat set"

definition jumps_in :: "nat set \<Rightarrow> compiler \<Rightarrow> bool" where
  "jumps_in J c \<longleftrightarrow> (\<forall>j\<in>J. j + 2 \<le> ck_count (fn_chunk (co_fn c)))"

definition loop_ends :: "compiler \<Rightarrow> nat set" where
  "loop_ends c = {j. \<exists>l\<in>set (co_loops c). lp_end l = Some j}"

definition compiler_ok :: "compiler \<Rightarrow> bool" where
  "compiler_ok c \<longleftrightarrow> chunk_wf (fn_chunk (co_fn c)) \<and>
     length (co_locals c) \<le> uint8_count \<and>
     length (co_upvalues c) \<le> upvalue_index_count \<and> distinct (co_upvalues c) \<and>
     fn_upvalue_count (co_fn c) = length (co_upvalues c) \<and>
     jumps_in (loop_ends c) c"

definition frame_ok :: "frame \<Rightarrow> compiler \<Rightarrow> bool" where
  "frame_ok f c \<longleftrightarrow> compiler_ok c \<and> co_scope_depth c = fst f \<and> co_fn_type c = fst (snd f) \<and>
     jumps_in (snd (snd f)) c"

definition ends_eof :: "token list \<Rightarrow> bool" where
  "ends_eof toks \<longleftrightarrow> toks \<noteq> [] \<and> tk_type (last toks) = token_eof"

definition tokens_ok :: "token list \<Rightarrow> nat \<Rightarrow> parser \<Rightarrow> bool" where
  "tokens_ok toks l p \<longleftrightarrow> ends_eof toks \<and> pa_tokens p = toks \<and> ends_eof (pa_curr p) \<and>
     (\<exists>done. toks = done @ pa_curr p) \<and>
     (1 \<le> l \<longrightarrow> pa_prev p \<noteq> None) \<and> (2 \<le> l \<longrightarrow> pa_pprev p \<noteq> None)"

definition errors_ok :: "parser \<Rightarrow> bool" where
  "errors_ok p \<longleftrightarrow> (pa_had_error p \<longleftrightarrow> pa_errors p \<noteq> []) \<and> (pa_panic_mode p \<longrightarrow> pa_had_error p)"

definition here :: "frame list \<Rightarrow> bool list \<Rightarrow> token list \<Rightarrow> nat \<Rightarrow> parser \<Rightarrow> bool" where
  "here fs cls toks l p \<longleftrightarrow> list_all2 frame_ok fs (pa_compilers p) \<and> pa_classes p = cls \<and>
     tokens_ok toks l p \<and> errors_ok p"

text \<open>How a compilation can fail. The comments give the construct in the source.\<close>

definition parse_halts :: "halt set" where
  "parse_halts =
     {Diverge,
      \<comment> \<open>more than 65535 constants in one function, or more than an \<open>int\<close> can count\<close>
      Panic ''Chunk::write_constant'', Panic ''Chunk::add_constant'',
      \<comment> \<open>an enum payload that is empty or holds another token than a name\<close>
      Panic ''Parser::parse_enum_member'',
      \<comment> \<open>a match with 256 cases\<close>
      Panic ''parser::parse_match_statement'',
      \<comment> \<open>a \<open>for\<close> without an increment\<close>
      Undefined ''null loop'',
      \<comment> \<open>\<open>!\<close> or \<open>~\<close> between two operands\<close>
      Undefined ''call of a null function'',
      \<comment> \<open>more than 255 parameters\<close>
      Undefined ''compiler of a function that returned'',
      \<comment> \<open>two guards of the model that are not shown unreachable\<close>
      Undefined ''locals[-1]'', Undefined ''pattern_index''}"

abbreviation ps :: "(parser \<Rightarrow> bool) \<Rightarrow> 'a pact \<Rightarrow> bool" where
  "ps P m \<equiv> sound parse_halts P m"

named_theorems parse_sound

lemma halts [simp]: "Diverge \<in> parse_halts" "Panic ''Chunk::write_constant'' \<in> parse_halts"
  "Panic ''Chunk::add_constant'' \<in> parse_halts" "Panic ''Parser::parse_enum_member'' \<in> parse_halts"
  "Panic ''parser::parse_match_statement'' \<in> parse_halts" "Undefined ''null loop'' \<in> parse_halts"
  "Undefined ''call of a null function'' \<in> parse_halts"
  "Undefined ''compiler of a function that returned'' \<in> parse_halts"
  "Undefined ''locals[-1]'' \<in> parse_halts" "Undefined ''pattern_index'' \<in> parse_halts"
  by (simp_all add: parse_halts_def)

subsection \<open>Tokens and errors\<close>

lemma ends_eof_Cons: "ends_eof (t # ts) \<Longrightarrow> tk_type t \<noteq> token_eof \<Longrightarrow> ends_eof ts"
  by (auto simp: ends_eof_def split: if_splits)

lemma ends_eof_cases:
  assumes "ends_eof ts"
  obtains t us where "ts = t # us"
  using assms by (cases ts) (auto simp: ends_eof_def)

lemma here_weaken: "here fs cls toks l p \<Longrightarrow> l' \<le> l \<Longrightarrow> here fs cls toks l' p"
  by (auto simp: here_def tokens_ok_def)

lemma here_curr: "here fs cls toks l p \<Longrightarrow> \<exists>t ts. pa_curr p = t # ts"
  by (auto simp: here_def tokens_ok_def elim: ends_eof_cases)

lemma parse_error_at_sound [parse_sound]: "ps (here fs cls toks l) (parse_error_at t msg)"
  unfolding parse_error_at_def
  by (rule sound_update) (auto simp: here_def tokens_ok_def errors_ok_def)

lemma here_toks: "here fs cls toks l p \<Longrightarrow> pa_tokens p = toks \<and> toks \<noteq> []"
  by (auto simp: here_def tokens_ok_def ends_eof_def)

lemma parse_error_at_prev_sound [parse_sound]: "ps (here fs cls toks l) (parse_error_at_prev msg)"
  unfolding parse_error_at_prev_def
proof (rule sound_bind_get)
  fix s
  assume "here fs cls toks l s"
  then obtain t ts where "pa_tokens s = t # ts" using here_toks by (metis neq_Nil_conv)
  then show "ps (here fs cls toks l) (case (pa_prev s, pa_tokens s) of (prev, toks) \<Rightarrow>
      case prev of None \<Rightarrow> (case toks of [] \<Rightarrow> act_halt (Undefined ''null token'')
        | t # _ \<Rightarrow> parse_error_at t ''Expected expression, Found end of file.'')
      | Some t \<Rightarrow> parse_error_at t msg)"
    by (cases "pa_prev s") (simp_all add: parse_error_at_sound)
qed

lemma parse_error_at_curr_sound [parse_sound]: "ps (here fs cls toks l) (parse_error_at_curr msg)"
  unfolding parse_error_at_curr_def by (intro sound_intros parse_sound)

lemma curr_token_sound [parse_sound]: "ps (here fs cls toks l) curr_token"
  unfolding curr_token_def by (rule sound_with) (auto dest: here_curr)

lemma prev_token_sound [parse_sound]: "1 \<le> l \<Longrightarrow> ps (here fs cls toks l) prev_token"
  unfolding prev_token_def by (rule sound_with) (auto simp: here_def tokens_ok_def split: option.splits)

lemma pprev_token_sound: "2 \<le> l \<Longrightarrow> ps (here fs cls toks l) pprev_token"
  unfolding pprev_token_def by (rule sound_with) (auto simp: here_def tokens_ok_def split: option.splits)

lemma parse_is_at_end_sound [parse_sound]: "ps (here fs cls toks l) parse_is_at_end"
  unfolding parse_is_at_end_def by (intro sound_intros parse_sound)

text \<open>Moving on gives a previous token, and a token before it if there was one.\<close>

lemma parse_advance_triple:
  "triple parse_halts (here fs cls toks l) parse_advance
     (\<lambda>r p. case r of None \<Rightarrow> here fs cls toks l p
       | Some t \<Rightarrow> here fs cls toks (if 1 \<le> l then 2 else 1) p \<and> pa_prev p = Some t)"
proof (rule tripleI)
  fix s h
  assume s: "here fs cls toks l s" and r: "parse_advance s = Inl h"
  obtain t ts where "pa_curr s = t # ts" using here_curr [OF s] by blast
  with r show "h \<in> parse_halts"
    by (auto simp: parse_advance_def parse_is_at_end_def act_simps split: if_splits)
next
  fix s x s'
  assume s: "here fs cls toks l s" and r: "parse_advance s = Inr (x, s')"
  obtain t ts where t: "pa_curr s = t # ts" using here_curr [OF s] by blast
  show "case x of None \<Rightarrow> here fs cls toks l s'
    | Some t \<Rightarrow> here fs cls toks (if 1 \<le> l then 2 else 1) s' \<and> pa_prev s' = Some t"
  proof (cases "tk_type t = token_eof")
    case True
    with t s r show ?thesis by (auto simp: parse_advance_def parse_is_at_end_def act_simps)
  next
    case False
    have "ends_eof (t # ts)" using s t by (simp add: here_def tokens_ok_def)
    then have "ends_eof ts" using False by (rule ends_eof_Cons)
    with False t s r show ?thesis
      by (auto simp: parse_advance_def parse_is_at_end_def act_simps here_def tokens_ok_def errors_ok_def)
  qed
qed

lemma parse_advance_sound [parse_sound]: "ps (here fs cls toks l) parse_advance"
  unfolding sound_def
  by (rule triple_mono [OF parse_advance_triple])
    (auto split: option.splits if_splits simp: here_def tokens_ok_def)

lemma parse_check_sound [parse_sound]: "ps (here fs cls toks l) (parse_check t)"
  unfolding parse_check_def by (rule sound_get)

lemma check_neither_sound [parse_sound]: "ps (here fs cls toks l) (check_neither a b)"
  unfolding check_neither_def by (intro sound_intros parse_sound)

lemma parse_match_sound [parse_sound]: "ps (here fs cls toks l) (parse_match t)"
  unfolding parse_match_def by (intro sound_intros parse_sound)

lemma parse_consume_sound [parse_sound]: "ps (here fs cls toks l) (parse_consume t msg)"
  unfolding parse_consume_def by (intro sound_intros parse_sound)

lemma synchronize_loop_sound: "1 \<le> l \<Longrightarrow> ps (here fs cls toks l) (synchronize_loop ts)"
proof (induction ts)
  case Nil
  then show ?case by (simp add: parse_is_at_end_sound sound_act_ignore)
next
  case (Cons t ts)
  from Cons.prems show ?case
    unfolding synchronize_loop.simps by (intro sound_intros parse_sound Cons.IH)
qed

lemma synchronize_sound [parse_sound]: "1 \<le> l \<Longrightarrow> ps (here fs cls toks l) synchronize"
  unfolding synchronize_def
  by (intro sound_intros synchronize_loop_sound sound_update)
    (auto simp: here_def tokens_ok_def errors_ok_def)

subsection \<open>The current compiler\<close>

lemma here_compiler:
  assumes "here (f # fs) cls toks l p"
  obtains c cs where "pa_compilers p = c # cs" and "frame_ok f c" and "list_all2 frame_ok fs cs"
  using assms by (auto simp: here_def list_all2_Cons1)

lemma here_put:
  assumes "here (f # fs) cls toks l p" and "frame_ok f' c"
  shows "here (f' # fs) cls toks l (p\<lparr>pa_compilers := c # tl (pa_compilers p)\<rparr>)"
  using assms by (auto simp: here_def list_all2_Cons1 tokens_ok_def errors_ok_def)

lemma this_compiler_triple:
  "triple parse_halts (here (f # fs) cls toks l) this_compiler
     (\<lambda>c p. here (f # fs) cls toks l p \<and> frame_ok f c \<and> pa_compilers p = c # tl (pa_compilers p))"
  by (rule tripleI) (auto simp: this_compiler_def act_with_apply andThen_Inr_iff elim: here_compiler
      split: list.splits)

lemma this_compiler_sound [parse_sound]: "ps (here (f # fs) cls toks l) this_compiler"
  unfolding sound_def by (rule triple_mono [OF this_compiler_triple]) simp

lemma sound_this:
  assumes "\<And>c. frame_ok f c \<Longrightarrow> ps (here (f # fs) cls toks l) (m c)"
  shows "ps (here (f # fs) cls toks l) (act_bind this_compiler m)"
  unfolding this_compiler_def
  using assms by (intro sound_bind_with) (auto elim: here_compiler)

lemma triple_modify:
  assumes "\<And>c. frame_ok f c \<Longrightarrow> frame_ok f' (g c)"
  shows "triple parse_halts (here (f # fs) cls toks l) (modify_compiler g) (\<lambda>_. here (f' # fs) cls toks l)"
proof (rule tripleI)
  fix s h
  assume "here (f # fs) cls toks l s" and "modify_compiler g s = Inl h"
  then show "h \<in> parse_halts"
    by (auto simp: modify_compiler_def this_compiler_def put_compiler_def act_simps elim: here_compiler)
next
  fix s x s'
  assume s: "here (f # fs) cls toks l s" and r: "modify_compiler g s = Inr (x, s')"
  from s obtain c cs where c: "pa_compilers s = c # cs" "frame_ok f c" by (rule here_compiler)
  with r have "s' = s\<lparr>pa_compilers := g c # tl (pa_compilers s)\<rparr>"
    by (simp add: modify_compiler_def this_compiler_def put_compiler_def act_simps)
  with here_put [OF s assms [OF c(2)]] show "here (f' # fs) cls toks l s'" by simp
qed

lemma modify_sound:
  "(\<And>c. frame_ok f c \<Longrightarrow> frame_ok f (g c)) \<Longrightarrow> ps (here (f # fs) cls toks l) (modify_compiler g)"
  unfolding sound_def by (rule triple_modify)

lemma curr_chunk_triple:
  "triple parse_halts (here (f # fs) cls toks l) curr_chunk
     (\<lambda>ck p. here (f # fs) cls toks l p \<and> chunk_wf ck)"
  unfolding curr_chunk_def
  by (rule triple_bind [OF this_compiler_triple], rule triple_return) (auto simp: frame_ok_def compiler_ok_def)

lemma curr_chunk_sound [parse_sound]: "ps (here (f # fs) cls toks l) curr_chunk"
  unfolding sound_def by (rule triple_mono [OF curr_chunk_triple]) simp

lemma code_count_sound [parse_sound]: "ps (here (f # fs) cls toks l) code_count"
  unfolding code_count_def by (intro sound_intros parse_sound)

lemma jumps_in_mono:
  "jumps_in J c \<Longrightarrow> ck_count (fn_chunk (co_fn c)) \<le> ck_count ck \<Longrightarrow> jumps_in J (set_chunk ck c)"
  by (auto simp: jumps_in_def set_chunk_def)

lemma frame_ok_set_chunk:
  assumes "frame_ok f c" and "chunk_wf ck" and "ck_count (fn_chunk (co_fn c)) \<le> ck_count ck"
  shows "frame_ok f (set_chunk ck c)"
proof -
  have "loop_ends (set_chunk ck c) = loop_ends c" by (simp add: set_chunk_def loop_ends_def)
  then show ?thesis using assms
    by (auto simp: frame_ok_def compiler_ok_def intro!: jumps_in_mono) (simp_all add: set_chunk_def)
qed

definition grows :: "chunk \<Rightarrow> chunk \<Rightarrow> bool" where
  "grows ck ck' \<longleftrightarrow> chunk_wf ck' \<and> ck_count ck \<le> ck_count ck'"

lemma chunk_action:
  assumes f: "\<And>c. frame_ok f c \<Longrightarrow>
    case g (fn_chunk (co_fn c)) of Inl h \<Rightarrow> h \<in> parse_halts | Inr (ck', x) \<Rightarrow> grows (fn_chunk (co_fn c)) ck'"
  shows "ps (here (f # fs) cls toks l) (act_bind curr_chunk (\<lambda>ck. act_bind (act_lift (g ck)) (\<lambda>(ck, x).
           act_then (modify_compiler (set_chunk ck)) (act_return x))))"
  unfolding sound_def
proof (rule tripleI)
  fix s h
  assume s: "here (f # fs) cls toks l s" and r: "act_bind curr_chunk (\<lambda>ck. act_bind (act_lift (g ck)) (\<lambda>(ck, x).
           act_then (modify_compiler (set_chunk ck)) (act_return x))) s = Inl h"
  from s obtain c cs where c: "pa_compilers s = c # cs" "frame_ok f c" by (rule here_compiler)
  from f [OF this(2)] r c show "h \<in> parse_halts"
    by (cases "g (fn_chunk (co_fn c))") (auto simp: modify_compiler_def curr_chunk_def this_compiler_def
        put_compiler_def act_simps)
next
  fix s y s'
  assume s: "here (f # fs) cls toks l s" and r: "act_bind curr_chunk (\<lambda>ck. act_bind (act_lift (g ck)) (\<lambda>(ck, x).
           act_then (modify_compiler (set_chunk ck)) (act_return x))) s = Inr (y, s')"
  from s obtain c cs where c: "pa_compilers s = c # cs" "frame_ok f c" by (rule here_compiler)
  from r c obtain ck x where ck: "g (fn_chunk (co_fn c)) = Inr (ck, x)"
    "s' = s\<lparr>pa_compilers := set_chunk ck c # tl (pa_compilers s)\<rparr>"
    by (cases "g (fn_chunk (co_fn c))") (auto simp: modify_compiler_def curr_chunk_def this_compiler_def
        put_compiler_def act_simps)
  from f [OF c(2)] ck(1) have "grows (fn_chunk (co_fn c)) ck" by simp
  then have "frame_ok f (set_chunk ck c)" using c(2) by (auto simp: grows_def intro: frame_ok_set_chunk)
  with here_put [OF s] ck(2) show "here (f # fs) cls toks l s'" by simp
qed

lemma write_code_at:
  assumes "\<And>c. frame_ok f c \<Longrightarrow>
    case g (fn_chunk (co_fn c)) of Inl h \<Rightarrow> h \<in> parse_halts | Inr ck' \<Rightarrow> grows (fn_chunk (co_fn c)) ck'"
  shows "ps (here (f # fs) cls toks l) (write_code g)"
proof -
  have eq: "write_code g = act_bind curr_chunk (\<lambda>ck. act_bind (act_lift (andThen (g ck) (\<lambda>ck. Inr (ck, ()))))
     (\<lambda>(ck, x). act_then (modify_compiler (set_chunk ck)) (act_return x)))"
    by (rule ext) (auto simp: write_code_def act_simps andThen_def split: sum.splits intro!: ext)
  have "case andThen (g (fn_chunk (co_fn c))) (\<lambda>ck. Inr (ck, ())) of
      Inl h \<Rightarrow> h \<in> parse_halts | Inr (ck', x) \<Rightarrow> grows (fn_chunk (co_fn c)) ck'"
    if "frame_ok f c" for c using assms [OF that] by (cases "g (fn_chunk (co_fn c))") simp_all
  then show ?thesis unfolding eq by (rule chunk_action)
qed

lemma frame_chunk: "frame_ok f c \<Longrightarrow> chunk_wf (fn_chunk (co_fn c))"
  by (simp add: frame_ok_def compiler_ok_def)

lemma write_code_sound:
  assumes "\<And>ck. chunk_wf ck \<Longrightarrow> case g ck of Inl h \<Rightarrow> h \<in> parse_halts | Inr ck' \<Rightarrow> grows ck ck'"
  shows "ps (here (f # fs) cls toks l) (write_code g)"
  by (rule write_code_at) (rule assms [OF frame_chunk])

subsection \<open>Emission\<close>

lemma write_chunk_grows: "chunk_wf ck \<Longrightarrow> case write_chunk ck b line of Inl h \<Rightarrow> h \<in> parse_halts | Inr ck' \<Rightarrow> grows ck ck'"
  using write_chunk_bytes [of ck b line] by (auto simp: grows_def chunk_wf_def)

lemma write_chunk_count: "chunk_wf ck \<Longrightarrow> write_chunk ck b line = Inr ck' \<Longrightarrow> ck_count ck' = Suc (ck_count ck)"
  using write_chunk_bytes [of ck b line] by (auto simp: chunk_wf_def)

lemma add_constant_grows:
  assumes "chunk_wf ck"
  shows "case add_constant ck v of Inl h \<Rightarrow> h \<in> parse_halts | Inr (ck', i) \<Rightarrow> grows ck ck'"
proof (cases "length (va_list (ck_constants ck)) < 2 ^ 31 - 1")
  case True
  from add_constant_list [OF assms this, of v] assms show ?thesis by (auto simp: grows_def chunk_wf_def)
next
  case False
  moreover have "va_count (ck_constants ck) = length (va_list (ck_constants ck))"
    using assms by (auto simp: chunk_wf_def va_wf_def)
  ultimately show ?thesis by (simp add: add_constant_def)
qed

lemma write_bytes_grows: "chunk_wf ck \<Longrightarrow> \<exists>ck'. write_bytes ck bs line = Inr ck' \<and> grows ck ck'"
  using write_bytes_bytes [of ck bs line] by (auto simp: grows_def chunk_wf_def)

lemma grows_trans: "grows a b \<Longrightarrow> grows b c \<Longrightarrow> grows a c"
  by (simp add: grows_def)

lemma write_constant_grows:
  assumes "chunk_wf ck"
  shows "case write_constant ck v line of Inl h \<Rightarrow> h \<in> parse_halts | Inr ck' \<Rightarrow> grows ck ck'"
proof (cases "add_constant ck v")
  case (Inl h)
  with add_constant_grows [OF assms, of v] show ?thesis by (simp add: write_constant_def)
next
  case (Inr r)
  obtain ck1 i where r: "r = (ck1, i)" by (cases r)
  with Inr add_constant_grows [OF assms, of v] have g: "grows ck ck1" by simp
  then have "chunk_wf ck1" by (simp add: grows_def)
  from write_bytes_grows [OF this, of "[op_byte op_constant, of_nat i]" line]
    write_bytes_grows [OF this, of "[op_byte op_constant_long, of_nat (i div 256), of_nat i]" line]
  show ?thesis using Inr r g
    by (auto simp: write_constant_def simp del: write_bytes.simps op_byte.simps dest: grows_trans)
qed

lemma emit_byte_sound [parse_sound]: "1 \<le> l \<Longrightarrow> ps (here (f # fs) cls toks l) (emit_byte b)"
  unfolding emit_byte_def
  by (intro sound_bind parse_sound write_code_sound write_chunk_grows)

lemma emit_op_sound [parse_sound]: "1 \<le> l \<Longrightarrow> ps (here (f # fs) cls toks l) (emit_op op)"
  unfolding emit_op_def by (rule emit_byte_sound)

lemma emit_constant_sound [parse_sound]: "1 \<le> l \<Longrightarrow> ps (here (f # fs) cls toks l) (emit_constant v)"
  unfolding emit_constant_def
  by (intro sound_bind parse_sound write_code_sound write_constant_grows)

lemma emit_bytes_sound [parse_sound]: "1 \<le> l \<Longrightarrow> ps (here (f # fs) cls toks l) (emit_bytes op b)"
  unfolding emit_bytes_def by (intro sound_intros parse_sound)

lemma emit_return_sound [parse_sound]: "1 \<le> l \<Longrightarrow> ps (here (f # fs) cls toks l) emit_return"
  unfolding emit_return_def by (intro sound_intros parse_sound)

lemma make_constant_sound [parse_sound]: "ps (here (f # fs) cls toks l) (make_constant v)"
proof -
  have eq: "make_constant v = act_bind (act_bind curr_chunk (\<lambda>ck. act_bind (act_lift (add_constant ck v))
      (\<lambda>(ck, index). act_then (modify_compiler (set_chunk ck)) (act_return index))))
     (\<lambda>index. act_then (if int index > UINT16_MAX then parse_error_at_curr ''Expected constant index less than 2^16''
        else act_return ()) (act_return index))"
    by (rule ext) (simp add: make_constant_def act_bind_def act_then_def act_return_def andThen_assoc split_def)
  show ?thesis unfolding eq
    by (rule sound_bind, rule chunk_action, rule add_constant_grows, erule frame_chunk) (intro sound_intros parse_sound)
qed

lemma identifier_constant_sound [parse_sound]: "ps (here (f # fs) cls toks l) (identifier_constant t)"
  unfolding identifier_constant_def by (rule make_constant_sound)

text \<open>A jump is pending from its emission on. Patching it stays inside the code.\<close>

lemma emit_byte_count:
  "triple parse_halts (\<lambda>p. here (f # fs) cls toks l p \<and> 1 \<le> l \<and> n \<le> ck_count (fn_chunk (co_fn (hd (pa_compilers p)))))
     (emit_byte b)
     (\<lambda>_ p. here (f # fs) cls toks l p \<and> 1 \<le> l \<and> Suc n \<le> ck_count (fn_chunk (co_fn (hd (pa_compilers p)))))"
proof (rule tripleI)
  fix s h
  assume "here (f # fs) cls toks l s \<and> 1 \<le> l \<and> n \<le> ck_count (fn_chunk (co_fn (hd (pa_compilers s))))"
    "emit_byte b s = Inl h"
  then show "h \<in> parse_halts" using triple_Inl [OF emit_byte_sound [unfolded sound_def]] by blast
next
  fix s x s'
  assume s: "here (f # fs) cls toks l s \<and> 1 \<le> l \<and> n \<le> ck_count (fn_chunk (co_fn (hd (pa_compilers s))))"
    and r: "emit_byte b s = Inr (x, s')"
  from s obtain c cs where c: "pa_compilers s = c # cs" "frame_ok f c" by (auto elim: here_compiler)
  then have "chunk_wf (fn_chunk (co_fn c))" by (simp add: frame_ok_def compiler_ok_def)
  from write_chunk_count [OF this] c r have "Suc n \<le> ck_count (fn_chunk (co_fn (hd (pa_compilers s'))))"
    using s by (auto simp: emit_byte_def write_code_def curr_chunk_def this_compiler_def modify_compiler_def
        put_compiler_def act_simps andThen_Inr_iff prev_token_def set_chunk_def split: option.splits)
  moreover have "here (f # fs) cls toks l s'" using triple_Inr [OF emit_byte_sound [unfolded sound_def]] s r by blast
  ultimately show "here (f # fs) cls toks l s' \<and> 1 \<le> l \<and> Suc n \<le> ck_count (fn_chunk (co_fn (hd (pa_compilers s'))))"
    using s by simp
qed

lemma emit_op_count:
  "triple parse_halts (\<lambda>p. here (f # fs) cls toks l p \<and> 1 \<le> l \<and> n \<le> ck_count (fn_chunk (co_fn (hd (pa_compilers p)))))
     (emit_op op)
     (\<lambda>_ p. here (f # fs) cls toks l p \<and> 1 \<le> l \<and> Suc n \<le> ck_count (fn_chunk (co_fn (hd (pa_compilers p)))))"
  unfolding emit_op_def by (rule emit_byte_count)

lemma emit_jump_triple:
  assumes "1 \<le> l"
  shows "triple parse_halts (here ((d, ty, J) # fs) cls toks l) (emit_jump op)
     (\<lambda>j. here ((d, ty, insert j J) # fs) cls toks l)"
proof -
  have "triple parse_halts (here ((d, ty, J) # fs) cls toks l) (act_seq [emit_op op, emit_byte 0xFF, emit_byte 0xFF])
     (\<lambda>_ p. here ((d, ty, J) # fs) cls toks l p \<and> 1 \<le> l \<and>
        Suc (Suc (Suc 0)) \<le> ck_count (fn_chunk (co_fn (hd (pa_compilers p)))))"
    by (rule triple_seq_Cons [OF triple_pre [OF emit_op_count [where n = 0 and f = "(d, ty, J)" and fs = fs
        and cls = cls and toks = toks and l = l]]], use assms in simp)
      (rule triple_seq_Cons [OF emit_byte_count], rule triple_seq_Cons [OF emit_byte_count],
        rule triple_seq_Nil, simp)
  then show ?thesis
    unfolding emit_jump_def
  proof (rule triple_then)
    show "triple parse_halts (\<lambda>p. here ((d, ty, J) # fs) cls toks l p \<and> 1 \<le> l \<and>
        Suc (Suc (Suc 0)) \<le> ck_count (fn_chunk (co_fn (hd (pa_compilers p)))))
      (act_bind code_count (\<lambda>n. act_return (n - 2))) (\<lambda>j. here ((d, ty, insert j J) # fs) cls toks l)"
    proof (rule tripleI)
      fix s h
      assume "here ((d, ty, J) # fs) cls toks l s \<and> 1 \<le> l \<and> Suc (Suc (Suc 0)) \<le> ck_count (fn_chunk (co_fn (hd (pa_compilers s))))"
        and "act_bind code_count (\<lambda>n. act_return (n - 2)) s = Inl h"
      then show "h \<in> parse_halts"
        by (auto simp: code_count_def curr_chunk_def this_compiler_def act_simps elim: here_compiler)
    next
      fix s x s'
      assume s: "here ((d, ty, J) # fs) cls toks l s \<and> 1 \<le> l \<and> Suc (Suc (Suc 0)) \<le> ck_count (fn_chunk (co_fn (hd (pa_compilers s))))"
        and r: "act_bind code_count (\<lambda>n. act_return (n - 2)) s = Inr (x, s')"
      then obtain c cs where c: "pa_compilers s = c # cs" by (auto elim: here_compiler)
      with s r have "s' = s" "x + 2 = ck_count (fn_chunk (co_fn c))"
        by (auto simp: code_count_def curr_chunk_def this_compiler_def act_simps)
      with s c show "here ((d, ty, insert x J) # fs) cls toks l s'"
        by (auto simp: here_def frame_ok_def jumps_in_def)
    qed
  qed
qed

lemma here_fewer_jumps: "here ((d, ty, J) # fs) cls toks l p \<Longrightarrow> J' \<subseteq> J \<Longrightarrow> here ((d, ty, J') # fs) cls toks l p"
  by (auto simp: here_def list_all2_Cons1 frame_ok_def jumps_in_def)

text \<open>What follows a jump may rely on its position.\<close>

lemma emit_jump_then:
  assumes "1 \<le> l" and "\<And>j. ps (here ((d, ty, insert j J) # fs) cls toks l) (m j)"
  shows "ps (here ((d, ty, J) # fs) cls toks l) (act_bind (emit_jump op) m)"
  unfolding sound_def
  by (rule triple_bind [OF emit_jump_triple [OF assms(1)]], rule triple_mono [OF triple_sound [OF assms(2)]])
    (auto intro: here_fewer_jumps)

lemma emit_jump_sound: "1 \<le> l \<Longrightarrow> ps (here ((d, ty, J) # fs) cls toks l) (emit_jump op)"
  unfolding sound_def by (rule triple_mono [OF emit_jump_triple]) (auto intro: here_fewer_jumps)

lemma chunk_wf_code:
  assumes "chunk_wf ck" and "holds b bs" and "length bs = ck_count ck" and "length b = length (ck_code ck)"
  shows "chunk_wf (ck\<lparr>ck_code := b\<rparr>) \<and> chunk_bytes (ck\<lparr>ck_code := b\<rparr>) = bs"
proof -
  have "chunk_bytes (ck\<lparr>ck_code := b\<rparr>) = bs" by (rule chunk_bytes_eqI) (use assms in simp_all)
  moreover have "chunk_lines (ck\<lparr>ck_code := b\<rparr>) = chunk_lines ck" by (simp add: chunk_lines_def)
  ultimately show ?thesis using assms by (simp add: chunk_wf_def)
qed

lemma store_jump_bytes:
  assumes "chunk_wf ck" and "j + 2 \<le> ck_count ck"
  shows "\<exists>ck'. store_jump j jump ck = Inr ck' \<and> chunk_wf ck' \<and> ck_count ck' = ck_count ck \<and>
    chunk_bytes ck' = (chunk_bytes ck)[j := high_byte jump, j + 1 := low_byte jump] \<and>
    ck_lines ck' = ck_lines ck \<and> ck_constants ck' = ck_constants ck"
proof -
  have n: "length (chunk_bytes ck) = ck_count ck" "holds (ck_code ck) (chunk_bytes ck)"
    using assms(1) by (simp_all add: chunk_wf_def)
  obtain b1 where b1: "buf_write (ck_code ck) j (high_byte jump) = Inr b1"
    "holds b1 ((chunk_bytes ck)[j := high_byte jump])" "length b1 = length (ck_code ck)"
    using holds_write [OF n(2), of j "high_byte jump"] n(1) assms(2) by auto
  obtain b2 where b2: "buf_write b1 (j + 1) (low_byte jump) = Inr b2"
    "holds b2 ((chunk_bytes ck)[j := high_byte jump, j + 1 := low_byte jump])" "length b2 = length (ck_code ck)"
    using holds_write [OF b1(2), of "j + 1" "low_byte jump"] n(1) assms(2) b1(3) by auto
  with chunk_wf_code [OF assms(1) b2(2)] b1(1) n(1) show ?thesis by (simp add: store_jump_def)
qed

lemma patch_jump_sound [parse_sound]:
  assumes "j \<in> J"
  shows "ps (here ((d, ty, J) # fs) cls toks l) (patch_jump j)"
proof -
  have "ps (here ((d, ty, J) # fs) cls toks l) (write_code (store_jump j i))" for i
  proof (rule write_code_at)
    fix c
    assume "frame_ok (d, ty, J) c"
    then have "chunk_wf (fn_chunk (co_fn c))" "j + 2 \<le> ck_count (fn_chunk (co_fn c))"
      using assms by (auto simp: frame_ok_def compiler_ok_def jumps_in_def)
    from store_jump_bytes [OF this, of i] show "case store_jump j i (fn_chunk (co_fn c)) of
        Inl h \<Rightarrow> h \<in> parse_halts | Inr ck' \<Rightarrow> grows (fn_chunk (co_fn c)) ck'"
      by (auto simp: grows_def)
  qed
  then show ?thesis unfolding patch_jump_def by (intro sound_intros parse_sound)
qed

lemma emit_back_sound [parse_sound]: "1 \<le> l \<Longrightarrow> ps (here (f # fs) cls toks l) (emit_back op i)"
  unfolding emit_back_def by (intro sound_intros parse_sound)

lemma emit_loop_sound [parse_sound]: "1 \<le> l \<Longrightarrow> ps (here (f # fs) cls toks l) (emit_loop i)"
  unfolding emit_loop_def by (rule emit_back_sound)

lemma emit_continue_sound [parse_sound]: "1 \<le> l \<Longrightarrow> ps (here (f # fs) cls toks l) (emit_continue i)"
  unfolding emit_continue_def by (rule emit_back_sound)

subsection \<open>Variables\<close>

lemma frame_ok_locals:
  "frame_ok f c \<Longrightarrow> length xs \<le> uint8_count \<Longrightarrow> frame_ok f (c\<lparr>co_locals := xs\<rparr>)"
  by (auto simp: frame_ok_def compiler_ok_def jumps_in_def loop_ends_def)

lemma triple_this:
  assumes "\<And>c. frame_ok f c \<Longrightarrow>
    triple parse_halts (\<lambda>p. here (f # fs) cls toks l p \<and> pa_compilers p = c # tl (pa_compilers p)) (m c) Q"
  shows "triple parse_halts (here (f # fs) cls toks l) (act_bind this_compiler m) Q"
proof (rule triple_bind [OF this_compiler_triple])
  fix c
  show "triple parse_halts (\<lambda>p. here (f # fs) cls toks l p \<and> frame_ok f c \<and> pa_compilers p = c # tl (pa_compilers p)) (m c) Q"
    using assms [of c] by (auto simp: triple_def)
qed

lemma triple_modify_at:
  assumes "frame_ok f' (g c)"
  shows "triple parse_halts (\<lambda>p. here (f # fs) cls toks l p \<and> pa_compilers p = c # tl (pa_compilers p))
    (modify_compiler g) (\<lambda>_. here (f' # fs) cls toks l)"
proof (rule tripleI)
  fix s h
  assume "here (f # fs) cls toks l s \<and> pa_compilers s = c # tl (pa_compilers s)" and "modify_compiler g s = Inl h"
  then show "h \<in> parse_halts"
    by (auto simp: modify_compiler_def this_compiler_def put_compiler_def act_simps elim: here_compiler)
next
  fix s x s'
  assume s: "here (f # fs) cls toks l s \<and> pa_compilers s = c # tl (pa_compilers s)"
    and r: "modify_compiler g s = Inr (x, s')"
  then obtain cs where "pa_compilers s = c # cs" by metis
  with r have "s' = s\<lparr>pa_compilers := g c # tl (pa_compilers s)\<rparr>"
    by (simp add: modify_compiler_def this_compiler_def put_compiler_def act_simps)
  with s here_put [OF _ assms] show "here (f' # fs) cls toks l s'" by blast
qed

lemma triple_forget:
  "ps (here (f # fs) cls toks l) m \<Longrightarrow>
   triple parse_halts (\<lambda>p. here (f # fs) cls toks l p \<and> R p) m (\<lambda>_. here (f # fs) cls toks l)"
  by (auto simp: sound_def triple_def)

lemma add_local_sound [parse_sound]: "ps (here (f # fs) cls toks l) (add_local name)"
  unfolding add_local_def sound_def
  by (rule triple_this, rule triple_if)
    (auto intro!: triple_forget parse_error_at_curr_sound triple_modify_at frame_ok_locals
      simp: frame_ok_def compiler_ok_def)

lemma declare_loop_sound: "ps (here fs cls toks l) (declare_loop ls d name)"
proof (induction ls)
  case Nil
  then show ?case by (simp add: sound_return)
next
  case (Cons x ls)
  then show ?case unfolding declare_loop.simps by (intro sound_intros parse_sound)
qed

lemma declare_variable_sound [parse_sound]: "ps (here (f # fs) cls toks l) (declare_variable name)"
  unfolding declare_variable_def by (intro sound_intros parse_sound declare_loop_sound)

lemma mark_initialized_sound [parse_sound]: "ps (here (f # fs) cls toks l) mark_initialized"
  unfolding mark_initialized_def sound_def
proof (rule triple_this, intro triple_if)
  fix c
  assume c: "frame_ok f c" and "co_locals c \<noteq> []"
  then have "frame_ok f (c\<lparr>co_locals := butlast (co_locals c) @ [(last (co_locals c))\<lparr>lv_depth := co_scope_depth c\<rparr>]\<rparr>)"
    by (intro frame_ok_locals) (auto simp: frame_ok_def compiler_ok_def)
  then show "triple parse_halts (\<lambda>p. here (f # fs) cls toks l p \<and> pa_compilers p = c # tl (pa_compilers p))
      (modify_compiler (\<lambda>c. c\<lparr>co_locals := butlast (co_locals c) @ [(last (co_locals c))\<lparr>lv_depth := co_scope_depth c\<rparr>]\<rparr>))
      (\<lambda>_. here (f # fs) cls toks l)"
    by (rule triple_modify_at)
qed (auto intro: triple_return triple_halt)

lemma define_variable_sound [parse_sound]: "1 \<le> l \<Longrightarrow> ps (here (f # fs) cls toks l) (define_variable i)"
  unfolding define_variable_def by (intro sound_intros parse_sound)

lemma resolve_local_sound [parse_sound]: "ps (here fs cls toks l) (resolve_local c name)"
  unfolding resolve_local_def by (intro sound_intros parse_sound)

lemma resolve_here_sound [parse_sound]: "ps (here (f # fs) cls toks l) (resolve_here name)"
  unfolding resolve_here_def by (intro sound_intros parse_sound)

text \<open>Upvalues enter the compilers of the chain without a duplicate.\<close>

lemma index_of_None: "index_of ys x = None \<longleftrightarrow> x \<notin> set ys"
  by (induction ys) auto

lemma index_of_Some: "index_of ys x = Some i \<Longrightarrow> i < length ys \<and> ys ! i = x"
  by (induction ys arbitrary: i) (auto split: if_splits)

lemma add_upvalue_triple:
  assumes "frame_ok f c"
  shows "triple parse_halts (here fs cls toks l) (add_upvalue c info) (\<lambda>(i, c') p. here fs cls toks l p \<and> frame_ok f c')"
proof -
  have full: "triple parse_halts (here fs cls toks l) (act_then (parse_error_at_curr ''Expected upvalue count less than 128'')
      (act_return (0, c))) (\<lambda>(i, c') p. here fs cls toks l p \<and> frame_ok f c')"
    by (rule triple_then_sound [OF parse_error_at_curr_sound], rule triple_return) (use assms in simp)
  have new: "frame_ok f (c\<lparr>co_upvalues := co_upvalues c @ [info],
      co_fn := (co_fn c)\<lparr>fn_upvalue_count := Suc (length (co_upvalues c))\<rparr>\<rparr>)"
    if "length (co_upvalues c) \<noteq> upvalue_index_count" "index_of (co_upvalues c) info = None"
    using assms that by (auto simp: frame_ok_def compiler_ok_def jumps_in_def loop_ends_def index_of_None)
  show ?thesis
    unfolding add_upvalue_def
    by (cases "index_of (co_upvalues c) info") (auto intro!: full triple_return simp: assms new)
qed

lemma frame_ok_capture: "frame_ok f c \<Longrightarrow> frame_ok f (capture_local i c)"
  unfolding capture_local_def by (rule frame_ok_locals) (auto simp: frame_ok_def compiler_ok_def)

lemma resolve_upvalue_triple:
  assumes "list_all2 frame_ok fs' cs" and "cs \<noteq> []"
  shows "triple parse_halts (here fs cls toks l) (resolve_upvalue cs name)
     (\<lambda>(r, cs') p. here fs cls toks l p \<and> list_all2 frame_ok fs' cs')"
  using assms
proof (induction cs name arbitrary: fs' rule: resolve_upvalue.induct)
  case (1 name)
  then show ?case by simp
next
  case (2 c name)
  then show ?case by (auto intro: triple_return)
next
  case (3 c up cs name)
  from 3(2) obtain f g gs where f: "fs' = f # g # gs" "frame_ok f c" "frame_ok g up" "list_all2 frame_ok gs cs"
    by (auto simp: list_all2_Cons2)
  let ?Q = "\<lambda>(r, cs') p. here fs cls toks l p \<and> list_all2 frame_ok fs' cs'"
  have local: "triple parse_halts (here fs cls toks l)
      (act_bind (add_upvalue c info) (\<lambda>(j, c). act_return (Some j, c # capture_local i up # cs))) ?Q" for info i
    by (rule triple_bind [OF add_upvalue_triple [OF f(2)]])
      (auto intro!: triple_return simp: f frame_ok_capture)
  have outer: "triple parse_halts (here fs cls toks l)
      (act_bind (add_upvalue c info) (\<lambda>(j, c). act_return (Some j, c # ups))) ?Q"
    if "list_all2 frame_ok (g # gs) ups" for info ups
    by (rule triple_bind [OF add_upvalue_triple [OF f(2)]]) (use that in \<open>auto intro!: triple_return simp: f\<close>)
  have IH: "triple parse_halts (here fs cls toks l) (resolve_upvalue (up # cs) name)
     (\<lambda>(r, cs') p. here fs cls toks l p \<and> list_all2 frame_ok (g # gs) cs')"
    if "co_fn_type c \<noteq> type_script"
    using 3(1) [OF that, of "g # gs"] f by simp
  have rest: "triple parse_halts (here fs cls toks l) (act_bind (resolve_upvalue (up # cs) name) (\<lambda>(up_upvalue, ups).
      case up_upvalue of
        Some i \<Rightarrow> act_bind (add_upvalue c (new_upvalue_info (of_nat i) False)) (\<lambda>(j, c). act_return (Some j, c # ups))
      | None \<Rightarrow> act_return (None, c # ups))) ?Q" if "co_fn_type c \<noteq> type_script"
  proof (rule triple_bind [OF IH [OF that]], rule triple_state, goal_cases)
    case (1 x s)
    then show ?case using outer [of "snd x"]
      by (cases x; cases "fst x") (auto intro!: triple_return intro: triple_pre simp: f)
  qed
  show ?case
    unfolding resolve_upvalue.simps
  proof (rule triple_if)
    show "triple parse_halts (here fs cls toks l) (act_return (None, c # up # cs)) ?Q"
      by (rule triple_return) (simp add: f)
  next
    assume n: "co_fn_type c \<noteq> type_script"
    show "triple parse_halts (here fs cls toks l) (act_bind (resolve_local up name) (\<lambda>up_local. case up_local of
          Some i \<Rightarrow> act_bind (add_upvalue c (new_upvalue_info (of_nat i) True)) (\<lambda>(j, c).
            act_return (Some j, c # capture_local i up # cs))
        | None \<Rightarrow> act_bind (resolve_upvalue (up # cs) name) (\<lambda>(up_upvalue, ups). case up_upvalue of
            Some i \<Rightarrow> act_bind (add_upvalue c (new_upvalue_info (of_nat i) False)) (\<lambda>(j, c).
              act_return (Some j, c # ups))
          | None \<Rightarrow> act_return (None, c # ups)))) ?Q"
    proof (rule triple_bind_sound [OF resolve_local_sound], goal_cases)
      case (1 x)
      show ?case using local rest [OF n] by (cases x) simp_all
    qed
  qed
qed

lemma resolve_upvalue_here_sound [parse_sound]: "ps (here (f # fs) cls toks l) (resolve_upvalue_here name)"
  unfolding resolve_upvalue_here_def sound_def
proof (rule triple_bind_get)
  fix s
  assume s: "here (f # fs) cls toks l s"
  then have cs: "list_all2 frame_ok (f # fs) (pa_compilers s)" "pa_compilers s \<noteq> []"
    by (auto simp: here_def)
  have set: "triple parse_halts (\<lambda>p. here (f # fs) cls toks l p \<and> list_all2 frame_ok (f # fs) cs)
      (act_then (act_update (\<lambda>p. p\<lparr>pa_compilers := cs\<rparr>)) (act_return r)) (\<lambda>_. here (f # fs) cls toks l)" for cs r
    by (rule tripleI) (auto simp: act_simps here_def tokens_ok_def errors_ok_def)
  show "triple parse_halts (\<lambda>s'. s' = s) (act_bind (resolve_upvalue (pa_compilers s) name) (\<lambda>(r, cs).
       act_then (act_update (\<lambda>p. p\<lparr>pa_compilers := cs\<rparr>)) (act_return r))) (\<lambda>_. here (f # fs) cls toks l)"
    by (rule triple_pre [OF triple_bind [OF resolve_upvalue_triple [OF cs, of "f # fs"]]])
      (use s in \<open>auto intro: set\<close>)
qed

lemma resolve_variable_sound [parse_sound]: "ps (here (f # fs) cls toks l) (resolve_variable name)"
  unfolding resolve_variable_def by (intro sound_intros parse_sound)

subsection \<open>Scopes and functions\<close>

lemma frame_ok_depth: "frame_ok (d, ty, J) c \<Longrightarrow> frame_ok (d', ty, J) (c\<lparr>co_scope_depth := d'\<rparr>)"
  by (auto simp: frame_ok_def compiler_ok_def jumps_in_def loop_ends_def)

lemma begin_scope_triple:
  "triple parse_halts (here ((d, ty, J) # fs) cls toks l) begin_scope (\<lambda>_. here ((d + 1, ty, J) # fs) cls toks l)"
  unfolding begin_scope_def compile_begin_scope_def
  by (rule triple_modify, frule frame_ok_depth [where d' = "d + 1"]) (simp add: frame_ok_def)

lemma compile_end_scope_triple:
  "triple parse_halts (here ((d + 1, ty, J) # fs) cls toks l) compile_end_scope (\<lambda>_. here ((d, ty, J) # fs) cls toks l)"
  unfolding compile_end_scope_def
  by (rule triple_modify, frule frame_ok_depth [where d' = d]) (simp add: frame_ok_def)

lemma end_scope_loop_sound: "1 \<le> l \<Longrightarrow> ps (here (f # fs) cls toks l) (end_scope_loop ls d)"
proof (induction ls)
  case Nil
  then show ?case by (simp add: sound_return)
next
  case (Cons x ls)
  have "frame_ok f c \<Longrightarrow> frame_ok f (c\<lparr>co_locals := butlast (co_locals c)\<rparr>)" for c
    by (rule frame_ok_locals) (auto simp: frame_ok_def compiler_ok_def)
  with Cons show ?case unfolding end_scope_loop.simps by (intro sound_intros parse_sound modify_sound)
qed

lemma end_scope_triple:
  assumes "1 \<le> l"
  shows "triple parse_halts (here ((d + 1, ty, J) # fs) cls toks l) end_scope (\<lambda>_. here ((d, ty, J) # fs) cls toks l)"
  unfolding end_scope_def
  by (rule triple_then [OF compile_end_scope_triple], rule triple_sound)
    (use assms in \<open>intro sound_intros parse_sound end_scope_loop_sound\<close>)

lemma new_compiler_ok: "frame_ok (0, ty, {}) \<lparr>co_fn_at = a, co_fn = empty_fn, co_fn_type = ty, co_locals = [first_local ty],
    co_scope_depth = 0, co_upvalues = [], co_loops = []\<rparr>"
  using chunk_wf_init
  by (simp add: frame_ok_def compiler_ok_def jumps_in_def loop_ends_def empty_fn_def uint8_count_def)

lemma init_compiler_triple:
  "triple parse_halts (here fs cls toks l) (init_compiler ty) (\<lambda>c p. here fs cls toks l p \<and> frame_ok (0, ty, {}) c)"
  by (rule tripleI)
    (auto simp: init_compiler_def new_fn_def allocate_object_def here_def tokens_ok_def errors_ok_def new_compiler_ok)

lemma push_compiler_triple:
  "triple parse_halts (\<lambda>p. here fs cls toks l p \<and> frame_ok f c) (push_compiler c) (\<lambda>_. here (f # fs) cls toks l)"
  by (rule tripleI) (auto simp: push_compiler_def act_simps here_def tokens_ok_def errors_ok_def)

lemma frame_ok_name: "frame_ok f c \<Longrightarrow> frame_ok f (c\<lparr>co_fn := (co_fn c)\<lparr>fn_name := n\<rparr>\<rparr>)"
  by (auto simp: frame_ok_def compiler_ok_def jumps_in_def loop_ends_def)

lemma frame_ok_arity: "frame_ok f c \<Longrightarrow> frame_ok f (c\<lparr>co_fn := (co_fn c)\<lparr>fn_arity := n\<rparr>\<rparr>)"
  by (auto simp: frame_ok_def compiler_ok_def jumps_in_def loop_ends_def)

lemma curr_into_sub_compiler_triple:
  assumes "1 \<le> l"
  shows "triple parse_halts (here fs cls toks l) (curr_into_sub_compiler ty) (\<lambda>_. here ((0, ty, {}) # fs) cls toks l)"
  unfolding curr_into_sub_compiler_def
proof (rule triple_bind [OF init_compiler_triple], rule triple_seq_Cons [OF push_compiler_triple], rule triple_sound)
  fix c
  show "ps (here ((0, ty, {}) # fs) cls toks l)
    (act_seq [if ty \<noteq> type_script then act_bind prev_token (\<lambda>t.
          modify_compiler (\<lambda>c. c\<lparr>co_fn := (co_fn c)\<lparr>fn_name := Some (tk_lexeme t)\<rparr>\<rparr>)) else act_return ()])"
    using assms by (intro sound_intros parse_sound modify_sound frame_ok_name)
qed

lemma curr_from_sub_compiler_triple:
  assumes "1 \<le> l"
  shows "triple parse_halts (here (f # fs) cls toks l) curr_from_sub_compiler
    (\<lambda>c p. here fs cls toks l p \<and> frame_ok f c)"
  unfolding curr_from_sub_compiler_def
proof (rule triple_then_sound [OF emit_return_sound [OF assms]], rule triple_this, rule tripleI)
  fix c s x s'
  assume "frame_ok f c" "here (f # fs) cls toks l s \<and> pa_compilers s = c # tl (pa_compilers s)"
    and "act_then (act_update (\<lambda>p. p\<lparr>pa_compilers := tl (pa_compilers p),
                                 pa_heap := write_obj (co_fn_at c) (OFn (co_fn c)) (pa_heap p)\<rparr>))
       (act_return c) s = Inr (x, s')"
  then show "here fs cls toks l s' \<and> frame_ok f x"
    by (auto simp: act_simps here_def tokens_ok_def errors_ok_def list_all2_Cons1)
qed (simp add: act_simps)

lemma emit_closure_sound [parse_sound]: "1 \<le> l \<Longrightarrow> ps (here (f # fs) cls toks l) (emit_closure c)"
  unfolding emit_closure_def
  by (intro sound_bind make_constant_sound sound_seq_Cons emit_bytes_sound sound_seq_map emit_byte_sound)

subsection \<open>Loops\<close>

lemma begin_loop_sound [parse_sound]: "ps (here (f # fs) cls toks l) (begin_loop start)"
  unfolding begin_loop_def
  by (rule modify_sound) (auto simp: frame_ok_def compiler_ok_def jumps_in_def loop_ends_def)

text \<open>The innermost compiler is in the loops \<open>ls\<close>.\<close>

definition in_loops :: "loop_info list \<Rightarrow> parser \<Rightarrow> bool" where
  "in_loops ls p \<longleftrightarrow> pa_compilers p \<noteq> [] \<and> co_loops (hd (pa_compilers p)) = ls"

lemma triple_keeps:
  assumes "triple H P m Q" and "keeps R m"
  shows "triple H (\<lambda>s. P s \<and> R s) m (\<lambda>x s. Q x s \<and> R s)"
  by (rule tripleI) (auto dest: triple_Inl [OF assms(1)] triple_Inr [OF assms(1)] keepsD [OF assms(2)])

lemma keeps_error: "keeps (in_loops ls) (parse_error_at_curr msg)"
  by (auto simp: keeps_def parse_error_at_curr_def parse_error_at_prev_def parse_error_at_def act_simps in_loops_def
      split: list.splits option.splits)

lemma keeps_write_code: "keeps (in_loops ls) (write_code g)"
  by (auto simp: keeps_def write_code_def curr_chunk_def this_compiler_def modify_compiler_def put_compiler_def
      act_simps andThen_Inr_iff in_loops_def set_chunk_def split: list.splits)

lemma keeps_patch_jump: "keeps (in_loops ls) (patch_jump j)"
  unfolding patch_jump_def code_count_def curr_chunk_def this_compiler_def
  by (intro keeps_intros keeps_control keeps_error keeps_write_code)

lemma keeps_emit_jump: "keeps (in_loops ls) (emit_jump op)"
  unfolding emit_jump_def emit_op_def emit_byte_def prev_token_def code_count_def curr_chunk_def this_compiler_def
  by (intro keeps_intros keeps_control keeps_write_code)

lemma triple_modify_where:
  assumes "\<And>c. frame_ok f c \<Longrightarrow> co_loops c = ls \<Longrightarrow> frame_ok f' (g c)"
  shows "triple parse_halts (\<lambda>p. here (f # fs) cls toks l p \<and> in_loops ls p) (modify_compiler g)
     (\<lambda>_. here (f' # fs) cls toks l)"
proof (rule triple_state)
  fix s
  assume s: "here (f # fs) cls toks l s \<and> in_loops ls s"
  then obtain c cs where c: "pa_compilers s = c # cs" "frame_ok f c" by (auto elim: here_compiler)
  with s have "frame_ok f' (g c)" by (auto simp: in_loops_def intro: assms)
  from triple_modify_at [where g = g and c = c and f' = f', OF this, of f fs cls toks l] show
    "triple parse_halts (\<lambda>s'. s' = s) (modify_compiler g) (\<lambda>_. here (f' # fs) cls toks l)"
    by (rule triple_pre) (use s c in simp)
qed

lemma end_loop_triple:
  "triple parse_halts (\<lambda>p. here (f # fs) cls toks l p \<and> in_loops (i # is) p) end_loop (\<lambda>_. here (f # fs) cls toks l)"
proof (rule triple_state)
  fix s
  assume s: "here (f # fs) cls toks l s \<and> in_loops (i # is) s"
  then obtain c cs where c: "pa_compilers s = c # cs" by (auto elim: here_compiler)
  with s have "end_loop s = modify_compiler (\<lambda>c. c\<lparr>co_loops := is\<rparr>) s"
    by (simp add: end_loop_def this_compiler_def act_simps in_loops_def)
  moreover have "triple parse_halts (\<lambda>p. here (f # fs) cls toks l p \<and> in_loops (i # is) p)
     (modify_compiler (\<lambda>c. c\<lparr>co_loops := is\<rparr>)) (\<lambda>_. here (f # fs) cls toks l)"
    by (rule triple_modify_where) (auto simp: frame_ok_def compiler_ok_def jumps_in_def loop_ends_def)
  ultimately show "triple parse_halts (\<lambda>s'. s' = s) end_loop (\<lambda>_. here (f # fs) cls toks l)"
    using s by (auto simp: triple_def)
qed

lemma emit_break_triple:
  assumes "lp_end i = Some j"
  shows "triple parse_halts (\<lambda>p. here ((d, ty, J) # fs) cls toks l p \<and> in_loops (i # is) p) emit_break
     (\<lambda>_ p. here ((d, ty, J) # fs) cls toks l p \<and> in_loops (i # is) p)"
proof (rule triple_state)
  fix s
  assume s: "here ((d, ty, J) # fs) cls toks l s \<and> in_loops (i # is) s"
  then obtain c cs where c: "pa_compilers s = c # cs" "frame_ok (d, ty, J) c" by (auto elim: here_compiler)
  with s assms have eq: "emit_break s = patch_jump j s"
    by (simp add: emit_break_def this_compiler_def act_simps in_loops_def)
  have "j \<in> loop_ends c" using s c assms by (auto simp: in_loops_def loop_ends_def)
  with s c have "here ((d, ty, insert j J) # fs) cls toks l s"
    by (auto simp: here_def frame_ok_def compiler_ok_def jumps_in_def)
  with s have s': "here ((d, ty, insert j J) # fs) cls toks l s \<and> in_loops (i # is) s" by blast
  have "triple parse_halts (\<lambda>p. here ((d, ty, insert j J) # fs) cls toks l p \<and> in_loops (i # is) p) (patch_jump j)
     (\<lambda>_ p. here ((d, ty, insert j J) # fs) cls toks l p \<and> in_loops (i # is) p)"
    by (intro triple_keeps triple_sound patch_jump_sound keeps_patch_jump) simp
  from triple_outcome [OF this s'] have
    "case patch_jump j s of Inl h \<Rightarrow> h \<in> parse_halts
     | Inr (x, s') \<Rightarrow> here ((d, ty, J) # fs) cls toks l s' \<and> in_loops (i # is) s'"
    by (cases "patch_jump j s") (auto intro: here_fewer_jumps)
  then show "triple parse_halts (\<lambda>s'. s' = s) emit_break
     (\<lambda>_ p. here ((d, ty, J) # fs) cls toks l p \<and> in_loops (i # is) p)"
    by (simp add: triple_def eq)
qed

lemma finish_loop_sound [parse_sound]: "ps (here ((d, ty, J) # fs) cls toks l) finish_loop"
proof -
  have loop: "triple parse_halts (here ((d, ty, J) # fs) cls toks l) curr_loop
      (\<lambda>i p. here ((d, ty, J) # fs) cls toks l p \<and> (\<exists>is. in_loops (i # is) p))"
    by (rule tripleI) (auto simp: curr_loop_def this_compiler_def act_simps in_loops_def elim!: here_compiler
        split: list.splits)
  have rest: "triple parse_halts (\<lambda>p. here ((d, ty, J) # fs) cls toks l p \<and> in_loops (i # is) p)
      (act_seq [if lp_end i \<noteq> None then emit_break else act_return (), end_loop]) (\<lambda>_. here ((d, ty, J) # fs) cls toks l)" for i "is"
  proof (rule triple_seq_Cons)
    show "triple parse_halts (\<lambda>p. here ((d, ty, J) # fs) cls toks l p \<and> in_loops (i # is) p)
      (if lp_end i \<noteq> None then emit_break else act_return ())
      (\<lambda>_ p. here ((d, ty, J) # fs) cls toks l p \<and> in_loops (i # is) p)"
      by (auto intro: emit_break_triple triple_return)
    show "triple parse_halts (\<lambda>p. here ((d, ty, J) # fs) cls toks l p \<and> in_loops (i # is) p)
      (act_seq [end_loop]) (\<lambda>_. here ((d, ty, J) # fs) cls toks l)"
      by (rule triple_seq_Cons [OF end_loop_triple], rule triple_seq_Nil)
  qed
  show ?thesis
    unfolding finish_loop_def sound_def
  proof (rule triple_bind [OF loop], rule triple_state, elim conjE exE)
    fix i s "is"
    assume "here ((d, ty, J) # fs) cls toks l s" and "in_loops (i # is) s"
    then show "triple parse_halts (\<lambda>s'. s' = s) (act_seq [if lp_end i \<noteq> None then emit_break else act_return (), end_loop])
      (\<lambda>_. here ((d, ty, J) # fs) cls toks l)"
      by (intro triple_pre [OF rest [of i "is"]]) simp
  qed
qed

end
