(* ===== verification/Joker_Compilation.thy ===== *)
theory Joker_Compilation
  imports Joker_Wellformed
begin

text \<open>
  Every function of the grammar keeps the state of a compilation well formed and leaves the scope
  depths, the functions and the classes it found, or fails in one of the ways of \<open>parse_halts\<close>. The
  properties of \<open>compile\<close> follow by induction over the fuel.
\<close>

subsection \<open>Expressions\<close>

definition rec_ok :: "ctx \<Rightarrow> bool" where
  "rec_ok C \<longleftrightarrow> (\<forall>t d ty J fs cls toks l. 1 \<le> l \<longrightarrow> ps (here ((d, ty, J) # fs) cls toks l) (cx_rec C t))"

lemma rec_sound: "rec_ok C \<Longrightarrow> 1 \<le> l \<Longrightarrow> ps (here ((d, ty, J) # fs) cls toks l) (cx_rec C t)"
  by (simp add: rec_ok_def)

named_theorems grammar_sound

lemma precedence_sound [grammar_sound]:
  "rec_ok C \<Longrightarrow> 1 \<le> l \<Longrightarrow> ps (here ((d, ty, J) # fs) cls toks l) (precedence C p)"
  unfolding precedence_def by (rule rec_sound)

lemma parse_expression_sound [grammar_sound]:
  "rec_ok C \<Longrightarrow> 1 \<le> l \<Longrightarrow> ps (here ((d, ty, J) # fs) cls toks l) (parse_expression C)"
  unfolding parse_expression_def by (rule precedence_sound)

lemma parse_block_statement_sound [grammar_sound]:
  "rec_ok C \<Longrightarrow> 1 \<le> l \<Longrightarrow> ps (here ((d, ty, J) # fs) cls toks l) (parse_block_statement C)"
  unfolding parse_block_statement_def by (intro sound_intros parse_sound rec_sound halts)

lemma parse_named_variable_sound [grammar_sound]:
  "rec_ok C \<Longrightarrow> 1 \<le> l \<Longrightarrow> ps (here ((d, ty, J) # fs) cls toks l) (parse_named_variable C name b)"
  unfolding parse_named_variable_def by (intro sound_intros parse_sound grammar_sound)

lemma parse_variable_sound [grammar_sound]:
  "1 \<le> l \<Longrightarrow> ps (here ((d, ty, J) # fs) cls toks l) (parse_variable msg)"
  unfolding parse_variable_def by (intro sound_intros parse_sound)

lemma count_parameter_sound:
  "ps (here ((d, ty, J) # fs) cls toks l) m \<Longrightarrow> ps (here ((d, ty, J) # fs) cls toks l) (count_parameter m)"
  unfolding count_parameter_def by (intro sound_intros parse_sound modify_sound frame_ok_arity)

lemma parse_parameter_sound [grammar_sound]:
  "rec_ok C \<Longrightarrow> 1 \<le> l \<Longrightarrow> ps (here ((d, ty, J) # fs) cls toks l) (parse_parameter C)"
  unfolding parse_parameter_def
  by (intro sound_intros parse_sound grammar_sound count_parameter_sound sound_halt halts)

text \<open>The part of a function between the entry of its compiler and its end.\<close>

lemma sub_function_sound:
  assumes "1 \<le> l" and "\<And>J. ps (here ((1, fty, J) # (d, ty, J') # fs) cls toks l) (act_seq ms)"
  shows "ps (here ((d, ty, J') # fs) cls toks l)
    (act_then (act_seq (curr_into_sub_compiler fty # begin_scope # ms)) (act_bind curr_from_sub_compiler emit_closure))"
  unfolding sound_def
proof (rule triple_then)
  have scope: "triple parse_halts (here ((0, fty, {}) # (d, ty, J') # fs) cls toks l) begin_scope
      (\<lambda>_. here ((1, fty, {}) # (d, ty, J') # fs) cls toks l)"
    using begin_scope_triple [of 0 fty "{}" "(d, ty, J') # fs" cls toks l] by simp
  show "triple parse_halts (here ((d, ty, J') # fs) cls toks l) (act_seq (curr_into_sub_compiler fty # begin_scope # ms))
      (\<lambda>_. here ((1, fty, {}) # (d, ty, J') # fs) cls toks l)"
    by (rule triple_seq_Cons [OF curr_into_sub_compiler_triple [OF assms(1)]], rule triple_seq_Cons [OF scope])
      (rule triple_sound [OF assms(2)])
  show "triple parse_halts (here ((1, fty, {}) # (d, ty, J') # fs) cls toks l) (act_bind curr_from_sub_compiler emit_closure)
      (\<lambda>_. here ((d, ty, J') # fs) cls toks l)"
    by (rule triple_bind [OF curr_from_sub_compiler_triple [OF assms(1)]])
      (rule triple_forget [OF emit_closure_sound [OF assms(1)]])
qed

lemma parse_function_sound [grammar_sound]:
  "rec_ok C \<Longrightarrow> 1 \<le> l \<Longrightarrow> ps (here ((d, ty, J) # fs) cls toks l) (parse_function C fty)"
  unfolding parse_function_def
  by (rule sub_function_sound, assumption) (intro sound_intros parse_sound grammar_sound halts)

lemma parse_fn_declaration_sound [grammar_sound]:
  "rec_ok C \<Longrightarrow> 1 \<le> l \<Longrightarrow> ps (here ((d, ty, J) # fs) cls toks l) (parse_fn_declaration C)"
  unfolding parse_fn_declaration_def by (intro sound_intros parse_sound grammar_sound)

lemma parse_var_sound [grammar_sound]:
  "rec_ok C \<Longrightarrow> 1 \<le> l \<Longrightarrow> ps (here ((d, ty, J) # fs) cls toks l) (parse_var C)"
  unfolding parse_var_def by (intro sound_intros parse_sound grammar_sound halts)

lemma parse_var_declaration_sound [grammar_sound]:
  "rec_ok C \<Longrightarrow> 1 \<le> l \<Longrightarrow> ps (here ((d, ty, J) # fs) cls toks l) (parse_var_declaration C)"
  unfolding parse_var_declaration_def by (intro sound_intros parse_sound grammar_sound halts)

lemma argument_loop_sound:
  "rec_ok C \<Longrightarrow> 1 \<le> l \<Longrightarrow> ps (here ((d, ty, J) # fs) cls toks l) (argument_loop n C k)"
  by (induction n arbitrary: k) (auto intro!: sound_intros parse_sound grammar_sound sound_halt
      simp del: act_seq.simps)

lemma parse_argument_list_sound [grammar_sound]:
  "rec_ok C \<Longrightarrow> 1 \<le> l \<Longrightarrow> ps (here ((d, ty, J) # fs) cls toks l) (parse_argument_list C)"
  unfolding parse_argument_list_def by (intro sound_intros parse_sound argument_loop_sound)

lemma vector_loop_sound:
  "rec_ok C \<Longrightarrow> 1 \<le> l \<Longrightarrow> ps (here ((d, ty, J) # fs) cls toks l) (vector_loop n C k)"
  by (induction n arbitrary: k) (auto intro!: sound_intros parse_sound grammar_sound sound_halt)

lemma emit_jump_after:
  assumes "1 \<le> l" and "ps (here ((d, ty, J) # fs) cls toks l) m" and "\<And>j. ps (here ((d, ty, insert j J) # fs) cls toks l) (n j)"
  shows "ps (here ((d, ty, J) # fs) cls toks l) (act_then m (act_bind (emit_jump op) n))"
  by (rule sound_then [OF assms(2) emit_jump_then [OF assms(1,3)]])

text \<open>The functions of the table, except those that look at the type of the previous token.\<close>

lemma simple_rules_sound:
  assumes "rec_ok C" and "1 \<le> l" and "f \<notin> {P_unary, P_binary, P_literal, P_compound_assign}"
  shows "ps (here ((d, ty, J) # fs) cls toks l) (parse_rule_fn f C b)"
proof -
  note intros = sound_intros parse_sound grammar_sound
  have jumps: "ps (here ((d, ty, J) # fs) cls toks l) (parse_and C)" "ps (here ((d, ty, J) # fs) cls toks l) (parse_or C)"
    unfolding parse_and_def parse_or_def using assms(1,2)
    by (intro emit_jump_then intros; simp)+
  have ternary: "ps (here ((d, ty, J) # fs) cls toks l) (parse_ternary C)"
    unfolding parse_ternary_def using assms(1,2)
    by (intro emit_jump_then emit_jump_after intros; simp)
  have lambda: "ps (here ((d, ty, J) # fs) cls toks l) (parse_lambda C)"
    unfolding parse_lambda_def parse_lambda_parameter_def
    by (rule sub_function_sound [OF assms(2)]) (intro intros count_parameter_sound halts assms(1,2))
  have super: "ps (here ((d, ty, J) # fs) cls toks l) (parse_super C)" "ps (here ((d, ty, J) # fs) cls toks l) (parse_self C)"
    unfolding parse_super_def parse_self_def parse_identifier_def
    by (intro intros assms(1,2))+
  have vector: "ps (here ((d, ty, J) # fs) cls toks l) (parse_vector C)" "ps (here ((d, ty, J) # fs) cls toks l) (parse_vector_index C b)"
    unfolding parse_vector_def parse_vector_index_def
    by (intro intros vector_loop_sound assms(1,2))+
  have members: "ps (here ((d, ty, J) # fs) cls toks l) (parse_dot C b)" "ps (here ((d, ty, J) # fs) cls toks l) (parse_layer C)"
    "ps (here ((d, ty, J) # fs) cls toks l) (parse_call C)" "ps (here ((d, ty, J) # fs) cls toks l) (parse_grouping C)"
    unfolding parse_dot_def parse_layer_def parse_call_def parse_grouping_def
    by (intro intros assms(1,2))+
  have atoms: "ps (here ((d, ty, J) # fs) cls toks l) parse_i32" "ps (here ((d, ty, J) # fs) cls toks l) parse_i64"
    "ps (here ((d, ty, J) # fs) cls toks l) (parse_f32 C)" "ps (here ((d, ty, J) # fs) cls toks l) (parse_f64 C)"
    "ps (here ((d, ty, J) # fs) cls toks l) parse_string" "ps (here ((d, ty, J) # fs) cls toks l) (parse_identifier C b)"
    unfolding parse_i32_def parse_i64_def parse_f32_def parse_f64_def parse_string_def parse_identifier_def
    by (intro intros assms(1,2))+
  have ops: "ps (here ((d, ty, J) # fs) cls toks l) (parse_operator C p op)" for p op
    unfolding parse_operator_def by (intro intros assms(1,2))
  show ?thesis
    using assms(3) jumps ternary lambda super vector members atoms ops
    by (cases f) (simp_all add: parse_bitwise_and_def parse_bitwise_or_def parse_bitwise_xor_def
        parse_shift_left_def parse_shift_right_def parse_bitwise_not_def)
qed

text \<open>The other four, on the token the table chose them for.\<close>

lemma parse_rule_sound:
  assumes "rec_ok C" and "1 \<le> l"
    and "pr_prefix (get_rule (tk_type t)) = Some f \<or> pr_infix (get_rule (tk_type t)) = Some f \<and> 2 \<le> l"
  shows "triple parse_halts (\<lambda>p. here ((d, ty, J) # fs) cls toks l p \<and> pa_prev p = Some t) (parse_rule_fn f C b)
    (\<lambda>_. here ((d, ty, J) # fs) cls toks l)"
proof (cases "f \<in> {P_unary, P_binary, P_literal, P_compound_assign}")
  case False
  show ?thesis by (rule triple_forget [OF simple_rules_sound [OF assms(1,2) False]])
next
  case True
  note intros = sound_intros parse_sound grammar_sound
  have prev: "triple parse_halts (\<lambda>p. here ((d, ty, J) # fs) cls toks l p \<and> pa_prev p = Some t)
      (act_bind prev_token m) (\<lambda>_. here ((d, ty, J) # fs) cls toks l)"
    if "ps (here ((d, ty, J) # fs) cls toks l) (m t)" for m
    using that by (auto simp: triple_def sound_def prev_token_def act_simps)
  have binary: "binary_op (tk_type t) \<noteq> None" if "f = P_binary"
    using assms(3) that by (cases "tk_type t") (simp_all add: rule_def binary_op_def)
  have unary: "tk_type t = token_not \<or> tk_type t = token_minus" if "f = P_unary"
    using assms(3) that by (cases "tk_type t") (simp_all add: rule_def)
  have literal: "tk_type t = token_false \<or> tk_type t = token_true \<or> tk_type t = token_none" if "f = P_literal"
    using assms(3) that by (cases "tk_type t") (simp_all add: rule_def)
  have compound: "2 \<le> l" if "f = P_compound_assign"
    using assms(3) that by (cases "tk_type t") (simp_all add: rule_def)
  from True consider "f = P_unary" | "f = P_binary" | "f = P_literal" | "f = P_compound_assign" by blast
  then show ?thesis
  proof cases
    case 1
    have "ps (here ((d, ty, J) # fs) cls toks l) (act_seq [precedence C prec_unary,
      if tk_type t = token_not then emit_op op_not else if tk_type t = token_minus then emit_op op_negate
      else act_halt (Panic ''Parser::parse_unary'')])"
      using assms(1,2) unary [OF 1] by (auto intro!: intros)
    with 1 show ?thesis by (simp add: parse_unary_def prev)
  next
    case 2
    from binary [OF 2] obtain op where "binary_op (tk_type t) = Some op" by blast
    with assms(1,2) have "ps (here ((d, ty, J) # fs) cls toks l)
       (act_seq [cx_rec C (N_precedence (prec_level (pr_outer (get_rule (tk_type t))) + 1)),
         case binary_op (tk_type t) of Some op \<Rightarrow> emit_op op | None \<Rightarrow> act_halt (Panic ''Parser::parse_unary'')])"
      by (auto intro!: intros rec_sound)
    with 2 show ?thesis by (simp add: parse_binary_def prev)
  next
    case 3
    have "ps (here ((d, ty, J) # fs) cls toks l) (if tk_type t = token_false then emit_op op_false
       else if tk_type t = token_true then emit_op op_true
       else if tk_type t = token_none then emit_op op_none
       else act_halt (Panic ''Parser::parse_literal''))"
      using assms(1,2) literal [OF 3] by (auto intro!: intros)
    with 3 show ?thesis by (simp add: parse_literal_def prev)
  next
    case 4
    have "ps (here ((d, ty, J) # fs) cls toks l) (parse_compound_assign C b)"
      unfolding parse_compound_assign_def
      by (intro intros pprev_token_sound [OF compound [OF 4]] assms(1,2))
    with 4 show ?thesis by (simp add: triple_forget)
  qed
qed

lemma here_level: "here fs cls toks 2 p \<Longrightarrow> here fs cls toks l p"
  by (auto simp: here_def tokens_ok_def)

definition ahead :: "parser \<Rightarrow> bool" where
  "ahead p \<longleftrightarrow> tk_type (hd (pa_curr p)) \<noteq> token_eof"

text \<open>Where there is a previous token or one ahead, moving on leaves a previous token.\<close>

definition next_level :: "nat \<Rightarrow> nat" where
  "next_level l = (if 1 \<le> l then 2 else 1)"

lemma next_level_pos [simp]: "Suc 0 \<le> next_level l"
  by (simp add: next_level_def)

lemma here_next_level: "here fs cls toks (next_level l) p \<Longrightarrow> here fs cls toks (max 1 l) p"
  by (auto simp: next_level_def max_def split: if_splits intro: here_level)

lemma advance_ahead:
  "triple parse_halts (\<lambda>p. here fs cls toks l p \<and> (1 \<le> l \<or> ahead p)) parse_advance
     (\<lambda>r p. case r of None \<Rightarrow> 1 \<le> l \<and> here fs cls toks l p
       | Some t \<Rightarrow> here fs cls toks (next_level l) p \<and> pa_prev p = Some t)"
proof (rule tripleI)
  fix s h
  assume "here fs cls toks l s \<and> (1 \<le> l \<or> ahead s)" and "parse_advance s = Inl h"
  then show "h \<in> parse_halts" using triple_Inl [OF parse_advance_triple] by blast
next
  fix s r s'
  assume s: "here fs cls toks l s \<and> (1 \<le> l \<or> ahead s)" and r: "parse_advance s = Inr (r, s')"
  obtain t ts where t: "pa_curr s = t # ts" using here_curr s by blast
  have "r \<noteq> None" if "ahead s"
    using that t r by (auto simp: ahead_def parse_advance_def parse_is_at_end_def act_simps)
  moreover have "case r of None \<Rightarrow> here fs cls toks l s' | Some t \<Rightarrow> here fs cls toks (next_level l) s' \<and> pa_prev s' = Some t"
    using triple_Inr [OF parse_advance_triple, of fs cls toks l s r s'] s r unfolding next_level_def by blast
  ultimately show "case r of None \<Rightarrow> 1 \<le> l \<and> here fs cls toks l s'
       | Some t \<Rightarrow> here fs cls toks (next_level l) s' \<and> pa_prev s' = Some t"
    using s by (auto split: option.splits)
qed

lemma infix_loop_sound:
  assumes "rec_ok C" and "1 \<le> l"
  shows "ps (here ((d, ty, J) # fs) cls toks l) (infix_loop n C outer b)"
  using assms(2)
proof (induction n arbitrary: l)
  case 0
  then show ?case by (simp add: sound_halt)
next
  case (Suc n)
  let ?P = "here ((d, ty, J) # fs) cls toks"
  have none: "triple parse_halts (?P l) (act_then (parse_error_at_prev msg) (act_return False)) (\<lambda>_. ?P l)" for msg
    by (intro triple_sound sound_intros parse_sound)
  have some: "triple parse_halts (\<lambda>p. ?P 2 p \<and> pa_prev p = Some t) (case pr_infix (get_rule (tk_type t)) of
      None \<Rightarrow> act_halt (Undefined ''call of a null function'')
    | Some f \<Rightarrow> act_then (parse_rule_fn f C b) (infix_loop n C outer b)) (\<lambda>_. ?P l)" for t
  proof (cases "pr_infix (get_rule (tk_type t))")
    case None
    then show ?thesis by (simp add: triple_halt)
  next
    case (Some f)
    have "triple parse_halts (\<lambda>p. ?P 2 p \<and> pa_prev p = Some t) (parse_rule_fn f C b) (\<lambda>_. ?P 2)"
      by (rule parse_rule_sound [OF assms(1)]) (simp_all add: Some)
    moreover have "triple parse_halts (?P 2) (infix_loop n C outer b) (\<lambda>_. ?P l)"
      by (rule triple_mono [OF triple_sound [OF Suc.IH]]) (auto intro: here_level)
    ultimately show ?thesis by (simp add: Some triple_then)
  qed
  have "triple parse_halts (?P l) (act_bind parse_advance (\<lambda>r. case r of
         None \<Rightarrow> act_then (parse_error_at_prev ''Expected expression, Found end of file.'') (act_return False)
       | Some t \<Rightarrow> (case pr_infix (get_rule (tk_type t)) of
           None \<Rightarrow> act_halt (Undefined ''call of a null function'')
         | Some f \<Rightarrow> act_then (parse_rule_fn f C b) (infix_loop n C outer b)))) (\<lambda>_. ?P l)"
  proof (rule triple_bind [OF parse_advance_triple], goal_cases)
    case (1 r)
    then show ?case using none some Suc.prems by (cases r) simp_all
  qed
  then show ?case
    unfolding infix_loop.simps
    by (intro sound_bind [OF curr_token_sound] sound_if sound_return sound_triple)
qed

lemma parse_precedence_triple:
  assumes "rec_ok C"
  shows "triple parse_halts (\<lambda>p. here ((d, ty, J) # fs) cls toks l p \<and> (1 \<le> l \<or> ahead p)) (parse_precedence C outer)
    (\<lambda>_. here ((d, ty, J) # fs) cls toks (max 1 l))"
  unfolding parse_precedence_def
proof (rule triple_bind [OF advance_ahead], goal_cases)
  case (1 r)
  let ?P = "here ((d, ty, J) # fs) cls toks"
  have none: "triple parse_halts (\<lambda>p. 1 \<le> l \<and> ?P l p) (parse_error_at_prev msg) (\<lambda>_. ?P (max 1 l))" for msg
    by (rule triple_conseq [OF triple_sound [OF parse_error_at_prev_sound]]) (auto simp: max_def)
  have error: "triple parse_halts (\<lambda>p. ?P (next_level l) p \<and> R p) (parse_error_at_prev msg) (\<lambda>_. ?P (max 1 l))" for msg R
    by (rule triple_conseq [OF triple_sound [OF parse_error_at_prev_sound]])
      (auto intro: here_next_level [unfolded One_nat_def])
  have rest: "ps (?P (next_level l)) (act_if parse_is_at_end (act_return ())
           (act_if (infix_loop (cx_fuel C) C outer can_assign)
             (act_if (if can_assign then parse_match token_assign else act_return False)
               (parse_error_at_curr ''Expected expression, Found assignment operator.'')
               (act_return ()))
             (act_return ())))" for can_assign
    by (intro sound_intros parse_sound infix_loop_sound assms) simp
  have some: "triple parse_halts (\<lambda>p. ?P (next_level l) p \<and> pa_prev p = Some t) (let can_assign = outer \<le> prec_level prec_assign in
         act_then (parse_rule_fn f C can_assign)
         (act_if parse_is_at_end (act_return ())
           (act_if (infix_loop (cx_fuel C) C outer can_assign)
             (act_if (if can_assign then parse_match token_assign else act_return False)
               (parse_error_at_curr ''Expected expression, Found assignment operator.'')
               (act_return ()))
             (act_return ())))) (\<lambda>_. ?P (max 1 l))"
    if "pr_prefix (get_rule (tk_type t)) = Some f" for t f
    unfolding Let_def
    by (rule triple_then [OF parse_rule_sound [OF assms]], simp, simp add: that,
        rule triple_mono [OF triple_sound [OF rest]], rule here_next_level)
  show ?case
  proof (cases r)
    case None
    with none show ?thesis by simp
  next
    case (Some t)
    then show ?thesis using error some by (cases "pr_prefix (get_rule (tk_type t))") simp_all
  qed
qed

lemma parse_precedence_sound:
  "rec_ok C \<Longrightarrow> 1 \<le> l \<Longrightarrow> ps (here ((d, ty, J) # fs) cls toks l) (parse_precedence C n)"
  unfolding sound_def by (rule triple_conseq [OF parse_precedence_triple]) (auto simp: max_def)

subsection \<open>Statements\<close>

lemma parse_expr_statement_sound [grammar_sound]:
  "rec_ok C \<Longrightarrow> 1 \<le> l \<Longrightarrow> ps (here ((d, ty, J) # fs) cls toks l) (parse_expr_statement C)"
  unfolding parse_expr_statement_def by (intro sound_intros parse_sound grammar_sound)

lemma parse_break_statement_sound [grammar_sound]:
  assumes "1 \<le> l"
  shows "ps (here ((d, ty, J) # fs) cls toks l) parse_break_statement"
  unfolding parse_break_statement_def
proof (rule sound_then [OF parse_consume_sound], unfold sound_def, rule triple_this)
  fix c
  let ?P = "here ((d, ty, J) # fs) cls toks l"
  have error: "triple parse_halts (\<lambda>p. ?P p \<and> R p) (parse_error_at_curr msg) (\<lambda>_. ?P)" for R msg
    by (rule triple_forget [OF parse_error_at_curr_sound])
  have jump: "triple parse_halts (\<lambda>p. ?P p \<and> in_loops (i # is) p) (act_bind (emit_jump op_break) (\<lambda>j.
      modify_compiler (\<lambda>c. c\<lparr>co_loops := i\<lparr>lp_end := Some j\<rparr> # is\<rparr>))) (\<lambda>_. ?P)" for i "is"
    by (rule triple_bind [OF triple_keeps [OF emit_jump_triple [OF assms] keeps_emit_jump]], rule triple_modify_where)
      (auto simp: frame_ok_def compiler_ok_def jumps_in_def loop_ends_def)
  show "triple parse_halts (\<lambda>p. ?P p \<and> pa_compilers p = c # tl (pa_compilers p)) (case co_loops c of
       [] \<Rightarrow> parse_error_at_curr ''Break statement must be inside a loop.''
     | l # ls \<Rightarrow>
         if lp_end l = None then act_bind (emit_jump op_break) (\<lambda>i.
           modify_compiler (\<lambda>c. c\<lparr>co_loops := l\<lparr>lp_end := Some i\<rparr> # ls\<rparr>))
         else act_return ()) (\<lambda>_. ?P)"
  proof (cases "co_loops c")
    case Nil
    then show ?thesis by (simp add: error)
  next
    case (Cons i "is")
    have "triple parse_halts (\<lambda>p. ?P p \<and> pa_compilers p = c # tl (pa_compilers p)) (act_bind (emit_jump op_break) (\<lambda>j.
      modify_compiler (\<lambda>c. c\<lparr>co_loops := i\<lparr>lp_end := Some j\<rparr> # is\<rparr>))) (\<lambda>_. ?P)"
      by (rule triple_pre [OF jump [of i "is"]]) (metis Cons in_loops_def list.sel(1) list.distinct(1))
    with Cons show ?thesis by (auto intro: triple_return)
  qed
qed

lemma parse_continue_statement_sound [grammar_sound]:
  "1 \<le> l \<Longrightarrow> ps (here ((d, ty, J) # fs) cls toks l) parse_continue_statement"
  unfolding parse_continue_statement_def by (intro sound_intros parse_sound)

lemma parse_return_statement_sound [grammar_sound]:
  "rec_ok C \<Longrightarrow> 1 \<le> l \<Longrightarrow> ps (here ((d, ty, J) # fs) cls toks l) (parse_return_statement C)"
  unfolding parse_return_statement_def by (intro sound_intros parse_sound grammar_sound)

lemma parse_condition_sound [grammar_sound]:
  "rec_ok C \<Longrightarrow> 1 \<le> l \<Longrightarrow> ps (here ((d, ty, J) # fs) cls toks l) (parse_condition C msg)"
  unfolding parse_condition_def by (intro sound_intros parse_sound grammar_sound)

lemma parse_while_statement_sound [grammar_sound]:
  "rec_ok C \<Longrightarrow> 1 \<le> l \<Longrightarrow> ps (here ((d, ty, J) # fs) cls toks l) (parse_while_statement C)"
  unfolding parse_while_statement_def
  by (intro sound_bind [OF code_count_sound] emit_jump_after sound_intros parse_sound grammar_sound rec_sound; simp)

lemma parse_loop_statement_sound [grammar_sound]:
  "rec_ok C \<Longrightarrow> 1 \<le> l \<Longrightarrow> ps (here ((d, ty, J) # fs) cls toks l) (parse_loop_statement C)"
  unfolding parse_loop_statement_def by (intro sound_intros parse_sound grammar_sound rec_sound)

lemma parse_if_statement_sound [grammar_sound]:
  "rec_ok C \<Longrightarrow> 1 \<le> l \<Longrightarrow> ps (here ((d, ty, J) # fs) cls toks l) (parse_if_statement C)"
  unfolding parse_if_statement_def
  by (intro emit_jump_after sound_intros parse_sound grammar_sound rec_sound; simp)

text \<open>Jumps that stay pending after the scope they were made in.\<close>

lemma jump_chain:
  assumes "1 \<le> l" and "\<And>j. triple parse_halts (here ((d, ty, insert j J) # fs) cls toks l) (m j) Q"
  shows "triple parse_halts (here ((d, ty, J) # fs) cls toks l) (act_bind (emit_jump op) m) Q"
  by (rule triple_bind [OF emit_jump_triple [OF assms(1)] assms(2)])

lemma end_scope_fewer:
  "1 \<le> l \<Longrightarrow> J' \<subseteq> J \<Longrightarrow> triple parse_halts (here ((d + 1, ty, J) # fs) cls toks l) end_scope (\<lambda>_. here ((d, ty, J') # fs) cls toks l)"
  by (rule triple_mono [OF end_scope_triple]) (auto intro: here_fewer_jumps)

lemma parse_for_condition_triple:
  assumes "rec_ok C" and "1 \<le> l"
  shows "triple parse_halts (here ((d, ty, J) # fs) cls toks l) (parse_for_condition C)
    (\<lambda>r. here ((d, ty, set_option r \<union> J) # fs) cls toks l)"
  unfolding parse_for_condition_def
proof (rule triple_act_if [OF triple_sound])
  let ?P = "\<lambda>J. here ((d, ty, J) # fs) cls toks l"
  show "ps (?P J) (act_not (parse_match token_semicolon))" by (intro sound_intros parse_sound)
  show "triple parse_halts (?P J) (act_then (act_seq
         [parse_expression C, parse_consume token_semicolon ''Expected ; after loop condition.''])
         (act_bind (emit_jump op_jump_if_false) (\<lambda>exit_jump. act_then (emit_op op_pop) (act_return (Some exit_jump)))))
       (\<lambda>r. ?P (set_option r \<union> J))"
  proof (rule triple_then_sound, goal_cases)
    case 1
    show ?case by (intro sound_intros parse_sound grammar_sound assms)
  next
    case 2
    show ?case
      by (rule jump_chain [OF assms(2)], rule triple_then_sound [OF emit_op_sound [OF assms(2)]], rule triple_return) simp
  qed
  show "triple parse_halts (?P J) (act_return None) (\<lambda>r. ?P (set_option r \<union> J))" by (rule triple_return) simp
qed

lemma parse_for_increment_sound:
  assumes "rec_ok C" and "1 \<le> l"
  shows "ps (here ((d, ty, J) # fs) cls toks l) (parse_for_increment C i)"
  unfolding parse_for_increment_def
  by (intro emit_jump_then sound_intros parse_sound grammar_sound assms) simp

lemma parse_for_statement_sound [grammar_sound]:
  assumes "rec_ok C" and "1 \<le> l"
  shows "ps (here ((d, ty, J) # fs) cls toks l) (parse_for_statement C)"
  unfolding parse_for_statement_def sound_def
proof (rule triple_then)
  let ?P = "\<lambda>J. here ((d + 1, ty, J) # fs) cls toks l"
  show "triple parse_halts (here ((d, ty, J) # fs) cls toks l)
    (act_seq [begin_scope, parse_consume token_left_paren ''Expected ( after for.'',
        act_if (parse_match token_semicolon) (act_return ())
          (act_if (parse_match token_var) (parse_var_declaration C) (parse_expr_statement C))]) (\<lambda>_. ?P J)"
    by (rule triple_seq_Cons [OF begin_scope_triple], rule triple_sound)
      (intro sound_intros parse_sound grammar_sound assms)
  have exit: "ps (?P (set_option exit \<union> J)) (case exit of None \<Rightarrow> act_return ()
      | Some i \<Rightarrow> act_seq [patch_jump i, emit_op op_pop])" for exit
    by (cases exit) (auto intro!: sound_intros parse_sound assms simp del: act_seq.simps)
  have body: "triple parse_halts (?P (set_option exit \<union> J)) (act_seq [cx_rec C N_statement, emit_loop i,
      case exit of None \<Rightarrow> act_return () | Some i \<Rightarrow> act_seq [patch_jump i, emit_op op_pop], finish_loop, end_scope])
      (\<lambda>_. here ((d, ty, J) # fs) cls toks l)" for exit i
    by (rule triple_seq_sound [OF rec_sound [OF assms]], rule triple_seq_sound [OF emit_loop_sound [OF assms(2)]],
        rule triple_seq_sound [OF exit], rule triple_seq_sound [OF finish_loop_sound],
        rule triple_seq_Cons [OF end_scope_fewer [OF assms(2), where J' = J]], blast, rule triple_seq_Nil, assumption)
  show "triple parse_halts (?P J) (act_bind code_count (\<lambda>loop_start.
      act_bind (parse_for_condition C) (\<lambda>exit_jump.
      act_bind (parse_for_increment C loop_start) (\<lambda>loop_start. act_seq
        [cx_rec C N_statement,
         emit_loop loop_start,
         case exit_jump of None \<Rightarrow> act_return () | Some i \<Rightarrow> act_seq [patch_jump i, emit_op op_pop],
         finish_loop,
         end_scope])))) (\<lambda>_. here ((d, ty, J) # fs) cls toks l)"
    by (rule triple_bind_sound [OF code_count_sound], rule triple_bind [OF parse_for_condition_triple [OF assms]],
        rule triple_bind_sound [OF parse_for_increment_sound [OF assms]], rule body)
qed

subsection \<open>Match\<close>

lemma parse_arm_sound [grammar_sound]:
  "rec_ok C \<Longrightarrow> 1 \<le> l \<Longrightarrow> ps (here ((d, ty, J) # fs) cls toks l) (parse_arm C)"
  unfolding parse_arm_def by (intro sound_intros parse_sound grammar_sound rec_sound)

text \<open>The tokens ahead end with an eof, so a pattern is not read past the end.\<close>

lemma is_enum_pattern_eof: "ends_eof ts \<Longrightarrow> is_enum_pattern ts \<noteq> Inl h"
  by (induction ts rule: is_enum_pattern.induct) (auto simp: ends_eof_def)

lemma count_binds_eof: "ends_eof ts \<Longrightarrow> \<exists>n. count_binds ts = Inr n"
  by (induction ts rule: count_binds.induct) (auto simp: ends_eof_def andThen_Inr_iff split: if_splits)

lemma bind_loop_sound:
  "1 \<le> l \<Longrightarrow> ps (here ((d, ty, J) # fs) cls toks l) (bind_loop n xs)"
  by (induction n arbitrary: xs) (auto intro!: sound_intros parse_sound sound_halt simp del: act_seq.simps)

lemma parse_binds_sound [grammar_sound]:
  assumes "1 \<le> l"
  shows "ps (here ((d, ty, J) # fs) cls toks l) (parse_binds C)"
  unfolding parse_binds_def
proof (rule sound_bind_with)
  fix s h
  assume "here ((d, ty, J) # fs) cls toks l s" and "count_binds (pa_curr s) = Inl h"
  then show "h \<in> parse_halts" using count_binds_eof [of "pa_curr s"] by (auto simp: here_def tokens_ok_def)
next
  fix n
  show "ps (here ((d, ty, J) # fs) cls toks l) (act_bind (bind_loop (cx_fuel C) []) (\<lambda>pattern_index.
       if length pattern_index \<noteq> n then act_halt (Undefined ''pattern_index'')
       else act_seq
         [emit_bytes op_enum_member_bind (of_nat n),
          act_seq (map (\<lambda>i. emit_byte (word_of_int i)) pattern_index),
          parse_consume token_right_paren ''Expected ) after match pattern arguments.'']))"
    by (rule sound_bind [OF bind_loop_sound [OF assms]], rule sound_if, rule sound_halt [OF halts(10)],
        intro sound_seq_Cons sound_seq_Nil sound_seq_map parse_sound assms)
qed

lemma enum_pattern_sound: "ps (here fs cls toks l) (act_with (\<lambda>p. is_enum_pattern (pa_curr p)))"
  by (rule sound_with) (auto simp: here_def tokens_ok_def dest: is_enum_pattern_eof)

lemma parse_pattern_triple:
  assumes "rec_ok C" and "1 \<le> l"
  shows "triple parse_halts (here ((d, ty, J) # fs) cls toks l) (parse_pattern C)
    (\<lambda>j. here ((d, ty, insert j J) # fs) cls toks l)"
  unfolding parse_pattern_def
proof (rule triple_act_if [OF triple_sound [OF enum_pattern_sound]], goal_cases)
  case 1
  show ?case
    by (intro triple_then_sound triple_bind_sound sound_act_ignore sound_act_if sound_seq_Cons sound_seq_Nil jump_chain
        triple_return parse_sound grammar_sound sound_return assms)
next
  case 2
  show ?case
    by (rule triple_then_sound [OF parse_expression_sound [OF assms] emit_jump_triple [OF assms(2)]])
qed

lemma parse_match_member_triple:
  assumes "rec_ok C" and "1 \<le> l"
  shows "triple parse_halts (here ((d, ty, J) # fs) cls toks l) (parse_match_member C)
    (\<lambda>j. here ((d, ty, insert j J) # fs) cls toks l)"
  unfolding parse_match_member_def
proof (rule triple_then [OF begin_scope_triple], rule triple_bind [OF parse_pattern_triple [OF assms]], rule triple_then_sound,
    goal_cases)
  case (1 i)
  show ?case by (intro sound_intros parse_sound grammar_sound assms)
next
  case (2 i)
  show ?case
  proof (rule jump_chain [OF assms(2)])
    fix j
    show "triple parse_halts (here ((d + 1, ty, insert j (insert i J)) # fs) cls toks l)
      (act_then (act_seq [patch_jump i, end_scope]) (act_return j)) (\<lambda>j. here ((d, ty, insert j J) # fs) cls toks l)"
      by (rule triple_then, rule triple_seq_sound [OF patch_jump_sound], simp,
          rule triple_seq_Cons, rule end_scope_fewer [OF assms(2), where J' = "insert j J"], blast,
          rule triple_seq_Nil, assumption, rule triple_return)
  qed
qed

lemma parse_default_triple:
  assumes "rec_ok C" and "1 \<le> l"
  shows "triple parse_halts (here ((d, ty, J) # fs) cls toks l) (parse_default C)
    (\<lambda>j. here ((d, ty, insert j J) # fs) cls toks l)"
  unfolding parse_default_def
proof (rule triple_then)
  show "triple parse_halts (here ((d, ty, J) # fs) cls toks l) (act_seq
       [begin_scope, parse_consume token_fat_arrow ''Expected => after _.'', parse_arm C])
     (\<lambda>_. here ((d + 1, ty, J) # fs) cls toks l)"
    by (rule triple_seq_Cons [OF begin_scope_triple], rule triple_sound) (intro sound_intros parse_sound grammar_sound assms)
  show "triple parse_halts (here ((d + 1, ty, J) # fs) cls toks l) (act_bind (emit_jump op_jump) (\<lambda>end_jump.
      act_then (act_seq [end_scope, act_ignore (parse_match token_comma)]) (act_return end_jump)))
    (\<lambda>j. here ((d, ty, insert j J) # fs) cls toks l)"
    by (rule jump_chain [OF assms(2)], rule triple_then, rule triple_seq_Cons [OF end_scope_triple [OF assms(2)]],
        rule triple_sound, intro sound_intros parse_sound, rule triple_return)
qed

lemma match_loop_triple:
  assumes "rec_ok C" and "1 \<le> l"
  shows "triple parse_halts (here ((d, ty, set stack \<union> J) # fs) cls toks l) (match_loop n C stack)
    (\<lambda>(stack, _). here ((d, ty, set stack \<union> J) # fs) cls toks l)"
proof (induction n arbitrary: stack)
  case 0
  then show ?case by (simp add: triple_halt)
next
  case (Suc n)
  let ?P = "\<lambda>xs. here ((d, ty, set xs \<union> J) # fs) cls toks l"
  let ?Q = "\<lambda>(stack, _ :: bool). ?P stack"
  have default: "triple parse_halts (?P stack) (act_bind (parse_default C) (\<lambda>j. act_return (stack @ [j], True))) ?Q"
    by (rule triple_bind [OF parse_default_triple [OF assms]], rule triple_return) simp
  have member: "triple parse_halts (?P stack) (act_bind (parse_match_member C) (\<lambda>j.
      act_then (act_seq [act_ignore (parse_match token_comma), act_ignore (parse_match token_comma)])
        (if uint8_count \<le> length (stack @ [j]) then act_halt (Panic ''parser::parse_match_statement'')
         else match_loop n C (stack @ [j])))) ?Q"
  proof (rule triple_bind [OF parse_match_member_triple [OF assms]], rule triple_then_sound, goal_cases)
    case (1 j)
    show ?case by (intro sound_intros parse_sound)
  next
    case (2 j)
    show ?case using Suc.IH [of "stack @ [j]"] by (auto intro: triple_if triple_halt)
  qed
  have loop: "triple parse_halts (?P stack) (act_if (parse_match token_underscore)
      (act_bind (parse_default C) (\<lambda>j. act_return (stack @ [j], True)))
      (act_bind (parse_match_member C) (\<lambda>j.
        act_then (act_seq [act_ignore (parse_match token_comma), act_ignore (parse_match token_comma)])
          (if uint8_count \<le> length (stack @ [j]) then act_halt (Panic ''parser::parse_match_statement'')
           else match_loop n C (stack @ [j]))))) ?Q"
    by (rule triple_act_if [OF triple_sound [OF parse_match_sound] default member])
  show ?case
    unfolding match_loop.simps
    by (rule triple_act_if [OF triple_sound [OF check_neither_sound] loop]) (rule triple_return, simp)
qed

lemma parse_match_statement_sound:
  assumes "rec_ok C" and "1 \<le> l"
  shows "ps (here ((d, ty, J) # fs) cls toks l) (parse_match_statement C)"
  unfolding parse_match_statement_def sound_def
proof (rule triple_then)
  let ?P = "\<lambda>J. here ((d + 1, ty, J) # fs) cls toks l"
  show "triple parse_halts (here ((d, ty, J) # fs) cls toks l)
    (act_seq [begin_scope, parse_condition C ''Expected ) after match expression.'']) (\<lambda>_. ?P J)"
    by (rule triple_seq_Cons [OF begin_scope_triple], rule triple_sound) (intro sound_intros parse_sound grammar_sound assms)
  have start: "triple parse_halts (?P (set stack \<union> insert i J)) (if has_default then act_return i
      else act_bind (emit_jump op_jump) (\<lambda>end_jump. act_then (patch_jump i) (act_return end_jump)))
      (\<lambda>start. ?P (insert start (set stack \<union> J)))" for stack i has_default
  proof (rule triple_if)
    show "triple parse_halts (?P (set stack \<union> insert i J)) (act_return i) (\<lambda>start. ?P (insert start (set stack \<union> J)))"
      by (rule triple_return) simp
    show "triple parse_halts (?P (set stack \<union> insert i J))
      (act_bind (emit_jump op_jump) (\<lambda>end_jump. act_then (patch_jump i) (act_return end_jump)))
      (\<lambda>start. ?P (insert start (set stack \<union> J)))"
      by (rule jump_chain [OF assms(2)], rule triple_then_sound [OF patch_jump_sound], simp, rule triple_return)
        (auto intro: here_fewer_jumps)
  qed
  have finish: "triple parse_halts (?P (insert start (set stack \<union> J))) (act_seq
        [patch_jump start,
         act_seq (map patch_jump stack),
         emit_op op_pop,
         parse_consume token_right_brace ''Expected } after match cases.'',
         end_scope]) (\<lambda>_. here ((d, ty, J) # fs) cls toks l)" for start stack
    by (rule triple_seq_sound [OF patch_jump_sound], simp, rule triple_seq_sound [OF sound_seq_map [OF patch_jump_sound]], simp,
        rule triple_seq_sound [OF emit_op_sound [OF assms(2)]], rule triple_seq_sound [OF parse_consume_sound],
        rule triple_seq_Cons [OF end_scope_fewer [OF assms(2), where J' = J]], blast, rule triple_seq_Nil, assumption)
  show "triple parse_halts (?P J) (act_bind (emit_jump op_match) (\<lambda>start.
      act_then (parse_consume token_left_brace ''Expected { after match expression.'')
      (act_bind (match_loop (cx_fuel C) C []) (\<lambda>(stack, has_default).
       act_bind (if has_default then act_return start
                 else act_bind (emit_jump op_jump) (\<lambda>end_jump.
                   act_then (patch_jump start) (act_return end_jump))) (\<lambda>start. act_seq
        [patch_jump start,
         act_seq (map patch_jump stack),
         emit_op op_pop,
         parse_consume token_right_brace ''Expected } after match cases.'',
         end_scope]))))) (\<lambda>_. here ((d, ty, J) # fs) cls toks l)"
  proof (rule jump_chain [OF assms(2)], rule triple_then_sound [OF parse_consume_sound])
    fix i
    have loop: "triple parse_halts (?P (insert i J)) (match_loop (cx_fuel C) C [])
        (\<lambda>(stack, _). ?P (set stack \<union> insert i J))"
      using match_loop_triple [OF assms, of "d + 1" ty "[]" "insert i J"] by simp
    show "triple parse_halts (?P (insert i J)) (act_bind (match_loop (cx_fuel C) C []) (\<lambda>(stack, has_default).
       act_bind (if has_default then act_return i
                 else act_bind (emit_jump op_jump) (\<lambda>end_jump.
                   act_then (patch_jump i) (act_return end_jump))) (\<lambda>start. act_seq
        [patch_jump start,
         act_seq (map patch_jump stack),
         emit_op op_pop,
         parse_consume token_right_brace ''Expected } after match cases.'',
         end_scope]))) (\<lambda>_. here ((d, ty, J) # fs) cls toks l)"
    proof (rule triple_bind [OF loop], goal_cases)
      case (1 x)
      show ?case by (cases x) (simp only: prod.case, rule triple_bind [OF start finish])
    qed
  qed
qed

subsection \<open>Declarations\<close>

lemma declare_type_sound [grammar_sound]:
  "1 \<le> l \<Longrightarrow> ps (here ((d, ty, J) # fs) cls toks l) (declare_type op msg)"
  unfolding declare_type_def by (intro sound_intros parse_sound)

lemma payload_loop_sound:
  assumes "rec_ok C" and "1 \<le> l"
  shows "ps (here ((d, ty, J) # fs) cls toks l) (payload_loop n C k)"
proof (induction n arbitrary: k)
  case 0
  then show ?case by (simp add: sound_halt)
next
  case (Suc n)
  show ?case unfolding payload_loop.simps
    by (intro sound_intros parse_sound grammar_sound sound_halt halts Suc assms)
qed

lemma separate_members_sound [grammar_sound]: "ps (here fs cls toks l) separate_members"
  unfolding separate_members_def by (intro sound_intros parse_sound)

lemma parse_enum_member_sound [grammar_sound]:
  "rec_ok C \<Longrightarrow> 1 \<le> l \<Longrightarrow> ps (here ((d, ty, J) # fs) cls toks l) (parse_enum_member C)"
  unfolding parse_enum_member_def
  by (intro sound_intros parse_sound grammar_sound payload_loop_sound sound_halt halts)

lemma parse_enum_declaration_sound [grammar_sound]:
  "rec_ok C \<Longrightarrow> 1 \<le> l \<Longrightarrow> ps (here ((d, ty, J) # fs) cls toks l) (parse_enum_declaration C)"
  unfolding parse_enum_declaration_def by (intro sound_intros parse_sound grammar_sound halts)

lemma parse_member_sound [grammar_sound]:
  "1 \<le> l \<Longrightarrow> ps (here ((d, ty, J) # fs) cls toks l) (parse_member C)"
  unfolding parse_member_def by (intro sound_intros parse_sound grammar_sound halts)

lemma parse_super_struct_sound [grammar_sound]:
  "rec_ok C \<Longrightarrow> 1 \<le> l \<Longrightarrow> ps (here ((d, ty, J) # fs) cls toks l) (parse_super_struct C name)"
  unfolding parse_super_struct_def by (intro sound_intros parse_sound grammar_sound)

lemma parse_struct_declaration_sound [grammar_sound]:
  "rec_ok C \<Longrightarrow> 1 \<le> l \<Longrightarrow> ps (here ((d, ty, J) # fs) cls toks l) (parse_struct_declaration C)"
  unfolding parse_struct_declaration_def by (intro sound_intros parse_sound grammar_sound halts)

lemma parse_method_sound [grammar_sound]:
  "rec_ok C \<Longrightarrow> 1 \<le> l \<Longrightarrow> ps (here ((d, ty, J) # fs) cls toks l) (parse_method C)"
  unfolding parse_method_def by (intro sound_intros parse_sound grammar_sound)

lemma parse_class_member_sound [grammar_sound]:
  "rec_ok C \<Longrightarrow> 1 \<le> l \<Longrightarrow> ps (here ((d, ty, J) # fs) cls toks l) (parse_class_member C)"
  unfolding parse_class_member_def by (intro sound_intros parse_sound grammar_sound rec_sound)

text \<open>With a superclass, the scope depth is one more until the class is left.\<close>

lemma parse_superclass_triple:
  assumes "rec_ok C" and "1 \<le> l"
  shows "triple parse_halts (here ((d, ty, J) # fs) (b # cls) toks l) (parse_superclass C name)
    (\<lambda>_. here ((d + 1, ty, J) # fs) (True # cls) toks l)"
proof -
  have enter: "triple parse_halts (here ((d, ty, J) # fs) (b # cls) toks l) compile_begin_scope
      (\<lambda>_. here ((d + 1, ty, J) # fs) (b # cls) toks l)"
    using begin_scope_triple by (simp add: begin_scope_def)
  have set: "triple parse_halts (here ((d + 1, ty, J) # fs) (b # cls) toks l) (set_curr_class_superclass True)
      (\<lambda>_. here ((d + 1, ty, J) # fs) (True # cls) toks l)"
    by (rule tripleI) (auto simp: set_curr_class_superclass_def act_simps here_def tokens_ok_def errors_ok_def)
  show ?thesis
    unfolding parse_superclass_def
  proof (intro triple_then_sound triple_bind_sound parse_sound grammar_sound assms, rule triple_seq_sound, goal_cases)
    case (1 super prev)
    show ?case by (intro sound_intros parse_sound)
  next
    case (2 super prev)
    show ?case
      by (rule triple_seq_Cons [OF enter], rule triple_seq_sound [OF add_local_sound],
          rule triple_seq_sound [OF define_variable_sound [OF assms(2)]],
          rule triple_seq_sound [OF parse_named_variable_sound [OF assms]],
          rule triple_seq_sound [OF emit_op_sound [OF assms(2)]],
          rule triple_seq_Cons [OF set], rule triple_seq_Nil, assumption)
  qed
qed

lemma leave_class_triple:
  "triple parse_halts (here ((if b then d + 1 else d, ty, J) # fs) (b # cls) toks l) leave_class
    (\<lambda>_. here ((d, ty, J) # fs) cls toks l)"
  unfolding leave_class_def
proof (rule triple_bind_get)
  fix s
  assume s: "here ((if b then d + 1 else d, ty, J) # fs) (b # cls) toks l s"
  then have cls: "pa_classes s = b # cls" by (simp add: here_def)
  have out: "triple parse_halts (here ((d, ty, J) # fs) (b # cls) toks l) out_curr_class_compiler
      (\<lambda>_. here ((d, ty, J) # fs) cls toks l)"
    by (rule tripleI) (auto simp: out_curr_class_compiler_def act_simps here_def tokens_ok_def errors_ok_def)
  have close: "triple parse_halts (here ((if b then d + 1 else d, ty, J) # fs) (b # cls) toks l)
      (if b then compile_end_scope else act_return ()) (\<lambda>_. here ((d, ty, J) # fs) (b # cls) toks l)"
    using compile_end_scope_triple by (cases b) (simp_all add: triple_return)
  have "triple parse_halts (here ((if b then d + 1 else d, ty, J) # fs) (b # cls) toks l)
      (act_seq [if b then compile_end_scope else act_return (), out_curr_class_compiler])
      (\<lambda>_. here ((d, ty, J) # fs) cls toks l)"
    by (rule triple_seq_Cons [OF close], rule triple_seq_Cons [OF out], rule triple_seq_Nil)
  then show "triple parse_halts (\<lambda>s'. s' = s) (case pa_classes s of
       [] \<Rightarrow> act_halt (Undefined ''null class compiler'')
     | has_superclass # _ \<Rightarrow> act_seq
         [if has_superclass then compile_end_scope else act_return (), out_curr_class_compiler])
     (\<lambda>_. here ((d, ty, J) # fs) cls toks l)"
    unfolding cls list.case by (rule triple_pre) (use s in simp)
qed

lemma parse_class_declaration_sound:
  assumes "rec_ok C" and "1 \<le> l"
  shows "ps (here ((d, ty, J) # fs) cls toks l) (parse_class_declaration C)"
  unfolding parse_class_declaration_def sound_def
proof (rule triple_bind_sound [OF declare_type_sound [OF assms(2)]])
  fix name
  let ?P = "\<lambda>b. here ((if b then d + 1 else d, ty, J) # fs) (b # cls) toks l"
  have into: "triple parse_halts (here ((d, ty, J) # fs) cls toks l) into_curr_class_compiler
      (\<lambda>_. here ((d, ty, J) # fs) (False # cls) toks l)"
    by (rule tripleI) (auto simp: into_curr_class_compiler_def act_simps here_def tokens_ok_def errors_ok_def)
  have super: "triple parse_halts (here ((d, ty, J) # fs) (False # cls) toks l)
      (act_if (parse_match token_colon) (parse_superclass C name) (act_return ())) (\<lambda>_ p. \<exists>b. ?P b p)"
  proof (rule triple_act_if [OF triple_sound [OF parse_match_sound]])
    show "triple parse_halts (here ((d, ty, J) # fs) (False # cls) toks l) (parse_superclass C name) (\<lambda>_ p. \<exists>b. ?P b p)"
      by (rule triple_mono [OF parse_superclass_triple [OF assms]]) (rule exI [of _ True], simp)
    show "triple parse_halts (here ((d, ty, J) # fs) (False # cls) toks l) (act_return ()) (\<lambda>_ p. \<exists>b. ?P b p)"
      by (rule triple_return) (rule exI [of _ False], simp)
  qed
  let ?body = "[parse_named_variable C name False,
        parse_consume token_left_brace ''Expected { before class body.'',
        act_while (cx_fuel C) (check_neither token_right_brace token_eof) (parse_class_member C),
        parse_consume token_right_brace ''Expected } after class body.'',
        emit_op op_pop, leave_class]"
  have body: "triple parse_halts (?P b) (act_seq ?body) (\<lambda>_. here ((d, ty, J) # fs) cls toks l)" for b
    by (rule triple_seq_sound [OF parse_named_variable_sound [OF assms]], rule triple_seq_sound [OF parse_consume_sound],
        rule triple_seq_sound [OF sound_act_while [OF halts(1) check_neither_sound parse_class_member_sound [OF assms]]],
        rule triple_seq_sound [OF parse_consume_sound], rule triple_seq_sound [OF emit_op_sound [OF assms(2)]],
        rule triple_seq_Cons [OF leave_class_triple], rule triple_seq_Nil, assumption)
  have "triple parse_halts (\<lambda>p. \<exists>b. ?P b p) (act_seq ?body) (\<lambda>_. here ((d, ty, J) # fs) cls toks l)"
    using body unfolding triple_def by blast
  then show "triple parse_halts (here ((d, ty, J) # fs) cls toks l) (act_seq (into_curr_class_compiler #
      act_if (parse_match token_colon) (parse_superclass C name) (act_return ()) # ?body)) (\<lambda>_. here ((d, ty, J) # fs) cls toks l)"
    by (rule triple_seq_Cons [OF into triple_seq_Cons [OF super]])
qed

subsection \<open>The first declaration\<close>

text \<open>
  At the start there is no previous token, but one ahead that is not eof: \<open>starting\<close>. A declaration,
  a statement and an expression move on before they look back.
\<close>

definition starting :: "frame list \<Rightarrow> bool list \<Rightarrow> token list \<Rightarrow> nat \<Rightarrow> parser \<Rightarrow> bool" where
  "starting fs cls toks l p \<longleftrightarrow> here fs cls toks l p \<and> (1 \<le> l \<or> ahead p)"

definition starts_ok :: "nonterm \<Rightarrow> unit pact \<Rightarrow> bool" where
  "starts_ok t m \<longleftrightarrow> (t \<noteq> N_class_declaration \<and> t \<noteq> N_match_statement \<longrightarrow>
     (\<forall>d ty J fs cls toks l. triple parse_halts (starting ((d, ty, J) # fs) cls toks l) m
        (\<lambda>_. here ((d, ty, J) # fs) cls toks (max 1 l))))"

lemma match_starting:
  "triple parse_halts (starting fs cls toks l) (parse_match t)
     (\<lambda>b p. if b then here fs cls toks (max 1 l) p else starting fs cls toks l p)"
proof (rule tripleI)
  fix s h
  assume "starting fs cls toks l s" and "parse_match t s = Inl h"
  then show "h \<in> parse_halts" using triple_Inl [OF triple_sound [OF parse_match_sound]] by (auto simp: starting_def)
next
  fix s b s'
  assume s: "starting fs cls toks l s" and r: "parse_match t s = Inr (b, s')"
  show "if b then here fs cls toks (max 1 l) s' else starting fs cls toks l s'"
  proof (cases b)
    case False
    with r have "s' = s" by (auto simp: parse_match_def parse_check_def act_simps andThen_Inr_iff split: if_splits)
    with s False show ?thesis by simp
  next
    case True
    with r obtain x where x: "parse_advance s = Inr (x, s')"
      by (auto simp: parse_match_def parse_check_def act_simps andThen_Inr_iff split: if_splits)
    have "case x of None \<Rightarrow> 1 \<le> l \<and> here fs cls toks l s'
        | Some t \<Rightarrow> here fs cls toks (next_level l) s' \<and> pa_prev s' = Some t"
      by (rule triple_Inr [OF advance_ahead _ x]) (use s in \<open>simp add: starting_def\<close>)
    with True show ?thesis by (cases x) (auto simp: max_def dest: here_next_level split: if_splits)
  qed
qed

lemma match_chain:
  assumes "ps (here fs cls toks (max 1 l)) m"
    and "triple parse_halts (starting fs cls toks l) n (\<lambda>_. here fs cls toks (max 1 l))"
  shows "triple parse_halts (starting fs cls toks l) (act_if (parse_match t) m n) (\<lambda>_. here fs cls toks (max 1 l))"
  by (rule triple_act_if [OF match_starting]) (use assms in \<open>simp_all add: triple_sound\<close>)

lemma level_pos: "1 \<le> max 1 (l :: nat)"
  by simp

lemma parse_statement_starts:
  assumes "rec_ok C" and "\<And>t. starts_ok t (cx_rec C t)"
  shows "starts_ok N_statement (parse_statement C)"
  unfolding starts_ok_def
proof (intro impI allI)
  fix d ty J fs cls toks l
  let ?P = "here ((d, ty, J) # fs) cls toks (max 1 l)"
  have expr: "triple parse_halts (starting ((d, ty, J) # fs) cls toks l) (parse_expr_statement C) (\<lambda>_. ?P)"
    unfolding parse_expr_statement_def parse_expression_def precedence_def
  proof (rule triple_seq_Cons)
    show "triple parse_halts (starting ((d, ty, J) # fs) cls toks l) (cx_rec C (N_precedence (prec_level prec_assign))) (\<lambda>_. ?P)"
      using assms(2) [of "N_precedence (prec_level prec_assign)"] unfolding starts_ok_def by blast
    show "triple parse_halts ?P (act_seq [act_ignore (parse_match token_semicolon), emit_op op_pop]) (\<lambda>_. ?P)"
      by (intro triple_sound sound_intros parse_sound level_pos)
  qed
  have block: "ps ?P (act_seq [begin_scope, parse_block_statement C, end_scope])"
    unfolding sound_def
    by (rule triple_seq_Cons [OF begin_scope_triple],
        rule triple_seq_sound [OF parse_block_statement_sound [OF assms(1) level_pos]],
        rule triple_seq_Cons [OF end_scope_triple [OF level_pos]], rule triple_seq_Nil, assumption)
  show "triple parse_halts (starting ((d, ty, J) # fs) cls toks l) (parse_statement C) (\<lambda>_. ?P)"
    unfolding parse_statement_def
    by (intro match_chain expr block grammar_sound rec_sound assms level_pos)
qed

lemma parse_declaration_starts:
  assumes "rec_ok C" and "\<And>t. starts_ok t (cx_rec C t)"
  shows "starts_ok N_declaration (parse_declaration C)"
  unfolding starts_ok_def
proof (intro impI allI)
  fix d ty J fs cls toks l
  let ?P = "here ((d, ty, J) # fs) cls toks (max 1 l)"
  have stmt: "triple parse_halts (starting ((d, ty, J) # fs) cls toks l) (cx_rec C N_statement) (\<lambda>_. ?P)"
    using assms(2) [of N_statement] unfolding starts_ok_def by blast
  show "triple parse_halts (starting ((d, ty, J) # fs) cls toks l) (parse_declaration C) (\<lambda>_. ?P)"
    unfolding parse_declaration_def
  proof (rule triple_seq_Cons)
    show "triple parse_halts (starting ((d, ty, J) # fs) cls toks l)
      (act_if (parse_match token_class) (cx_rec C N_class_declaration)
        (act_if (parse_match token_struct) (parse_struct_declaration C)
          (act_if (parse_match token_enum) (parse_enum_declaration C)
            (act_if (parse_match token_fn) (parse_fn_declaration C)
              (act_if (parse_match token_var) (parse_var_declaration C) (cx_rec C N_statement)))))) (\<lambda>_. ?P)"
      by (intro match_chain stmt grammar_sound rec_sound assms level_pos)
    show "triple parse_halts ?P (act_seq [act_if (act_get pa_panic_mode) synchronize (act_return ())]) (\<lambda>_. ?P)"
      by (intro triple_sound sound_intros parse_sound level_pos)
  qed
qed

lemma starts_sound:
  assumes "starts_ok t m" and "t \<noteq> N_class_declaration" and "t \<noteq> N_match_statement" and "1 \<le> l"
  shows "ps (here ((d, ty, J) # fs) cls toks l) m"
proof -
  have "triple parse_halts (starting ((d, ty, J) # fs) cls toks l) m (\<lambda>_. here ((d, ty, J) # fs) cls toks (max 1 l))"
    using assms(1-3) unfolding starts_ok_def by blast
  then show ?thesis unfolding sound_def
    by (rule triple_conseq) (use assms(4) in \<open>auto simp: starting_def max_def split: if_splits\<close>)
qed

text \<open>The knot.\<close>

lemma parse_nonterm_ok:
  assumes "rec_ok C" and "\<And>t. starts_ok t (cx_rec C t)"
  shows "starts_ok t (parse_nonterm t C)" and "1 \<le> l \<Longrightarrow> ps (here ((d, ty, J) # fs) cls toks l) (parse_nonterm t C)"
proof -
  show *: "starts_ok t (parse_nonterm t C)"
  proof (cases t)
    case (N_precedence n)
    have "triple parse_halts (starting ((d, ty, J) # fs) cls toks l) (parse_precedence C n)
        (\<lambda>_. here ((d, ty, J) # fs) cls toks (max 1 l))" for d ty J fs cls toks l
      by (rule triple_pre [OF parse_precedence_triple [OF assms(1)]]) (simp add: starting_def)
    with N_precedence show ?thesis by (simp add: starts_ok_def)
  qed (simp_all add: parse_statement_starts parse_declaration_starts assms, simp_all add: starts_ok_def)
  show "1 \<le> l \<Longrightarrow> ps (here ((d, ty, J) # fs) cls toks l) (parse_nonterm t C)"
  proof (cases t)
    case N_class_declaration
    then show "1 \<le> l \<Longrightarrow> ?thesis" by (simp add: parse_class_declaration_sound assms)
  next
    case N_match_statement
    then show "1 \<le> l \<Longrightarrow> ?thesis" by (simp add: parse_match_statement_sound assms)
  qed (use starts_sound [OF *] in simp_all)
qed

lemma parse_fuel_ok:
  "(1 \<le> l \<longrightarrow> ps (here ((d, ty, J) # fs) cls toks l) (parse_fuel n L t)) \<and> starts_ok t (parse_fuel n L t)"
proof (induction n arbitrary: d ty J fs cls toks l t)
  case 0
  then show ?case by (simp add: sound_halt starts_ok_def triple_halt)
next
  case (Suc n)
  let ?C = "\<lparr>cx_libc = L, cx_fuel = n, cx_rec = parse_fuel n L\<rparr>"
  have "rec_ok ?C" "\<And>t. starts_ok t (cx_rec ?C t)" using Suc by (simp_all add: rec_ok_def)
  from parse_nonterm_ok [OF this] show ?case by simp
qed

subsection \<open>The properties of the compiler\<close>

lemma init_here: "ends_eof toks \<Longrightarrow> here [] [] toks 0 (init_parser h toks)"
  by (simp add: here_def tokens_ok_def errors_ok_def init_parser_def)

lemma declarations_triple:
  "triple parse_halts (\<lambda>p. here [(0, type_script, {})] [] toks 0 p \<and> ahead p)
     (act_while n (act_not parse_is_at_end) (parse_fuel k L N_declaration)) (\<lambda>_. here [(0, type_script, {})] [] toks 1)"
proof (cases n)
  case 0
  then show ?thesis by (simp add: triple_halt)
next
  case (Suc m)
  let ?P = "here [(0, type_script, {})] [] toks"
  have decl: "triple parse_halts (starting [(0, type_script, {})] [] toks 0) (parse_fuel k L N_declaration) (\<lambda>_. ?P 1)"
  proof -
    have "starts_ok N_declaration (parse_fuel k L N_declaration)" using parse_fuel_ok by blast
    then have "triple parse_halts (starting [(0, type_script, {})] [] toks 0) (parse_fuel k L N_declaration)
        (\<lambda>_. ?P (max 1 0))"
      unfolding starts_ok_def by blast
    then show ?thesis by simp
  qed
  have loop: "ps (?P 1) (act_while m (act_not parse_is_at_end) (parse_fuel k L N_declaration))"
    using parse_fuel_ok [of 1] by (intro sound_act_while sound_act_not parse_sound) simp_all
  have ahead: "act_not parse_is_at_end p = Inr (True, p)" if "?P 0 p" "ahead p" for p
    using that here_curr [of _ _ _ _ p] by (fastforce simp: parse_is_at_end_def act_simps ahead_def)
  have "triple parse_halts (starting [(0, type_script, {})] [] toks 0)
      (act_then (parse_fuel k L N_declaration) (act_while m (act_not parse_is_at_end) (parse_fuel k L N_declaration))) (\<lambda>_. ?P 1)"
    by (rule triple_then [OF decl triple_sound [OF loop]])
  then show ?thesis
    using ahead by (auto simp: Suc triple_def starting_def act_if_apply)
qed

lemma compile_tokens_triple:
  assumes "ends_eof toks" and "tk_type (hd toks) \<noteq> token_eof"
  shows "case compile_tokens fuel L (init_parser h toks) of
      Inl e \<Rightarrow> e \<in> parse_halts
    | Inr (c, p) \<Rightarrow> here [] [] toks 1 p \<and> frame_ok (0, type_script, {}) c \<and>
        h_objs (pa_heap p) (co_fn_at c) = Some (OFn (co_fn c))"
proof -
  let ?P = "here [(0, type_script, {})] [] toks"
  let ?start = "\<lambda>p. p = init_parser h toks"
  have enter: "triple parse_halts ?start (init_compiler type_script) (\<lambda>c p. here [] [] toks 0 p \<and> ahead p \<and> frame_ok (0, type_script, {}) c)"
    by (rule tripleI) (use assms new_compiler_ok [of type_script] init_here [OF assms(1), of h] in
      \<open>auto simp: init_compiler_def new_fn_def allocate_object_def here_def tokens_ok_def errors_ok_def ahead_def init_parser_def\<close>)
  have push: "triple parse_halts (\<lambda>p. here [] [] toks 0 p \<and> ahead p \<and> frame_ok (0, type_script, {}) c) (push_compiler c)
      (\<lambda>_ p. ?P 0 p \<and> ahead p)" for c
    by (rule tripleI) (auto simp: push_compiler_def act_simps here_def tokens_ok_def errors_ok_def ahead_def)
  have finish: "triple parse_halts (?P 1) curr_from_sub_compiler
      (\<lambda>c p. (here [] [] toks 1 p \<and> frame_ok (0, type_script, {}) c) \<and> h_objs (pa_heap p) (co_fn_at c) = Some (OFn (co_fn c)))"
  proof (rule tripleI)
    fix s e
    assume "?P 1 s" and "curr_from_sub_compiler s = Inl e"
    then show "e \<in> parse_halts" using triple_Inl [OF curr_from_sub_compiler_triple [OF order_refl]] by blast
  next
    fix s c s'
    assume "?P 1 s" and r: "curr_from_sub_compiler s = Inr (c, s')"
    then have "here [] [] toks 1 s' \<and> frame_ok (0, type_script, {}) c"
      by (rule triple_Inr [OF curr_from_sub_compiler_triple [OF order_refl]])
    moreover have "h_objs (pa_heap s') (co_fn_at c) = Some (OFn (co_fn c))"
      using r by (auto simp: curr_from_sub_compiler_def act_simps andThen_Inr_iff)
    ultimately show "(here [] [] toks 1 s' \<and> frame_ok (0, type_script, {}) c) \<and>
      h_objs (pa_heap s') (co_fn_at c) = Some (OFn (co_fn c))" by blast
  qed
  have "triple parse_halts (\<lambda>p. ?P 0 p \<and> ahead p) (parse_tokens fuel L)
      (\<lambda>c p. (here [] [] toks 1 p \<and> frame_ok (0, type_script, {}) c) \<and> h_objs (pa_heap p) (co_fn_at c) = Some (OFn (co_fn c)))"
    unfolding parse_tokens_def
    by (rule triple_then [OF _ finish], rule triple_seq_Cons [OF declarations_triple], rule triple_sound)
      (intro sound_intros parse_sound)
  then have "triple parse_halts ?start (compile_tokens fuel L)
      (\<lambda>c p. (here [] [] toks 1 p \<and> frame_ok (0, type_script, {}) c) \<and> h_objs (pa_heap p) (co_fn_at c) = Some (OFn (co_fn c)))"
    unfolding compile_tokens_def by (intro triple_bind [OF enter] triple_then [OF push])
  from triple_outcome [OF this refl] show ?thesis by (auto split: sum.splits)
qed

end
