(* ===== verification/Joker_Expressions.thy ===== *)
theory Joker_Expressions
  imports Joker_Grammar
begin

text \<open>
  The expression compiler against a reference. A tree of literals, globals, unary and binary operators and
  parentheses, whose operators respect the levels of the rule table, is written as its tokens from
  left to right and compiled to postfix code. \<open>parse_precedence\<close> on the tokens emits that code: the
  climbing over the levels in one pass does what a grammar with one rule per level would do.
\<close>

subsection \<open>Trees, tokens and code\<close>

datatype expr =
    Literal token
  | Unary token expr
  | Binary expr token expr
  | Paren token expr token

primrec expr_tokens :: "expr \<Rightarrow> token list" where
  "expr_tokens (Literal t) = [t]"
| "expr_tokens (Unary t a) = t # expr_tokens a"
| "expr_tokens (Binary a t b) = expr_tokens a @ t # expr_tokens b"
| "expr_tokens (Paren l a r) = l # expr_tokens a @ [r]"

definition token_level :: "token \<Rightarrow> nat" where
  "token_level t = prec_level (pr_level (get_rule (tk_type t)))"

primrec expr_level :: "expr \<Rightarrow> nat" where
  "expr_level (Literal t) = prec_level prec_primary"
| "expr_level (Unary t a) = prec_level prec_unary"
| "expr_level (Binary a t b) = token_level t"
| "expr_level (Paren l a r) = prec_level prec_primary"

text \<open>A binary operator groups to the left: its right operand is of a higher level.\<close>

primrec expr_ok :: "expr \<Rightarrow> bool" where
  "expr_ok (Literal t) = (tk_type t \<in> {token_i32, token_i64, token_true, token_false, token_none} \<or>
     tk_type t = token_identifier \<and> tk_lexeme t \<noteq> [])"
| "expr_ok (Unary t a) = (tk_type t \<in> {token_minus, token_not} \<and> expr_ok a \<and> prec_level prec_unary \<le> expr_level a)"
| "expr_ok (Binary a t b) = (binary_op (tk_type t) \<noteq> None \<and> expr_ok a \<and> expr_ok b \<and>
     token_level t \<le> expr_level a \<and> token_level t < expr_level b)"
| "expr_ok (Paren l a r) = (tk_type l = token_left_paren \<and> tk_type r = token_right_paren \<and> expr_ok a)"

text \<open>The constant of a literal, or the name of a global.\<close>

definition literal_value :: "token \<Rightarrow> jvalue" where
  "literal_value t =
     (if tk_type t = token_identifier then string_value (tk_lexeme t)
      else if tk_type t = token_i32 then VI32 (word_of_int (strtoll (tk_lexeme t)))
      else if tk_type t = token_i64 then VI64 (word_of_int (strtoll (tk_lexeme t)))
      else if tk_type t = token_none then VNone
      else VBool (tk_type t = token_true))"

definition literal_op :: "token \<Rightarrow> op_code" where
  "literal_op t =
     (if tk_type t = token_true then op_true else if tk_type t = token_false then op_false
      else if tk_type t = token_none then op_none
      else if tk_type t = token_identifier then op_get_global else op_constant)"

definition has_constant :: "token \<Rightarrow> bool" where
  "has_constant t \<longleftrightarrow> literal_op t = op_constant \<or> literal_op t = op_get_global"

primrec expr_consts :: "expr \<Rightarrow> jvalue list" where
  "expr_consts (Literal t) = (if has_constant t then [literal_value t] else [])"
| "expr_consts (Unary t a) = expr_consts a"
| "expr_consts (Binary a t b) = expr_consts a @ expr_consts b"
| "expr_consts (Paren l a r) = expr_consts a"

text \<open>The postfix code, the first constant having the index \<open>k\<close>.\<close>

primrec expr_code :: "expr \<Rightarrow> nat \<Rightarrow> u8 list" where
  "expr_code (Literal t) k =
     op_byte (literal_op t) # (if has_constant t then [of_nat k] else [])"
| "expr_code (Unary t a) k =
     expr_code a k @ [op_byte (if tk_type t = token_not then op_not else op_negate)]"
| "expr_code (Binary a t b) k =
     expr_code a k @ expr_code b (k + length (expr_consts a)) @ [op_byte (the (binary_op (tk_type t)))]"
| "expr_code (Paren l a r) k = expr_code a k"

primrec spine :: "expr \<Rightarrow> nat" where
  "spine (Literal t) = 0"
| "spine (Unary t a) = 0"
| "spine (Binary a t b) = Suc (spine a)"
| "spine (Paren l a r) = 0"

lemma spine_length: "spine e < length (expr_tokens e)"
  by (induction e) auto

lemma expr_tokens_Nil [simp]: "expr_tokens e \<noteq> []"
  by (cases e) auto

lemma binary_op_rule:
  assumes "binary_op ty = Some op"
  shows "pr_infix (get_rule ty) = Some P_binary" and "pr_outer (get_rule ty) = pr_level (get_rule ty)"
    and "prec_level (pr_level (get_rule ty)) < prec_level prec_unary"
    and "prec_level prec_assign < prec_level (pr_level (get_rule ty))" and "ty \<noteq> token_eof"
  using assms by (cases ty; simp add: binary_op_def rule_def)+

lemma expr_level_pos: "expr_ok e \<Longrightarrow> prec_level prec_assign < expr_level e"
  by (cases e) (auto simp: token_level_def dest: binary_op_rule(4))

subsection \<open>What a part of the compiler consumes and emits\<close>

abbreviation compiled :: "compiler \<Rightarrow> u8 list" where
  "compiled c \<equiv> chunk_bytes (fn_chunk (co_fn c))"

abbreviation compiled_constants :: "compiler \<Rightarrow> jvalue list" where
  "compiled_constants c \<equiv> va_list (ck_constants (fn_chunk (co_fn c)))"

definition emitted :: "u8 list \<Rightarrow> jvalue list \<Rightarrow> compiler \<Rightarrow> compiler \<Rightarrow> bool" where
  "emitted bs ks c c' \<longleftrightarrow> (\<exists>ck. c' = set_chunk ck c \<and> chunk_wf ck \<and>
     chunk_bytes ck = compiled c @ bs \<and> va_list (ck_constants ck) = compiled_constants c @ ks)"

definition advanced :: "token list \<Rightarrow> u8 list \<Rightarrow> jvalue list \<Rightarrow> parser \<Rightarrow> parser \<Rightarrow> bool" where
  "advanced ts bs ks p p' \<longleftrightarrow>
     pa_curr p = ts @ pa_curr p' \<and> pa_prev p' = (if ts = [] then pa_prev p else Some (last ts)) \<and>
     (\<exists>c cs c'. pa_compilers p = c # cs \<and> pa_compilers p' = c' # cs \<and> emitted bs ks c c') \<and>
     pa_tokens p' = pa_tokens p \<and> pa_had_error p' = pa_had_error p \<and> pa_panic_mode p' = pa_panic_mode p \<and>
     pa_errors p' = pa_errors p \<and> pa_classes p' = pa_classes p \<and> pa_heap p' = pa_heap p"

text \<open>The compiler is in the top-level code, in blocks without locals.\<close>

definition script_level :: "compiler \<Rightarrow> bool" where
  "script_level c \<longleftrightarrow> co_fn_type c = type_script \<and> co_locals c = [first_local type_script] \<and>
     0 \<le> co_scope_depth c \<and> chunk_wf (fn_chunk (co_fn c))"

definition primed :: "parser \<Rightarrow> bool" where
  "primed p \<longleftrightarrow> (\<exists>c. pa_compilers p = [c] \<and> script_level c)"

text \<open>It is outside of every block.\<close>

definition top_level :: "parser \<Rightarrow> bool" where
  "top_level p \<longleftrightarrow> co_scope_depth (hd (pa_compilers p)) = 0"

definition constant_count :: "parser \<Rightarrow> nat" where
  "constant_count p = length (compiled_constants (hd (pa_compilers p)))"

lemma set_chunk_simps [simp]:
  "fn_chunk (co_fn (set_chunk ck c)) = ck" "set_chunk ck' (set_chunk ck c) = set_chunk ck' c"
  "set_chunk (fn_chunk (co_fn c)) c = c"
  "co_fn_type (set_chunk ck c) = co_fn_type c" "co_locals (set_chunk ck c) = co_locals c"
  "co_scope_depth (set_chunk ck c) = co_scope_depth c" "co_fn_at (set_chunk ck c) = co_fn_at c"
  by (simp_all add: set_chunk_def)

lemma emitted_refl: "chunk_wf (fn_chunk (co_fn c)) \<Longrightarrow> emitted [] [] c c"
  unfolding emitted_def by (intro exI [of _ "fn_chunk (co_fn c)"]) simp

lemma emitted_trans: "emitted bs ks c d \<Longrightarrow> emitted cs ls d e \<Longrightarrow> emitted (bs @ cs) (ks @ ls) c e"
  unfolding emitted_def by fastforce

lemma advanced_refl: "primed p \<Longrightarrow> advanced [] [] [] p p"
  unfolding advanced_def primed_def script_level_def using emitted_refl by auto

lemma advanced_trans: "advanced ts bs ks p q \<Longrightarrow> advanced us cs ls q r \<Longrightarrow> advanced (ts @ us) (bs @ cs) (ks @ ls) p r"
  unfolding advanced_def using emitted_trans by auto

lemma advancedD:
  assumes "advanced ts bs ks p p'"
  shows "pa_curr p = ts @ pa_curr p'" and "primed p \<Longrightarrow> primed p'" and "constant_count p' = constant_count p + length ks"
    and "pa_prev p' = (if ts = [] then pa_prev p else Some (last ts))" and "top_level p' \<longleftrightarrow> top_level p"
    and "pa_panic_mode p' = pa_panic_mode p"
  using assms by (auto simp: advanced_def emitted_def primed_def script_level_def constant_count_def top_level_def)

subsection \<open>Moves and emissions\<close>

lemma advance_run:
  assumes "primed p" and "pa_curr p = t # ts" and "tk_type t \<noteq> token_eof"
  obtains p' where "parse_advance p = Inr (Some t, p')" and "advanced [t] [] [] p p'"
proof
  show "parse_advance p = Inr (Some t, p\<lparr>pa_pprev := pa_prev p, pa_prev := Some t, pa_curr := ts\<rparr>)"
    using assms by (simp add: parse_advance_def parse_is_at_end_def act_simps)
  show "advanced [t] [] [] p (p\<lparr>pa_pprev := pa_prev p, pa_prev := Some t, pa_curr := ts\<rparr>)"
    using assms(1,2) emitted_refl by (auto simp: advanced_def primed_def script_level_def)
qed

lemma write_code_run:
  assumes "pa_compilers p = c # cs" and "f (fn_chunk (co_fn c)) = Inr ck"
    and "chunk_wf ck" and "chunk_bytes ck = compiled c @ bs" and "va_list (ck_constants ck) = compiled_constants c @ ks"
  obtains p' where "write_code f p = Inr ((), p')" and "advanced [] bs ks p p'"
proof
  show "write_code f p = Inr ((), p\<lparr>pa_compilers := set_chunk ck c # cs\<rparr>)"
    using assms(1,2) by (simp add: write_code_def curr_chunk_def this_compiler_def modify_compiler_def
        put_compiler_def act_simps)
  show "advanced [] bs ks p (p\<lparr>pa_compilers := set_chunk ck c # cs\<rparr>)"
    using assms by (auto simp: advanced_def emitted_def)
qed

lemma emit_byte_run:
  assumes "primed p" and "pa_prev p = Some t"
  obtains p' where "emit_byte b p = Inr ((), p')" and "advanced [] [b] [] p p'"
proof -
  obtain c where c: "pa_compilers p = [c]" "chunk_wf (fn_chunk (co_fn c))"
    using assms(1) by (auto simp: primed_def script_level_def)
  obtain ck where ck: "write_chunk (fn_chunk (co_fn c)) b (tk_line t) = Inr ck" "chunk_wf ck"
    "chunk_bytes ck = compiled c @ [b]" "ck_constants ck = ck_constants (fn_chunk (co_fn c))"
    using write_chunk_bytes [OF c(2)] by blast
  obtain p' where "write_code (\<lambda>ck. write_chunk ck b (tk_line t)) p = Inr ((), p')" "advanced [] [b] [] p p'"
    by (rule write_code_run [where f = "\<lambda>ck. write_chunk ck b (tk_line t)", OF c(1) ck(1,2,3)]) (use ck(4) in auto)
  with assms(2) show thesis by (intro that [of p']) (simp_all add: emit_byte_def prev_token_def act_simps)
qed

lemma emit_constant_run:
  assumes "primed p" and "pa_prev p = Some t" and "constant_count p < 255"
  obtains p' where "emit_constant v p = Inr ((), p')"
    and "advanced [] [op_byte op_constant, of_nat (constant_count p)] [v] p p'"
proof -
  obtain c where c: "pa_compilers p = [c]" "chunk_wf (fn_chunk (co_fn c))"
    using assms(1) by (auto simp: primed_def script_level_def)
  let ?n = "constant_count p"
  have n: "?n = length (compiled_constants c)" using c(1) by (simp add: constant_count_def)
  obtain ck where ck: "add_constant (fn_chunk (co_fn c)) v = Inr (ck, ?n)" "chunk_wf ck"
    "chunk_bytes ck = compiled c" "va_list (ck_constants ck) = compiled_constants c @ [v]"
    using add_constant_list [OF c(2), of v] assms(3) n by auto
  obtain ck' where ck': "write_bytes ck [op_byte op_constant, of_nat ?n] (tk_line t) = Inr ck'" "chunk_wf ck'"
    "chunk_bytes ck' = compiled c @ [op_byte op_constant, of_nat ?n]" "ck_constants ck' = ck_constants ck"
    using write_bytes_bytes [OF ck(2)] ck(3) by metis
  have w: "write_constant (fn_chunk (co_fn c)) v (tk_line t) = Inr ck'"
    using ck(1) ck'(1) assms(3) by (simp add: write_constant_def del: write_bytes.simps)
  obtain p' where "write_code (\<lambda>ck. write_constant ck v (tk_line t)) p = Inr ((), p')"
      "advanced [] [op_byte op_constant, of_nat ?n] [v] p p'"
    by (rule write_code_run [where f = "\<lambda>ck. write_constant ck v (tk_line t)", OF c(1) w ck'(2,3)]) (use ck(4) ck'(4) in auto)
  with assms(2) show thesis by (intro that [of p']) (simp_all add: emit_constant_def prev_token_def act_simps)
qed

lemma consume_run:
  assumes "primed p" and "pa_curr p = t # ts" and "tk_type t = ty" and "ty \<noteq> token_eof"
  obtains p' where "parse_consume ty msg p = Inr ((), p')" and "advanced [t] [] [] p p'"
proof -
  obtain p' where "parse_advance p = Inr (Some t, p')" "advanced [t] [] [] p p'"
    using advance_run [OF assms(1,2)] assms(3,4) by blast
  with assms(2,3) show thesis
    by (intro that [of p']) (simp_all add: parse_consume_def curr_token_def act_simps)
qed

subsection \<open>Climbing\<close>

abbreviation at_fuel :: "libc \<Rightarrow> nat \<Rightarrow> ctx" where
  "at_fuel L n \<equiv> \<lparr>cx_libc = L, cx_fuel = n, cx_rec = parse_fuel n L\<rparr>"

text \<open>What \<open>parse_precedence\<close> does after an operand, with \<open>m\<close> rounds of its loop left.\<close>

definition climb :: "nat \<Rightarrow> ctx \<Rightarrow> nat \<Rightarrow> unit pact" where
  "climb m C outer =
     act_if (infix_loop m C outer (outer \<le> prec_level prec_assign))
       (act_if (if outer \<le> prec_level prec_assign then parse_match token_assign else act_return False)
         (parse_error_at_curr ''Expected expression, Found assignment operator.'') (act_return ()))
       (act_return ())"

lemma climb_stop:
  assumes "pa_curr p = t # ts" and "token_level t < outer" and "tk_type t \<noteq> token_assign"
  shows "climb (Suc m) C outer p = Inr ((), p)"
  using assms by (simp add: climb_def curr_token_def token_level_def parse_match_def parse_check_def act_simps)

lemma climb_operator:
  assumes "primed p" and "pa_curr p = t # ts" and "binary_op (tk_type t) = Some op" and "outer \<le> token_level t"
    and "\<And>p'. advanced [t] [] [] p p' \<Longrightarrow> \<exists>q. parse_binary C p' = Inr ((), q) \<and> Q p' q"
  obtains p' q where "advanced [t] [] [] p p'" and "Q p' q" and "climb (Suc m) C outer p = climb m C outer q"
proof -
  note r = binary_op_rule [OF assms(3)]
  obtain p' where p': "parse_advance p = Inr (Some t, p')" "advanced [t] [] [] p p'"
    using advance_run [OF assms(1,2) r(5)] by blast
  obtain q where q: "parse_binary C p' = Inr ((), q)" "Q p' q" using assms(5) [OF p'(2)] by blast
  have "climb (Suc m) C outer p = climb m C outer q"
    using assms(2,4) p'(1) q(1) r(1) by (simp add: climb_def curr_token_def token_level_def act_simps)
  with p'(2) q(2) show thesis by (rule that)
qed

lemma parse_precedence_prefix:
  assumes "primed p" and "pa_curr p = t # ts" and "tk_type t \<noteq> token_eof" and "pr_prefix (get_rule (tk_type t)) = Some f"
    and "\<And>p'. advanced [t] [] [] p p' \<Longrightarrow>
      \<exists>q. parse_rule_fn f C (outer \<le> prec_level prec_assign) p' = Inr ((), q) \<and> Q p' q \<and> (\<exists>u us. pa_curr q = u # us \<and> tk_type u \<noteq> token_eof)"
  obtains p' q where "advanced [t] [] [] p p'" and "Q p' q" and "parse_precedence C outer p = climb (cx_fuel C) C outer q"
proof -
  obtain p' where p': "parse_advance p = Inr (Some t, p')" "advanced [t] [] [] p p'"
    using advance_run [OF assms(1-3)] by blast
  obtain q u us where q: "parse_rule_fn f C (outer \<le> prec_level prec_assign) p' = Inr ((), q)" "Q p' q" "pa_curr q = u # us"
    "tk_type u \<noteq> token_eof" using assms(5) [OF p'(2)] by blast
  have "parse_is_at_end q = Inr (False, q)" using q(3,4) by (simp add: parse_is_at_end_def act_simps)
  then have "parse_precedence C outer p = climb (cx_fuel C) C outer q"
    using p'(1) q(1) assms(4) by (simp add: parse_precedence_def climb_def Let_def act_simps)
  with p'(2) q(2) show thesis by (rule that)
qed

definition follows :: "nat \<Rightarrow> token \<Rightarrow> bool" where
  "follows level t \<longleftrightarrow> tk_type t \<noteq> token_eof \<and> tk_type t \<noteq> token_assign \<and>
     token_level t \<le> level \<and> token_level t < prec_level prec_unary"

definition climbs :: "expr \<Rightarrow> bool" where
  "climbs e \<longleftrightarrow> (\<forall>L n outer p t ts. primed p \<longrightarrow> pa_curr p = expr_tokens e @ t # ts \<longrightarrow> follows (expr_level e) t \<longrightarrow>
     outer \<le> expr_level e \<longrightarrow> length (expr_tokens e) \<le> n \<longrightarrow> constant_count p + length (expr_consts e) \<le> 255 \<longrightarrow>
     (\<exists>q. parse_precedence (at_fuel L n) outer p = climb (n - spine e) (at_fuel L n) outer q \<and>
        advanced (expr_tokens e) (expr_code e (constant_count p)) (expr_consts e) p q))"

lemma climbsE:
  assumes "climbs e" and "primed p" and "pa_curr p = expr_tokens e @ t # ts" and "follows (expr_level e) t"
    and "outer \<le> expr_level e" and "length (expr_tokens e) \<le> n" and "constant_count p + length (expr_consts e) \<le> 255"
  obtains q where "parse_precedence (at_fuel L n) outer p = climb (n - spine e) (at_fuel L n) outer q"
    and "advanced (expr_tokens e) (expr_code e (constant_count p)) (expr_consts e) p q"
  using assms unfolding climbs_def by blast

lemma follows_mono: "follows l t \<Longrightarrow> l \<le> l' \<Longrightarrow> follows l' t"
  by (simp add: follows_def)

text \<open>An operand that the next token ends is read as a whole.\<close>

lemma climbs_operand:
  assumes "climbs e" and "primed p" and "pa_curr p = expr_tokens e @ t # ts" and "follows (expr_level e) t"
    and "token_level t < outer" and "outer \<le> expr_level e" and "length (expr_tokens e) < n"
    and "constant_count p + length (expr_consts e) \<le> 255"
  obtains q where "parse_fuel n L (N_precedence outer) p = Inr ((), q)"
    and "advanced (expr_tokens e) (expr_code e (constant_count p)) (expr_consts e) p q"
proof -
  obtain m where n: "n = Suc m" "length (expr_tokens e) \<le> m" using assms(7) by (cases n) auto
  obtain q where q: "parse_precedence (at_fuel L m) outer p = climb (m - spine e) (at_fuel L m) outer q"
    "advanced (expr_tokens e) (expr_code e (constant_count p)) (expr_consts e) p q"
    by (rule climbsE [OF assms(1-4,6) n(2) assms(8)])
  obtain k where k: "m - spine e = Suc k" using n(2) spine_length [of e] by (cases "m - spine e") auto
  have "pa_curr q = t # ts" using advancedD(1) [OF q(2)] assms(3) by simp
  then have "climb (Suc k) (at_fuel L m) outer q = Inr ((), q)"
    using assms(4,5) by (intro climb_stop [of q t ts]) (simp_all add: follows_def)
  with q k n(1) show thesis by (intro that [of q]) simp_all
qed

lemma make_constant_run:
  assumes "primed p" and "constant_count p < 255"
  obtains p' where "make_constant v p = Inr (constant_count p, p')" and "advanced [] [] [v] p p'"
proof -
  obtain c where c: "pa_compilers p = [c]" "script_level c" using assms(1) by (auto simp: primed_def)
  have n: "constant_count p = length (compiled_constants c)" using c(1) by (simp add: constant_count_def)
  obtain ck where ck: "add_constant (fn_chunk (co_fn c)) v = Inr (ck, constant_count p)" "chunk_wf ck"
    "chunk_bytes ck = compiled c" "va_list (ck_constants ck) = compiled_constants c @ [v]"
    using add_constant_list [of "fn_chunk (co_fn c)" v] c(2) assms(2) n by (auto simp: script_level_def)
  show thesis
  proof
    show "make_constant v p = Inr (constant_count p, p\<lparr>pa_compilers := [set_chunk ck c]\<rparr>)"
      using c(1) ck(1) assms(2) by (simp add: make_constant_def curr_chunk_def this_compiler_def modify_compiler_def
          put_compiler_def act_simps UINT16_MAX_def)
    show "advanced [] [] [v] p (p\<lparr>pa_compilers := [set_chunk ck c]\<rparr>)"
      using c(1) ck by (auto simp: advanced_def emitted_def)
  qed
qed

lemma emit_bytes_run:
  assumes "primed p" and "pa_prev p = Some t"
  obtains p' where "emit_bytes op b p = Inr ((), p')" and "advanced [] [op_byte op, b] [] p p'"
proof -
  obtain q where q: "emit_byte (op_byte op) p = Inr ((), q)" "advanced [] [op_byte op] [] p q"
    by (rule emit_byte_run [OF assms])
  have "primed q" "pa_prev q = Some t" using advancedD [OF q(2)] assms by simp_all
  then obtain r where r: "emit_byte b q = Inr ((), r)" "advanced [] [b] [] q r" by (rule emit_byte_run)
  have "emit_bytes op b p = Inr ((), r)" using q(1) r(1) by (simp add: emit_bytes_def emit_op_def act_simps)
  then show thesis using advanced_trans [OF q(2) r(2)] that by simp
qed

text \<open>A name in the top-level code is a global, each use with a constant of its own.\<close>

lemma global_run:
  assumes "primed p" and "pa_prev p = Some t" and "constant_count p < 255" and "tk_lexeme name \<noteq> []"
  obtains q where "resolve_variable name p = Inr ((op_get_global, op_set_global, of_nat (constant_count p)), q)"
    and "advanced [] [] [string_value (tk_lexeme name)] p q"
proof -
  obtain c where c: "pa_compilers p = [c]" "script_level c" using assms(1) by (auto simp: primed_def)
  then have "find_local (co_locals c) name = None"
    using assms(4) by (simp add: script_level_def first_local_def identifiers_equal_def equal_token_iff make_token_def)
  then have "resolve_here name p = Inr (None, p)" "resolve_upvalue_here name p = Inr (None, p)"
    using c(1) by (simp_all add: resolve_here_def resolve_local_def this_compiler_def resolve_upvalue_here_def act_simps)
  moreover obtain q where "make_constant (string_value (tk_lexeme name)) p = Inr (constant_count p, q)"
    "advanced [] [] [string_value (tk_lexeme name)] p q" by (rule make_constant_run [OF assms(1,3)])
  ultimately show thesis
    by (intro that [of q]) (simp_all add: resolve_variable_def identifier_constant_def act_simps)
qed

lemma identifier_run:
  assumes "primed p" and "pa_prev p = Some t" and "pa_curr p = u # us" and "tk_type u \<noteq> token_assign"
    and "constant_count p < 255" and "tk_lexeme t \<noteq> []"
  obtains q where "\<And>b. parse_identifier C b p = Inr ((), q)"
    and "advanced [] [op_byte op_get_global, of_nat (constant_count p)] [string_value (tk_lexeme t)] p q"
proof -
  obtain q where q: "resolve_variable t p = Inr ((op_get_global, op_set_global, of_nat (constant_count p)), q)"
    "advanced [] [] [string_value (tk_lexeme t)] p q" by (rule global_run [OF assms(1,2,5,6)])
  have pq: "primed q" "pa_prev q = Some t" and curr: "pa_curr q = u # us" using advancedD [OF q(2)] assms(1-3) by simp_all
  obtain r where r: "emit_bytes op_get_global (of_nat (constant_count p)) q = Inr ((), r)"
    "advanced [] [op_byte op_get_global, of_nat (constant_count p)] [] q r" by (rule emit_bytes_run [OF pq])
  have "parse_identifier C b p = Inr ((), r)" for b
    using q(1) r(1) curr assms(2,4)
    by (simp add: parse_identifier_def parse_named_variable_def prev_token_def parse_match_def parse_check_def act_simps)
  then show thesis using advanced_trans [OF q(2) r(2)] that by simp
qed

lemma literal_run:
  assumes "primed p" and "pa_prev p = Some t" and "pa_curr p = u # us" and "tk_type u \<noteq> token_assign"
    and "expr_ok (Literal t)" and "constant_count p + length (expr_consts (Literal t)) \<le> 255"
  obtains f q where "pr_prefix (get_rule (tk_type t)) = Some f" and "\<And>b. parse_rule_fn f C b p = Inr ((), q)"
    and "advanced [] (expr_code (Literal t) (constant_count p)) (expr_consts (Literal t)) p q"
proof -
  have prev: "prev_token p = Inr (t, p)" using assms(2) by (simp add: prev_token_def act_simps)
  consider "tk_type t = token_i32 \<or> tk_type t = token_i64" | "tk_type t = token_identifier" "tk_lexeme t \<noteq> []"
    | "tk_type t \<in> {token_true, token_false, token_none}" using assms(5) by auto
  then show thesis
  proof cases
    case 1
    then have op: "literal_op t = op_constant" by (auto simp: literal_op_def)
    then have "constant_count p < 255" using assms(6) by (simp add: has_constant_def)
    from emit_constant_run [OF assms(1,2) this, of "literal_value t"] obtain q
      where q: "emit_constant (literal_value t) p = Inr ((), q)"
        "advanced [] [op_byte op_constant, of_nat (constant_count p)] [literal_value t] p q" by blast
    from 1 show thesis
    proof
      assume "tk_type t = token_i32"
      with q op prev show thesis
        by (intro that [of P_i32 q]) (simp_all add: rule_def parse_i32_def literal_value_def has_constant_def act_simps)
    next
      assume "tk_type t = token_i64"
      with q op prev show thesis
        by (intro that [of P_i64 q]) (simp_all add: rule_def parse_i64_def literal_value_def has_constant_def act_simps)
    qed
  next
    case 2
    then have op: "literal_op t = op_get_global" by (simp add: literal_op_def)
    then have "constant_count p < 255" using assms(6) by (simp add: has_constant_def)
    then obtain q where "\<And>b. parse_identifier C b p = Inr ((), q)"
      "advanced [] [op_byte op_get_global, of_nat (constant_count p)] [string_value (tk_lexeme t)] p q"
      using identifier_run [OF assms(1-4) _ 2(2)] by blast
    with 2 op show thesis
      by (intro that [of P_identifier q]) (simp_all add: rule_def has_constant_def literal_value_def)
  next
    case 3
    obtain q where q: "emit_byte (op_byte (literal_op t)) p = Inr ((), q)" "advanced [] [op_byte (literal_op t)] [] p q"
      using emit_byte_run [OF assms(1,2)] by blast
    with 3 prev show thesis
      by (intro that [of P_literal q])
        (auto simp: rule_def parse_literal_def literal_op_def has_constant_def emit_op_def act_simps split: if_splits)
  qed
qed

lemma climbs_Literal: "expr_ok (Literal t) \<Longrightarrow> climbs (Literal t)"
  unfolding climbs_def
proof (intro allI impI)
  fix L n outer p u us
  assume ok: "expr_ok (Literal t)" and p: "primed p" "pa_curr p = expr_tokens (Literal t) @ u # us"
    and u: "follows (expr_level (Literal t)) u" and k: "constant_count p + length (expr_consts (Literal t)) \<le> 255"
  have ty: "tk_type t \<noteq> token_eof" and curr: "pa_curr p = t # u # us" using ok p(2) by auto
  obtain f where f: "pr_prefix (get_rule (tk_type t)) = Some f" using ok by (auto simp: rule_def)
  let ?code = "expr_code (Literal t) (constant_count p)" and ?ks = "expr_consts (Literal t)"
  have run: "\<exists>q. parse_rule_fn f (at_fuel L n) b p' = Inr ((), q) \<and> advanced [] ?code ?ks p' q \<and>
      (\<exists>u us. pa_curr q = u # us \<and> tk_type u \<noteq> token_eof)" if a: "advanced [t] [] [] p p'" for p' b
  proof -
    have c: "constant_count p' = constant_count p" "pa_prev p' = Some t" "pa_curr p' = u # us"
      and u': "tk_type u \<noteq> token_assign" using advancedD [OF a] curr u by (simp_all add: follows_def)
    obtain f' q where q: "pr_prefix (get_rule (tk_type t)) = Some f'" "\<And>b. parse_rule_fn f' (at_fuel L n) b p' = Inr ((), q)"
      "advanced [] ?code ?ks p' q"
      using literal_run [OF advancedD(2) [OF a p(1)] c(2,3) u' ok, of "at_fuel L n"] k c(1) by metis
    have "pa_curr q = u # us" using advancedD(1) [OF q(3)] c(3) by simp
    with f q u show ?thesis by (auto simp: follows_def simp del: expr_code.simps expr_consts.simps)
  qed
  obtain p' q where "advanced [t] [] [] p p'" "advanced [] ?code ?ks p' q"
    "parse_precedence (at_fuel L n) outer p = climb (cx_fuel (at_fuel L n)) (at_fuel L n) outer q"
    by (rule parse_precedence_prefix [where Q = "advanced [] ?code ?ks", OF p(1) curr ty f run])
  then show "\<exists>q. parse_precedence (at_fuel L n) outer p = climb (n - spine (Literal t)) (at_fuel L n) outer q \<and>
      advanced (expr_tokens (Literal t)) ?code ?ks p q"
    using advanced_trans [of "[t]" "[]" "[]" p p' "[]" ?code ?ks q] by auto
qed

lemma emit_op_run:
  assumes "advanced ts bs ks p p'" and "ts \<noteq> []" and "primed p"
  obtains q where "emit_op op p' = Inr ((), q)" and "advanced ts (bs @ [op_byte op]) ks p q"
proof -
  obtain q where q: "emit_byte (op_byte op) p' = Inr ((), q)" "advanced [] [op_byte op] [] p' q"
    by (rule emit_byte_run [where b = "op_byte op", OF advancedD(2) [OF assms(1,3)], of "last ts"])
      (use advancedD(4) [OF assms(1)] assms(2) in simp_all)
  show thesis
    by (rule that [of q]) (use q advanced_trans [OF assms(1) q(2)] in \<open>simp_all add: emit_op_def\<close>)
qed

lemma climbs_Unary:
  assumes "climbs a" and "expr_ok (Unary t a)"
  shows "climbs (Unary t a)"
  unfolding climbs_def
proof (intro allI impI)
  fix L n outer p u us
  let ?e = "Unary t a"
  assume p: "primed p" "pa_curr p = expr_tokens ?e @ u # us" and u: "follows (expr_level ?e) u"
    and n: "length (expr_tokens ?e) \<le> n" and k: "constant_count p + length (expr_consts ?e) \<le> 255"
  have ty: "tk_type t = token_minus \<or> tk_type t = token_not" and eof: "tk_type t \<noteq> token_eof" using assms(2) by auto
  then have f: "pr_prefix (get_rule (tk_type t)) = Some P_unary" by (auto simp: rule_def)
  have curr: "pa_curr p = t # (expr_tokens a @ u # us)" using p(2) by simp
  have low: "prec_level prec_unary \<le> expr_level a" using assms(2) by simp
  define Q where "Q p' q \<longleftrightarrow> advanced (expr_tokens a) (expr_code ?e (constant_count p)) (expr_consts ?e) p' q" for p' q
  have run: "\<exists>q. parse_rule_fn P_unary (at_fuel L n) b p' = Inr ((), q) \<and> Q p' q \<and>
      (\<exists>u us. pa_curr q = u # us \<and> tk_type u \<noteq> token_eof)" if a: "advanced [t] [] [] p p'" for p' b
  proof -
    note d = advancedD [OF a]
    have c: "pa_curr p' = expr_tokens a @ u # us" using d(1) curr by simp
    obtain q where q: "parse_fuel n L (N_precedence (prec_level prec_unary)) p' = Inr ((), q)"
      "advanced (expr_tokens a) (expr_code a (constant_count p')) (expr_consts a) p' q"
      by (rule climbs_operand [OF assms(1) d(2) [OF p(1)] c follows_mono [OF u], of "prec_level prec_unary" n L])
        (use low u n k d(3) in \<open>auto simp: follows_def\<close>)
    obtain r where r: "emit_op (if tk_type t = token_not then op_not else op_negate) q = Inr ((), r)"
      "advanced (expr_tokens a) (expr_code a (constant_count p') @ [op_byte (if tk_type t = token_not then op_not else op_negate)])
         (expr_consts a) p' r" by (rule emit_op_run [OF q(2) _ d(2) [OF p(1)]]) simp
    have "parse_unary (at_fuel L n) p' = Inr ((), r)"
      using ty d(4) q(1) r(1) by (auto simp: parse_unary_def precedence_def prev_token_def act_simps)
    moreover have "Q p' r" using r(2) d(3) by (simp add: Q_def)
    moreover have "pa_curr r = u # us" using advancedD(1) [OF r(2)] c by simp
    ultimately show ?thesis using u by (auto simp: follows_def)
  qed
  obtain p' q where pq: "advanced [t] [] [] p p'" "Q p' q"
    "parse_precedence (at_fuel L n) outer p = climb (cx_fuel (at_fuel L n)) (at_fuel L n) outer q"
    by (rule parse_precedence_prefix [where Q = Q, OF p(1) curr eof f run])
  have "advanced (expr_tokens ?e) (expr_code ?e (constant_count p)) (expr_consts ?e) p q"
    using advanced_trans [OF pq(1) pq(2) [unfolded Q_def]] by simp
  with pq(3) show "\<exists>q. parse_precedence (at_fuel L n) outer p = climb (n - spine ?e) (at_fuel L n) outer q \<and>
      advanced (expr_tokens ?e) (expr_code ?e (constant_count p)) (expr_consts ?e) p q" by auto
qed

lemma climbs_Paren:
  assumes "climbs a" and "expr_ok (Paren l a r)"
  shows "climbs (Paren l a r)"
  unfolding climbs_def
proof (intro allI impI)
  fix L n outer p u us
  let ?e = "Paren l a r"
  assume p: "primed p" "pa_curr p = expr_tokens ?e @ u # us" and u: "follows (expr_level ?e) u"
    and n: "length (expr_tokens ?e) \<le> n" and k: "constant_count p + length (expr_consts ?e) \<le> 255"
  have ty: "tk_type l = token_left_paren" "tk_type r = token_right_paren" "expr_ok a" using assms(2) by auto
  then have f: "pr_prefix (get_rule (tk_type l)) = Some P_grouping" and eof: "tk_type l \<noteq> token_eof"
    by (auto simp: rule_def)
  have r_level: "token_level r = 0" using ty(2) by (simp add: token_level_def rule_def)
  have curr: "pa_curr p = l # (expr_tokens a @ r # u # us)" using p(2) by simp
  define Q where "Q p' q \<longleftrightarrow> advanced (expr_tokens a @ [r]) (expr_code a (constant_count p)) (expr_consts a) p' q" for p' q
  have run: "\<exists>q. parse_rule_fn P_grouping (at_fuel L n) b p' = Inr ((), q) \<and> Q p' q \<and>
      (\<exists>u us. pa_curr q = u # us \<and> tk_type u \<noteq> token_eof)" if a: "advanced [l] [] [] p p'" for p' b
  proof -
    note d = advancedD [OF a]
    have c: "pa_curr p' = expr_tokens a @ r # u # us" using d(1) curr by simp
    obtain q where q: "parse_fuel n L (N_precedence (prec_level prec_assign)) p' = Inr ((), q)"
      "advanced (expr_tokens a) (expr_code a (constant_count p')) (expr_consts a) p' q"
      by (rule climbs_operand [OF assms(1) d(2) [OF p(1)] c, of "prec_level prec_assign" n L])
        (use expr_level_pos [OF ty(3)] ty(2) r_level n k d(3) in \<open>auto simp: follows_def\<close>)
    have cq: "pa_curr q = r # u # us" using advancedD(1) [OF q(2)] c by simp
    obtain s where s: "parse_consume token_right_paren ''Expected ) after expression.'' q = Inr ((), s)" "advanced [r] [] [] q s"
      by (rule consume_run [OF advancedD(2) [OF q(2) d(2) [OF p(1)]] cq ty(2)]) simp
    have "parse_grouping (at_fuel L n) p' = Inr ((), s)"
      using q(1) s(1) by (simp add: parse_grouping_def parse_expression_def precedence_def act_simps)
    moreover have "Q p' s" using advanced_trans [OF q(2) s(2)] d(3) by (simp add: Q_def)
    moreover have "pa_curr s = u # us" using advancedD(1) [OF s(2)] cq by simp
    ultimately show ?thesis using u by (auto simp: follows_def)
  qed
  obtain p' q where pq: "advanced [l] [] [] p p'" "Q p' q"
    "parse_precedence (at_fuel L n) outer p = climb (cx_fuel (at_fuel L n)) (at_fuel L n) outer q"
    by (rule parse_precedence_prefix [where Q = Q, OF p(1) curr eof f run])
  have "advanced (expr_tokens ?e) (expr_code ?e (constant_count p)) (expr_consts ?e) p q"
    using advanced_trans [OF pq(1) pq(2) [unfolded Q_def]] by simp
  with pq(3) show "\<exists>q. parse_precedence (at_fuel L n) outer p = climb (n - spine ?e) (at_fuel L n) outer q \<and>
      advanced (expr_tokens ?e) (expr_code ?e (constant_count p)) (expr_consts ?e) p q" by auto
qed

lemma climbs_Binary:
  assumes "climbs a" and "climbs b" and "expr_ok (Binary a t b)"
  shows "climbs (Binary a t b)"
  unfolding climbs_def
proof (intro allI impI)
  fix L n outer p u us
  let ?e = "Binary a t b" and ?C = "at_fuel L n"
  assume p: "primed p" "pa_curr p = expr_tokens ?e @ u # us" and u: "follows (expr_level ?e) u"
    and outer: "outer \<le> expr_level ?e" and n: "length (expr_tokens ?e) \<le> n"
    and k: "constant_count p + length (expr_consts ?e) \<le> 255"
  obtain op where op: "binary_op (tk_type t) = Some op" using assms(3) by auto
  note rl = binary_op_rule [OF op]
  have levels: "token_level t \<le> expr_level a" "token_level t < expr_level b" using assms(3) by auto
  have t: "follows (expr_level a) t"
    using rl levels(1) op by (auto simp: follows_def token_level_def binary_op_def)
  have curr: "pa_curr p = expr_tokens a @ t # (expr_tokens b @ u # us)" using p(2) by simp
  obtain q where q: "parse_precedence ?C outer p = climb (n - spine a) ?C outer q"
    "advanced (expr_tokens a) (expr_code a (constant_count p)) (expr_consts a) p q"
    by (rule climbsE [OF assms(1) p(1) curr t, of outer n L]) (use outer levels(1) n k in simp_all)
  obtain m where m: "n - spine a = Suc m" "n - spine ?e = m"
    using n spine_length [of a] by (cases "n - spine a") auto
  note dq = advancedD [OF q(2)]
  let ?bs = "expr_code b (constant_count p + length (expr_consts a)) @ [op_byte op]"
  define Q where "Q p' r \<longleftrightarrow> advanced (expr_tokens b) ?bs (expr_consts b) p' r" for p' r
  have run: "\<exists>r. parse_binary ?C p' = Inr ((), r) \<and> Q p' r" if a: "advanced [t] [] [] q p'" for p'
  proof -
    note d = advancedD [OF a]
    have c: "pa_curr p' = expr_tokens b @ u # us" using d(1) dq(1) curr by simp
    obtain r where r: "parse_fuel n L (N_precedence (Suc (token_level t))) p' = Inr ((), r)"
      "advanced (expr_tokens b) (expr_code b (constant_count p')) (expr_consts b) p' r"
      by (rule climbs_operand [OF assms(2) d(2) [OF dq(2) [OF p(1)]] c follows_mono [OF u], of "Suc (token_level t)" n L])
        (use levels u n k d(3) dq(3) in \<open>auto simp: follows_def\<close>)
    obtain s where s: "emit_op op r = Inr ((), s)" "advanced (expr_tokens b) (expr_code b (constant_count p') @ [op_byte op]) (expr_consts b) p' s"
      by (rule emit_op_run [OF r(2) _ d(2) [OF dq(2) [OF p(1)]]]) simp
    have "parse_binary ?C p' = Inr ((), s)"
      using op rl(2) d(4) r(1) s(1) by (simp add: parse_binary_def prev_token_def token_level_def act_simps)
    moreover have "Q p' s" using s(2) d(3) dq(3) by (simp add: Q_def)
    ultimately show ?thesis by blast
  qed
  have cq: "pa_curr q = t # (expr_tokens b @ u # us)" using dq(1) curr by simp
  have "outer \<le> token_level t" using outer by simp
  then obtain p' r where pr: "advanced [t] [] [] q p'" "Q p' r" "climb (Suc m) ?C outer q = climb m ?C outer r"
    by (rule climb_operator [where Q = Q, OF dq(2) [OF p(1)] cq op _ run])
  have "advanced (expr_tokens ?e) (expr_code ?e (constant_count p)) (expr_consts ?e) p r"
    using advanced_trans [OF advanced_trans [OF q(2) pr(1)] pr(2) [unfolded Q_def]] op by simp
  with q(1) pr(3) m show "\<exists>q. parse_precedence ?C outer p = climb (n - spine ?e) ?C outer q \<and>
      advanced (expr_tokens ?e) (expr_code ?e (constant_count p)) (expr_consts ?e) p q" by auto
qed

lemma climbs_all: "expr_ok e \<Longrightarrow> climbs e"
proof (induction e)
  case (Unary t a)
  then show ?case by (intro climbs_Unary) auto
next
  case (Binary a t b)
  then show ?case by (intro climbs_Binary) auto
next
  case (Paren l a r)
  then show ?case by (intro climbs_Paren) auto
qed (rule climbs_Literal)

subsection \<open>Programs of global variables\<close>

text \<open>\<open>var x = e;\<close> with the five parts as written.\<close>

datatype global_decl = Declare token token token expr token

primrec decl_tokens :: "global_decl \<Rightarrow> token list" where
  "decl_tokens (Declare v x a e s) = v # x # a # expr_tokens e @ [s]"

primrec decl_ok :: "global_decl \<Rightarrow> bool" where
  "decl_ok (Declare v x a e s) = (tk_type v = token_var \<and> tk_type x = token_identifier \<and>
     tk_type a = token_assign \<and> expr_ok e \<and> tk_type s = token_semicolon)"

primrec decl_consts :: "global_decl \<Rightarrow> jvalue list" where
  "decl_consts (Declare v x a e s) = string_value (tk_lexeme x) # expr_consts e"

primrec decl_code :: "global_decl \<Rightarrow> nat \<Rightarrow> u8 list" where
  "decl_code (Declare v x a e s) k = expr_code e (Suc k) @ [op_byte op_define_global, of_nat k]"

primrec program_code :: "global_decl list \<Rightarrow> nat \<Rightarrow> u8 list" where
  "program_code [] k = []"
| "program_code (d # ds) k = decl_code d k @ program_code ds (k + length (decl_consts d))"

abbreviation program_tokens :: "global_decl list \<Rightarrow> token list" where
  "program_tokens ds \<equiv> concat (map decl_tokens ds)"

abbreviation program_consts :: "global_decl list \<Rightarrow> jvalue list" where
  "program_consts ds \<equiv> concat (map decl_consts ds)"

lemma parse_match_other: "pa_curr p = t # ts \<Longrightarrow> tk_type t \<noteq> ty \<Longrightarrow> parse_match ty p = Inr (False, p)"
  by (simp add: parse_match_def parse_check_def act_simps)

lemma parse_match_run:
  assumes "primed p" and "pa_curr p = t # ts" and "tk_type t = ty" and "ty \<noteq> token_eof"
  obtains q where "parse_match ty p = Inr (True, q)" and "advanced [t] [] [] p q"
proof -
  obtain q where "parse_advance p = Inr (Some t, q)" "advanced [t] [] [] p q"
    using advance_run [OF assms(1,2)] assms(3,4) by blast
  with assms(2,3) show thesis by (intro that [of q]) (simp_all add: parse_match_def parse_check_def act_simps)
qed

text \<open>The compiler does not leave the top level.\<close>

lemma primed_compiler:
  "primed p \<Longrightarrow> top_level p \<Longrightarrow> this_compiler p = Inr (hd (pa_compilers p), p) \<and> co_scope_depth (hd (pa_compilers p)) = 0"
  by (auto simp: primed_def top_level_def this_compiler_def act_simps)

lemma parse_variable_run:
  assumes "primed p" and "pa_curr p = x # ts" and "tk_type x = token_identifier" and "constant_count p < 255"
    and "top_level p"
  obtains q where "parse_variable msg p = Inr (constant_count p, q)"
    and "advanced [x] [] [string_value (tk_lexeme x)] p q"
proof -
  obtain p1 where p1: "parse_consume token_identifier msg p = Inr ((), p1)" "advanced [x] [] [] p p1"
    by (rule consume_run [OF assms(1-3)]) simp
  have pr: "primed p1" "constant_count p1 = constant_count p" "pa_prev p1 = Some x" "top_level p1"
    using advancedD [OF p1(2)] assms(1,5) by simp_all
  obtain q where q: "make_constant (string_value (tk_lexeme x)) p1 = Inr (constant_count p1, q)"
    "advanced [] [] [string_value (tk_lexeme x)] p1 q"
    by (rule make_constant_run [OF pr(1)]) (use pr(2) assms(4) in simp_all)
  have "parse_variable msg p = Inr (constant_count p, q)"
    using p1(1) q(1) pr(2,3) primed_compiler [OF pr(1,4)]
    by (simp add: parse_variable_def prev_token_def declare_variable_def identifier_constant_def act_simps)
  then show thesis using advanced_trans [OF p1(2) q(2)] that by simp
qed

lemma parse_var_run:
  assumes "decl_ok (Declare v x a e s)" and "primed p" and "pa_curr p = x # a # expr_tokens e @ s # ts"
    and "length (expr_tokens e) < n" and "constant_count p + length (decl_consts (Declare v x a e s)) \<le> 255"
    and "top_level p"
  obtains q where "parse_var (at_fuel L n) p = Inr ((), q)"
    and "advanced (x # a # expr_tokens e) (decl_code (Declare v x a e s) (constant_count p))
      (decl_consts (Declare v x a e s)) p q"
proof -
  have ok: "tk_type x = token_identifier" "tk_type a = token_assign" "expr_ok e" "tk_type s = token_semicolon"
    using assms(1) by simp_all
  let ?k = "constant_count p"
  obtain p1 where p1: "parse_variable ''Expected variable name.'' p = Inr (?k, p1)"
    "advanced [x] [] [string_value (tk_lexeme x)] p p1"
    by (rule parse_variable_run [OF assms(2,3) ok(1)]) (use assms(5,6) in simp_all)
  have c1: "primed p1" "constant_count p1 = Suc ?k" "pa_curr p1 = a # expr_tokens e @ s # ts" "top_level p1"
    using advancedD [OF p1(2)] assms(2,3,6) by simp_all
  obtain p2 where p2: "parse_match token_assign p1 = Inr (True, p2)" "advanced [a] [] [] p1 p2"
    by (rule parse_match_run [OF c1(1,3) ok(2)]) simp
  have c2: "primed p2" "constant_count p2 = Suc ?k" "pa_curr p2 = expr_tokens e @ s # ts" "top_level p2"
    using advancedD [OF p2(2)] c1 by simp_all
  have s: "follows (expr_level e) s" "token_level s = 0" "prec_level prec_assign \<le> expr_level e"
    using ok(4) expr_level_pos [OF ok(3)] by (simp_all add: follows_def token_level_def rule_def)
  obtain p3 where p3: "parse_fuel n L (N_precedence (prec_level prec_assign)) p2 = Inr ((), p3)"
    "advanced (expr_tokens e) (expr_code e (Suc ?k)) (expr_consts e) p2 p3"
    by (rule climbs_operand [OF climbs_all [OF ok(3)] c2(1,3) s(1), of "prec_level prec_assign" n L])
      (use s assms(4,5) c2(2) in simp_all)
  have c3: "primed p3" "pa_prev p3 = Some (last (expr_tokens e))" "top_level p3" using advancedD [OF p3(2)] c2 by simp_all
  obtain q where q: "emit_bytes op_define_global (of_nat ?k) p3 = Inr ((), q)"
    "advanced [] [op_byte op_define_global, of_nat ?k] [] p3 q" by (rule emit_bytes_run [OF c3(1,2)])
  have "parse_match token_colon p1 = Inr (False, p1)" using c1(3) ok(2) by (simp add: parse_match_other)
  then have "parse_var (at_fuel L n) p = Inr ((), q)"
    using p1(1) p2(1) p3(1) q(1) primed_compiler [OF c3(1,3)]
    by (simp add: parse_var_def parse_expression_def precedence_def define_variable_def act_simps)
  moreover have "advanced (x # a # expr_tokens e) (decl_code (Declare v x a e s) ?k) (decl_consts (Declare v x a e s)) p q"
    using advanced_trans [OF advanced_trans [OF advanced_trans [OF p1(2) p2(2)] p3(2)] q(2)] by simp
  ultimately show thesis by (rule that)
qed

lemma declaration_run:
  assumes "decl_ok d" and "primed p" and "pa_curr p = decl_tokens d @ ts" and "\<not> pa_panic_mode p"
    and "length (decl_tokens d) \<le> n" and "constant_count p + length (decl_consts d) \<le> 255" and "top_level p"
  obtains q where "parse_fuel n L N_declaration p = Inr ((), q)"
    and "advanced (decl_tokens d) (decl_code d (constant_count p)) (decl_consts d) p q"
proof -
  obtain v x a e s where d: "d = Declare v x a e s" by (cases d)
  have ok: "tk_type v = token_var" "tk_type s = token_semicolon" using assms(1) d by simp_all
  have curr: "pa_curr p = v # (x # a # expr_tokens e @ s # ts)" using assms(3) d by simp
  obtain m where n: "n = Suc (Suc m)" "length (expr_tokens e) < Suc m"
    using assms(5) d by (cases n; cases "n - 1") auto
  let ?C = "at_fuel L (Suc m)"
  obtain p1 where p1: "parse_match token_var p = Inr (True, p1)" "advanced [v] [] [] p p1"
    by (rule parse_match_run [OF assms(2) curr ok(1)]) simp
  have c1: "primed p1" "constant_count p1 = constant_count p" "pa_curr p1 = x # a # expr_tokens e @ s # ts" "top_level p1"
    using advancedD [OF p1(2)] assms(2,7) curr by simp_all
  obtain p2 where p2: "parse_var ?C p1 = Inr ((), p2)"
    "advanced (x # a # expr_tokens e) (decl_code d (constant_count p)) (decl_consts d) p1 p2"
    using parse_var_run [OF assms(1) [unfolded d] c1(1,3) n(2), of L] assms(6) c1(2,4) d by auto
  have c2: "primed p2" "pa_curr p2 = s # ts" using advancedD [OF p2(2)] c1 by simp_all
  obtain q where q: "parse_consume token_semicolon ''Expected ; after variable declaration.'' p2 = Inr ((), q)"
    "advanced [s] [] [] p2 q" by (rule consume_run [OF c2 ok(2)]) simp
  have all: "advanced (decl_tokens d) (decl_code d (constant_count p)) (decl_consts d) p q"
    using advanced_trans [OF advanced_trans [OF p1(2) p2(2)] q(2)] d by simp
  have "parse_match ty p = Inr (False, p)" if "ty \<noteq> token_var" for ty
    using that ok(1) by (intro parse_match_other [OF curr]) simp
  moreover have "parse_match token_comma p2 = Inr (False, p2)" using ok(2) by (intro parse_match_other [OF c2(2)]) simp
  moreover have "\<not> pa_panic_mode q" using all assms(4) by (simp add: advanced_def)
  ultimately have "parse_declaration ?C p = Inr ((), q)"
    using p1(1) p2(1) q(1)
    by (simp add: parse_declaration_def parse_var_declaration_def act_do_while_def act_simps)
  with all n(1) show thesis by (intro that [of q]) simp_all
qed

text \<open>
  The parser \<open>f\<close> reads \<open>ts\<close>, before anything but \<open>else\<close>, to the code \<open>cs\<close> and the constants \<open>ks\<close>;
  \<open>out\<close> says that it has to be outside of every block.
\<close>

definition reads :: "bool \<Rightarrow> unit pact \<Rightarrow> token list \<Rightarrow> (nat \<Rightarrow> u8 list) \<Rightarrow> jvalue list \<Rightarrow> bool" where
  "reads out f ts cs ks \<longleftrightarrow> (\<forall>p us. primed p \<longrightarrow> (out \<longrightarrow> top_level p) \<longrightarrow> \<not> pa_panic_mode p \<longrightarrow> pa_curr p = ts @ us \<longrightarrow> us \<noteq> [] \<longrightarrow>
     tk_type (hd us) \<noteq> token_else \<longrightarrow> constant_count p + length ks \<le> 255 \<longrightarrow>
     (\<exists>q. f p = Inr ((), q) \<and> advanced ts (cs (constant_count p)) ks p q))"

lemma readsE:
  assumes "reads out f ts cs ks" and "primed p" and "out \<longrightarrow> top_level p" and "\<not> pa_panic_mode p" and "pa_curr p = ts @ us"
    and "us \<noteq> []" and "tk_type (hd us) \<noteq> token_else" and "constant_count p + length ks \<le> 255"
  obtains q where "f p = Inr ((), q)" and "advanced ts (cs (constant_count p)) ks p q"
  using assms unfolding reads_def by blast

definition heads :: "token list \<Rightarrow> bool" where
  "heads ts \<longleftrightarrow> ts \<noteq> [] \<and> tk_type (hd ts) \<notin> {token_eof, token_else, token_right_brace}"

text \<open>A list of declarations, given what the parser does with each of them.\<close>

lemma declarations_run:
  assumes "\<forall>d\<in>set ds. reads out f (toks d) (code d) (ks d) \<and> heads (toks d)"
    and "\<And>p t ts. pa_curr p = t # ts \<Longrightarrow> heads (t # ts) \<Longrightarrow> goes p = Inr (True, p)"
    and "\<And>p. pa_curr p = u # us \<Longrightarrow> goes p = Inr (False, p)" and "\<And>k. whole [] k = []" and "\<And>d ds k. whole (d # ds) k = code d k @ whole ds (k + length (ks d))"
    and "tk_type u \<noteq> token_else" and "primed p" and "out \<longrightarrow> top_level p" and "\<not> pa_panic_mode p"
    and "pa_curr p = concat (map toks ds) @ u # us" and "length ds < n"
    and "constant_count p + length (concat (map ks ds)) \<le> 255"
  shows "\<exists>q. act_while n goes f p = Inr ((), q) \<and>
    advanced (concat (map toks ds)) (whole ds (constant_count p)) (concat (map ks ds)) p q"
  using assms(1,7-)
proof (induction ds arbitrary: p n)
  case Nil
  then obtain m where "n = Suc m" by (cases n) auto
  with Nil advanced_refl [OF Nil.prems(2)] assms(3) [of p] assms(4) show ?case by (simp add: act_simps)
next
  case (Cons d ds)
  obtain m where n: "n = Suc m" "length ds < m" using Cons.prems(6) by (cases n) auto
  let ?ts = "concat (map toks ds) @ u # us"
  have curr: "pa_curr p = toks d @ ?ts" using Cons.prems(5) by simp
  have no_else: "tk_type (hd ?ts) \<noteq> token_else" using Cons.prems(1) assms(6) by (cases ds) (auto simp: heads_def)
  have d: "reads out f (toks d) (code d) (ks d)" "constant_count p + length (ks d) \<le> 255" using Cons.prems(1,7) by simp_all
  obtain q where q: "f p = Inr ((), q)" "advanced (toks d) (code d (constant_count p)) (ks d) p q"
    by (rule readsE [OF d(1) Cons.prems(2-4) curr _ no_else d(2)]) simp
  have c: "primed q" "out \<longrightarrow> top_level q" "\<not> pa_panic_mode q" "pa_curr q = ?ts"
    "constant_count q = constant_count p + length (ks d)"
    using advancedD [OF q(2)] Cons.prems(2-4) curr by simp_all
  have "constant_count q + length (concat (map ks ds)) \<le> 255" using c(5) Cons.prems(7) by simp
  then obtain r where r: "act_while m goes f q = Inr ((), r)"
    "advanced (concat (map toks ds)) (whole ds (constant_count q)) (concat (map ks ds)) q r"
    using Cons.IH [OF _ c(1-4) n(2)] Cons.prems(1) by auto
  have "heads (pa_curr p)" using Cons.prems(1) curr by (auto simp: heads_def)
  then have "goes p = Inr (True, p)" using assms(2) [of p] by (cases "pa_curr p") (auto simp: heads_def)
  then have "act_while n goes f p = Inr ((), r)"
    using q(1) r(1) n(1) by (simp add: act_if_apply act_then_apply)
  with advanced_trans [OF q(2) r(2)] c(5) assms(5) show ?case by auto
qed

text \<open>The compilation of a script, given what the loop over its declarations does.\<close>

lemma compile_script:
  assumes "\<And>p. primed p \<Longrightarrow> top_level p \<Longrightarrow> \<not> pa_panic_mode p \<Longrightarrow> pa_curr p = toks @ u # us \<Longrightarrow> constant_count p = 0 \<Longrightarrow>
      \<exists>q. act_while fuel (act_not parse_is_at_end) (parse_fuel fuel L N_declaration) p = Inr ((), q) \<and> advanced toks code ks p q"
    and "toks \<noteq> []" and "tk_type u = token_eof"
  obtains c p where "compile_tokens fuel L (init_parser h (toks @ u # us)) = Inr (c, p)"
    and "pa_heap p = write_obj (h_next h) (OFn (co_fn c)) (snd (new_fn h))" and "co_fn_at c = h_next h"
    and "co_fn c = empty_fn\<lparr>fn_chunk := fn_chunk (co_fn c)\<rparr>" and "chunk_wf (fn_chunk (co_fn c))"
    and "compiled c = code @ [op_byte op_return]" and "compiled_constants c = ks"
    and "pa_errors p = []" and "\<not> pa_had_error p"
proof -
  let ?p = "init_parser h (toks @ u # us)"
  define c0 where "c0 = \<lparr>co_fn_at = h_next h, co_fn = empty_fn, co_fn_type = type_script,
    co_locals = [first_local type_script], co_scope_depth = 0, co_upvalues = [], co_loops = []\<rparr>"
  define p0 where "p0 = ?p\<lparr>pa_heap := snd (new_fn h), pa_compilers := [c0]\<rparr>"
  have c0: "chunk_wf (fn_chunk (co_fn c0))" "compiled c0 = []" "compiled_constants c0 = []"
    using chunk_wf_init by (simp_all add: c0_def empty_fn_def)
  then have p0: "primed p0" "top_level p0" "constant_count p0 = 0" "pa_curr p0 = toks @ u # us" "\<not> pa_panic_mode p0"
    by (simp_all add: p0_def primed_def script_level_def top_level_def constant_count_def init_parser_def, simp_all add: c0_def)
  have start: "compile_tokens fuel L ?p = parse_tokens fuel L p0"
    by (simp add: compile_tokens_def init_compiler_def new_fn_def allocate_object_def push_compiler_def p0_def c0_def
        init_parser_def act_simps)
  obtain q where q: "act_while fuel (act_not parse_is_at_end) (parse_fuel fuel L N_declaration) p0 = Inr ((), q)"
    "advanced toks code ks p0 q" using assms(1) [OF p0(1,2,5,4,3)] by blast
  note d = advancedD [OF q(2)]
  have pq: "primed q" "pa_prev q = Some (last toks)" "pa_curr q = u # us"
    using d(1,2) d(4) [unfolded if_not_P [OF assms(2)]] p0(1,4) by simp_all
  obtain r where r: "emit_byte (op_byte op_return) q = Inr ((), r)" "advanced [] [op_byte op_return] [] q r"
    by (rule emit_byte_run [OF pq(1,2)])
  have all: "advanced toks (code @ [op_byte op_return]) ks p0 r"
    using advanced_trans [OF q(2) r(2)] by simp
  then obtain c where c: "pa_compilers r = [c]" "emitted (code @ [op_byte op_return]) ks c0 c"
    "pa_heap r = snd (new_fn h)" "pa_errors r = []" "\<not> pa_had_error r"
    by (auto simp: advanced_def p0_def init_parser_def)
  let ?p' = "r\<lparr>pa_compilers := [], pa_heap := write_obj (co_fn_at c) (OFn (co_fn c)) (pa_heap r)\<rparr>"
  have "parse_consume token_eof ''Expected end of expression.'' q = Inr ((), q)"
    using pq(3) assms(3) by (simp add: parse_consume_def curr_token_def parse_advance_def parse_is_at_end_def act_simps)
  moreover have "curr_from_sub_compiler q = Inr (c, ?p')"
  proof -
    obtain c1 where "pa_compilers q = [c1]" "co_fn_type c1 = type_script" using pq(1) by (auto simp: primed_def script_level_def)
    with r(1) c(1) show ?thesis
      by (simp add: curr_from_sub_compiler_def emit_return_def this_compiler_def emit_op_def act_simps)
  qed
  ultimately have "compile_tokens fuel L ?p = Inr (c, ?p')"
    using start q(1) by (simp add: parse_tokens_def act_then_apply act_return_apply)
  moreover have "co_fn_at c = h_next h" "chunk_wf (fn_chunk (co_fn c))" "co_fn c = empty_fn\<lparr>fn_chunk := fn_chunk (co_fn c)\<rparr>"
    "compiled c = code @ [op_byte op_return]" "compiled_constants c = ks"
    using c(2) c0 by (auto simp: emitted_def set_chunk_def, auto simp: c0_def)
  ultimately show thesis using c(3-5) by (intro that [of c ?p']) simp_all
qed

lemma reads_decl:
  assumes "decl_ok d" and "length (decl_tokens d) \<le> fuel"
  shows "reads True (parse_fuel fuel L N_declaration) (decl_tokens d) (decl_code d) (decl_consts d)"
  unfolding reads_def
proof (intro allI impI)
  fix p us
  assume p: "primed p" "True \<longrightarrow> top_level p" "\<not> pa_panic_mode p" "pa_curr p = decl_tokens d @ us"
    and k: "constant_count p + length (decl_consts d) \<le> 255"
  from declaration_run [OF assms(1) p(1,4,3) assms(2) k, of L] p(2)
  show "\<exists>q. parse_fuel fuel L N_declaration p = Inr ((), q) \<and>
      advanced (decl_tokens d) (decl_code d (constant_count p)) (decl_consts d) p q" by blast
qed

lemma heads_decl: "decl_ok d \<Longrightarrow> heads (decl_tokens d)"
  by (cases d) (auto simp: heads_def)

lemma concat_length: "x \<in> set xs \<Longrightarrow> length (f x) \<le> length (concat (map f xs))"
  by (induction xs) auto

lemma concat_many: "\<forall>x\<in>set xs. heads (f x) \<Longrightarrow> length xs \<le> length (concat (map f xs))"
proof (induction xs)
  case (Cons x xs)
  then show ?case by (cases "f x") (auto simp: heads_def)
qed simp

text \<open>A whole program compiles to its code, the constants in order, and a return.\<close>

lemma compile_program:
  assumes "list_all decl_ok ds" and "ds \<noteq> []" and "tk_type u = token_eof"
    and "length (program_tokens ds) < fuel" and "length (program_consts ds) \<le> 255"
  obtains c p where "compile_tokens fuel L (init_parser h (program_tokens ds @ u # us)) = Inr (c, p)"
    and "pa_heap p = write_obj (h_next h) (OFn (co_fn c)) (snd (new_fn h))" and "co_fn_at c = h_next h"
    and "co_fn c = empty_fn\<lparr>fn_chunk := fn_chunk (co_fn c)\<rparr>" and "chunk_wf (fn_chunk (co_fn c))"
    and "compiled c = program_code ds 0 @ [op_byte op_return]" and "compiled_constants c = program_consts ds"
    and "pa_errors p = []" and "\<not> pa_had_error p"
proof (rule compile_script [where toks = "program_tokens ds" and code = "program_code ds 0" and ks = "program_consts ds"
      and u = u and us = us and fuel = fuel and L = L and h = h])
  have each: "reads True (parse_fuel fuel L N_declaration) (decl_tokens d) (decl_code d) (decl_consts d) \<and> heads (decl_tokens d)"
    if "d \<in> set ds" for d
    using reads_decl heads_decl concat_length [OF that, of decl_tokens] assms(1,4) that by (auto simp: list_all_iff)
  then have many: "length ds \<le> length (program_tokens ds)" by (simp add: concat_many)
  show "program_tokens ds \<noteq> []" using assms(2) each [of "hd ds"] by (cases ds) (auto simp: heads_def)
  show "\<exists>q. act_while fuel (act_not parse_is_at_end) (parse_fuel fuel L N_declaration) p = Inr ((), q) \<and>
      advanced (program_tokens ds) (program_code ds 0) (program_consts ds) p q"
    if p: "primed p" "top_level p" "\<not> pa_panic_mode p" "pa_curr p = program_tokens ds @ u # us" "constant_count p = 0" for p
    using declarations_run [where ds = ds and out = True and f = "parse_fuel fuel L N_declaration" and toks = decl_tokens
        and code = decl_code and ks = decl_consts and goes = "act_not parse_is_at_end" and u = u and us = us and p = p and n = fuel
        and whole = program_code]
      each many assms(3-5) p
    by (simp add: parse_is_at_end_def heads_def act_simps)
qed (use assms(3) in simp)

end
