(* ===== verification/Joker_Interpret.thy ===== *)
theory Joker_Interpret
  imports Joker_Expressions Joker_Behaviour
begin

text \<open>
  The compiler and the virtual machine together: \<open>interpret\<close> of src/vm.c, the value of an expression,
  and the execution of the code that \<open>Joker_Expressions\<close> shows the compiler emits.
\<close>

subsection \<open>Running code\<close>

text \<open>Frame \<open>fp\<close> is at \<open>ip\<close> of the code \<open>ck\<close>.\<close>

definition running :: "vm \<Rightarrow> nat \<Rightarrow> chunk \<Rightarrow> nat \<Rightarrow> bool" where
  "running vm fp ck ip \<longleftrightarrow> (\<exists>f cl fn. buf_read (vm_frames vm) fp = Inr f \<and> cf_ip f = ip \<and>
     get_closure (vm_heap vm) (cf_closure f) = Inr cl \<and> get_fn (vm_heap vm) (cl_fn cl) = Inr fn \<and> fn_chunk fn = ck)"

text \<open>Nothing but the stack, the globals and the instruction pointer of frame \<open>fp\<close> has changed.\<close>

definition moves :: "nat \<Rightarrow> vm \<Rightarrow> vm \<Rightarrow> bool" where
  "moves fp vm vm' \<longleftrightarrow>
     vm_heap vm' = vm_heap vm \<and> vm_types vm' = vm_types vm \<and> vm_frame_count vm' = vm_frame_count vm \<and>
     vm_open_upv_ptr vm' = vm_open_upv_ptr vm \<and> vm_errors vm' = vm_errors vm \<and> vm_printed vm' = vm_printed vm \<and>
     (\<exists>f i. buf_read (vm_frames vm) fp = Inr f \<and> vm_frames vm' = (vm_frames vm)[fp := Some (f\<lparr>cf_ip := i\<rparr>)])"

lemma buf_read_same: "buf_read b i = Inr x \<Longrightarrow> b[i := Some x] = b"
  by (auto simp: buf_read_def list_update_same_conv split: if_splits option.splits)

lemma buf_read_update: "buf_read b i = Inr x \<Longrightarrow> buf_read (b[i := Some y]) i = Inr y"
  by (auto simp: buf_read_def split: if_splits)

lemma moves_refl: "running vm fp ck ip \<Longrightarrow> moves fp vm vm"
  unfolding moves_def running_def using buf_read_same
  by (metis call_frame.surjective call_frame.update_convs(3) old.unit.exhaust)

lemma moves_trans: "moves fp vm vm' \<Longrightarrow> moves fp vm' vm'' \<Longrightarrow> moves fp vm vm''"
  unfolding moves_def by (auto simp: buf_read_update intro: exI [of _ "cf_ip _"]) blast+

lemma moves_rest: "moves fp vm vm' \<Longrightarrow> same_rest vm' vm'' \<Longrightarrow> moves fp vm vm''"
  unfolding moves_def same_rest_def by auto

lemma running_rest: "running vm fp ck ip \<Longrightarrow> same_rest vm vm' \<Longrightarrow> running vm' fp ck ip"
  unfolding running_def same_rest_def by auto

lemma read_byte_run:
  assumes "running vm fp ck ip" and "chunk_wf ck" and "chunk_bytes ck = bs @ b # cs" and "ip = length bs" and "stack_is vm xs"
  obtains vm' where "read_byte fp vm = Inr (b, vm')" and "running vm' fp ck (Suc ip)" and "moves fp vm vm'"
    and "stack_is vm' xs" and "vm_globals vm' = vm_globals vm"
proof -
  obtain f cl fn where f: "buf_read (vm_frames vm) fp = Inr f" "cf_ip f = ip"
    "get_closure (vm_heap vm) (cf_closure f) = Inr cl" "get_fn (vm_heap vm) (cl_fn cl) = Inr fn" "fn_chunk fn = ck"
    using assms(1) unfolding running_def by blast
  have "ip < ck_count ck" using assms(2-4) by (simp add: chunk_wf_def)
  then have r: "buf_read (ck_code ck) ip = Inr b" using code_read [OF assms(2)] assms(3,4) by simp
  have w: "buf_write (vm_frames vm) fp (f\<lparr>cf_ip := Suc ip\<rparr>) = Inr ((vm_frames vm)[fp := Some (f\<lparr>cf_ip := Suc ip\<rparr>)])"
    using f(1) by (auto simp: buf_write_def buf_read_def split: if_splits)
  let ?vm = "vm\<lparr>vm_frames := (vm_frames vm)[fp := Some (f\<lparr>cf_ip := Suc ip\<rparr>)]\<rparr>"
  have run: "read_byte fp vm = Inr (b, ?vm)"
    using f r w by (simp add: read_byte_def frame_at_def frame_fn_def set_ip_def set_frame_def act_simps)
  show thesis
  proof
    show "read_byte fp vm = Inr (b, ?vm)" by (rule run)
    show "running ?vm fp ck (Suc ip)"
      unfolding running_def using f buf_read_update [OF f(1)] by auto
    show "moves fp vm ?vm" unfolding moves_def using f(1) by auto
    have "machine_ok ?vm" by (rule keepsD [OF keeps_read_byte stack_isD(1) [OF assms(5)] run])
    then show "stack_is ?vm xs" using assms(5) by (simp add: stack_is_def)
  qed simp
qed

lemma constant_at_run:
  assumes "running vm fp ck ip" and "chunk_wf ck" and "i < length (va_list (ck_constants ck))"
  shows "constant_at fp i vm = Inr (va_list (ck_constants ck) ! i, vm)"
proof -
  have "value_at (ck_constants ck) i = Inr (va_list (ck_constants ck) ! i)"
    using assms(2,3) by (intro va.get_law) (simp_all add: chunk_wf_def)
  with assms(1) show ?thesis by (auto simp: running_def constant_at_def frame_at_def frame_fn_def act_simps)
qed

text \<open>The whole of what a piece of straight code depends on: position, stack and globals.\<close>

definition at_point :: "nat \<Rightarrow> chunk \<Rightarrow> nat \<Rightarrow> jvalue list \<Rightarrow> string hashmap \<Rightarrow> vm \<Rightarrow> bool" where
  "at_point fp ck ip xs g vm \<longleftrightarrow> running vm fp ck ip \<and> stack_is vm xs \<and> vm_globals vm = g \<and> hm_wf hash_string g"

definition exec :: "env \<Rightarrow> nat \<Rightarrow> vm \<Rightarrow> vm \<Rightarrow> bool" where
  "exec E fp vm vm' \<longleftrightarrow> steps E (fp, vm) (fp, vm') \<and> moves fp vm vm'"

lemma steps_trans: "steps E (fp, vm) (fp1, vm1) \<Longrightarrow> steps E (fp1, vm1) c \<Longrightarrow> steps E (fp, vm) c"
proof (induction rule: steps_induct)
  case (steps_step fp vm fp' vm1 fp1 vm2)
  then show ?case by (blast intro: steps.steps_step)
qed simp

lemma exec_trans: "exec E fp vm vm' \<Longrightarrow> exec E fp vm' vm'' \<Longrightarrow> exec E fp vm vm''"
  unfolding exec_def using steps_trans moves_trans by blast

lemma exec_refl: "at_point fp ck ip xs g vm \<Longrightarrow> exec E fp vm vm"
  unfolding exec_def at_point_def using steps.steps_refl moves_refl by blast

definition code_at :: "chunk \<Rightarrow> nat \<Rightarrow> u8 list \<Rightarrow> bool" where
  "code_at ck ip bs \<longleftrightarrow> chunk_wf ck \<and> (\<exists>as cs. chunk_bytes ck = as @ bs @ cs \<and> length as = ip)"

lemma code_at_append:
  assumes "code_at ck ip (bs @ cs)"
  shows "code_at ck ip bs" and "code_at ck (ip + length bs) cs"
proof -
  obtain as ds where c: "chunk_wf ck" "chunk_bytes ck = as @ bs @ cs @ ds" "length as = ip"
    using assms by (auto simp: code_at_def)
  then show "code_at ck ip bs" unfolding code_at_def by blast
  have "chunk_bytes ck = (as @ bs) @ cs @ ds" "length (as @ bs) = ip + length bs" using c by simp_all
  with c(1) show "code_at ck (ip + length bs) cs" unfolding code_at_def by blast
qed

lemma code_at_Cons:
  assumes "code_at ck ip (b # bs)"
  shows "code_at ck ip [b]" and "code_at ck (Suc ip) bs"
  using code_at_append [of ck ip "[b]" bs] assms by simp_all

lemma read_byte_at:
  assumes "at_point fp ck ip xs g vm" and "code_at ck ip [b]"
  obtains vm' where "read_byte fp vm = Inr (b, vm')" and "at_point fp ck (Suc ip) xs g vm'" and "moves fp vm vm'"
proof -
  obtain as cs where c: "chunk_wf ck" "chunk_bytes ck = as @ b # cs" "length as = ip"
    using assms(2) by (auto simp: code_at_def)
  obtain vm' where "read_byte fp vm = Inr (b, vm')" "running vm' fp ck (Suc ip)" "moves fp vm vm'"
    "stack_is vm' xs" "vm_globals vm' = vm_globals vm"
    by (rule read_byte_run [OF _ c(1,2), of vm fp ip xs]) (use assms(1) c(3) in \<open>simp_all add: at_point_def\<close>)
  with assms(1) show thesis by (intro that [of vm']) (simp_all add: at_point_def)
qed

text \<open>One instruction that neither calls nor returns.\<close>

lemma step_at:
  assumes "at_point fp ck ip xs g vm" and "code_at ck ip [op_byte op]" and "op \<noteq> op_return" and "\<not> reloads_frame op"
    and "\<And>vm1. at_point fp ck (Suc ip) xs g vm1 \<Longrightarrow> vm_heap vm1 = vm_heap vm \<Longrightarrow>
      \<exists>r vm'. dispatch E op fp vm1 = Inr (r, vm') \<and> at_point fp ck ip' ys g' vm' \<and> moves fp vm1 vm'"
  obtains vm' where "exec E fp vm vm'" and "at_point fp ck ip' ys g' vm'"
proof -
  obtain vm1 where vm1: "read_byte fp vm = Inr (op_byte op, vm1)" "at_point fp ck (Suc ip) xs g vm1" "moves fp vm vm1"
    by (rule read_byte_at [OF assms(1,2)])
  moreover have "vm_heap vm1 = vm_heap vm" using vm1(3) by (simp add: moves_def)
  ultimately obtain r vm' where vm': "dispatch E op fp vm1 = Inr (r, vm')" "at_point fp ck ip' ys g' vm'" "moves fp vm1 vm'"
    using assms(5) by blast
  have "step E fp vm = Inr (Some fp, vm')"
    using vm1(1) vm'(1) assms(3,4) by (simp add: step_def act_simps op_of_byte_op_byte)
  then have "steps E (fp, vm) (fp, vm')" by (blast intro: steps.intros)
  with vm1(3) vm'(2,3) show thesis by (intro that [of vm']) (auto simp: exec_def intro: moves_trans)
qed

lemma at_point_rest:
  assumes "at_point fp ck ip xs g vm" and "same_rest vm vm'" and "stack_is vm' ys"
  shows "at_point fp ck ip ys g vm'" and "moves fp vm vm'"
  using assms running_rest [of vm fp ck ip vm'] moves_rest [OF moves_refl [of vm fp ck ip], of vm']
  by (auto simp: at_point_def same_rest_def)

lemma push_at:
  assumes "at_point fp ck ip xs g vm" and "length xs < constant_stack_max"
  obtains vm' where "push_ok v vm = Inr (interpret_ok, vm')" and "at_point fp ck ip (xs @ [v]) g vm'" and "moves fp vm vm'"
proof -
  have "stack_is vm xs" using assms(1) by (simp add: at_point_def)
  then obtain vm' where vm': "push v vm = Inr ((), vm')" "stack_is vm' (xs @ [v])" "same_rest vm vm'"
    by (rule push_rest [OF _ assms(2)])
  with at_point_rest [OF assms(1) vm'(3,2)] show thesis
    by (intro that [of vm']) (simp_all add: push_ok_def ok_def act_simps)
qed

lemma constant_operand:
  assumes "at_point fp ck ip xs g vm" and "code_at ck ip [of_nat i]" and "i < 256" and "i < length (va_list (ck_constants ck))"
  obtains vm' where "read_constant fp vm = Inr (va_list (ck_constants ck) ! i, vm')"
    and "at_point fp ck (Suc ip) xs g vm'" and "moves fp vm vm'"
proof -
  obtain vm' where vm': "read_byte fp vm = Inr (of_nat i, vm')" "at_point fp ck (Suc ip) xs g vm'" "moves fp vm vm'"
    by (rule read_byte_at [OF assms(1,2)])
  have "unat (of_nat i :: u8) = i" using assms(3) by (simp add: unat_of_nat)
  moreover have "constant_at fp i vm' = Inr (va_list (ck_constants ck) ! i, vm')"
    by (rule constant_at_run [of vm' fp ck "Suc ip"]) (use vm'(2) assms(2,4) in \<open>auto simp: at_point_def code_at_def\<close>)
  ultimately have "read_constant fp vm = Inr (va_list (ck_constants ck) ! i, vm')"
    using vm'(1) by (simp add: read_constant_def act_simps)
  with vm'(2,3) show thesis by (rule that [rotated])
qed

subsection \<open>Jumps\<close>

lemma jump_bytes:
  assumes "0 \<le> j" and "j \<le> UINT16_MAX"
  shows "unat (high_byte j) * 256 + unat (low_byte j) = nat j"
proof -
  have b: "unat (word_of_int i :: u8) = nat (i mod 256)" for i
    by (simp add: unat_eq_nat_uint uint_word_of_int)
  have "j div 256 < 256" "0 \<le> j div 256" using assms by (simp_all add: UINT16_MAX_def)
  then have "nat (j div 256 mod 256) * 256 + nat (j mod 256) = nat j"
    using assms(1) by (simp add: nat_div_distrib nat_mod_distrib)
  then show ?thesis by (simp add: high_byte_def low_byte_def b)
qed

lemma read_short_at:
  assumes "at_point fp ck ip xs g vm" and "code_at ck ip [hi, lo]"
  obtains vm' where "read_short fp vm = Inr (unat hi * 256 + unat lo, vm')" and "at_point fp ck (ip + 2) xs g vm'"
    and "moves fp vm vm'"
proof -
  obtain vm1 where vm1: "read_byte fp vm = Inr (hi, vm1)" "at_point fp ck (Suc ip) xs g vm1" "moves fp vm vm1"
    by (rule read_byte_at [OF assms(1) code_at_Cons(1) [OF assms(2)]])
  obtain vm2 where vm2: "read_byte fp vm1 = Inr (lo, vm2)" "at_point fp ck (Suc (Suc ip)) xs g vm2" "moves fp vm1 vm2"
    by (rule read_byte_at [OF vm1(2) code_at_Cons(2) [OF assms(2)]])
  show thesis
    by (rule that [of vm2]) (use vm1 vm2 moves_trans [OF vm1(3) vm2(3)] in \<open>simp_all add: read_short_def act_simps\<close>)
qed

lemma set_ip_at:
  assumes "at_point fp ck ip xs g vm"
  obtains vm' where "set_ip fp j vm = Inr ((), vm')" and "at_point fp ck j xs g vm'" and "moves fp vm vm'"
proof -
  obtain f cl fn where f: "buf_read (vm_frames vm) fp = Inr f" "cf_ip f = ip"
    "get_closure (vm_heap vm) (cf_closure f) = Inr cl" "get_fn (vm_heap vm) (cl_fn cl) = Inr fn" "fn_chunk fn = ck"
    using assms unfolding at_point_def running_def by blast
  let ?vm = "vm\<lparr>vm_frames := (vm_frames vm)[fp := Some (f\<lparr>cf_ip := j\<rparr>)]\<rparr>"
  have run: "set_ip fp j vm = Inr ((), ?vm)"
    using f(1) by (auto simp: set_ip_def frame_at_def set_frame_def act_simps buf_write_def buf_read_def split: if_splits)
  have "machine_ok ?vm"
  proof -
    have "keeps machine_ok (set_ip fp j)" by (intro keeps_ok)
    moreover have "machine_ok vm" using assms by (simp add: at_point_def stack_is_def)
    ultimately show ?thesis using run by (rule keepsD)
  qed
  then have "at_point fp ck j xs g ?vm"
    using assms f buf_read_update [OF f(1)] by (auto simp: at_point_def running_def stack_is_def)
  moreover have "moves fp vm ?vm" unfolding moves_def using f(1) by auto
  ultimately show thesis using run by (intro that [of ?vm])
qed

lemma frame_ip_at: "at_point fp ck ip xs g vm \<Longrightarrow> \<exists>f. frame_at fp vm = Inr (f, vm) \<and> cf_ip f = ip"
  by (auto simp: at_point_def running_def frame_at_def act_simps)

lemma jump_at:
  assumes "at_point fp ck ip xs g vm" and "code_at ck ip [high_byte j, low_byte j]" and "0 \<le> j" and "j \<le> UINT16_MAX"
  obtains vm' where "handle_op_jump fp vm = Inr (interpret_ok, vm')" and "at_point fp ck (ip + 2 + nat j) xs g vm'"
    and "moves fp vm vm'"
proof -
  obtain vm1 where vm1: "read_short fp vm = Inr (nat j, vm1)" "at_point fp ck (ip + 2) xs g vm1" "moves fp vm vm1"
    using read_short_at [OF assms(1,2)] jump_bytes [OF assms(3,4)] by metis
  obtain f where f: "frame_at fp vm1 = Inr (f, vm1)" "cf_ip f = ip + 2" using frame_ip_at [OF vm1(2)] by blast
  obtain vm2 where vm2: "set_ip fp (ip + 2 + nat j) vm1 = Inr ((), vm2)" "at_point fp ck (ip + 2 + nat j) xs g vm2" "moves fp vm1 vm2"
    by (rule set_ip_at [OF vm1(2)])
  show thesis
    by (rule that [of vm2]) (use vm1(1) f vm2 moves_trans [OF vm1(3) vm2(3)] in
      \<open>simp_all add: handle_op_jump_def jump_forward_def ok_def act_simps\<close>)
qed

lemma loop_at:
  assumes "at_point fp ck ip xs g vm" and "code_at ck ip [high_byte j, low_byte j]" and "0 \<le> j" and "j \<le> UINT16_MAX"
    and "nat j \<le> ip + 2"
  obtains vm' where "handle_op_loop fp vm = Inr (interpret_ok, vm')" and "at_point fp ck (ip + 2 - nat j) xs g vm'"
    and "moves fp vm vm'"
proof -
  obtain vm1 where vm1: "read_short fp vm = Inr (nat j, vm1)" "at_point fp ck (ip + 2) xs g vm1" "moves fp vm vm1"
    using read_short_at [OF assms(1,2)] jump_bytes [OF assms(3,4)] by metis
  obtain f where f: "frame_at fp vm1 = Inr (f, vm1)" "cf_ip f = ip + 2" using frame_ip_at [OF vm1(2)] by blast
  obtain vm2 where vm2: "set_ip fp (ip + 2 - nat j) vm1 = Inr ((), vm2)" "at_point fp ck (ip + 2 - nat j) xs g vm2" "moves fp vm1 vm2"
    by (rule set_ip_at [OF vm1(2)])
  show thesis
    by (rule that [of vm2]) (use assms(5) vm1(1) f vm2 moves_trans [OF vm1(3) vm2(3)] in
      \<open>simp_all add: handle_op_loop_def jump_back_def ok_def act_simps\<close>)
qed

subsection \<open>The value of an expression\<close>

definition operator_of :: "op_code \<Rightarrow> operator" where
  "operator_of op =
     (if op = op_equal then OP_EQ else if op = op_not_equal then OP_NEQ
      else if op = op_less then OP_LT else if op = op_less_equal then OP_LTE
      else if op = op_greater then OP_GT else if op = op_greater_equal then OP_GTE
      else if op = op_add then OP_ADD else if op = op_subtract then OP_SUB
      else if op = op_multiply then OP_MUL else if op = op_divide then OP_DIV else OP_MOD)"

definition result_of :: "arith_result outcome \<Rightarrow> jvalue option" where
  "result_of m = (case m of Inr (Result v) \<Rightarrow> Some v | _ \<Rightarrow> None)"

text \<open>
  \<open>None\<close> stands for a global that is not defined, an operator that refuses its operands or overflows,
  and an object as an operand; then the table of operators given to \<open>coerce_types\<close> does not matter.
\<close>

primrec eval :: "env \<Rightarrow> (string \<Rightarrow> jvalue option) \<Rightarrow> expr \<Rightarrow> jvalue option" where
  "eval E g (Literal t) =
     (if tk_type t = token_identifier
      then (case g (tk_lexeme t) of Some v \<Rightarrow> if v = VNull then None else Some v | None \<Rightarrow> None)
      else Some (literal_value t))"
| "eval E g (Unary t a) =
     Option.bind (eval E g a) (\<lambda>v. result_of (if tk_type t = token_not then not_value v else negate v))"
| "eval E g (Binary a t b) =
     Option.bind (eval E g a) (\<lambda>l. Option.bind (eval E g b) (\<lambda>r.
       let op = operator_of (the (binary_op (tk_type t))) in
       if macro_is_obj l \<or> macro_is_obj r then None
       else case coerce_types (e_layout E) (\<lambda>_. string_vtable VM_C) (e_fmt E) op l r of
           Inl _ \<Rightarrow> None
         | Inr (l, r) \<Rightarrow> result_of (binary_basic (e_layout E) op l r)))"
| "eval E g (Paren l a r) = eval E g a"

lemma coerce_plain:
  assumes "\<not> macro_is_obj l" and "\<not> macro_is_obj r" and "coerce_types L vt fmt op l r = Inr (l', r')"
  shows "coerce_types L vt' fmt op l r = Inr (l', r')" and "\<not> macro_is_obj l'"
proof -
  have plain: "\<not> has_string_vtable vt'' v" if "\<not> macro_is_obj v" for vt'' v
    using that by (cases v) (simp_all add: has_string_vtable_def)
  note vt = plain [OF assms(1)] plain [OF assms(2)]
  show "coerce_types L vt' fmt op l r = Inr (l', r')"
    using assms(3) by (auto simp: coerce_types_def vt split: if_splits)
  show "\<not> macro_is_obj l'"
  proof (cases "macro_is_number l \<and> macro_is_number r")
    case True
    then have "numeric_type_promotion L l r = Inr (l', r')" using assms(3) by (simp add: coerce_types_def)
    with True assms(1) show ?thesis
      by (cases l; cases r) (auto simp: macro_is_number_def numeric_type_promotion_def
          both_def macro_to_f64_def macro_to_f32_def macro_to_i64_def andThen_Inr_iff)
  next
    case False
    then have "l' = l" using assms(3) by (auto simp: coerce_types_def vt)
    with assms(1) show ?thesis by simp
  qed
qed

lemma result_of_Some: "result_of m = Some v \<longleftrightarrow> m = Inr (Result v)"
  by (simp add: result_of_def split: sum.splits arith_result.splits)

lemma update_top_at:
  assumes "at_point fp ck ip (xs @ [v]) g vm" and "f v = Inr (Result w)"
  obtains vm' where "update_top fp f vm = Inr (interpret_ok, vm')" and "at_point fp ck ip (xs @ [w]) g vm'" and "moves fp vm vm'"
proof -
  have st: "stack_is vm (xs @ [v])" using assms(1) by (simp add: at_point_def)
  obtain vm' where vm': "write_slot (length xs) w vm = Inr ((), vm')" "stack_is vm' (xs @ [w])" "same_rest vm vm'"
    by (rule write_rest [OF st, of "length xs" w]) simp_all
  have "update_top fp f vm = Inr (interpret_ok, vm')"
    using peek_stack(1) [OF st, of 0] read_slot_stack [OF st, of "length xs"] stack_isD(2) [OF st] vm'(1) assms(2)
    by (simp add: update_top_def ok_def act_simps)
  with at_point_rest [OF assms(1) vm'(3,2)] show thesis by (intro that [of vm'])
qed

lemma binary_at:
  assumes "at_point fp ck ip (xs @ [l, r]) g vm" and "binary_op ty = Some op"
    and "coerce_types (e_layout E) (obj_vtable (vm_heap vm)) (e_fmt E) (operator_of op) l r = Inr (l', r')"
    and "\<not> macro_is_obj l'" and "binary_basic (e_layout E) (operator_of op) l' r' = Inr (Result v)"
  obtains vm' where "dispatch E op fp vm = Inr (interpret_ok, vm')" and "at_point fp ck ip (xs @ [v]) g vm'" and "moves fp vm vm'"
proof -
  have op: "dispatch E op fp = read_binary E (operator_of op) fp" "MACRO_IN_BINARY_OP (operator_of op)"
    using assms(2) by (cases ty; simp add: binary_op_def dispatch_def operator_of_def MACRO_IN_BINARY_OP_def all_operators_def)+
  have "stack_is vm (xs @ [l, r])" using assms(1) by (simp add: at_point_def)
  from read_binary_run [OF this op(2) assms(4,3,5)] obtain vm'
    where vm': "read_binary E (operator_of op) fp vm = Inr (interpret_ok, vm')" "stack_is vm' (xs @ [v])" "same_rest vm vm'"
    by blast
  with op(1) at_point_rest [OF assms(1) vm'(3,2)] show thesis by (intro that [of vm']) simp_all
qed

text \<open>The constants of a piece of code stand in the table from index \<open>k\<close> on.\<close>

definition constants_at :: "chunk \<Rightarrow> nat \<Rightarrow> jvalue list \<Rightarrow> bool" where
  "constants_at ck k ks \<longleftrightarrow> k + length ks \<le> 256 \<and> (\<exists>as cs. va_list (ck_constants ck) = as @ ks @ cs \<and> length as = k)"

lemma constants_at_append:
  assumes "constants_at ck k (ks @ ls)"
  shows "constants_at ck k ks" and "constants_at ck (k + length ks) ls"
proof -
  obtain as cs where c: "va_list (ck_constants ck) = as @ ks @ ls @ cs" "length as = k" "k + length ks + length ls \<le> 256"
    using assms by (auto simp: constants_at_def)
  then show "constants_at ck k ks" unfolding constants_at_def by auto
  have "va_list (ck_constants ck) = (as @ ks) @ ls @ cs" "length (as @ ks) = k + length ks" using c by simp_all
  with c(3) show "constants_at ck (k + length ks) ls" unfolding constants_at_def by (metis add.assoc length_append)
qed

lemma constants_at_read:
  assumes "constants_at ck k [v]"
  shows "k < 256" and "k < length (va_list (ck_constants ck))" and "va_list (ck_constants ck) ! k = v"
  using assms by (auto simp: constants_at_def nth_append)

lemma literal_exec:
  assumes "expr_ok (Literal t)" and "at_point fp ck ip xs g vm" and "code_at ck ip (expr_code (Literal t) k)"
    and "constants_at ck k (expr_consts (Literal t))" and "length xs < constant_stack_max"
    and "eval E (hm_map g) (Literal t) = Some v"
  obtains vm' where "exec E fp vm vm'"
    and "at_point fp ck (ip + length (expr_code (Literal t) k)) (xs @ [v]) g vm'"
proof (cases "has_constant t")
  case True
  have code: "code_at ck ip [op_byte (literal_op t)]" "code_at ck (Suc ip) [of_nat k]"
    using code_at_Cons [of ck ip "op_byte (literal_op t)" "[of_nat k]"] assms(3) True by simp_all
  note k = constants_at_read [of ck k "literal_value t"]
  have ks: "constants_at ck k [literal_value t]" using assms(4) True by simp
  have op: "literal_op t \<noteq> op_return" "\<not> reloads_frame (literal_op t)"
    by (auto simp: literal_op_def reloads_frame_def)
  have "\<exists>r vm'. dispatch E (literal_op t) fp vm1 = Inr (r, vm') \<and> at_point fp ck (Suc (Suc ip)) (xs @ [v]) g vm' \<and> moves fp vm1 vm'"
    if vm1: "at_point fp ck (Suc ip) xs g vm1" for vm1
  proof -
    obtain vm2 where vm2: "read_constant fp vm1 = Inr (literal_value t, vm2)" "at_point fp ck (Suc (Suc ip)) xs g vm2" "moves fp vm1 vm2"
      using constant_operand [OF vm1 code(2) k(1,2) [OF ks]] k(3) [OF ks] by metis
    show ?thesis
    proof (cases "tk_type t = token_identifier")
      case False
      then have "dispatch E (literal_op t) fp = handle_op_constant fp" and v: "v = literal_value t"
        using True assms(6) by (auto simp: has_constant_def literal_op_def dispatch_def)
      moreover obtain vm' where "push_ok v vm2 = Inr (interpret_ok, vm')" "at_point fp ck (Suc (Suc ip)) (xs @ [v]) g vm'" "moves fp vm2 vm'"
        by (rule push_at [OF vm2(2) assms(5)])
      ultimately show ?thesis using vm2(1,3) moves_trans by (auto simp: handle_op_constant_def act_simps)
    next
      case ident: True
      then have d: "dispatch E (literal_op t) fp = handle_op_get_global fp" by (simp add: literal_op_def dispatch_def)
      have g: "hm_map (vm_globals vm1) (tk_lexeme t) = Some v" "v \<noteq> VNull" and w: "hm_wf hash_string (vm_globals vm1)"
        and st: "stack_is vm1 xs"
        using assms(6) ident vm1 by (auto simp: at_point_def split: option.splits if_splits)
      have r: "read_string fp vm1 = Inr (tk_lexeme t, vm2)"
        using vm2(1) ident by (simp add: read_string_def literal_value_def as_string_def string_value_def act_simps)
      obtain vm' where vm': "handle_op_get_global fp vm1 = Inr (interpret_ok, vm')" "stack_is vm' (xs @ [v])" "same_rest vm2 vm'"
        using get_global_run [OF st w assms(5) r g] by blast
      with d at_point_rest [OF vm2(2) vm'(3,2)] vm2(3) moves_trans show ?thesis by auto
    qed
  qed
  then obtain vm' where "exec E fp vm vm'" "at_point fp ck (Suc (Suc ip)) (xs @ [v]) g vm'"
    by (rule step_at [OF assms(2) code(1) op])
  with True show thesis by (intro that [of vm']) simp_all
next
  case False
  then have code: "code_at ck ip [op_byte (literal_op t)]" and ty: "tk_type t \<in> {token_true, token_false, token_none}"
    using assms(1,3) by (auto simp: has_constant_def literal_op_def split: if_splits)
  have op: "literal_op t \<noteq> op_return" "\<not> reloads_frame (literal_op t)"
    by (auto simp: literal_op_def reloads_frame_def)
  have d: "dispatch E (literal_op t) fp = push_ok v"
    using ty assms(6)
    by (auto simp: literal_op_def literal_value_def dispatch_def handle_op_true_def handle_op_false_def handle_op_none_def)
  have "\<exists>r vm'. dispatch E (literal_op t) fp vm1 = Inr (r, vm') \<and> at_point fp ck (Suc ip) (xs @ [v]) g vm' \<and> moves fp vm1 vm'"
    if "at_point fp ck (Suc ip) xs g vm1" for vm1
    using push_at [OF that assms(5), of v] d by metis
  then obtain vm' where "exec E fp vm vm'" "at_point fp ck (Suc ip) (xs @ [v]) g vm'"
    by (rule step_at [OF assms(2) code op])
  with False show thesis by (intro that [of vm']) simp_all
qed

text \<open>The code of an expression pushes its value and changes nothing else.\<close>

lemma expr_exec:
  assumes "expr_ok e" and "at_point fp ck ip xs g vm" and "code_at ck ip (expr_code e k)"
    and "constants_at ck k (expr_consts e)" and "length xs + length (expr_tokens e) \<le> constant_stack_max"
    and "eval E (hm_map g) e = Some v"
  shows "\<exists>vm'. exec E fp vm vm' \<and> at_point fp ck (ip + length (expr_code e k)) (xs @ [v]) g vm'"
  using assms
proof (induction e arbitrary: ip xs vm k v)
  case (Literal t)
  have "length xs < constant_stack_max" using Literal.prems(5) by simp
  then obtain vm' where "exec E fp vm vm'" "at_point fp ck (ip + length (expr_code (Literal t) k)) (xs @ [v]) g vm'"
    by (rule literal_exec [OF Literal.prems(1-4) _ Literal.prems(6)])
  then show ?case by blast
next
  case (Unary t a)
  obtain w where w: "eval E (hm_map g) a = Some w"
    and f: "(if tk_type t = token_not then not_value w else negate w) = Inr (Result v)"
    using Unary.prems(6) by (auto simp: bind_eq_Some_conv result_of_Some)
  let ?op = "if tk_type t = token_not then op_not else op_negate"
  have c: "code_at ck ip (expr_code a k)" "code_at ck (ip + length (expr_code a k)) [op_byte ?op]"
    using code_at_append [of ck ip "expr_code a k" "[op_byte ?op]"] Unary.prems(3) by simp_all
  obtain vm1 where vm1: "exec E fp vm vm1" "at_point fp ck (ip + length (expr_code a k)) (xs @ [w]) g vm1"
    using Unary.IH [OF _ Unary.prems(2) c(1) _ _ w] Unary.prems(1,4,5) by auto
  have "\<exists>r vm'. dispatch E ?op fp vm2 = Inr (r, vm') \<and>
      at_point fp ck (Suc (ip + length (expr_code a k))) (xs @ [v]) g vm' \<and> moves fp vm2 vm'"
    if pt: "at_point fp ck (Suc (ip + length (expr_code a k))) (xs @ [w]) g vm2" for vm2
  proof -
    let ?f = "if tk_type t = token_not then not_value else negate"
    have "?f w = Inr (Result v)" using f by (cases "tk_type t = token_not") simp_all
    then obtain vm' where "update_top fp ?f vm2 = Inr (interpret_ok, vm')"
      "at_point fp ck (Suc (ip + length (expr_code a k))) (xs @ [v]) g vm'" "moves fp vm2 vm'"
      by (rule update_top_at [OF pt])
    moreover have "dispatch E ?op fp = update_top fp ?f"
      by (simp add: dispatch_def handle_op_not_def handle_op_negate_def)
    ultimately show ?thesis by auto
  qed
  then obtain vm' where "exec E fp vm1 vm'" "at_point fp ck (Suc (ip + length (expr_code a k))) (xs @ [v]) g vm'"
    by (rule step_at [OF vm1(2) c(2), rotated 2]) (simp_all add: reloads_frame_def)
  with exec_trans [OF vm1(1)] show ?case by auto
next
  case (Binary a t b)
  obtain op where op: "binary_op (tk_type t) = Some op" using Binary.prems(1) by auto
  let ?ka = "k + length (expr_consts a)" and ?ca = "expr_code a k"
  let ?cb = "expr_code b ?ka"
  obtain l r where lr: "eval E (hm_map g) a = Some l" "eval E (hm_map g) b = Some r"
    and plain: "\<not> macro_is_obj l" "\<not> macro_is_obj r"
    and "(case coerce_types (e_layout E) (\<lambda>_. string_vtable VM_C) (e_fmt E) (operator_of op) l r of Inl _ \<Rightarrow> None
      | Inr (l, r) \<Rightarrow> result_of (binary_basic (e_layout E) (operator_of op) l r)) = Some v"
    using Binary.prems(6) op by (auto simp: bind_eq_Some_conv Let_def split: if_split_asm)
  then obtain l' r' where co: "coerce_types (e_layout E) (\<lambda>_. string_vtable VM_C) (e_fmt E) (operator_of op) l r = Inr (l', r')"
    and res: "binary_basic (e_layout E) (operator_of op) l' r' = Inr (Result v)"
    by (cases "coerce_types (e_layout E) (\<lambda>_. string_vtable VM_C) (e_fmt E) (operator_of op) l r")
      (auto simp: result_of_Some split: prod.splits)
  note co = coerce_plain [OF plain co]
  have c: "code_at ck ip ?ca" "code_at ck (ip + length ?ca) ?cb" "code_at ck (ip + length ?ca + length ?cb) [op_byte op]"
    using Binary.prems(3) op code_at_append [of ck ip ?ca "?cb @ [op_byte op]"]
      code_at_append [of ck "ip + length ?ca" ?cb "[op_byte op]"] by simp_all
  have ks: "constants_at ck k (expr_consts a)" "constants_at ck ?ka (expr_consts b)"
    using constants_at_append [of ck k "expr_consts a" "expr_consts b"] Binary.prems(4) by simp_all
  obtain vm1 where vm1: "exec E fp vm vm1" "at_point fp ck (ip + length ?ca) (xs @ [l]) g vm1"
    using Binary.IH(1) [OF _ Binary.prems(2) c(1) ks(1) _ lr(1)] Binary.prems(1,5) by auto
  have "1 \<le> length (expr_tokens a)" using spine_length [of a] by simp
  then obtain vm2 where vm2: "exec E fp vm1 vm2" "at_point fp ck (ip + length ?ca + length ?cb) (xs @ [l, r]) g vm2"
    using Binary.IH(2) [OF _ vm1(2) c(2) ks(2), of r] Binary.prems(1,5) lr(2) by auto
  have straight: "op \<noteq> op_return" "\<not> reloads_frame op"
    using op by (cases "tk_type t"; simp add: binary_op_def reloads_frame_def)+
  have "\<exists>r vm'. dispatch E op fp vm3 = Inr (r, vm') \<and>
      at_point fp ck (Suc (ip + length ?ca + length ?cb)) (xs @ [v]) g vm' \<and> moves fp vm3 vm'"
    if "at_point fp ck (Suc (ip + length ?ca + length ?cb)) (xs @ [l, r]) g vm3" for vm3
    using binary_at [OF that op co res] by blast
  then obtain vm' where "exec E fp vm2 vm'" "at_point fp ck (Suc (ip + length ?ca + length ?cb)) (xs @ [v]) g vm'"
    by (rule step_at [OF vm2(2) c(3) straight])
  with exec_trans [OF exec_trans [OF vm1(1) vm2(1)]] op show ?case by (auto simp: add.assoc)
next
  case (Paren l a r)
  then show ?case by auto
qed

subsection \<open>Programs of global variables\<close>

fun eval_program :: "env \<Rightarrow> (string \<Rightarrow> jvalue option) \<Rightarrow> global_decl list \<Rightarrow>
    (string \<Rightarrow> jvalue option) option" where
  "eval_program E g [] = Some g"
| "eval_program E g (Declare v x a e s # ds) =
     Option.bind (eval E g e) (\<lambda>w. eval_program E (g(tk_lexeme x \<mapsto> w)) ds)"

lemma string_operand:
  assumes "at_point fp ck ip xs g vm" and "code_at ck ip [of_nat k]" and "constants_at ck k [string_value name]"
  obtains vm' where "read_string fp vm = Inr (name, vm')" and "at_point fp ck (Suc ip) xs g vm'" and "moves fp vm vm'"
proof -
  note k = constants_at_read [OF assms(3)]
  obtain vm' where vm': "read_constant fp vm = Inr (va_list (ck_constants ck) ! k, vm')"
    "at_point fp ck (Suc ip) xs g vm'" "moves fp vm vm'" by (rule constant_operand [OF assms(1,2) k(1,2)])
  then have "read_string fp vm = Inr (name, vm')"
    using k(3) by (simp add: read_string_def as_string_def string_value_def act_simps)
  then show thesis using vm'(2,3) by (rule that)
qed

lemma define_global_exec:
  assumes "at_point fp ck ip (xs @ [v]) g vm" and "code_at ck ip [op_byte op_define_global, of_nat k]"
    and "constants_at ck k [string_value name]" and "hm_count g < hm_limit"
  obtains vm' g' where "exec E fp vm vm'" and "at_point fp ck (Suc (Suc ip)) xs g' vm'"
    and "hm_map g' = (hm_map g)(name \<mapsto> v)" and "hm_count g' \<le> Suc (hm_count g)"
proof -
  have wf: "hm_wf hash_string g" using assms(1) by (simp add: at_point_def)
  obtain g' where g': "hashmap_set hash_string g name v = Inr (g', hm_map g name = None)" "hm_wf hash_string g'"
    "hm_map g' = (hm_map g)(name \<mapsto> v)" "hm_count g' \<le> Suc (hm_count g)"
    using hm.put_law [OF wf assms(4), of name v] by blast
  note code = code_at_Cons [OF assms(2)]
  have "\<exists>r vm'. dispatch E op_define_global fp vm1 = Inr (r, vm') \<and> at_point fp ck (Suc (Suc ip)) xs g' vm' \<and> moves fp vm1 vm'"
    if vm1: "at_point fp ck (Suc ip) (xs @ [v]) g vm1" for vm1
  proof -
    obtain vm2 where vm2: "read_string fp vm1 = Inr (name, vm2)" "at_point fp ck (Suc (Suc ip)) (xs @ [v]) g vm2" "moves fp vm1 vm2"
      by (rule string_operand [OF vm1 code(2) assms(3)])
    have st: "stack_is vm2 (xs @ [v])" "stack_is (vm2\<lparr>vm_globals := g'\<rparr>) (xs @ [v])" and g: "vm_globals vm2 = g"
      using vm2(2) by (simp_all add: at_point_def)
    let ?vm' = "vm2\<lparr>vm_globals := g', vm_stack_top := length xs\<rparr>"
    have "dispatch E op_define_global fp vm1 = Inr (interpret_ok, ?vm')"
      using vm2(1) peek_stack(2) [OF st(1), of 0] g'(1) g pop_stack(1) [OF st(2)]
      by (simp add: dispatch_def handle_op_define_global_def act_simps insert_entry_def set_globals_def ok_def)
    moreover have "at_point fp ck (Suc (Suc ip)) xs g' ?vm'"
      using vm2(2) pop_stack(2) [OF st(2)] g'(2) by (simp add: at_point_def running_def)
    moreover have "moves fp vm1 ?vm'" using vm2(3) by (simp add: moves_def)
    ultimately show ?thesis by blast
  qed
  then obtain vm' where "exec E fp vm vm'" "at_point fp ck (Suc (Suc ip)) xs g' vm'"
    by (rule step_at [OF assms(1) code(1), rotated 2]) (simp_all add: reloads_frame_def)
  then show thesis using g'(3,4) by (rule that)
qed

lemma program_exec:
  assumes "list_all decl_ok ds" and "at_point fp ck ip xs g vm" and "code_at ck ip (program_code ds k)"
    and "constants_at ck k (program_consts ds)" and "\<forall>d\<in>set ds. length xs + length (decl_tokens d) \<le> constant_stack_max"
    and "hm_count g + length ds \<le> hm_limit" and "eval_program E (hm_map g) ds = Some f"
  shows "\<exists>vm' g'. exec E fp vm vm' \<and> at_point fp ck (ip + length (program_code ds k)) xs g' vm' \<and> hm_map g' = f \<and>
    hm_count g' \<le> hm_count g + length ds"
  using assms
proof (induction ds arbitrary: ip g vm k)
  case Nil
  then show ?case using exec_refl [OF Nil.prems(2)] by auto
next
  case (Cons d ds)
  obtain v x a e s where d: "d = Declare v x a e s" by (cases d)
  let ?ce = "expr_code e (Suc k)" and ?k = "k + length (decl_consts d)"
  obtain w where w: "eval E (hm_map g) e = Some w" "eval_program E ((hm_map g)(tk_lexeme x \<mapsto> w)) ds = Some f"
    using Cons.prems(7) d by (auto simp: bind_eq_Some_conv)
  have ok: "expr_ok e" "list_all decl_ok ds" using Cons.prems(1) d by simp_all
  have c: "code_at ck ip ?ce" "code_at ck (ip + length ?ce) [op_byte op_define_global, of_nat k]"
    "code_at ck (ip + length (decl_code d k)) (program_code ds ?k)"
    using code_at_append [of ck ip "decl_code d k" "program_code ds ?k"]
      code_at_append [of ck ip ?ce "[op_byte op_define_global, of_nat k]"] Cons.prems(3) d by simp_all
  have ks: "constants_at ck k [string_value (tk_lexeme x)]" "constants_at ck (Suc k) (expr_consts e)"
    "constants_at ck ?k (program_consts ds)"
    using constants_at_append [of ck k "decl_consts d" "program_consts ds"]
      constants_at_append [of ck k "[string_value (tk_lexeme x)]" "expr_consts e"] Cons.prems(4) d by simp_all
  have "length xs + length (expr_tokens e) \<le> constant_stack_max" using Cons.prems(5) d by simp
  then obtain vm1 where vm1: "exec E fp vm vm1" "at_point fp ck (ip + length ?ce) (xs @ [w]) g vm1"
    using expr_exec [OF ok(1) Cons.prems(2) c(1) ks(2) _ w(1)] by blast
  have "hm_count g < hm_limit" using Cons.prems(6) by simp
  then obtain vm2 g2 where vm2: "exec E fp vm1 vm2" "at_point fp ck (Suc (Suc (ip + length ?ce))) xs g2 vm2"
    "hm_map g2 = (hm_map g)(tk_lexeme x \<mapsto> w)" "hm_count g2 \<le> Suc (hm_count g)"
    by (rule define_global_exec [OF vm1(2) c(2) ks(1)])
  have pos: "Suc (Suc (ip + length ?ce)) = ip + length (decl_code d k)" using d by simp
  have room: "\<forall>d\<in>set ds. length xs + length (decl_tokens d) \<le> constant_stack_max" "hm_count g2 + length ds \<le> hm_limit"
    using Cons.prems(5,6) vm2(4) by simp_all
  have "eval_program E (hm_map g2) ds = Some f" unfolding vm2(3) by (rule w(2))
  then obtain vm' g' where "exec E fp vm2 vm'" "hm_map g' = f" "hm_count g' \<le> hm_count g2 + length ds"
    "at_point fp ck (ip + length (decl_code d k) + length (program_code ds ?k)) xs g' vm'"
    using Cons.IH [OF ok(2) vm2(2) [unfolded pos] c(3) ks(3) room] by blast
  with exec_trans [OF exec_trans [OF vm1(1) vm2(1)]] vm2(4) show ?case
    by (intro exI [of _ vm'] exI [of _ g']) (simp add: add.assoc)
qed

subsection \<open>The interpreter\<close>

text \<open>
  \<open>interpret\<close>: the compilation, which allocates in the heap of the machine and prints its errors, then
  the run. The compiler and the machine have their own fuel, \<open>k\<close> and \<open>n\<close>.
\<close>

definition interpret_source :: "nat \<Rightarrow> nat \<Rightarrow> env \<Rightarrow> libc \<Rightarrow> string \<Rightarrow> interpret_result vm_action" where
  "interpret_source k n E L source =
     act_bind (act_with (\<lambda>vm. compile k L (vm_heap vm) source)) (\<lambda>(fn, h, errors).
     act_then (act_update (\<lambda>vm. vm\<lparr>vm_heap := h, vm_errors := vm_errors vm @ map snd errors\<rparr>))
     (case fn of
        None \<Rightarrow> act_return interpret_compile_error
      | Some fn \<Rightarrow> interpret_fn n E fn))"

text \<open>A return from the only frame ends the loop, when no upvalue is open.\<close>

lemma return_run:
  assumes "at_point 0 ck ip [v] g vm" and "code_at ck ip [op_byte op_return]" and "vm_frame_count vm = 1"
    and "vm_open_upv_ptr vm = None"
  obtains vm' where "step E 0 vm = Inr (None, vm')" and "stack_is vm' []" and "vm_frame_count vm' = 0"
    and "vm_globals vm' = g" and "vm_errors vm' = vm_errors vm" and "vm_printed vm' = vm_printed vm"
    and "vm_open_upv_ptr vm' = None" and "vm_types vm' = vm_types vm"
proof -
  obtain vm1 where vm1: "read_byte 0 vm = Inr (op_byte op_return, vm1)" "at_point 0 ck (Suc ip) [v] g vm1" "moves 0 vm vm1"
    by (rule read_byte_at [OF assms(1,2)])
  have m: "vm_frame_count vm1 = 1" "vm_open_upv_ptr vm1 = None" "vm_errors vm1 = vm_errors vm" "vm_printed vm1 = vm_printed vm"
    "vm_types vm1 = vm_types vm"
    using vm1(3) assms(3,4) by (simp_all add: moves_def)
  obtain f where f: "buf_read (vm_frames vm1) 0 = Inr f" using vm1(2) by (auto simp: at_point_def running_def)
  have st: "stack_is vm1 ([] @ [v])" using vm1(2) by (simp add: at_point_def)
  note pop = pop_stack [OF st]
  have "frame_at 0 (vm1\<lparr>vm_stack_top := 0\<rparr>) = Inr (f, vm1\<lparr>vm_stack_top := 0\<rparr>)"
    using f by (simp add: frame_at_def act_simps)
  moreover have "close_upvalues E (cf_slots f) (vm1\<lparr>vm_stack_top := 0\<rparr>) = Inr ((), vm1\<lparr>vm_stack_top := 0\<rparr>)"
    using m(2) by (simp add: close_upvalues_def act_simps)
  ultimately have "handle_op_return E 0 vm1 = Inr (interpret_ok, vm1\<lparr>vm_stack_top := 0, vm_frame_count := 0\<rparr>)"
    using pop(1) m(1) by (simp add: handle_op_return_def ok_def act_simps)
  then have "step E 0 vm = Inr (None, vm1\<lparr>vm_stack_top := 0, vm_frame_count := 0\<rparr>)"
    using vm1(1) op_of_byte_op_byte [of op_return] by (simp add: step_def dispatch_def act_simps)
  moreover have "stack_is (vm1\<lparr>vm_stack_top := 0, vm_frame_count := 0\<rparr>) []"
    using pop(2) by (simp add: stack_is_def machine_ok_def)
  ultimately show thesis using m vm1(2)
    by (intro that [of "vm1\<lparr>vm_stack_top := 0, vm_frame_count := 0\<rparr>"]) (simp_all add: at_point_def)
qed

text \<open>
  A machine between two calls of \<open>interpret\<close>: nothing on the stack, no frame, no open upvalue.
\<close>

definition idle :: "vm \<Rightarrow> bool" where
  "idle vm \<longleftrightarrow> stack_is vm [] \<and> vm_frame_count vm = 0 \<and> vm_open_upv_ptr vm = None \<and> hm_wf hash_string (vm_globals vm)"

lemma call_script_run:
  assumes "stack_is vm []" and "vm_frame_count vm = 0" and "get_fn (vm_heap vm) a = Inr fn" and "fn_arity fn = 0"
    and "a < h_next (vm_heap vm)"
  obtains vm' where "\<And>fuel. interpret_fn fuel E a vm = run_loop fuel E 0 vm'"
    and "running vm' 0 (fn_chunk fn) 0" and "stack_is vm' [obj_value (h_next (vm_heap vm))]" and "vm_frame_count vm' = 1"
    and "vm_globals vm' = vm_globals vm" and "vm_errors vm' = vm_errors vm" and "vm_printed vm' = vm_printed vm"
    and "vm_open_upv_ptr vm' = vm_open_upv_ptr vm"
proof -
  let ?c = "h_next (vm_heap vm)"
  obtain vm1 where vm1: "push (obj_value a) vm = Inr ((), vm1)" "stack_is vm1 ([] @ [obj_value a])" "same_rest vm vm1"
    by (rule push_rest [OF assms(1)]) (simp_all add: constant_stack_max_def frames_stack_max_def)
  have r1: "vm_heap vm1 = vm_heap vm" "vm_globals vm1 = vm_globals vm" "vm_frame_count vm1 = 0" using vm1(3) assms(2)
    by (simp_all add: same_rest_def)
  define cl where "cl = \<lparr>cl_fn = a, cl_upvalue_ptrs = replicate (fn_upvalue_count fn) None\<rparr>"
  define h where "h = \<lparr>h_objs = (h_objs (vm_heap vm))(?c \<mapsto> OClosure cl), h_next = Suc ?c\<rparr>"
  have al: "allocate_outcome (new_closure a) vm1 = Inr (?c, vm1\<lparr>vm_heap := h\<rparr>)"
    using assms(3) r1(1) by (simp add: allocate_outcome_def new_closure_def allocate_object_def cl_def h_def)
  have st: "stack_is (vm1\<lparr>vm_heap := h\<rparr>) ([] @ [obj_value a])"
    using vm1(2) by (simp add: stack_is_def machine_ok_def)
  obtain vm2 where vm2: "pop (vm1\<lparr>vm_heap := h\<rparr>) = Inr (obj_value a, vm2)" "stack_is vm2 []" "same_rest (vm1\<lparr>vm_heap := h\<rparr>) vm2"
    using pop_stack [OF st] by (auto simp: same_rest_def)
  obtain vm3 where vm3: "push (obj_value ?c) vm2 = Inr ((), vm3)" "stack_is vm3 ([] @ [obj_value ?c])" "same_rest vm2 vm3"
    by (rule push_rest [OF vm2(2)]) (simp_all add: constant_stack_max_def frames_stack_max_def)
  have r3: "vm_heap vm3 = h" "vm_frame_count vm3 = 0" "vm_stack_top vm3 = 1" "length (vm_frames vm3) = frames_stack_max" "vm_frames vm3 \<noteq> []"
    using vm2(3) vm3(2,3) vm1(3) assms(2) by (auto simp: same_rest_def stack_is_def machine_ok_def frames_stack_max_def)
  have fn: "get_closure h ?c = Inr cl" "get_fn h a = Inr fn"
    using assms(3,5) by (simp_all add: h_def get_closure_def get_fn_def)
  let ?f = "\<lparr>cf_slots = 0, cf_closure = ?c, cf_ip = 0\<rparr>"
  let ?vm = "vm3\<lparr>vm_frame_count := 1, vm_frames := (vm_frames vm3)[0 := Some ?f]\<rparr>"
  have run: "interpret_fn fuel E a vm = run_loop fuel E 0 ?vm" for fuel
    using vm1(1) al vm2(1) vm3(1) r3 fn assms(4)
    by (simp add: interpret_fn_def call_def on_heap_def set_frame_def buf_write_def run_def current_frame_def cl_def
        frames_stack_max_def act_simps)
  have "running ?vm 0 (fn_chunk fn) 0"
    using fn r3 by (simp add: running_def buf_read_def cl_def frames_stack_max_def)
  moreover have "stack_is ?vm [obj_value ?c]"
    using vm3(2) by (auto simp: stack_is_def machine_ok_def frames_stack_max_def dest: set_update_subset_insert [THEN subsetD])
  ultimately show thesis
    using run vm1(3) vm2(3) vm3(3) by (intro that [of ?vm]) (simp_all add: same_rest_def)
qed

text \<open>
  A script whose code runs to its end, given what the compiler made of its tokens and what the code does to
  the globals.
\<close>

lemma interpret_compiled:
  fixes vm :: vm
  defines "h \<equiv> vm_heap vm"
  assumes "idle vm" and "scan source = Inr toks"
    and "compile_tokens k L (init_parser h toks) = Inr (c, p)"
    and "pa_heap p = write_obj (h_next h) (OFn (co_fn c)) (snd (new_fn h))" and "co_fn_at c = h_next h"
    and "co_fn c = empty_fn\<lparr>fn_chunk := fn_chunk (co_fn c)\<rparr>" and "chunk_wf (fn_chunk (co_fn c))"
    and "compiled c = code @ [op_byte op_return]" and "pa_errors p = []"
    and "\<And>vm1 x. at_point 0 (fn_chunk (co_fn c)) 0 [x] (vm_globals vm) vm1 \<Longrightarrow>
      \<exists>vm2 g. exec E 0 vm1 vm2 \<and> at_point 0 (fn_chunk (co_fn c)) (length code) [x] g vm2 \<and> hm_map g = f \<and> hm_count g \<le> b"
  shows "\<exists>m vm'. (\<forall>n\<ge>m. interpret_source k n E L source vm = Inr (interpret_ok, vm')) \<and> idle vm' \<and>
    hm_map (vm_globals vm') = f \<and> vm_errors vm' = vm_errors vm \<and> vm_printed vm' = vm_printed vm \<and>
    hm_count (vm_globals vm') \<le> b"
proof -
  let ?ck = "fn_chunk (co_fn c)" and ?vm = "vm\<lparr>vm_heap := pa_heap p\<rparr>"
  have comp: "compile k L h source = Inr (Some (h_next h), pa_heap p, [])"
    using assms(3,4,6,10) by (simp add: compile_def free_parser_def Let_def)
  have start: "interpret_source k n E L source vm = interpret_fn n E (h_next h) ?vm" for n
    using comp by (simp add: interpret_source_def act_simps h_def)
  have idle: "stack_is ?vm []" "vm_frame_count ?vm = 0" "vm_open_upv_ptr ?vm = None" "hm_wf hash_string (vm_globals vm)"
    using assms(2) by (simp_all add: idle_def stack_is_def machine_ok_def)
  have fn: "get_fn (vm_heap ?vm) (h_next h) = Inr (co_fn c)" "fn_arity (co_fn c) = 0" "h_next h < h_next (vm_heap ?vm)"
    using assms(5) arg_cong [OF assms(7), of fn_arity]
    by (simp_all add: get_fn_def write_obj_def new_fn_def allocate_object_def empty_fn_def)
  obtain vm1 where vm1: "\<And>n. interpret_fn n E (h_next h) ?vm = run_loop n E 0 vm1" "running vm1 0 ?ck 0"
    "stack_is vm1 [obj_value (h_next (vm_heap ?vm))]" "vm_frame_count vm1 = 1" "vm_globals vm1 = vm_globals vm"
    "vm_errors vm1 = vm_errors vm" "vm_printed vm1 = vm_printed vm" "vm_open_upv_ptr vm1 = None"
    by (rule call_script_run [OF idle(1,2) fn, of E]) (use idle(3) in simp)
  have "at_point 0 ?ck 0 [obj_value (h_next (vm_heap ?vm))] (vm_globals vm) vm1"
    using vm1(2,3,5) idle(4) by (simp add: at_point_def)
  from assms(11) [OF this] obtain vm2 g where
    vm2: "exec E 0 vm1 vm2" "at_point 0 ?ck (length code) [obj_value (h_next (vm_heap ?vm))] g vm2" "hm_map g = f" "hm_count g \<le> b"
    by auto
  have m2: "vm_frame_count vm2 = 1" "vm_open_upv_ptr vm2 = None" "vm_errors vm2 = vm_errors vm" "vm_printed vm2 = vm_printed vm"
    using vm2(1) vm1(4,6-8) by (simp_all add: exec_def moves_def)
  have "code_at ?ck 0 (code @ [op_byte op_return])" using assms(8,9) by (auto simp: code_at_def)
  then have "code_at ?ck (length code) [op_byte op_return]" using code_at_append(2) by fastforce
  from return_run [OF vm2(2) this m2(1,2)] obtain vm3 where vm3: "step E 0 vm2 = Inr (None, vm3)" "stack_is vm3 []"
    "vm_frame_count vm3 = 0" "vm_globals vm3 = g" "vm_errors vm3 = vm_errors vm2" "vm_printed vm3 = vm_printed vm2"
    "vm_open_upv_ptr vm3 = None" by blast
  have "steps E (0, vm1) (0, vm2)" using vm2(1) by (simp add: exec_def)
  from steps_run_loop [OF this vm3(1)] obtain m where m: "run_loop m E 0 vm1 = Inr (interpret_ok, vm3)" by blast
  then have "\<forall>n\<ge>m. interpret_source k n E L source vm = Inr (interpret_ok, vm3)"
    using run_loop_more [OF m] unfolding start vm1(1) by blast
  moreover have "idle vm3" using vm3(2-4,7) vm2(2) by (simp add: idle_def at_point_def)
  ultimately show ?thesis using vm3(4-6) vm2(3,4) m2(3,4) by (intro exI [of _ m] exI [of _ vm3] conjI) simp_all
qed

text \<open>
  From the source to the globals: a program of global declarations is scanned, compiled and run to the end
  without an error, and leaves in the globals the values that \<open>eval_program\<close> computes from the trees.
\<close>

lemma interpret_program_run:
  assumes "idle vm" and "scan source = Inr (program_tokens ds @ u # us)" and "tk_type u = token_eof"
    and "list_all decl_ok ds" and "ds \<noteq> []" and "length (program_consts ds) \<le> 255"
    and "\<forall>d\<in>set ds. length (decl_tokens d) < constant_stack_max"
    and "hm_count (vm_globals vm) + length ds \<le> hm_limit" and "eval_program E (hm_map (vm_globals vm)) ds = Some f"
    and "length (program_tokens ds) < k"
  shows "\<exists>m vm'. (\<forall>n\<ge>m. interpret_source k n E L source vm = Inr (interpret_ok, vm')) \<and> idle vm' \<and>
    hm_map (vm_globals vm') = f \<and> vm_errors vm' = vm_errors vm \<and> vm_printed vm' = vm_printed vm \<and>
    hm_count (vm_globals vm') \<le> hm_count (vm_globals vm) + length ds"
proof -
  let ?h = "vm_heap vm"
  obtain c p where c: "compile_tokens k L (init_parser ?h (program_tokens ds @ u # us)) = Inr (c, p)"
    "pa_heap p = write_obj (h_next ?h) (OFn (co_fn c)) (snd (new_fn ?h))" "co_fn_at c = h_next ?h"
    "co_fn c = empty_fn\<lparr>fn_chunk := fn_chunk (co_fn c)\<rparr>" "chunk_wf (fn_chunk (co_fn c))"
    "compiled c = program_code ds 0 @ [op_byte op_return]" "compiled_constants c = program_consts ds" "pa_errors p = []"
    by (rule compile_program [OF assms(4,5,3,10,6)])
  have code: "code_at (fn_chunk (co_fn c)) 0 (program_code ds 0)"
    using c(5,6) by (auto simp: code_at_def)
  have ks: "constants_at (fn_chunk (co_fn c)) 0 (program_consts ds)"
    using c(5,7) assms(6) by (auto simp: constants_at_def)
  show ?thesis
  proof (rule interpret_compiled [OF assms(1,2) c(1-6,8)])
    fix vm1 x
    assume at: "at_point 0 (fn_chunk (co_fn c)) 0 [x] (vm_globals vm) vm1"
    have "\<forall>d\<in>set ds. length [x] + length (decl_tokens d) \<le> constant_stack_max" using assms(7) by (simp add: Suc_le_eq)
    from program_exec [OF assms(4) at code ks this assms(8,9)]
    show "\<exists>vm2 g. exec E 0 vm1 vm2 \<and> at_point 0 (fn_chunk (co_fn c)) (length (program_code ds 0)) [x] g vm2 \<and>
        hm_map g = f \<and> hm_count g \<le> hm_count (vm_globals vm) + length ds" by auto
  qed
qed

text \<open>The two declarations of a source, as trees.\<close>

definition sample_source :: string where
  "sample_source = ''var x = 1 + 2 * 3; var y = (x - 8);''"

definition sample_program :: "global_decl list" where
  "sample_program = (let t = (\<lambda>ty s. make_token ty s 1) in
     [Declare (t token_var ''var'') (t token_identifier ''x'') (t token_assign ''='')
        (Binary (Literal (t token_i32 ''1'')) (t token_plus ''+'')
           (Binary (Literal (t token_i32 ''2'')) (t token_star ''*'') (Literal (t token_i32 ''3''))))
        (t token_semicolon '';''),
      Declare (t token_var ''var'') (t token_identifier ''y'') (t token_assign ''='')
        (Paren (t token_left_paren ''('')
           (Binary (Literal (t token_identifier ''x'')) (t token_minus ''-'') (Literal (t token_i32 ''8'')))
           (t token_right_paren '')''))
        (t token_semicolon '';'')])"

lemmas scan_simps = scan_def init_scanner_def scan_tokens.simps is_at_end_def list_add_token_def scan_token_def Let_def
  NL_def NUL_def QUOTE_def is_digit_def is_alpha_def advance_def scan_number_def scan_identifier_def scan_symbol_def
  mk_tk_def make_tk_def lexeme_def new_token_def make_token_def check_number_def strtoul_def code_of_def match_char_def
  identifier_type_def check_keyword_def eof_token_def

lemma sample_scan: "scan sample_source = Inr (program_tokens sample_program @ [eof_token 1])"
  by (simp add: scan_simps sample_source_def sample_program_def)

lemma idle_fresh: "idle fresh_vm"
  unfolding idle_def stack_is_def using machine_ok_fresh hm_wf_empty [of hash_string]
  by (simp add: fresh_vm_def holds_def)

lemma sample_ok:
  "list_all decl_ok sample_program" "sample_program \<noteq> []" "length (program_consts sample_program) \<le> 255"
  "\<forall>d\<in>set sample_program. length (decl_tokens d) < constant_stack_max" "length sample_program = 2"
  "length (program_tokens sample_program) < 100"
  by (simp_all add: sample_program_def make_token_def binary_op_def token_level_def prec_level_def constant_stack_max_def
      has_constant_def literal_op_def rule_def frames_stack_max_def)

lemma sample_eval: "eval_program plain_env Map.empty sample_program = Some [''x'' \<mapsto> VI32 7, ''y'' \<mapsto> VI32 (- 1)]"
  by (simp add: sample_program_def make_token_def literal_value_def strtoll_def is_digit_def code_of_def binary_op_def
      operator_of_def coerce_types_def macro_is_number_def numeric_type_promotion_def binary_basic_def
      handle_binary_i32_op_def checked_i32_def in_i32_def result_of_def Let_def)

lemma sample_start:
  "hm_map (vm_globals fresh_vm) = Map.empty" "hm_count (vm_globals fresh_vm) + length sample_program \<le> hm_limit"
  "eval_program plain_env (hm_map (vm_globals fresh_vm)) sample_program = Some [''x'' \<mapsto> VI32 7, ''y'' \<mapsto> VI32 (- 1)]"
  "tk_type (eof_token 1) = token_eof"
proof -
  show g: "hm_map (vm_globals fresh_vm) = Map.empty" "hm_count (vm_globals fresh_vm) + length sample_program \<le> hm_limit"
    using sample_ok(5) by (simp_all add: fresh_vm_def hm_limit_def init_hashmap_def hm_map_def entries_map_def fun_eq_iff)
  show "eval_program plain_env (hm_map (vm_globals fresh_vm)) sample_program = Some [''x'' \<mapsto> VI32 7, ''y'' \<mapsto> VI32 (- 1)]"
    unfolding g(1) by (rule sample_eval)
qed (simp add: eof_token_def)

lemmas sample_facts = idle_fresh sample_scan sample_start(4) sample_ok(1-4) sample_start(2,3) sample_ok(6)

end
