(* ===== verification/Joker_Codegen.thy ===== *)
theory Joker_Codegen
  imports Joker_Interpret Joker_Compilation
begin

text \<open>
  What the compiler promises: the outcome of a compilation, the code of an expression, jumps and loops that
  land where the compiler wants them, the resolution of names and the balance of scopes.
\<close>

subsection \<open>The outcome of a compilation\<close>

definition scan_halts :: "halt set" where
  "scan_halts = {Panic ''scanner::skip_with_espace'', ExitCode 66}"

lemma scan_outcome:
  "case scan source of Inl e \<Rightarrow> e \<in> scan_halts | Inr toks \<Rightarrow> ends_eof toks"
  using scan_tokens_chain [of "init_scanner source" "[]"]
  by (auto simp: scan_def scan_halts_def ends_eof_def eof_token_def make_token_def new_token_def)

lemma blank_tokens:
  assumes "tk_type (hd toks) = token_eof" and "toks \<noteq> []" and "0 < k"
  shows "compile_tokens k L (init_parser h toks) = Inl (Undefined ''null token'')"
proof -
  obtain t ts n where t: "toks = t # ts" "tk_type t = token_eof" "k = Suc n"
    using assms by (cases toks; cases k) auto
  show ?thesis
    by (simp add: compile_tokens_def init_compiler_def new_fn_def allocate_object_def push_compiler_def init_parser_def
        parse_tokens_def parse_is_at_end_def parse_consume_def curr_token_def parse_advance_def curr_from_sub_compiler_def
        emit_return_def this_compiler_def emit_op_def emit_byte_def prev_token_def act_simps t)
qed



lemma run_loop_ok: "run_loop n E fp vm = Inr (r, vm') \<Longrightarrow> r = interpret_ok"
  using run_loop_steps [of n E fp vm r vm'] by blast

lemma interpret_source_ok: "interpret_source k n E L source vm = Inr (r, vm') \<Longrightarrow> r = interpret_ok"
  by (auto simp: interpret_source_def interpret_fn_def run_def compile_def free_parser_def Let_def act_simps andThen_Inr_iff
      dest: run_loop_ok)

text \<open>
  C38: \<open>interpret\<close> tests whether \<open>compile\<close> returned a function, and never refuses a source: \<open>had_error\<close> is
  read after \<open>free_parser\<close> has reset it. Whatever errors the parser reported, the code it emitted until
  then is run, and a run that returns gives \<open>interpret_ok\<close>.
\<close>

theorem compile_never_refuses:
  assumes "interpret_source k n E L source vm = Inr (r, vm')"
  shows "r = interpret_ok \<and> (\<exists>a h errors. compile k L (vm_heap vm) source = Inr (Some a, h, errors))"
proof -
  obtain fn h errors where c: "compile k L (vm_heap vm) source = Inr (fn, h, errors)"
    using assms by (auto simp: interpret_source_def act_simps andThen_Inr_iff)
  then obtain a where a: "fn = Some a"
    by (auto simp: compile_def free_parser_def Let_def andThen_Inr_iff)
  then show ?thesis using c a interpret_source_ok [OF assms] by blast
qed

lemma compile_never_refuses_witness:
  "\<forall>L. \<exists>n r vm' a h errors. interpret_source 100 n plain_env L sample_source fresh_vm = Inr (r, vm') \<and> r = interpret_ok \<and>
     compile 100 L (vm_heap fresh_vm) sample_source = Inr (Some a, h, errors)"
proof
  fix L
  obtain n vm' where "interpret_source 100 n plain_env L sample_source fresh_vm = Inr (interpret_ok, vm')"
    using interpret_program_run [OF sample_facts, of L] by blast
  with compile_never_refuses [OF this] show "\<exists>n r vm' a h errors.
     interpret_source 100 n plain_env L sample_source fresh_vm = Inr (r, vm') \<and> r = interpret_ok \<and>
     compile 100 L (vm_heap fresh_vm) sample_source = Inr (Some a, h, errors)" by blast
qed

subsection \<open>Expressions\<close>


text \<open>A parser at the start of a script, and the tree of \<open>1 - 2 - 3\<close>.\<close>

definition script_compiler :: compiler where
  "script_compiler = \<lparr>co_fn_at = 0, co_fn = empty_fn, co_fn_type = type_script, co_locals = [first_local type_script],
     co_scope_depth = 0, co_upvalues = [], co_loops = []\<rparr>"

definition script_parser :: "token list \<Rightarrow> parser" where
  "script_parser toks = (init_parser (snd (new_fn empty_heap)) toks)\<lparr>pa_compilers := [script_compiler]\<rparr>"

definition sample_tree :: expr where
  "sample_tree = (let lit = (\<lambda>s. Literal (make_token token_i32 s 1)); minus = make_token token_minus ''-'' 1 in
     Binary (Binary (lit ''1'') minus (lit ''2'')) minus (lit ''3''))"

lemma script_parser:
  "primed (script_parser toks)" "constant_count (script_parser toks) = 0" "pa_curr (script_parser toks) = toks"
proof -
  show "primed (script_parser toks)" "constant_count (script_parser toks) = 0" "pa_curr (script_parser toks) = toks"
    using chunk_wf_init by (simp_all add: script_parser_def script_compiler_def primed_def script_level_def constant_count_def
        init_parser_def empty_fn_def)
qed


subsection \<open>Jumps and loops\<close>

text \<open>
  C15: A forward jump lands where the code continues: \<open>patch_jump\<close> on the operand that \<open>emit_jump\<close> left open
  changes only these two bytes, and a machine that reads them there, under whatever stack and globals, ends
  exactly behind the code emitted until the patch, when the distance fits in 16 bits. (When it does not, the
  error is reported and the low 16 bits are stored.)
\<close>

theorem patch_jump_lands:
  assumes "pa_compilers p = c # cs" and "chunk_wf (fn_chunk (co_fn c))" and "i + 2 \<le> ck_count (fn_chunk (co_fn c))"
    and "ck_count (fn_chunk (co_fn c)) - i - 2 \<le> 65535"
  shows "\<exists>ck. patch_jump i p = Inr ((), p\<lparr>pa_compilers := set_chunk ck c # cs\<rparr>) \<and> chunk_wf ck \<and>
    ck_count ck = ck_count (fn_chunk (co_fn c)) \<and> ck_constants ck = ck_constants (fn_chunk (co_fn c)) \<and>
    (\<forall>j. j < i \<or> i + 2 \<le> j \<longrightarrow> chunk_bytes ck ! j = compiled c ! j) \<and>
    (\<forall>fp xs g vm. at_point fp ck i xs g vm \<longrightarrow>
      (\<exists>vm'. handle_op_jump fp vm = Inr (interpret_ok, vm') \<and> at_point fp ck (ck_count ck) xs g vm' \<and> moves fp vm vm'))"
proof -
  let ?n = "ck_count (fn_chunk (co_fn c))"
  define j where "j = int ?n - int i - 2"
  have j: "0 \<le> j" "j \<le> UINT16_MAX" "i + 2 + nat j = ?n" using assms(3,4) by (simp_all add: j_def UINT16_MAX_def)
  have len: "length (compiled c) = ?n" using assms(2) by (simp add: chunk_wf_def)
  obtain ck where ck: "store_jump i j (fn_chunk (co_fn c)) = Inr ck" "chunk_wf ck" "ck_count ck = ?n"
    "chunk_bytes ck = (compiled c)[i := high_byte j, i + 1 := low_byte j]" "ck_constants ck = ck_constants (fn_chunk (co_fn c))"
    using store_jump_bytes [OF assms(2,3)] by blast
  have run: "patch_jump i p = Inr ((), p\<lparr>pa_compilers := set_chunk ck c # cs\<rparr>)"
    using assms(1) ck(1) j(2) by (simp add: patch_jump_def code_count_def curr_chunk_def this_compiler_def write_code_def
        modify_compiler_def put_compiler_def act_simps j_def [symmetric])
  have code: "code_at ck i [high_byte j, low_byte j]"
  proof -
    have "chunk_bytes ck = take i (compiled c) @ [high_byte j, low_byte j] @ drop (i + 2) (compiled c)"
      using assms(3) len by (intro nth_equalityI) (auto simp: ck(4) nth_append nth_list_update nth_Cons
          intro!: arg_cong [where f = "nth (compiled c)"] split: nat.split)
    moreover have "length (take i (compiled c)) = i" using assms(3) len by simp
    ultimately show ?thesis using ck(2) unfolding code_at_def by blast
  qed
  have "\<exists>vm'. handle_op_jump fp vm = Inr (interpret_ok, vm') \<and> at_point fp ck (ck_count ck) xs g vm' \<and> moves fp vm vm'"
    if "at_point fp ck i xs g vm" for fp xs g vm
    using jump_at [OF that code j(1,2)] j(3) ck(3) by metis
  with run ck show ?thesis by (intro exI [of _ ck]) simp
qed

lemma script_code:
  obtains c where "chunk_wf (fn_chunk (co_fn c))" and "compiled c = bs" and "ck_count (fn_chunk (co_fn c)) = length bs"
proof -
  obtain ck where "chunk_wf ck" "chunk_bytes ck = chunk_bytes init_chunk @ bs"
    using write_bytes_bytes [of init_chunk bs 1] chunk_wf_init by blast
  then show thesis using chunk_wf_init by (intro that [of "set_chunk ck script_compiler"]) (simp_all add: chunk_wf_def)
qed

lemma patch_jump_lands_witness:
  "\<exists>c ck. compiled c = [op_byte op_jump, 255, 255, op_byte op_pop] \<and>
     patch_jump 1 ((script_parser [])\<lparr>pa_compilers := [c]\<rparr>) = Inr ((), (script_parser [])\<lparr>pa_compilers := [set_chunk ck c]\<rparr>) \<and>
     ck_count ck = 4 \<and> chunk_bytes ck ! 3 = op_byte op_pop"
proof -
  obtain c where c: "chunk_wf (fn_chunk (co_fn c))" "compiled c = [op_byte op_jump, 255, 255, op_byte op_pop]"
    "ck_count (fn_chunk (co_fn c)) = length [op_byte op_jump, 255, 255, op_byte op_pop]" by (rule script_code)
  from patch_jump_lands [of "(script_parser [])\<lparr>pa_compilers := [c]\<rparr>" c "[]" 1] c obtain ck where
    "patch_jump 1 ((script_parser [])\<lparr>pa_compilers := [c]\<rparr>) = Inr ((), (script_parser [])\<lparr>pa_compilers := [set_chunk ck c]\<rparr>)"
    "ck_count ck = 4" "\<forall>j. j < 1 \<or> 1 + 2 \<le> j \<longrightarrow> chunk_bytes ck ! j = compiled c ! j"
    by (auto simp del: op_byte.simps)
  with c(2) show ?thesis by (intro exI [of _ c] exI [of _ ck]) simp
qed

lemma emit_byte_at:
  assumes "pa_compilers p = c # cs" and "chunk_wf (fn_chunk (co_fn c))" and "pa_prev p = Some t"
  obtains ck where "emit_byte b p = Inr ((), p\<lparr>pa_compilers := set_chunk ck c # cs\<rparr>)" and "chunk_wf ck"
    and "chunk_bytes ck = compiled c @ [b]" and "ck_count ck = Suc (ck_count (fn_chunk (co_fn c)))"
    and "ck_constants ck = ck_constants (fn_chunk (co_fn c))"
proof -
  obtain ck where ck: "write_chunk (fn_chunk (co_fn c)) b (tk_line t) = Inr ck" "chunk_wf ck"
    "chunk_bytes ck = compiled c @ [b]" "ck_constants ck = ck_constants (fn_chunk (co_fn c))"
    using write_chunk_bytes [OF assms(2)] by blast
  have "emit_byte b p = Inr ((), p\<lparr>pa_compilers := set_chunk ck c # cs\<rparr>)"
    using assms(1,3) ck(1) by (simp add: emit_byte_def prev_token_def write_code_def curr_chunk_def this_compiler_def
        modify_compiler_def put_compiler_def act_simps)
  moreover have "ck_count ck = Suc (ck_count (fn_chunk (co_fn c)))"
    using assms(2) ck(2,3) by (simp add: chunk_wf_def)
  ultimately show thesis using that ck by blast
qed

text \<open>
  C16: A loop returns to its start: the instruction that \<open>emit_loop\<close> appends takes a machine that reads its
  operand there, under whatever stack and globals, back to the start of the loop, when the distance fits
  in 16 bits.
\<close>

theorem emit_loop_returns:
  assumes "pa_compilers p = c # cs" and "chunk_wf (fn_chunk (co_fn c))" and "pa_prev p = Some t"
    and "start \<le> ck_count (fn_chunk (co_fn c))" and "ck_count (fn_chunk (co_fn c)) + 3 - start \<le> 65535"
  shows "\<exists>ck hi lo. emit_loop start p = Inr ((), p\<lparr>pa_compilers := set_chunk ck c # cs\<rparr>) \<and> chunk_wf ck \<and>
    chunk_bytes ck = compiled c @ [op_byte op_loop, hi, lo] \<and>
    ck_constants ck = ck_constants (fn_chunk (co_fn c)) \<and>
    (\<forall>fp xs g vm. at_point fp ck (Suc (ck_count (fn_chunk (co_fn c)))) xs g vm \<longrightarrow>
      (\<exists>vm'. handle_op_loop fp vm = Inr (interpret_ok, vm') \<and> at_point fp ck start xs g vm' \<and> moves fp vm vm'))"
proof -
  let ?n = "ck_count (fn_chunk (co_fn c))"
  define j where "j = int (Suc ?n) - int start + 2"
  have j: "0 \<le> j" "j \<le> UINT16_MAX" "Suc ?n + 2 - nat j = start" "nat j \<le> Suc ?n + 2"
    using assms(4,5) by (simp_all add: j_def UINT16_MAX_def)
  obtain c1 where c1: "emit_byte (op_byte op_loop) p = Inr ((), p\<lparr>pa_compilers := set_chunk c1 c # cs\<rparr>)" "chunk_wf c1"
    "chunk_bytes c1 = compiled c @ [op_byte op_loop]" "ck_count c1 = Suc ?n" "ck_constants c1 = ck_constants (fn_chunk (co_fn c))"
    by (rule emit_byte_at [OF assms(1-3)])
  let ?p1 = "p\<lparr>pa_compilers := set_chunk c1 c # cs\<rparr>"
  obtain c2 where c2: "emit_byte (high_byte j) ?p1 = Inr ((), ?p1\<lparr>pa_compilers := set_chunk c2 (set_chunk c1 c) # cs\<rparr>)"
    "chunk_wf c2" "chunk_bytes c2 = compiled (set_chunk c1 c) @ [high_byte j]" "ck_constants c2 = ck_constants c1"
    by (rule emit_byte_at [of ?p1 "set_chunk c1 c" cs t]) (use c1(2) assms(3) in simp_all)
  let ?p2 = "p\<lparr>pa_compilers := set_chunk c2 c # cs\<rparr>"
  obtain c3 where c3: "emit_byte (low_byte j) ?p2 = Inr ((), ?p2\<lparr>pa_compilers := set_chunk c3 (set_chunk c2 c) # cs\<rparr>)"
    "chunk_wf c3" "chunk_bytes c3 = compiled (set_chunk c2 c) @ [low_byte j]" "ck_constants c3 = ck_constants c2"
    by (rule emit_byte_at [of ?p2 "set_chunk c2 c" cs t]) (use c2(2) assms(3) in simp_all)
  have bytes: "chunk_bytes c3 = compiled c @ [op_byte op_loop, high_byte j, low_byte j]"
    using c1(3) c2(3) c3(3) by simp
  have run: "emit_loop start p = Inr ((), p\<lparr>pa_compilers := set_chunk c3 c # cs\<rparr>)"
    using c1(1,4) c2(1) c3(1) j(2) by (simp add: emit_loop_def emit_back_def emit_op_def code_count_def curr_chunk_def
        this_compiler_def Let_def act_simps j_def)
  have code: "code_at c3 (Suc ?n) [high_byte j, low_byte j]"
  proof -
    have "chunk_bytes c3 = (compiled c @ [op_byte op_loop]) @ [high_byte j, low_byte j] @ []" using bytes by simp
    moreover have "length (compiled c @ [op_byte op_loop]) = Suc ?n" using assms(2) by (simp add: chunk_wf_def)
    ultimately show ?thesis using c3(2) unfolding code_at_def by blast
  qed
  have "\<exists>vm'. handle_op_loop fp vm = Inr (interpret_ok, vm') \<and> at_point fp c3 start xs g vm' \<and> moves fp vm vm'"
    if "at_point fp c3 (Suc ?n) xs g vm" for fp xs g vm
    using loop_at [OF that code j(1,2,4)] j(3) by metis
  then show ?thesis using run c3(2,4) c2(4) c1(5) bytes by (intro exI [of _ c3]) auto
qed

lemma emit_loop_returns_witness:
  "\<exists>p c ck hi lo. pa_compilers p = [c] \<and> compiled c = [op_byte op_true, op_byte op_pop] \<and>
     emit_loop 0 p = Inr ((), p\<lparr>pa_compilers := [set_chunk ck c]\<rparr>) \<and>
     chunk_bytes ck = [op_byte op_true, op_byte op_pop, op_byte op_loop, hi, lo]"
proof -
  obtain c where c: "chunk_wf (fn_chunk (co_fn c))" "compiled c = [op_byte op_true, op_byte op_pop]"
    "ck_count (fn_chunk (co_fn c)) = length [op_byte op_true, op_byte op_pop]" by (rule script_code)
  let ?p = "(script_parser [])\<lparr>pa_compilers := [c], pa_prev := Some (eof_token 1)\<rparr>"
  have "\<exists>ck hi lo. emit_loop 0 ?p = Inr ((), ?p\<lparr>pa_compilers := [set_chunk ck c]\<rparr>) \<and>
    chunk_bytes ck = compiled c @ [op_byte op_loop, hi, lo]"
    using emit_loop_returns [of ?p c "[]" "eof_token 1" 0] c(1,3) by auto
  with c(2) show ?thesis by (intro exI [of _ ?p] exI [of _ c]) auto
qed

end
