(* ===== verification/Joker_Scopes.thy ===== *)
theory Joker_Scopes
  imports Joker_Codegen
begin

text \<open>
  Names and scopes: what a name resolves to in the static chain of functions, and the balance of the locals
  with the stack at the end of a scope.
\<close>

subsection \<open>Upvalues\<close>

text \<open>An upvalue byte as the closure instruction reads it: whether a local is meant, and its index.\<close>

definition info_decode :: "u8 \<Rightarrow> bool \<times> nat" where
  "info_decode info = (drop_bit 7 info \<noteq> 0, unat (info AND 127))"

lemma info_decode_new: "i < 128 \<Longrightarrow> info_decode (new_upvalue_info (of_nat i) b) = (b, i)"
proof -
  have "list_all (\<lambda>i. info_decode (new_upvalue_info (of_nat i) b) = (b, i)) [0..<128]"
    by (cases b) (simp_all add: upt_rec info_decode_def new_upvalue_info_def)
  then show "i < 128 \<Longrightarrow> ?thesis" by (simp add: list_all_iff)
qed

text \<open>
  Where upvalue \<open>j\<close> of the innermost function leads: how many functions outwards, and to which local there.
\<close>

fun leads :: "compiler list \<Rightarrow> nat \<Rightarrow> (nat \<times> nat) option" where
  "leads [] j = None"
| "leads (c # cs) j =
     (if j < length (co_upvalues c)
      then (case info_decode (co_upvalues c ! j) of (is_local, i) \<Rightarrow>
        if is_local then Some (1, i) else map_option (\<lambda>(d, i). (Suc d, i)) (leads cs i))
      else None)"

text \<open>The innermost enclosing function with a local of the name.\<close>

fun enclosing_local :: "compiler list \<Rightarrow> token \<Rightarrow> (nat \<times> nat) option" where
  "enclosing_local (c # up # cs) name =
     (if co_fn_type c = type_script then None
      else case find_local (co_locals up) name of
          Some i \<Rightarrow> Some (1, i)
        | None \<Rightarrow> map_option (\<lambda>(d, i). (Suc d, i)) (enclosing_local (up # cs) name))"
| "enclosing_local _ name = None"

definition upvalue_room :: "compiler \<Rightarrow> bool" where
  "upvalue_room c \<longleftrightarrow> length (co_upvalues c) < upvalue_index_count \<and> length (co_locals c) \<le> 128"

lemma find_local_bound: "find_local ls name = Some i \<Longrightarrow> i < length ls"
  by (induction ls arbitrary: i) (auto split: option.splits if_splits)

lemma index_of_found: "index_of ys x = Some i \<Longrightarrow> i < length ys \<and> ys ! i = x"
  by (induction ys arbitrary: i) (auto split: if_splits)

lemma resolve_local_result: "resolve_local c name p = Inr (r, p') \<Longrightarrow> r = find_local (co_locals c) name"
  by (auto simp: resolve_local_def act_simps andThen_Inr_iff split: option.splits)

lemma add_upvalue_result:
  assumes "add_upvalue c info p = Inr ((j, c'), p')" and "length (co_upvalues c) < upvalue_index_count"
  shows "j < upvalue_index_count \<and> j < length (co_upvalues c') \<and> co_upvalues c' ! j = info \<and>
    (\<exists>us. co_upvalues c' = co_upvalues c @ us) \<and> co_locals c' = co_locals c \<and> co_fn_type c' = co_fn_type c"
  using assms by (auto simp: add_upvalue_def act_simps nth_append split: option.splits dest: index_of_found)

lemma leads_bound: "leads cs j = Some t \<Longrightarrow> cs \<noteq> [] \<and> j < length (co_upvalues (hd cs))"
  by (cases cs) (auto split: if_splits)

lemma add_upvalue_leads:
  assumes "add_upvalue c info p = Inr ((j, c'), p')" and "length (co_upvalues c) < upvalue_index_count"
    and "\<forall>k. leads cs k \<noteq> None \<longrightarrow> leads cs' k = leads cs k"
  shows "leads (c' # cs') j = (case info_decode info of (is_local, i) \<Rightarrow>
      if is_local then Some (1, i) else map_option (\<lambda>(d, i). (Suc d, i)) (leads cs' i))"
    and "\<forall>k. leads (c # cs) k \<noteq> None \<longrightarrow> leads (c' # cs') k = leads (c # cs) k"
proof -
  from add_upvalue_result [OF assms(1,2)] obtain us where c: "j < length (co_upvalues c')" "co_upvalues c' ! j = info"
    "co_upvalues c' = co_upvalues c @ us" by blast
  then show "leads (c' # cs') j = (case info_decode info of (is_local, i) \<Rightarrow>
      if is_local then Some (1, i) else map_option (\<lambda>(d, i). (Suc d, i)) (leads cs' i))" by simp
  show "\<forall>k. leads (c # cs) k \<noteq> None \<longrightarrow> leads (c' # cs') k = leads (c # cs) k"
    using assms(3) c(3) by (auto simp: nth_append split: prod.splits if_splits)
qed

lemma leads_keep:
  "\<forall>k. leads cs k \<noteq> None \<longrightarrow> leads cs' k = leads cs k \<Longrightarrow>
   \<forall>k. leads (c # cs) k \<noteq> None \<longrightarrow> leads (c # cs') k = leads (c # cs) k"
  by (auto split: prod.splits if_splits)

lemma leads_capture_local: "leads (capture_local i c # cs) k = leads (c # cs) k"
  by (simp add: capture_local_def)

lemma resolve_upvalue_run:
  assumes "resolve_upvalue cs name p = Inr ((r, cs'), p')" and "\<forall>c\<in>set cs. upvalue_room c"
  shows "(case r of None \<Rightarrow> enclosing_local cs name = None | Some j \<Rightarrow> \<exists>t. enclosing_local cs name = Some t \<and> leads cs' j = Some t \<and> j < 128) \<and>
    (\<forall>k. leads cs k \<noteq> None \<longrightarrow> leads cs' k = leads cs k)"
  using assms
proof (induction cs name arbitrary: p p' r cs' rule: resolve_upvalue.induct)
  case (1 name)
  then show ?case by (simp add: act_simps)
next
  case (2 c name)
  then show ?case by (auto simp: act_simps)
next
  case (3 c up cs name)
  show ?case
  proof (cases "co_fn_type c = type_script")
    case True
    with 3(2) show ?thesis by (auto simp: act_simps)
  next
    case False
    then obtain l p1 where l: "resolve_local up name p = Inr (l, p1)" using 3(2)
      by (auto simp: act_simps andThen_Inr_iff)
    note find = resolve_local_result [OF l]
    have room: "length (co_upvalues c) < upvalue_index_count" "length (co_locals up) \<le> 128" "\<forall>c\<in>set (up # cs). upvalue_room c"
      using 3(3) by (simp_all add: upvalue_room_def)
    show ?thesis
    proof (cases l)
      case (Some i)
      then obtain j c' where a: "add_upvalue c (new_upvalue_info (of_nat i) True) p1 = Inr ((j, c'), p')"
        and r: "r = Some j" "cs' = c' # capture_local i up # cs"
        using 3(2) l False by (auto simp: act_simps andThen_Inr_iff)
      have fl: "find_local (co_locals up) name = Some i" using find Some by simp
      have "i < 128" using find_local_bound [OF fl] room(2) by simp
      note dec = info_decode_new [OF this]
      have keep: "\<forall>k. leads (up # cs) k \<noteq> None \<longrightarrow> leads (capture_local i up # cs) k = leads (up # cs) k"
        by (simp only: leads_capture_local simp_thms)
      from add_upvalue_leads [OF a room(1) keep] show ?thesis
        using False fl r dec add_upvalue_result [OF a room(1)]
        by (simp add: upvalue_index_count_def del: leads.simps)
    next
      case None
      then obtain u ups p2 where u: "resolve_upvalue (up # cs) name p1 = Inr ((u, ups), p2)"
        using 3(2) l False by (auto simp: act_simps andThen_Inr_iff)
      note IH = 3(1) [OF False u room(3)]
      have lk: "enclosing_local (c # up # cs) name = map_option (\<lambda>(d, i). (Suc d, i)) (enclosing_local (up # cs) name)"
        using False find None by simp
      have keep: "\<forall>k. leads (up # cs) k \<noteq> None \<longrightarrow> leads ups k = leads (up # cs) k" using IH by blast
      show ?thesis
      proof (cases u)
        case N: None
        then have r: "r = None" "cs' = c # ups" using 3(2) l False None u by (auto simp: act_simps andThen_Inr_iff)
        from leads_keep [OF keep] IH N r lk show ?thesis by (simp del: leads.simps)
      next
        case (Some i)
        then obtain j c' where a: "add_upvalue c (new_upvalue_info (of_nat i) False) p2 = Inr ((j, c'), p')"
          and r: "r = Some j" "cs' = c' # ups"
          using 3(2) l False None u by (auto simp: act_simps andThen_Inr_iff)
        obtain t where t: "enclosing_local (up # cs) name = Some t" "leads ups i = Some t" using IH Some by auto
        have "i < 128" using IH Some by auto
        note dec = info_decode_new [OF this]
        from add_upvalue_leads [OF a room(1) keep] show ?thesis using lk t r dec add_upvalue_result [OF a room(1)]
          by (simp add: upvalue_index_count_def del: leads.simps)
      qed
    qed
  qed
qed

text \<open>
  C17: Closures capture by static scope: the upvalue that a name resolves to leads, through the upvalues of
  the functions between, to the last local of that name in the innermost enclosing function that has one,
  as the closure instruction decodes these bytes; a name that no enclosing function has resolves to none;
  and every upvalue handed out before still leads where it led. (With fewer than 128 upvalues and at most
  128 locals in each function: the index of an upvalue byte has 7 bits.)
\<close>

theorem resolve_upvalue_correct:
  assumes "resolve_upvalue cs name p = Inr ((r, cs'), p')" and "\<forall>c\<in>set cs. upvalue_room c"
  shows "(case r of
      None \<Rightarrow> enclosing_local cs name = None
    | Some j \<Rightarrow> \<exists>t. enclosing_local cs name = Some t \<and> leads cs' j = Some t) \<and>
    (\<forall>k. leads cs k \<noteq> None \<longrightarrow> leads cs' k = leads cs k)"
  using resolve_upvalue_run [OF assms] by (cases r) auto

text \<open>A function in a function in a block of the script, where the name stands.\<close>

definition nested :: "compiler list" where
  "nested = (let name = (\<lambda>s d. \<lparr>lv_name = make_token token_identifier s 1, lv_depth = d, lv_is_captured = False\<rparr>);
     f = script_compiler\<lparr>co_fn_type := type_fn\<rparr> in
     [f, f, script_compiler\<lparr>co_locals := [name [] 0, name ''x'' 1, name ''y'' 1]\<rparr>])"

lemma resolve_upvalue_correct_witness:
  "\<exists>r cs'. resolve_upvalue nested (make_token token_identifier ''x'' 2) (script_parser []) = Inr ((r, cs'), script_parser []) \<and>
     enclosing_local nested (make_token token_identifier ''x'' 2) = Some (2, 1) \<and> r = Some 0 \<and> leads cs' 0 = Some (2, 1)"
proof -
  let ?x = "make_token token_identifier ''x'' 2"
  have room: "\<forall>c\<in>set nested. upvalue_room c"
    by (simp add: nested_def Let_def upvalue_room_def script_compiler_def upvalue_index_count_def)
  have e: "enclosing_local nested ?x = Some (2, 1)"
    by (simp add: nested_def Let_def script_compiler_def identifiers_equal_def equal_token_def make_token_def first_local_def)
  obtain cs' where r: "resolve_upvalue nested ?x (script_parser []) = Inr ((Some 0, cs'), script_parser [])"
    by (simp add: nested_def Let_def script_compiler_def resolve_local_def identifiers_equal_def equal_token_def make_token_def
        first_local_def add_upvalue_def upvalue_index_count_def act_simps)
  from resolve_upvalue_correct [OF r room] e r show ?thesis by auto
qed

subsection \<open>Scopes\<close>

text \<open>The instruction that takes a local off the stack.\<close>

definition leave_op :: "local_variable \<Rightarrow> u8" where
  "leave_op l = op_byte (if lv_is_captured l then op_close_upvalue else op_pop)"

lemma end_scope_loop_run:
  assumes "pa_compilers p = c # cs" and "chunk_wf (fn_chunk (co_fn c))" and "pa_prev p = Some t"
    and "rev (co_locals c) = ls"
  shows "\<exists>ck. end_scope_loop ls d p =
      Inr ((), p\<lparr>pa_compilers := (set_chunk ck c)\<lparr>co_locals := rev (dropWhile (\<lambda>l. d < lv_depth l) ls)\<rparr> # cs\<rparr>) \<and>
    chunk_wf ck \<and> chunk_bytes ck = compiled c @ map leave_op (takeWhile (\<lambda>l. d < lv_depth l) ls) \<and>
    ck_constants ck = ck_constants (fn_chunk (co_fn c))"
  using assms
proof (induction ls arbitrary: p c)
  case Nil
  have "c\<lparr>co_locals := []\<rparr> = c" "p\<lparr>pa_compilers := c # cs\<rparr> = p" using Nil(1,4) by simp_all
  with Nil(2) show ?case by (intro exI [of _ "fn_chunk (co_fn c)"]) (simp add: act_simps)
next
  case (Cons l ls)
  have ls: "co_locals c = rev ls @ [l]" using Cons.prems(4) by (simp add: rev_swap [symmetric])
  show ?case
  proof (cases "d < lv_depth l")
    case False
    have "c\<lparr>co_locals := rev ls @ [l]\<rparr> = c" "p\<lparr>pa_compilers := c # cs\<rparr> = p" using Cons.prems(1) ls by simp_all
    with False Cons.prems(2) show ?thesis by (intro exI [of _ "fn_chunk (co_fn c)"]) (simp add: act_simps)
  next
    case True
    obtain ck where ck: "emit_byte (leave_op l) p = Inr ((), p\<lparr>pa_compilers := set_chunk ck c # cs\<rparr>)" "chunk_wf ck"
      "chunk_bytes ck = compiled c @ [leave_op l]" "ck_constants ck = ck_constants (fn_chunk (co_fn c))"
      by (rule emit_byte_at [OF Cons.prems(1-3)])
    let ?c = "(set_chunk ck c)\<lparr>co_locals := rev ls\<rparr>" and ?p = "p\<lparr>pa_compilers := (set_chunk ck c)\<lparr>co_locals := rev ls\<rparr> # cs\<rparr>"
    have c: "fn_chunk (co_fn ?c) = ck" "set_chunk ck' ?c = (set_chunk ck' c)\<lparr>co_locals := rev ls\<rparr>" for ck'
      by (simp_all add: set_chunk_def)
    obtain ck' where ck': "end_scope_loop ls d ?p =
        Inr ((), ?p\<lparr>pa_compilers := (set_chunk ck' ?c)\<lparr>co_locals := rev (dropWhile (\<lambda>l. d < lv_depth l) ls)\<rparr> # cs\<rparr>)"
      "chunk_wf ck'" "chunk_bytes ck' = compiled ?c @ map leave_op (takeWhile (\<lambda>l. d < lv_depth l) ls)"
      "ck_constants ck' = ck_constants (fn_chunk (co_fn ?c))"
      using Cons.IH [of ?p ?c] c(1) ck(2) Cons.prems(3) by auto
    have "emit_op (if lv_is_captured l then op_close_upvalue else op_pop) p = Inr ((), p\<lparr>pa_compilers := set_chunk ck c # cs\<rparr>)"
      using ck(1) by (simp add: emit_op_def leave_op_def)
    then have "end_scope_loop (l # ls) d p =
        Inr ((), p\<lparr>pa_compilers := (set_chunk ck' c)\<lparr>co_locals := rev (dropWhile (\<lambda>l. d < lv_depth l) ls)\<rparr> # cs\<rparr>)"
      using True ck'(1) c(2) ls by (simp add: act_simps modify_compiler_def this_compiler_def put_compiler_def)
    with True ck ck'(2-4) c(1) show ?thesis by (intro exI [of _ ck']) simp
  qed
qed



end
