(* ===== verification/Joker_Gc.thy ===== *)
theory Joker_Gc
  imports Joker_Machine
begin

text \<open>
  The mark-sweep collector (include/gc.h, src/gc.c) over the machine: what it marks, in the order of the
  code, and what it frees. It is not triggered inside the model of the machine; here it runs on a state of
  it. A string is named by its content, as in the other theories, and \<open>vm->objects\<close> is the list of all
  objects that are allocated, the last one first. Following a pointer to something that is not in this list
  is \<open>Undefined\<close>.
\<close>

subsection \<open>State\<close>

text \<open>
  The machine with the fields only the collector uses: the functions of the compilers from
  \<open>vm->compiler\<close> outwards, \<open>init_string\<close>, the objects, their marks, the string pool, the gray stack (its
  used part, the top last) and the account of bytes.
\<close>

record gc_vm =
  gv_vm :: vm
  gv_compilers :: "nat list"
  gv_init_string :: "string option"
  gv_objects :: "objref list"
  gv_marked :: "objref set"
  gv_strings :: "string hashmap"
  gray_stack :: "objref list"
  gray_capacity :: nat
  bytes_allocated :: u64
  next_gc :: u64

type_synonym gc_action = "(gc_vm, unit) action"

definition GC_HEAP_GROW_FACTOR :: u64 where
  "GC_HEAP_GROW_FACTOR = 2"

text \<open>\<open>new_garbage_collector\<close>.\<close>

definition new_garbage_collector :: "gc_vm \<Rightarrow> gc_vm" where
  "new_garbage_collector g = g\<lparr>bytes_allocated := 0, gray_capacity := 0, gray_stack := [], next_gc := 1024 * 1024\<rparr>"

abbreviation gv_heap :: "gc_vm \<Rightarrow> heap" where
  "gv_heap g \<equiv> vm_heap (gv_vm g)"

subsection \<open>Marking\<close>

text \<open>\<open>object->is_marked\<close>, and the growth of the gray stack.\<close>

definition marked :: "objref \<Rightarrow> (gc_vm, bool) action" where
  "marked r = act_with (\<lambda>g. if r \<in> set (gv_objects g) then Inr (r \<in> gv_marked g) else Inl (Undefined ''dangling object''))"

definition gray_push :: "objref \<Rightarrow> gc_vm \<Rightarrow> gc_vm" where
  "gray_push r g =
     (let g = (if gray_capacity g < length (gray_stack g) + 1
               then g\<lparr>gray_capacity := macro_grow_capacity (gray_capacity g)\<rparr> else g)
      in g\<lparr>gray_stack := gray_stack g @ [r]\<rparr>)"

definition mark_object :: "objref option \<Rightarrow> gc_action" where
  "mark_object object =
     (case object of
        None \<Rightarrow> act_return ()
      | Some r \<Rightarrow> act_bind (marked r) (\<lambda>m.
          if m then act_return ()
          else act_update (\<lambda>g. gray_push r (g\<lparr>gv_marked := insert r (gv_marked g)\<rparr>))))"

definition mark_value :: "jvalue \<Rightarrow> gc_action" where
  "mark_value v = (case v of VObject r \<Rightarrow> mark_object (Some r) | _ \<Rightarrow> act_return ())"

definition mark_string :: "string \<Rightarrow> gc_action" where
  "mark_string s = mark_object (Some (StrRef s))"

definition mark_addr :: "nat \<Rightarrow> gc_action" where
  "mark_addr a = mark_object (Some (ObjRef a))"

text \<open>A tombstone has a null key, which \<open>mark_object\<close> ignores.\<close>

definition mark_entry :: "string entry \<Rightarrow> gc_action" where
  "mark_entry e =
     (if is_empty_entry e then act_return ()
      else act_seq [mark_object (map_option StrRef (e_key e)), mark_value (e_value e)])"

definition mark_hashmap :: "string hashmap \<Rightarrow> gc_action" where
  "mark_hashmap m = act_seq (map mark_entry (hm_entries m))"

definition mark_values :: "value_array \<Rightarrow> gc_action" where
  "mark_values values = act_seq (map (\<lambda>i. act_bind (act_lift (value_at values i)) mark_value) [0..<va_count values])"

text \<open>\<open>vec_len\<close> reads through the pointer.\<close>

definition mark_vec :: "vec option \<Rightarrow> gc_action" where
  "mark_vec opt =
     (case opt of
        None \<Rightarrow> act_halt (Undefined ''null vec'')
      | Some v \<Rightarrow> act_seq (map (\<lambda>i. act_bind (act_lift (buf_read (v_start v) i)) mark_value) [0..<vec_len v]))"

definition blacken :: "obj \<Rightarrow> gc_action" where
  "blacken x =
     (case x of
        OPair p \<Rightarrow> act_seq [mark_value (pr_first p), mark_value (pr_second p)]
      | OEnumInstance i \<Rightarrow> act_seq [mark_string (ei_name i), mark_vec (ei_values i)]
      | OEnum e \<Rightarrow> act_seq [mark_string (en_name e), mark_hashmap (en_members e)]
      | OVec v \<Rightarrow> mark_vec (Some v)
      | OStruct s \<Rightarrow> act_seq [mark_hashmap (st_fields s),
          act_bind (act_with (\<lambda>g. get_vec (gv_heap g) (st_names s))) (\<lambda>v. mark_vec (Some v))]
      | OBoundMethod b \<Rightarrow> act_seq [mark_value (bm_receiver b), mark_addr (bm_method b)]
      | OInstance i \<Rightarrow> act_seq [mark_addr (in_klass i), mark_hashmap (in_fields i)]
      | OClass c \<Rightarrow> act_seq [mark_string (cls_name c), mark_hashmap (cls_methods c)]
      | OClosure c \<Rightarrow> act_seq (mark_addr (cl_fn c) # map (\<lambda>u. mark_object (map_option ObjRef u)) (cl_upvalue_ptrs c))
      | OFn f \<Rightarrow> act_seq [mark_object (map_option StrRef (fn_name f)), mark_values (ck_constants (fn_chunk f))]
      | OUpvalue u \<Rightarrow> mark_value (uv_closed u)
      | ONative _ \<Rightarrow> act_return ())"

definition blacken_object :: "objref \<Rightarrow> gc_action" where
  "blacken_object r =
     (case r of
        StrRef _ \<Rightarrow> act_return ()
      | ObjRef a \<Rightarrow> act_bind (act_with (\<lambda>g. case h_objs (gv_heap g) a of
            None \<Rightarrow> Inl (Undefined ''dangling object'') | Some x \<Rightarrow> Inr x)) blacken)"

text \<open>
  The locations of open upvalues, slots of the stack, are marked as if they were objects.
\<close>

definition mark_open_upvalues :: gc_action where
  "mark_open_upvalues = act_bind (act_get (\<lambda>g. vm_open_upv_ptr (gv_vm g))) (\<lambda>u.
     case u of None \<Rightarrow> act_return () | Some _ \<Rightarrow> act_halt (Undefined ''a stack slot is no object''))"

definition mark_compiler_roots :: gc_action where
  "mark_compiler_roots = act_bind (act_get gv_compilers) (\<lambda>fns. act_seq (map mark_addr fns))"

definition mark_stack :: gc_action where
  "mark_stack = act_bind (act_get (\<lambda>g. vm_stack_top (gv_vm g))) (\<lambda>n.
     act_seq (map (\<lambda>i. act_bind (act_with (\<lambda>g. buf_read (vm_stack (gv_vm g)) i)) mark_value) [0..<n]))"

definition mark_frames :: gc_action where
  "mark_frames = act_bind (act_get (\<lambda>g. vm_frame_count (gv_vm g))) (\<lambda>n.
     act_seq (map (\<lambda>i. act_bind (act_with (\<lambda>g. buf_read (vm_frames (gv_vm g)) i)) (\<lambda>f. mark_addr (cf_closure f))) [0..<n]))"

definition mark_roots :: gc_action where
  "mark_roots = act_seq
     [mark_stack, mark_frames, mark_open_upvalues,
      act_bind (act_get (\<lambda>g. vm_globals (gv_vm g))) mark_hashmap,
      mark_compiler_roots,
      act_bind (act_get gv_init_string) (\<lambda>s. mark_object (map_option StrRef s))]"

definition gray_pop :: "(gc_vm, objref) action" where
  "gray_pop = act_bind (act_get gray_stack) (\<lambda>rs.
     act_then (act_update (\<lambda>g. g\<lparr>gray_stack := butlast rs\<rparr>)) (act_return (last rs)))"

definition trace_references :: "nat \<Rightarrow> gc_action" where
  "trace_references fuel =
     act_while fuel (act_get (\<lambda>g. gray_stack g \<noteq> [])) (act_bind gray_pop blacken_object)"

subsection \<open>Sweeping\<close>

text \<open>A tombstone of the pool has no key whose mark could be read.\<close>

definition remove_white_at :: "nat \<Rightarrow> gc_action" where
  "remove_white_at i =
     act_bind (act_get (\<lambda>g. hm_entries (gv_strings g) ! i)) (\<lambda>e.
       if is_empty_entry e then act_return ()
       else case e_key e of
           None \<Rightarrow> act_halt (Undefined ''null key'')
         | Some s \<Rightarrow> act_bind (marked (StrRef s)) (\<lambda>m.
             if m then act_return ()
             else act_bind (act_with (\<lambda>g. hashmap_remove hash_string (gv_strings g) s)) (\<lambda>(t, _).
               act_update (\<lambda>g. g\<lparr>gv_strings := t\<rparr>))))"

definition hashmap_remove_white :: gc_action where
  "hashmap_remove_white = act_bind (act_get (\<lambda>g. hm_capacity (gv_strings g))) (\<lambda>n.
     act_seq (map remove_white_at [0..<n]))"

text \<open>\<open>bytes\<close> gives the bytes that the release of an object takes off the account.\<close>

definition free_object :: "(objref \<Rightarrow> u64) \<Rightarrow> objref \<Rightarrow> gc_vm \<Rightarrow> gc_vm" where
  "free_object bytes r g =
     (let g = g\<lparr>bytes_allocated := bytes_allocated g - bytes r\<rparr> in
      case r of
        StrRef _ \<Rightarrow> g
      | ObjRef a \<Rightarrow> g\<lparr>gv_vm := (gv_vm g)\<lparr>vm_heap := (gv_heap g)\<lparr>h_objs := (h_objs (gv_heap g))(a := None)\<rparr>\<rparr>\<rparr>)"

text \<open>The loop of \<open>sweep\<close>, with the rest of the list; it gives the list it leaves.\<close>

primrec sweep_loop :: "(objref \<Rightarrow> u64) \<Rightarrow> objref list \<Rightarrow> gc_vm \<Rightarrow> objref list \<times> gc_vm" where
  "sweep_loop bytes [] g = ([], g)"
| "sweep_loop bytes (r # rs) g =
     (if r \<in> gv_marked g
      then let (kept, g) = sweep_loop bytes rs (g\<lparr>gv_marked := gv_marked g - {r}\<rparr>) in (r # kept, g)
      else sweep_loop bytes rs (free_object bytes r g))"

definition sweep :: "(objref \<Rightarrow> u64) \<Rightarrow> gc_action" where
  "sweep bytes = act_update (\<lambda>g. let (kept, g) = sweep_loop bytes (gv_objects g) g in g\<lparr>gv_objects := kept\<rparr>)"

definition collect_garbage :: "(objref \<Rightarrow> u64) \<Rightarrow> nat \<Rightarrow> gc_action" where
  "collect_garbage bytes fuel = act_seq
     [mark_roots, trace_references fuel, hashmap_remove_white, sweep bytes,
      act_update (\<lambda>g. g\<lparr>next_gc := bytes_allocated g * GC_HEAP_GROW_FACTOR\<rparr>)]"

subsection \<open>What marking reaches\<close>

definition value_refs :: "jvalue \<Rightarrow> objref list" where
  "value_refs v = (case v of VObject r \<Rightarrow> [r] | _ \<Rightarrow> [])"

definition option_refs :: "('a \<Rightarrow> objref) \<Rightarrow> 'a option \<Rightarrow> objref list" where
  "option_refs f x = (case x of None \<Rightarrow> [] | Some y \<Rightarrow> [f y])"

definition entry_refs :: "string entry \<Rightarrow> objref list" where
  "entry_refs e = (if is_empty_entry e then [] else option_refs StrRef (e_key e) @ value_refs (e_value e))"

definition table_refs :: "string hashmap \<Rightarrow> objref list" where
  "table_refs m = concat (map entry_refs (hm_entries m))"

definition vec_refs :: "vec \<Rightarrow> objref list" where
  "vec_refs v = concat (map value_refs (vec_list v))"

text \<open>The pointers that \<open>blacken\<close> follows.\<close>

definition obj_refs :: "heap \<Rightarrow> obj \<Rightarrow> objref list" where
  "obj_refs h x =
     (case x of
        OPair p \<Rightarrow> value_refs (pr_first p) @ value_refs (pr_second p)
      | OEnumInstance i \<Rightarrow> StrRef (ei_name i) # (case ei_values i of None \<Rightarrow> [] | Some v \<Rightarrow> vec_refs v)
      | OEnum e \<Rightarrow> StrRef (en_name e) # table_refs (en_members e)
      | OVec v \<Rightarrow> vec_refs v
      | OStruct s \<Rightarrow> table_refs (st_fields s) @ (case get_vec h (st_names s) of Inl _ \<Rightarrow> [] | Inr v \<Rightarrow> vec_refs v)
      | OBoundMethod b \<Rightarrow> value_refs (bm_receiver b) @ [ObjRef (bm_method b)]
      | OInstance i \<Rightarrow> ObjRef (in_klass i) # table_refs (in_fields i)
      | OClass c \<Rightarrow> StrRef (cls_name c) # table_refs (cls_methods c)
      | OClosure c \<Rightarrow> ObjRef (cl_fn c) # concat (map (option_refs ObjRef) (cl_upvalue_ptrs c))
      | OFn f \<Rightarrow> option_refs StrRef (fn_name f) @ concat (map value_refs (va_list (ck_constants (fn_chunk f))))
      | OUpvalue u \<Rightarrow> value_refs (uv_closed u)
      | ONative _ \<Rightarrow> [])"

definition vec_readable :: "vec \<Rightarrow> bool" where
  "vec_readable v \<longleftrightarrow> (\<exists>xs. holds (v_start v) xs \<and> v_finish v = length xs)"

definition obj_readable :: "heap \<Rightarrow> obj \<Rightarrow> bool" where
  "obj_readable h x =
     (case x of
        OEnumInstance i \<Rightarrow> (\<exists>v. ei_values i = Some v \<and> vec_readable v)
      | OVec v \<Rightarrow> vec_readable v
      | OStruct s \<Rightarrow> (\<exists>v. get_vec h (st_names s) = Inr v \<and> vec_readable v)
      | OFn f \<Rightarrow> va_wf (ck_constants (fn_chunk f))
      | _ \<Rightarrow> True)"

text \<open>\<open>shades rs\<close>: the objects \<open>rs\<close> are marked, and those of them that were not go onto the gray stack.\<close>

definition shades :: "objref list \<Rightarrow> gc_vm \<Rightarrow> gc_vm \<Rightarrow> bool" where
  "shades rs g g' \<longleftrightarrow> (\<exists>ns c. g' = g\<lparr>gv_marked := gv_marked g \<union> set rs, gray_stack := gray_stack g @ ns, gray_capacity := c\<rparr> \<and>
     set ns = set rs - gv_marked g \<and> distinct ns)"

text \<open>A state that marking has brought about from \<open>w\<close>.\<close>

definition within :: "gc_vm \<Rightarrow> gc_vm \<Rightarrow> bool" where
  "within w g \<longleftrightarrow> (\<exists>ms gs c. g = w\<lparr>gv_marked := ms, gray_stack := gs, gray_capacity := c\<rparr>)"

definition marks :: "gc_vm \<Rightarrow> objref list \<Rightarrow> gc_action \<Rightarrow> bool" where
  "marks w rs m \<longleftrightarrow> (set rs \<subseteq> set (gv_objects w) \<longrightarrow> (\<forall>g. within w g \<longrightarrow> (\<exists>g'. m g = Inr ((), g') \<and> shades rs g g')))"

lemma within_refl: "within g g"
  unfolding within_def
  by (intro exI [of _ "gv_marked g"] exI [of _ "gray_stack g"] exI [of _ "gray_capacity g"]) simp

lemma withinD:
  assumes "within w g"
  shows "gv_vm g = gv_vm w" "gv_objects g = gv_objects w" "gv_compilers g = gv_compilers w"
    "gv_init_string g = gv_init_string w" "gv_strings g = gv_strings w"
  using assms by (auto simp: within_def)

lemma within_shades: "within w g \<Longrightarrow> shades rs g g' \<Longrightarrow> within w g'"
  by (fastforce simp: within_def shades_def)

lemma shades_refl: "shades [] g g"
  unfolding shades_def by (intro exI [of _ "[]"] exI [of _ "gray_capacity g"]) simp

lemma shades_trans:
  assumes "shades rs g g1" and "shades rs' g1 g2"
  shows "shades (rs @ rs') g g2"
proof -
  obtain ns c where 1: "g1 = g\<lparr>gv_marked := gv_marked g \<union> set rs, gray_stack := gray_stack g @ ns, gray_capacity := c\<rparr>"
    "set ns = set rs - gv_marked g" "distinct ns" using assms(1) by (auto simp: shades_def)
  obtain ns' c' where 2: "g2 = g1\<lparr>gv_marked := gv_marked g1 \<union> set rs', gray_stack := gray_stack g1 @ ns', gray_capacity := c'\<rparr>"
    "set ns' = set rs' - gv_marked g1" "distinct ns'" using assms(2) by (auto simp: shades_def)
  show ?thesis unfolding shades_def
    by (intro exI [of _ "ns @ ns'"] exI [of _ c']) (use 1 2 in \<open>auto simp: Un_assoc\<close>)
qed

lemma shades_same: "shades rs g g' \<Longrightarrow> gv_vm g' = gv_vm g \<and> gv_objects g' = gv_objects g"
  by (auto simp: shades_def)

lemma marks_Nil: "marks w [] (act_return ())"
  unfolding marks_def using shades_refl by (auto simp: act_simps)

lemma marks_then:
  assumes "marks w rs m" and "marks w rs' n"
  shows "marks w (rs @ rs') (act_then m n)"
  unfolding marks_def
proof (intro allI impI)
  fix g
  assume rs: "set (rs @ rs') \<subseteq> set (gv_objects w)" and g: "within w g"
  with assms(1) obtain g1 where g1: "m g = Inr ((), g1)" "shades rs g g1" by (auto simp: marks_def)
  from assms(2) rs within_shades [OF g g1(2)] obtain g2 where g2: "n g1 = Inr ((), g2)" "shades rs' g1 g2"
    by (auto simp: marks_def)
  show "\<exists>g'. act_then m n g = Inr ((), g') \<and> shades (rs @ rs') g g'"
    using g1(1) g2(1) shades_trans [OF g1(2) g2(2)] by (simp add: act_simps)
qed

lemma marks_seq: "list_all2 (marks w) rss ms \<Longrightarrow> marks w (concat rss) (act_seq ms)"
  by (induction rule: list_all2_induct) (simp_all add: marks_Nil marks_then)

lemma marks_map: "(\<And>x. x \<in> set xs \<Longrightarrow> marks w (f x) (m x)) \<Longrightarrow> marks w (concat (map f xs)) (act_seq (map m xs))"
  by (rule marks_seq) (simp add: list_all2_conv_all_nth)

lemma mark_object_marks: "marks w [r] (mark_object (Some r))"
  unfolding marks_def
proof (intro allI impI)
  fix g
  assume "set [r] \<subseteq> set (gv_objects w)" and "within w g"
  then have m: "marked r g = Inr (r \<in> gv_marked g, g)" by (simp add: marked_def act_simps withinD)
  show "\<exists>g'. mark_object (Some r) g = Inr ((), g') \<and> shades [r] g g'"
  proof (cases "r \<in> gv_marked g")
    case True
    then have "shades [r] g g" unfolding shades_def
      by (intro exI [of _ "[]"] exI [of _ "gray_capacity g"]) (auto simp: insert_absorb)
    with m True show ?thesis by (simp add: mark_object_def act_simps)
  next
    case False
    then have "shades [r] g (gray_push r (g\<lparr>gv_marked := insert r (gv_marked g)\<rparr>))" unfolding shades_def
      by (intro exI [of _ "[r]"] exI [of _ "gray_capacity (gray_push r g)"]) (auto simp: gray_push_def Let_def)
    with m False show ?thesis by (simp add: mark_object_def act_simps)
  qed
qed

lemma mark_option_marks: "marks w (option_refs f x) (mark_object (map_option f x))"
  by (cases x) (simp_all add: option_refs_def mark_object_marks, simp add: mark_object_def marks_Nil)

lemma mark_value_marks: "marks w (value_refs v) (mark_value v)"
  by (cases v) (simp_all add: value_refs_def mark_value_def marks_Nil mark_object_marks)

lemma marks_two: "marks w rs m \<Longrightarrow> marks w rs' n \<Longrightarrow> marks w (rs @ rs') (act_seq [m, n])"
  using marks_seq [of w "[rs, rs']" "[m, n]"] by simp

lemma mark_hashmap_marks: "marks w (table_refs m) (mark_hashmap m)"
proof -
  have "marks w (entry_refs e) (mark_entry e)" for e
    by (simp only: entry_refs_def mark_entry_def marks_Nil marks_two mark_option_marks mark_value_marks split: if_split) simp
  then show ?thesis unfolding table_refs_def mark_hashmap_def by (intro marks_map)
qed

lemma marks_lift: "m = Inr x \<Longrightarrow> marks w rs (f x) \<Longrightarrow> marks w rs (act_bind (act_lift m) f)"
  by (simp add: marks_def act_simps)

lemma marks_with: "(\<And>g. within w g \<Longrightarrow> k g = Inr x) \<Longrightarrow> marks w rs (f x) \<Longrightarrow> marks w rs (act_bind (act_with k) f)"
  by (simp add: marks_def act_simps)

lemma marks_reads:
  assumes "\<And>i. i < length xs \<Longrightarrow> marks w (value_refs (xs ! i)) (m i)"
  shows "marks w (concat (map value_refs xs)) (act_seq (map m [0..<length xs]))"
  by (rule marks_seq) (use assms in \<open>simp add: list_all2_conv_all_nth\<close>)

lemma mark_values_marks: "va_wf a \<Longrightarrow> marks w (concat (map value_refs (va_list a))) (mark_values a)"
  unfolding mark_values_def va_wf_def
  by (auto intro!: marks_reads marks_lift [OF _ mark_value_marks] va.get_law simp: va_wf_def)

lemma vec_readableD:
  assumes "vec_readable v"
  shows "vec_len v = length (vec_list v)" and "i < length (vec_list v) \<Longrightarrow> buf_read (v_start v) i = Inr (vec_list v ! i)"
proof -
  obtain xs where xs: "holds (v_start v) xs" "v_finish v = length xs" using assms by (auto simp: vec_readable_def)
  then have "vec_list v = xs" by (auto simp: vec_list_def holds_def comp_def)
  with xs show "vec_len v = length (vec_list v)" and "i < length (vec_list v) \<Longrightarrow> buf_read (v_start v) i = Inr (vec_list v ! i)"
    by (auto simp: vec_len_def holds_read holds_def)
qed

lemma mark_vec_marks: "vec_readable v \<Longrightarrow> marks w (vec_refs v) (mark_vec (Some v))"
  unfolding mark_vec_def vec_refs_def
  by (auto intro!: marks_reads marks_lift [OF _ mark_value_marks] simp: vec_readableD)

lemma marks_Cons: "marks w [r] m \<Longrightarrow> marks w rs n \<Longrightarrow> marks w (r # rs) (act_seq [m, n])"
  using marks_two [of w "[r]" m rs n] by simp

lemma marks_names: "marks w [StrRef s] (mark_string s)" "marks w [ObjRef a] (mark_addr a)"
  by (simp_all add: mark_string_def mark_addr_def mark_object_marks)

lemma blacken_marks:
  assumes "obj_readable (gv_heap w) x"
  shows "marks w (obj_refs (gv_heap w) x) (blacken x)"
proof (cases x)
  case (OFn f)
  with assms show ?thesis
    by (auto simp: blacken_def obj_refs_def obj_readable_def intro!: marks_two mark_option_marks mark_values_marks
        simp del: act_seq.simps)
next
  case (OClosure c)
  have "marks w ([ObjRef (cl_fn c)] @ concat (map (option_refs ObjRef) (cl_upvalue_ptrs c)))
    (act_then (mark_addr (cl_fn c)) (act_seq (map (\<lambda>u. mark_object (map_option ObjRef u)) (cl_upvalue_ptrs c))))"
    by (intro marks_then marks_names marks_map mark_option_marks)
  with OClosure show ?thesis by (simp add: blacken_def obj_refs_def)
next
  case (OStruct s)
  with assms obtain v where v: "get_vec (gv_heap w) (st_names s) = Inr v" "vec_readable v"
    by (auto simp: obj_readable_def)
  then have "marks w (vec_refs v) (act_bind (act_with (\<lambda>g. get_vec (gv_heap g) (st_names s))) (\<lambda>v. mark_vec (Some v)))"
    by (intro marks_with [where x = v]) (simp_all add: mark_vec_marks withinD)
  with OStruct v show ?thesis by (simp add: blacken_def obj_refs_def marks_two mark_hashmap_marks del: act_seq.simps)
next
  case (OEnumInstance i)
  with assms show ?thesis
    by (auto simp: blacken_def obj_refs_def obj_readable_def intro!: marks_Cons marks_names mark_vec_marks
        simp del: act_seq.simps)
next
  case (OVec v)
  with assms show ?thesis by (simp add: blacken_def obj_refs_def obj_readable_def mark_vec_marks)
next
  case (OBoundMethod b)
  then show ?thesis by (simp add: blacken_def obj_refs_def marks_two mark_value_marks marks_names del: act_seq.simps)
qed (simp_all add: blacken_def obj_refs_def marks_Cons marks_two marks_names mark_hashmap_marks mark_value_marks marks_Nil
    del: act_seq.simps)

subsection \<open>Marking everything that is reachable\<close>

definition slot_refs :: "('a \<Rightarrow> objref list) \<Rightarrow> 'a option \<Rightarrow> objref list" where
  "slot_refs f x = (case x of None \<Rightarrow> [] | Some y \<Rightarrow> f y)"

definition root_refs :: "gc_vm \<Rightarrow> objref list" where
  "root_refs g =
     concat (map (slot_refs value_refs) (take (vm_stack_top (gv_vm g)) (vm_stack (gv_vm g)))) @
     concat (map (slot_refs (\<lambda>f. [ObjRef (cf_closure f)])) (take (vm_frame_count (gv_vm g)) (vm_frames (gv_vm g)))) @
     table_refs (vm_globals (gv_vm g)) @ map ObjRef (gv_compilers g) @ option_refs StrRef (gv_init_string g)"

definition ref_refs :: "heap \<Rightarrow> objref \<Rightarrow> objref list" where
  "ref_refs h r = (case r of StrRef _ \<Rightarrow> [] | ObjRef a \<Rightarrow> (case h_objs h a of None \<Rightarrow> [] | Some x \<Rightarrow> obj_refs h x))"

inductive_set reached :: "gc_vm \<Rightarrow> objref set" for g where
  reached_root: "r \<in> set (root_refs g) \<Longrightarrow> r \<in> reached g"
| reached_step: "r \<in> reached g \<Longrightarrow> s \<in> set (ref_refs (gv_heap g) r) \<Longrightarrow> s \<in> reached g"

text \<open>
  A state the collector can work on: the used slots and frames are written, no upvalue is open, every
  pointer in a root or in an object leads to an object in the list, and every object can be read.
\<close>

definition gc_ready :: "gc_vm \<Rightarrow> bool" where
  "gc_ready g \<longleftrightarrow>
     (\<forall>i<vm_stack_top (gv_vm g). \<exists>v. buf_read (vm_stack (gv_vm g)) i = Inr v) \<and>
     (\<forall>i<vm_frame_count (gv_vm g). \<exists>f. buf_read (vm_frames (gv_vm g)) i = Inr f) \<and>
     vm_open_upv_ptr (gv_vm g) = None \<and>
     set (root_refs g) \<subseteq> set (gv_objects g) \<and>
     (\<forall>a. ObjRef a \<in> set (gv_objects g) \<longrightarrow> (\<exists>x. h_objs (gv_heap g) a = Some x \<and> obj_readable (gv_heap g) x \<and>
        set (obj_refs (gv_heap g) x) \<subseteq> set (gv_objects g))) \<and>
     distinct (gv_objects g) \<and> gv_marked g = {} \<and> gray_stack g = []"

lemma gc_readyD:
  assumes "gc_ready g"
  shows "set (root_refs g) \<subseteq> set (gv_objects g)" and "vm_open_upv_ptr (gv_vm g) = None"
    and "ObjRef a \<in> set (gv_objects g) \<Longrightarrow> \<exists>x. h_objs (gv_heap g) a = Some x \<and> obj_readable (gv_heap g) x \<and>
      ref_refs (gv_heap g) (ObjRef a) = obj_refs (gv_heap g) x"
    and "r \<in> set (gv_objects g) \<Longrightarrow> set (ref_refs (gv_heap g) r) \<subseteq> set (gv_objects g)"
proof -
  show "set (root_refs g) \<subseteq> set (gv_objects g)" and "vm_open_upv_ptr (gv_vm g) = None"
    using assms by (simp_all add: gc_ready_def)
  have x: "\<exists>x. h_objs (gv_heap g) a = Some x \<and> obj_readable (gv_heap g) x \<and> set (obj_refs (gv_heap g) x) \<subseteq> set (gv_objects g)"
    if "ObjRef a \<in> set (gv_objects g)" for a using assms that by (simp add: gc_ready_def)
  show "\<exists>x. h_objs (gv_heap g) a = Some x \<and> obj_readable (gv_heap g) x \<and> ref_refs (gv_heap g) (ObjRef a) = obj_refs (gv_heap g) x"
    if "ObjRef a \<in> set (gv_objects g)" using x [OF that] by (auto simp: ref_refs_def)
  show "set (ref_refs (gv_heap g) r) \<subseteq> set (gv_objects g)" if "r \<in> set (gv_objects g)"
  proof (cases r)
    case (ObjRef a)
    with x [of a] that show ?thesis by (auto simp: ref_refs_def)
  qed (simp add: ref_refs_def)
qed

lemma reached_objects: "r \<in> reached g \<Longrightarrow> gc_ready g \<Longrightarrow> r \<in> set (gv_objects g)"
  by (induction rule: reached.induct) (use gc_readyD in blast)+

lemma marks_bind_get:
  "(\<And>g. within w g \<Longrightarrow> k g = x) \<Longrightarrow> marks w rs (f x) \<Longrightarrow> marks w rs (act_bind (act_get k) f)"
  by (simp add: marks_def act_simps)

lemma marks_slots:
  assumes "\<forall>i<n. \<exists>v. buf_read (B (gv_vm w)) i = Inr v" and "\<And>x. marks w (f x) (m x)"
  shows "marks w (concat (map (slot_refs f) (take n (B (gv_vm w)))))
    (act_seq (map (\<lambda>i. act_bind (act_with (\<lambda>g. buf_read (B (gv_vm g)) i)) m) [0..<n]))"
proof -
  have read: "\<exists>v. buf_read (B (gv_vm w)) i = Inr v \<and> B (gv_vm w) ! i = Some v \<and> i < length (B (gv_vm w))" if "i < n" for i
    using assms(1) that by (fastforce simp: buf_read_def split: if_splits option.splits)
  then have "n \<le> length (B (gv_vm w))" using read [of "length (B (gv_vm w))"] not_less by blast
  moreover have "marks w (slot_refs f (B (gv_vm w) ! i)) (act_bind (act_with (\<lambda>g. buf_read (B (gv_vm g)) i)) m)" if i: "i < n" for i
  proof -
    obtain v where "buf_read (B (gv_vm w)) i = Inr v" "B (gv_vm w) ! i = Some v" using read [OF i] by blast
    then show ?thesis by (intro marks_with [where x = v]) (simp_all add: slot_refs_def assms(2) withinD)
  qed
  ultimately show ?thesis by (intro marks_seq) (simp add: list_all2_conv_all_nth)
qed

lemma mark_roots_marks:
  assumes "gc_ready g"
  obtains g' where "mark_roots g = Inr ((), g')" and "shades (root_refs g) g g'"
proof -
  let ?vm = "gv_vm g" and ?n = "vm_stack_top (gv_vm g)" and ?k = "vm_frame_count (gv_vm g)"
  let ?st = "concat (map (slot_refs value_refs) (take ?n (vm_stack ?vm)))"
    and ?fr = "concat (map (slot_refs (\<lambda>f. [ObjRef (cf_closure f)])) (take ?k (vm_frames ?vm)))"
  have st: "\<forall>i<?n. \<exists>v. buf_read (vm_stack ?vm) i = Inr v" and fr: "\<forall>i<?k. \<exists>f. buf_read (vm_frames ?vm) i = Inr f"
    using assms by (simp_all add: gc_ready_def)
  have 1: "marks g ?st mark_stack"
    unfolding mark_stack_def
    by (rule marks_bind_get [where x = ?n], simp add: withinD, rule marks_slots [where B = vm_stack, OF st], rule mark_value_marks)
  have 2: "marks g ?fr mark_frames"
    unfolding mark_frames_def
    by (rule marks_bind_get [where x = ?k], simp add: withinD, rule marks_slots [where B = vm_frames, OF fr], rule marks_names(2))
  have 3: "marks g [] mark_open_upvalues"
    unfolding mark_open_upvalues_def
    by (rule marks_bind_get [where x = None]) (simp_all add: withinD gc_readyD(2) [OF assms] marks_Nil)
  have 4: "marks g (table_refs (vm_globals ?vm)) (act_bind (act_get (\<lambda>g. vm_globals (gv_vm g))) mark_hashmap)"
    by (rule marks_bind_get [OF _ mark_hashmap_marks]) (simp add: withinD)
  have "marks g (concat (map (\<lambda>a. [ObjRef a]) (gv_compilers g))) (act_seq (map mark_addr (gv_compilers g)))"
    by (intro marks_map marks_names)
  then have 5: "marks g (map ObjRef (gv_compilers g)) mark_compiler_roots"
    unfolding mark_compiler_roots_def
    by (intro marks_bind_get [where x = "gv_compilers g"]) (simp_all add: withinD map_concat [symmetric] concat_map_singleton)
  have 6: "marks g (option_refs StrRef (gv_init_string g)) (act_bind (act_get gv_init_string) (\<lambda>s. mark_object (map_option StrRef s)))"
    by (rule marks_bind_get [where x = "gv_init_string g"], simp add: withinD, rule mark_option_marks)
  have "marks g (concat [?st, ?fr, [], table_refs (vm_globals ?vm), map ObjRef (gv_compilers g), option_refs StrRef (gv_init_string g)]) mark_roots"
    unfolding mark_roots_def by (rule marks_seq) (use 1 2 3 4 5 6 in simp)
  moreover have "concat [?st, ?fr, [], table_refs (vm_globals ?vm), map ObjRef (gv_compilers g), option_refs StrRef (gv_init_string g)] = root_refs g"
    by (simp add: root_refs_def)
  ultimately have "marks g (root_refs g) mark_roots" by (simp only:)
  with gc_readyD(1) [OF assms] within_refl [of g] that show thesis unfolding marks_def by blast
qed

lemma blacken_object_marks:
  assumes "gc_ready g" and "r \<in> set (gv_objects g)"
  shows "marks g (ref_refs (gv_heap g) r) (blacken_object r)"
proof (cases r)
  case (ObjRef a)
  obtain x where x: "h_objs (gv_heap g) a = Some x" "obj_readable (gv_heap g) x"
    "ref_refs (gv_heap g) (ObjRef a) = obj_refs (gv_heap g) x"
    using gc_readyD(3) [OF assms(1) assms(2) [unfolded ObjRef]] by (elim exE conjE) (rule that)
  have "marks g (obj_refs (gv_heap g) x) (act_bind (act_with (\<lambda>g. case h_objs (gv_heap g) a of
            None \<Rightarrow> Inl (Undefined ''dangling object'') | Some x \<Rightarrow> Inr x)) blacken)"
    by (rule marks_with [where x = x]) (simp_all add: withinD x(1) blacken_marks [OF x(2)])
  then show ?thesis by (simp add: ObjRef x(3) blacken_object_def)
qed (simp add: ref_refs_def blacken_object_def marks_Nil)

text \<open>
  The invariant of the trace: gray objects are marked, whatever is marked is reachable, the roots are
  marked, and what a marked object that is no longer gray points to is marked.
\<close>

definition tracing :: "gc_vm \<Rightarrow> gc_vm \<Rightarrow> bool" where
  "tracing w g \<longleftrightarrow> within w g \<and> set (root_refs w) \<subseteq> gv_marked g \<and> gv_marked g \<subseteq> reached w \<and>
     set (gray_stack g) \<subseteq> gv_marked g \<and> distinct (gray_stack g) \<and>
     (\<forall>r\<in>gv_marked g - set (gray_stack g). set (ref_refs (gv_heap w) r) \<subseteq> gv_marked g)"

lemma tracing_start:
  assumes "gc_ready w" and "shades (root_refs w) w g"
  shows "tracing w g"
proof -
  have w: "gv_marked w = {}" "gray_stack w = []" using assms(1) by (simp_all add: gc_ready_def)
  then obtain ns c where g: "g = w\<lparr>gv_marked := set (root_refs w), gray_stack := ns, gray_capacity := c\<rparr>"
    "set ns = set (root_refs w)" "distinct ns" using assms(2) by (auto simp: shades_def)
  have "set (root_refs w) \<subseteq> reached w" by (auto intro: reached_root)
  then show ?thesis using g within_shades [OF within_refl assms(2)] by (simp add: tracing_def)
qed

lemma trace_step:
  assumes "gc_ready w" and "tracing w g" and "gray_stack g \<noteq> []"
  obtains g' where "act_bind gray_pop blacken_object g = Inr ((), g')" and "tracing w g'"
    and "gv_marked g' - set (gray_stack g') = insert (last (gray_stack g)) (gv_marked g - set (gray_stack g))"
    and "last (gray_stack g) \<notin> gv_marked g - set (gray_stack g)"
proof -
  obtain rs r where gray: "gray_stack g = rs @ [r]" using assms(3) by (cases "gray_stack g" rule: rev_cases) auto
  have t: "within w g" "set (root_refs w) \<subseteq> gv_marked g" "gv_marked g \<subseteq> reached w" "set rs \<subseteq> gv_marked g"
    "r \<in> gv_marked g" "distinct rs" "r \<notin> set rs"
    "\<forall>s\<in>gv_marked g - insert r (set rs). set (ref_refs (gv_heap w) s) \<subseteq> gv_marked g"
    using assms(2) gray by (auto simp: tracing_def)
  let ?g = "g\<lparr>gray_stack := rs\<rparr>" and ?rs = "ref_refs (gv_heap w) r"
  have obj: "r \<in> set (gv_objects w)" using reached_objects [OF _ assms(1)] t(3,5) by blast
  obtain ms gs c where "g = w\<lparr>gv_marked := ms, gray_stack := gs, gray_capacity := c\<rparr>"
    using t(1) by (auto simp: within_def)
  then have "within w ?g" unfolding within_def
    by (intro exI [of _ ms] exI [of _ rs] exI [of _ c]) simp
  with blacken_object_marks [OF assms(1) obj] gc_readyD(4) [OF assms(1) obj] obtain g'
    where g': "blacken_object r ?g = Inr ((), g')" "shades ?rs ?g g'" unfolding marks_def by blast
  obtain ns c where sh: "g' = ?g\<lparr>gv_marked := gv_marked g \<union> set ?rs, gray_stack := rs @ ns, gray_capacity := c\<rparr>"
    "set ns = set ?rs - gv_marked g" "distinct ns" using g'(2) by (auto simp: shades_def)
  have "act_bind gray_pop blacken_object g = Inr ((), g')"
    using g'(1) gray by (simp add: gray_pop_def act_simps)
  moreover have "tracing w g'"
    unfolding tracing_def
  proof (intro conjI)
    show "within w g'" using within_shades [OF \<open>within w ?g\<close> g'(2)] .
    show "set (root_refs w) \<subseteq> gv_marked g'" using t(2) sh(1) by auto
    show "gv_marked g' \<subseteq> reached w" using t(3,5) sh(1) by (auto intro: reached_step)
    show "set (gray_stack g') \<subseteq> gv_marked g'" "distinct (gray_stack g')" using t(4,6) sh by auto
    show "\<forall>s\<in>gv_marked g' - set (gray_stack g'). set (ref_refs (gv_heap w) s) \<subseteq> gv_marked g'"
    proof
      fix s
      assume "s \<in> gv_marked g' - set (gray_stack g')"
      then have "s \<in> gv_marked g - set rs" using sh by auto
      then show "set (ref_refs (gv_heap w) s) \<subseteq> gv_marked g'" using t(8) sh(1) by (cases "s = r") auto
    qed
  qed
  moreover have "gv_marked g' - set (gray_stack g') = insert (last (gray_stack g)) (gv_marked g - set (gray_stack g))"
    using sh t(5,7) gray by auto
  ultimately show thesis using that gray by simp
qed

lemma trace_run:
  assumes "gc_ready w" and "tracing w g" and "card (set (gv_objects w) - (gv_marked g - set (gray_stack g))) < n"
  shows "\<exists>g'. trace_references n g = Inr ((), g') \<and> tracing w g' \<and> gray_stack g' = []"
  using assms(2,3)
proof (induction n arbitrary: g)
  case (Suc n)
  show ?case
  proof (cases "gray_stack g = []")
    case True
    with Suc.prems(1) show ?thesis by (simp add: trace_references_def act_simps)
  next
    case False
    obtain g1 where g1: "act_bind gray_pop blacken_object g = Inr ((), g1)" "tracing w g1"
      "gv_marked g1 - set (gray_stack g1) = insert (last (gray_stack g)) (gv_marked g - set (gray_stack g))"
      "last (gray_stack g) \<notin> gv_marked g - set (gray_stack g)"
      by (rule trace_step [OF assms(1) Suc.prems(1) False])
    let ?b = "gv_marked g - set (gray_stack g)" and ?r = "last (gray_stack g)"
    have "?r \<in> set (gray_stack g)" using False by simp
    then have "?r \<in> reached w" using Suc.prems(1) by (auto simp: tracing_def)
    then have "?r \<in> set (gv_objects w) - ?b" using reached_objects [OF _ assms(1)] g1(4) by blast
    then have "card (set (gv_objects w) - insert ?r ?b) < card (set (gv_objects w) - ?b)"
      by (intro psubset_card_mono) auto
    then have "card (set (gv_objects w) - (gv_marked g1 - set (gray_stack g1))) < n"
      using Suc.prems(2) unfolding g1(3) by simp
    from Suc.IH [OF g1(2) this] g1(1) False show ?thesis by (simp add: trace_references_def act_simps)
  qed
qed simp

lemma tracing_done:
  assumes "tracing w g" and "gray_stack g = []"
  shows "gv_marked g = reached w"
proof
  show "gv_marked g \<subseteq> reached w" using assms(1) by (simp add: tracing_def)
  show "reached w \<subseteq> gv_marked g"
  proof
    fix r
    assume "r \<in> reached w"
    then show "r \<in> gv_marked g"
      by (induction rule: reached.induct) (use assms in \<open>auto simp: tracing_def\<close>)
  qed
qed

subsection \<open>The string pool and the sweep\<close>

lemma act_seq_append: "act_seq (ms @ ns) s = act_then (act_seq ms) (act_seq ns) s"
proof (induction ms arbitrary: s)
  case (Cons m ms)
  show ?case by (cases "m s") (auto simp: act_simps Cons)
qed (simp add: act_simps)

lemma act_seq_upt:
  assumes "\<And>i g. i < n \<Longrightarrow> P i g \<Longrightarrow> \<exists>g'. m i g = Inr ((), g') \<and> P (Suc i) g'" and "P 0 g"
  shows "\<exists>g'. act_seq (map m [0..<n]) g = Inr ((), g') \<and> P n g'"
  using assms(1)
proof (induction n)
  case 0
  with assms(2) show ?case by (simp add: act_simps)
next
  case (Suc n)
  then obtain g1 where g1: "act_seq (map m [0..<n]) g = Inr ((), g1)" "P n g1" by auto
  then obtain g2 where "m n g1 = Inr ((), g2)" "P (Suc n) g2" using Suc.prems by blast
  with g1(1) show ?case by (simp add: act_seq_append act_simps)
qed

lemma hashmap_remove_at:
  assumes "hm_wf hash m" and "i < length (hm_entries m)" and "e_key (hm_entries m ! i) = Some k"
  shows "hashmap_remove hash m k = Inr (m\<lparr>hm_entries := (hm_entries m)[i := \<lparr>e_key = None, e_value = VBool True\<rparr>]\<rparr>, True)"
proof -
  have "hm_entries m ! i \<in> set (filter (\<lambda>e. \<not> is_empty_entry e) (hm_entries m))"
    using assms(2,3) by (auto simp: is_empty_entry_def)
  then have "used (hm_entries m) \<noteq> 0" unfolding used_def by (metis empty_iff length_0_conv list.set(1))
  then have n: "hm_count m \<noteq> 0" using assms(1) by (simp add: hm_wf_def)
  note r = hm_wf_room [OF assms(1) hm_count_capacity [OF assms(1) n]]
  from find_entry_present [OF r(1,2) assms(2,3)] n r(4) assms(3) show ?thesis by (simp add: hashmap_remove_def)
qed

text \<open>
  The pool: every key is a string that is allocated; before the first removal there is no tombstone.
\<close>

definition pool_ok :: "gc_vm \<Rightarrow> bool" where
  "pool_ok g \<longleftrightarrow> hm_wf hash_string (gv_strings g) \<and>
     (\<forall>i<length (hm_entries (gv_strings g)). \<forall>s. e_key (hm_entries (gv_strings g) ! i) = Some s \<longrightarrow> StrRef s \<in> set (gv_objects g))"

definition pool_ready :: "gc_vm \<Rightarrow> bool" where
  "pool_ready g \<longleftrightarrow> pool_ok g \<and> no_tombstones (hm_entries (gv_strings g))"

text \<open>An entry after its round, and the pool after the first \<open>j\<close> rounds.\<close>

definition white_entry :: "objref set \<Rightarrow> string entry \<Rightarrow> string entry" where
  "white_entry M e = (case e_key e of
     Some s \<Rightarrow> if StrRef s \<in> M then e else \<lparr>e_key = None, e_value = VBool True\<rparr> | None \<Rightarrow> e)"

definition whitened :: "gc_vm \<Rightarrow> nat \<Rightarrow> gc_vm \<Rightarrow> bool" where
  "whitened w j g \<longleftrightarrow> (\<exists>t. g = w\<lparr>gv_strings := t\<rparr> \<and> hm_wf hash_string t \<and>
     hm_entries t = map (white_entry (gv_marked w)) (take j (hm_entries (gv_strings w))) @ drop j (hm_entries (gv_strings w)) \<and>
     (\<forall>s. hm_map t s = (if StrRef s \<notin> gv_marked w \<and> (\<exists>i<j. e_key (hm_entries (gv_strings w) ! i) = Some s)
        then None else hm_map (gv_strings w) s)))"

lemma whitened_start: "pool_ok w \<Longrightarrow> whitened w 0 w"
  unfolding whitened_def by (intro exI [of _ "gv_strings w"]) (simp add: pool_ok_def)

lemma whitened_step:
  assumes "pool_ok w" and "i < length (hm_entries (gv_strings w))" and "whitened w i g"
    and "e_key (hm_entries (gv_strings w) ! i) = None \<Longrightarrow> is_empty_entry (hm_entries (gv_strings w) ! i)"
  shows "\<exists>g'. remove_white_at i g = Inr ((), g') \<and> whitened w (Suc i) g'"
proof -
  let ?es = "hm_entries (gv_strings w)" and ?f = "white_entry (gv_marked w)"
  let ?e = "?es ! i"
  obtain t where g: "g = w\<lparr>gv_strings := t\<rparr>" and t: "hm_wf hash_string t"
    "hm_entries t = map ?f (take i ?es) @ drop i ?es"
    "\<forall>s. hm_map t s = (if StrRef s \<notin> gv_marked w \<and> (\<exists>j<i. e_key (?es ! j) = Some s) then None else hm_map (gv_strings w) s)"
    using assms(3) by (auto simp: whitened_def)
  have e: "hm_entries t ! i = ?e" "i < length (hm_entries t)" using t(2) assms(2) by (simp_all add: nth_append)
  have next_es: "map ?f (take (Suc i) ?es) @ drop (Suc i) ?es = (hm_entries t)[i := ?f ?e]"
    using assms(2) t(2) by (simp add: take_Suc_conv_app_nth list_update_append Cons_nth_drop_Suc [symmetric])
  have keep: "whitened w (Suc i) g" if "?f ?e = ?e" "\<forall>s. e_key ?e = Some s \<longrightarrow> StrRef s \<in> gv_marked w"
    unfolding whitened_def
  proof (intro exI [of _ t] conjI)
    show "hm_entries t = map ?f (take (Suc i) ?es) @ drop (Suc i) ?es"
      using next_es that(1) e(1) list_update_id [of "hm_entries t" i] by simp
  qed (use g t that(2) in \<open>auto simp: less_Suc_eq\<close>)
  show ?thesis
  proof (cases "e_key ?e")
    case None
    then have "remove_white_at i g = Inr ((), g)" using e g assms(4) by (simp add: remove_white_at_def act_simps)
    with keep None show ?thesis by (simp add: white_entry_def)
  next
    case (Some s)
    then have ne: "\<not> is_empty_entry ?e" by (simp add: is_empty_entry_def)
    have obj: "StrRef s \<in> set (gv_objects w)" using assms(1,2) Some by (auto simp: pool_ok_def)
    show ?thesis
    proof (cases "StrRef s \<in> gv_marked w")
      case True
      then have "remove_white_at i g = Inr ((), g)"
        using e g ne Some obj by (simp add: remove_white_at_def marked_def act_simps)
      with keep Some True show ?thesis by (simp add: white_entry_def)
    next
      case False
      let ?t = "t\<lparr>hm_entries := (hm_entries t)[i := \<lparr>e_key = None, e_value = VBool True\<rparr>]\<rparr>"
      have "e_key (hm_entries t ! i) = Some s" using e Some by simp
      note rm = hashmap_remove_at [OF t(1) e(2) this]
      have map: "hm_wf hash_string ?t" "hm_map ?t = (hm_map t)(s := None)"
        using hashmap_remove_map [OF t(1), of s] rm by auto
      have "remove_white_at i g = Inr ((), w\<lparr>gv_strings := ?t\<rparr>)"
        using e g ne Some obj False rm by (simp add: remove_white_at_def marked_def act_simps)
      moreover have "whitened w (Suc i) (w\<lparr>gv_strings := ?t\<rparr>)" unfolding whitened_def
      proof (intro exI [of _ ?t] conjI)
        show "hm_entries ?t = map ?f (take (Suc i) ?es) @ drop (Suc i) ?es"
          using next_es Some False by (simp add: white_entry_def)
      qed (use map t(3) Some False in \<open>auto simp: less_Suc_eq\<close>)
      ultimately show ?thesis by blast
    qed
  qed
qed

lemma hashmap_remove_white_run:
  assumes "pool_ready w"
  obtains t where "hashmap_remove_white w = Inr ((), w\<lparr>gv_strings := t\<rparr>)" and "hm_wf hash_string t"
    and "\<And>s. hm_map t s = (if StrRef s \<in> gv_marked w then hm_map (gv_strings w) s else None)"
    and "hm_entries t = map (white_entry (gv_marked w)) (hm_entries (gv_strings w))"
proof -
  let ?es = "hm_entries (gv_strings w)"
  have p: "pool_ok w" "\<And>i. i < length ?es \<Longrightarrow> e_key (?es ! i) = None \<Longrightarrow> is_empty_entry (?es ! i)"
    using assms by (simp_all add: pool_ready_def no_tombstones_def)
  have cap: "hm_capacity (gv_strings w) = length ?es" using p(1) by (simp add: pool_ok_def hm_wf_def)
  obtain g where g: "act_seq (map remove_white_at [0..<length ?es]) w = Inr ((), g)" "whitened w (length ?es) g"
    using act_seq_upt [of "length ?es" "whitened w" remove_white_at w] whitened_step [OF p(1)] p(2) whitened_start [OF p(1)] by blast
  then obtain t where t: "g = w\<lparr>gv_strings := t\<rparr>" "hm_wf hash_string t"
    "hm_entries t = map (white_entry (gv_marked w)) ?es"
    "\<forall>s. hm_map t s = (if StrRef s \<notin> gv_marked w \<and> (\<exists>i<length ?es. e_key (?es ! i) = Some s)
        then None else hm_map (gv_strings w) s)" by (auto simp: whitened_def)
  show thesis
  proof
    show "hashmap_remove_white w = Inr ((), w\<lparr>gv_strings := t\<rparr>)"
      using g(1) t(1) cap by (simp add: hashmap_remove_white_def act_simps)
    show "hm_map t s = (if StrRef s \<in> gv_marked w then hm_map (gv_strings w) s else None)" for s
      using t(4) entries_map_None [of ?es s] by (auto simp: hm_map_def)
  qed (rule t(2), rule t(3))
qed

text \<open>The loop stops at the first tombstone.\<close>

lemma hashmap_remove_white_fault:
  assumes "pool_ok w" and "\<not> no_tombstones (hm_entries (gv_strings w))"
  shows "hashmap_remove_white w = Inl (Undefined ''null key'')"
proof -
  let ?es = "hm_entries (gv_strings w)"
  define bad where "bad i \<longleftrightarrow> i < length ?es \<and> e_key (?es ! i) = None \<and> \<not> is_empty_entry (?es ! i)" for i
  have "\<exists>i. bad i" using assms(2) by (auto simp: no_tombstones_def bad_def)
  then obtain j where j: "bad j" "\<And>i. i < j \<Longrightarrow> \<not> bad i" using exists_least_iff [of bad] by blast
  then have jl: "j < length ?es" "e_key (?es ! j) = None" "\<not> is_empty_entry (?es ! j)" by (simp_all add: bad_def)
  have cap: "hm_capacity (gv_strings w) = length ?es" using assms(1) by (simp add: pool_ok_def hm_wf_def)
  have step: "\<exists>g'. remove_white_at i g = Inr ((), g') \<and> whitened w (Suc i) g'" if i: "i < j" and g: "whitened w i g" for i g
  proof (rule whitened_step [OF assms(1) _ g])
    show il: "i < length ?es" using i jl(1) by simp
    show "e_key (?es ! i) = None \<Longrightarrow> is_empty_entry (?es ! i)" using j(2) [OF i] il by (simp add: bad_def)
  qed
  obtain g where g: "act_seq (map remove_white_at [0..<j]) w = Inr ((), g)" "whitened w j g"
    using act_seq_upt [of j "whitened w" remove_white_at w, OF step whitened_start [OF assms(1)]] by blast
  have "hm_entries (gv_strings g) ! j = ?es ! j"
    using g(2) jl(1) by (auto simp: whitened_def nth_append)
  then have fault: "remove_white_at j g = Inl (Undefined ''null key'')"
    using jl(2,3) by (simp add: remove_white_at_def act_simps)
  have "[0..<length ?es] = [0..<j] @ j # [Suc j..<length ?es]"
    using jl(1) upt_add_eq_append [of 0 j "length ?es - j"] by (simp add: upt_conv_Cons)
  then have "act_seq (map remove_white_at [0..<length ?es]) w = Inl (Undefined ''null key'')"
    using g(1) fault by (simp add: act_seq_append act_simps)
  then show ?thesis using cap by (simp add: hashmap_remove_white_def act_simps)
qed

definition kept_objs :: "objref set \<Rightarrow> objref list \<Rightarrow> (nat \<Rightarrow> obj option) \<Rightarrow> nat \<Rightarrow> obj option" where
  "kept_objs M rs h = (\<lambda>a. if ObjRef a \<in> set rs - M then None else h a)"

definition swept :: "objref set \<Rightarrow> objref list \<Rightarrow> u64 \<Rightarrow> gc_vm \<Rightarrow> gc_vm" where
  "swept M rs b g = g\<lparr>gv_marked := gv_marked g - set rs, bytes_allocated := b,
     gv_vm := (gv_vm g)\<lparr>vm_heap := (gv_heap g)\<lparr>h_objs := kept_objs M rs (h_objs (gv_heap g))\<rparr>\<rparr>\<rparr>"

lemma sweep_loop_run:
  assumes "distinct rs"
  shows "\<exists>b. sweep_loop bytes rs g = (filter (\<lambda>r. r \<in> gv_marked g) rs, swept (gv_marked g) rs b g)"
  using assms
proof (induction rs arbitrary: g)
  case Nil
  have "kept_objs M [] h = h" for M h by (simp add: kept_objs_def)
  then show ?case by (intro exI [of _ "bytes_allocated g"]) (simp add: swept_def)
next
  case (Cons r rs)
  show ?case
  proof (cases "r \<in> gv_marked g")
    case True
    let ?g = "g\<lparr>gv_marked := gv_marked g - {r}\<rparr>"
    obtain b where b: "sweep_loop bytes rs ?g = (filter (\<lambda>r. r \<in> gv_marked ?g) rs, swept (gv_marked ?g) rs b ?g)"
      using Cons by fastforce
    have "filter (\<lambda>r. r \<in> gv_marked ?g) rs = filter (\<lambda>s. s \<in> gv_marked g) rs"
      using Cons.prems by (intro filter_cong) auto
    moreover have "swept (gv_marked ?g) rs b ?g = swept (gv_marked g) (r # rs) b g"
    proof -
      have "kept_objs (gv_marked ?g) rs (h_objs (gv_heap g)) = kept_objs (gv_marked g) (r # rs) (h_objs (gv_heap g))"
        using Cons.prems True by (auto simp: kept_objs_def)
      moreover have "gv_marked g - {r} - set rs = gv_marked g - set (r # rs)" by auto
      ultimately show ?thesis by (simp add: swept_def)
    qed
    ultimately show ?thesis using b True by auto
  next
    case False
    let ?g = "free_object bytes r g"
    have same: "gv_marked ?g = gv_marked g" by (simp add: free_object_def Let_def split: objref.split)
    obtain b where b: "sweep_loop bytes rs ?g = (filter (\<lambda>r. r \<in> gv_marked ?g) rs, swept (gv_marked ?g) rs b ?g)"
      using Cons by fastforce
    have "swept (gv_marked g) rs b ?g = swept (gv_marked g) (r # rs) b g"
    proof -
      have m: "gv_marked g - set rs = gv_marked g - set (r # rs)" using False by auto
      show ?thesis
      proof (cases r)
        case (StrRef s)
        have "kept_objs (gv_marked g) rs (h_objs (gv_heap g)) = kept_objs (gv_marked g) (r # rs) (h_objs (gv_heap g))"
          by (auto simp: kept_objs_def StrRef)
        with m StrRef show ?thesis by (simp add: swept_def free_object_def)
      next
        case (ObjRef a)
        have "kept_objs (gv_marked g) rs ((h_objs (gv_heap g))(a := None)) = kept_objs (gv_marked g) (r # rs) (h_objs (gv_heap g))"
          using False by (auto simp: kept_objs_def ObjRef)
        with m ObjRef show ?thesis by (simp add: swept_def free_object_def)
      qed
    qed
    with b False same show ?thesis by auto
  qed
qed

subsection \<open>A collection\<close>

lemma collect_garbage_run:
  assumes "gc_ready g" and "pool_ready g" and "length (gv_objects g) < fuel"
  shows "\<exists>g'. collect_garbage bytes fuel g = Inr ((), g') \<and>
    gv_objects g' = filter (\<lambda>r. r \<in> reached g) (gv_objects g) \<and> set (gv_objects g') = reached g \<and>
    gv_vm g' = (gv_vm g)\<lparr>vm_heap := gv_heap g'\<rparr> \<and>
    h_objs (gv_heap g') = kept_objs (reached g) (gv_objects g) (h_objs (gv_heap g)) \<and>
    h_next (gv_heap g') = h_next (gv_heap g) \<and>
    hm_wf hash_string (gv_strings g') \<and>
    (\<forall>s. hm_map (gv_strings g') s = (if StrRef s \<in> reached g then hm_map (gv_strings g) s else None)) \<and>
    hm_entries (gv_strings g') = map (white_entry (reached g)) (hm_entries (gv_strings g)) \<and>
    gv_marked g' = {} \<and> gray_stack g' = [] \<and> gv_compilers g' = gv_compilers g \<and> gv_init_string g' = gv_init_string g"
proof -
  obtain g1 where g1: "mark_roots g = Inr ((), g1)" "shades (root_refs g) g g1" by (rule mark_roots_marks [OF assms(1)])
  have "card (set (gv_objects g) - (gv_marked g1 - set (gray_stack g1))) \<le> card (set (gv_objects g))"
    by (intro card_mono) auto
  also have "\<dots> \<le> length (gv_objects g)" by (rule card_length)
  finally have "card (set (gv_objects g) - (gv_marked g1 - set (gray_stack g1))) < fuel" using assms(3) by simp
  from trace_run [OF assms(1) tracing_start [OF assms(1) g1(2)] this] obtain g2 where
    g2: "trace_references fuel g1 = Inr ((), g2)" "tracing g g2" "gray_stack g2 = []" by blast
  have m: "gv_marked g2 = reached g" by (rule tracing_done [OF g2(2,3)])
  have w: "within g g2" using g2(2) by (simp add: tracing_def)
  note same = withinD [OF w]
  have "pool_ready g2" using assms(2) same by (simp add: pool_ready_def pool_ok_def)
  then obtain t where t: "hashmap_remove_white g2 = Inr ((), g2\<lparr>gv_strings := t\<rparr>)" "hm_wf hash_string t"
    "\<And>s. hm_map t s = (if StrRef s \<in> reached g then hm_map (gv_strings g) s else None)"
    "hm_entries t = map (white_entry (reached g)) (hm_entries (gv_strings g))"
    using hashmap_remove_white_run m same(5) by metis
  let ?g3 = "g2\<lparr>gv_strings := t\<rparr>"
  have "distinct (gv_objects ?g3)" using assms(1) same by (simp add: gc_ready_def)
  from sweep_loop_run [OF this, of bytes ?g3] obtain b where
    sw: "sweep_loop bytes (gv_objects g) ?g3 = (filter (\<lambda>r. r \<in> reached g) (gv_objects g), swept (reached g) (gv_objects g) b ?g3)"
    using m same by auto
  let ?g4 = "(swept (reached g) (gv_objects g) b ?g3)\<lparr>gv_objects := filter (\<lambda>r. r \<in> reached g) (gv_objects g)\<rparr>"
  let ?g5 = "?g4\<lparr>next_gc := bytes_allocated ?g4 * GC_HEAP_GROW_FACTOR\<rparr>"
  have "sweep bytes ?g3 = Inr ((), ?g4)" using sw same by (simp add: sweep_def act_simps)
  then have "collect_garbage bytes fuel g = Inr ((), ?g5)"
    using g1(1) g2(1) t(1) by (simp add: collect_garbage_def act_simps)
  moreover have "set (filter (\<lambda>r. r \<in> reached g) (gv_objects g)) = reached g"
    using reached_objects [OF _ assms(1)] by auto
  moreover have "reached g - set (gv_objects g) = {}" using reached_objects [OF _ assms(1)] by auto
  ultimately show ?thesis
    using t(2-4) same m g2(3) by (intro exI [of _ ?g5]) (simp add: swept_def)
qed


lemma ready_again:
  assumes "gc_ready g" and "gv_objects g' = filter (\<lambda>r. r \<in> reached g) (gv_objects g)" and "set (gv_objects g') = reached g"
    and "gv_vm g' = (gv_vm g)\<lparr>vm_heap := gv_heap g'\<rparr>"
    and "h_objs (gv_heap g') = kept_objs (reached g) (gv_objects g) (h_objs (gv_heap g))"
    and "gv_marked g' = {}" and "gray_stack g' = []" and "gv_compilers g' = gv_compilers g" and "gv_init_string g' = gv_init_string g"
    and "\<And>a s. ObjRef a \<in> reached g \<Longrightarrow> h_objs (gv_heap g) a \<noteq> Some (OStruct s)"
  shows "gc_ready g'"
proof -
  have f: "vm_stack (gv_vm g') = vm_stack (gv_vm g)" "vm_stack_top (gv_vm g') = vm_stack_top (gv_vm g)"
    "vm_frames (gv_vm g') = vm_frames (gv_vm g)" "vm_frame_count (gv_vm g') = vm_frame_count (gv_vm g)"
    "vm_globals (gv_vm g') = vm_globals (gv_vm g)" "vm_open_upv_ptr (gv_vm g') = vm_open_upv_ptr (gv_vm g)"
    by (subst assms(4), simp)+
  have root: "root_refs g' = root_refs g" using f assms(8,9) by (simp add: root_refs_def)
  have obj: "\<exists>x. h_objs (gv_heap g') a = Some x \<and> obj_readable (gv_heap g') x \<and> set (obj_refs (gv_heap g') x) \<subseteq> reached g"
    if a: "ObjRef a \<in> reached g" for a
  proof -
    obtain x where x: "h_objs (gv_heap g) a = Some x" "obj_readable (gv_heap g) x"
      "ref_refs (gv_heap g) (ObjRef a) = obj_refs (gv_heap g) x"
      using gc_readyD(3) [OF assms(1) reached_objects [OF a assms(1)]] by (elim exE conjE) (rule that)
    have ns: "x \<noteq> OStruct s" for s using assms(10) [OF a] x(1) by auto
    have "h_objs (gv_heap g') a = Some x" using assms(5) x(1) a by (simp add: kept_objs_def)
    moreover have "obj_readable (gv_heap g') x" "obj_refs (gv_heap g') x = obj_refs (gv_heap g) x"
      using x(2) ns by (cases x; simp add: obj_readable_def obj_refs_def)+
    moreover have "set (obj_refs (gv_heap g) x) \<subseteq> reached g"
      using reached_step [OF a] unfolding x(3) by blast
    ultimately show ?thesis by (intro exI [of _ x]) simp
  qed
  have "set (root_refs g) \<subseteq> reached g" by (auto intro: reached_root)
  moreover have "distinct (gv_objects g')" using assms(1,2) by (simp add: gc_ready_def)
  ultimately show ?thesis
    using assms(1,3,6,7) f root obj by (simp add: gc_ready_def)
qed

lemma collect_garbage_fault:
  assumes "gc_ready g" and "pool_ok g" and "\<not> no_tombstones (hm_entries (gv_strings g))" and "length (gv_objects g) < fuel"
  shows "collect_garbage bytes fuel g = Inl (Undefined ''null key'')"
proof -
  obtain g1 where g1: "mark_roots g = Inr ((), g1)" "shades (root_refs g) g g1" by (rule mark_roots_marks [OF assms(1)])
  have "card (set (gv_objects g) - (gv_marked g1 - set (gray_stack g1))) \<le> card (set (gv_objects g))"
    by (intro card_mono) auto
  also have "\<dots> \<le> length (gv_objects g)" by (rule card_length)
  finally have "card (set (gv_objects g) - (gv_marked g1 - set (gray_stack g1))) < fuel" using assms(4) by simp
  from trace_run [OF assms(1) tracing_start [OF assms(1) g1(2)] this] obtain g2 where
    g2: "trace_references fuel g1 = Inr ((), g2)" "within g g2" by (auto simp: tracing_def)
  have "pool_ok g2" "\<not> no_tombstones (hm_entries (gv_strings g2))"
    using assms(2,3) withinD [OF g2(2)] by (simp_all add: pool_ok_def)
  from hashmap_remove_white_fault [OF this] g1(1) g2(1) show ?thesis by (simp add: collect_garbage_def act_simps)
qed

text \<open>
  C40: The first collection that releases a string is the last one that works: it leaves a tombstone in the
  pool, whose null key the next collection reads through. (No struct may survive, which would make it fail
  earlier: \<open>struct_names_released\<close>.)
\<close>

theorem second_collection_faults:
  assumes "gc_ready g" and "pool_ready g" and "length (gv_objects g) < fuel"
    and "hm_map (gv_strings g) s \<noteq> None" and "StrRef s \<notin> reached g"
    and "\<And>a x. ObjRef a \<in> reached g \<Longrightarrow> h_objs (gv_heap g) a \<noteq> Some (OStruct x)"
  shows "\<exists>g'. collect_garbage bytes fuel g = Inr ((), g') \<and>
    collect_garbage bytes fuel g' = Inl (Undefined ''null key'')"
proof -
  obtain g' where g': "collect_garbage bytes fuel g = Inr ((), g')"
    "gv_objects g' = filter (\<lambda>r. r \<in> reached g) (gv_objects g)" "set (gv_objects g') = reached g"
    "gv_vm g' = (gv_vm g)\<lparr>vm_heap := gv_heap g'\<rparr>"
    "h_objs (gv_heap g') = kept_objs (reached g) (gv_objects g) (h_objs (gv_heap g))"
    "hm_wf hash_string (gv_strings g')" "hm_entries (gv_strings g') = map (white_entry (reached g)) (hm_entries (gv_strings g))"
    "gv_marked g' = {}" "gray_stack g' = []" "gv_compilers g' = gv_compilers g" "gv_init_string g' = gv_init_string g"
    using collect_garbage_run [OF assms(1-3)] by blast
  let ?es = "hm_entries (gv_strings g)"
  obtain i where i: "i < length ?es" "e_key (?es ! i) = Some s"
    using assms(4) entries_map_None [of ?es s] by (auto simp: hm_map_def)
  have "\<not> no_tombstones (hm_entries (gv_strings g'))"
    unfolding no_tombstones_def g'(7)
    using i assms(5) by (auto simp: white_entry_def is_empty_entry_def intro!: exI [of _ i])
  moreover have "pool_ok g'"
    unfolding pool_ok_def using g'(3,6,7)
    by (auto simp: white_entry_def split: option.splits if_splits)
  moreover have "length (gv_objects g') < fuel" unfolding g'(2) using assms(3) by (rule le_less_trans [OF length_filter_le])
  ultimately show ?thesis
    using collect_garbage_fault [OF ready_again [OF assms(1) g'(2-5,8-11) assms(6)]] g'(1) by auto
qed

text \<open>A struct that survives a collection loses its list of members: marking goes through the elements of
  \<open>names\<close> and never marks the vector itself, so it is released unless something else refers to it, and
  every later read of it, at the next instance, is a read of released memory.
\<close>

theorem struct_names_released:
  assumes "gc_ready g" and "pool_ready g" and "length (gv_objects g) < fuel"
    and "ObjRef a \<in> reached g" and "h_objs (gv_heap g) a = Some (OStruct s)"
    and "ObjRef (st_names s) \<in> set (gv_objects g)" and "ObjRef (st_names s) \<notin> reached g"
  shows "\<exists>g'. collect_garbage bytes fuel g = Inr ((), g') \<and> h_objs (gv_heap g') a = Some (OStruct s) \<and>
    h_objs (gv_heap g') (st_names s) = None \<and> get_vec (gv_heap g') (st_names s) = Inl (Undefined ''not a Vec'')"
  using collect_garbage_run [OF assms(1-3), of bytes] assms(4-7) by (auto simp: kept_objs_def get_vec_def)

text \<open>
  A state with a pair on the stack that refers to a string, a second pair and a second string to which
  nothing refers, and the second string alone in the pool.
\<close>

definition single_table :: "string \<Rightarrow> string hashmap" where
  "single_table k =
     (let es = replicate 8 \<lparr>e_key = None, e_value = VNull\<rparr>
      in \<lparr>hm_count = 1, hm_capacity = 8, hm_entries = es[home hash_string es k := \<lparr>e_key = Some k, e_value = VNull\<rparr>]\<rparr>)"

lemma single_table:
  "hm_wf hash_string (single_table k)" "no_tombstones (hm_entries (single_table k))"
  "\<forall>i<length (hm_entries (single_table k)). \<forall>s. e_key (hm_entries (single_table k) ! i) = Some s \<longrightarrow> s = k"
  "hm_map (single_table k) k = Some VNull"
proof -
  let ?e = "\<lparr>e_key = None, e_value = VNull\<rparr> :: string entry" and ?x = "\<lparr>e_key = Some k, e_value = VNull\<rparr>"
  define i where "i = home hash_string (replicate 8 ?e) k"
  have i: "i < 8" by (simp add: i_def home_def)
  have es: "hm_entries (single_table k) = (replicate 8 ?e)[i := ?x]" "hm_count (single_table k) = 1" "hm_capacity (single_table k) = 8"
    by (simp_all add: single_table_def Let_def i_def)
  have split: "(replicate 8 ?e)[i := ?x] = replicate i ?e @ ?x # replicate (7 - i) ?e"
    using i by (simp add: upd_conv_take_nth_drop)
  have home: "home hash_string ((replicate 8 ?e)[i := ?x]) k = i" by (simp add: i_def home_def)
  have nth: "(replicate 8 ?e)[i := ?x] ! j = (if j = i then ?x else ?e)" if "j < 8" for j
    using that i by (simp add: nth_list_update)
  show n: "no_tombstones (hm_entries (single_table k))"
    by (simp add: no_tombstones_def es nth is_empty_entry_def)
  show "\<forall>j<length (hm_entries (single_table k)). \<forall>s. e_key (hm_entries (single_table k) ! j) = Some s \<longrightarrow> s = k"
    by (simp add: es nth)
  have "used ((replicate 8 ?e)[i := ?x]) = 1"
    unfolding split by (simp add: used_def is_empty_entry_def)
  moreover have "pow2_capacity 8" by (auto simp: pow2_capacity_def intro!: exI [of _ 3])
  moreover have "wf_entries hash_string ((replicate 8 ?e)[i := ?x])"
    unfolding wf_entries_def using i
    by (auto simp: nth home intro!: exI [of _ 0] split: if_splits)
  ultimately show wf: "hm_wf hash_string (single_table k)" by (simp add: hm_wf_def es)
  have "entries_map (hm_entries (single_table k)) k = Some VNull"
    using wf i unfolding hm_wf_def by (subst entries_map_Some) (auto simp: es intro!: exI [of _ i])
  then show "hm_map (single_table k) k = Some VNull" by (simp add: hm_map_def)
qed

definition sample_gc :: gc_vm where
  "sample_gc = \<lparr>gv_vm = fresh_vm\<lparr>vm_stack := (buf_alloc constant_stack_max)[0 := Some (obj_value 0)], vm_stack_top := 1,
       vm_heap := \<lparr>h_objs = [0 \<mapsto> OPair \<lparr>pr_first = VI32 1, pr_second = string_value ''kept''\<rparr>,
                             1 \<mapsto> OPair \<lparr>pr_first = VNull, pr_second = obj_value 0\<rparr>], h_next = 2\<rparr>\<rparr>,
     gv_compilers = [], gv_init_string = None,
     gv_objects = [ObjRef 1, ObjRef 0, StrRef ''kept'', StrRef ''gone''], gv_marked = {},
     gv_strings = single_table ''gone'', gray_stack = [], gray_capacity = 0, bytes_allocated = 200, next_gc = 100\<rparr>"

lemma sample_gc:
  "gc_ready sample_gc" "pool_ready sample_gc" "length (gv_objects sample_gc) < 5"
  "reached sample_gc = {ObjRef 0, StrRef ''kept''}"
proof -
  have root: "root_refs sample_gc = [ObjRef 0]"
    by (simp add: root_refs_def sample_gc_def slot_refs_def option_refs_def table_refs_def fresh_vm_def init_hashmap_def
        constant_stack_max_def frames_stack_max_def buf_alloc_def value_refs_def take_Suc hd_conv_nth obj_value_def)
  have refs: "ref_refs (gv_heap sample_gc) (ObjRef 0) = [StrRef ''kept'']" "ref_refs (gv_heap sample_gc) (StrRef ''kept'') = []"
    by (simp_all add: ref_refs_def sample_gc_def obj_refs_def value_refs_def string_value_def)
  show "gc_ready sample_gc"
    using root by (simp add: gc_ready_def)
      (auto simp: sample_gc_def fresh_vm_def buf_read_def buf_alloc_def constant_stack_max_def frames_stack_max_def
        obj_readable_def obj_refs_def value_refs_def string_value_def obj_value_def split: if_splits)
  show "pool_ready sample_gc"
    using single_table [of "''gone''"] by (auto simp: pool_ready_def pool_ok_def sample_gc_def)
  show "length (gv_objects sample_gc) < 5" by (simp add: sample_gc_def)
  have "r \<in> {ObjRef 0, StrRef ''kept''}" if "r \<in> reached sample_gc" for r
    using that by (induction rule: reached.induct) (use root refs in auto)
  moreover have "ObjRef 0 \<in> reached sample_gc" by (rule reached_root) (simp add: root)
  moreover have "StrRef ''kept'' \<in> reached sample_gc"
    by (rule reached_step [OF \<open>ObjRef 0 \<in> reached sample_gc\<close>]) (simp add: refs)
  ultimately show "reached sample_gc = {ObjRef 0, StrRef ''kept''}" by auto
qed


lemma second_collection_faults_witness:
  "\<forall>bytes. \<exists>g'. collect_garbage bytes 5 sample_gc = Inr ((), g') \<and> collect_garbage bytes 5 g' = Inl (Undefined ''null key'')"
proof
  fix bytes
  have "hm_map (gv_strings sample_gc) ''gone'' \<noteq> None" using single_table(4) by (simp add: sample_gc_def)
  moreover have "StrRef ''gone'' \<notin> reached sample_gc" by (simp add: sample_gc(4))
  moreover have "h_objs (gv_heap sample_gc) a \<noteq> Some (OStruct x)" for a x by (simp add: sample_gc_def)
  ultimately show "\<exists>g'. collect_garbage bytes 5 sample_gc = Inr ((), g') \<and>
      collect_garbage bytes 5 g' = Inl (Undefined ''null key'')"
    by (intro second_collection_faults [OF sample_gc(1-3), where s = "''gone''"])
qed

text \<open>A state with a new struct on the stack.\<close>

definition sample_struct :: gc_vm where
  "sample_struct = sample_gc\<lparr>gv_vm := (gv_vm sample_gc)\<lparr>vm_heap := \<lparr>h_objs = [0 \<mapsto> OStruct \<lparr>st_name = ''P'',
       st_fields = init_hashmap, st_names = 1, st_count = 0\<rparr>, 1 \<mapsto> OVec new_vec], h_next = 2\<rparr>\<rparr>,
     gv_objects := [ObjRef 0, ObjRef 1], gv_strings := init_hashmap\<rparr>"

lemma sample_struct:
  "gc_ready sample_struct" "pool_ready sample_struct" "length (gv_objects sample_struct) < 3" "reached sample_struct = {ObjRef 0}"
proof -
  have root: "root_refs sample_struct = [ObjRef 0]"
    by (simp add: root_refs_def sample_struct_def sample_gc_def slot_refs_def option_refs_def table_refs_def fresh_vm_def
        init_hashmap_def constant_stack_max_def frames_stack_max_def buf_alloc_def value_refs_def take_Suc hd_conv_nth obj_value_def)
  have refs: "ref_refs (gv_heap sample_struct) (ObjRef 0) = []"
    by (simp add: ref_refs_def sample_struct_def obj_refs_def table_refs_def init_hashmap_def get_vec_def vec_refs_def vec_list_def
        new_vec_def)
  have "vec_readable new_vec" by (auto simp: vec_readable_def new_vec_def holds_def)
  then show "gc_ready sample_struct"
    using root by (simp add: gc_ready_def)
      (auto simp: sample_struct_def sample_gc_def fresh_vm_def buf_read_def buf_alloc_def constant_stack_max_def
        frames_stack_max_def obj_readable_def obj_refs_def table_refs_def init_hashmap_def get_vec_def vec_refs_def vec_list_def
        new_vec_def split: if_splits)
  show "pool_ready sample_struct"
    using hm_wf_empty [of hash_string]
    by (simp add: pool_ready_def pool_ok_def sample_struct_def no_tombstones_def, simp add: init_hashmap_def)
  show "length (gv_objects sample_struct) < 3" by (simp add: sample_struct_def)
  have "r \<in> {ObjRef 0}" if "r \<in> reached sample_struct" for r
    using that by (induction rule: reached.induct) (use root refs in auto)
  moreover have "ObjRef 0 \<in> reached sample_struct" by (rule reached_root) (simp add: root)
  ultimately show "reached sample_struct = {ObjRef 0}" by blast
qed

lemma struct_names_released_witness:
  "\<forall>bytes. \<exists>g' s. collect_garbage bytes 3 sample_struct = Inr ((), g') \<and> h_objs (gv_heap g') 0 = Some (OStruct s) \<and>
     h_objs (gv_heap g') (st_names s) = None"
proof
  fix bytes
  let ?s = "\<lparr>st_name = ''P'', st_fields = init_hashmap, st_names = 1, st_count = 0\<rparr>"
  have "ObjRef 0 \<in> reached sample_struct" "h_objs (gv_heap sample_struct) 0 = Some (OStruct ?s)"
    "ObjRef (st_names ?s) \<in> set (gv_objects sample_struct)" "ObjRef (st_names ?s) \<notin> reached sample_struct"
    unfolding sample_struct(4) by (simp_all add: sample_struct_def)
  from struct_names_released [OF sample_struct(1-3) this, of bytes] show
    "\<exists>g' s. collect_garbage bytes 3 sample_struct = Inr ((), g') \<and> h_objs (gv_heap g') 0 = Some (OStruct s) \<and>
     h_objs (gv_heap g') (st_names s) = None" by blast
qed

end
