(* ===== verification/Joker_Allocator.thy ===== *)
theory Joker_Allocator
  imports Joker_Buffer
begin

text \<open>
  The allocator (include/allocator.h, src/allocator.c): parts of equal blocks, sorted by the size of the
  block, each with a list of its free blocks threaded through the headers of the blocks.

  A pointer to the memory of a user is the address of a part with the index of a block in it; the addresses
  of parts come from \<open>malloc\<close>, which is taken to succeed and to give a new address each time. The fields of a
  part that are only printed (file, line, timestamp) are left out.
\<close>

subsection \<open>Sizes\<close>

datatype part_size =
  PART_SIZE_8 | PART_SIZE_16 | PART_SIZE_32 | PART_SIZE_64 | PART_SIZE_128 | PART_SIZE_256 | PART_SIZE_512
  | PART_SIZE_1024 | PART_SIZE_2048 | PART_SIZE_4096 | PART_SIZE_8192 | PART_SIZE_16384 | PART_SIZE_32768
  | PART_SIZE_65536 | PART_SIZE_OVERFLOW

fun size_rank :: "part_size \<Rightarrow> nat" where
  "size_rank PART_SIZE_8 = 0"
| "size_rank PART_SIZE_16 = 1"
| "size_rank PART_SIZE_32 = 2"
| "size_rank PART_SIZE_64 = 3"
| "size_rank PART_SIZE_128 = 4"
| "size_rank PART_SIZE_256 = 5"
| "size_rank PART_SIZE_512 = 6"
| "size_rank PART_SIZE_1024 = 7"
| "size_rank PART_SIZE_2048 = 8"
| "size_rank PART_SIZE_4096 = 9"
| "size_rank PART_SIZE_8192 = 10"
| "size_rank PART_SIZE_16384 = 11"
| "size_rank PART_SIZE_32768 = 12"
| "size_rank PART_SIZE_65536 = 13"
| "size_rank PART_SIZE_OVERFLOW = 14"

text \<open>The enumeration compares by position, so lists of parts can be \<open>sorted\<close>.\<close>

instantiation part_size :: linorder
begin

definition less_eq_part_size :: "part_size \<Rightarrow> part_size \<Rightarrow> bool" where
  "s \<le> t \<longleftrightarrow> size_rank s \<le> size_rank t"

definition less_part_size :: "part_size \<Rightarrow> part_size \<Rightarrow> bool" where
  "s < t \<longleftrightarrow> size_rank s < size_rank t"

instance
proof
  fix s t :: part_size
  assume "s \<le> t" and "t \<le> s"
  then have "size_rank s = size_rank t" by (simp add: less_eq_part_size_def)
  then show "s = t" by (cases s; cases t) simp_all
qed (auto simp: less_eq_part_size_def less_part_size_def)

end

text \<open>The columns of \<open>PART_COUNT\<close>: the bytes of a block, the blocks of a part, and its capacity.\<close>

fun PART_COUNT :: "part_size \<Rightarrow> nat \<times> nat \<times> nat" where
  "PART_COUNT PART_SIZE_8 = (8, 128, 1024)"
| "PART_COUNT PART_SIZE_16 = (16, 256, 4096)"
| "PART_COUNT PART_SIZE_32 = (32, 512, 16384)"
| "PART_COUNT PART_SIZE_64 = (64, 1024, 65536)"
| "PART_COUNT PART_SIZE_128 = (128, 512, 65536)"
| "PART_COUNT PART_SIZE_256 = (256, 256, 65536)"
| "PART_COUNT PART_SIZE_512 = (512, 128, 65536)"
| "PART_COUNT PART_SIZE_1024 = (1024, 64, 65536)"
| "PART_COUNT PART_SIZE_2048 = (2048, 32, 65536)"
| "PART_COUNT PART_SIZE_4096 = (4096, 16, 65536)"
| "PART_COUNT PART_SIZE_8192 = (8192, 8, 65536)"
| "PART_COUNT PART_SIZE_16384 = (16384, 4, 65536)"
| "PART_COUNT PART_SIZE_32768 = (32768, 2, 65536)"
| "PART_COUNT PART_SIZE_65536 = (65535, 1, 65536)"
| "PART_COUNT PART_SIZE_OVERFLOW = (0, 0, 0)"

definition part_bytes :: "part_size \<Rightarrow> nat" where
  "part_bytes s = fst (PART_COUNT s)"

definition part_total :: "part_size \<Rightarrow> nat" where
  "part_total s = fst (snd (PART_COUNT s))"

definition part_capacity :: "part_size \<Rightarrow> nat" where
  "part_capacity s = snd (snd (PART_COUNT s))"

text \<open>The chain of comparisons of \<open>MACRO_PART_SIZE_FROM_USER\<close>.\<close>

definition part_sizes :: "part_size list" where
  "part_sizes = [PART_SIZE_8, PART_SIZE_16, PART_SIZE_32, PART_SIZE_64, PART_SIZE_128, PART_SIZE_256, PART_SIZE_512,
     PART_SIZE_1024, PART_SIZE_2048, PART_SIZE_4096, PART_SIZE_8192, PART_SIZE_16384, PART_SIZE_32768, PART_SIZE_65536]"

definition MACRO_PART_SIZE_FROM_USER :: "nat \<Rightarrow> part_size" where
  "MACRO_PART_SIZE_FROM_USER n =
     (case find (\<lambda>s. n \<le> part_bytes s) part_sizes of Some s \<Rightarrow> s | None \<Rightarrow> PART_SIZE_OVERFLOW)"

subsection \<open>State\<close>

text \<open>
  \<open>bk_part\<close> is \<open>None\<close> where it was never written; \<open>bk_data\<close> is the memory of the user behind the header.
\<close>

record block =
  bk_part :: "nat option"
  bk_is_used :: bool
  bk_next :: "nat option"
  bk_data :: "u8 buffer"

record part =
  pt_capacity :: nat
  pt_total :: nat
  pt_used :: nat
  pt_size :: part_size
  pt_blocks :: "block list"
  pt_free_link :: "nat option"

text \<open>The list of parts from \<open>head\<close> on, each with its address.\<close>

record allocator =
  al_parts :: "(nat \<times> part) list"
  al_total_capacity :: nat
  al_fresh :: nat

type_synonym pointer = "nat \<times> nat"

definition new_allocator :: allocator where
  "new_allocator = \<lparr>al_parts = [], al_total_capacity = 0, al_fresh = 0\<rparr>"

subsection \<open>Parts\<close>

text \<open>
  The loop stops before the last block, whose \<open>part\<close> it does not write.
\<close>

definition new_block :: "nat \<Rightarrow> part_size \<Rightarrow> nat \<Rightarrow> block" where
  "new_block a s i =
     (if i < part_total s - 1
      then \<lparr>bk_part = Some a, bk_is_used = False, bk_next = Some (i + 1), bk_data = buf_alloc (part_bytes s)\<rparr>
      else \<lparr>bk_part = None, bk_is_used = False, bk_next = None, bk_data = buf_alloc (part_bytes s)\<rparr>)"

definition new_part :: "nat \<Rightarrow> part_size \<Rightarrow> part" where
  "new_part a s = \<lparr>pt_capacity = part_capacity s, pt_total = part_total s, pt_used = 0, pt_size = s,
     pt_blocks = map (new_block a s) [0..<part_total s], pt_free_link = Some 0\<rparr>"

text \<open>The walk of \<open>add_part\<close> to the first part that is bigger.\<close>

fun insert_part :: "nat \<Rightarrow> part \<Rightarrow> (nat \<times> part) list \<Rightarrow> (nat \<times> part) list outcome" where
  "insert_part a p [] = Inr [(a, p)]"
| "insert_part a p ((b, q) # ps) =
     (if a = b then Inl (Panic ''memory::add_part'')
      else if pt_size p < pt_size q then Inr ((a, p) # (b, q) # ps)
      else andThen (insert_part a p ps) (\<lambda>ps. Inr ((b, q) # ps)))"

definition add_part :: "nat \<Rightarrow> part \<Rightarrow> allocator \<Rightarrow> allocator outcome" where
  "add_part a p al =
     andThen (insert_part a p (al_parts al)) (\<lambda>ps.
       Inr (al\<lparr>al_parts := ps, al_total_capacity := al_total_capacity al + pt_capacity p\<rparr>))"

definition remove_part :: "nat \<Rightarrow> part \<Rightarrow> allocator \<Rightarrow> allocator" where
  "remove_part a p al =
     al\<lparr>al_parts := filter (\<lambda>(b, _). b \<noteq> a) (al_parts al),
        al_total_capacity := al_total_capacity al - pt_capacity p\<rparr>"

subsection \<open>Allocation\<close>

definition pop_block :: "nat \<Rightarrow> part \<Rightarrow> part" where
  "pop_block i p =
     (let b = pt_blocks p ! i in
      p\<lparr>pt_free_link := bk_next b, pt_used := pt_used p + 1,
        pt_blocks := (pt_blocks p)[i := b\<lparr>bk_is_used := True, bk_next := None\<rparr>]\<rparr>)"

fun take_block :: "part_size \<Rightarrow> (nat \<times> part) list \<Rightarrow> (pointer \<times> (nat \<times> part) list) option" where
  "take_block s [] = None"
| "take_block s ((a, p) # ps) =
     (case (pt_size p = s, pt_free_link p) of
        (True, Some i) \<Rightarrow> Some ((a, i), (a, pop_block i p) # ps)
      | _ \<Rightarrow> map_option (\<lambda>(r, ps). (r, (a, p) # ps)) (take_block s ps))"

text \<open>The second search starts at the part that was added.\<close>

definition allocate_memory :: "allocator \<Rightarrow> nat \<Rightarrow> (pointer option \<times> allocator) outcome" where
  "allocate_memory al bytes =
     (if bytes = 0 then Inr (None, al)
      else let s = MACRO_PART_SIZE_FROM_USER bytes in
        if s = PART_SIZE_OVERFLOW then Inl (Panic ''memory::allocate_memory'')
        else case take_block s (al_parts al) of
            Some (r, ps) \<Rightarrow> Inr (Some r, al\<lparr>al_parts := ps\<rparr>)
          | None \<Rightarrow>
              let a = al_fresh al in
              andThen (add_part a (new_part a s) (al\<lparr>al_fresh := a + 1\<rparr>)) (\<lambda>al.
                case take_block s (dropWhile (\<lambda>(b, _). b \<noteq> a) (al_parts al)) of
                  Some (r, ps) \<Rightarrow> Inr (Some r, al\<lparr>al_parts := takeWhile (\<lambda>(b, _). b \<noteq> a) (al_parts al) @ ps\<rparr>)
                | None \<Rightarrow> Inl (Panic ''memory::allocate_memory'')))"

subsection \<open>Release\<close>

definition part_at :: "allocator \<Rightarrow> nat \<Rightarrow> part outcome" where
  "part_at al a = (case map_of (al_parts al) a of None \<Rightarrow> Inl (Undefined ''released part'') | Some p \<Rightarrow> Inr p)"

definition block_at :: "allocator \<Rightarrow> pointer \<Rightarrow> block outcome" where
  "block_at al r = andThen (part_at al (fst r)) (\<lambda>p.
     if snd r < length (pt_blocks p) then Inr (pt_blocks p ! snd r) else Inl (Undefined ''no such block''))"

definition owner :: "block \<Rightarrow> nat outcome" where
  "owner b = (case bk_part b of None \<Rightarrow> Inl (Undefined ''indeterminate part'') | Some a \<Rightarrow> Inr a)"

definition set_part :: "nat \<Rightarrow> part \<Rightarrow> allocator \<Rightarrow> allocator" where
  "set_part a p al = al\<lparr>al_parts := map (\<lambda>(b, q). if b = a then (b, p) else (b, q)) (al_parts al)\<rparr>"

definition push_block :: "nat \<Rightarrow> part \<Rightarrow> part" where
  "push_block i p =
     p\<lparr>pt_used := pt_used p - 1, pt_free_link := Some i,
       pt_blocks := (pt_blocks p)[i := (pt_blocks p ! i)\<lparr>bk_is_used := False, bk_next := pt_free_link p\<rparr>]\<rparr>"

definition free_memory :: "allocator \<Rightarrow> pointer option \<Rightarrow> allocator outcome" where
  "free_memory al memory =
     (case memory of
        None \<Rightarrow> Inr al
      | Some r \<Rightarrow>
          andThen (block_at al r) (\<lambda>b. andThen (owner b) (\<lambda>a.
            if \<not> bk_is_used b then Inl (Panic ''memory::free_memory'')
            else andThen (part_at al a) (\<lambda>p.
              let p = push_block (snd r) p in
              Inr (if pt_used p = 0 then remove_part a p al else set_part a p al)))))"

text \<open>The bytes a copy moves: the whole old block, or as many as the new size asks for.\<close>

definition copy_block :: "nat \<Rightarrow> u8 buffer \<Rightarrow> u8 buffer \<Rightarrow> u8 buffer" where
  "copy_block n from to = take n from @ drop n to"

definition store_data :: "pointer \<Rightarrow> u8 buffer \<Rightarrow> allocator \<Rightarrow> allocator outcome" where
  "store_data r d al = andThen (part_at al (fst r)) (\<lambda>p.
     Inr (set_part (fst r) (p\<lparr>pt_blocks := (pt_blocks p)[snd r := (pt_blocks p ! snd r)\<lparr>bk_data := d\<rparr>]\<rparr>) al))"

definition reallocate_memory :: "allocator \<Rightarrow> pointer option \<Rightarrow> nat \<Rightarrow> (pointer option \<times> allocator) outcome" where
  "reallocate_memory al memory new_size =
     (if new_size = 0 then andThen (free_memory al memory) (\<lambda>al. Inr (None, al))
      else case memory of
          None \<Rightarrow> allocate_memory al new_size
        | Some r \<Rightarrow>
            andThen (block_at al r) (\<lambda>b. andThen (owner b) (\<lambda>a. andThen (part_at al a) (\<lambda>p.
            andThen (allocate_memory al new_size) (\<lambda>(ra, al). case ra of
                None \<Rightarrow> Inl (Panic ''memory::reallocate_memory'')
              | Some t \<Rightarrow>
                  andThen (block_at al r) (\<lambda>old. andThen (block_at al t) (\<lambda>new.
                  andThen (store_data t (copy_block (min (part_bytes (pt_size p)) new_size) (bk_data old) (bk_data new)) al) (\<lambda>al.
                  andThen (free_memory al memory) (\<lambda>al. Inr (Some t, al))))))))))"

subsection \<open>The free list of a part\<close>

fun chain :: "block list \<Rightarrow> nat option \<Rightarrow> nat list \<Rightarrow> bool" where
  "chain bs None [] = True"
| "chain bs (Some i) (j # xs) = (i = j \<and> i < length bs \<and> chain bs (bk_next (bs ! i)) xs)"
| "chain bs _ _ = False"

lemma chain_update: "i \<notin> set xs \<Longrightarrow> chain (bs[i := b]) q xs = chain bs q xs"
  by (induction bs q xs rule: chain.induct) auto

definition part_wf :: "nat \<Rightarrow> part \<Rightarrow> bool" where
  "part_wf a p \<longleftrightarrow> pt_size p \<noteq> PART_SIZE_OVERFLOW \<and> pt_total p = part_total (pt_size p) \<and>
     pt_capacity p = part_capacity (pt_size p) \<and> length (pt_blocks p) = pt_total p \<and>
     (\<exists>xs. chain (pt_blocks p) (pt_free_link p) xs \<and> distinct xs \<and>
        set xs = {i. i < length (pt_blocks p) \<and> \<not> bk_is_used (pt_blocks p ! i)} \<and> pt_used p + length xs = pt_total p) \<and>
     (\<forall>i<length (pt_blocks p). bk_part (pt_blocks p ! i) = (if i < pt_total p - 1 then Some a else None) \<and>
        length (bk_data (pt_blocks p ! i)) = part_bytes (pt_size p))"

lemma part_total_pos: "s \<noteq> PART_SIZE_OVERFLOW \<Longrightarrow> 0 < part_total s"
  by (cases s) (simp_all add: part_total_def)

lemma new_part_chain:
  assumes "k < part_total s"
  shows "chain (map (new_block a s) [0..<part_total s]) (Some k) [k..<part_total s]"
  using assms
proof (induction "part_total s - k" arbitrary: k)
  case (Suc d)
  let ?bs = "map (new_block a s) [0..<part_total s]"
  have k: "?bs ! k = new_block a s k" "k < length ?bs" using Suc.prems by simp_all
  have l: "[k..<part_total s] = k # [Suc k..<part_total s]" using Suc.prems by (simp add: upt_conv_Cons)
  show ?case
  proof (cases "Suc k < part_total s")
    case True
    then have "chain ?bs (Some (Suc k)) [Suc k..<part_total s]" using Suc by simp
    then show ?thesis unfolding l chain.simps k(1) using k(2) True by (simp add: new_block_def less_diff_conv)
  next
    case False
    then show ?thesis unfolding l chain.simps k(1) using k(2) Suc.prems by (simp add: new_block_def)
  qed
qed simp

lemma new_block_simps [simp]:
  "\<not> bk_is_used (new_block a s i)" "bk_part (new_block a s i) = (if i < part_total s - 1 then Some a else None)"
  "length (bk_data (new_block a s i)) = part_bytes s"
  by (simp_all add: new_block_def buf_alloc_def)

lemma part_wfI:
  assumes "pt_size p \<noteq> PART_SIZE_OVERFLOW" and "pt_total p = part_total (pt_size p)"
    and "pt_capacity p = part_capacity (pt_size p)" and "length (pt_blocks p) = pt_total p"
    and "chain (pt_blocks p) (pt_free_link p) xs" and "distinct xs"
    and "set xs = {i. i < length (pt_blocks p) \<and> \<not> bk_is_used (pt_blocks p ! i)}" and "pt_used p + length xs = pt_total p"
    and "\<And>i. i < length (pt_blocks p) \<Longrightarrow> bk_part (pt_blocks p ! i) = (if i < pt_total p - 1 then Some a else None)"
    and "\<And>i. i < length (pt_blocks p) \<Longrightarrow> length (bk_data (pt_blocks p ! i)) = part_bytes (pt_size p)"
  shows "part_wf a p"
  unfolding part_wf_def using assms by blast

lemma new_part_wf:
  assumes "s \<noteq> PART_SIZE_OVERFLOW"
  shows "part_wf a (new_part a s)"
  by (rule part_wfI [where xs = "[0..<part_total s]"])
    (use assms part_total_pos [OF assms] new_part_chain [of 0 s a] in \<open>auto simp: new_part_def\<close>)

lemma pop_block_wf:
  assumes "part_wf a p" and "pt_free_link p = Some i"
  shows "part_wf a (pop_block i p)" and "i < length (pt_blocks p)" and "\<not> bk_is_used (pt_blocks p ! i)"
proof -
  obtain xs where xs: "chain (pt_blocks p) (pt_free_link p) xs" "distinct xs"
    "set xs = {i. i < length (pt_blocks p) \<and> \<not> bk_is_used (pt_blocks p ! i)}" "pt_used p + length xs = pt_total p"
    using assms(1) by (auto simp: part_wf_def)
  then obtain ys where ys: "xs = i # ys" "chain (pt_blocks p) (bk_next (pt_blocks p ! i)) ys"
    using assms(2) by (cases xs) auto
  then show i: "i < length (pt_blocks p)" "\<not> bk_is_used (pt_blocks p ! i)" using xs(3) by auto
  have "chain (pt_blocks (pop_block i p)) (pt_free_link (pop_block i p)) ys"
    using ys xs(2) by (simp add: pop_block_def Let_def chain_update)
  moreover have "set ys = {j. j < length (pt_blocks (pop_block i p)) \<and> \<not> bk_is_used (pt_blocks (pop_block i p) ! j)}"
  proof -
    have "set ys = set xs - {i}" using xs(2) ys(1) by auto
    then have "j \<in> set ys \<longleftrightarrow> j < length (pt_blocks p) \<and> \<not> bk_is_used (pt_blocks p ! j) \<and> j \<noteq> i" for j
      by (simp only: xs(3) Diff_iff mem_Collect_eq singleton_iff conj_assoc)
    then show ?thesis using i(1) by (intro set_eqI) (simp add: pop_block_def Let_def nth_list_update)
  qed
  moreover have "distinct ys" "pt_used (pop_block i p) + length ys = pt_total (pop_block i p)"
    using xs(2,4) ys(1) by (simp_all add: pop_block_def Let_def)
  ultimately show "part_wf a (pop_block i p)"
    by (intro part_wfI [where xs = ys])
      (use assms(1) i(1) in \<open>auto simp: part_wf_def pop_block_def Let_def nth_list_update\<close>)
qed

lemma push_block_wf:
  assumes "part_wf a p" and "i < length (pt_blocks p)" and "bk_is_used (pt_blocks p ! i)"
  shows "part_wf a (push_block i p)" and "0 < pt_used p"
proof -
  obtain xs where xs: "chain (pt_blocks p) (pt_free_link p) xs" "distinct xs"
    "set xs = {i. i < length (pt_blocks p) \<and> \<not> bk_is_used (pt_blocks p ! i)}" "pt_used p + length xs = pt_total p"
    using assms(1) by (auto simp: part_wf_def)
  have i: "i \<notin> set xs" using xs(3) assms(3) by simp
  have "set xs \<subset> {..<pt_total p}" using xs(3) assms i by (auto simp: part_wf_def)
  then have "card (set xs) < pt_total p" by (metis card_lessThan finite_lessThan psubset_card_mono)
  then show u: "0 < pt_used p" using xs(4) distinct_card [OF xs(2)] by simp
  have "chain (pt_blocks (push_block i p)) (pt_free_link (push_block i p)) (i # xs)"
    using xs(1) i assms(2) by (simp add: push_block_def chain_update)
  moreover have "set (i # xs) = {j. j < length (pt_blocks (push_block i p)) \<and> \<not> bk_is_used (pt_blocks (push_block i p) ! j)}"
    using assms(2) unfolding list.set xs(3) by (auto simp: push_block_def nth_list_update)
  moreover have "distinct (i # xs)" "pt_used (push_block i p) + length (i # xs) = pt_total (push_block i p)"
    using xs(2,4) i u by (simp_all add: push_block_def)
  ultimately show "part_wf a (push_block i p)"
    by (intro part_wfI [where xs = "i # xs"])
      (use assms(1,2) in \<open>auto simp: part_wf_def push_block_def nth_list_update\<close>)
qed

subsection \<open>The invariant of the allocator\<close>

definition alloc_wf :: "allocator \<Rightarrow> bool" where
  "alloc_wf al \<longleftrightarrow> sorted (map (\<lambda>(_, p). pt_size p) (al_parts al)) \<and> distinct (map fst (al_parts al)) \<and>
     (\<forall>(a, p)\<in>set (al_parts al). a < al_fresh al \<and> part_wf a p \<and> 0 < pt_used p) \<and>
     al_total_capacity al = sum_list (map (\<lambda>(_, p). pt_capacity p) (al_parts al))"

text \<open>The pointers that were handed out and not taken back.\<close>

definition live :: "allocator \<Rightarrow> pointer set" where
  "live al = {r. \<exists>b. block_at al r = Inr b \<and> bk_is_used b}"

definition capacity_at :: "allocator \<Rightarrow> pointer \<Rightarrow> nat" where
  "capacity_at al r = (case part_at al (fst r) of Inl _ \<Rightarrow> 0 | Inr p \<Rightarrow> part_bytes (pt_size p))"

lemma part_at_iff: "distinct (map fst (al_parts al)) \<Longrightarrow> part_at al a = Inr p \<longleftrightarrow> (a, p) \<in> set (al_parts al)"
  by (auto simp: part_at_def split: option.splits dest: map_of_SomeD eq_key_imp_eq_value)

lemma block_at_cong: "part_at al (fst r) = part_at al' (fst r) \<Longrightarrow> block_at al r = block_at al' r"
  by (simp add: block_at_def)

lemma part_at_around:
  assumes "distinct (map fst (us @ (a, p) # vs))" and "al_parts al' = us @ (a, p) # vs"
  shows "part_at al' b = (if b = a then Inr p else case map_of (us @ vs) b of None \<Rightarrow> Inl (Undefined ''released part'') | Some p \<Rightarrow> Inr p)"
  using assms by (auto simp: part_at_def map_add_def split: option.split dest: map_of_SomeD intro: rev_image_eqI)

text \<open>One part is replaced by another of the same size.\<close>

lemma alloc_wf_replace:
  assumes "alloc_wf al" and "al_parts al = us @ (a, p) # vs" and "part_wf a p'" and "pt_size p' = pt_size p" and "0 < pt_used p'"
    and "pt_capacity p' = pt_capacity p"
  shows "alloc_wf (al\<lparr>al_parts := us @ (a, p') # vs\<rparr>)"
  using assms unfolding alloc_wf_def by (auto simp: sorted_append)

lemma live_replace:
  assumes "distinct (map fst (al_parts al))" and "al_parts al = us @ (a, p) # vs" and "al_parts al' = us @ (a, p') # vs"
    and "length (pt_blocks p') = length (pt_blocks p)" and "i < length (pt_blocks p)"
    and "\<And>j. j \<noteq> i \<Longrightarrow> pt_blocks p' ! j = pt_blocks p ! j"
  shows "live al' = (if bk_is_used (pt_blocks p' ! i) then insert (a, i) (live al) else live al - {(a, i)})"
    and "r \<noteq> (a, i) \<Longrightarrow> block_at al' r = block_at al r" and "block_at al' (a, i) = Inr (pt_blocks p' ! i)"
    and "block_at al (a, i) = Inr (pt_blocks p ! i)"
proof -
  have d: "distinct (map fst (us @ (a, p) # vs))" using assms(1,2) by simp
  then have d': "distinct (map fst (us @ (a, p') # vs))" by simp
  note at = part_at_around [OF d assms(2)] part_at_around [OF d' assms(3)]
  show b: "block_at al' r = block_at al r" if "r \<noteq> (a, i)" for r
    using that assms(4,6) by (cases r) (auto simp: block_at_def at)
  show c: "block_at al' (a, i) = Inr (pt_blocks p' ! i)" "block_at al (a, i) = Inr (pt_blocks p ! i)"
    using assms(4,5) by (simp_all add: block_at_def at)
  have "r \<in> live al' \<longleftrightarrow> (if r = (a, i) then bk_is_used (pt_blocks p' ! i) else r \<in> live al)" for r
    using b [of r] c(1) by (auto simp: live_def)
  then show "live al' = (if bk_is_used (pt_blocks p' ! i) then insert (a, i) (live al) else live al - {(a, i)})"
    by (intro set_eqI) (simp split: if_splits)
qed

lemma take_block_Some:
  "take_block s ps = Some (r, ps') \<Longrightarrow> \<exists>us a p vs i. ps = us @ (a, p) # vs \<and> ps' = us @ (a, pop_block i p) # vs \<and>
     r = (a, i) \<and> pt_size p = s \<and> pt_free_link p = Some i"
proof (induction ps arbitrary: ps')
  case (Cons q ps)
  obtain a p where q: "q = (a, p)" by (cases q)
  show ?case
  proof (cases "pt_size p = s \<and> pt_free_link p \<noteq> None")
    case True
    then obtain i where "pt_free_link p = Some i" by blast
    with True q Cons.prems show ?thesis by (intro exI [of _ "[]"]) auto
  next
    case False
    then obtain qs where qs: "take_block s ps = Some (r, qs)" "ps' = (a, p) # qs" using Cons.prems q
      by (auto split: bool.splits option.splits)
    from Cons.IH [OF qs(1)] obtain us b p' vs i where "ps = us @ (b, p') # vs" "qs = us @ (b, pop_block i p') # vs"
      "r = (b, i)" "pt_size p' = s" "pt_free_link p' = Some i" by blast
    with q qs(2) show ?thesis by (intro exI [of _ "(a, p) # us"]) auto
  qed
qed simp

lemma insert_part_run:
  "a \<notin> fst ` set ps \<Longrightarrow> sorted (map (\<lambda>(_, p). pt_size p) ps) \<Longrightarrow>
   \<exists>us vs. ps = us @ vs \<and> insert_part a p ps = Inr (us @ (a, p) # vs) \<and>
     sorted (map (\<lambda>(_, p). pt_size p) (us @ (a, p) # vs))"
proof (induction ps)
  case Nil
  then show ?case by simp
next
  case (Cons q ps)
  obtain b p' where q: "q = (b, p')" by (cases q)
  show ?case
  proof (cases "pt_size p < pt_size p'")
    case True
    moreover from this q Cons.prems(2) have "\<forall>x\<in>set ps. pt_size p \<le> (case x of (_, p) \<Rightarrow> pt_size p)"
      by (force intro: order.trans [OF less_imp_le])
    ultimately show ?thesis using q Cons.prems by (intro exI [of _ "[]"] exI [of _ "q # ps"]) auto
  next
    case False
    from Cons obtain us vs where uv: "ps = us @ vs" "insert_part a p ps = Inr (us @ (a, p) # vs)"
      "sorted (map (\<lambda>(_, p). pt_size p) (us @ (a, p) # vs))" by auto
    with q False Cons.prems show ?thesis
      by (intro exI [of _ "q # us"] exI [of _ vs]) (auto simp: not_less)
  qed
qed

subsection \<open>What the operations promise\<close>

lemma size_from_user:
  assumes "MACRO_PART_SIZE_FROM_USER n \<noteq> PART_SIZE_OVERFLOW"
  shows "n \<le> part_bytes (MACRO_PART_SIZE_FROM_USER n)"
proof (cases "find (\<lambda>s. n \<le> part_bytes s) part_sizes")
  case (Some s)
  then have "n \<le> part_bytes s" by (auto simp: find_Some_iff)
  with Some show ?thesis by (simp add: MACRO_PART_SIZE_FROM_USER_def)
qed (use assms in \<open>simp add: MACRO_PART_SIZE_FROM_USER_def\<close>)

lemma size_overflow: "MACRO_PART_SIZE_FROM_USER n = PART_SIZE_OVERFLOW \<longleftrightarrow> 65535 < n"
  by (auto simp: MACRO_PART_SIZE_FROM_USER_def part_sizes_def part_bytes_def split: if_splits)

text \<open>Taking a block out of one part.\<close>

lemma take_block_run:
  assumes "alloc_wf al" and "al_parts al = us @ (a, p) # vs" and "pt_free_link p = Some i"
  defines "al' \<equiv> al\<lparr>al_parts := us @ (a, pop_block i p) # vs\<rparr>"
  shows "alloc_wf al'" and "(a, i) \<notin> live al" and "live al' = insert (a, i) (live al)"
    and "r \<noteq> (a, i) \<Longrightarrow> block_at al' r = block_at al r" and "capacity_at al' (a, i) = part_bytes (pt_size p)"
    and "part_at al' a = Inr (pop_block i p)"
proof -
  have p: "part_wf a p" using assms(1,2) by (auto simp: alloc_wf_def)
  note pop = pop_block_wf [OF p assms(3)]
  have f: "pt_size (pop_block i p) = pt_size p" "pt_capacity (pop_block i p) = pt_capacity p" "0 < pt_used (pop_block i p)"
    "length (pt_blocks (pop_block i p)) = length (pt_blocks p)" "bk_is_used (pt_blocks (pop_block i p) ! i)"
    "\<And>j. j \<noteq> i \<Longrightarrow> pt_blocks (pop_block i p) ! j = pt_blocks p ! j"
    using pop(2) by (simp_all add: pop_block_def Let_def)
  show "alloc_wf al'" unfolding al'_def by (rule alloc_wf_replace [OF assms(1,2) pop(1) f(1,3,2)])
  have l: "al_parts al' = us @ (a, pop_block i p) # vs" by (simp add: al'_def)
  have d: "distinct (map fst (al_parts al))" using assms(1) by (simp add: alloc_wf_def)
  note rep = live_replace [OF d assms(2) l f(4) pop(2) f(6)]
  show "(a, i) \<notin> live al" using rep(4) pop(3) by (simp add: live_def)
  show "live al' = insert (a, i) (live al)" using rep(1) f(5) by simp
  show "r \<noteq> (a, i) \<Longrightarrow> block_at al' r = block_at al r" by (rule rep(2))
  have "distinct (map fst (us @ (a, pop_block i p) # vs))" using assms(1,2) by (simp add: alloc_wf_def)
  from part_at_around [OF this l] show "part_at al' a = Inr (pop_block i p)" by simp
  then show "capacity_at al' (a, i) = part_bytes (pt_size p)" by (simp add: capacity_at_def f(1))
qed

lemma take_block_None: "take_block s ps = None \<Longrightarrow> (a, p) \<in> set ps \<Longrightarrow> pt_size p = s \<Longrightarrow> pt_free_link p = None"
  by (induction ps) (auto split: bool.splits option.splits)

text \<open>A new part in the list: nothing is live in it.\<close>

lemma add_part_run:
  assumes "alloc_wf al" and "s \<noteq> PART_SIZE_OVERFLOW"
  obtains us vs al' where "add_part (al_fresh al) (new_part (al_fresh al) s) (al\<lparr>al_fresh := al_fresh al + 1\<rparr>) = Inr al'"
    and "al_parts al' = us @ (al_fresh al, new_part (al_fresh al) s) # vs"
    and "alloc_wf (al'\<lparr>al_parts := us @ (al_fresh al, pop_block 0 (new_part (al_fresh al) s)) # vs\<rparr>)"
    and "al_fresh al \<notin> fst ` set us" and "live al' = live al" and "\<And>r. r \<in> live al \<Longrightarrow> block_at al' r = block_at al r"
    and "distinct (map fst (al_parts al'))"
proof -
  let ?a = "al_fresh al" and ?p = "new_part (al_fresh al) s"
  have fresh: "?a \<notin> fst ` set (al_parts al)" using assms(1) by (auto simp: alloc_wf_def)
  have "sorted (map (\<lambda>(_, p). pt_size p) (al_parts al))" using assms(1) by (simp add: alloc_wf_def)
  from insert_part_run [OF fresh this, of ?p] obtain us vs where uv: "al_parts al = us @ vs"
    "insert_part ?a ?p (al_parts al) = Inr (us @ (?a, ?p) # vs)" "sorted (map (\<lambda>(_, p). pt_size p) (us @ (?a, ?p) # vs))" by blast
  let ?al = "al\<lparr>al_fresh := ?a + 1, al_parts := us @ (?a, ?p) # vs, al_total_capacity := al_total_capacity al + pt_capacity ?p\<rparr>"
  have d: "distinct (map fst (us @ (?a, ?p) # vs))" using fresh assms(1) uv(1) by (auto simp: alloc_wf_def)
  have wf: "part_wf ?a (pop_block 0 ?p)" by (rule pop_block_wf [OF new_part_wf [OF assms(2)]]) (simp add: new_part_def)
  have at: "part_at ?al b = (if b = ?a then Inr ?p else part_at al b)" for b
  proof -
    have "part_at ?al b = (if b = ?a then Inr ?p else case map_of (us @ vs) b of None \<Rightarrow> Inl (Undefined ''released part'') | Some p \<Rightarrow> Inr p)"
      by (rule part_at_around [OF d]) simp
    then show ?thesis using uv(1) by (simp add: part_at_def)
  qed
  have none: "part_at al ?a = Inl (Undefined ''released part'')"
    using fresh by (simp add: part_at_def map_of_eq_None_iff [THEN iffD2])
  have same: "block_at ?al r = block_at al r" if "fst r \<noteq> ?a" for r using that at by (simp add: block_at_def)
  have "bk_is_used (pt_blocks ?p ! i) \<Longrightarrow> i < length (pt_blocks ?p) \<Longrightarrow> False" for i by (simp add: new_part_def)
  moreover have "block_at ?al r = (if snd r < length (pt_blocks ?p) then Inr (pt_blocks ?p ! snd r) else Inl (Undefined ''no such block''))"
    if "fst r = ?a" for r using at [of ?a] that unfolding block_at_def by simp
  ultimately have unused: "r \<notin> live ?al" if "fst r = ?a" for r
    using that unfolding live_def by (auto split: if_splits)
  have dead: "r \<notin> live al" if "fst r = ?a" for r using that none by (auto simp: live_def block_at_def)
  show thesis
  proof
    show "add_part ?a ?p (al\<lparr>al_fresh := ?a + 1\<rparr>) = Inr ?al" using uv(2) by (simp add: add_part_def)
    show "al_parts ?al = us @ (?a, ?p) # vs" by simp
    show "alloc_wf (?al\<lparr>al_parts := us @ (?a, pop_block 0 ?p) # vs\<rparr>)"
      using assms(1) uv wf d unfolding alloc_wf_def
      by (auto simp: pop_block_def Let_def new_part_def less_Suc_eq)
    show "?a \<notin> fst ` set us" using d by auto
    have "r \<in> live ?al \<longleftrightarrow> r \<in> live al" for r
      using same [of r] unused [of r] dead [of r] by (cases "fst r = ?a") (auto simp: live_def)
    then show "live ?al = live al" by blast
    show "block_at ?al r = block_at al r" if "r \<in> live al" for r using same [of r] dead [of r] that by blast
    show "distinct (map fst (al_parts ?al))" using d by simp
  qed
qed

lemma allocate_memory_run:
  assumes "alloc_wf al" and "0 < n" and "n \<le> 65535"
  shows "\<exists>r al'. allocate_memory al n = Inr (Some r, al') \<and> alloc_wf al' \<and> r \<notin> live al \<and> live al' = insert r (live al) \<and>
    n \<le> capacity_at al' r \<and> (\<forall>t\<in>live al. block_at al' t = block_at al t)"
proof -
  let ?s = "MACRO_PART_SIZE_FROM_USER n"
  have s: "?s \<noteq> PART_SIZE_OVERFLOW" using size_overflow [of n] assms(3) by simp
  show ?thesis
  proof (cases "take_block ?s (al_parts al)")
    case (Some rp)
    obtain r ps where rp: "rp = (r, ps)" by (cases rp)
    from take_block_Some [OF Some [unfolded rp]] obtain us a p vs i where t: "al_parts al = us @ (a, p) # vs"
      "ps = us @ (a, pop_block i p) # vs" "r = (a, i)" "pt_size p = ?s" "pt_free_link p = Some i" by blast
    note run = take_block_run [OF assms(1) t(1,5)]
    have "allocate_memory al n = Inr (Some r, al\<lparr>al_parts := ps\<rparr>)"
      using assms(2) s Some rp by (simp add: allocate_memory_def Let_def)
    moreover have "\<forall>t\<in>live al. block_at (al\<lparr>al_parts := ps\<rparr>) t = block_at al t" using run(2,4) unfolding t(2) by metis
    ultimately show ?thesis using run(1-3,5) size_from_user [OF s] unfolding t(2,3)
      by (intro exI [of _ "(a, i)"] exI [of _ "al\<lparr>al_parts := us @ (a, pop_block i p) # vs\<rparr>"]) (simp add: t(4))
  next
    case None
    let ?a = "al_fresh al" and ?p = "new_part (al_fresh al) ?s"
    obtain us vs al1 where add: "add_part ?a ?p (al\<lparr>al_fresh := ?a + 1\<rparr>) = Inr al1" "al_parts al1 = us @ (?a, ?p) # vs"
      "alloc_wf (al1\<lparr>al_parts := us @ (?a, pop_block 0 ?p) # vs\<rparr>)" "?a \<notin> fst ` set us" "live al1 = live al"
      "\<And>r. r \<in> live al \<Longrightarrow> block_at al1 r = block_at al r" "distinct (map fst (al_parts al1))"
      by (rule add_part_run [OF assms(1) s]) blast
    let ?al = "al1\<lparr>al_parts := us @ (?a, pop_block 0 ?p) # vs\<rparr>"
    have split: "dropWhile (\<lambda>(b, _). b \<noteq> ?a) (al_parts al1) = (?a, ?p) # vs"
      "takeWhile (\<lambda>(b, _). b \<noteq> ?a) (al_parts al1) = us"
      unfolding add(2) using add(4) by (subst dropWhile_append2 takeWhile_append2; force)+
    have fl: "pt_free_link ?p = Some 0" "pt_size ?p = ?s" by (simp_all add: new_part_def)
    then have "allocate_memory al n = Inr (Some (?a, 0), ?al)"
      using assms(2) s None add(1) split by (simp add: allocate_memory_def Let_def)
    moreover
    have f: "length (pt_blocks (pop_block 0 ?p)) = length (pt_blocks ?p)" "0 < length (pt_blocks ?p)"
      "\<And>j. j \<noteq> 0 \<Longrightarrow> pt_blocks (pop_block 0 ?p) ! j = pt_blocks ?p ! j" "bk_is_used (pt_blocks (pop_block 0 ?p) ! 0)"
      "\<not> bk_is_used (pt_blocks ?p ! 0)" "pt_size (pop_block 0 ?p) = ?s"
      using part_total_pos [OF s] by (simp_all add: pop_block_def Let_def new_part_def)
    have l: "al_parts ?al = us @ (?a, pop_block 0 ?p) # vs" by simp
    note rep = live_replace [OF add(7,2) l f(1-3)]
    have "(?a, 0) \<notin> live al" using rep(4) f(5) unfolding add(5) [symmetric] by (simp add: live_def)
    moreover have "live ?al = insert (?a, 0) (live al)" using rep(1) f(4) add(5) by simp
    moreover have "\<forall>t\<in>live al. block_at ?al t = block_at al t" using rep(2) add(6) \<open>(?a, 0) \<notin> live al\<close> by metis
    moreover have "capacity_at ?al (?a, 0) = part_bytes ?s"
    proof -
      have "distinct (map fst (us @ (?a, pop_block 0 ?p) # vs))" using add(2,7) by simp
      from part_at_around [OF this l] show ?thesis by (simp add: capacity_at_def f(6))
    qed
    ultimately show ?thesis using add(3) size_from_user [OF s] by (intro exI [of _ "(?a, 0)"] exI [of _ ?al]) simp
  qed
qed

lemma live_part:
  assumes "alloc_wf al" and "r \<in> live al"
  obtains us p vs where "al_parts al = us @ (fst r, p) # vs" and "part_wf (fst r) p" and "snd r < length (pt_blocks p)"
    and "bk_is_used (pt_blocks p ! snd r)" and "part_at al (fst r) = Inr p" and "block_at al r = Inr (pt_blocks p ! snd r)"
    and "owner (pt_blocks p ! snd r) = (if snd r < pt_total p - 1 then Inr (fst r) else Inl (Undefined ''indeterminate part''))"
proof -
  obtain p where p: "part_at al (fst r) = Inr p" "snd r < length (pt_blocks p)" "bk_is_used (pt_blocks p ! snd r)"
    using assms(2) by (cases "part_at al (fst r)") (auto simp: live_def block_at_def split: if_splits)
  then have m: "(fst r, p) \<in> set (al_parts al)" using assms(1) by (simp add: alloc_wf_def part_at_iff)
  then have wf: "part_wf (fst r) p" using assms(1) by (auto simp: alloc_wf_def)
  from split_list [OF m] obtain us vs where "al_parts al = us @ (fst r, p) # vs" by blast
  moreover have "block_at al r = Inr (pt_blocks p ! snd r)" using p by (simp add: block_at_def)
  moreover have "owner (pt_blocks p ! snd r) = (if snd r < pt_total p - 1 then Inr (fst r) else Inl (Undefined ''indeterminate part''))"
    using wf p(2) by (simp add: part_wf_def owner_def)
  ultimately show thesis using wf p by (intro that)
qed

lemma set_part_around:
  assumes "distinct (map fst (al_parts al))" and "al_parts al = us @ (a, p) # vs"
  shows "set_part a q al = al\<lparr>al_parts := us @ (a, q) # vs\<rparr>"
proof -
  have "a \<notin> fst ` set us" "a \<notin> fst ` set vs" using assms by auto
  then have "map (\<lambda>(b, r). if b = a then (b, q) else (b, r)) us = us"
    "map (\<lambda>(b, r). if b = a then (b, q) else (b, r)) vs = vs"
    by (force intro!: map_idI)+
  then show ?thesis by (simp add: set_part_def assms(2))
qed

lemma remove_part_around:
  assumes "distinct (map fst (al_parts al))" and "al_parts al = us @ (a, p) # vs"
  shows "al_parts (remove_part a q al) = us @ vs"
proof -
  have "a \<notin> fst ` set us" "a \<notin> fst ` set vs" using assms by auto
  then have "filter (\<lambda>(b, _). b \<noteq> a) us = us" "filter (\<lambda>(b, _). b \<noteq> a) vs = vs"
    by (force simp: filter_id_conv)+
  then show ?thesis by (simp add: remove_part_def assms(2))
qed

text \<open>Giving back the only used block of a part releases the part.\<close>

lemma last_block:
  assumes "part_wf a p" and "pt_used p = 0" and "i < length (pt_blocks p)"
  shows "\<not> bk_is_used (pt_blocks p ! i)"
proof -
  obtain xs where xs: "distinct xs" "set xs = {i. i < length (pt_blocks p) \<and> \<not> bk_is_used (pt_blocks p ! i)}"
    "length xs = length (pt_blocks p)" using assms(1,2) by (auto simp: part_wf_def)
  have "card (set xs) = length (pt_blocks p)" using distinct_card [OF xs(1)] xs(3) by simp
  then have "set xs = {..<length (pt_blocks p)}" using xs(2) by (intro card_subset_eq) auto
  then show ?thesis using assms(3) xs(2) by blast
qed

lemma remove_part_run:
  assumes "alloc_wf al" and "r \<in> live al" and "al_parts al = us @ (fst r, p) # vs" and "part_wf (fst r) p"
    and "snd r < length (pt_blocks p)" and "bk_is_used (pt_blocks p ! snd r)" and "pt_used (push_block (snd r) p) = 0"
  defines "al' \<equiv> remove_part (fst r) (push_block (snd r) p) al"
  shows "alloc_wf al'" and "live al' = live al - {r}" and "t \<in> live al - {r} \<Longrightarrow> block_at al' t = block_at al t"
proof -
  have d: "distinct (map fst (us @ (fst r, p) # vs))" using assms(1,3) by (simp add: alloc_wf_def)
  have d': "distinct (map fst (al_parts al))" using d assms(3) by simp
  have parts: "al_parts al' = us @ vs" unfolding al'_def by (rule remove_part_around [OF d' assms(3)])
  have tot: "al_total_capacity al' = al_total_capacity al - pt_capacity p" "al_fresh al' = al_fresh al"
    by (simp_all add: al'_def remove_part_def push_block_def)
  show "alloc_wf al'" using assms(1) unfolding alloc_wf_def parts tot assms(3) by (auto simp: sorted_append)
  have at: "part_at al' b = (if b = fst r then Inl (Undefined ''released part'') else part_at al b)" for b
  proof -
    have none: "map_of (us @ vs) (fst r) = None" using d by (auto simp: map_of_eq_None_iff)
    have "part_at al' b = (case map_of (us @ vs) b of None \<Rightarrow> Inl (Undefined ''released part'') | Some p \<Rightarrow> Inr p)"
      unfolding part_at_def parts by simp
    then show ?thesis using part_at_around [OF d assms(3), of b] none by (cases "b = fst r") (simp_all del: map_of_append)
  qed
  note push = push_block_wf [OF assms(4,5,6)]
  have "\<not> bk_is_used (pt_blocks (push_block (snd r) p) ! j)" if "j < length (pt_blocks p)" for j
    by (rule last_block [OF push(1) assms(7)]) (use that in \<open>simp add: push_block_def\<close>)
  then have other: "\<not> bk_is_used (pt_blocks p ! j)" if "j < length (pt_blocks p)" "j \<noteq> snd r" for j
    using that by (force simp: push_block_def)
  have only: "t = r" if "t \<in> live al" "fst t = fst r" for t
    using that other part_at_around [OF d assms(3)]
    by (cases t, cases r) (auto simp: live_def block_at_def split: if_splits)
  have same: "block_at al' t = block_at al t" if "fst t \<noteq> fst r" for t using that by (simp add: block_at_def at)
  have dead: "t \<notin> live al'" if "fst t = fst r" for t using that by (simp add: live_def block_at_def at)
  have "t \<in> live al' \<longleftrightarrow> t \<in> live al - {r}" for t
    using same [of t] dead [of t] only [of t] by (cases "fst t = fst r") (auto simp: live_def)
  then show "live al' = live al - {r}" by blast
  show "t \<in> live al - {r} \<Longrightarrow> block_at al' t = block_at al t" using same only by blast
qed

lemma free_memory_run:
  assumes "alloc_wf al" and "r \<in> live al" and "part_at al (fst r) = Inr p"
  shows "if snd r < pt_total p - 1
    then \<exists>al'. free_memory al (Some r) = Inr al' \<and> alloc_wf al' \<and> live al' = live al - {r} \<and>
      (\<forall>t\<in>live al - {r}. block_at al' t = block_at al t)
    else free_memory al (Some r) = Inl (Undefined ''indeterminate part'')"
proof -
  obtain us q vs where l: "al_parts al = us @ (fst r, q) # vs" "part_wf (fst r) q" "snd r < length (pt_blocks q)"
    "bk_is_used (pt_blocks q ! snd r)" "part_at al (fst r) = Inr q" "block_at al r = Inr (pt_blocks q ! snd r)"
    "owner (pt_blocks q ! snd r) = (if snd r < pt_total q - 1 then Inr (fst r) else Inl (Undefined ''indeterminate part''))"
    by (rule live_part [OF assms(1,2)])
  have pq: "p = q" using l(5) assms(3) by simp
  let ?p = "push_block (snd r) q"
  have d: "distinct (map fst (al_parts al))" using assms(1) by (simp add: alloc_wf_def)
  note push = push_block_wf [OF l(2,3,4)]
  show ?thesis
  proof (cases "snd r < pt_total q - 1")
    case True
    then have run: "free_memory al (Some r) = Inr (if pt_used ?p = 0 then remove_part (fst r) ?p al else set_part (fst r) ?p al)"
      using l by (simp add: free_memory_def Let_def)
    show ?thesis
    proof (cases "pt_used ?p = 0")
      case z: True
      note rm = remove_part_run [OF assms(1,2) l(1-4) z]
      show ?thesis using run z rm True pq by simp
    next
      case False
      have set: "set_part (fst r) ?p al = al\<lparr>al_parts := us @ (fst r, ?p) # vs\<rparr>" by (rule set_part_around [OF d l(1)])
      have f: "pt_size ?p = pt_size q" "pt_capacity ?p = pt_capacity q" "0 < pt_used ?p"
        "length (pt_blocks ?p) = length (pt_blocks q)" "\<not> bk_is_used (pt_blocks ?p ! snd r)"
        "\<And>j. j \<noteq> snd r \<Longrightarrow> pt_blocks ?p ! j = pt_blocks q ! j"
        using False l(3) by (simp_all add: push_block_def)
      have wf: "alloc_wf (al\<lparr>al_parts := us @ (fst r, ?p) # vs\<rparr>)" by (rule alloc_wf_replace [OF assms(1) l(1) push(1) f(1,3,2)])
      have parts: "al_parts (al\<lparr>al_parts := us @ (fst r, ?p) # vs\<rparr>) = us @ (fst r, ?p) # vs" by simp
      note rep = live_replace [OF d l(1) parts f(4) l(3) f(6)]
      show ?thesis using run False set wf rep(1,2) f(5) True pq by simp
    qed
  next
    case False
    then show ?thesis using l pq by (simp add: free_memory_def)
  qed
qed

lemma chain_cong:
  "length bs = length bs' \<Longrightarrow> (\<And>i. i < length bs \<Longrightarrow> bk_next (bs ! i) = bk_next (bs' ! i)) \<Longrightarrow> chain bs q xs = chain bs' q xs"
  by (induction bs q xs rule: chain.induct) auto

lemma store_data_run:
  assumes "alloc_wf al" and "r \<in> live al" and "length d = capacity_at al r"
  shows "\<exists>al' b. store_data r d al = Inr al' \<and> alloc_wf al' \<and> live al' = live al \<and> block_at al r = Inr b \<and>
    block_at al' r = Inr (b\<lparr>bk_data := d\<rparr>) \<and> (\<forall>t. t \<noteq> r \<longrightarrow> block_at al' t = block_at al t)"
proof -
  obtain us p vs where l: "al_parts al = us @ (fst r, p) # vs" "part_wf (fst r) p" "snd r < length (pt_blocks p)"
    "bk_is_used (pt_blocks p ! snd r)" "part_at al (fst r) = Inr p" "block_at al r = Inr (pt_blocks p ! snd r)"
    "owner (pt_blocks p ! snd r) = (if snd r < pt_total p - 1 then Inr (fst r) else Inl (Undefined ''indeterminate part''))"
    by (rule live_part [OF assms(1,2)])
  let ?p = "p\<lparr>pt_blocks := (pt_blocks p)[snd r := (pt_blocks p ! snd r)\<lparr>bk_data := d\<rparr>]\<rparr>"
  have nth: "pt_blocks ?p ! j = (if j = snd r then (pt_blocks p ! snd r)\<lparr>bk_data := d\<rparr> else pt_blocks p ! j)" for j
    using l(3) by simp
  have c: "length d = part_bytes (pt_size p)" using assms(3) l(5) by (simp add: capacity_at_def)
  obtain xs where xs: "chain (pt_blocks p) (pt_free_link p) xs" "distinct xs"
    "set xs = {i. i < length (pt_blocks p) \<and> \<not> bk_is_used (pt_blocks p ! i)}" "pt_used p + length xs = pt_total p"
    using l(2) by (auto simp: part_wf_def)
  have "chain (pt_blocks ?p) (pt_free_link ?p) xs = chain (pt_blocks p) (pt_free_link p) xs"
    by (subst chain_cong [of "pt_blocks ?p" "pt_blocks p"]) (simp_all only: nth, simp_all)
  moreover have "set xs = {i. i < length (pt_blocks ?p) \<and> \<not> bk_is_used (pt_blocks ?p ! i)}" unfolding xs(3) nth by auto
  ultimately have wf': "part_wf (fst r) ?p"
    using xs c l(2) by (intro part_wfI [where xs = xs]) (simp_all only: nth, auto simp: part_wf_def)
  have d: "distinct (map fst (al_parts al))" using assms(1) by (simp add: alloc_wf_def)
  have "0 < pt_used p" using assms(1) l(1) by (auto simp: alloc_wf_def)
  then have wf: "alloc_wf (al\<lparr>al_parts := us @ (fst r, ?p) # vs\<rparr>)"
    by (intro alloc_wf_replace [OF assms(1) l(1) wf']) simp_all
  have parts: "al_parts (al\<lparr>al_parts := us @ (fst r, ?p) # vs\<rparr>) = us @ (fst r, ?p) # vs" by simp
  have len: "length (pt_blocks ?p) = length (pt_blocks p)" by simp
  have oth: "j \<noteq> snd r \<Longrightarrow> pt_blocks ?p ! j = pt_blocks p ! j" for j by simp
  note rep = live_replace [OF d l(1) parts len l(3) oth]
  have "store_data r d al = Inr (al\<lparr>al_parts := us @ (fst r, ?p) # vs\<rparr>)"
    using l(5) set_part_around [OF d l(1)] by (simp add: store_data_def)
  moreover have "live (al\<lparr>al_parts := us @ (fst r, ?p) # vs\<rparr>) = live al"
    using rep(1) l(3,4) assms(2) by (simp add: insert_absorb)
  ultimately show ?thesis using wf rep(2,3) l(3,6)
    by (intro exI [of _ "al\<lparr>al_parts := us @ (fst r, ?p) # vs\<rparr>"] exI [of _ "pt_blocks p ! snd r"]) simp
qed

subsection \<open>Copying\<close>

definition copied :: "nat \<Rightarrow> allocator \<Rightarrow> pointer \<Rightarrow> allocator \<Rightarrow> pointer \<Rightarrow> bool" where
  "copied n al r al' t \<longleftrightarrow> (\<exists>b c. block_at al r = Inr b \<and> block_at al' t = Inr c \<and> take n (bk_data c) = take n (bk_data b))"

lemma live_data: "alloc_wf al \<Longrightarrow> r \<in> live al \<Longrightarrow> block_at al r = Inr b \<Longrightarrow> length (bk_data b) = capacity_at al r"
  by (rule live_part [of al r]) (auto simp: part_wf_def capacity_at_def)

lemma reallocate_memory_run:
  assumes "alloc_wf al" and "r \<in> live al" and "part_at al (fst r) = Inr p" and "snd r < pt_total p - 1"
    and "0 < n" and "n \<le> 65535"
  shows "\<exists>t al'. reallocate_memory al (Some r) n = Inr (Some t, al') \<and> alloc_wf al' \<and> t \<notin> live al \<and>
    live al' = insert t (live al - {r}) \<and> copied (min (capacity_at al r) n) al r al' t \<and>
    (\<forall>u\<in>live al - {r}. block_at al' u = block_at al u)"
proof -
  obtain us q vs where l: "al_parts al = us @ (fst r, q) # vs" "part_wf (fst r) q" "snd r < length (pt_blocks q)"
    "bk_is_used (pt_blocks q ! snd r)" "part_at al (fst r) = Inr q" "block_at al r = Inr (pt_blocks q ! snd r)"
    "owner (pt_blocks q ! snd r) = (if snd r < pt_total q - 1 then Inr (fst r) else Inl (Undefined ''indeterminate part''))"
    by (rule live_part [OF assms(1,2)])
  let ?b = "pt_blocks q ! snd r"
  have own: "owner ?b = Inr (fst r)" using l(5,7) assms(3,4) by simp
  have len: "length (bk_data ?b) = part_bytes (pt_size q)" using l(2,3) by (simp add: part_wf_def)
  have cap: "capacity_at al r = part_bytes (pt_size q)" using l(5) by (simp add: capacity_at_def)
  obtain t al1 where a: "allocate_memory al n = Inr (Some t, al1)" "alloc_wf al1" "t \<notin> live al" "live al1 = insert t (live al)"
    "n \<le> capacity_at al1 t" "\<forall>u\<in>live al. block_at al1 u = block_at al u"
    using allocate_memory_run [OF assms(1,5,6)] by (elim exE conjE) (rule that)
  have tl: "t \<in> live al1" using a(4) by simp
  then obtain c where c: "block_at al1 t = Inr c" by (auto simp: live_def)
  have lc: "length (bk_data c) = capacity_at al1 t" by (rule live_data [OF a(2) tl c])
  let ?m = "min (part_bytes (pt_size q)) n"
  let ?d = "copy_block ?m (bk_data ?b) (bk_data c)"
  have ld: "length ?d = capacity_at al1 t" using len lc a(5) by (simp add: copy_block_def)
  obtain al2 c' where s: "store_data t ?d al1 = Inr al2" "alloc_wf al2" "live al2 = live al1" "block_at al1 t = Inr c'"
    "block_at al2 t = Inr (c'\<lparr>bk_data := ?d\<rparr>)" "\<forall>u. u \<noteq> t \<longrightarrow> block_at al2 u = block_at al1 u"
    using store_data_run [OF a(2) tl ld] by (elim exE conjE) (rule that)
  have rt: "r \<noteq> t" using a(3) assms(2) by blast
  have r2: "r \<in> live al2" using s(3) a(4) assms(2) by simp
  have b1: "block_at al1 r = Inr ?b" using a(6) assms(2) l(6) by simp
  have b2: "block_at al2 r = Inr ?b" using s(6) [rule_format, OF rt] b1 by simp
  obtain us' p' vs' where l': "al_parts al2 = us' @ (fst r, p') # vs'" "part_wf (fst r) p'" "snd r < length (pt_blocks p')"
    "bk_is_used (pt_blocks p' ! snd r)" "part_at al2 (fst r) = Inr p'" "block_at al2 r = Inr (pt_blocks p' ! snd r)"
    "owner (pt_blocks p' ! snd r) = (if snd r < pt_total p' - 1 then Inr (fst r) else Inl (Undefined ''indeterminate part''))"
    by (rule live_part [OF s(2) r2])
  have "snd r < pt_total p' - 1" using l'(6,7) own b2 by (simp split: if_splits)
  with free_memory_run [OF s(2) r2 l'(5)] obtain al3 where f: "free_memory al2 (Some r) = Inr al3" "alloc_wf al3"
    "live al3 = live al2 - {r}" "\<forall>u\<in>live al2 - {r}. block_at al3 u = block_at al2 u" by (simp only: if_True) (elim exE conjE, rule that)
  have run: "reallocate_memory al (Some r) n = Inr (Some t, al3)"
    using assms(5) l(5,6) own a(1) b1 c s(1) f(1) by (simp add: reallocate_memory_def)
  have t3: "block_at al3 t = Inr (c'\<lparr>bk_data := ?d\<rparr>)" using f(4) s(3,5) tl rt by simp
  have "copied (min (capacity_at al r) n) al r al3 t"
    unfolding copied_def using l(6) t3 len by (simp add: cap copy_block_def)
  moreover have "live al3 = insert t (live al - {r})" using f(3) s(3) a(4) rt by blast
  moreover have "\<forall>u\<in>live al - {r}. block_at al3 u = block_at al u"
  proof
    fix u
    assume u: "u \<in> live al - {r}"
    then have n: "u \<noteq> t" "u \<in> live al2 - {r}" "u \<in> live al" using a(3,4) s(3) by auto
    show "block_at al3 u = block_at al u"
      using f(4) [rule_format, OF n(2)] s(6) [rule_format, OF n(1)] a(6) [rule_format, OF n(3)] by simp
  qed
  ultimately show ?thesis using run f(2) a(3) by (intro exI [of _ t] exI [of _ al3]) simp
qed

subsection \<open>Properties\<close>

text \<open>
  C21: The allocator never hands out memory that is in use. From an allocator that satisfies its invariant
  (parts sorted by size, free lists that thread exactly the unused blocks, counts and capacities that agree)
  a request of 1 to 65535 bytes returns a pointer that was not live, to a block of at least as many bytes; it
  is the only change of the set of live pointers, the contents of every live block stay, and the invariant
  holds again. A request of 0 bytes returns NULL and a larger one panics.
\<close>

theorem allocate_memory_correct:
  assumes "alloc_wf al"
  shows "if n = 0 then allocate_memory al n = Inr (None, al)
    else if 65535 < n then allocate_memory al n = Inl (Panic ''memory::allocate_memory'')
    else \<exists>r al'. allocate_memory al n = Inr (Some r, al') \<and> alloc_wf al' \<and> r \<notin> live al \<and> live al' = insert r (live al) \<and>
      n \<le> capacity_at al' r \<and> (\<forall>t\<in>live al. block_at al' t = block_at al t)"
  using allocate_memory_run [OF assms, of n] size_overflow [of n] by (auto simp: allocate_memory_def Let_def)

lemma new_allocator_wf: "alloc_wf new_allocator"
  by (simp add: alloc_wf_def new_allocator_def)

theorem allocate_memory_correct_witness:
  "\<exists>r al'. allocate_memory new_allocator 24 = Inr (Some r, al') \<and> alloc_wf al' \<and> r \<notin> live new_allocator \<and>
     live al' = insert r (live new_allocator) \<and> 24 \<le> capacity_at al' r \<and>
     (\<forall>t\<in>live new_allocator. block_at al' t = block_at new_allocator t)"
  using allocate_memory_correct [OF new_allocator_wf, of 24] by simp

text \<open>
  C22: Taking memory back. A live pointer to any block but the last of its part is freed: it is no longer live,
  everything else that was live stays with its contents, the invariant holds, and a part with no block left in
  use has been released. The header of the last block of a part was never given its part, so freeing that
  block reads an indeterminate pointer.
\<close>

theorem free_memory_correct:
  assumes "alloc_wf al" and "r \<in> live al" and "part_at al (fst r) = Inr p"
  shows "if snd r < pt_total p - 1
    then \<exists>al'. free_memory al (Some r) = Inr al' \<and> alloc_wf al' \<and> live al' = live al - {r} \<and>
      (\<forall>t\<in>live al - {r}. block_at al' t = block_at al t)
    else free_memory al (Some r) = Inl (Undefined ''indeterminate part'')"
  by (rule free_memory_run [OF assms])

definition sample_allocator :: allocator where
  "sample_allocator = \<lparr>al_parts = [(0, pop_block 0 (new_part 0 PART_SIZE_16384))], al_total_capacity = 65536, al_fresh = 1\<rparr>"

lemma sample_allocator_facts:
  "alloc_wf sample_allocator" "(0, 0) \<in> live sample_allocator"
  "part_at sample_allocator 0 = Inr (pop_block 0 (new_part 0 PART_SIZE_16384))"
proof -
  have "part_wf 0 (pop_block 0 (new_part 0 PART_SIZE_16384))"
    by (rule pop_block_wf [OF new_part_wf]) (simp_all add: new_part_def)
  then show "alloc_wf sample_allocator"
    by (simp add: sample_allocator_def alloc_wf_def pop_block_def Let_def new_part_def part_capacity_def)
  show at: "part_at sample_allocator 0 = Inr (pop_block 0 (new_part 0 PART_SIZE_16384))"
    by (simp add: part_at_def sample_allocator_def)
  show "(0, 0) \<in> live sample_allocator"
    by (simp add: live_def block_at_def at) (simp add: pop_block_def Let_def new_part_def part_total_def)
qed

theorem free_memory_correct_witness:
  "\<exists>al'. free_memory sample_allocator (Some (0, 0)) = Inr al' \<and> alloc_wf al' \<and> live al' = live sample_allocator - {(0, 0)} \<and>
     (\<forall>t\<in>live sample_allocator - {(0, 0)}. block_at al' t = block_at sample_allocator t)"
  using free_memory_correct [OF sample_allocator_facts(1,2)] sample_allocator_facts(3)
  by (simp add: pop_block_def Let_def new_part_def part_total_def)

text \<open>Reallocation keeps the bytes. For a live pointer that can be freed and a new size of 1 to 65535 bytes, it
  returns a pointer that was not live; the first bytes of the new block, as many as fit in both the old block
  and the new size, are those of the old one; the new pointer replaces the old one among the live ones, and no
  other live block changes.
\<close>

theorem reallocate_memory_correct:
  assumes "alloc_wf al" and "r \<in> live al" and "part_at al (fst r) = Inr p" and "snd r < pt_total p - 1"
    and "0 < n" and "n \<le> 65535"
  shows "\<exists>t al'. reallocate_memory al (Some r) n = Inr (Some t, al') \<and> alloc_wf al' \<and> t \<notin> live al \<and>
    live al' = insert t (live al - {r}) \<and> copied (min (capacity_at al r) n) al r al' t \<and>
    (\<forall>u\<in>live al - {r}. block_at al' u = block_at al u)"
  by (rule reallocate_memory_run [OF assms])

theorem reallocate_memory_correct_witness:
  "\<exists>t al'. reallocate_memory sample_allocator (Some (0, 0)) 40 = Inr (Some t, al') \<and> alloc_wf al' \<and> t \<notin> live sample_allocator \<and>
     live al' = insert t (live sample_allocator - {(0, 0)}) \<and>
     copied (min (capacity_at sample_allocator (0, 0)) 40) sample_allocator (0, 0) al' t \<and>
     (\<forall>u\<in>live sample_allocator - {(0, 0)}. block_at al' u = block_at sample_allocator u)"
  using reallocate_memory_correct [OF sample_allocator_facts(1,2), of _ 40] sample_allocator_facts(3)
  by (simp add: pop_block_def Let_def new_part_def part_total_def)

end
