(* ===== verification/Joker_Pool.thy ===== *)
theory Joker_Pool
  imports Joker_Buffer "HOL-Library.Multiset"
begin

text \<open>
  The object pool (include/pool.h, src/pool.c): nodes of one size in one block of memory, handed out and
  taken back without locks through two stacks of tagged pointers.

  This is the concurrent part, \<open>pool_alloc\<close> and \<open>pool_free\<close>: every access to an atomic is one step of
  one thread, the steps of the threads interleave in any order, and a weak compare-and-exchange may fail for no
  reason. The atomics are taken to be sequentially consistent. A pointer to a node is its index in the memory of the pool.
\<close>

subsection \<open>Tagged pointers, nodes and the pool\<close>

unbundle bit_operations_syntax

definition CACHE_LINE_SIZE :: u64 where
  "CACHE_LINE_SIZE = 64"

definition tagged_pointer_size :: nat where
  "tagged_pointer_size = 16"

definition ALIGN_UP :: "u64 \<Rightarrow> u64 \<Rightarrow> u64" where
  "ALIGN_UP s a = (s + a - 1) AND NOT (a - 1)"

definition NODE_DATA_SIZE :: "u64 \<Rightarrow> u64" where
  "NODE_DATA_SIZE obj_size = ALIGN_UP obj_size 16"

definition NODE_TOTAL_SIZE :: "u64 \<Rightarrow> u64" where
  "NODE_TOTAL_SIZE obj_size = ALIGN_UP (16 + NODE_DATA_SIZE obj_size) CACHE_LINE_SIZE"

record tagged_pointer =
  tp_ptr :: "nat option"
  tp_ver :: u64

definition tagged_pointer_init :: "nat option \<Rightarrow> u64 \<Rightarrow> tagged_pointer" where
  "tagged_pointer_init p v = \<lparr>tp_ptr = p, tp_ver = v\<rparr>"

record pool_node =
  nd_next :: tagged_pointer
  nd_data :: "u8 buffer"

record pool =
  pl_nodes :: "pool_node list"
  pl_head :: tagged_pointer
  pl_free_list :: tagged_pointer
  pl_node_size :: u64
  pl_capacity :: u64
  pl_alloc_cnt :: u64
  pl_free_cnt :: u64
  pl_contention_counter :: u64

definition pool_node_at :: "u64 \<Rightarrow> nat \<Rightarrow> pool_node" where
  "pool_node_at node_size i = \<lparr>nd_next = tagged_pointer_init (if i = 0 then None else Some (i - 1)) 0,
     nd_data = buf_alloc (unat node_size - tagged_pointer_size)\<rparr>"

definition pool_create :: "u64 \<Rightarrow> u64 \<Rightarrow> pool option" where
  "pool_create obj_size capacity =
     (if capacity = 0 \<or> obj_size = 0 then None
      else let node_size = NODE_TOTAL_SIZE obj_size in
        Some \<lparr>pl_nodes = map (pool_node_at node_size) [0..<unat capacity],
          pl_head = tagged_pointer_init (Some (unat capacity - 1)) 0, pl_free_list = tagged_pointer_init None 0,
          pl_node_size = node_size, pl_capacity = capacity, pl_alloc_cnt = 0, pl_free_cnt = 0, pl_contention_counter = 0\<rparr>)"

text \<open>The two stacks a \<open>target_list\<close> points to, and a node's link.\<close>

datatype pool_list = Free_list | Head

fun load_list :: "pool_list \<Rightarrow> pool \<Rightarrow> tagged_pointer" where
  "load_list Free_list p = pl_free_list p"
| "load_list Head p = pl_head p"

fun store_list :: "pool_list \<Rightarrow> tagged_pointer \<Rightarrow> pool \<Rightarrow> pool" where
  "store_list Free_list v p = p\<lparr>pl_free_list := v\<rparr>"
| "store_list Head v p = p\<lparr>pl_head := v\<rparr>"

definition load_next :: "pool \<Rightarrow> nat \<Rightarrow> tagged_pointer" where
  "load_next p n = nd_next (pl_nodes p ! n)"

definition store_next :: "nat \<Rightarrow> tagged_pointer \<Rightarrow> pool \<Rightarrow> pool" where
  "store_next n v p = p\<lparr>pl_nodes := (pl_nodes p)[n := (pl_nodes p ! n)\<lparr>nd_next := v\<rparr>]\<rparr>"

definition store_node_data :: "nat \<Rightarrow> u8 buffer \<Rightarrow> pool \<Rightarrow> pool" where
  "store_node_data n d p = p\<lparr>pl_nodes := (pl_nodes p)[n := (pl_nodes p ! n)\<lparr>nd_data := d\<rparr>]\<rparr>"

text \<open>\<open>memset\<close> of the data of a node.\<close>

definition clear_node :: "nat \<Rightarrow> pool \<Rightarrow> pool" where
  "clear_node n p = store_node_data n (replicate (unat (pl_node_size p) - tagged_pointer_size) (Some 0)) p"

text \<open>
  \<open>atomic_compare_exchange_weak\<close>: the first component says whether it stored, the second is what it leaves in
  the variable with the expected value.
\<close>

definition compare_exchange :: "bool \<Rightarrow> pool_list \<Rightarrow> tagged_pointer \<Rightarrow> tagged_pointer \<Rightarrow> pool \<Rightarrow> bool \<times> tagged_pointer \<times> pool" where
  "compare_exchange spurious l old new p =
     (if load_list l p = old \<and> \<not> spurious then (True, old, store_list l new p) else (False, load_list l p, p))"

subsection \<open>The steps of a thread\<close>

text \<open>
  Where a thread stands in \<open>pool_alloc\<close> or \<open>pool_free\<close>, with its local variables.
\<close>

datatype pool_pc =
    Idle
  | Alloc_load_free
  | Alloc_load_head
  | Alloc_test pool_list tagged_pointer
  | Alloc_next pool_list tagged_pointer nat
  | Alloc_cas pool_list tagged_pointer nat tagged_pointer
  | Alloc_count nat
  | Free_clear nat
  | Free_load nat
  | Free_link nat tagged_pointer
  | Free_cas nat tagged_pointer
  | Free_count

fun thread_step :: "bool \<Rightarrow> pool_pc \<Rightarrow> pool \<Rightarrow> pool_pc \<times> pool" where
  "thread_step spurious Idle p = (Idle, p)"
| "thread_step spurious Alloc_load_free p =
     (case tp_ptr (load_list Free_list p) of
        None \<Rightarrow> (Alloc_load_head, p)
      | Some _ \<Rightarrow> (Alloc_test Free_list (load_list Free_list p), p))"
| "thread_step spurious Alloc_load_head p = (Alloc_test Head (load_list Head p), p)"
| "thread_step spurious (Alloc_test l old) p =
     (case tp_ptr old of None \<Rightarrow> (Idle, p) | Some n \<Rightarrow> (Alloc_next l old n, p))"
| "thread_step spurious (Alloc_next l old n) p =
     (Alloc_cas l old n (tagged_pointer_init (tp_ptr (load_next p n)) (tp_ver old + 1)), p)"
| "thread_step spurious (Alloc_cas l old n new) p =
     (let (ok, old, p) = compare_exchange spurious l old new p in
      if ok then (Alloc_count n, p) else (Alloc_test l old, p))"
| "thread_step spurious (Alloc_count n) p = (Idle, p\<lparr>pl_alloc_cnt := pl_alloc_cnt p + 1\<rparr>)"
| "thread_step spurious (Free_clear n) p = (Free_load n, clear_node n p)"
| "thread_step spurious (Free_load n) p = (Free_link n (load_list Free_list p), p)"
| "thread_step spurious (Free_link n old) p =
     (Free_cas n old, store_next n (tagged_pointer_init (tp_ptr old) (tp_ver old + 1)) p)"
| "thread_step spurious (Free_cas n old) p =
     (let (ok, old, p) = compare_exchange spurious Free_list old (tagged_pointer_init (Some n) (tp_ver old + 1)) p in
      if ok then (Free_count, p) else (Free_load n, p))"
| "thread_step spurious Free_count p = (Idle, p\<lparr>pl_free_cnt := pl_free_cnt p + 1\<rparr>)"

subsection \<open>The system\<close>

text \<open>
  The pool, the threads, and the nodes its clients hold: the pointers \<open>pool_alloc\<close> returned that were not passed
  to \<open>pool_free\<close> since. A client calls an operation from an idle thread, frees only what it holds, and writes
  only to the data of what it holds.
\<close>

record pool_system =
  sy_pool :: pool
  sy_threads :: "pool_pc list"
  sy_held :: "nat multiset"

datatype pool_event = Call_alloc nat | Call_free nat nat | Write nat "u8 buffer" | Run nat bool

definition returned :: "pool_pc \<Rightarrow> nat multiset" where
  "returned c = (case c of Alloc_count n \<Rightarrow> {#n#} | _ \<Rightarrow> {#})"

fun pool_event_step :: "pool_event \<Rightarrow> pool_system \<Rightarrow> pool_system option" where
  "pool_event_step (Call_alloc i) s =
     (if i < length (sy_threads s) \<and> sy_threads s ! i = Idle
      then Some (s\<lparr>sy_threads := (sy_threads s)[i := Alloc_load_free]\<rparr>) else None)"
| "pool_event_step (Call_free i n) s =
     (if i < length (sy_threads s) \<and> sy_threads s ! i = Idle \<and> n \<in># sy_held s
      then Some (s\<lparr>sy_threads := (sy_threads s)[i := Free_clear n], sy_held := sy_held s - {#n#}\<rparr>) else None)"
| "pool_event_step (Write n d) s =
     (if n \<in># sy_held s \<and> length d = length (nd_data (pl_nodes (sy_pool s) ! n))
      then Some (s\<lparr>sy_pool := store_node_data n d (sy_pool s)\<rparr>) else None)"
| "pool_event_step (Run i spurious) s =
     (if i < length (sy_threads s) \<and> sy_threads s ! i \<noteq> Idle
      then let (c, p) = thread_step spurious (sy_threads s ! i) (sy_pool s) in
        Some (s\<lparr>sy_pool := p, sy_threads := (sy_threads s)[i := c], sy_held := sy_held s + returned (sy_threads s ! i)\<rparr>)
      else None)"

definition pool_start :: "pool \<Rightarrow> nat \<Rightarrow> pool_system" where
  "pool_start p threads = \<lparr>sy_pool = p, sy_threads = replicate threads Idle, sy_held = {#}\<rparr>"

inductive pool_run :: "pool_system \<Rightarrow> nat \<Rightarrow> pool_system \<Rightarrow> bool" for s0 where
  pool_run_start: "pool_run s0 0 s0"
| pool_run_step: "pool_run s0 k s \<Longrightarrow> pool_event_step e s = Some s' \<Longrightarrow> pool_run s0 (Suc k) s'"

text \<open>A schedule, executed.\<close>

fun pool_schedule :: "pool_event list \<Rightarrow> pool_system \<Rightarrow> pool_system option" where
  "pool_schedule [] s = Some s"
| "pool_schedule (e # es) s = Option.bind (pool_event_step e s) (pool_schedule es)"

lemma pool_schedule_append: "pool_schedule (es @ fs) s = Option.bind (pool_schedule es s) (pool_schedule fs)"
  by (induction es s rule: pool_schedule.induct) (auto split: bind_splits)

lemma pool_schedule_run: "pool_schedule es s = Some s' \<Longrightarrow> pool_run s (length es) s'"
proof (induction es arbitrary: s' rule: rev_induct)
  case Nil
  then show ?case by (simp add: pool_run_start)
next
  case (snoc e es)
  then obtain t where t: "pool_schedule es s = Some t" "pool_event_step e t = Some s'"
    by (auto simp: pool_schedule_append bind_eq_Some_conv)
  show ?case using pool_run_step [OF snoc.IH [OF t(1)] t(2)] by simp
qed

subsection \<open>The invariant\<close>

text \<open>The stack from a pointer on.\<close>

fun linked :: "pool_node list \<Rightarrow> nat option \<Rightarrow> nat list \<Rightarrow> bool" where
  "linked ns None [] = True"
| "linked ns (Some i) (j # xs) = (i = j \<and> i < length ns \<and> linked ns (tp_ptr (nd_next (ns ! i))) xs)"
| "linked ns _ _ = False"

text \<open>The nodes a thread has in its hands: taken off a stack, or not yet put back.\<close>

fun in_flight :: "pool_pc \<Rightarrow> nat multiset" where
  "in_flight (Alloc_count n) = {#n#}"
| "in_flight (Free_clear n) = {#n#}"
| "in_flight (Free_load n) = {#n#}"
| "in_flight (Free_link n old) = {#n#}"
| "in_flight (Free_cas n old) = {#n#}"
| "in_flight _ = {#}"

definition all_in_flight :: "pool_pc list \<Rightarrow> nat multiset" where
  "all_in_flight cs = sum_list (map in_flight cs)"

text \<open>Every node is on one stack, held by the clients, or in the hands of one thread.\<close>

definition accounted :: "pool_system \<Rightarrow> nat list \<Rightarrow> nat list \<Rightarrow> bool" where
  "accounted s xs ys \<longleftrightarrow> linked (pl_nodes (sy_pool s)) (tp_ptr (pl_head (sy_pool s))) xs \<and>
     linked (pl_nodes (sy_pool s)) (tp_ptr (pl_free_list (sy_pool s))) ys \<and>
     mset xs + mset ys + sy_held s + all_in_flight (sy_threads s) = mset [0..<length (pl_nodes (sy_pool s))]"

text \<open>
  What a thread knows of the stack it loaded: the version never goes back, it stays only with the pointer, and
  the pointer is a node of the pool.
\<close>

definition known :: "pool_list \<Rightarrow> tagged_pointer \<Rightarrow> pool \<Rightarrow> bool" where
  "known l old p \<longleftrightarrow> tp_ver old \<le> tp_ver (load_list l p) \<and> (tp_ver old = tp_ver (load_list l p) \<longrightarrow> old = load_list l p) \<and>
     (\<forall>n. tp_ptr old = Some n \<longrightarrow> n < length (pl_nodes p))"

fun thread_ok :: "pool \<Rightarrow> pool_pc \<Rightarrow> bool" where
  "thread_ok p (Alloc_test l old) = known l old p"
| "thread_ok p (Alloc_next l old n) = (known l old p \<and> tp_ptr old = Some n)"
| "thread_ok p (Alloc_cas l old n new) = (known l old p \<and> tp_ptr old = Some n \<and> tp_ver new = tp_ver old + 1 \<and>
     (old = load_list l p \<longrightarrow> tp_ptr new = tp_ptr (load_next p n)))"
| "thread_ok p (Free_link n old) = known Free_list old p"
| "thread_ok p (Free_cas n old) = (known Free_list old p \<and> tp_ptr (load_next p n) = tp_ptr old)"
| "thread_ok p _ = True"

definition pool_inv :: "nat \<Rightarrow> pool_system \<Rightarrow> bool" where
  "pool_inv k s \<longleftrightarrow> (\<exists>xs ys. accounted s xs ys) \<and> (\<forall>c\<in>set (sy_threads s). thread_ok (sy_pool s) c) \<and>
     (\<forall>l. unat (tp_ver (load_list l (sy_pool s))) \<le> k)"

subsection \<open>Every step keeps the invariant\<close>

lemma linked_update: "n \<notin> set xs \<Longrightarrow> linked (ns[n := x]) q xs = linked ns q xs"
  by (induction ns q xs rule: linked.induct) auto

lemma linked_data: "linked (ns[n := (ns ! n)\<lparr>nd_data := d\<rparr>]) q xs = linked ns q xs"
proof (cases "n < length ns")
  case True
  then show ?thesis by (induction ns q xs rule: linked.induct) (auto simp: nth_list_update)
qed (simp add: list_update_beyond)

lemma linked_bound: "linked ns (Some n) xs \<Longrightarrow> n < length ns \<and> n \<in> set xs \<and> (\<exists>ys. xs = n # ys \<and> linked ns (tp_ptr (nd_next (ns ! n))) ys)"
  by (cases xs) auto

text \<open>The accounts are a partition: a node in one place is in no other.\<close>

lemma partition_once:
  assumes "X + Y = mset [0..<m]" and "n \<in># X"
  shows "n < m" and "n \<notin># Y"
proof -
  have "n \<in># mset [0..<m]" using assms by (metis union_iff)
  then show "n < m" by simp
  have "count X n + count Y n = count (mset [0..<m]) n" using assms(1) by (metis count_union)
  moreover have "count (mset [0..<m]) n \<le> 1" using distinct_count_atmost_1 [of "[0..<m]"] by simp
  moreover have "0 < count X n" using assms(2) by simp
  ultimately have "count Y n = 0" by linarith
  then show "n \<notin># Y" by (simp add: not_in_iff)
qed

lemma all_in_flight_split: "i < length cs \<Longrightarrow> all_in_flight cs = in_flight (cs ! i) + all_in_flight (cs[i := Idle])"
proof (induction cs arbitrary: i)
  case (Cons c cs)
  then show ?case by (cases i) (simp_all add: all_in_flight_def)
qed simp

lemma all_in_flight_update: "i < length cs \<Longrightarrow> all_in_flight (cs[i := c]) = in_flight c + all_in_flight (cs[i := Idle])"
  using all_in_flight_split [of i "cs[i := c]"] by simp

lemma in_flight_other: "i < length cs \<Longrightarrow> j < length cs \<Longrightarrow> i \<noteq> j \<Longrightarrow> n \<in># in_flight (cs ! j) \<Longrightarrow> n \<in># all_in_flight (cs[i := Idle])"
  using all_in_flight_split [of j "cs[i := Idle]"] by simp

lemma thread_ok_other:
  assumes "thread_ok p c" and "length (pl_nodes p') = length (pl_nodes p)"
    and "\<And>l. load_list l p' = load_list l p \<or> tp_ver (load_list l p) < tp_ver (load_list l p')"
    and "\<And>m l. m \<in># in_flight c \<or> (tp_ptr (load_list l p) = Some m \<and> load_list l p' = load_list l p) \<Longrightarrow>
      tp_ptr (load_next p' m) = tp_ptr (load_next p m)"
  shows "thread_ok p' c"
proof -
  have k: "known l old p'" if "known l old p" for l old
    using assms(3) [of l]
  proof
    assume "load_list l p' = load_list l p"
    then show ?thesis using that assms(2) by (simp add: known_def)
  next
    assume "tp_ver (load_list l p) < tp_ver (load_list l p')"
    then have "tp_ver old < tp_ver (load_list l p')" using that by (auto simp: known_def)
    then show ?thesis using that assms(2) by (simp add: known_def)
  qed
  have e: "old = load_list l p \<and> load_list l p' = load_list l p" if "known l old p" "old = load_list l p'" for l old
  proof -
    from assms(3) [of l] have same: "load_list l p' = load_list l p"
    proof
      assume "tp_ver (load_list l p) < tp_ver (load_list l p')"
      moreover have "tp_ver (load_list l p') \<le> tp_ver (load_list l p)" using that unfolding known_def by simp
      ultimately show ?thesis by simp
    qed
    then show ?thesis using that(2) by simp
  qed
  show ?thesis
  proof (cases c)
    case (Alloc_cas l old n new)
    then have c: "known l old p" "tp_ptr old = Some n" "tp_ver new = tp_ver old + 1"
      "old = load_list l p \<longrightarrow> tp_ptr new = tp_ptr (load_next p n)" using assms(1) by simp_all
    have "tp_ptr new = tp_ptr (load_next p' n)" if "old = load_list l p'"
      using e [OF c(1) that] c(2,4) assms(4) [of n l] by simp
    then show ?thesis using Alloc_cas c k by simp
  next
    case (Free_cas n old)
    then show ?thesis using assms(1) assms(4) [of n Head] k by simp
  qed (use assms(1) k in auto)
qed

lemma load_list_other: "load_list l (store_next n v p) = load_list l p" "load_list l (store_node_data n d p) = load_list l p"
  by (cases l; simp add: store_next_def store_node_data_def)+

lemma store_list_facts [simp]:
  "pl_nodes (store_list l v p) = pl_nodes p" "load_next (store_list l v p) = load_next p"
  "load_list l' (store_list l v p) = (if l = l' then v else load_list l' p)"
  by (cases l; cases l'; simp add: load_next_def fun_eq_iff)+

lemma load_next_data: "load_next (store_node_data n d p) m = load_next p m"
  by (cases "n < length (pl_nodes p)") (auto simp: load_next_def store_node_data_def nth_list_update list_update_beyond)

lemma known_now:
  assumes "accounted s xs ys"
  shows "known l (load_list l (sy_pool s)) (sy_pool s)"
  using assms by (cases l) (auto simp: accounted_def known_def dest: linked_bound)

text \<open>A step of one thread that touches neither a stack nor a link.\<close>

lemma inv_quiet:
  assumes "pool_inv k s" and "i < length (sy_threads s)"
    and "\<And>l. load_list l p' = load_list l (sy_pool s)" and "\<And>n. tp_ptr (load_next p' n) = tp_ptr (load_next (sy_pool s) n)"
    and "length (pl_nodes p') = length (pl_nodes (sy_pool s))"
    and "\<And>q xs. linked (pl_nodes p') q xs = linked (pl_nodes (sy_pool s)) q xs"
    and "h + in_flight c = sy_held s + in_flight (sy_threads s ! i)" and "thread_ok p' c"
  shows "pool_inv (Suc k) (s\<lparr>sy_pool := p', sy_threads := (sy_threads s)[i := c], sy_held := h\<rparr>)"
proof -
  let ?R = "all_in_flight ((sy_threads s)[i := Idle])"
  obtain xs ys where a: "accounted s xs ys" using assms(1) by (auto simp: pool_inv_def)
  have "mset xs + mset ys + h + all_in_flight ((sy_threads s)[i := c]) = mset xs + mset ys + (h + in_flight c) + ?R"
    by (simp only: all_in_flight_update [OF assms(2), of c] ac_simps)
  also have "\<dots> = mset xs + mset ys + sy_held s + all_in_flight (sy_threads s)"
    unfolding assms(7) all_in_flight_split [OF assms(2)] by (simp only: ac_simps)
  also have "\<dots> = mset [0..<length (pl_nodes (sy_pool s))]" using a unfolding accounted_def by (elim conjE)
  finally have "mset xs + mset ys + h + all_in_flight ((sy_threads s)[i := c]) = mset [0..<length (pl_nodes (sy_pool s))]" .
  moreover have "pl_head p' = pl_head (sy_pool s)" "pl_free_list p' = pl_free_list (sy_pool s)"
    using assms(3) [of Head] assms(3) [of Free_list] by simp_all
  ultimately have "accounted (s\<lparr>sy_pool := p', sy_threads := (sy_threads s)[i := c], sy_held := h\<rparr>) xs ys"
    using a assms(5,6) by (simp add: accounted_def)
  moreover have "thread_ok p' d" if "d \<in> set ((sy_threads s)[i := c])" for d
  proof (cases "d = c")
    case False
    then have "d \<in> set (sy_threads s)" using that set_update_subset_insert by fastforce
    then have "thread_ok (sy_pool s) d" using assms(1) by (simp add: pool_inv_def)
    then show ?thesis by (rule thread_ok_other) (simp_all add: assms(3,4,5))
  qed (simp add: assms(8))
  moreover have "unat (tp_ver (load_list l p')) \<le> Suc k" for l
    using assms(1,3) by (simp add: pool_inv_def le_SucI)
  ultimately show ?thesis unfolding pool_inv_def by (intro conjI exI) simp_all
qed

lemma inv_core:
  assumes "pool_inv k s" and "i < length (sy_threads s)"
    and "accounted (s\<lparr>sy_pool := p', sy_threads := (sy_threads s)[i := c], sy_held := h\<rparr>) xs ys"
    and "length (pl_nodes p') = length (pl_nodes (sy_pool s))"
    and "\<And>l. load_list l p' = load_list l (sy_pool s) \<or> tp_ver (load_list l (sy_pool s)) < tp_ver (load_list l p')"
    and "\<And>j m. j < length (sy_threads s) \<Longrightarrow> j \<noteq> i \<Longrightarrow> m \<in># in_flight (sy_threads s ! j) \<Longrightarrow>
      tp_ptr (load_next p' m) = tp_ptr (load_next (sy_pool s) m)"
    and "\<And>m l. tp_ptr (load_list l (sy_pool s)) = Some m \<Longrightarrow> tp_ptr (load_next p' m) = tp_ptr (load_next (sy_pool s) m)"
    and "thread_ok p' c" and "\<And>l. unat (tp_ver (load_list l p')) \<le> Suc k"
  shows "pool_inv (Suc k) (s\<lparr>sy_pool := p', sy_threads := (sy_threads s)[i := c], sy_held := h\<rparr>)"
proof -
  have "thread_ok p' ((sy_threads s)[i := c] ! j)" if "j < length (sy_threads s)" for j
  proof (cases "j = i")
    case False
    have "thread_ok (sy_pool s) (sy_threads s ! j)" using assms(1) that by (simp add: pool_inv_def)
    then have "thread_ok p' (sy_threads s ! j)"
      by (rule thread_ok_other) (use assms(4,5,7) assms(6) [OF that False] in blast)+
    then show ?thesis using False by simp
  qed (use assms(2,8) in simp)
  then have "\<forall>d\<in>set ((sy_threads s)[i := c]). thread_ok p' d" by (simp add: all_set_conv_all_nth)
  then show ?thesis unfolding pool_inv_def using assms(3,9) by (intro conjI exI) simp_all
qed

text \<open>A freeing thread writes the link of its own node, which nobody else looks at.\<close>

lemma inv_link:
  assumes "pool_inv k s" and "i < length (sy_threads s)" and "sy_threads s ! i = Free_link n old"
  shows "pool_inv (Suc k) (s\<lparr>sy_pool := store_next n (tagged_pointer_init (tp_ptr old) v) (sy_pool s),
    sy_threads := (sy_threads s)[i := Free_cas n old], sy_held := sy_held s\<rparr>)"
proof -
  let ?p = "sy_pool s" and ?R = "all_in_flight ((sy_threads s)[i := Idle])"
  let ?p' = "store_next n (tagged_pointer_init (tp_ptr old) v) ?p"
  obtain xs ys where a: "accounted s xs ys" using assms(1) by (auto simp: pool_inv_def)
  have split: "all_in_flight (sy_threads s) = {#n#} + ?R" using all_in_flight_split [OF assms(2)] assms(3) by simp
  have "mset xs + mset ys + sy_held s + all_in_flight (sy_threads s) = mset [0..<length (pl_nodes ?p)]"
    using a unfolding accounted_def by (elim conjE)
  then have part: "{#n#} + (mset xs + mset ys + sy_held s + ?R) = mset [0..<length (pl_nodes ?p)]"
    unfolding split by (simp only: ac_simps)
  note once = partition_once [OF part, of n, simplified]
  have n: "n < length (pl_nodes ?p)" "n \<notin> set xs" "n \<notin> set ys" "n \<notin># ?R" using once by simp_all
  have nodes: "pl_nodes ?p' = (pl_nodes ?p)[n := (pl_nodes ?p ! n)\<lparr>nd_next := tagged_pointer_init (tp_ptr old) v\<rparr>]"
    "pl_head ?p' = pl_head ?p" "pl_free_list ?p' = pl_free_list ?p" by (simp_all add: store_next_def)
  have next': "m \<noteq> n \<Longrightarrow> load_next ?p' m = load_next ?p m" "load_next ?p' n = tagged_pointer_init (tp_ptr old) v" for m
    using n(1) by (simp_all add: load_next_def nodes)
  show ?thesis
  proof (rule inv_core [OF assms(1,2)])
    have "all_in_flight ((sy_threads s)[i := Free_cas n old]) = all_in_flight (sy_threads s)"
      unfolding split using all_in_flight_update [OF assms(2), of "Free_cas n old"] by simp
    then show "accounted (s\<lparr>sy_pool := ?p', sy_threads := (sy_threads s)[i := Free_cas n old], sy_held := sy_held s\<rparr>) xs ys"
      using a n(2,3) by (simp add: accounted_def nodes linked_update)
    have "known Free_list old ?p" using assms by (auto simp: pool_inv_def in_set_conv_nth dest!: bspec)
    then show "thread_ok ?p' (Free_cas n old)"
      unfolding thread_ok.simps known_def load_list.simps nodes next'(2) by (simp add: tagged_pointer_init_def)
    show "tp_ptr (load_next ?p' m) = tp_ptr (load_next ?p m)"
      if "j < length (sy_threads s)" "j \<noteq> i" "m \<in># in_flight (sy_threads s ! j)" for j m
      using in_flight_other [OF assms(2) that(1) that(2) [symmetric] that(3)] n(4) next'(1) by metis
    show "tp_ptr (load_next ?p' m) = tp_ptr (load_next ?p m)" if "tp_ptr (load_list l ?p) = Some m" for m l
    proof -
      have "m \<in> set xs \<union> set ys" using that a by (cases l) (auto simp: accounted_def dest: linked_bound)
      then have "m \<noteq> n" using n(2,3) by blast
      then show ?thesis by (simp add: next'(1))
    qed
    show "unat (tp_ver (load_list l ?p')) \<le> Suc k" for l
      using assms(1) by (simp add: load_list_other pool_inv_def le_SucI)
  qed (simp_all add: load_list_other nodes)
qed

lemma version_grows:
  assumes "unat (v :: u64) \<le> k" and "Suc k < 2 ^ 64"
  shows "unat (v + 1) = Suc (unat v)" and "v < v + 1"
proof -
  show "unat (v + 1) = Suc (unat v)" using assms by (simp add: unat_word_ariths(1))
  then show "v < v + 1" by (simp add: word_less_nat_alt)
qed

text \<open>A compare-and-exchange that succeeds moves one node between a stack and the thread.\<close>

lemma inv_cas:
  assumes "pool_inv k s" and "Suc k < 2 ^ 64" and "i < length (sy_threads s)"
    and "accounted (s\<lparr>sy_pool := store_list l new (sy_pool s), sy_threads := (sy_threads s)[i := c], sy_held := sy_held s\<rparr>) xs ys"
    and "tp_ver new = tp_ver (load_list l (sy_pool s)) + 1" and "\<And>p. thread_ok p c"
  shows "pool_inv (Suc k) (s\<lparr>sy_pool := store_list l new (sy_pool s), sy_threads := (sy_threads s)[i := c], sy_held := sy_held s\<rparr>)"
proof -
  have "unat (tp_ver (load_list l (sy_pool s))) \<le> k" using assms(1) by (simp add: pool_inv_def)
  note v = version_grows [OF this assms(2), folded assms(5)]
  show ?thesis
  proof (rule inv_core [OF assms(1,3,4)])
    show "unat (tp_ver (load_list l' (store_list l new (sy_pool s)))) \<le> Suc k" for l'
      using assms(1) v(1) by (simp add: pool_inv_def le_SucI)
    show "load_list l' (store_list l new (sy_pool s)) = load_list l' (sy_pool s) \<or>
      tp_ver (load_list l' (sy_pool s)) < tp_ver (load_list l' (store_list l new (sy_pool s)))" for l'
      using v(2) by (cases "l = l'") simp_all
  qed (use assms(6) in simp_all)
qed

lemma run_keeps_inv:
  assumes "pool_inv k s" and "Suc k < 2 ^ 64" and "i < length (sy_threads s)" and "thread_step b (sy_threads s ! i) (sy_pool s) = (c, p)"
  shows "pool_inv (Suc k) (s\<lparr>sy_pool := p, sy_threads := (sy_threads s)[i := c], sy_held := sy_held s + returned (sy_threads s ! i)\<rparr>)"
proof -
  let ?R = "all_in_flight ((sy_threads s)[i := Idle])"
  obtain xs ys where a: "accounted s xs ys" using assms(1) by (auto simp: pool_inv_def)
  note now = known_now [OF a]
  have ok: "thread_ok (sy_pool s) (sy_threads s ! i)" using assms(1,3) by (simp add: pool_inv_def)
  have upd: "all_in_flight ((sy_threads s)[i := d]) = in_flight d + ?R" for d by (rule all_in_flight_update [OF assms(3)])
  have split: "all_in_flight (sy_threads s) = in_flight (sy_threads s ! i) + ?R" by (rule all_in_flight_split [OF assms(3)])
  have part: "mset xs + mset ys + sy_held s + all_in_flight (sy_threads s) = mset [0..<length (pl_nodes (sy_pool s))]"
    using a unfolding accounted_def by (elim conjE)
  have quiet: ?thesis if "p = sy_pool s" "sy_held s + returned (sy_threads s ! i) + in_flight c = sy_held s + in_flight (sy_threads s ! i)"
    "thread_ok (sy_pool s) c"
    using inv_quiet [OF assms(1,3), of "sy_pool s" "sy_held s + returned (sy_threads s ! i)" c] that by simp
  show ?thesis
  proof (cases "sy_threads s ! i")
    case Idle
    then show ?thesis using assms(4) by (intro quiet) (simp_all add: returned_def)
  next
    case Alloc_load_free
    then show ?thesis using assms(4) now [of Free_list]
      by (intro quiet) (auto simp: returned_def split: option.splits)
  next
    case Alloc_load_head
    then show ?thesis using assms(4) now [of Head] by (intro quiet) (auto simp: returned_def)
  next
    case (Alloc_test l old)
    then show ?thesis using assms(4) ok by (intro quiet) (auto simp: returned_def split: option.splits)
  next
    case (Alloc_next l old n)
    then show ?thesis using assms(4) ok by (intro quiet) (auto simp: returned_def tagged_pointer_init_def)
  next
    case (Alloc_cas l old n new)
    show ?thesis
    proof (cases "load_list l (sy_pool s) = old \<and> \<not> b")
      case False
      then show ?thesis using assms(4) now [of l] Alloc_cas
        by (intro quiet) (auto simp: returned_def compare_exchange_def split: if_splits)
    next
      case True
      then have cp: "c = Alloc_count n" "p = store_list l new (sy_pool s)"
        using assms(4) Alloc_cas by (simp_all add: compare_exchange_def)
      have new: "tp_ptr old = Some n" "tp_ver new = tp_ver old + 1" "tp_ptr new = tp_ptr (load_next (sy_pool s) n)"
        using ok Alloc_cas True by simp_all
      define zs where "zs = (case l of Head \<Rightarrow> xs | Free_list \<Rightarrow> ys)"
      have "linked (pl_nodes (sy_pool s)) (Some n) zs"
        using a True new(1) unfolding zs_def accounted_def by (cases l) auto
      then obtain ws where ws: "zs = n # ws" "linked (pl_nodes (sy_pool s)) (tp_ptr new) ws"
        using linked_bound new(3) unfolding load_next_def by metis
      have "accounted (s\<lparr>sy_pool := p, sy_threads := (sy_threads s)[i := c], sy_held := sy_held s\<rparr>)
        (case l of Head \<Rightarrow> ws | Free_list \<Rightarrow> xs) (case l of Head \<Rightarrow> ys | Free_list \<Rightarrow> ws)"
        using a ws part unfolding accounted_def cp split Alloc_cas zs_def by (cases l) (simp_all add: upd [of "Alloc_count n"])
      from inv_cas [OF assms(1,2,3) this [unfolded cp]] show ?thesis
        using True new(2) by (simp add: cp returned_def Alloc_cas)
    qed
  next
    case (Alloc_count n)
    then have "c = Idle" "p = sy_pool s\<lparr>pl_alloc_cnt := pl_alloc_cnt (sy_pool s) + 1\<rparr>" using assms(4) by simp_all
    moreover have "load_list l (sy_pool s\<lparr>pl_alloc_cnt := x\<rparr>) = load_list l (sy_pool s)" for l x by (cases l) simp_all
    ultimately show ?thesis using Alloc_count
      by (intro inv_quiet [OF assms(1,3)]) (simp_all add: returned_def load_next_def)
  next
    case (Free_clear n)
    then have "c = Free_load n" "p = clear_node n (sy_pool s)" using assms(4) by simp_all
    then show ?thesis using Free_clear
      by (intro inv_quiet [OF assms(1,3)])
        (simp_all add: returned_def clear_node_def load_list_other load_next_data, simp_all add: store_node_data_def linked_data)
  next
    case (Free_load n)
    then show ?thesis using assms(4) now [of Free_list] by (intro quiet) (auto simp: returned_def)
  next
    case (Free_link n old)
    then have "c = Free_cas n old" "p = store_next n (tagged_pointer_init (tp_ptr old) (tp_ver old + 1)) (sy_pool s)"
      using assms(4) by simp_all
    then show ?thesis using inv_link [OF assms(1,3) Free_link] by (simp add: returned_def Free_link)
  next
    case (Free_cas n old)
    show ?thesis
    proof (cases "load_list Free_list (sy_pool s) = old \<and> \<not> b")
      case False
      then show ?thesis using assms(4) now [of Free_list] Free_cas
        by (intro quiet) (auto simp: returned_def compare_exchange_def split: if_splits)
    next
      case True
      then have cp: "c = Free_count" "p = store_list Free_list (tagged_pointer_init (Some n) (tp_ver old + 1)) (sy_pool s)"
        using assms(4) Free_cas by (simp_all add: compare_exchange_def)
      have link: "tp_ptr (nd_next (pl_nodes (sy_pool s) ! n)) = tp_ptr old" using ok Free_cas by (simp add: load_next_def)
      have n: "n < length (pl_nodes (sy_pool s))"
      proof -
        have "{#n#} + (mset xs + mset ys + sy_held s + ?R) = mset [0..<length (pl_nodes (sy_pool s))]"
          using part unfolding split Free_cas by (simp add: ac_simps)
        from partition_once(1) [OF this, of n] show ?thesis by simp
      qed
      have "accounted (s\<lparr>sy_pool := p, sy_threads := (sy_threads s)[i := c], sy_held := sy_held s\<rparr>) xs (n # ys)"
        using a n link True part unfolding accounted_def cp split Free_cas
        by (auto simp: upd [of Free_count] tagged_pointer_init_def)
      from inv_cas [OF assms(1,2,3) this [unfolded cp]] show ?thesis
        using True by (simp add: cp returned_def Free_cas tagged_pointer_init_def)
    qed
  next
    case Free_count
    then have "c = Idle" "p = sy_pool s\<lparr>pl_free_cnt := pl_free_cnt (sy_pool s) + 1\<rparr>" using assms(4) by simp_all
    moreover have "load_list l (sy_pool s\<lparr>pl_free_cnt := x\<rparr>) = load_list l (sy_pool s)" for l x by (cases l) simp_all
    ultimately show ?thesis using Free_count
      by (intro inv_quiet [OF assms(1,3)]) (simp_all add: returned_def load_next_def)
  qed
qed

lemma event_keeps_inv:
  assumes "pool_inv k s" and "Suc k < 2 ^ 64" and "pool_event_step e s = Some s'"
  shows "pool_inv (Suc k) s'"
proof (cases e)
  case (Call_alloc i)
  then have s': "i < length (sy_threads s)" "sy_threads s ! i = Idle" "s' = s\<lparr>sy_threads := (sy_threads s)[i := Alloc_load_free]\<rparr>"
    using assms(3) by (simp_all split: if_splits)
  then show ?thesis using inv_quiet [OF assms(1) s'(1), of "sy_pool s" "sy_held s" Alloc_load_free] by simp
next
  case (Call_free i n)
  then have s': "i < length (sy_threads s)" "sy_threads s ! i = Idle" "n \<in># sy_held s"
    "s' = s\<lparr>sy_threads := (sy_threads s)[i := Free_clear n], sy_held := sy_held s - {#n#}\<rparr>"
    using assms(3) by (simp_all split: if_splits)
  then show ?thesis using inv_quiet [OF assms(1) s'(1), of "sy_pool s" "sy_held s - {#n#}" "Free_clear n"] by simp
next
  case (Write n d)
  then have s': "s' = s\<lparr>sy_pool := store_node_data n d (sy_pool s)\<rparr>" using assms(3) by (simp split: if_splits)
  have "thread_ok (store_node_data n d (sy_pool s)) c" if "c \<in> set (sy_threads s)" for c
    by (rule thread_ok_other [of "sy_pool s"])
      (use assms(1) that in \<open>simp_all add: pool_inv_def load_list_other load_next_data\<close>, simp add: store_node_data_def)
  moreover have "accounted s' xs ys = accounted s xs ys" for xs ys
    by (simp add: s' accounted_def store_node_data_def linked_data)
  ultimately show ?thesis using assms(1) by (simp add: s' pool_inv_def load_list_other le_SucI)
next
  case (Run i b)
  then obtain c p where t: "i < length (sy_threads s)" "thread_step b (sy_threads s ! i) (sy_pool s) = (c, p)"
    "s' = s\<lparr>sy_pool := p, sy_threads := (sy_threads s)[i := c], sy_held := sy_held s + returned (sy_threads s ! i)\<rparr>"
    using assms(3) by (auto split: if_splits prod.splits)
  show ?thesis unfolding t(3) by (rule run_keeps_inv [OF assms(1,2) t(1,2)])
qed

lemma new_pool_linked: "k < n \<Longrightarrow> linked (map (pool_node_at sz) [0..<n]) (Some k) (rev [0..<Suc k])"
  by (induction k) (simp_all add: pool_node_at_def tagged_pointer_init_def)

lemma start_inv:
  assumes "pool_create obj_size capacity = Some p"
  shows "pool_inv 0 (pool_start p threads)"
proof -
  have c: "0 < unat capacity" using assms by (auto simp: pool_create_def unat_gt_0 split: if_splits)
  have p: "pl_nodes p = map (pool_node_at (NODE_TOTAL_SIZE obj_size)) [0..<unat capacity]"
    "pl_head p = tagged_pointer_init (Some (unat capacity - 1)) 0" "pl_free_list p = tagged_pointer_init None 0"
    using assms by (auto simp: pool_create_def Let_def split: if_splits)
  have "linked (pl_nodes p) (tp_ptr (pl_head p)) (rev [0..<unat capacity])"
    using new_pool_linked [of "unat capacity - 1" "unat capacity"] c by (simp add: p tagged_pointer_init_def)
  moreover have "all_in_flight (replicate threads Idle) = {#}" by (induction threads) (simp_all add: all_in_flight_def)
  ultimately have "accounted (pool_start p threads) (rev [0..<unat capacity]) []"
    by (simp add: accounted_def pool_start_def p tagged_pointer_init_def)
  moreover have "tp_ver (load_list l p) = 0" for l by (cases l) (simp_all add: p tagged_pointer_init_def)
  ultimately show ?thesis unfolding pool_inv_def by (intro conjI exI) (auto simp: pool_start_def)
qed

lemma run_inv:
  assumes "pool_run (pool_start p threads) k s" and "pool_create obj_size capacity = Some p" and "k < 2 ^ 64"
  shows "pool_inv k s"
  using assms(1,3)
proof (induction rule: pool_run.induct)
  case pool_run_start
  show ?case by (rule start_inv [OF assms(2)])
next
  case (pool_run_step k s e s')
  then show ?case by (intro event_keeps_inv [of k s e s']) simp_all
qed

lemma store_list_length [simp]: "length (pl_nodes (store_next n v p)) = length (pl_nodes p)" "length (pl_nodes (store_node_data n d p)) = length (pl_nodes p)"
  by (simp_all add: store_next_def store_node_data_def)

lemma event_length:
  "pool_event_step e s = Some s' \<Longrightarrow> length (pl_nodes (sy_pool s')) = length (pl_nodes (sy_pool s)) \<and>
     length (sy_threads s') = length (sy_threads s)"
proof (cases e)
  case (Run i b)
  assume "pool_event_step e s = Some s'"
  moreover have "length (pl_nodes (snd (thread_step b c p))) = length (pl_nodes p)" for c p
    by (cases c) (simp_all add: compare_exchange_def clear_node_def split: option.splits)
  ultimately show ?thesis using Run by (auto simp: prod.case_eq_if split: if_splits)
qed (auto split: if_splits)

lemma run_length: "pool_run s0 k s \<Longrightarrow> length (pl_nodes (sy_pool s)) = length (pl_nodes (sy_pool s0))"
  by (induction rule: pool_run.induct) (auto dest: event_length)

subsection \<open>Ownership\<close>

text \<open>
  C9: The pool never hands a node out twice. In every state that threads and clients can reach from a new pool,
  by fewer than 2^64 steps in any interleaving and with spurious failures of the exchanges, the two stacks are
  well linked and every node of the pool is in exactly one place: on the stack of new nodes, on the stack of
  freed nodes, with a client, or in the hands of one thread.
\<close>

theorem pool_partition:
  assumes "pool_create obj_size capacity = Some p" and "pool_run (pool_start p threads) k s" and "k < 2 ^ 64"
  shows "\<exists>xs ys. linked (pl_nodes (sy_pool s)) (tp_ptr (pl_head (sy_pool s))) xs \<and>
    linked (pl_nodes (sy_pool s)) (tp_ptr (pl_free_list (sy_pool s))) ys \<and>
    mset xs + mset ys + sy_held s + all_in_flight (sy_threads s) = mset [0..<unat capacity]"
proof -
  have "length (pl_nodes p) = unat capacity" using assms(1) by (auto simp: pool_create_def Let_def split: if_splits)
  then have "length (pl_nodes (sy_pool s)) = unat capacity" using run_length [OF assms(2)] by (simp add: pool_start_def)
  then show ?thesis using run_inv [OF assms(2,1,3)] by (auto simp: pool_inv_def accounted_def)
qed

definition small_pool :: pool where
  "small_pool = the (pool_create 24 2)"

lemma small_pool_facts:
  "pool_create 24 2 = Some small_pool"
  "small_pool = \<lparr>pl_nodes = [\<lparr>nd_next = \<lparr>tp_ptr = None, tp_ver = 0\<rparr>, nd_data = replicate 48 None\<rparr>,
       \<lparr>nd_next = \<lparr>tp_ptr = Some 0, tp_ver = 0\<rparr>, nd_data = replicate 48 None\<rparr>],
     pl_head = \<lparr>tp_ptr = Some 1, tp_ver = 0\<rparr>, pl_free_list = \<lparr>tp_ptr = None, tp_ver = 0\<rparr>, pl_node_size = 64,
     pl_capacity = 2, pl_alloc_cnt = 0, pl_free_cnt = 0, pl_contention_counter = 0\<rparr>"
  by (simp_all add: small_pool_def pool_create_def Let_def NODE_TOTAL_SIZE_def NODE_DATA_SIZE_def ALIGN_UP_def CACHE_LINE_SIZE_def
    pool_node_at_def tagged_pointer_init_def tagged_pointer_size_def buf_alloc_def upt_conv_Cons)

lemmas pool_eval = small_pool_facts(2) pool_start_def numeral_2_eq_2 tagged_pointer_init_def compare_exchange_def load_next_def
  store_next_def clear_node_def store_node_data_def returned_def

text \<open>Two threads race for a node; the one that loses tries again.\<close>

definition small_race :: "pool_event list" where
  "small_race = [Call_alloc 0, Call_alloc 1, Run 0 False, Run 0 False, Run 0 False, Run 0 False, Run 1 False, Run 1 False,
     Run 1 False, Run 1 False, Run 1 False, Run 1 False, Run 0 False, Run 0 False, Run 0 False, Run 0 False, Run 0 False]"

lemma small_race_run:
  obtains s where "pool_run (pool_start small_pool 2) 17 s" and "sy_held s = {#0, 1#}"
proof -
  have "\<exists>s. pool_schedule small_race (pool_start small_pool 2) = Some s \<and> sy_held s = {#0, 1#}"
    unfolding small_race_def by (simp add: pool_eval)
  then obtain s where s: "pool_schedule small_race (pool_start small_pool 2) = Some s" "sy_held s = {#0, 1#}" by blast
  have "length small_race = 17" by (simp add: small_race_def)
  with pool_schedule_run [OF s(1)] have "pool_run (pool_start small_pool 2) 17 s" by simp
  then show thesis using s(2) by (rule that)
qed

theorem pool_partition_witness:
  "\<exists>(s :: pool_system) xs ys. sy_held s = {#0, 1#} \<and> linked (pl_nodes (sy_pool s)) (tp_ptr (pl_head (sy_pool s))) xs \<and>
    linked (pl_nodes (sy_pool s)) (tp_ptr (pl_free_list (sy_pool s))) ys \<and>
    mset xs + mset ys + sy_held s + all_in_flight (sy_threads s) = mset [0..<unat (2 :: u64)]"
proof -
  obtain s where s: "pool_run (pool_start small_pool 2) 17 s" "sy_held s = {#0, 1#}" by (rule small_race_run)
  from pool_partition [OF small_pool_facts(1) s(1)] obtain xs ys where "linked (pl_nodes (sy_pool s)) (tp_ptr (pl_head (sy_pool s))) xs"
    "linked (pl_nodes (sy_pool s)) (tp_ptr (pl_free_list (sy_pool s))) ys"
    "mset xs + mset ys + sy_held s + all_in_flight (sy_threads s) = mset [0..<unat (2 :: u64)]" by auto
  with s(2) show ?thesis by (intro exI [of _ s] exI [of _ xs] exI [of _ ys]) blast
qed

text \<open>
  C23: A client owns what it holds. In every such state a node that a client holds is held once, no thread is
  handing it out or putting it back, and no step of any thread or of any other client changes its data.
\<close>

theorem pool_exclusive:
  assumes "pool_create obj_size capacity = Some p" and "pool_run (pool_start p threads) k s" and "k < 2 ^ 64"
    and "n \<in># sy_held s" and "pool_event_step e s = Some s'" and "\<And>d. e \<noteq> Write n d"
  shows "count (sy_held s) n = 1 \<and> (\<forall>c\<in>set (sy_threads s). n \<notin># in_flight c) \<and>
    nd_data (pl_nodes (sy_pool s') ! n) = nd_data (pl_nodes (sy_pool s) ! n)"
proof -
  obtain xs ys where "accounted s xs ys" using run_inv [OF assms(2,1,3)] by (auto simp: pool_inv_def)
  then have part: "sy_held s + (mset xs + mset ys + all_in_flight (sy_threads s)) = mset [0..<length (pl_nodes (sy_pool s))]"
    by (simp add: accounted_def ac_simps)
  have "{#n#} + ((sy_held s - {#n#}) + (mset xs + mset ys + all_in_flight (sy_threads s))) = mset [0..<length (pl_nodes (sy_pool s))]"
    unfolding part [symmetric] using assms(4) by simp
  from partition_once(2) [OF this, of n] have once: "n \<notin># sy_held s - {#n#}" "n \<notin># all_in_flight (sy_threads s)" by simp_all
  have count: "count (sy_held s) n = 1"
    using once(1) assms(4) by (metis count_diff count_single diff_add_inverse2 insert_DiffM not_in_iff count_add_mset One_nat_def)
  have nobody: "n \<notin># in_flight (sy_threads s ! i)" if "i < length (sy_threads s)" for i
    using all_in_flight_split [OF that] once(2) by simp
  have data: "nd_data (pl_nodes (snd (thread_step b c p)) ! n) = nd_data (pl_nodes p ! n)" if "n \<notin># in_flight c" for b c p
    using that by (cases c)
      (auto simp: compare_exchange_def clear_node_def store_node_data_def store_next_def nth_list_update split: option.splits)
  have "nd_data (pl_nodes (sy_pool s') ! n) = nd_data (pl_nodes (sy_pool s) ! n)"
  proof (cases e)
    case (Run i b)
    then have "i < length (sy_threads s)" "sy_pool s' = snd (thread_step b (sy_threads s ! i) (sy_pool s))"
      using assms(5) by (auto simp: prod.case_eq_if split: if_splits)
    then show ?thesis using data nobody by simp
  next
    case (Write m d)
    then have "m \<noteq> n" "sy_pool s' = store_node_data m d (sy_pool s)" using assms(5,6) by (auto split: if_splits)
    then show ?thesis by (simp add: store_node_data_def)
  qed (use assms(5) in \<open>auto split: if_splits\<close>)
  then show ?thesis using count nobody by (auto simp: in_set_conv_nth)
qed

theorem pool_exclusive_witness:
  "\<exists>s s'. sy_held s = {#0, 1#} \<and> pool_event_step (Call_free 0 1) s = Some s' \<and> count (sy_held s) 0 = 1 \<and>
     (\<forall>c\<in>set (sy_threads s). 0 \<notin># in_flight c) \<and> nd_data (pl_nodes (sy_pool s') ! 0) = nd_data (pl_nodes (sy_pool s) ! 0)"
proof -
  have "\<exists>s. pool_schedule small_race (pool_start small_pool 2) = Some s \<and> sy_held s = {#0, 1#} \<and>
    pool_event_step (Call_free 0 1) s \<noteq> None"
    unfolding small_race_def by (simp add: pool_eval)
  then obtain s s' where s: "pool_schedule small_race (pool_start small_pool 2) = Some s" "sy_held s = {#0, 1#}"
    "pool_event_step (Call_free 0 1) s = Some s'" by blast
  have "length small_race = 17" by (simp add: small_race_def)
  with pool_schedule_run [OF s(1)] have run: "pool_run (pool_start small_pool 2) 17 s" by simp
  show ?thesis using pool_exclusive [OF small_pool_facts(1) run _ _ s(3), of 0] s(2,3) by (intro exI [of _ s] exI [of _ s']) simp
qed

subsection \<open>Progress\<close>

text \<open>How many steps a thread can still take while nobody changes a stack.\<close>

fun pool_rank :: "pool \<Rightarrow> pool_pc \<Rightarrow> nat" where
  "pool_rank p Idle = 0"
| "pool_rank p Alloc_load_free = 6"
| "pool_rank p Alloc_load_head = 5"
| "pool_rank p (Alloc_test l old) = (if old = load_list l p then 4 else 7)"
| "pool_rank p (Alloc_next l old n) = (if old = load_list l p then 3 else 6)"
| "pool_rank p (Alloc_cas l old n new) = (if old = load_list l p then 2 else 5)"
| "pool_rank p (Alloc_count n) = 1"
| "pool_rank p (Free_clear n) = 5"
| "pool_rank p (Free_load n) = 4"
| "pool_rank p (Free_link n old) = (if old = pl_free_list p then 3 else 6)"
| "pool_rank p (Free_cas n old) = (if old = pl_free_list p then 2 else 5)"
| "pool_rank p Free_count = 1"

definition total_rank :: "pool_system \<Rightarrow> nat" where
  "total_rank s = sum_list (map (pool_rank (sy_pool s)) (sy_threads s))"

definition same_stacks :: "pool_system \<Rightarrow> pool_system \<Rightarrow> bool" where
  "same_stacks s t \<longleftrightarrow> pl_head (sy_pool s) = pl_head (sy_pool t) \<and> pl_free_list (sy_pool s) = pl_free_list (sy_pool t)"

lemma pool_rank_le: "pool_rank p c \<le> 7"
  by (cases c) simp_all

lemma total_rank_le: "total_rank s \<le> 7 * length (sy_threads s)"
proof -
  have "sum_list (map (pool_rank p) cs) \<le> 7 * length cs" for p cs
    by (induction cs) (use pool_rank_le [of p] in \<open>auto simp: add_mono\<close>)
  then show ?thesis by (simp add: total_rank_def)
qed

lemma pool_rank_cong: "pl_head p = pl_head p' \<Longrightarrow> pl_free_list p = pl_free_list p' \<Longrightarrow> pool_rank p c = pool_rank p' c"
proof -
  assume "pl_head p = pl_head p'" "pl_free_list p = pl_free_list p'"
  then have "load_list l p = load_list l p'" for l by (cases l) simp_all
  then show ?thesis using \<open>pl_free_list p = pl_free_list p'\<close> by (cases c) simp_all
qed

lemma rank_step:
  assumes "c \<noteq> Idle" and "thread_step False c p = (c', p')" and "pl_head p' = pl_head p" and "pl_free_list p' = pl_free_list p"
  shows "Suc (pool_rank p' c') \<le> pool_rank p c"
proof -
  have "pool_rank p' c' = pool_rank p c'" using assms(3,4) by (rule pool_rank_cong)
  then show ?thesis using assms(1,2)
    by (cases c) (auto simp: compare_exchange_def split: option.splits if_splits)
qed

lemma sum_list_replace: "i < length xs \<Longrightarrow> Suc (f y) \<le> f (xs ! i) \<Longrightarrow> Suc (sum_list (map f (xs[i := y]))) \<le> (sum_list (map f xs) :: nat)"
proof (induction xs arbitrary: i)
  case (Cons x xs)
  then show ?case by (cases i) auto
qed simp

lemma quiet_step:
  assumes "pool_event_step (Run i False) s = Some s'" and "same_stacks s s'"
  shows "Suc (total_rank s') \<le> total_rank s"
proof -
  obtain c p where t: "i < length (sy_threads s)" "sy_threads s ! i \<noteq> Idle" "thread_step False (sy_threads s ! i) (sy_pool s) = (c, p)"
    "s' = s\<lparr>sy_pool := p, sy_threads := (sy_threads s)[i := c], sy_held := sy_held s + returned (sy_threads s ! i)\<rparr>"
    using assms(1) by (auto split: if_splits prod.splits)
  then have lists: "pl_head p = pl_head (sy_pool s)" "pl_free_list p = pl_free_list (sy_pool s)"
    using assms(2) by (simp_all add: same_stacks_def)
  have "pool_rank p = pool_rank (sy_pool s)" using lists by (intro ext pool_rank_cong)
  then show ?thesis using sum_list_replace [OF t(1), of "pool_rank (sy_pool s)" c] rank_step [OF t(2,3) lists]
    by (simp add: total_rank_def t(4))
qed

lemma quiet_bound:
  assumes "pool_schedule (map (\<lambda>i. Run i False) is) s = Some s'"
    and "\<And>js i ks t t'. is = js @ i # ks \<Longrightarrow> pool_schedule (map (\<lambda>i. Run i False) js) s = Some t \<Longrightarrow>
      pool_event_step (Run i False) t = Some t' \<Longrightarrow> same_stacks t t'"
  shows "length is + total_rank s' \<le> total_rank s"
  using assms
proof (induction "is" arbitrary: s)
  case (Cons i "is")
  then obtain t where t: "pool_event_step (Run i False) s = Some t" "pool_schedule (map (\<lambda>i. Run i False) is) t = Some s'"
    by (auto simp: bind_eq_Some_conv simp del: pool_event_step.simps)
  have "same_stacks s t" by (rule Cons.prems(2) [of "[]" i "is"]) (simp_all add: t(1) del: pool_event_step.simps)
  then have "Suc (total_rank t) \<le> total_rank s" by (rule quiet_step [OF t(1)])
  moreover have "length is + total_rank s' \<le> total_rank t"
  proof (rule Cons.IH [OF t(2)])
    fix js j ks u u'
    assume "is = js @ j # ks" "pool_schedule (map (\<lambda>i. Run i False) js) t = Some u" "pool_event_step (Run j False) u = Some u'"
    then show "same_stacks u u'"
      by (intro Cons.prems(2) [of "i # js" j ks]) (simp_all add: t(1) del: pool_event_step.simps)
  qed
  ultimately show ?case by simp
qed simp

text \<open>
  C24: The pool is lock-free. Whatever state the threads are in and whatever the order in which they run, among
  any more than seven steps for each thread, in which no exchange fails for no reason, there is one that
  changes a stack: some thread has taken a node or put one back. No thread that is stopped can hold up the
  others.
\<close>

theorem pool_lock_free:
  assumes "pool_schedule (map (\<lambda>i. Run i False) is) s = Some s'" and "7 * length (sy_threads s) < length is"
  shows "\<exists>js i ks t t'. is = js @ i # ks \<and> pool_schedule (map (\<lambda>i. Run i False) js) s = Some t \<and>
    pool_event_step (Run i False) t = Some t' \<and> \<not> same_stacks t t'"
proof (rule ccontr)
  assume "\<not> ?thesis"
  then have "length is + total_rank s' \<le> total_rank s" by (intro quiet_bound [OF assms(1)]) blast
  then show False using assms(2) total_rank_le [of s] by simp
qed

theorem pool_lock_free_witness:
  "\<exists>s s' js i ks t t'. pool_schedule [Call_alloc 0, Call_alloc 1] (pool_start small_pool 2) = Some s \<and>
     pool_schedule (map (\<lambda>i. Run i False) [0, 0, 0, 0, 1, 1, 1, 1, 1, 1, 0, 0, 0, 0, 0]) s = Some s' \<and>
     [0, 0, 0, 0, 1, 1, 1, 1, 1, 1, 0, 0, 0, 0, 0] = js @ i # ks \<and> pool_schedule (map (\<lambda>i. Run i False) js) s = Some t \<and>
     pool_event_step (Run i False) t = Some t' \<and> \<not> same_stacks t t'"
proof -
  let ?is = "[0, 0, 0, 0, 1, 1, 1, 1, 1, 1, 0, 0, 0, 0, 0] :: nat list"
  have "\<exists>s. pool_schedule [Call_alloc 0, Call_alloc 1] (pool_start small_pool 2) = Some s \<and> length (sy_threads s) = 2 \<and>
    pool_schedule (map (\<lambda>i. Run i False) ?is) s \<noteq> None"
    by (simp add: pool_eval)
  then obtain s s' where s: "pool_schedule [Call_alloc 0, Call_alloc 1] (pool_start small_pool 2) = Some s" "length (sy_threads s) = 2"
    "pool_schedule (map (\<lambda>i. Run i False) ?is) s = Some s'" by blast
  have "7 * length (sy_threads s) < length ?is" by (simp add: s(2))
  from pool_lock_free [OF s(3) this] s(1,3) show ?thesis by blast
qed

definition lost_race :: "pool_event list" where
  "lost_race = Call_alloc 0 # replicate 6 (Run 0 False) @ Call_free 0 1 # replicate 5 (Run 0 False) @
     [Call_alloc 0, Run 0 False, Run 0 False, Run 0 False, Call_alloc 1] @ replicate 5 (Run 1 False) @ [Run 0 False]"

text \<open>
  An allocation can fail although there are nodes left. The loop of \<open>pool_alloc\<close> retries on the stack it
  chose at the start: a thread that lost the last freed node to another one returns NULL, while the stack of
  new nodes is not empty.
\<close>

theorem pool_alloc_spurious_null:
  "\<exists>s. pool_run (pool_start small_pool 2) 24 s \<and> tp_ptr (pl_head (sy_pool s)) = Some 0 \<and> sy_held s = {#1#} \<and>
     (\<exists>old. sy_threads s ! 0 = Alloc_test Free_list old \<and> fst (thread_step False (Alloc_test Free_list old) (sy_pool s)) = Idle)"
proof -
  have "\<exists>s. pool_schedule lost_race (pool_start small_pool 2) = Some s \<and> tp_ptr (pl_head (sy_pool s)) = Some 0 \<and> sy_held s = {#1#} \<and>
     (\<exists>old. sy_threads s ! 0 = Alloc_test Free_list old \<and> fst (thread_step False (Alloc_test Free_list old) (sy_pool s)) = Idle)"
    unfolding lost_race_def by (simp add: pool_eval numeral_eq_Suc)
  moreover have "length lost_race = 24" by (simp add: lost_race_def)
  ultimately show ?thesis using pool_schedule_run [of lost_race "pool_start small_pool 2"] by metis
qed

end
