(* ===== verification/Joker_Batch.thy ===== *)
theory Joker_Batch
  imports Joker_Pool
begin

text \<open>
  The batch operations of the pool (src/pool.c), run by one thread: with nobody else there, a compare-and-exchange
  succeeds. The loop of \<open>batch_alloc_internal\<close> may run forever, so it is a partial function: \<open>None\<close> is a call that
  does not return. The cache of the thread is the list of its first \<open>count\<close> entries.
\<close>

definition BATCH_SIZE :: nat where
  "BATCH_SIZE = 64"

definition CACHE_SIZE :: nat where
  "CACHE_SIZE = 128"

subsection \<open>Allocation\<close>

text \<open>The walk along a stack for at most so many nodes, and where it stops.\<close>

fun collect_nodes :: "pool_node list \<Rightarrow> nat \<Rightarrow> nat option \<Rightarrow> nat list \<times> nat option" where
  "collect_nodes ns 0 current = ([], current)"
| "collect_nodes ns (Suc k) None = ([], None)"
| "collect_nodes ns (Suc k) (Some n) =
     (let (chunks, current) = collect_nodes ns k (tp_ptr (nd_next (ns ! n))) in (n # chunks, current))"

definition pop_batch :: "pool_list \<Rightarrow> nat \<Rightarrow> pool \<Rightarrow> nat list \<times> pool" where
  "pop_batch l request p =
     (let old_head = load_list l p; (chunks, current) = collect_nodes (pl_nodes p) request (tp_ptr old_head) in
      (chunks, store_list l (tagged_pointer_init current (tp_ver old_head + 1)) p))"

definition take_batch :: "pool_list \<Rightarrow> nat \<Rightarrow> pool \<Rightarrow> nat list \<times> pool_list \<times> pool" where
  "take_batch target request p =
     (if tp_ptr (load_list target p) \<noteq> None then let (chunks, p) = pop_batch target request p in (chunks, target, p)
      else if tp_ptr (load_list Head p) \<noteq> None then let (chunks, p) = pop_batch Head request p in (chunks, Head, p)
      else ([], Head, p))"

definition count_batch :: "nat \<Rightarrow> pool \<Rightarrow> pool" where
  "count_batch obtained p = p\<lparr>pl_alloc_cnt := pl_alloc_cnt p + of_nat obtained,
     pl_contention_counter := pl_contention_counter p + (if obtained > 0 then 0 else 1)\<rparr>"

partial_function (option) batch_loop :: "nat \<Rightarrow> pool_list \<Rightarrow> nat list \<Rightarrow> pool \<Rightarrow> (nat list \<times> pool) option" where
  [code]: "batch_loop wanted target objs p =
     (if length objs < wanted
      then let (chunks, target, p) = take_batch target (min BATCH_SIZE (wanted - length objs)) p in
        batch_loop wanted target (objs @ chunks) (count_batch (length chunks) p)
      else Some (objs, p))"

definition batch_alloc_internal :: "pool \<Rightarrow> nat \<Rightarrow> (nat list \<times> pool) option" where
  "batch_alloc_internal p wanted = batch_loop wanted Free_list [] p"

subsection \<open>Release\<close>

text \<open>
  The links of a batch: the loop links each chunk to the one before it; then the last chunk is linked to the
  old stack and the first becomes the new top.
\<close>

definition link_batch :: "nat list \<Rightarrow> pool \<Rightarrow> pool" where
  "link_batch chunks p =
     fold (\<lambda>i. store_next (chunks ! i) (tagged_pointer_init (Some (chunks ! (i - 1))) 0)) (rev [1..<length chunks]) p"

definition push_batch :: "nat list \<Rightarrow> pool \<Rightarrow> pool" where
  "push_batch chunks p =
     (let p = link_batch chunks p; old_head = load_list Free_list p;
          p = store_next (chunks ! (length chunks - 1)) old_head p;
          p = store_list Free_list (tagged_pointer_init (Some (chunks ! 0)) (tp_ver old_head + 1)) p in
      p\<lparr>pl_free_cnt := pl_free_cnt p + of_nat (length chunks)\<rparr>)"

function pool_free_batch_internal :: "pool \<Rightarrow> nat list \<Rightarrow> pool" where
  "pool_free_batch_internal p objs =
     (if objs = [] then p else pool_free_batch_internal (push_batch (take BATCH_SIZE objs) p) (drop BATCH_SIZE objs))"
  by pat_completeness auto
termination
  by (relation "measure (length \<circ> snd)") (auto simp: BATCH_SIZE_def)

declare pool_free_batch_internal.simps [simp del]

definition pool_free_batch :: "pool \<Rightarrow> nat list \<Rightarrow> nat list \<Rightarrow> nat list \<times> pool" where
  "pool_free_batch p cache objs =
     (if objs = [] then (cache, p)
      else let to_cache = min (length objs) (CACHE_SIZE - length cache) in
        (cache @ take to_cache objs, pool_free_batch_internal p (drop to_cache objs)))"

definition pool_flush_cache :: "pool \<Rightarrow> nat list \<Rightarrow> nat list \<times> pool" where
  "pool_flush_cache p cache = ([], pool_free_batch_internal p cache)"

definition pool_destroy :: "pool \<Rightarrow> nat list \<Rightarrow> unit outcome" where
  "pool_destroy p cache =
     (let (_, p) = pool_flush_cache p cache in
      if pl_alloc_cnt p \<noteq> pl_free_cnt p then Inl (Panic ''Pool leak detected'') else Inr ())"

text \<open>The excess over \<open>count\<close> goes to the cache, and what does not fit there back to the pool.\<close>

definition pool_alloc_batch :: "pool \<Rightarrow> nat list \<Rightarrow> nat \<Rightarrow> (nat list \<times> nat list \<times> pool) option" where
  "pool_alloc_batch p cache wanted =
     (if wanted = 0 then Some ([], cache, p)
      else let from_cache = min wanted (length cache);
             objs = drop (length cache - from_cache) cache;
             cache = take (length cache - from_cache) cache in
        Option.bind (batch_alloc_internal p (wanted - from_cache)) (\<lambda>(more, p).
          let objs = objs @ more in
          if wanted < length objs then
            let excess = length objs - wanted; to_cache = min excess (CACHE_SIZE - length cache);
                cache = cache @ take to_cache (drop wanted objs);
                (cache, p) = pool_free_batch p cache (drop (wanted + to_cache) objs) in
            Some (take wanted objs, cache, p)
          else Some (objs, cache, p)))"

subsection \<open>What a batch takes\<close>

lemma collect_linked:
  "linked ns q xs \<Longrightarrow> \<exists>c. collect_nodes ns k q = (take k xs, c) \<and> linked ns c (drop k xs)"
proof (induction ns k q arbitrary: xs rule: collect_nodes.induct)
  case (2 ns k)
  then show ?case by (cases xs) auto
next
  case (3 ns k n)
  then obtain ys where ys: "xs = n # ys" "linked ns (tp_ptr (nd_next (ns ! n))) ys" using linked_bound by blast
  from "3.IH" [OF ys(2)] obtain c where "collect_nodes ns k (tp_ptr (nd_next (ns ! n))) = (take k ys, c)" "linked ns c (drop k ys)" by blast
  then show ?case using ys by simp
qed simp

definition stacks :: "pool \<Rightarrow> nat list \<Rightarrow> nat list \<Rightarrow> bool" where
  "stacks p xs ys \<longleftrightarrow> linked (pl_nodes p) (tp_ptr (pl_head p)) xs \<and> linked (pl_nodes p) (tp_ptr (pl_free_list p)) ys"

lemma stacks_count [simp]: "stacks (count_batch k p) xs ys = stacks p xs ys"
  by (simp add: stacks_def count_batch_def)

lemma linked_None: "linked ns q xs \<Longrightarrow> q = None \<longleftrightarrow> xs = []"
  by (cases q; cases xs) auto

text \<open>One round takes from the freed nodes as long as there are any, then from the new ones.\<close>

lemma take_batch_linked:
  assumes "stacks p xs ys" and "target = Head \<Longrightarrow> ys = []"
  shows "\<exists>t p'. take_batch target k p = (if ys \<noteq> [] then take k ys else take k xs, t, p') \<and> (t = Head \<longrightarrow> ys = []) \<and>
    stacks p' (if ys \<noteq> [] then xs else drop k xs) (drop k ys)"
proof -
  have l: "linked (pl_nodes p) (tp_ptr (pl_head p)) xs" "linked (pl_nodes p) (tp_ptr (pl_free_list p)) ys"
    using assms(1) by (simp_all add: stacks_def)
  note n = linked_None [OF l(1)] linked_None [OF l(2)]
  obtain c where c: "collect_nodes (pl_nodes p) k (tp_ptr (pl_head p)) = (take k xs, c)" "linked (pl_nodes p) c (drop k xs)"
    using collect_linked [OF l(1)] by blast
  obtain d where d: "collect_nodes (pl_nodes p) k (tp_ptr (pl_free_list p)) = (take k ys, d)" "linked (pl_nodes p) d (drop k ys)"
    using collect_linked [OF l(2)] by blast
  show ?thesis
  proof (cases "ys = []")
    case True
    then show ?thesis using n l c
      by (cases target; cases "xs = []") (auto simp: take_batch_def pop_batch_def stacks_def tagged_pointer_init_def)
  next
    case False
    then have "target = Free_list" using assms(2) by (cases target) auto
    then show ?thesis using False n l d
      by (auto simp: take_batch_def pop_batch_def stacks_def tagged_pointer_init_def)
  qed
qed

lemma batch_loop_more:
  "length objs < wanted \<Longrightarrow> take_batch target (min BATCH_SIZE (wanted - length objs)) p = (chunks, t, p') \<Longrightarrow>
   batch_loop wanted target objs p = batch_loop wanted t (objs @ chunks) (count_batch (length chunks) p')"
  by (subst batch_loop.simps) simp

lemma batch_loop_done: "\<not> length objs < wanted \<Longrightarrow> batch_loop wanted target objs p = Some (objs, p)"
  by (subst batch_loop.simps) simp

lemma batch_loop_run:
  assumes "stacks p xs ys" and "target = Head \<Longrightarrow> ys = []" and "length objs \<le> wanted" and "wanted - length objs \<le> length ys + length xs"
  shows "\<exists>p'. batch_loop wanted target objs p = Some (objs @ take (wanted - length objs) (ys @ xs), p') \<and>
    stacks p' (drop (wanted - length objs - length ys) xs) (drop (wanted - length objs) ys)"
  using assms
proof (induction "wanted - length objs" arbitrary: p xs ys target objs rule: less_induct)
  case less
  show ?case
  proof (cases "length objs < wanted")
    case False
    then have "batch_loop wanted target objs p = Some (objs, p)" by (rule batch_loop_done)
    then show ?thesis using False less.prems by simp
  next
    case True
    define k where "k = min BATCH_SIZE (wanted - length objs)"
    define got where "got = (if ys \<noteq> [] then take k ys else take k xs)"
    define xs' where "xs' = (if ys \<noteq> [] then xs else drop k xs)"
    have k: "0 < k" "k \<le> wanted - length objs" using True by (simp_all add: k_def BATCH_SIZE_def)
    obtain t p1 where b: "take_batch target k p = (got, t, p1)" "t = Head \<longrightarrow> ys = []" "stacks p1 xs' (drop k ys)"
      using take_batch_linked [OF less.prems(1,2), where k = k] unfolding got_def xs'_def by blast
    have all: "got @ drop k ys @ xs' = ys @ xs" by (simp add: got_def xs'_def)
    have got: "0 < length got" "length got \<le> k" using k(1) True less.prems(4) by (auto simp: got_def)
    have run: "batch_loop wanted target objs p = batch_loop wanted t (objs @ got) (count_batch (length got) p1)"
      by (rule batch_loop_more) (use True b(1) in \<open>simp_all add: k_def\<close>)
    let ?m = "wanted - length (objs @ got)"
    have "\<exists>p'. batch_loop wanted t (objs @ got) (count_batch (length got) p1) = Some ((objs @ got) @ take ?m (drop k ys @ xs'), p') \<and>
      stacks p' (drop (?m - length (drop k ys)) xs') (drop ?m (drop k ys))"
    proof (rule less.hyps)
      show "?m < wanted - length objs" using got(1) True unfolding length_append by linarith
      show "stacks (count_batch (length got) p1) xs' (drop k ys)" using b(3) by simp
      show "t = Head \<Longrightarrow> drop k ys = []" using b(2) by simp
      show "length (objs @ got) \<le> wanted" using got(2) k(2) True by simp
      have "length got + length (drop k ys) + length xs' = length ys + length xs"
        using arg_cong [OF all, of length] by simp
      then show "?m \<le> length (drop k ys) + length xs'" using less.prems(4) by simp
    qed
    then obtain p' where p': "batch_loop wanted target objs p = Some ((objs @ got) @ take ?m (drop k ys @ xs'), p')"
      "stacks p' (drop (?m - length (drop k ys)) xs') (drop ?m (drop k ys))" unfolding run by blast
    have g: "length got \<le> wanted - length objs" using got(2) k(2) by simp
    have "take (wanted - length objs) (got @ drop k ys @ xs') = got @ take (wanted - length objs - length got) (drop k ys @ xs')"
      using g by simp
    then have res: "(objs @ got) @ take ?m (drop k ys @ xs') = objs @ take (wanted - length objs) (ys @ xs)"
      unfolding all by simp
    have "stacks p' (drop (wanted - length objs - length ys) xs) (drop (wanted - length objs) ys)"
    proof (cases "ys = []")
      case True
      then have "got = take k xs" "xs' = drop k xs" by (simp_all add: got_def xs'_def)
      moreover have "wanted - (length objs + k) + k = wanted - length objs" using k(2) by simp
      ultimately show ?thesis using p'(2) True by (cases "length xs \<le> k") (simp_all add: min_def add.commute)
    next
      case False
      then have "length got = min (length ys) k" "xs' = xs" by (simp_all add: got_def xs'_def)
      moreover have "wanted - (length objs + k) + k = wanted - length objs" using k(2) by simp
      ultimately show ?thesis using p'(2) k(2) by (cases "length ys \<le> k") (simp_all add: min_def)
    qed
    then show ?thesis using p'(1) res by auto
  qed
qed

text \<open>With both stacks empty a round gets nothing and changes nothing but a counter: the loop never ends.\<close>

lemma batch_loop_stuck:
  assumes "batch_loop wanted target objs p = Some r" and "stacks p [] []" and "length objs < wanted"
  shows False
proof -
  have "stacks p [] [] \<longrightarrow> length objs < wanted \<longrightarrow> False"
  proof (rule batch_loop.raw_induct [OF _ assms(1), where P = "\<lambda>wanted target objs p r. stacks p [] [] \<longrightarrow> length objs < wanted \<longrightarrow> False"], intro impI)
    fix f wanted target objs r
    fix p :: pool
    assume IH: "\<And>target objs p b y. f target objs p b = Some y \<Longrightarrow> stacks b [] [] \<longrightarrow> length p < target \<longrightarrow> False"
      and run: "(if length objs < wanted
        then let (chunks, target, p) = take_batch target (min BATCH_SIZE (wanted - length objs)) p
          in f wanted target (objs @ chunks) (count_batch (length chunks) p)
        else Some (objs, p)) = Some r"
      and st: "stacks p [] []" "length objs < wanted"
    have "tp_ptr (load_list target p) = None" "tp_ptr (load_list Head p) = None"
      using st(1) by (cases target; auto simp: stacks_def dest: linked_None)+
    then have "f wanted Head objs (count_batch 0 p) = Some r" using run st(2) by (simp add: take_batch_def)
    from IH [OF this] show False using st by simp
  qed
  then show False using assms(2,3) by blast
qed

lemma batch_loop_diverges:
  assumes "stacks p xs ys" and "target = Head \<Longrightarrow> ys = []" and "length ys + length xs < wanted - length objs"
  shows "batch_loop wanted target objs p = None"
  using assms
proof (induction "length ys + length xs" arbitrary: p xs ys target objs rule: less_induct)
  case less
  show ?case
  proof (cases "ys = [] \<and> xs = []")
    case True
    have "batch_loop wanted target objs p \<noteq> Some r" for r
      using batch_loop_stuck [of wanted target objs p r] True less.prems by auto
    then show ?thesis by blast
  next
    case False
    define k where "k = min BATCH_SIZE (wanted - length objs)"
    define got where "got = (if ys \<noteq> [] then take k ys else take k xs)"
    define xs' where "xs' = (if ys \<noteq> [] then xs else drop k xs)"
    have k: "0 < k" using less.prems(3) by (simp add: k_def BATCH_SIZE_def)
    obtain t p1 where b: "take_batch target k p = (got, t, p1)" "t = Head \<longrightarrow> ys = []" "stacks p1 xs' (drop k ys)"
      using take_batch_linked [OF less.prems(1,2), where k = k] unfolding got_def xs'_def by blast
    have "got @ drop k ys @ xs' = ys @ xs" by (simp add: got_def xs'_def)
    from arg_cong [OF this, of length] have all: "length got + (length (drop k ys) + length xs') = length ys + length xs" by simp
    have got: "0 < length got" using k False by (auto simp: got_def)
    have "batch_loop wanted target objs p = batch_loop wanted t (objs @ got) (count_batch (length got) p1)"
      by (rule batch_loop_more) (use less.prems(3) b(1) in \<open>simp_all add: k_def\<close>)
    also have "\<dots> = None"
    proof (rule less.hyps)
      show "length (drop k ys) + length xs' < length ys + length xs" using all got by linarith
      show "stacks (count_batch (length got) p1) xs' (drop k ys)" using b(3) by simp
      show "t = Head \<Longrightarrow> drop k ys = []" using b(2) by simp
      show "length (drop k ys) + length xs' < wanted - length (objs @ got)"
        using all less.prems(3) unfolding length_append by linarith
    qed
    finally show ?thesis .
  qed
qed

subsection \<open>Properties\<close>

text \<open>
  C25: A batch allocation returns exactly when there are enough nodes. On a pool with well linked stacks, a
  request for no more nodes than both hold returns that many, the freed ones first and then the new ones, in
  the order of the stacks, and leaves the rest on the stacks; a request for more never returns.
\<close>

theorem batch_alloc_returns:
  assumes "stacks p xs ys"
  shows "if n \<le> length ys + length xs
    then \<exists>p'. batch_alloc_internal p n = Some (take n (ys @ xs), p') \<and> stacks p' (drop (n - length ys) xs) (drop n ys)
    else batch_alloc_internal p n = None"
  using batch_loop_run [OF assms, of Free_list "[]" n] batch_loop_diverges [OF assms, of Free_list n "[]"]
  by (simp add: batch_alloc_internal_def)

definition pool_of_four :: pool where
  "pool_of_four = the (pool_create 24 4)"

lemma pool_of_four_facts:
  "pl_nodes pool_of_four = [\<lparr>nd_next = \<lparr>tp_ptr = None, tp_ver = 0\<rparr>, nd_data = replicate 48 None\<rparr>,
     \<lparr>nd_next = \<lparr>tp_ptr = Some 0, tp_ver = 0\<rparr>, nd_data = replicate 48 None\<rparr>,
     \<lparr>nd_next = \<lparr>tp_ptr = Some 1, tp_ver = 0\<rparr>, nd_data = replicate 48 None\<rparr>,
     \<lparr>nd_next = \<lparr>tp_ptr = Some 2, tp_ver = 0\<rparr>, nd_data = replicate 48 None\<rparr>]"
  "pl_head pool_of_four = \<lparr>tp_ptr = Some 3, tp_ver = 0\<rparr>" "pl_free_list pool_of_four = \<lparr>tp_ptr = None, tp_ver = 0\<rparr>"
  by (simp_all add: pool_of_four_def pool_create_def Let_def NODE_TOTAL_SIZE_def NODE_DATA_SIZE_def ALIGN_UP_def CACHE_LINE_SIZE_def
    pool_node_at_def tagged_pointer_init_def tagged_pointer_size_def buf_alloc_def upt_conv_Cons)

theorem batch_alloc_returns_witness:
  "\<exists>p'. batch_alloc_internal pool_of_four 3 = Some ([3, 2, 1], p') \<and> stacks p' [0] [] \<and>
     batch_alloc_internal pool_of_four 5 = None"
proof -
  have "stacks pool_of_four [3, 2, 1, 0] []" by (simp add: stacks_def pool_of_four_facts)
  from batch_alloc_returns [OF this, of 3] batch_alloc_returns [OF this, of 5] show ?thesis by (auto simp: numeral_eq_Suc)
qed

text \<open>
  Freeing a batch corrupts the pool. \<open>pool_free_batch_internal\<close> links the chunks backwards, overwrites the
  link of the last one, and leaves in the first, which it makes the top of the stack, the link it had before
  it was handed out. After a thread has taken two nodes of four, freed them as a batch and flushed its cache,
  the four nodes it can take are not distinct and one node is lost.
\<close>

theorem batch_free_duplicates:
  "\<exists>p p' c q. pool_alloc_batch pool_of_four [] 2 = Some ([3, 2], [], p) \<and>
     pool_free_batch p [] [2, 3] = ([2, 3], p) \<and> pool_flush_cache p [2, 3] = ([], p') \<and>
     pool_alloc_batch p' [] 4 = Some ([2, 1, 0, 1], c, q)"
proof -
  have four: "pool_of_four = \<lparr>pl_nodes = pl_nodes pool_of_four, pl_head = pl_head pool_of_four, pl_free_list = pl_free_list pool_of_four,
    pl_node_size = pl_node_size pool_of_four, pl_capacity = pl_capacity pool_of_four, pl_alloc_cnt = pl_alloc_cnt pool_of_four,
    pl_free_cnt = pl_free_cnt pool_of_four, pl_contention_counter = pl_contention_counter pool_of_four\<rparr>" by simp
  show ?thesis
    by (subst four)
      (simp add: pool_alloc_batch_def batch_alloc_internal_def batch_loop_more batch_loop_done take_batch_def pop_batch_def
        pool_of_four_facts BATCH_SIZE_def numeral_eq_Suc tagged_pointer_init_def count_batch_def pool_free_batch_def CACHE_SIZE_def
        pool_free_batch_internal.simps pool_flush_cache_def push_batch_def link_batch_def store_next_def Let_def)
qed

end
