(* ===== verification/Joker_Text.thy ===== *)
theory Joker_Text
  imports Joker_Heap
begin

text \<open>
  The text of a value (src/value.c, src/object.c, and the print functions of each kind of object):
  \<open>print_value\<close>, which writes to the standard output, and \<open>snprintf_value\<close>, which writes to a buffer of
  limited size.

  What \<open>printf\<close> makes of a float or a pointer is a parameter. A recursive call takes one unit of fuel; a value
  whose text has no end, because it contains itself, is \<open>Diverge\<close>.
\<close>

record text_format =
  tf_float :: "string \<Rightarrow> jvalue \<Rightarrow> string"
  tf_pointer :: "nat \<Rightarrow> string"
  tf_location :: "location \<Rightarrow> string"

subsection \<open>The conversions of printf\<close>

fun digits :: "nat \<Rightarrow> string" where
  "digits n = (if n < 10 then [''0123456789'' ! n] else digits (n div 10) @ [''0123456789'' ! (n mod 10)])"

declare digits.simps [simp del]

definition int_text :: "int \<Rightarrow> string" where
  "int_text i = (if i < 0 then CHR ''-'' # digits (nat (- i)) else digits (nat i))"

text \<open>\<open>%s\<close> ends at the first zero byte.\<close>

definition c_string :: "string \<Rightarrow> string" where
  "c_string = takeWhile (\<lambda>c. c \<noteq> CHR 0x00)"

text \<open>
  \<open>snprintf\<close> into a buffer of the given size: the characters it stores before the final zero, and its result,
  the length of the whole text.
\<close>

definition snprintf :: "nat \<Rightarrow> string \<Rightarrow> (string \<times> nat) outcome" where
  "snprintf room text = Inr (take (room - 1) text, length text)"

subsection \<open>Into a buffer\<close>

text \<open>
  The state of the functions that write piece by piece: the text so far, \<open>total\<close>, and \<open>remaining\<close>. A piece that
  does not fit ends the function.
\<close>

type_synonym writer = "nat \<Rightarrow> (string \<times> nat) outcome"
type_synonym writing = "string \<times> nat \<times> nat"

definition put_piece :: "writer \<Rightarrow> (writing \<Rightarrow> (string \<times> nat) outcome) \<Rightarrow> writing \<Rightarrow> (string \<times> nat) outcome" where
  "put_piece f next = (\<lambda>(text, total, remaining). andThen (f remaining) (\<lambda>(t, written).
     if remaining \<le> written then Inr (text @ t, total + remaining - 1)
     else next (text @ t, total + written, remaining - written)))"

definition put_text :: "string \<Rightarrow> (writing \<Rightarrow> (string \<times> nat) outcome) \<Rightarrow> writing \<Rightarrow> (string \<times> nat) outcome" where
  "put_text s = put_piece (\<lambda>room. snprintf room s)"

definition end_text :: "writing \<Rightarrow> (string \<times> nat) outcome" where
  "end_text = (\<lambda>(text, total, remaining). Inr (text, total))"

type_synonym value_writer = "jvalue \<Rightarrow> writer"

primrec put_elements :: "value_writer \<Rightarrow> jvalue buffer \<Rightarrow> nat \<Rightarrow> nat \<Rightarrow> writing \<Rightarrow> (string \<times> nat) outcome" where
  "put_elements rec start i 0 = put_text ''}'' end_text"
| "put_elements rec start i (Suc left) =
     (let element = (\<lambda>w. andThen (buf_read start i) (\<lambda>v. put_piece (rec v) (put_elements rec start (i + 1) left) w)) in
      if 0 < i then put_text '', '' element else element)"

definition snprintf_vec :: "value_writer \<Rightarrow> vec \<Rightarrow> writer" where
  "snprintf_vec rec v room =
     (if room = 0 then Inl (Panic ''Vec::snprintf_vec'')
      else put_text ''Vec{'' (put_elements rec (v_start v) 0 (vec_len v)) ([], 0, room))"

definition snprintf_pair :: "value_writer \<Rightarrow> pair_obj \<Rightarrow> writer" where
  "snprintf_pair rec p room =
     (if room = 0 then Inl (Panic ''Pair::snprintf_pair'')
      else put_text ''Pair<'' (put_piece (rec (pr_first p)) (put_text '', '' (put_piece (rec (pr_second p)) (put_text ''>'' end_text))))
        ([], 0, room))"

definition fn_text :: "fn_obj \<Rightarrow> string" where
  "fn_text f =
     (case fn_name f of None \<Rightarrow> ''<script>''
      | Some s \<Rightarrow> ''<Fn '' @ c_string s @ ''(args: '' @ int_text (int (fn_arity f)) @ '')>'')"

definition snprintf_fn :: "fn_obj \<Rightarrow> writer" where
  "snprintf_fn f room = snprintf room (fn_text f)"

definition snprintf_closure :: "heap \<Rightarrow> closure_obj \<Rightarrow> writer" where
  "snprintf_closure h c room = andThen (get_fn h (cl_fn c)) (\<lambda>f. snprintf_fn f room)"

definition as_vec_data :: "heap \<Rightarrow> jvalue \<Rightarrow> vec outcome" where
  "as_vec_data h v = (case v of VObject (ObjRef a) \<Rightarrow> get_vec h a | _ \<Rightarrow> Inl (Undefined ''not a Vec''))"

definition snprintf_instance :: "value_writer \<Rightarrow> heap \<Rightarrow> instance_obj \<Rightarrow> writer" where
  "snprintf_instance rec h x room =
     andThen (get_class h (in_klass x)) (\<lambda>c.
       if c_string (cls_name c) = ''Vec''
       then andThen (hashmap_get hash_string (in_fields x) ''_data'') (\<lambda>d.
         andThen (as_vec_data h d) (\<lambda>v. snprintf_vec rec v room))
       else snprintf room (''<'' @ c_string (cls_name c) @ '' instance>''))"

definition snprintf_string :: "string \<Rightarrow> writer" where
  "snprintf_string s room = snprintf room (c_string s)"

definition snprintf_native :: "native_obj \<Rightarrow> writer" where
  "snprintf_native f room = snprintf room ''<Native Fn>''"

definition snprintf_upvalue :: "value_writer \<Rightarrow> upvalue_obj \<Rightarrow> writer" where
  "snprintf_upvalue rec u room = rec (uv_closed u) room"

definition snprintf_class :: "class_obj \<Rightarrow> writer" where
  "snprintf_class c room = snprintf room (''<class '' @ c_string (cls_name c) @ ''>'')"

definition snprintf_bound_method :: "heap \<Rightarrow> bound_method_obj \<Rightarrow> writer" where
  "snprintf_bound_method h b room = andThen (get_closure h (bm_method b)) (\<lambda>c. snprintf_closure h c room)"

definition snprintf_struct :: "struct_obj \<Rightarrow> writer" where
  "snprintf_struct s room = snprintf room (''<struct '' @ c_string (st_name s) @ ''>'')"

definition snprintf_enum :: "enum_obj \<Rightarrow> writer" where
  "snprintf_enum e room = snprintf room (''<enum '' @ c_string (en_name e) @ ''>'')"

definition snprintf_enum_instance :: "heap \<Rightarrow> enum_instance_obj \<Rightarrow> writer" where
  "snprintf_enum_instance h e room = andThen (get_enum h (ei_enum_type e)) (\<lambda>e. snprintf_enum e room)"

lemmas snprintf_kinds [simp] = snprintf_string_def snprintf_native_def snprintf_upvalue_def snprintf_class_def
  snprintf_bound_method_def snprintf_struct_def snprintf_enum_def snprintf_enum_instance_def

definition snprintf_object :: "value_writer \<Rightarrow> heap \<Rightarrow> objref \<Rightarrow> writer" where
  "snprintf_object rec h r room =
     (case r of StrRef s \<Rightarrow> snprintf_string s room
      | ObjRef a \<Rightarrow>
          (case h_objs h a of None \<Rightarrow> Inl (Undefined ''released object'')
           | Some ob \<Rightarrow>
               (case ob of OFn f \<Rightarrow> snprintf_fn f room
                | ONative f \<Rightarrow> snprintf_native f room
                | OClosure c \<Rightarrow> snprintf_closure h c room
                | OUpvalue u \<Rightarrow> snprintf_upvalue rec u room
                | OClass c \<Rightarrow> snprintf_class c room
                | OInstance x \<Rightarrow> snprintf_instance rec h x room
                | OBoundMethod b \<Rightarrow> snprintf_bound_method h b room
                | OStruct s \<Rightarrow> snprintf_struct s room
                | OPair p \<Rightarrow> snprintf_pair rec p room
                | OVec v \<Rightarrow> snprintf_vec rec v room
                | OEnum e \<Rightarrow> snprintf_enum e room
                | OEnumInstance e \<Rightarrow> snprintf_enum_instance h e room)))"

primrec snprintf_value :: "nat \<Rightarrow> text_format \<Rightarrow> heap \<Rightarrow> jvalue \<Rightarrow> writer" where
  "snprintf_value 0 F h v room = Inl Diverge"
| "snprintf_value (Suc k) F h v room =
     (case v of
        VI32 w \<Rightarrow> snprintf room (int_text (sint w))
      | VI64 w \<Rightarrow> snprintf room (int_text (sint w))
      | VF32 _ \<Rightarrow> snprintf room (tf_float F ''%.2f'' v)
      | VF64 _ \<Rightarrow> snprintf room (tf_float F ''%.2f'' v)
      | VBool b \<Rightarrow> snprintf room (if b then ''true'' else ''false'')
      | VNull \<Rightarrow> snprintf room ''null''
      | VNone \<Rightarrow> snprintf room ''None''
      | VObject r \<Rightarrow> snprintf_object (snprintf_value k F h) h r room)"

subsection \<open>To the standard output\<close>

type_synonym value_printer = "jvalue \<Rightarrow> string outcome"

primrec print_elements :: "value_printer \<Rightarrow> vec \<Rightarrow> nat \<Rightarrow> nat \<Rightarrow> string outcome" where
  "print_elements rec v i 0 = Inr ''''"
| "print_elements rec v i (Suc left) =
     andThen (vec_get v i) (\<lambda>x. andThen (rec x) (\<lambda>s. andThen (print_elements rec v (i + 1) left) (\<lambda>t.
       Inr (s @ (if i + 1 < vec_len v then '', '' else '''') @ t))))"

definition print_vec :: "value_printer \<Rightarrow> vec \<Rightarrow> string outcome" where
  "print_vec rec v = andThen (print_elements rec v 0 (vec_len v)) (\<lambda>s. Inr (''Vec([ '' @ s @ '' ])'' @ [CHR 0x0A]))"

definition print_pair :: "value_printer \<Rightarrow> pair_obj \<Rightarrow> string outcome" where
  "print_pair rec p = andThen (rec (pr_first p)) (\<lambda>s. andThen (rec (pr_second p)) (\<lambda>t.
     Inr (''pair('' @ s @ '', '' @ t @ '')'' @ [CHR 0x0A])))"

definition print_string :: "string \<Rightarrow> string outcome" where
  "print_string s = Inr (c_string s)"

definition print_fn :: "fn_obj \<Rightarrow> string outcome" where
  "print_fn f = Inr (fn_text f)"

definition print_native :: "native_obj \<Rightarrow> string outcome" where
  "print_native f = Inr ''<Native Fn>''"

definition print_closure :: "heap \<Rightarrow> closure_obj \<Rightarrow> string outcome" where
  "print_closure h c = andThen (get_fn h (cl_fn c)) print_fn"

definition print_upvalue :: "value_printer \<Rightarrow> text_format \<Rightarrow> nat \<Rightarrow> upvalue_obj \<Rightarrow> string outcome" where
  "print_upvalue rec F a u = andThen (rec (uv_closed u)) (\<lambda>s.
     Inr (''upvalue[{'' @ tf_pointer F a @ ''} {'' @ tf_location F (uv_location u) @ ''} {'' @ s @ ''}]'' @ [CHR 0x0A]))"

definition print_class :: "class_obj \<Rightarrow> string outcome" where
  "print_class c = Inr (''<class '' @ c_string (cls_name c) @ ''>'')"

definition print_instance :: "heap \<Rightarrow> instance_obj \<Rightarrow> string outcome" where
  "print_instance h x = andThen (get_class h (in_klass x)) (\<lambda>c. Inr (''<'' @ c_string (cls_name c) @ '' instance>''))"

definition print_bound_method :: "heap \<Rightarrow> bound_method_obj \<Rightarrow> string outcome" where
  "print_bound_method h b = andThen (get_closure h (bm_method b)) (print_closure h)"

definition print_struct :: "struct_obj \<Rightarrow> string outcome" where
  "print_struct s = Inr (''<struct '' @ c_string (st_name s) @ ''>'')"

definition print_enum :: "enum_obj \<Rightarrow> string outcome" where
  "print_enum e = Inr (''<enum '' @ c_string (en_name e) @ ''>'')"

definition print_enum_instance :: "heap \<Rightarrow> enum_instance_obj \<Rightarrow> string outcome" where
  "print_enum_instance h e = andThen (get_enum h (ei_enum_type e)) print_enum"

lemmas print_kinds [simp] = print_string_def print_fn_def print_native_def print_class_def print_instance_def
  print_bound_method_def print_struct_def print_enum_def print_enum_instance_def

definition print_object :: "value_printer \<Rightarrow> text_format \<Rightarrow> heap \<Rightarrow> objref \<Rightarrow> string outcome" where
  "print_object rec F h r =
     (case r of StrRef s \<Rightarrow> print_string s
      | ObjRef a \<Rightarrow>
          (case h_objs h a of None \<Rightarrow> Inl (Undefined ''released object'')
           | Some ob \<Rightarrow>
               (case ob of OFn f \<Rightarrow> print_fn f
                | ONative f \<Rightarrow> print_native f
                | OClosure c \<Rightarrow> print_closure h c
                | OUpvalue u \<Rightarrow> print_upvalue rec F a u
                | OClass c \<Rightarrow> print_class c
                | OInstance x \<Rightarrow> print_instance h x
                | OBoundMethod b \<Rightarrow> print_bound_method h b
                | OStruct s \<Rightarrow> print_struct s
                | OPair p \<Rightarrow> print_pair rec p
                | OVec v \<Rightarrow> print_vec rec v
                | OEnum e \<Rightarrow> print_enum e
                | OEnumInstance e \<Rightarrow> print_enum_instance h e)))"

primrec print_value :: "nat \<Rightarrow> text_format \<Rightarrow> heap \<Rightarrow> jvalue \<Rightarrow> string outcome" where
  "print_value 0 F h v = Inl Diverge"
| "print_value (Suc k) F h v =
     (case v of
        VI32 w \<Rightarrow> Inr (int_text (sint w))
      | VI64 w \<Rightarrow> Inr (int_text (sint w))
      | VF32 _ \<Rightarrow> Inr (tf_float F ''%f'' v)
      | VF64 _ \<Rightarrow> Inr (tf_float F ''%f'' v)
      | VBool b \<Rightarrow> Inr (if b then ''true'' else ''false'')
      | VNull \<Rightarrow> Inr ''null''
      | VNone \<Rightarrow> Inr ''None''
      | VObject r \<Rightarrow> print_object (print_value k F h) F h r)"

subsection \<open>The whole text\<close>

text \<open>What \<open>snprintf_value\<close> would write if there were no limit.\<close>

primrec elements_text :: "value_printer \<Rightarrow> jvalue buffer \<Rightarrow> nat \<Rightarrow> nat \<Rightarrow> string outcome" where
  "elements_text rec start i 0 = Inr ''}''"
| "elements_text rec start i (Suc left) =
     andThen (buf_read start i) (\<lambda>v. andThen (rec v) (\<lambda>s. andThen (elements_text rec start (i + 1) left) (\<lambda>t.
       Inr ((if 0 < i then '', '' else '''') @ s @ t))))"

definition vec_text :: "value_printer \<Rightarrow> vec \<Rightarrow> string outcome" where
  "vec_text rec v = andThen (elements_text rec (v_start v) 0 (vec_len v)) (\<lambda>s. Inr (''Vec{'' @ s))"

definition closure_text :: "heap \<Rightarrow> closure_obj \<Rightarrow> string outcome" where
  "closure_text h c = andThen (get_fn h (cl_fn c)) (\<lambda>f. Inr (fn_text f))"

definition instance_text :: "value_printer \<Rightarrow> heap \<Rightarrow> instance_obj \<Rightarrow> string outcome" where
  "instance_text rec h x =
     andThen (get_class h (in_klass x)) (\<lambda>c.
       if c_string (cls_name c) = ''Vec''
       then andThen (hashmap_get hash_string (in_fields x) ''_data'') (\<lambda>d. andThen (as_vec_data h d) (vec_text rec))
       else Inr (''<'' @ c_string (cls_name c) @ '' instance>''))"

definition object_text :: "value_printer \<Rightarrow> heap \<Rightarrow> objref \<Rightarrow> string outcome" where
  "object_text rec h r =
     (case r of StrRef s \<Rightarrow> Inr (c_string s)
      | ObjRef a \<Rightarrow>
          (case h_objs h a of None \<Rightarrow> Inl (Undefined ''released object'')
           | Some ob \<Rightarrow>
               (case ob of OFn f \<Rightarrow> Inr (fn_text f)
                | ONative _ \<Rightarrow> Inr ''<Native Fn>''
                | OClosure c \<Rightarrow> closure_text h c
                | OUpvalue u \<Rightarrow> rec (uv_closed u)
                | OClass c \<Rightarrow> Inr (''<class '' @ c_string (cls_name c) @ ''>'')
                | OInstance x \<Rightarrow> instance_text rec h x
                | OBoundMethod b \<Rightarrow> andThen (get_closure h (bm_method b)) (closure_text h)
                | OStruct s \<Rightarrow> Inr (''<struct '' @ c_string (st_name s) @ ''>'')
                | OPair p \<Rightarrow> andThen (rec (pr_first p)) (\<lambda>s. andThen (rec (pr_second p)) (\<lambda>t.
                    Inr (''Pair<'' @ s @ '', '' @ t @ ''>'')))
                | OVec v \<Rightarrow> vec_text rec v
                | OEnum e \<Rightarrow> Inr (''<enum '' @ c_string (en_name e) @ ''>'')
                | OEnumInstance e \<Rightarrow> andThen (get_enum h (ei_enum_type e)) (\<lambda>e. Inr (''<enum '' @ c_string (en_name e) @ ''>'')))))"

primrec value_text :: "nat \<Rightarrow> text_format \<Rightarrow> heap \<Rightarrow> jvalue \<Rightarrow> string outcome" where
  "value_text 0 F h v = Inl Diverge"
| "value_text (Suc k) F h v =
     (case v of
        VI32 w \<Rightarrow> Inr (int_text (sint w))
      | VI64 w \<Rightarrow> Inr (int_text (sint w))
      | VF32 _ \<Rightarrow> Inr (tf_float F ''%.2f'' v)
      | VF64 _ \<Rightarrow> Inr (tf_float F ''%.2f'' v)
      | VBool b \<Rightarrow> Inr (if b then ''true'' else ''false'')
      | VNull \<Rightarrow> Inr ''null''
      | VNone \<Rightarrow> Inr ''None''
      | VObject r \<Rightarrow> object_text (value_text k F h) h r)"

subsection \<open>A buffer gets the beginning of the text\<close>

text \<open>
  A function that writes a text into a buffer: it stores as much of it as there is room for, and returns its
  length, or, when it does not fit, at least the number of characters stored.
\<close>

definition writes :: "writer \<Rightarrow> string \<Rightarrow> bool" where
  "writes f s \<longleftrightarrow> (\<forall>room>0. \<exists>w. f room = Inr (take (room - 1) s, w) \<and> (if length s < room then w = length s else room - 1 \<le> w))"

definition completes :: "(writing \<Rightarrow> (string \<times> nat) outcome) \<Rightarrow> string \<Rightarrow> bool" where
  "completes next s \<longleftrightarrow> (\<forall>text total remaining. 0 < remaining \<longrightarrow>
     next (text, total, remaining) = Inr (text @ take (remaining - 1) s, total + min (length s) (remaining - 1)))"

lemma writesE:
  assumes "writes f s" and "0 < room"
  obtains w where "f room = Inr (take (room - 1) s, w)" and "length s < room \<longrightarrow> w = length s" and "\<not> length s < room \<longrightarrow> room - 1 \<le> w"
  using assms unfolding writes_def by (metis (full_types))

lemma writes_snprintf: "writes (\<lambda>room. snprintf room s) s"
  by (auto simp: writes_def snprintf_def)

lemma completes_end: "completes end_text ''''"
  by (simp add: completes_def end_text_def)

lemma completes_piece:
  assumes "writes f s" and "completes next t"
  shows "completes (put_piece f next) (s @ t)"
  unfolding completes_def
proof (intro allI impI)
  fix acc :: string and total remaining :: nat
  assume r: "0 < remaining"
  obtain w where w: "f remaining = Inr (take (remaining - 1) s, w)" "length s < remaining \<longrightarrow> w = length s"
    "\<not> length s < remaining \<longrightarrow> remaining - 1 \<le> w" by (rule writesE [OF assms(1) r])
  have next': "next (x, y, z) = Inr (x @ take (z - 1) t, y + min (length t) (z - 1))" if "0 < z" for x y z
    using assms(2) that unfolding completes_def by blast
  show "put_piece f next (acc, total, remaining) =
    Inr (acc @ take (remaining - 1) (s @ t), total + min (length (s @ t)) (remaining - 1))"
  proof (cases "length s < remaining")
    case True
    then have "w = length s" using w(2) by blast
    moreover have "length s + min (length t) (remaining - Suc (length s)) = min (length s + length t) (remaining - Suc 0)"
      using True by linarith
    ultimately show ?thesis using True w(1) r by (simp add: put_piece_def next')
  next
    case False
    then have m: "min (length s + length t) (remaining - Suc 0) = remaining - Suc 0" by linarith
    have "remaining - 1 \<le> w" using False w(3) by blast
    then consider "remaining \<le> w" | "w = remaining - 1" by linarith
    then show ?thesis
    proof cases
      case 1
      then show ?thesis using False w(1) r m by (simp add: put_piece_def)
    next
      case 2
      then have "remaining - w = 1" using r by simp
      then show ?thesis using False w(1) r 2 m by (simp add: put_piece_def next')
    qed
  qed
qed

lemma completes_text: "completes next t \<Longrightarrow> completes (put_text s next) (s @ t)"
  unfolding put_text_def by (rule completes_piece [OF writes_snprintf])

lemma completes_writes: "completes next s \<Longrightarrow> writes (\<lambda>room. next ([], 0, room)) s"
  unfolding completes_def writes_def by (auto simp: min_def)

lemma completes_elements:
  assumes "\<And>v s. rec v = Inr s \<Longrightarrow> writes (rec' v) s" and "elements_text rec start i n = Inr s"
  shows "completes (put_elements rec' start i n) s"
  using assms(2)
proof (induction n arbitrary: i s)
  case 0
  then show ?case using completes_text [OF completes_end, of "''}''"] by simp
next
  case (Suc n)
  then obtain v x t where v: "buf_read start i = Inr v" "rec v = Inr x" "elements_text rec start (i + 1) n = Inr t"
    "s = (if 0 < i then '', '' else '''') @ x @ t" by (auto simp: andThen_Inr_iff)
  have e: "completes (\<lambda>w. andThen (buf_read start i) (\<lambda>v. put_piece (rec' v) (put_elements rec' start (i + 1) n) w)) (x @ t)"
    using completes_piece [OF assms(1) [OF v(2)] Suc.IH [OF v(3)]] by (simp add: v(1))
  show ?case
    by (cases "0 < i") (use e completes_text [OF e, of "'', ''"] v(4) in \<open>auto simp: Let_def\<close>)
qed

lemma writes_vec:
  assumes "\<And>v s. rec v = Inr s \<Longrightarrow> writes (rec' v) s" and "vec_text rec v = Inr s"
  shows "writes (snprintf_vec rec' v) s"
proof -
  obtain t where t: "elements_text rec (v_start v) 0 (vec_len v) = Inr t" "s = ''Vec{'' @ t"
    using assms(2) by (auto simp: vec_text_def andThen_Inr_iff)
  have "completes (put_elements rec' (v_start v) 0 (vec_len v)) t" by (rule completes_elements [OF assms(1) t(1)])
  from completes_writes [OF completes_text [OF this, of "''Vec{''"]] show ?thesis
    unfolding t(2) by (auto simp: writes_def snprintf_vec_def)
qed

lemma writes_pair:
  assumes "writes (rec (pr_first p)) s" and "writes (rec (pr_second p)) t"
  shows "writes (snprintf_pair rec p) (''Pair<'' @ s @ '', '' @ t @ ''>'')"
proof -
  have "completes (put_text ''>'' end_text) ''>''" using completes_text [OF completes_end, of "''>''"] by simp
  from completes_writes [OF completes_text [OF completes_piece [OF assms(1) completes_text [OF completes_piece [OF assms(2) this], of "'', ''"]],
      of "''Pair<''"]] show ?thesis
    by (auto simp: writes_def snprintf_pair_def)
qed

lemma writes_fn: "writes (snprintf_fn f) (fn_text f)"
  using writes_snprintf by (simp add: snprintf_fn_def [abs_def])

lemma writes_closure: "closure_text h c = Inr s \<Longrightarrow> writes (snprintf_closure h c) s"
  using writes_snprintf by (auto simp: closure_text_def snprintf_closure_def [abs_def] snprintf_fn_def andThen_Inr_iff)

lemma writes_instance:
  assumes "\<And>v s. rec v = Inr s \<Longrightarrow> writes (rec' v) s" and "instance_text rec h x = Inr s"
  shows "writes (snprintf_instance rec' h x) s"
proof -
  obtain c where c: "get_class h (in_klass x) = Inr c" using assms(2) by (auto simp: instance_text_def andThen_Inr_iff)
  show ?thesis
  proof (cases "c_string (cls_name c) = ''Vec''")
    case True
    then obtain d v where "hashmap_get hash_string (in_fields x) ''_data'' = Inr d" "as_vec_data h d = Inr v" "vec_text rec v = Inr s"
      using assms(2) c by (auto simp: instance_text_def andThen_Inr_iff)
    then show ?thesis using c True writes_vec [OF assms(1)] by (auto simp: snprintf_instance_def [abs_def])
  next
    case False
    then show ?thesis using c assms(2) writes_snprintf by (auto simp: snprintf_instance_def [abs_def] instance_text_def)
  qed
qed

lemma writes_object:
  assumes "\<And>v s. rec v = Inr s \<Longrightarrow> writes (rec' v) s" and "object_text rec h r = Inr s"
  shows "writes (snprintf_object rec' h r) s"
proof (cases r)
  case (StrRef x)
  then show ?thesis using assms(2) writes_snprintf by (simp add: object_text_def snprintf_object_def [abs_def])
next
  case (ObjRef a)
  then obtain ob where ob: "h_objs h a = Some ob" using assms(2) by (auto simp: object_text_def split: option.splits)
  note [simp] = object_text_def snprintf_object_def [abs_def] ObjRef ob
  show ?thesis
  proof (cases ob)
    case (OUpvalue u)
    then show ?thesis using assms by simp
  next
    case (OInstance x)
    then show ?thesis using assms(2) writes_instance [OF assms(1)] by simp
  next
    case (OVec v)
    then show ?thesis using assms(2) writes_vec [OF assms(1)] by simp
  next
    case (OPair p)
    then show ?thesis using assms(2) writes_pair [OF assms(1) assms(1)] by (auto simp: andThen_Inr_iff)
  qed (use assms(2) writes_snprintf writes_fn writes_closure in \<open>auto simp: andThen_Inr_iff\<close>)
qed

lemma snprintf_value_writes: "value_text k F h v = Inr s \<Longrightarrow> writes (snprintf_value k F h v) s"
proof (induction k arbitrary: v s)
  case (Suc k)
  show ?case
  proof (cases v)
    case (VObject r)
    then show ?thesis using Suc.prems writes_object [OF Suc.IH] by simp
  qed (use Suc.prems writes_snprintf in auto)
qed simp


subsection \<open>A limited buffer makes printing end\<close>

text \<open>
  A vector or a pair writes at least four characters before it comes to a value in it, so the nesting is
  bounded by the size of the buffer, even where a vector contains itself. An upvalue, which never is a value
  of a program, would pass the whole size on.
\<close>

definition printable :: "heap \<Rightarrow> bool" where
  "printable h \<longleftrightarrow> (\<forall>a ob. h_objs h a = Some ob \<longrightarrow>
     (case ob of OUpvalue _ \<Rightarrow> False | OInstance x \<Rightarrow> hm_wf hash_string (in_fields x) | _ \<Rightarrow> True))"

definition comes_back :: "'a outcome \<Rightarrow> bool" where
  "comes_back r \<longleftrightarrow> r \<noteq> Inl Diverge"

lemma comes_back_simps [simp]:
  "comes_back (Inr x)" "comes_back (Inl (Panic s))" "comes_back (Inl (Undefined s))"
  by (simp_all add: comes_back_def)

lemma comes_back_then: "comes_back m \<Longrightarrow> (\<And>x. m = Inr x \<Longrightarrow> comes_back (f x)) \<Longrightarrow> comes_back (andThen m f)"
  by (cases m) (auto simp: comes_back_def)

lemma comes_back_reads [simp]:
  "comes_back (get_fn h a)" "comes_back (get_class h a)" "comes_back (get_closure h a)" "comes_back (get_enum h a)"
  "comes_back (as_vec_data h v)" "comes_back (buf_read b i)" "comes_back (snprintf room s)"
  by (auto simp: comes_back_def get_fn_def get_class_def get_closure_def get_enum_def as_vec_data_def get_vec_def buf_read_def snprintf_def
    split: option.splits obj.splits jvalue.splits objref.splits)

definition ends_below :: "nat \<Rightarrow> (writing \<Rightarrow> (string \<times> nat) outcome) \<Rightarrow> bool" where
  "ends_below n next \<longleftrightarrow> (\<forall>acc total remaining. remaining \<le> n \<longrightarrow> comes_back (next (acc, total, remaining)))"

lemma ends_end: "ends_below n end_text"
  by (simp add: ends_below_def end_text_def)

lemma ends_piece: "(\<And>room. room \<le> n \<Longrightarrow> comes_back (f room)) \<Longrightarrow> ends_below n next \<Longrightarrow> ends_below n (put_piece f next)"
  by (auto simp: ends_below_def put_piece_def intro!: comes_back_then)

lemma ends_text: "ends_below (n - length s) next \<Longrightarrow> ends_below n (put_text s next)"
  by (auto simp: ends_below_def put_text_def put_piece_def snprintf_def)

lemma ends_mono: "ends_below n next \<Longrightarrow> m \<le> n \<Longrightarrow> ends_below m next"
  by (auto simp: ends_below_def)

lemma ends_elements:
  assumes "\<And>v room. room \<le> n \<Longrightarrow> comes_back (rec v room)"
  shows "ends_below n (put_elements rec start i left)"
proof (induction left arbitrary: i)
  case 0
  then show ?case using ends_text [OF ends_end] by simp
next
  case (Suc left)
  have e: "ends_below n (\<lambda>w. andThen (buf_read start i) (\<lambda>v. put_piece (rec v) (put_elements rec start (i + 1) left) w))"
    using ends_piece [OF assms Suc.IH] by (auto simp: ends_below_def intro!: comes_back_then)
  show ?case
    by (cases "0 < i") (use e ends_text [OF ends_mono [OF e], of n "'', ''"] in \<open>auto simp: Let_def\<close>)
qed

lemma ends_vec: "(\<And>v r. r < room \<Longrightarrow> comes_back (rec v r)) \<Longrightarrow> comes_back (snprintf_vec rec v room)"
  using ends_text [OF ends_elements, of room "''Vec{''" rec "v_start v" 0 "vec_len v"]
  by (auto simp: snprintf_vec_def ends_below_def)

lemma ends_pair: "(\<And>v r. r < room \<Longrightarrow> comes_back (rec v r)) \<Longrightarrow> comes_back (snprintf_pair rec p room)"
proof (cases "room = 0")
  case False
  assume r: "\<And>v r. r < room \<Longrightarrow> comes_back (rec v r)"
  have le: "comes_back (rec v q)" if "q \<le> room - 5" for v q by (rule r) (use that False in linarith)
  have "ends_below (room - 5) (put_text '', '' (put_piece (rec (pr_second p)) (put_text ''>'' end_text)))"
    by (intro ends_text ends_piece ends_end le) simp
  then have "ends_below (room - length ''Pair<'') (put_piece (rec (pr_first p))
      (put_text '', '' (put_piece (rec (pr_second p)) (put_text ''>'' end_text))))"
    by (intro ends_piece le) (simp_all add: numeral_eq_Suc)
  from ends_text [OF this] False show ?thesis by (simp add: snprintf_pair_def ends_below_def)
qed (simp add: snprintf_pair_def)

lemma ends_object:
  assumes "printable h" and "\<And>v r. r < room \<Longrightarrow> comes_back (rec v r)"
  shows "comes_back (snprintf_object rec h r room)"
proof (cases r)
  case (ObjRef a)
  show ?thesis
  proof (cases "h_objs h a")
    case (Some ob)
    note [simp] = snprintf_object_def ObjRef Some
    note vec = ends_vec [of room rec, OF assms(2)]
    show ?thesis
    proof (cases ob)
      case (OInstance x)
      then have "hm_wf hash_string (in_fields x)" using assms(1) [unfolded printable_def, rule_format, of a ob] by simp
      then have "comes_back (hashmap_get hash_string (in_fields x) k)" for k by (simp add: hashmap_get_map)
      then show ?thesis using OInstance vec by (auto simp: snprintf_instance_def intro!: comes_back_then)
    next
      case (OPair p)
      then show ?thesis using ends_pair [of room rec, OF assms(2)] by simp
    next
      case (OUpvalue u)
      then show ?thesis using assms(1) [unfolded printable_def, rule_format, of a ob] by simp
    qed (use vec in \<open>auto simp: snprintf_closure_def snprintf_fn_def intro!: comes_back_then\<close>)
  qed (simp add: snprintf_object_def ObjRef)
qed (simp add: snprintf_object_def)

lemma snprintf_value_ends: "printable h \<Longrightarrow> room < k \<Longrightarrow> comes_back (snprintf_value k F h v room)"
proof (induction k arbitrary: v room)
  case (Suc k)
  have "comes_back (snprintf_object (snprintf_value k F h) h r room)" for r
    by (rule ends_object [OF Suc.prems(1)]) (use Suc in auto)
  then show ?case by (cases v) simp_all
qed simp

subsection \<open>Properties\<close>

text \<open>
  C26: Printing into a buffer gives the beginning of the text. For a value whose text is \<open>s\<close>, nested vectors,
  pairs and instances of Vec included, \<open>snprintf_value\<close> with a buffer of at least one byte stores exactly the
  first \<open>room - 1\<close> characters of \<open>s\<close>, never more than the buffer holds; its result is the length of \<open>s\<close> when all
  of it fits, and no less than the number of characters stored otherwise.
\<close>

theorem snprintf_value_prefix:
  assumes "value_text k F h v = Inr s" and "0 < room"
  shows "\<exists>w. snprintf_value k F h v room = Inr (take (room - 1) s, w) \<and>
    (if length s < room then w = length s else room - 1 \<le> w)"
  using snprintf_value_writes [OF assms(1)] assms(2) unfolding writes_def by blast

definition plain_format :: text_format where
  "plain_format = \<lparr>tf_float = (\<lambda>_ _. ''0.00''), tf_pointer = (\<lambda>_. ''0x0''), tf_location = (\<lambda>_. ''0x0'')\<rparr>"

text \<open>A pair of a vector and a string; a vector that contains itself.\<close>

definition text_heap :: heap where
  "text_heap = \<lparr>h_objs = [0 \<mapsto> OVec \<lparr>v_start = [Some (VI32 1), Some (VBool True)], v_finish = 2\<rparr>,
      1 \<mapsto> OPair \<lparr>pr_first = VObject (ObjRef 0), pr_second = VObject (StrRef ''ab'')\<rparr>,
      2 \<mapsto> OVec \<lparr>v_start = [Some (VObject (ObjRef 2))], v_finish = 1\<rparr>], h_next = 3\<rparr>"

lemma text_heap_pair:
  "value_text 3 plain_format text_heap (VObject (ObjRef 1)) = Inr ''Pair<Vec{1, true}, ab>''"
  by (simp add: numeral_3_eq_3 numeral_2_eq_2 object_text_def text_heap_def vec_text_def vec_len_def buf_read_def int_text_def digits.simps c_string_def)

theorem snprintf_value_prefix_witness:
  "\<exists>w. snprintf_value 3 plain_format text_heap (VObject (ObjRef 1)) 12 = Inr (''Pair<Vec{1,'', w) \<and> 11 \<le> w"
  using snprintf_value_prefix [OF text_heap_pair, of 12] by simp


lemma text_heap_printable: "printable text_heap"
  by (auto simp: printable_def text_heap_def split: if_splits)


lemma print_itself_diverges: "print_value k plain_format text_heap (VObject (ObjRef 2)) = Inl Diverge"
  by (induction k) (simp_all add: print_object_def text_heap_def print_vec_def vec_len_def vec_get_def buf_read_def)


end
