(* ===== verification/Joker_Stdio.thy ===== *)
theory Joker_Stdio
  imports Joker_Text
begin

text \<open>
  The natives \<open>print\<close> and \<open>println\<close> (src/native/src/stdio.c): a format string with escapes and conversions, written
  to a buffer of 2048 bytes and then to the standard output. The result here is what is printed; the value
  the native returns is always null. An argument is first written to a buffer of 256 bytes by \<open>snprintf_value\<close>.
\<close>

subsection \<open>The code\<close>

definition output_max :: nat where
  "output_max = 2047"

definition elem_room :: nat where
  "elem_room = 256"

definition escape_char :: "char \<Rightarrow> char" where
  "escape_char c =
     (if c = CHR ''n'' then CHR 0x0A else if c = CHR ''t'' then CHR 0x09 else if c = CHR ''r'' then CHR 0x0D
      else if c = CHR ''0'' then CHR 0x00 else c)"

definition SAFE_WRITE :: "string \<Rightarrow> string \<Rightarrow> string outcome" where
  "SAFE_WRITE output s =
     (if output_max \<le> length output + length s then Inl (Panic ''Output buffer overflow'') else Inr (output @ s))"

text \<open>The checks of the kinds of the argument; a wrong one panics.\<close>

definition accepts :: "char \<Rightarrow> jvalue \<Rightarrow> bool" where
  "accepts spec v \<longleftrightarrow>
     spec = CHR ''b'' \<and> vtype v = VAL_BOOL \<or> spec = CHR ''d'' \<and> (vtype v = VAL_I32 \<or> vtype v = VAL_I64) \<or>
     spec = CHR ''f'' \<and> (vtype v = VAL_F64 \<or> vtype v = VAL_F32) \<or> spec = CHR ''s''"

definition print_argument :: "char \<Rightarrow> jvalue \<Rightarrow> string \<Rightarrow> string \<Rightarrow> nat \<Rightarrow> (string \<times> nat) outcome" where
  "print_argument spec v elem output arg_index =
     (if accepts spec v then andThen (SAFE_WRITE output (c_string elem)) (\<lambda>output. Inr (output, arg_index + 1))
      else if spec = CHR ''%'' then andThen (SAFE_WRITE output ''%'') (\<lambda>output. Inr (output, arg_index))
      else Inl (Panic ''Native::print''))"

fun print_loop :: "value_writer \<Rightarrow> jvalue list \<Rightarrow> string \<Rightarrow> string \<Rightarrow> nat \<Rightarrow> (string \<times> nat) outcome" where
  "print_loop write args [] output arg_index = Inr (output, arg_index)"
| "print_loop write args (c # fmt) output arg_index =
     (if output_max \<le> length output then Inr (output, arg_index)
      else if c = CHR 0x5C then
        (case fmt of [] \<Rightarrow> Inl (Panic ''Incomplete escape sequence'')
         | d # fmt \<Rightarrow> andThen (SAFE_WRITE output [escape_char d]) (\<lambda>output. print_loop write args fmt output arg_index))
      else if c \<noteq> CHR ''%'' then print_loop write args fmt (output @ [c]) arg_index
      else
        (case fmt of [] \<Rightarrow> Inl (Panic ''Incomplete format specifier'')
         | spec # fmt \<Rightarrow>
             if length args \<le> arg_index then Inl (Panic ''Missing argument'')
             else andThen (write (args ! arg_index) elem_room) (\<lambda>(elem, _).
               andThen (print_argument spec (args ! arg_index) elem output arg_index) (\<lambda>(output, arg_index).
                 print_loop write args fmt output arg_index))))"

definition native_print :: "value_writer \<Rightarrow> jvalue list \<Rightarrow> string outcome" where
  "native_print write args =
     (case args of
        VObject (StrRef fmt) # _ \<Rightarrow>
          andThen (print_loop write args fmt [] 1) (\<lambda>(output, arg_index).
            if arg_index \<noteq> length args then Inl (Panic ''Too many arguments'') else Inr (c_string output))
      | _ \<Rightarrow> Inl (Panic ''Native::print''))"

definition native_println :: "value_writer \<Rightarrow> jvalue list \<Rightarrow> string outcome" where
  "native_println write args = andThen (native_print write args) (\<lambda>s. Inr (s @ [CHR 0x0A]))"

subsection \<open>Formats as lists of pieces\<close>

datatype piece = Verbatim char | Escaped char | Percent | Convert char jvalue

fun piece_format :: "piece \<Rightarrow> string" where
  "piece_format (Verbatim c) = [c]"
| "piece_format (Escaped c) = [CHR 0x5C, c]"
| "piece_format Percent = ''%%''"
| "piece_format (Convert spec v) = [CHR ''%'', spec]"

fun piece_argument :: "piece \<Rightarrow> jvalue list" where
  "piece_argument (Convert spec v) = [v]"
| "piece_argument _ = []"

text \<open>The text of a piece, where \<open>txt\<close> gives the text of a value; of that at most 255 characters are shown.\<close>

fun piece_text :: "(jvalue \<Rightarrow> string) \<Rightarrow> piece \<Rightarrow> string" where
  "piece_text txt (Verbatim c) = [c]"
| "piece_text txt (Escaped c) = [escape_char c]"
| "piece_text txt Percent = ''%''"
| "piece_text txt (Convert spec v) = c_string (take (elem_room - 1) (txt v))"

definition format_string :: "piece list \<Rightarrow> string" where
  "format_string ps = concat (map piece_format ps)"

definition arguments :: "piece list \<Rightarrow> jvalue list" where
  "arguments ps = concat (map piece_argument ps)"

definition format_text :: "(jvalue \<Rightarrow> string) \<Rightarrow> piece list \<Rightarrow> string" where
  "format_text txt ps = concat (map (piece_text txt) ps)"

text \<open>Conversions fit their arguments, and a percent sign is followed by a conversion somewhere behind it.\<close>

fun format_ok :: "piece list \<Rightarrow> bool" where
  "format_ok [] = True"
| "format_ok (Verbatim c # ps) = (c \<noteq> CHR 0x5C \<and> c \<noteq> CHR ''%'' \<and> format_ok ps)"
| "format_ok (Escaped c # ps) = format_ok ps"
| "format_ok (Percent # ps) = (arguments ps \<noteq> [] \<and> format_ok ps)"
| "format_ok (Convert spec v # ps) = (accepts spec v \<and> format_ok ps)"

definition gives_text :: "value_writer \<Rightarrow> (jvalue \<Rightarrow> string) \<Rightarrow> jvalue list \<Rightarrow> bool" where
  "gives_text write txt args \<longleftrightarrow> (\<forall>v\<in>set args. \<exists>w. write v elem_room = Inr (take (elem_room - 1) (txt v), w))"

lemma format_simps [simp]:
  "format_string [] = []" "format_string (p # ps) = piece_format p @ format_string ps"
  "arguments [] = []" "arguments (p # ps) = piece_argument p @ arguments ps"
  "format_text txt [] = []" "format_text txt (p # ps) = piece_text txt p @ format_text txt ps"
  by (simp_all add: format_string_def arguments_def format_text_def)

lemma accepts_not_percent: "accepts spec v \<Longrightarrow> spec \<noteq> CHR ''%''"
  by (auto simp: accepts_def)

lemma not_accepts_percent: "\<not> accepts (CHR ''%'') v"
  by (simp add: accepts_def)

lemma print_loop_pieces:
  assumes "gives_text write txt (arguments ps)" and "format_ok ps" and "drop n args = arguments ps" and "n \<le> length args"
    and "length buf + length (format_text txt ps) < output_max"
  shows "print_loop write args (format_string ps) buf n = Inr (buf @ format_text txt ps, length args)"
  using assms
proof (induction ps arbitrary: buf n)
  case (Cons p ps)
  have room: "length buf < output_max" using Cons.prems(5) by linarith
  have rest: "gives_text write txt (arguments ps)" using Cons.prems(1) by (simp add: gives_text_def)
  have arg: "\<exists>w. write (args ! n) elem_room = Inr (take (elem_room - 1) (txt (args ! n)), w) \<and> n < length args"
    if "arguments (p # ps) \<noteq> []"
  proof -
    have n: "n < length args" using that Cons.prems(3) by (cases "n < length args") auto
    then have "args ! n \<in> set (arguments (p # ps))"
      using Cons.prems(3) by (metis hd_drop_conv_nth hd_in_set that)
    then show ?thesis using Cons.prems(1) n by (auto simp: gives_text_def)
  qed
  show ?case
  proof (cases p)
    case (Verbatim c)
    then show ?thesis using Cons.IH [OF rest, of n "buf @ [c]"] Cons.prems room by simp
  next
    case (Escaped c)
    then show ?thesis using Cons.IH [OF rest, of n "buf @ [escape_char c]"] Cons.prems room by (simp add: SAFE_WRITE_def)
  next
    case Percent
    then obtain w where w: "write (args ! n) elem_room = Inr (take (elem_room - 1) (txt (args ! n)), w)" "n < length args"
      using arg Cons.prems(2) by auto
    then show ?thesis using Percent Cons.IH [OF rest, of n "buf @ ''%''"] Cons.prems room
      by (simp add: SAFE_WRITE_def print_argument_def not_accepts_percent)
  next
    case (Convert spec v)
    then obtain w where w: "write (args ! n) elem_room = Inr (take (elem_room - 1) (txt (args ! n)), w)" "n < length args"
      using arg by auto
    have v: "args ! n = v" "drop (Suc n) args = arguments ps"
      using Cons.prems(3) Convert w(2) by (simp_all add: Cons_nth_drop_Suc [symmetric])
    show ?thesis using Convert w v Cons.IH [OF rest, of "Suc n" "buf @ c_string (take (elem_room - 1) (txt v))"] Cons.prems room
      by (simp add: SAFE_WRITE_def print_argument_def)
  qed
qed simp

subsection \<open>Properties\<close>

text \<open>
  C28: What \<open>print\<close> prints. For a format made of plain characters, escapes, conversions that fit their
  arguments, and percent signs with a conversion behind them, whose text is shorter than 2047 characters,
  \<open>print\<close> with exactly the arguments of the conversions prints the texts of the pieces in order, at most 255
  characters of each argument, up to the first zero byte.
\<close>

theorem native_print_correct:
  assumes "format_ok ps" and "length (format_text txt ps) < output_max"
    and "\<And>v. v \<in> set (arguments ps) \<Longrightarrow> value_text k F h v = Inr (txt v)"
  shows "native_print (snprintf_value k F h) (VObject (StrRef (format_string ps)) # arguments ps) =
    Inr (c_string (format_text txt ps))"
proof -
  let ?args = "VObject (StrRef (format_string ps)) # arguments ps"
  have "\<exists>w. snprintf_value k F h v elem_room = Inr (take (elem_room - 1) (txt v), w)" if "v \<in> set (arguments ps)" for v
    using snprintf_value_writes [OF assms(3) [OF that]] unfolding writes_def by (elim allE [of _ elem_room]) (auto simp: elem_room_def)
  then have "gives_text (snprintf_value k F h) txt (arguments ps)" by (simp add: gives_text_def)
  from print_loop_pieces [OF this assms(1), of 1 ?args "[]"] assms(2) show ?thesis by (simp add: native_print_def)
qed

definition sample_format :: "piece list" where
  "sample_format = [Verbatim CHR ''x'', Verbatim CHR ''='', Convert CHR ''d'' (VI32 42), Verbatim CHR '' '', Percent,
     Convert CHR ''s'' (VObject (ObjRef 1)), Escaped CHR ''n'']"

theorem native_print_correct_witness:
  "native_print (snprintf_value 3 plain_format text_heap)
     [VObject (StrRef (''x=%d %%%s'' @ [CHR 0x5C, CHR ''n''])), VI32 42, VObject (ObjRef 1)] =
   Inr (''x=42 %Pair<Vec{1, true}, ab>'' @ [CHR 0x0A])"
proof -
  define tx where "tx = (\<lambda>v. if v = VI32 42 then ''42'' else ''Pair<Vec{1, true}, ab>'')"
  have args: "arguments sample_format = [VI32 42, VObject (ObjRef 1)]" by (simp add: sample_format_def)
  have fmt: "format_string sample_format = ''x=%d %%%s'' @ [CHR 0x5C, CHR ''n'']" by (simp add: sample_format_def)
  have shown: "format_text tx sample_format = ''x=42 %Pair<Vec{1, true}, ab>'' @ [CHR 0x0A]"
    by (simp add: sample_format_def tx_def c_string_def elem_room_def escape_char_def)
  have "native_print (snprintf_value 3 plain_format text_heap) (VObject (StrRef (format_string sample_format)) # arguments sample_format) =
    Inr (c_string (format_text tx sample_format))"
  proof (rule native_print_correct)
    show "format_ok sample_format" by (simp add: sample_format_def accepts_def)
    show "length (format_text tx sample_format) < output_max" by (simp add: shown output_max_def)
    show "value_text 3 plain_format text_heap v = Inr (tx v)" if "v \<in> set (arguments sample_format)" for v
      using that text_heap_pair by (auto simp: args tx_def numeral_3_eq_3 int_text_def digits.simps)
  qed
  then show ?thesis by (simp add: args fmt shown c_string_def)
qed

text \<open>A percent sign with no conversion behind it panics, so a text cannot end in one.\<close>

lemma print_percent_panics:
  "native_print write [VObject (StrRef ''100%%'')] = Inl (Panic ''Missing argument'')"
  by (simp add: native_print_def output_max_def)

text \<open>A long text without conversions is cut after 2047 characters, without the panic that an escape there causes.\<close>

lemma print_loop_plain:
  "length buf + n \<le> output_max \<Longrightarrow> print_loop write args (replicate n CHR ''x'' @ fmt) buf i =
     print_loop write args fmt (buf @ replicate n CHR ''x'') i"
proof (induction n arbitrary: buf)
  case (Suc n)
  then show ?case using Suc.IH [of "buf @ ''x''"] by (simp add: replicate_app_Cons_same)
qed simp

lemma print_cuts_text:
  "native_print write [VObject (StrRef (replicate 2047 CHR ''x'' @ c # fmt))] = Inr (replicate 2047 CHR ''x'')"
proof -
  have "print_loop write args (replicate output_max CHR ''x'' @ c # fmt) [] 1 = Inr (replicate output_max CHR ''x'', 1)" for args
    using print_loop_plain [of "[]" output_max "write" args "c # fmt" 1] by simp
  moreover have "c_string (replicate n CHR ''x'') = replicate n CHR ''x''" for n by (induction n) (simp_all add: c_string_def)
  ultimately show ?thesis unfolding native_print_def by (simp add: output_max_def)
qed

end
