(* ===== verification/Joker_Debug.thy ===== *)
theory Joker_Debug
  imports Joker_Text
begin

text \<open>
  The disassembler (src/debug.c): the listing of a chunk, one instruction after the other. The result is what
  is printed to the standard output; warnings go to the standard error and are left out. The switch over the
  instruction is given by two tables, the name and the function that prints the operands.
\<close>

subsection \<open>Formats\<close>

definition pad_left :: "nat \<Rightarrow> char \<Rightarrow> string \<Rightarrow> string" where
  "pad_left n c s = replicate (n - length s) c @ s"

definition pad_right :: "nat \<Rightarrow> string \<Rightarrow> string" where
  "pad_right n s = s @ replicate (n - length s) CHR '' ''"

definition d4 :: "int \<Rightarrow> string" where
  "d4 i = pad_left 4 CHR '' '' (int_text i)"

definition offset_text :: "nat \<Rightarrow> string" where
  "offset_text offset = pad_left 4 CHR ''0'' (int_text (int offset))"

definition name_text :: "string \<Rightarrow> string" where
  "name_text s = pad_right 16 s"

definition newline :: string where
  "newline = [CHR 0x0A]"

subsection \<open>The switch\<close>

datatype layout =
  simple_instruction | constant_instruction | constant_long_instruction | byte_instruction | jump_instruction int
  | closure_instruction | invoke_instruction | args_instruction

text \<open>\<open>None\<close> is the default of the switch.\<close>

fun op_layout :: "op_code \<Rightarrow> (string \<times> layout) option" where
  "op_layout op_pop = Some (''op_pop'', simple_instruction)"
| "op_layout op_dup = Some (''op_dup'', simple_instruction)"
| "op_layout op_constant = Some (''op_constant'', constant_instruction)"
| "op_layout op_constant_long = Some (''op_constant_long'', constant_long_instruction)"
| "op_layout op_value = Some (''op_value'', simple_instruction)"
| "op_layout op_none = Some (''op_none'', simple_instruction)"
| "op_layout op_true = Some (''op_true'', simple_instruction)"
| "op_layout op_false = Some (''op_false'', simple_instruction)"
| "op_layout op_not = Some (''op_not'', simple_instruction)"
| "op_layout op_negate = Some (''op_negate'', simple_instruction)"
| "op_layout op_equal = Some (''op_equal'', simple_instruction)"
| "op_layout op_not_equal = Some (''op_not_equal'', simple_instruction)"
| "op_layout op_less = Some (''op_less'', simple_instruction)"
| "op_layout op_greater = Some (''op_greater'', simple_instruction)"
| "op_layout op_greater_equal = Some (''op_greater_equal'', simple_instruction)"
| "op_layout op_add = Some (''op_add'', simple_instruction)"
| "op_layout op_subtract = Some (''op_subtract'', simple_instruction)"
| "op_layout op_multiply = Some (''op_multiply'', simple_instruction)"
| "op_layout op_divide = Some (''op_divide'', simple_instruction)"
| "op_layout op_define_global = Some (''op_define_global'', constant_instruction)"
| "op_layout op_get_global = Some (''op_get_global'', constant_instruction)"
| "op_layout op_set_global = Some (''op_set_global'', constant_instruction)"
| "op_layout op_get_local = Some (''op_get_local'', byte_instruction)"
| "op_layout op_set_local = Some (''op_set_local'', byte_instruction)"
| "op_layout op_get_upvalue = Some (''op_get_upvalue'', byte_instruction)"
| "op_layout op_set_upvalue = Some (''op_set_upvalue'', byte_instruction)"
| "op_layout op_get_property = Some (''op_get_property'', constant_instruction)"
| "op_layout op_set_property = Some (''op_set_property'', constant_instruction)"
| "op_layout op_get_super = Some (''op_get_super'', constant_instruction)"
| "op_layout op_get_layer_property = Some (''op_get_layer_property'', constant_instruction)"
| "op_layout op_jump_if_false = Some (''op_jump_if_false'', jump_instruction 1)"
| "op_layout op_jump_if_neq = Some (''op_jump_if_neq'', jump_instruction 1)"
| "op_layout op_jump = Some (''op_jump'', jump_instruction 1)"
| "op_layout op_loop = Some (''op_loop'', jump_instruction (- 1))"
| "op_layout op_call = Some (''op_call'', byte_instruction)"
| "op_layout op_closure = Some (''op_closure'', closure_instruction)"
| "op_layout op_close_upvalue = Some (''op_close_upvalue'', simple_instruction)"
| "op_layout op_print = Some (''op_print'', simple_instruction)"
| "op_layout op_return = Some (''op_return'', simple_instruction)"
| "op_layout op_break = Some (''op_break'', jump_instruction 1)"
| "op_layout op_continue = Some (''op_continue'', jump_instruction (- 1))"
| "op_layout op_match = Some (''op_match'', jump_instruction 1)"
| "op_layout op_class = Some (''op_class'', constant_instruction)"
| "op_layout op_method = Some (''op_method'', constant_instruction)"
| "op_layout op_inherit = Some (''op_inherit'', simple_instruction)"
| "op_layout op_invoke = Some (''op_invoke'', invoke_instruction)"
| "op_layout op_super_invoke = Some (''op_super_invoke'', invoke_instruction)"
| "op_layout op_struct = Some (''op_struct'', constant_instruction)"
| "op_layout op_member = Some (''op_member'', constant_instruction)"
| "op_layout op_struct_inherit = Some (''op_struct_inherit'', simple_instruction)"
| "op_layout op_enum = Some (''op_enum'', constant_instruction)"
| "op_layout op_enum_define_member = Some (''op_enum_define_member'', constant_instruction)"
| "op_layout op_enum_get_member = Some (''op_enum_get_member'', constant_instruction)"
| "op_layout op_enum_member_bind = Some (''op_enum_member_bind'', args_instruction)"
| "op_layout op_enum_member_match = Some (''op_enum_member_match'', simple_instruction)"
| "op_layout op_layer_property_call = Some (''op_layer_property_call'', invoke_instruction)"
| "op_layout op_vector_new = Some (''op_vector_new'', constant_instruction)"
| "op_layout op_vector_get = Some (''op_vector_get'', simple_instruction)"
| "op_layout op_vector_set = Some (''op_vector_set'', simple_instruction)"
| "op_layout _ = None"

subsection \<open>Operands\<close>

definition code_byte :: "chunk \<Rightarrow> nat \<Rightarrow> nat outcome" where
  "code_byte ck offset = andThen (buf_read (ck_code ck) offset) (\<lambda>b. Inr (unat b))"

definition code_short :: "chunk \<Rightarrow> nat \<Rightarrow> nat outcome" where
  "code_short ck offset = andThen (buf_read (ck_code ck) offset) (\<lambda>a. andThen (buf_read (ck_code ck) (offset + 1)) (\<lambda>b.
     Inr (unat a * 256 + unat b)))"

definition print_constant :: "value_printer \<Rightarrow> chunk \<Rightarrow> nat \<Rightarrow> string outcome" where
  "print_constant pv ck i = andThen (value_at (ck_constants ck) i) pv"

text \<open>The lines of the upvalues of a closure, with \<open>n\<close> of them left.\<close>

primrec upvalue_lines :: "nat \<Rightarrow> chunk \<Rightarrow> nat \<Rightarrow> (string \<times> nat) outcome" where
  "upvalue_lines 0 ck offset = Inr ('''', offset)"
| "upvalue_lines (Suc n) ck offset =
     andThen (code_byte ck offset) (\<lambda>b. andThen (upvalue_lines n ck (offset + 1)) (\<lambda>(s, next).
       Inr (offset_text offset @ ''      |                     '' @ (if 128 \<le> b then ''local'' else ''upvalue'') @ '' '' @
         int_text (int (b mod 128)) @ newline @ s, next)))"

primrec bind_lines :: "nat \<Rightarrow> value_printer \<Rightarrow> chunk \<Rightarrow> nat \<Rightarrow> nat \<Rightarrow> string outcome" where
  "bind_lines 0 pv ck offset i = Inr ''''"
| "bind_lines (Suc n) pv ck offset i =
     andThen (code_byte ck (offset + 2 + i)) (\<lambda>b. andThen (print_constant pv ck b) (\<lambda>s.
     andThen (bind_lines n pv ck offset (i + 1)) (\<lambda>t.
       Inr (offset_text offset @ ''      |                     '' @ int_text (int b) @ ''    '' @ s @ newline @ t))))"

definition constant_fn :: "heap \<Rightarrow> chunk \<Rightarrow> nat \<Rightarrow> fn_obj outcome" where
  "constant_fn h ck i = andThen (value_at (ck_constants ck) i) (\<lambda>v.
     case v of VObject (ObjRef a) \<Rightarrow> get_fn h a | _ \<Rightarrow> Inl (Undefined ''not a Fn''))"

fun operands :: "layout \<Rightarrow> string \<Rightarrow> value_printer \<Rightarrow> heap \<Rightarrow> chunk \<Rightarrow> nat \<Rightarrow> (string \<times> nat) outcome" where
  "operands simple_instruction name pv h ck offset = Inr (name_text name @ newline, offset + 1)"
| "operands constant_instruction name pv h ck offset =
     andThen (code_byte ck (offset + 1)) (\<lambda>i. andThen (print_constant pv ck i) (\<lambda>s.
       Inr (name_text name @ '' '' @ d4 (int i) @ '' '' @ [CHR 0x27] @ s @ [CHR 0x27] @ newline, offset + 2)))"
| "operands constant_long_instruction name pv h ck offset =
     andThen (code_short ck (offset + 1)) (\<lambda>i. andThen (print_constant pv ck i) (\<lambda>s.
       Inr (name_text name @ '' '' @ d4 (int i) @ '' '' @ [CHR 0x27] @ s @ [CHR 0x27] @ newline, offset + 3)))"
| "operands byte_instruction name pv h ck offset =
     andThen (code_byte ck (offset + 1)) (\<lambda>slot. Inr (name_text name @ '' '' @ d4 (int slot) @ newline, offset + 2))"
| "operands (jump_instruction sign) name pv h ck offset =
     andThen (code_short ck (offset + 1)) (\<lambda>jump.
       Inr (name_text name @ '' '' @ d4 (sign * int jump) @ '' -> '' @ int_text (int offset + 3 + sign * int jump) @ newline, offset + 3))"
| "operands closure_instruction name pv h ck offset =
     andThen (code_byte ck (offset + 1)) (\<lambda>i. andThen (print_constant pv ck i) (\<lambda>s. andThen (constant_fn h ck i) (\<lambda>fn.
     andThen (upvalue_lines (fn_upvalue_count fn) ck (offset + 2)) (\<lambda>(t, next).
       Inr (name_text name @ '' '' @ d4 (int i) @ '' '' @ s @ newline @ t, next)))))"
| "operands invoke_instruction name pv h ck offset =
     andThen (code_byte ck (offset + 1)) (\<lambda>i. andThen (code_byte ck (offset + 2)) (\<lambda>n. andThen (print_constant pv ck i) (\<lambda>s.
       Inr (name_text name @ '' ('' @ int_text (int n) @ '' args) '' @ d4 (int i) @ '' '' @ [CHR 0x27] @ s @ [CHR 0x27] @ newline, offset + 3))))"
| "operands args_instruction name pv h ck offset =
     andThen (code_byte ck (offset + 1)) (\<lambda>n. andThen (bind_lines n pv ck offset 0) (\<lambda>s.
       Inr (name_text name @ '' ('' @ int_text (int n) @ '' args)'' @ newline @ s, offset + 2 + n)))"

subsection \<open>Instructions and chunks\<close>

definition line_text :: "chunk \<Rightarrow> nat \<Rightarrow> string outcome" where
  "line_text ck offset =
     andThen (get_rle_line (ck_lines ck) (int offset)) (\<lambda>line.
       if offset = 0 then Inr (d4 line @ '' '')
       else andThen (get_rle_line (ck_lines ck) (int offset - 1)) (\<lambda>before.
         Inr (if line = before then ''   | '' else d4 line @ '' '')))"

definition disassemble_instruction :: "value_printer \<Rightarrow> heap \<Rightarrow> chunk \<Rightarrow> nat \<Rightarrow> (string \<times> nat) outcome" where
  "disassemble_instruction pv h ck offset =
     andThen (line_text ck offset) (\<lambda>l. andThen (buf_read (ck_code ck) offset) (\<lambda>b.
     andThen
       (case Option.bind (op_of_byte b) op_layout of
          None \<Rightarrow> Inr ('''', offset + 1)
        | Some (name, layout) \<Rightarrow> operands layout name pv h ck offset)
       (\<lambda>(s, next). Inr (offset_text offset @ '' '' @ l @ s, next))))"

lemma upvalue_lines_next: "upvalue_lines n ck offset = Inr (s, next) \<Longrightarrow> next = offset + n"
proof (induction n arbitrary: offset s "next")
  case (Suc n)
  then obtain t where "upvalue_lines n ck (offset + 1) = Inr (t, next)" by (auto simp: andThen_Inr_iff)
  from Suc.IH [OF this] show ?case by simp
qed simp

lemma operands_next: "operands l name pv h ck offset = Inr (s, next) \<Longrightarrow> offset < next"
  by (cases l) (auto simp: andThen_Inr_iff dest: upvalue_lines_next)

lemma disassemble_instruction_next: "disassemble_instruction pv h ck offset = Inr (s, next) \<Longrightarrow> offset < next"
  by (auto simp: disassemble_instruction_def andThen_Inr_iff dest: operands_next split: option.splits prod.splits)

text \<open>Each instruction moves on, so the listing ends.\<close>

function disassemble_from :: "value_printer \<Rightarrow> heap \<Rightarrow> chunk \<Rightarrow> nat \<Rightarrow> string outcome" where
  "disassemble_from pv h ck offset =
     (if offset < ck_count ck
      then andThen (disassemble_instruction pv h ck offset) (\<lambda>r.
        andThen (disassemble_from pv h ck (snd r)) (\<lambda>t. Inr (fst r @ t)))
      else Inr '''')"
  by pat_completeness auto
termination
  by (relation "measure (\<lambda>(pv, h, ck, offset). ck_count ck - offset)")
    (auto dest: disassemble_instruction_next intro!: diff_less_mono2)

declare disassemble_from.simps [simp del]

definition disassemble_chunk :: "value_printer \<Rightarrow> heap \<Rightarrow> chunk \<Rightarrow> string \<Rightarrow> string outcome" where
  "disassemble_chunk pv h ck name =
     andThen (disassemble_from pv h ck 0) (\<lambda>s. Inr (''== '' @ c_string name @ '' =='' @ newline @ s))"

subsection \<open>Instruction boundaries\<close>

text \<open>
  An instruction is an operation with the bytes of its operands. \<open>operands_ok\<close> are the operands the listing
  expects: as many bytes as the layout says, and constants within the table.
\<close>

type_synonym instr = "op_code \<times> u8 list"

fun operands_ok :: "heap \<Rightarrow> chunk \<Rightarrow> layout \<Rightarrow> u8 list \<Rightarrow> bool" where
  "operands_ok h ck simple_instruction bs = (bs = [])"
| "operands_ok h ck constant_instruction bs = (\<exists>i. bs = [i] \<and> unat i < length (va_list (ck_constants ck)))"
| "operands_ok h ck constant_long_instruction bs =
     (\<exists>i j. bs = [i, j] \<and> unat i * 256 + unat j < length (va_list (ck_constants ck)))"
| "operands_ok h ck byte_instruction bs = (length bs = 1)"
| "operands_ok h ck (jump_instruction sign) bs = (length bs = 2)"
| "operands_ok h ck closure_instruction bs =
     (\<exists>i infos fn. bs = i # infos \<and> unat i < length (va_list (ck_constants ck)) \<and>
        constant_fn h ck (unat i) = Inr fn \<and> length infos = fn_upvalue_count fn)"
| "operands_ok h ck invoke_instruction bs = (\<exists>i n. bs = [i, n] \<and> unat i < length (va_list (ck_constants ck)))"
| "operands_ok h ck args_instruction bs =
     (\<exists>n is. bs = n # is \<and> length is = unat n \<and> (\<forall>i\<in>set is. unat i < length (va_list (ck_constants ck))))"

definition instr_ok :: "heap \<Rightarrow> chunk \<Rightarrow> instr \<Rightarrow> bool" where
  "instr_ok h ck x \<longleftrightarrow> (case op_layout (fst x) of None \<Rightarrow> snd x = [] | Some (name, l) \<Rightarrow> operands_ok h ck l (snd x))"

definition encode :: "instr \<Rightarrow> u8 list" where
  "encode x = op_byte (fst x) # snd x"

definition assembled :: "instr list \<Rightarrow> u8 list" where
  "assembled is = concat (map encode is)"

definition start_of :: "instr list \<Rightarrow> nat \<Rightarrow> nat" where
  "start_of is k = length (assembled (take k is))"

text \<open>What is expected at the front of the line of an instruction.\<close>

definition line_of :: "nat \<Rightarrow> op_code \<Rightarrow> string \<Rightarrow> bool" where
  "line_of offset op s \<longleftrightarrow> (\<exists>l t. s = offset_text offset @ '' '' @ l @ t \<and>
     (case op_layout op of None \<Rightarrow> t = '''' | Some (name, _) \<Rightarrow> take (length (name_text name)) t = name_text name))"

definition holds_code :: "chunk \<Rightarrow> nat \<Rightarrow> u8 list \<Rightarrow> bool" where
  "holds_code ck offset bs \<longleftrightarrow> (\<forall>i<length bs. buf_read (ck_code ck) (offset + i) = Inr (bs ! i))"

lemma all_less_Suc_split: "(\<forall>i<Suc n. P i) \<longleftrightarrow> P 0 \<and> (\<forall>i<n. P (Suc i))"
  by (metis Suc_less_eq not0_implies_Suc zero_less_Suc)

lemma holds_code_Cons [simp]:
  "holds_code ck offset (b # bs) \<longleftrightarrow> buf_read (ck_code ck) offset = Inr b \<and> holds_code ck (offset + 1) bs"
  by (simp add: holds_code_def all_less_Suc_split)

lemma holds_code_Nil [simp]: "holds_code ck offset []"
  by (simp add: holds_code_def)

lemma holds_code_append: "holds_code ck offset (bs @ cs) \<longleftrightarrow> holds_code ck offset bs \<and> holds_code ck (offset + length bs) cs"
  by (induction bs arbitrary: offset) auto

lemma upvalue_lines_run: "holds_code ck offset infos \<Longrightarrow> \<exists>s. upvalue_lines (length infos) ck offset = Inr (s, offset + length infos)"
proof (induction infos arbitrary: offset)
  case (Cons b infos)
  then have "holds_code ck (offset + 1) infos" by simp
  from Cons.IH [OF this] obtain s where "upvalue_lines (length infos) ck (offset + 1) = Inr (s, offset + 1 + length infos)" by blast
  with Cons.prems show ?case by (simp add: code_byte_def)
qed simp

definition prints_all :: "value_printer \<Rightarrow> chunk \<Rightarrow> bool" where
  "prints_all pv ck \<longleftrightarrow> va_wf (ck_constants ck) \<and> (\<forall>v\<in>set (va_list (ck_constants ck)). \<exists>s. pv v = Inr s)"

lemma print_constant_run: "prints_all pv ck \<Longrightarrow> i < length (va_list (ck_constants ck)) \<Longrightarrow> \<exists>s. print_constant pv ck i = Inr s"
  by (simp add: prints_all_def print_constant_def va.get_law)

lemma bind_lines_run:
  assumes "prints_all pv ck" and "holds_code ck (offset + 2 + k) is" and "\<forall>i\<in>set is. unat i < length (va_list (ck_constants ck))"
  shows "\<exists>s. bind_lines (length is) pv ck offset k = Inr s"
  using assms(2,3)
proof (induction "is" arbitrary: k)
  case (Cons b "is")
  have "holds_code ck (offset + 2 + (k + 1)) is" "\<forall>i\<in>set is. unat i < length (va_list (ck_constants ck))"
    using Cons.prems by simp_all
  from Cons.IH [OF this] obtain t where "bind_lines (length is) pv ck offset (k + 1) = Inr t" by blast
  moreover obtain s where "print_constant pv ck (unat b) = Inr s" using print_constant_run [OF assms(1)] Cons.prems(2) by auto
  ultimately show ?case using Cons.prems(1) by (simp add: code_byte_def)
qed simp

lemma take_name [simp]: "take (length (name_text s)) (name_text s @ t) = name_text s"
  by simp

lemma operands_run:
  assumes "prints_all pv ck" and "operands_ok h ck l bs" and "holds_code ck (offset + 1) bs"
  shows "\<exists>s. operands l name pv h ck offset = Inr (s, offset + 1 + length bs) \<and> take (length (name_text name)) s = name_text name"
proof -
  note print = print_constant_run [OF assms(1)]
  show ?thesis
  proof (cases l)
    case constant_instruction
    then obtain i where "bs = [i]" "unat i < length (va_list (ck_constants ck))" using assms(2) by auto
    then show ?thesis using constant_instruction assms(3) print [of "unat i"] by (auto simp: code_byte_def)
  next
    case constant_long_instruction
    then obtain i j where "bs = [i, j]" "unat i * 256 + unat j < length (va_list (ck_constants ck))" using assms(2) by auto
    then show ?thesis using constant_long_instruction assms(3) print [of "unat i * 256 + unat j"] by (auto simp: code_short_def)
  next
    case byte_instruction
    then obtain i where "bs = [i]" using assms(2) by (auto simp: length_Suc_conv)
    then show ?thesis using byte_instruction assms(3) by (auto simp: code_byte_def)
  next
    case (jump_instruction sign)
    then obtain i j where "bs = [i, j]" using assms(2) by (auto simp: length_Suc_conv numeral_2_eq_2)
    then show ?thesis using jump_instruction assms(3) by (auto simp: code_short_def)
  next
    case closure_instruction
    then obtain i infos fn where b: "bs = i # infos" "unat i < length (va_list (ck_constants ck))"
      "constant_fn h ck (unat i) = Inr fn" "length infos = fn_upvalue_count fn" using assms(2) by auto
    then obtain s where "upvalue_lines (length infos) ck (offset + 2) = Inr (s, offset + 2 + length infos)"
      using upvalue_lines_run [of ck "offset + 2" infos] assms(3) by auto
    then show ?thesis using closure_instruction assms(3) b print [of "unat i"] by (auto simp: code_byte_def)
  next
    case invoke_instruction
    then obtain i n where "bs = [i, n]" "unat i < length (va_list (ck_constants ck))" using assms(2) by auto
    then show ?thesis using invoke_instruction assms(3) print [of "unat i"] by (auto simp: code_byte_def)
  next
    case args_instruction
    then obtain n "is" where b: "bs = n # is" "length is = unat n" "\<forall>i\<in>set is. unat i < length (va_list (ck_constants ck))"
      using assms(2) by auto
    then obtain s where "bind_lines (length is) pv ck offset 0 = Inr s"
      using bind_lines_run [OF assms(1), of offset 0 "is"] assms(3) by auto
    then show ?thesis using args_instruction assms(3) b by (auto simp: code_byte_def)
  qed (use assms(2) in simp)
qed

lemma line_text_run:
  assumes "chunk_wf ck" and "offset < ck_count ck"
  shows "\<exists>l. line_text ck offset = Inr l"
proof (cases offset)
  case 0
  then show ?thesis using assms get_rle_line_lines [OF assms(1), of 0] by (simp add: line_text_def)
next
  case (Suc i)
  then have "int offset - 1 = int i" by simp
  then show ?thesis using Suc assms get_rle_line_lines [OF assms(1), of i] get_rle_line_lines [OF assms(1), of offset]
    by (simp add: line_text_def)
qed

lemma disassemble_instruction_run:
  assumes "chunk_wf ck" and "prints_all pv ck" and "offset < ck_count ck" and "instr_ok h ck x" and "holds_code ck offset (encode x)"
  obtains s where "disassemble_instruction pv h ck offset = Inr (s, offset + length (encode x))" and "line_of offset (fst x) s"
proof -
  obtain l where l: "line_text ck offset = Inr l" using line_text_run [OF assms(1,3)] by blast
  have b: "buf_read (ck_code ck) offset = Inr (op_byte (fst x))" "holds_code ck (offset + 1) (snd x)"
    using assms(5) by (simp_all add: encode_def)
  show thesis
  proof (cases "op_layout (fst x)")
    case None
    then have "snd x = []" using assms(4) by (simp add: instr_ok_def)
    with None b l show ?thesis
      by (intro that [of "offset_text offset @ '' '' @ l"])
        (simp_all add: disassemble_instruction_def op_of_byte_op_byte encode_def line_of_def)
  next
    case (Some nl)
    obtain name lay where nl: "nl = (name, lay)" by (cases nl)
    then have "operands_ok h ck lay (snd x)" using assms(4) Some by (simp add: instr_ok_def)
    from operands_run [OF assms(2) this b(2), of name] obtain s where
      s: "operands lay name pv h ck offset = Inr (s, offset + 1 + length (snd x))" "take (length (name_text name)) s = name_text name" by blast
    show ?thesis
    proof (rule that [of "offset_text offset @ '' '' @ l @ s"])
      show "disassemble_instruction pv h ck offset = Inr (offset_text offset @ '' '' @ l @ s, offset + length (encode x))"
        using Some nl b l s by (simp add: disassemble_instruction_def op_of_byte_op_byte encode_def)
      show "line_of offset (fst x) (offset_text offset @ '' '' @ l @ s)"
        unfolding line_of_def using Some nl s(2) by (intro exI [of _ l] exI [of _ s]) simp
    qed
  qed
qed


lemma assembled_simps [simp]:
  "assembled [] = []" "assembled (x # xs) = encode x @ assembled xs" "assembled (xs @ ys) = assembled xs @ assembled ys"
  by (simp_all add: assembled_def)

lemma encode_length: "0 < length (encode x)"
  by (simp add: encode_def)

lemma disassemble_from_run:
  assumes "chunk_wf ck" and "prints_all pv ck" and "chunk_bytes ck = assembled (as @ js)" and "\<forall>x\<in>set js. instr_ok h ck x"
  shows "\<exists>ts. length ts = length js \<and> disassemble_from pv h ck (length (assembled as)) = Inr (concat ts) \<and>
    (\<forall>k<length js. let a = length (assembled as) + start_of js k in
       disassemble_instruction pv h ck a = Inr (ts ! k, length (assembled as) + start_of js (Suc k)) \<and> line_of a (fst (js ! k)) (ts ! k))"
  using assms(3,4)
proof (induction js arbitrary: as)
  case Nil
  then have "ck_count ck = length (assembled as)" using assms(1) by (simp add: chunk_wf_def)
  then show ?case by (simp add: disassemble_from.simps)
next
  case (Cons x js)
  let ?o = "length (assembled as)"
  have bytes: "chunk_bytes ck = assembled as @ encode x @ assembled js" using Cons.prems(1) by simp
  have count: "ck_count ck = length (chunk_bytes ck)" using assms(1) by (simp add: chunk_wf_def)
  then have lt: "?o < ck_count ck" using bytes encode_length [of x] by simp
  have "holds_code ck ?o (encode x)"
    unfolding holds_code_def using code_read [OF assms(1)] count bytes by (simp add: nth_append)
  moreover have "instr_ok h ck x" using Cons.prems(2) by simp
  ultimately obtain s where s: "disassemble_instruction pv h ck ?o = Inr (s, ?o + length (encode x))" "line_of ?o (fst x) s"
    using disassemble_instruction_run [OF assms(1,2) lt] by metis
  have "chunk_bytes ck = assembled ((as @ [x]) @ js)" "\<forall>x\<in>set js. instr_ok h ck x" using Cons.prems by simp_all
  from Cons.IH [OF this] obtain ts where ts: "length ts = length js"
    "disassemble_from pv h ck (length (assembled (as @ [x]))) = Inr (concat ts)"
    "\<forall>k<length js. let a = length (assembled (as @ [x])) + start_of js k in
       disassemble_instruction pv h ck a = Inr (ts ! k, length (assembled (as @ [x])) + start_of js (Suc k)) \<and> line_of a (fst (js ! k)) (ts ! k)"
    by blast
  have "disassemble_from pv h ck ?o = Inr (concat (s # ts))"
    using lt s(1) ts(2) by (subst disassemble_from.simps) simp
  moreover have "let a = ?o + start_of (x # js) k in
      disassemble_instruction pv h ck a = Inr ((s # ts) ! k, ?o + start_of (x # js) (Suc k)) \<and> line_of a (fst ((x # js) ! k)) ((s # ts) ! k)"
    if "k < length (x # js)" for k
    using that s ts(3) by (cases k) (auto simp: start_of_def Let_def add.assoc)
  ultimately show ?case using ts(1) by (intro exI [of _ "s # ts"]) simp
qed

subsection \<open>Properties\<close>


definition two_instrs :: "instr list" where
  "two_instrs = [(op_true, []), (op_loop, [0, 4])]"


end
