(* ===== verification/Joker_Listing.thy ===== *)
theory Joker_Listing
  imports Joker_Debug Joker_Interpret
begin

text \<open>
  The compiler and the disassembler together: the code of a program is a sequence of instructions, and its
  listing shows them.
\<close>

primrec expr_instrs :: "expr \<Rightarrow> nat \<Rightarrow> instr list" where
  "expr_instrs (Literal t) k = [(literal_op t, if has_constant t then [of_nat k] else [])]"
| "expr_instrs (Unary t a) k = expr_instrs a k @ [(if tk_type t = token_not then op_not else op_negate, [])]"
| "expr_instrs (Binary a t b) k =
     expr_instrs a k @ expr_instrs b (k + length (expr_consts a)) @ [(the (binary_op (tk_type t)), [])]"
| "expr_instrs (Paren l a r) k = expr_instrs a k"

primrec decl_instrs :: "global_decl \<Rightarrow> nat \<Rightarrow> instr list" where
  "decl_instrs (Declare v x a e s) k = expr_instrs e (Suc k) @ [(op_define_global, [of_nat k])]"

primrec program_instrs :: "global_decl list \<Rightarrow> nat \<Rightarrow> instr list" where
  "program_instrs [] k = [(op_return, [])]"
| "program_instrs (d # ds) k = decl_instrs d k @ program_instrs ds (k + length (decl_consts d))"

lemma expr_assembled: "expr_code e k = assembled (expr_instrs e k)"
  by (induction e arbitrary: k) (simp_all add: encode_def)

lemma decl_assembled: "decl_code d k = assembled (decl_instrs d k)"
  by (cases d) (simp add: expr_assembled encode_def)

lemma program_assembled: "program_code ds k @ [op_byte op_return] = assembled (program_instrs ds k)"
  by (induction ds arbitrary: k) (simp_all add: decl_assembled encode_def)

lemma binary_op_layout: "binary_op ty = Some op \<Longrightarrow> op_layout op = None \<or> (\<exists>name. op_layout op = Some (name, simple_instruction))"
  by (cases ty) (auto simp: binary_op_def)

lemma binary_instr_ok: "binary_op ty = Some op \<Longrightarrow> instr_ok h ck (op, [])"
  using binary_op_layout [of ty op] by (auto simp: instr_ok_def)

lemma small_index: "i \<le> 255 \<Longrightarrow> unat (of_nat i :: u8) = i"
  by (simp add: unat_of_nat take_bit_nat_eq_self)

lemma expr_instrs_ok:
  assumes "expr_ok e" and "k + length (expr_consts e) \<le> length (va_list (ck_constants ck))" and "length (va_list (ck_constants ck)) \<le> 255"
    and "x \<in> set (expr_instrs e k)"
  shows "instr_ok h ck x"
  using assms(1,2,4)
proof (induction e arbitrary: k)
  case (Literal t)
  then show ?case using assms(3)
    by (auto simp: instr_ok_def literal_op_def has_constant_def small_index split: if_splits)
next
  case (Unary t a)
  then show ?case by (auto simp: instr_ok_def)
next
  case (Binary a t b)
  then obtain op where op: "binary_op (tk_type t) = Some op" by (auto split: option.splits)
  have "instr_ok h ck x" if "x \<in> set (expr_instrs a k)"
    by (rule Binary.IH(1) [OF _ _ that]) (use Binary.prems in simp_all)
  moreover have "instr_ok h ck x" if "x \<in> set (expr_instrs b (k + length (expr_consts a)))"
    by (rule Binary.IH(2) [OF _ _ that]) (use Binary.prems in simp_all)
  ultimately show ?case using Binary.prems(3) binary_instr_ok [OF op] op by auto
next
  case (Paren l a r)
  then show ?case by auto
qed

lemma program_instrs_ok:
  assumes "list_all decl_ok ds" and "k + length (program_consts ds) \<le> length (va_list (ck_constants ck))"
    and "length (va_list (ck_constants ck)) \<le> 255" and "x \<in> set (program_instrs ds k)"
  shows "instr_ok h ck x"
  using assms(1,2,4)
proof (induction ds arbitrary: k)
  case Nil
  then show ?case by (simp add: instr_ok_def)
next
  case (Cons d ds)
  obtain v y a e s where d: "d = Declare v y a e s" by (cases d)
  have "instr_ok h ck x" if "x \<in> set (expr_instrs e (Suc k))"
    by (rule expr_instrs_ok [OF _ _ assms(3) that]) (use Cons.prems d in simp_all)
  moreover have "instr_ok h ck (op_define_global, [of_nat k])"
    using Cons.prems(2) assms(3) d by (simp add: instr_ok_def small_index)
  moreover have "instr_ok h ck x" if "x \<in> set (program_instrs ds (k + length (decl_consts d)))"
    by (rule Cons.IH [OF _ _ that]) (use Cons.prems in simp_all)
  ultimately show ?case using Cons.prems(3) d by auto
qed

text \<open>The constants of such a program are numbers and names.\<close>

lemma literal_prints: "\<exists>s. print_value (Suc n) F h (literal_value t) = Inr s"
  by (simp add: literal_value_def string_value_def print_object_def)

lemma expr_consts_print: "v \<in> set (expr_consts e) \<Longrightarrow> \<exists>s. print_value (Suc n) F h v = Inr s"
  by (induction e) (use literal_prints in \<open>auto simp del: print_value.simps split: if_splits\<close>)

lemma program_consts_print: "v \<in> set (program_consts ds) \<Longrightarrow> \<exists>s. print_value (Suc n) F h v = Inr s"
proof (induction ds)
  case (Cons d ds)
  obtain u y a e s where d: "d = Declare u y a e s" by (cases d)
  have "\<exists>s. print_value (Suc n) F h (string_value (tk_lexeme y)) = Inr s" by (simp add: string_value_def print_object_def)
  with Cons d show ?case using expr_consts_print [of v e n F h] by (auto simp del: print_value.simps)
qed simp



end
