(* ===== verification/Joker_Statements.thy ===== *)
theory Joker_Statements
  imports Joker_Expressions Joker_Wellformed
begin

text \<open>
  Statements against a reference: assignments, expressions, blocks, conditionals and while loops over global
  variables, as trees with the tokens they are written with and the code they compile to, jumps included.
  The parser reads the tokens to the code. Blocks hold no declarations here, and \<open>break\<close> and
  \<open>continue\<close> are left out.
\<close>

subsection \<open>Trees, tokens and code\<close>

datatype stmt =
    S_assign token token expr token
  | S_expr expr token
  | S_block token "stmt list" token
  | S_if token token expr token stmt
  | S_if_else token token expr token stmt token stmt
  | S_while token token expr token stmt

fun stmt_tokens :: "stmt \<Rightarrow> token list" where
  "stmt_tokens (S_assign x a e s) = x # a # expr_tokens e @ [s]"
| "stmt_tokens (S_expr e s) = expr_tokens e @ [s]"
| "stmt_tokens (S_block l ss r) = l # concat (map stmt_tokens ss) @ [r]"
| "stmt_tokens (S_if i l e r s) = i # l # expr_tokens e @ r # stmt_tokens s"
| "stmt_tokens (S_if_else i l e r s el t) = i # l # expr_tokens e @ r # stmt_tokens s @ el # stmt_tokens t"
| "stmt_tokens (S_while w l e r s) = w # l # expr_tokens e @ r # stmt_tokens s"

fun stmt_consts :: "stmt \<Rightarrow> jvalue list" where
  "stmt_consts (S_assign x a e s) = string_value (tk_lexeme x) # expr_consts e"
| "stmt_consts (S_expr e s) = expr_consts e"
| "stmt_consts (S_block l ss r) = concat (map stmt_consts ss)"
| "stmt_consts (S_if i l e r s) = expr_consts e @ stmt_consts s"
| "stmt_consts (S_if_else i l e r s el t) = expr_consts e @ stmt_consts s @ stmt_consts t"
| "stmt_consts (S_while w l e r s) = expr_consts e @ stmt_consts s"

text \<open>A jump over \<open>j\<close> bytes behind it, or back by \<open>j\<close> bytes from behind it.\<close>

definition jump_code :: "op_code \<Rightarrow> nat \<Rightarrow> u8 list" where
  "jump_code op j = [op_byte op, high_byte (int j), low_byte (int j)]"

primrec expr_size :: "expr \<Rightarrow> nat" where
  "expr_size (Literal t) = (if has_constant t then 2 else 1)"
| "expr_size (Unary t a) = expr_size a + 1"
| "expr_size (Binary a t b) = expr_size a + expr_size b + 1"
| "expr_size (Paren l a r) = expr_size a"

fun stmt_size :: "stmt \<Rightarrow> nat" where
  "stmt_size (S_assign x a e s) = expr_size e + 3"
| "stmt_size (S_expr e s) = expr_size e + 1"
| "stmt_size (S_block l ss r) = sum_list (map stmt_size ss)"
| "stmt_size (S_if i l e r s) = expr_size e + stmt_size s + 8"
| "stmt_size (S_if_else i l e r s el t) = expr_size e + stmt_size s + stmt_size t + 8"
| "stmt_size (S_while w l e r s) = expr_size e + stmt_size s + 8"

text \<open>
  The condition stays on the stack over the jump, and each way pops it. A loop goes back to the condition.
\<close>

fun stmt_code :: "stmt \<Rightarrow> nat \<Rightarrow> u8 list"
and block_code :: "stmt list \<Rightarrow> nat \<Rightarrow> u8 list" where
  "stmt_code (S_assign x a e s) k = expr_code e (Suc k) @ [op_byte op_set_global, of_nat k] @ [op_byte op_pop]"
| "stmt_code (S_expr e s) k = expr_code e k @ [op_byte op_pop]"
| "stmt_code (S_block l ss r) k = block_code ss k"
| "stmt_code (S_if i l e r s) k =
     expr_code e k @ jump_code op_jump_if_false (stmt_size s + 4) @ [op_byte op_pop] @
     stmt_code s (k + length (expr_consts e)) @ jump_code op_jump 1 @ [op_byte op_pop]"
| "stmt_code (S_if_else i l e r s el t) k =
     expr_code e k @ jump_code op_jump_if_false (stmt_size s + 4) @ [op_byte op_pop] @
     stmt_code s (k + length (expr_consts e)) @ jump_code op_jump (stmt_size t + 1) @ [op_byte op_pop] @
     stmt_code t (k + length (expr_consts e) + length (stmt_consts s))"
| "stmt_code (S_while w l e r s) k =
     expr_code e k @ jump_code op_jump_if_false (stmt_size s + 4) @ [op_byte op_pop] @
     stmt_code s (k + length (expr_consts e)) @ jump_code op_loop (expr_size e + stmt_size s + 7) @ [op_byte op_pop]"
| "block_code [] k = []"
| "block_code (s # ss) k = stmt_code s k @ block_code ss (k + length (stmt_consts s))"

text \<open>A statement that an \<open>else\<close> behind it would continue.\<close>

fun dangling :: "stmt \<Rightarrow> bool" where
  "dangling (S_if i l e r s) = True"
| "dangling (S_if_else i l e r s el t) = dangling t"
| "dangling (S_while w l e r s) = dangling s"
| "dangling s = False"

text \<open>The tokens are what they stand for, and no jump is out of the reach of 16 bits.\<close>

fun stmt_ok :: "stmt \<Rightarrow> bool" where
  "stmt_ok (S_assign x a e s) = (tk_type x = token_identifier \<and> tk_lexeme x \<noteq> [] \<and> tk_type a = token_assign \<and> expr_ok e \<and>
     tk_type s = token_semicolon)"
| "stmt_ok (S_expr e s) = (expr_ok e \<and> tk_type s = token_semicolon)"
| "stmt_ok (S_block l ss r) = (tk_type l = token_left_brace \<and> tk_type r = token_right_brace \<and> (\<forall>s\<in>set ss. stmt_ok s))"
| "stmt_ok (S_if i l e r s) = (tk_type i = token_if \<and> tk_type l = token_left_paren \<and> expr_ok e \<and> tk_type r = token_right_paren \<and>
     stmt_ok s \<and> stmt_size s + 4 \<le> 65535)"
| "stmt_ok (S_if_else i l e r s el t) = (tk_type i = token_if \<and> tk_type l = token_left_paren \<and> expr_ok e \<and>
     tk_type r = token_right_paren \<and> stmt_ok s \<and> \<not> dangling s \<and> tk_type el = token_else \<and> stmt_ok t \<and>
     stmt_size s + 4 \<le> 65535 \<and> stmt_size t + 1 \<le> 65535)"
| "stmt_ok (S_while w l e r s) = (tk_type w = token_while \<and> tk_type l = token_left_paren \<and> expr_ok e \<and>
     tk_type r = token_right_paren \<and> stmt_ok s \<and> expr_size e + stmt_size s + 7 \<le> 65535)"

lemma length_expr_code [simp]: "length (expr_code e k) = expr_size e"
  by (induction e arbitrary: k) auto

lemma length_jump_code [simp]: "length (jump_code op j) = 3"
  by (simp add: jump_code_def)

lemma length_stmt_code [simp]:
  "length (stmt_code s k) = stmt_size s" "length (block_code ss k) = sum_list (map stmt_size ss)"
  by (induction s k and ss k rule: stmt_code_block_code.induct) simp_all

text \<open>How a statement begins.\<close>

definition expr_starts :: "token_type set" where
  "expr_starts = {token_i32, token_i64, token_true, token_false, token_none, token_identifier, token_minus, token_not, token_left_paren}"

lemma expr_head: "expr_ok e \<Longrightarrow> \<exists>t ts. expr_tokens e = t # ts \<and> tk_type t \<in> expr_starts"
  by (induction e) (auto simp: expr_starts_def)

lemma stmt_head: "stmt_ok s \<Longrightarrow> \<exists>t ts. stmt_tokens s = t # ts \<and> tk_type t \<in> expr_starts \<union> {token_left_brace, token_if, token_while}"
proof (cases s)
  case (S_expr e t)
  assume "stmt_ok s"
  with S_expr expr_head [of e] show ?thesis by auto
qed (auto simp: expr_starts_def)

lemma stmt_heads: "stmt_ok s \<Longrightarrow> heads (stmt_tokens s)"
  using stmt_head [of s] by (auto simp: heads_def expr_starts_def)

subsection \<open>Emitting behind what has been emitted\<close>

definition code_len :: "parser \<Rightarrow> nat" where
  "code_len p = length (compiled (hd (pa_compilers p)))"

lemma advanced_len: "advanced ts bs ks p q \<Longrightarrow> code_len q = code_len p + length bs"
  by (auto simp: advanced_def emitted_def code_len_def)

lemma primed_chunk:
  assumes "primed p"
  obtains c where "pa_compilers p = [c]" and "script_level c" and "chunk_wf (fn_chunk (co_fn c))" and "code_len p = ck_count (fn_chunk (co_fn c))"
    and "code_count p = Inr (code_len p, p)"
  using assms by (auto simp: primed_def script_level_def code_len_def code_count_def curr_chunk_def this_compiler_def chunk_wf_def act_simps)

lemma emit_byte_then:
  assumes "advanced ts bs ks p q" and "primed p" and "pa_prev q = Some t"
  obtains r where "emit_byte b q = Inr ((), r)" and "advanced ts (bs @ [b]) ks p r" and "pa_prev r = Some t"
proof -
  obtain r where r: "emit_byte b q = Inr ((), r)" "advanced [] [b] [] q r"
    by (rule emit_byte_run [OF advancedD(2) [OF assms(1,2)] assms(3)])
  with advanced_trans [OF assms(1) r(2)] advancedD(4) [OF r(2)] assms(3) show thesis by (intro that [of r]) simp_all
qed

lemma emit_jump_behind:
  assumes "advanced ts bs ks p q" and "primed p" and "pa_prev q = Some t"
  obtains r where "emit_jump op q = Inr (code_len p + length bs + 1, r)" and "advanced ts (bs @ [op_byte op, 255, 255]) ks p r"
    and "pa_prev r = Some t"
proof -
  obtain q1 where q1: "emit_byte (op_byte op) q = Inr ((), q1)" "advanced ts (bs @ [op_byte op]) ks p q1" "pa_prev q1 = Some t"
    by (rule emit_byte_then [OF assms])
  obtain q2 where q2: "emit_byte 255 q1 = Inr ((), q2)" "advanced ts ((bs @ [op_byte op]) @ [255]) ks p q2" "pa_prev q2 = Some t"
    by (rule emit_byte_then [OF q1(2) assms(2) q1(3)])
  obtain r where r: "emit_byte 255 q2 = Inr ((), r)" "advanced ts (((bs @ [op_byte op]) @ [255]) @ [255]) ks p r" "pa_prev r = Some t"
    by (rule emit_byte_then [OF q2(2) assms(2) q2(3)])
  have "code_count r = Inr (code_len r, r)" using primed_chunk [OF advancedD(2) [OF r(2) assms(2)]] by blast
  with q1(1) q2(1) r(1) advanced_len [OF r(2)] have "emit_jump op q = Inr (code_len p + length bs + 1, r)"
    by (simp add: emit_jump_def emit_op_def act_simps)
  with r show thesis by (intro that [of r]) simp_all
qed

lemma emit_loop_then:
  assumes "advanced ts bs ks p q" and "primed p" and "pa_prev q = Some t" and "start + j = code_len p + length bs + 3" and "j \<le> 65535"
  obtains r where "emit_loop start q = Inr ((), r)" and "advanced ts (bs @ jump_code op_loop j) ks p r" and "pa_prev r = Some t"
proof -
  obtain q1 where q1: "emit_byte (op_byte op_loop) q = Inr ((), q1)" "advanced ts (bs @ [op_byte op_loop]) ks p q1" "pa_prev q1 = Some t"
    by (rule emit_byte_then [OF assms(1-3)])
  obtain q2 where q2: "emit_byte (high_byte (int j)) q1 = Inr ((), q2)"
    "advanced ts ((bs @ [op_byte op_loop]) @ [high_byte (int j)]) ks p q2" "pa_prev q2 = Some t"
    by (rule emit_byte_then [OF q1(2) assms(2) q1(3)])
  obtain r where r: "emit_byte (low_byte (int j)) q2 = Inr ((), r)"
    "advanced ts (((bs @ [op_byte op_loop]) @ [high_byte (int j)]) @ [low_byte (int j)]) ks p r" "pa_prev r = Some t"
    by (rule emit_byte_then [OF q2(2) assms(2) q2(3)])
  have "code_count q1 = Inr (code_len q1, q1)" using primed_chunk [OF advancedD(2) [OF q1(2) assms(2)]] by blast
  moreover have "int (code_len q1) - int start + 2 = int j" using advanced_len [OF q1(2)] assms(4) by simp
  ultimately have "emit_loop start q = Inr ((), r)"
    using q1(1) q2(1) r(1) assms(5)
    by (simp add: emit_loop_def emit_back_def emit_op_def UINT16_MAX_def Let_def act_simps)
  with r show thesis by (intro that [of r]) (simp_all add: jump_code_def)
qed

text \<open>The operand that \<open>emit_jump\<close> left open is set to what has been emitted behind it.\<close>

lemma patch_jump_then:
  assumes "advanced ts (bs @ [op_byte op, a, b] @ cs) ks p q" and "primed p" and "length cs \<le> 65535"
    and "i = code_len p + length bs + 1"
  obtains r where "patch_jump i q = Inr ((), r)" and "advanced ts (bs @ jump_code op (length cs) @ cs) ks p r" and "pa_prev r = pa_prev q"
proof -
  obtain c ck where c: "pa_compilers p = [c]" "pa_compilers q = [set_chunk ck c]" "chunk_wf ck"
    "chunk_bytes ck = compiled c @ bs @ [op_byte op, a, b] @ cs" "va_list (ck_constants ck) = compiled_constants c @ ks"
    using assms(1,2) by (auto simp: advanced_def emitted_def primed_def)
  have n: "ck_count ck = i + 2 + length cs"
    using c(1,3,4) assms(4) by (simp add: chunk_wf_def code_len_def)
  then obtain ck' where ck': "store_jump i (int (length cs)) ck = Inr ck'" "chunk_wf ck'"
    "chunk_bytes ck' = (chunk_bytes ck)[i := high_byte (int (length cs)), i + 1 := low_byte (int (length cs))]"
    "ck_constants ck' = ck_constants ck"
    using store_jump_bytes [OF c(3), of i "int (length cs)"] by auto
  have bytes: "chunk_bytes ck' = compiled c @ bs @ jump_code op (length cs) @ cs"
    using assms(4) c(1) by (simp add: ck'(3) c(4) code_len_def list_update_append jump_code_def)
  have run: "patch_jump i q = Inr ((), q\<lparr>pa_compilers := [set_chunk ck' c]\<rparr>)"
    using c(2) ck'(1) n assms(3) by (simp add: patch_jump_def code_count_def curr_chunk_def this_compiler_def write_code_def
        modify_compiler_def put_compiler_def act_simps UINT16_MAX_def)
  have "advanced ts (bs @ jump_code op (length cs) @ cs) ks p (q\<lparr>pa_compilers := [set_chunk ck' c]\<rparr>)"
    using assms(1) c ck'(2,4) bytes by (auto simp: advanced_def emitted_def)
  with run show thesis by (intro that [of "q\<lparr>pa_compilers := [set_chunk ck' c]\<rparr>"]) simp_all
qed

text \<open>
  Work under another compiler state that has the same code: the loops or the scope depth of \<open>d\<close>.
\<close>

lemma advanced_within:
  assumes "advanced ts bs ks (p\<lparr>pa_compilers := [d]\<rparr>) q" and "pa_compilers p = [c]" and "fn_chunk (co_fn d) = fn_chunk (co_fn c)"
  obtains ck where "pa_compilers q = [set_chunk ck d]" and "advanced ts bs ks p (q\<lparr>pa_compilers := [set_chunk ck c]\<rparr>)"
proof -
  obtain ck where ck: "pa_compilers q = [set_chunk ck d]" "chunk_wf ck" "chunk_bytes ck = compiled c @ bs"
    "va_list (ck_constants ck) = compiled_constants c @ ks"
    using assms(1,3) by (auto simp: advanced_def emitted_def)
  then have "advanced ts bs ks p (q\<lparr>pa_compilers := [set_chunk ck c]\<rparr>)"
    using assms(1,2) by (auto simp: advanced_def emitted_def)
  with ck(1) show thesis by (rule that)
qed

subsection \<open>What the parser does with a statement\<close>

definition parses :: "stmt \<Rightarrow> bool" where
  "parses s \<longleftrightarrow> (\<forall>L n p us. primed p \<longrightarrow> \<not> pa_panic_mode p \<longrightarrow> pa_curr p = stmt_tokens s @ us \<longrightarrow> us \<noteq> [] \<longrightarrow>
     (dangling s \<longrightarrow> tk_type (hd us) \<noteq> token_else) \<longrightarrow> length (stmt_tokens s) < n \<longrightarrow>
     constant_count p + length (stmt_consts s) \<le> 255 \<longrightarrow>
     (\<exists>q. parse_fuel n L N_statement p = Inr ((), q) \<and>
       advanced (stmt_tokens s) (stmt_code s (constant_count p)) (stmt_consts s) p q))"

lemma parsesE:
  assumes "parses s" and "primed p" and "\<not> pa_panic_mode p" and "pa_curr p = stmt_tokens s @ us" and "us \<noteq> []"
    and "dangling s \<longrightarrow> tk_type (hd us) \<noteq> token_else" and "length (stmt_tokens s) < n"
    and "constant_count p + length (stmt_consts s) \<le> 255"
  obtains q where "parse_fuel n L N_statement p = Inr ((), q)"
    and "advanced (stmt_tokens s) (stmt_code s (constant_count p)) (stmt_consts s) p q"
  using assms unfolding parses_def by blast

text \<open>An expression up to a semicolon or a parenthesis, and one in parentheses.\<close>

lemma expr_run:
  assumes "expr_ok e" and "primed p" and "pa_curr p = expr_tokens e @ t # ts" and "tk_type t = token_semicolon \<or> tk_type t = token_right_paren"
    and "length (expr_tokens e) < n" and "constant_count p + length (expr_consts e) \<le> 255"
  obtains q where "parse_fuel n L (N_precedence (prec_level prec_assign)) p = Inr ((), q)"
    and "advanced (expr_tokens e) (expr_code e (constant_count p)) (expr_consts e) p q"
proof -
  have t: "follows (expr_level e) t" "token_level t < prec_level prec_assign" "prec_level prec_assign \<le> expr_level e"
    using assms(4) expr_level_pos [OF assms(1)] by (auto simp: follows_def token_level_def rule_def prec_level_def)
  show thesis
    by (rule climbs_operand [OF climbs_all [OF assms(1)] assms(2,3) t assms(5,6)]) (rule that)
qed

lemma condition_run:
  assumes "expr_ok e" and "primed p" and "pa_curr p = l # expr_tokens e @ r # ts" and "tk_type l = token_left_paren"
    and "tk_type r = token_right_paren" and "length (expr_tokens e) < n" and "constant_count p + length (expr_consts e) \<le> 255"
  obtains q where "parse_condition (at_fuel L n) msg p = Inr ((), q)"
    and "advanced (l # expr_tokens e @ [r]) (expr_code e (constant_count p)) (expr_consts e) p q"
proof -
  obtain p1 where p1: "parse_match token_left_paren p = Inr (True, p1)" "advanced [l] [] [] p p1"
    by (rule parse_match_run [OF assms(2,3,4)]) simp
  have c1: "primed p1" "constant_count p1 = constant_count p" "pa_curr p1 = expr_tokens e @ r # ts"
    using advancedD [OF p1(2)] assms(2,3) by simp_all
  obtain p2 where p2: "parse_fuel n L (N_precedence (prec_level prec_assign)) p1 = Inr ((), p2)"
    "advanced (expr_tokens e) (expr_code e (constant_count p1)) (expr_consts e) p1 p2"
    by (rule expr_run [OF assms(1) c1(1,3) disjI2 [OF assms(5)] assms(6)]) (use assms(7) c1(2) in simp_all)
  have c2: "primed p2" "pa_curr p2 = r # ts" using advancedD [OF p2(2)] c1 by simp_all
  obtain q where q: "parse_consume token_right_paren msg p2 = Inr ((), q)" "advanced [r] [] [] p2 q"
    by (rule consume_run [OF c2 assms(5)]) simp
  have "parse_condition (at_fuel L n) msg p = Inr ((), q)"
    using p1(1) p2(1) q(1) by (simp add: parse_condition_def parse_expression_def precedence_def act_simps)
  then show thesis using advanced_trans [OF p1(2) advanced_trans [OF p2(2) q(2)]] c1(2) that by simp
qed

text \<open>What is left to do after the expression of an expression statement.\<close>

lemma finish_expr:
  assumes "advanced ts bs ks p q" and "primed p" and "pa_curr q = s # us" and "tk_type s = token_semicolon"
  obtains r where "act_seq [act_ignore (parse_match token_semicolon), emit_op op_pop] q = Inr ((), r)"
    and "advanced (ts @ [s]) (bs @ [op_byte op_pop]) ks p r"
proof -
  have q: "primed q" by (rule advancedD(2) [OF assms(1,2)])
  obtain q1 where q1: "parse_match token_semicolon q = Inr (True, q1)" "advanced [s] [] [] q q1"
    by (rule parse_match_run [OF q assms(3,4)]) simp
  have a: "advanced (ts @ [s]) bs ks p q1" using advanced_trans [OF assms(1) q1(2)] by simp
  obtain r where r: "emit_op op_pop q1 = Inr ((), r)" "advanced (ts @ [s]) (bs @ [op_byte op_pop]) ks p r"
    by (rule emit_op_run [OF a _ assms(2)]) simp
  with q1(1) show thesis by (intro that [of r]) (simp_all add: act_simps)
qed

lemma not_starting:
  assumes "pa_curr p = t # ts" and "tk_type t \<in> expr_starts"
  shows "ty \<in> {token_for, token_if, token_return, token_break, token_continue, token_match, token_while, token_loop, token_left_brace}
    \<Longrightarrow> parse_match ty p = Inr (False, p)"
  using assms by (auto simp: expr_starts_def intro!: parse_match_other [OF assms(1)])

lemma expr_statement:
  assumes "pa_curr p = t # ts" and "tk_type t \<in> expr_starts"
  shows "parse_statement C p = parse_expr_statement C p"
  using not_starting [OF assms] by (simp add: parse_statement_def act_simps)

lemma parses_expr:
  assumes "stmt_ok (S_expr e s)"
  shows "parses (S_expr e s)"
  unfolding parses_def
proof (intro allI impI)
  fix L n p us
  assume p: "primed p" "pa_curr p = stmt_tokens (S_expr e s) @ us" and n: "length (stmt_tokens (S_expr e s)) < n"
    and k: "constant_count p + length (stmt_consts (S_expr e s)) \<le> 255"
  have ok: "expr_ok e" "tk_type s = token_semicolon" using assms by simp_all
  obtain m where m: "n = Suc m" "length (expr_tokens e) < m" using n by (cases n) auto
  have curr: "pa_curr p = expr_tokens e @ s # us" using p(2) by simp
  obtain q where q: "parse_fuel m L (N_precedence (prec_level prec_assign)) p = Inr ((), q)"
    "advanced (expr_tokens e) (expr_code e (constant_count p)) (expr_consts e) p q"
    by (rule expr_run [OF ok(1) p(1) curr disjI1 [OF ok(2)] m(2)]) (use k in simp_all)
  have "pa_curr q = s # us" using advancedD(1) [OF q(2)] curr by simp
  from finish_expr [OF q(2) p(1) this ok(2)] obtain r where r:
    "act_seq [act_ignore (parse_match token_semicolon), emit_op op_pop] q = Inr ((), r)"
    "advanced (expr_tokens e @ [s]) (expr_code e (constant_count p) @ [op_byte op_pop]) (expr_consts e) p r" .
  obtain t ts where "pa_curr p = t # ts" "tk_type t \<in> expr_starts" using expr_head [OF ok(1)] curr by auto
  note start = expr_statement [OF this]
  have "parse_fuel n L N_statement p = Inr ((), r)"
    using start q(1) r(1) m(1) by (simp add: parse_expr_statement_def parse_expression_def precedence_def act_simps)
  with r(2) show "\<exists>q. parse_fuel n L N_statement p = Inr ((), q) \<and>
      advanced (stmt_tokens (S_expr e s)) (stmt_code (S_expr e s) (constant_count p)) (stmt_consts (S_expr e s)) p q"
    by auto
qed

text \<open>\<open>x = e\<close>: the name is looked up, and made a constant, before the value is compiled.\<close>

lemma assign_rule_run:
  assumes "stmt_ok (S_assign x a e s)" and "primed p" and "pa_prev p = Some x" and "pa_curr p = a # expr_tokens e @ s # us"
    and "length (expr_tokens e) < n" and "constant_count p + length (stmt_consts (S_assign x a e s)) \<le> 255"
  obtains q where "parse_identifier (at_fuel L n) True p = Inr ((), q)"
    and "advanced (a # expr_tokens e) (expr_code e (Suc (constant_count p)) @ [op_byte op_set_global, of_nat (constant_count p)])
      (stmt_consts (S_assign x a e s)) p q"
proof -
  have ok: "tk_lexeme x \<noteq> []" "tk_type a = token_assign" "expr_ok e" "tk_type s = token_semicolon" using assms(1) by simp_all
  let ?k = "constant_count p"
  obtain p1 where p1: "resolve_variable x p = Inr ((op_get_global, op_set_global, of_nat ?k), p1)"
    "advanced [] [] [string_value (tk_lexeme x)] p p1"
    by (rule global_run [OF assms(2,3) _ ok(1)]) (use assms(6) in simp)
  have c1: "primed p1" "constant_count p1 = Suc ?k" "pa_curr p1 = a # expr_tokens e @ s # us"
    using advancedD [OF p1(2)] assms(2,4) by simp_all
  obtain p2 where p2: "parse_match token_assign p1 = Inr (True, p2)" "advanced [a] [] [] p1 p2"
    by (rule parse_match_run [OF c1(1,3) ok(2)]) simp
  have c2: "primed p2" "constant_count p2 = Suc ?k" "pa_curr p2 = expr_tokens e @ s # us"
    using advancedD [OF p2(2)] c1 by simp_all
  obtain p3 where p3: "parse_fuel n L (N_precedence (prec_level prec_assign)) p2 = Inr ((), p3)"
    "advanced (expr_tokens e) (expr_code e (constant_count p2)) (expr_consts e) p2 p3"
    by (rule expr_run [OF ok(3) c2(1,3) disjI1 [OF ok(4)] assms(5)]) (use assms(6) c2(2) in simp_all)
  have c3: "primed p3" "pa_prev p3 = Some (last (expr_tokens e))" using advancedD [OF p3(2)] c2 by simp_all
  obtain q where q: "emit_bytes op_set_global (of_nat ?k) p3 = Inr ((), q)"
    "advanced [] [op_byte op_set_global, of_nat ?k] [] p3 q" by (rule emit_bytes_run [OF c3])
  have "parse_identifier (at_fuel L n) True p = Inr ((), q)"
    using p1(1) p2(1) p3(1) q(1) assms(3)
    by (simp add: parse_identifier_def parse_named_variable_def prev_token_def parse_expression_def precedence_def act_simps)
  then show thesis
    using advanced_trans [OF advanced_trans [OF advanced_trans [OF p1(2) p2(2)] p3(2)] q(2)] c2(2) by (intro that [of q]) simp_all
qed

lemma parses_assign:
  assumes "stmt_ok (S_assign x a e s)"
  shows "parses (S_assign x a e s)"
  unfolding parses_def
proof (intro allI impI)
  let ?s = "S_assign x a e s"
  fix L n p us
  assume p: "primed p" "pa_curr p = stmt_tokens ?s @ us" and n: "length (stmt_tokens ?s) < n"
    and k: "constant_count p + length (stmt_consts ?s) \<le> 255"
  have ok: "tk_type x = token_identifier" "tk_type s = token_semicolon" using assms by simp_all
  obtain m where m: "n = Suc (Suc m)" "length (expr_tokens e) < m" "0 < m" using n by (cases n; cases "n - 1") auto
  let ?C = "at_fuel L m"
  have curr: "pa_curr p = x # (a # expr_tokens e @ s # us)" using p(2) by simp
  have x: "tk_type x \<noteq> token_eof" "pr_prefix (get_rule (tk_type x)) = Some P_identifier" using ok(1) by (simp_all add: rule_def)
  define Q where "Q p' q \<longleftrightarrow> advanced (a # expr_tokens e)
    (expr_code e (Suc (constant_count p)) @ [op_byte op_set_global, of_nat (constant_count p)]) (stmt_consts ?s) p' q" for p' q
  have run: "\<exists>q. parse_rule_fn P_identifier ?C (prec_level prec_assign \<le> prec_level prec_assign) p' = Inr ((), q) \<and> Q p' q \<and>
      (\<exists>u us. pa_curr q = u # us \<and> tk_type u \<noteq> token_eof)" if a: "advanced [x] [] [] p p'" for p'
  proof -
    have c: "primed p'" "pa_prev p' = Some x" "pa_curr p' = a # expr_tokens e @ s # us" "constant_count p' = constant_count p"
      using advancedD [OF a] p(1) curr by simp_all
    obtain q where q: "parse_identifier ?C True p' = Inr ((), q)"
      "advanced (a # expr_tokens e) (expr_code e (Suc (constant_count p')) @ [op_byte op_set_global, of_nat (constant_count p')])
        (stmt_consts ?s) p' q"
      by (rule assign_rule_run [OF assms c(1-3) m(2)]) (use k c(4) in simp_all)
    have "pa_curr q = s # us" using advancedD(1) [OF q(2)] c(3) by simp
    moreover have "tk_type s \<noteq> token_eof" using ok(2) by simp
    moreover have "Q p' q" using q(2) c(4) by (simp add: Q_def)
    ultimately show ?thesis using q(1) by auto
  qed
  obtain p' q where pq: "advanced [x] [] [] p p'" "Q p' q"
    "parse_precedence ?C (prec_level prec_assign) p = climb (cx_fuel ?C) ?C (prec_level prec_assign) q"
    by (rule parse_precedence_prefix [where Q = Q, OF p(1) curr x run])
  have all: "advanced (x # a # expr_tokens e) (expr_code e (Suc (constant_count p)) @ [op_byte op_set_global, of_nat (constant_count p)])
      (stmt_consts ?s) p q" using advanced_trans [OF pq(1) pq(2) [unfolded Q_def]] by simp
  have cq: "pa_curr q = s # us" using advancedD(1) [OF all] curr by simp
  obtain i where i: "m = Suc i" using m(3) by (cases m) auto
  have stop: "climb (Suc i) ?C (prec_level prec_assign) q = Inr ((), q)"
    by (rule climb_stop [OF cq]) (use ok(2) in \<open>simp_all add: token_level_def rule_def prec_level_def\<close>)
  obtain r where r: "act_seq [act_ignore (parse_match token_semicolon), emit_op op_pop] q = Inr ((), r)"
    "advanced ((x # a # expr_tokens e) @ [s])
      ((expr_code e (Suc (constant_count p)) @ [op_byte op_set_global, of_nat (constant_count p)]) @ [op_byte op_pop]) (stmt_consts ?s) p r"
    by (rule finish_expr [OF all p(1) cq ok(2)])
  have "parse_statement (at_fuel L (Suc m)) p = parse_expr_statement (at_fuel L (Suc m)) p"
    by (rule expr_statement [OF curr]) (simp add: ok(1) expr_starts_def)
  then have "parse_fuel n L N_statement p = Inr ((), r)"
    using pq(3) stop i r(1) m(1) by (simp add: parse_expr_statement_def parse_expression_def precedence_def act_simps)
  with r(2) show "\<exists>q. parse_fuel n L N_statement p = Inr ((), q) \<and>
      advanced (stmt_tokens ?s) (stmt_code ?s (constant_count p)) (stmt_consts ?s) p q" by auto
qed

lemma parse_match_first:
  "pa_curr p = t # ts \<Longrightarrow> parse_match ty p = (if tk_type t = ty then parse_match ty p else Inr (False, p))"
  by (simp add: parse_match_other)

text \<open>Where declarations may stand, a statement is one.\<close>

lemma reads_stmt:
  assumes "stmt_ok s" and "parses s" and "length (stmt_tokens s) + 1 < n"
  shows "reads out (parse_fuel n L N_declaration) (stmt_tokens s) (stmt_code s) (stmt_consts s)"
  unfolding reads_def
proof (intro allI impI)
  fix p us
  assume p: "primed p" "\<not> pa_panic_mode p" "pa_curr p = stmt_tokens s @ us" "us \<noteq> []" "tk_type (hd us) \<noteq> token_else"
    and k: "constant_count p + length (stmt_consts s) \<le> 255"
  obtain m where m: "n = Suc m" "length (stmt_tokens s) < m" using assms(3) by (cases n) auto
  obtain q where q: "parse_fuel m L N_statement p = Inr ((), q)"
    "advanced (stmt_tokens s) (stmt_code s (constant_count p)) (stmt_consts s) p q"
    by (rule parsesE [OF assms(2) p(1-4) _ m(2) k]) (use p(5) in simp)
  obtain t ts where t: "pa_curr p = t # ts" "tk_type t \<in> expr_starts \<union> {token_left_brace, token_if, token_while}"
    using stmt_head [OF assms(1)] p(3) by auto
  have "parse_match ty p = Inr (False, p)" if "ty \<in> {token_class, token_struct, token_enum, token_fn, token_var}" for ty
    by (rule parse_match_other [OF t(1)]) (use t(2) that in \<open>auto simp: expr_starts_def\<close>)
  moreover have "\<not> pa_panic_mode q" using advancedD(6) [OF q(2)] p(2) by simp
  ultimately have "parse_fuel n L N_declaration p = Inr ((), q)"
    using q(1) m(1) by (simp add: parse_declaration_def act_simps)
  with q(2) show "\<exists>q. parse_fuel n L N_declaration p = Inr ((), q) \<and>
      advanced (stmt_tokens s) (stmt_code s (constant_count p)) (stmt_consts s) p q" by blast
qed

lemma scope_run:
  assumes "primed p" and "\<And>p'. primed p' \<Longrightarrow> constant_count p' = constant_count p \<Longrightarrow> pa_curr p' = pa_curr p \<Longrightarrow>
      pa_panic_mode p' = pa_panic_mode p \<Longrightarrow> \<exists>q. m p' = Inr ((), q) \<and> advanced ts bs ks p' q"
  obtains q where "act_seq [begin_scope, m, end_scope] p = Inr ((), q)" and "advanced ts bs ks p q"
proof -
  obtain c where c: "pa_compilers p = [c]" "script_level c" using assms(1) by (auto simp: primed_def)
  let ?f = "\<lambda>c. c\<lparr>co_scope_depth := co_scope_depth c + 1\<rparr>"
  let ?p = "p\<lparr>pa_compilers := [?f c]\<rparr>"
  have b: "begin_scope p = Inr ((), ?p)"
    using c(1) by (simp add: begin_scope_def compile_begin_scope_def modify_compiler_def this_compiler_def put_compiler_def act_simps)
  have "primed ?p" "constant_count ?p = constant_count p" using c by (auto simp: primed_def script_level_def constant_count_def)
  from assms(2) [OF this] obtain q where q: "m ?p = Inr ((), q)" "advanced ts bs ks ?p q" by auto
  obtain ck where ck: "pa_compilers q = [set_chunk ck (?f c)]" "advanced ts bs ks p (q\<lparr>pa_compilers := [set_chunk ck c]\<rparr>)"
    by (rule advanced_within [OF q(2) c(1)]) simp
  have "(set_chunk ck (?f c))\<lparr>co_scope_depth := co_scope_depth c\<rparr> = set_chunk ck c" by (simp add: set_chunk_def)
  then have "end_scope q = Inr ((), q\<lparr>pa_compilers := [set_chunk ck c]\<rparr>)"
    using ck(1) c(2) by (simp add: end_scope_def compile_end_scope_def modify_compiler_def this_compiler_def put_compiler_def
        script_level_def first_local_def act_simps)
  with b q(1) ck(2) show thesis by (intro that [of "q\<lparr>pa_compilers := [set_chunk ck c]\<rparr>"]) (simp_all add: act_simps)
qed

lemma parses_block:
  assumes "stmt_ok (S_block l ss r)" and "\<And>s. s \<in> set ss \<Longrightarrow> parses s"
  shows "parses (S_block l ss r)"
  unfolding parses_def
proof (intro allI impI)
  let ?s = "S_block l ss r"
  fix L n p us
  assume p: "primed p" "\<not> pa_panic_mode p" "pa_curr p = stmt_tokens ?s @ us" and n: "length (stmt_tokens ?s) < n"
    and k: "constant_count p + length (stmt_consts ?s) \<le> 255"
  have ok: "tk_type l = token_left_brace" "tk_type r = token_right_brace" "\<forall>s\<in>set ss. stmt_ok s" using assms(1) by simp_all
  obtain m where m: "n = Suc m" "length (concat (map stmt_tokens ss)) + 1 < m" using n by (cases n) auto
  have many: "length ss \<le> length (concat (map stmt_tokens ss))" using ok(3) by (simp add: concat_many stmt_heads)
  let ?C = "at_fuel L m" and ?ts = "concat (map stmt_tokens ss) @ [r]"
  have curr: "pa_curr p = l # (concat (map stmt_tokens ss) @ r # us)" using p(3) by simp
  obtain p1 where p1: "parse_match token_left_brace p = Inr (True, p1)" "advanced [l] [] [] p p1"
    by (rule parse_match_run [OF p(1) curr ok(1)]) simp
  have c1: "primed p1" "\<not> pa_panic_mode p1" "pa_curr p1 = concat (map stmt_tokens ss) @ r # us" "constant_count p1 = constant_count p"
    using advancedD [OF p1(2)] p(1,2) curr by simp_all
  have "\<exists>q. parse_block_statement ?C p2 = Inr ((), q) \<and> advanced ?ts (block_code ss (constant_count p)) (stmt_consts ?s) p2 q"
    if p2: "primed p2" "constant_count p2 = constant_count p1" "pa_curr p2 = pa_curr p1" "pa_panic_mode p2 = pa_panic_mode p1" for p2
  proof -
    have "\<exists>q. act_while m (check_neither token_right_brace token_eof) (parse_fuel m L N_declaration) p2 = Inr ((), q) \<and>
        advanced (concat (map stmt_tokens ss)) (block_code ss (constant_count p2)) (concat (map stmt_consts ss)) p2 q"
    proof (rule declarations_run [where ds = ss and out = False and f = "parse_fuel m L N_declaration" and code = stmt_code
          and goes = "check_neither token_right_brace token_eof" and u = r and us = us])
      show "\<forall>s\<in>set ss. reads False (parse_fuel m L N_declaration) (stmt_tokens s) (stmt_code s) (stmt_consts s) \<and> heads (stmt_tokens s)"
      proof
        fix s
        assume s: "s \<in> set ss"
        have "length (stmt_tokens s) + 1 < m" using concat_length [OF s, of stmt_tokens] m(2) by simp
        with s ok(3) assms(2) show "reads False (parse_fuel m L N_declaration) (stmt_tokens s) (stmt_code s) (stmt_consts s) \<and>
            heads (stmt_tokens s)" by (intro conjI reads_stmt stmt_heads) simp_all
      qed
      show "length ss < m" using many m(2) by simp
    qed (use p2 c1 k ok(2) in \<open>simp_all add: check_neither_def parse_check_def heads_def act_simps\<close>)
    then obtain q where q: "act_while m (check_neither token_right_brace token_eof) (parse_fuel m L N_declaration) p2 = Inr ((), q)"
      "advanced (concat (map stmt_tokens ss)) (block_code ss (constant_count p2)) (concat (map stmt_consts ss)) p2 q" by blast
    have cq: "primed q" "pa_curr q = r # us" using advancedD [OF q(2)] p2(1,3) c1(3) by simp_all
    obtain q' where q': "parse_consume token_right_brace ''Expected } after block statement.'' q = Inr ((), q')" "advanced [r] [] [] q q'"
      by (rule consume_run [OF cq ok(2)]) simp
    have "parse_block_statement ?C p2 = Inr ((), q')" using q(1) q'(1) by (simp add: parse_block_statement_def act_simps)
    with advanced_trans [OF q(2) q'(2)] p2(2) c1(4) show ?thesis by auto
  qed
  then obtain q where q: "act_seq [begin_scope, parse_block_statement ?C, end_scope] p1 = Inr ((), q)"
    "advanced ?ts (block_code ss (constant_count p)) (stmt_consts ?s) p1 q"
    using scope_run [OF c1(1), of "parse_block_statement ?C" ?ts "block_code ss (constant_count p)" "stmt_consts ?s"] by blast
  have "parse_match ty p = Inr (False, p)" if "ty \<noteq> token_left_brace" for ty
    by (rule parse_match_other [OF curr]) (use ok(1) that in simp)
  then have "parse_fuel n L N_statement p = Inr ((), q)"
    using p1(1) q(1) m(1) by (simp add: parse_statement_def act_if_apply)
  with advanced_trans [OF p1(2) q(2)] show "\<exists>q. parse_fuel n L N_statement p = Inr ((), q) \<and>
      advanced (stmt_tokens ?s) (stmt_code ?s (constant_count p)) (stmt_consts ?s) p q" by auto
qed

text \<open>The emission of a jump, of \<open>op_pop\<close>, and a statement behind it: the first part of both forms of \<open>if\<close> and of \<open>while\<close>.\<close>

lemma guarded_run:
  assumes "primed p" and "\<not> pa_panic_mode p" and "advanced ts bs ks p p2" and "pa_prev p2 = Some t"
    and "parses s" and "pa_curr p2 = stmt_tokens s @ us" and "us \<noteq> []" and "dangling s \<longrightarrow> tk_type (hd us) \<noteq> token_else"
    and "length (stmt_tokens s) < m" and "stmt_ok s" and "constant_count p2 + length (stmt_consts s) \<le> 255"
  obtains p3 p4 p5 t' where "emit_jump op_jump_if_false p2 = Inr (code_len p + length bs + 1, p3)"
    and "emit_op op_pop p3 = Inr ((), p4)" and "parse_fuel m L N_statement p4 = Inr ((), p5)"
    and "advanced (ts @ stmt_tokens s) (bs @ [op_byte op_jump_if_false, 255, 255] @ [op_byte op_pop] @ stmt_code s (constant_count p2))
      (ks @ stmt_consts s) p p5"
    and "pa_prev p5 = Some t'"
proof -
  obtain p3 where p3: "emit_jump op_jump_if_false p2 = Inr (code_len p + length bs + 1, p3)"
    "advanced ts (bs @ [op_byte op_jump_if_false, 255, 255]) ks p p3" "pa_prev p3 = Some t"
    by (rule emit_jump_behind [OF assms(3,1,4)])
  obtain p4 where p4: "emit_byte (op_byte op_pop) p3 = Inr ((), p4)"
    "advanced ts ((bs @ [op_byte op_jump_if_false, 255, 255]) @ [op_byte op_pop]) ks p p4"
    by (rule emit_byte_then [OF p3(2) assms(1) p3(3)])
  have c4: "primed p4" "\<not> pa_panic_mode p4" "constant_count p4 = constant_count p2" "pa_curr p4 = stmt_tokens s @ us"
    using advancedD [OF p4(2)] advancedD [OF assms(3)] assms(1,2,6) by simp_all
  obtain p5 where p5: "parse_fuel m L N_statement p4 = Inr ((), p5)"
    "advanced (stmt_tokens s) (stmt_code s (constant_count p4)) (stmt_consts s) p4 p5"
    by (rule parsesE [OF assms(5) c4(1,2,4) assms(7,8,9)]) (use c4(3) assms(11) in simp_all)
  obtain t' where "pa_prev p5 = Some t'" using advancedD(4) [OF p5(2)] stmt_head [OF assms(10)] by auto
  with p3(1) p4(1) p5(1) advanced_trans [OF p4(2) p5(2)] c4(3) show thesis
    by (intro that [of p3 p4 p5 t']) (simp_all add: emit_op_def)
qed

text \<open>A conditional up to the place where an \<open>else\<close> may stand.\<close>

lemma if_run:
  assumes "primed p" and "\<not> pa_panic_mode p" and "pa_curr p = i # l # expr_tokens e @ r # stmt_tokens s @ us" and "us \<noteq> []"
    and "tk_type i = token_if" and "tk_type l = token_left_paren" and "expr_ok e" and "tk_type r = token_right_paren"
    and "parses s" and "stmt_ok s" and "stmt_size s + 4 \<le> 65535" and "dangling s \<longrightarrow> tk_type (hd us) \<noteq> token_else"
    and "length (expr_tokens e) + length (stmt_tokens s) < m"
    and "constant_count p + length (expr_consts e) + length (stmt_consts s) \<le> 255"
  obtains q t where "parse_statement (at_fuel L m) p = act_seq [act_if (parse_match token_else) (parse_fuel m L N_statement) (act_return ()),
        patch_jump (code_len p + expr_size e + stmt_size s + 5)] q"
    and "advanced (i # l # expr_tokens e @ r # stmt_tokens s)
      (expr_code e (constant_count p) @ jump_code op_jump_if_false (stmt_size s + 4) @ [op_byte op_pop] @
        stmt_code s (constant_count p + length (expr_consts e)) @ [op_byte op_jump, 255, 255] @ [op_byte op_pop])
      (expr_consts e @ stmt_consts s) p q"
    and "pa_prev q = Some t"
proof -
  let ?k = "constant_count p" and ?C = "at_fuel L m"
  obtain p1 where p1: "parse_match token_if p = Inr (True, p1)" "advanced [i] [] [] p p1"
    by (rule parse_match_run [OF assms(1,3,5)]) simp
  have c1: "primed p1" "constant_count p1 = ?k" "pa_curr p1 = l # expr_tokens e @ r # stmt_tokens s @ us"
    using advancedD [OF p1(2)] assms(1,3) by simp_all
  have room: "length (expr_tokens e) < m" "constant_count p1 + length (expr_consts e) \<le> 255"
    using assms(13,14) c1(2) by linarith+
  obtain p2 where p2: "parse_condition ?C ''Expected ) after condition.'' p1 = Inr ((), p2)"
    "advanced (l # expr_tokens e @ [r]) (expr_code e (constant_count p1)) (expr_consts e) p1 p2"
    by (rule condition_run [OF assms(7) c1(1,3) assms(6,8) room])
  have a2: "advanced (i # l # expr_tokens e @ [r]) (expr_code e ?k) (expr_consts e) p p2"
    using advanced_trans [OF p1(2) p2(2)] c1(2) by simp
  have c2: "pa_prev p2 = Some r" "pa_curr p2 = stmt_tokens s @ us" "constant_count p2 = ?k + length (expr_consts e)"
    using advancedD [OF a2] assms(3) by simp_all
  have body: "length (stmt_tokens s) < m" "constant_count p2 + length (stmt_consts s) \<le> 255" using assms(13,14) c2(3) by simp_all
  obtain p3 p4 p5 t where p5: "emit_jump op_jump_if_false p2 = Inr (code_len p + length (expr_code e ?k) + 1, p3)"
    "emit_op op_pop p3 = Inr ((), p4)" "parse_fuel m L N_statement p4 = Inr ((), p5)"
    "advanced ((i # l # expr_tokens e @ [r]) @ stmt_tokens s)
      (expr_code e ?k @ [op_byte op_jump_if_false, 255, 255] @ [op_byte op_pop] @ stmt_code s (constant_count p2))
      (expr_consts e @ stmt_consts s) p p5" "pa_prev p5 = Some t"
    by (rule guarded_run [OF assms(1,2) a2 c2(1) assms(9) c2(2) assms(4,12) body(1) assms(10) body(2)])
  let ?bs = "expr_code e ?k @ [op_byte op_jump_if_false, 255, 255] @ [op_byte op_pop] @ stmt_code s (constant_count p2)"
  obtain p6 where p6: "emit_jump op_jump p5 = Inr (code_len p + length ?bs + 1, p6)"
    "advanced ((i # l # expr_tokens e @ [r]) @ stmt_tokens s) (?bs @ [op_byte op_jump, 255, 255]) (expr_consts e @ stmt_consts s) p p6"
    "pa_prev p6 = Some t"
    by (rule emit_jump_behind [OF p5(4) assms(1) p5(5)])
  let ?cs = "[op_byte op_pop] @ stmt_code s (constant_count p2) @ [op_byte op_jump, 255, 255]"
  have a6: "advanced ((i # l # expr_tokens e @ [r]) @ stmt_tokens s)
      (expr_code e ?k @ [op_byte op_jump_if_false, 255, 255] @ ?cs) (expr_consts e @ stmt_consts s) p p6" using p6(2) by simp
  obtain p7 where p7: "patch_jump (code_len p + expr_size e + 1) p6 = Inr ((), p7)"
    "advanced ((i # l # expr_tokens e @ [r]) @ stmt_tokens s)
      (expr_code e ?k @ jump_code op_jump_if_false (length ?cs) @ ?cs) (expr_consts e @ stmt_consts s) p p7" "pa_prev p7 = pa_prev p6"
    by (rule patch_jump_then [OF a6 assms(1)]) (use assms(11) in simp_all)
  have t: "pa_prev p7 = Some t" using p7(3) p6(3) by simp
  obtain q where q: "emit_byte (op_byte op_pop) p7 = Inr ((), q)"
    "advanced ((i # l # expr_tokens e @ [r]) @ stmt_tokens s)
      ((expr_code e ?k @ jump_code op_jump_if_false (length ?cs) @ ?cs) @ [op_byte op_pop]) (expr_consts e @ stmt_consts s) p q"
    "pa_prev q = Some t"
    by (rule emit_byte_then [OF p7(2) assms(1) t])
  have "parse_match ty p = Inr (False, p)" if "ty \<noteq> token_if" for ty
    by (rule parse_match_other [OF assms(3)]) (use assms(5) that in simp)
  moreover have i: "code_len p + length ?bs + 1 = code_len p + expr_size e + stmt_size s + 5" by simp
  ultimately have "parse_statement ?C p = act_seq [act_if (parse_match token_else) (parse_fuel m L N_statement) (act_return ()),
      patch_jump (code_len p + expr_size e + stmt_size s + 5)] q"
    using p1(1) p2(1) p5(1) [unfolded length_expr_code] p5(2,3) p6(1) [unfolded i] p7(1) q(1)
    by (simp add: parse_statement_def parse_if_statement_def emit_op_def act_simps)
  moreover have len: "length ?cs = stmt_size s + 4" by simp
  ultimately show thesis using q(2) [unfolded len] q(3) c2(3) by (intro that [of q t]) (simp_all del: op_byte.simps)
qed

lemma parses_if:
  assumes "stmt_ok (S_if i l e r s)" and "parses s"
  shows "parses (S_if i l e r s)"
  unfolding parses_def
proof (intro allI impI)
  let ?s = "S_if i l e r s"
  fix L n p us
  assume p: "primed p" "\<not> pa_panic_mode p" "pa_curr p = stmt_tokens ?s @ us" "us \<noteq> []" "dangling ?s \<longrightarrow> tk_type (hd us) \<noteq> token_else"
    and n: "length (stmt_tokens ?s) < n" and k: "constant_count p + length (stmt_consts ?s) \<le> 255"
  obtain m where m: "n = Suc m" "length (expr_tokens e) + length (stmt_tokens s) < m" using n by (cases n) auto
  let ?a = "expr_code e (constant_count p) @ jump_code op_jump_if_false (stmt_size s + 4) @ [op_byte op_pop] @
        stmt_code s (constant_count p + length (expr_consts e))"
  have curr: "pa_curr p = i # l # expr_tokens e @ r # stmt_tokens s @ us" using p(3) by simp
  obtain q where q: "parse_statement (at_fuel L m) p = act_seq [act_if (parse_match token_else) (parse_fuel m L N_statement) (act_return ()),
        patch_jump (code_len p + expr_size e + stmt_size s + 5)] q"
    "advanced (i # l # expr_tokens e @ r # stmt_tokens s)
      (expr_code e (constant_count p) @ jump_code op_jump_if_false (stmt_size s + 4) @ [op_byte op_pop] @
        stmt_code s (constant_count p + length (expr_consts e)) @ [op_byte op_jump, 255, 255] @ [op_byte op_pop])
      (expr_consts e @ stmt_consts s) p q"
    by (rule if_run [OF p(1,2) curr p(4), where L = L and m = m]) (use assms p(5) m(2) k in simp_all)
  then have a: "advanced (stmt_tokens ?s) (?a @ [op_byte op_jump, 255, 255] @ [op_byte op_pop]) (stmt_consts ?s) p q" by simp
  have "pa_curr q = us" using advancedD(1) [OF a] curr by simp
  moreover have "tk_type (hd us) \<noteq> token_else" using p(5) by simp
  ultimately have other: "parse_match token_else q = Inr (False, q)"
    using p(4) by (cases us) (simp_all add: parse_match_other)
  have i: "code_len p + expr_size e + stmt_size s + 5 = code_len p + length ?a + 1" by simp
  obtain r where r: "patch_jump (code_len p + expr_size e + stmt_size s + 5) q = Inr ((), r)"
    "advanced (stmt_tokens ?s) (?a @ jump_code op_jump (length [op_byte op_pop]) @ [op_byte op_pop]) (stmt_consts ?s) p r"
    by (rule patch_jump_then [OF a p(1) _ i]) simp
  have "parse_fuel n L N_statement p = Inr ((), r)" using q(1) r(1) other m(1) by (simp add: act_simps)
  with r(2) show "\<exists>q. parse_fuel n L N_statement p = Inr ((), q) \<and>
      advanced (stmt_tokens ?s) (stmt_code ?s (constant_count p)) (stmt_consts ?s) p q" by auto
qed

lemma parses_if_else:
  assumes "stmt_ok (S_if_else i l e r s el t)" and "parses s" and "parses t"
  shows "parses (S_if_else i l e r s el t)"
  unfolding parses_def
proof (intro allI impI)
  let ?s = "S_if_else i l e r s el t"
  fix L n p us
  assume p: "primed p" "\<not> pa_panic_mode p" "pa_curr p = stmt_tokens ?s @ us" "us \<noteq> []" "dangling ?s \<longrightarrow> tk_type (hd us) \<noteq> token_else"
    and n: "length (stmt_tokens ?s) < n" and k: "constant_count p + length (stmt_consts ?s) \<le> 255"
  obtain m where m: "n = Suc m" "length (expr_tokens e) + length (stmt_tokens s) < m" "length (stmt_tokens t) < m" using n by (cases n) auto
  let ?k = "constant_count p + length (expr_consts e)"
  let ?a = "expr_code e (constant_count p) @ jump_code op_jump_if_false (stmt_size s + 4) @ [op_byte op_pop] @ stmt_code s ?k"
    and ?cs = "[op_byte op_pop] @ stmt_code t (?k + length (stmt_consts s))"
  have ok: "tk_type el = token_else" "stmt_size t + 1 \<le> 65535" using assms(1) by simp_all
  have curr: "pa_curr p = i # l # expr_tokens e @ r # stmt_tokens s @ el # stmt_tokens t @ us" using p(3) by simp
  obtain q where q: "parse_statement (at_fuel L m) p = act_seq [act_if (parse_match token_else) (parse_fuel m L N_statement) (act_return ()),
        patch_jump (code_len p + expr_size e + stmt_size s + 5)] q"
    "advanced (i # l # expr_tokens e @ r # stmt_tokens s)
      (expr_code e (constant_count p) @ jump_code op_jump_if_false (stmt_size s + 4) @ [op_byte op_pop] @
        stmt_code s ?k @ [op_byte op_jump, 255, 255] @ [op_byte op_pop]) (expr_consts e @ stmt_consts s) p q"
    by (rule if_run [OF p(1,2) curr, where L = L and m = m]) (use assms m(2) k in simp_all)
  have cq: "primed q" "\<not> pa_panic_mode q" "pa_curr q = el # stmt_tokens t @ us" "constant_count q = ?k + length (stmt_consts s)"
    using advancedD [OF q(2)] p(1,2) curr by simp_all
  obtain q1 where q1: "parse_match token_else q = Inr (True, q1)" "advanced [el] [] [] q q1"
    by (rule parse_match_run [OF cq(1,3) ok(1)]) simp
  have c1: "primed q1" "\<not> pa_panic_mode q1" "pa_curr q1 = stmt_tokens t @ us" "constant_count q1 = ?k + length (stmt_consts s)"
    using advancedD [OF q1(2)] cq by simp_all
  obtain q2 where q2: "parse_fuel m L N_statement q1 = Inr ((), q2)"
    "advanced (stmt_tokens t) (stmt_code t (constant_count q1)) (stmt_consts t) q1 q2"
    by (rule parsesE [OF assms(3) c1(1-3) p(4) _ m(3), of L]) (use p(5) k c1(4) in simp_all)
  have a: "advanced (stmt_tokens ?s) (?a @ [op_byte op_jump, 255, 255] @ ?cs) (stmt_consts ?s) p q2"
    using advanced_trans [OF q(2) advanced_trans [OF q1(2) q2(2)]] c1(4) by simp
  have i: "code_len p + expr_size e + stmt_size s + 5 = code_len p + length ?a + 1" by simp
  obtain r where r: "patch_jump (code_len p + expr_size e + stmt_size s + 5) q2 = Inr ((), r)"
    "advanced (stmt_tokens ?s) (?a @ jump_code op_jump (length ?cs) @ ?cs) (stmt_consts ?s) p r"
    by (rule patch_jump_then [OF a p(1) _ i]) (use ok(2) in simp)
  have "parse_fuel n L N_statement p = Inr ((), r)" using q(1) q1(1) q2(1) r(1) m(1) by (simp add: act_simps)
  with r(2) show "\<exists>q. parse_fuel n L N_statement p = Inr ((), q) \<and>
      advanced (stmt_tokens ?s) (stmt_code ?s (constant_count p)) (stmt_consts ?s) p q" by (auto simp: add.assoc)
qed

text \<open>A loop keeps its start in the compiler while the body is read, and forgets it at the end.\<close>

lemma loop_run:
  assumes "primed p" and "\<And>p'. primed p' \<Longrightarrow> constant_count p' = constant_count p \<Longrightarrow> code_len p' = code_len p \<Longrightarrow>
      pa_curr p' = pa_curr p \<Longrightarrow> pa_prev p' = pa_prev p \<Longrightarrow> pa_panic_mode p' = pa_panic_mode p \<Longrightarrow>
      \<exists>q. m p' = Inr ((), q) \<and> advanced ts bs ks p' q"
  obtains q where "act_seq [begin_loop start, m, finish_loop] p = Inr ((), q)" and "advanced ts bs ks p q"
proof -
  obtain c where c: "pa_compilers p = [c]" "script_level c" using assms(1) by (auto simp: primed_def)
  let ?c = "c\<lparr>co_loops := \<lparr>lp_start = start, lp_end = None\<rparr> # co_loops c\<rparr>"
  let ?p = "p\<lparr>pa_compilers := [?c]\<rparr>"
  have b: "begin_loop start p = Inr ((), ?p)"
    using c(1) by (simp add: begin_loop_def modify_compiler_def this_compiler_def put_compiler_def act_simps)
  have "primed ?p" "constant_count ?p = constant_count p" "code_len ?p = code_len p"
    using c by (auto simp: primed_def script_level_def constant_count_def code_len_def)
  from assms(2) [OF this] obtain q where q: "m ?p = Inr ((), q)" "advanced ts bs ks ?p q" by auto
  obtain ck where ck: "pa_compilers q = [set_chunk ck ?c]" "advanced ts bs ks p (q\<lparr>pa_compilers := [set_chunk ck c]\<rparr>)"
    by (rule advanced_within [OF q(2) c(1)]) simp
  have "(set_chunk ck ?c)\<lparr>co_loops := co_loops c\<rparr> = set_chunk ck c" by (simp add: set_chunk_def)
  then have "finish_loop q = Inr ((), q\<lparr>pa_compilers := [set_chunk ck c]\<rparr>)"
    using ck(1) by (simp add: finish_loop_def curr_loop_def end_loop_def modify_compiler_def this_compiler_def put_compiler_def
        set_chunk_def act_simps)
  with b q(1) ck(2) show thesis by (intro that [of "q\<lparr>pa_compilers := [set_chunk ck c]\<rparr>"]) (simp_all add: act_simps)
qed

text \<open>What \<open>while\<close> does between the two.\<close>

definition while_body :: "ctx \<Rightarrow> nat \<Rightarrow> unit pact" where
  "while_body C start = act_bind (emit_jump op_jump_if_false) (\<lambda>exit_jump. act_seq
     [emit_op op_pop, cx_rec C N_statement, emit_loop start, patch_jump exit_jump, emit_op op_pop])"

lemma while_body_run:
  assumes "primed p" and "\<not> pa_panic_mode p" and "pa_prev p = Some t" and "parses s" and "pa_curr p = stmt_tokens s @ us"
    and "us \<noteq> []" and "dangling s \<longrightarrow> tk_type (hd us) \<noteq> token_else" and "length (stmt_tokens s) < m" and "stmt_ok s"
    and "constant_count p + length (stmt_consts s) \<le> 255" and "code_len p = start + n" and "n + stmt_size s + 7 \<le> 65535"
  obtains q where "while_body (at_fuel L m) start p = Inr ((), q)"
    and "advanced (stmt_tokens s) (jump_code op_jump_if_false (stmt_size s + 4) @ [op_byte op_pop] @ stmt_code s (constant_count p) @
      jump_code op_loop (n + stmt_size s + 7) @ [op_byte op_pop]) (stmt_consts s) p q"
proof -
  let ?j = "n + stmt_size s + 7" and ?S = "stmt_code s (constant_count p)"
  obtain p3 p4 p5 t' where p5: "emit_jump op_jump_if_false p = Inr (code_len p + length ([] :: u8 list) + 1, p3)"
    "emit_op op_pop p3 = Inr ((), p4)" "parse_fuel m L N_statement p4 = Inr ((), p5)"
    "advanced ([] @ stmt_tokens s) ([] @ [op_byte op_jump_if_false, 255, 255] @ [op_byte op_pop] @ ?S) ([] @ stmt_consts s) p p5"
    "pa_prev p5 = Some t'"
    by (rule guarded_run [OF assms(1,2) advanced_refl [OF assms(1)] assms(3-10)])
  obtain p6 where p6: "emit_loop start p5 = Inr ((), p6)"
    "advanced ([] @ stmt_tokens s) (([] @ [op_byte op_jump_if_false, 255, 255] @ [op_byte op_pop] @ ?S) @ jump_code op_loop ?j)
      ([] @ stmt_consts s) p p6" "pa_prev p6 = Some t'"
    by (rule emit_loop_then [OF p5(4) assms(1) p5(5), of start ?j]) (use assms(11,12) in simp_all)
  let ?cs = "[op_byte op_pop] @ ?S @ jump_code op_loop ?j"
  have a6: "advanced (stmt_tokens s) ([] @ [op_byte op_jump_if_false, 255, 255] @ ?cs) (stmt_consts s) p p6" using p6(2) by simp
  obtain p7 where p7: "patch_jump (code_len p + length ([] :: u8 list) + 1) p6 = Inr ((), p7)"
    "advanced (stmt_tokens s) ([] @ jump_code op_jump_if_false (length ?cs) @ ?cs) (stmt_consts s) p p7" "pa_prev p7 = pa_prev p6"
    by (rule patch_jump_then [OF a6 assms(1) _ refl]) (use assms(12) in simp)
  have t: "pa_prev p7 = Some t'" using p7(3) p6(3) by simp
  obtain q where q: "emit_byte (op_byte op_pop) p7 = Inr ((), q)"
    "advanced (stmt_tokens s) (([] @ jump_code op_jump_if_false (length ?cs) @ ?cs) @ [op_byte op_pop]) (stmt_consts s) p q"
    by (rule emit_byte_then [OF p7(2) assms(1) t])
  have "while_body (at_fuel L m) start p = Inr ((), q)"
    using p5(1-3) p6(1) p7(1) q(1) by (simp add: while_body_def emit_op_def act_simps)
  moreover have len: "length ?cs = stmt_size s + 4" by simp
  ultimately show thesis using q(2) [unfolded len] by (intro that [of q]) (simp_all del: op_byte.simps)
qed

lemma while_statement:
  "parse_while_statement C = act_bind code_count (\<lambda>start.
     act_then (parse_condition C ''Expected ) after condition.'') (act_seq [begin_loop start, while_body C start, finish_loop]))"
  by (rule ext) (simp add: parse_while_statement_def while_body_def act_simps andThen_assoc case_prod_unfold)

lemma parses_while:
  assumes "stmt_ok (S_while w l e r s)" and "parses s"
  shows "parses (S_while w l e r s)"
  unfolding parses_def
proof (intro allI impI)
  let ?s = "S_while w l e r s"
  fix L n p us
  assume p: "primed p" "\<not> pa_panic_mode p" "pa_curr p = stmt_tokens ?s @ us" "us \<noteq> []" "dangling ?s \<longrightarrow> tk_type (hd us) \<noteq> token_else"
    and n: "length (stmt_tokens ?s) < n" and k: "constant_count p + length (stmt_consts ?s) \<le> 255"
  have ok: "tk_type w = token_while" "tk_type l = token_left_paren" "expr_ok e" "tk_type r = token_right_paren" "stmt_ok s"
    "expr_size e + stmt_size s + 7 \<le> 65535" using assms(1) by simp_all
  obtain m where m: "n = Suc m" "length (expr_tokens e) < m" "length (stmt_tokens s) < m" using n by (cases n) auto
  let ?C = "at_fuel L m" and ?k = "constant_count p"
  have curr: "pa_curr p = w # (l # expr_tokens e @ r # stmt_tokens s @ us)" using p(3) by simp
  obtain p1 where p1: "parse_match token_while p = Inr (True, p1)" "advanced [w] [] [] p p1"
    by (rule parse_match_run [OF p(1) curr ok(1)]) simp
  have c1: "primed p1" "constant_count p1 = ?k" "pa_curr p1 = l # expr_tokens e @ r # stmt_tokens s @ us" "\<not> pa_panic_mode p1"
    using advancedD [OF p1(2)] p(1,2) curr by simp_all
  obtain p2 where p2: "parse_condition ?C ''Expected ) after condition.'' p1 = Inr ((), p2)"
    "advanced (l # expr_tokens e @ [r]) (expr_code e (constant_count p1)) (expr_consts e) p1 p2"
    by (rule condition_run [OF ok(3) c1(1,3) ok(2,4) m(2)]) (use k c1(2) in simp_all)
  have c2: "primed p2" "\<not> pa_panic_mode p2" "pa_prev p2 = Some r" "pa_curr p2 = stmt_tokens s @ us"
    "constant_count p2 = ?k + length (expr_consts e)" "code_len p2 = code_len p1 + expr_size e"
    using advancedD [OF p2(2)] advanced_len [OF p2(2)] c1 by simp_all
  let ?bs = "jump_code op_jump_if_false (stmt_size s + 4) @ [op_byte op_pop] @ stmt_code s (constant_count p2) @
      jump_code op_loop (expr_size e + stmt_size s + 7) @ [op_byte op_pop]"
  have "\<exists>q. while_body ?C (code_len p1) p' = Inr ((), q) \<and> advanced (stmt_tokens s) ?bs (stmt_consts s) p' q"
    if p': "primed p'" "constant_count p' = constant_count p2" "code_len p' = code_len p2" "pa_curr p' = pa_curr p2" "pa_prev p' = pa_prev p2"
      "pa_panic_mode p' = pa_panic_mode p2" for p'
  proof -
    have c': "\<not> pa_panic_mode p'" "pa_prev p' = Some r" "pa_curr p' = stmt_tokens s @ us"
      "constant_count p' + length (stmt_consts s) \<le> 255" "code_len p' = code_len p1 + expr_size e" "dangling s \<longrightarrow> tk_type (hd us) \<noteq> token_else"
      using p' c2 k p(5) by simp_all
    obtain q where "while_body ?C (code_len p1) p' = Inr ((), q)"
      "advanced (stmt_tokens s) (jump_code op_jump_if_false (stmt_size s + 4) @ [op_byte op_pop] @ stmt_code s (constant_count p') @
        jump_code op_loop (expr_size e + stmt_size s + 7) @ [op_byte op_pop]) (stmt_consts s) p' q"
      by (rule while_body_run [OF p'(1) c'(1,2) assms(2) c'(3) p(4) c'(6) m(3) ok(5) c'(4,5) ok(6)])
    then show ?thesis unfolding p'(2) by blast
  qed
  then obtain q where q: "act_seq [begin_loop (code_len p1), while_body ?C (code_len p1), finish_loop] p2 = Inr ((), q)"
    "advanced (stmt_tokens s) ?bs (stmt_consts s) p2 q"
    using loop_run [OF c2(1), of "while_body ?C (code_len p1)" "stmt_tokens s" ?bs "stmt_consts s" "code_len p1"] by blast
  have "code_count p1 = Inr (code_len p1, p1)" using primed_chunk [OF c1(1)] by blast
  then have "parse_while_statement ?C p1 = Inr ((), q)" using p2(1) q(1) by (simp add: while_statement act_bind_apply act_then_apply)
  moreover have "parse_match ty p = Inr (False, p)" if "ty \<noteq> token_while" for ty
    by (rule parse_match_other [OF curr]) (use ok(1) that in simp)
  ultimately have "parse_fuel n L N_statement p = Inr ((), q)"
    using p1(1) m(1) by (simp add: parse_statement_def act_simps)
  moreover have "advanced (stmt_tokens ?s) (stmt_code ?s ?k) (stmt_consts ?s) p q"
    using advanced_trans [OF p1(2) advanced_trans [OF p2(2) q(2)]] c1(2) c2(5) by simp
  ultimately show "\<exists>q. parse_fuel n L N_statement p = Inr ((), q) \<and>
      advanced (stmt_tokens ?s) (stmt_code ?s (constant_count p)) (stmt_consts ?s) p q" by blast
qed

lemma parses_all: "stmt_ok s \<Longrightarrow> parses s"
proof (induction s)
  case (S_block l ss r)
  then show ?case by (intro parses_block) auto
qed (auto intro: parses_assign parses_expr parses_if parses_if_else parses_while)

end
