(* ===== verification/Joker_Programs.thy ===== *)
theory Joker_Programs
  imports Joker_Statements Joker_Interpret
begin

text \<open>
  What statements do, as a big-step semantics of the trees, and that the machine does it: the code of a
  statement runs from every machine at its start to the bindings that the semantics gives. With the parser
  of \<open>Joker_Statements\<close>, programs are followed from the source to the globals.
\<close>

subsection \<open>What a statement does\<close>

type_synonym bindings = "string \<Rightarrow> jvalue option"

text \<open>
  A condition is a boolean, an assignment is to a global that exists. A statement whose evaluation reports an
  error does nothing here, and neither does a loop that never ends.
\<close>

inductive does :: "env \<Rightarrow> stmt \<Rightarrow> bindings \<Rightarrow> bindings \<Rightarrow> bool"
  and does_all :: "env \<Rightarrow> stmt list \<Rightarrow> bindings \<Rightarrow> bindings \<Rightarrow> bool" for E where
  does_assign: "eval E g e = Some v \<Longrightarrow> g (tk_lexeme x) \<noteq> None \<Longrightarrow> does E (S_assign x a e s) g (g(tk_lexeme x \<mapsto> v))"
| does_expr: "eval E g e = Some v \<Longrightarrow> does E (S_expr e s) g g"
| does_block: "does_all E ss g g' \<Longrightarrow> does E (S_block l ss r) g g'"
| does_if_true: "eval E g e = Some (VBool True) \<Longrightarrow> does E s g g' \<Longrightarrow> does E (S_if i l e r s) g g'"
| does_if_false: "eval E g e = Some (VBool False) \<Longrightarrow> does E (S_if i l e r s) g g"
| does_then: "eval E g e = Some (VBool True) \<Longrightarrow> does E s g g' \<Longrightarrow> does E (S_if_else i l e r s el t) g g'"
| does_else: "eval E g e = Some (VBool False) \<Longrightarrow> does E t g g' \<Longrightarrow> does E (S_if_else i l e r s el t) g g'"
| does_while_true: "eval E g e = Some (VBool True) \<Longrightarrow> does E s g g' \<Longrightarrow> does E (S_while w l e r s) g' g'' \<Longrightarrow>
    does E (S_while w l e r s) g g''"
| does_while_false: "eval E g e = Some (VBool False) \<Longrightarrow> does E (S_while w l e r s) g g"
| does_nil: "does_all E [] g g"
| does_cons: "does E s g g' \<Longrightarrow> does_all E ss g' g'' \<Longrightarrow> does_all E (s # ss) g g''"

inductive_cases doesE:
  "does E (S_assign x a e s) g g'" "does E (S_expr e s) g g'" "does E (S_block l ss r) g g'" "does E (S_if i l e r s) g g'"
  "does E (S_if_else i l e r s el t) g g'" "does E (S_while w l e r s) g g'" "does_all E [] g g'" "does_all E (s # ss) g g'"

text \<open>At most one result: the machine has no choice either.\<close>

lemma does_unique:
  "does E s g g' \<Longrightarrow> does E s g h \<Longrightarrow> h = g'" "does_all E ss g g' \<Longrightarrow> does_all E ss g h \<Longrightarrow> h = g'"
proof (induction arbitrary: h and h rule: does_does_all.inducts)
  case does_assign
  from does_assign.prems show ?case by (rule doesE(1)) (simp_all add: does_assign(1))
next
  case does_expr
  from does_expr.prems show ?case by (rule doesE(2)) (simp)
next
  case does_block
  from does_block.prems show ?case by (rule doesE(3)) (rule does_block(2))
next
  case does_if_true
  from does_if_true.prems show ?case by (rule doesE(4)) (simp_all add: does_if_true(1,3))
next
  case does_if_false
  from does_if_false.prems show ?case by (rule doesE(4)) (simp_all add: does_if_false(1))
next
  case does_then
  from does_then.prems show ?case by (rule doesE(5)) (simp_all add: does_then(1,3))
next
  case does_else
  from does_else.prems show ?case by (rule doesE(5)) (simp_all add: does_else(1,3))
next
  case does_while_true
  from does_while_true.prems show ?case
    by (rule doesE(6)) (metis does_while_true(3,5), simp add: does_while_true(1))
next
  case does_while_false
  from does_while_false.prems show ?case by (rule doesE(6)) (simp_all add: does_while_false(1))
next
  case does_nil
  from does_nil.prems show ?case by (rule doesE(7)) (simp)
next
  case does_cons
  from does_cons.prems show ?case by (rule doesE(8)) (use does_cons(2,4) in metis)
qed

subsection \<open>Code as a change of position, stack and bindings\<close>

text \<open>
  From every machine at \<open>ip\<close> with the stack \<open>xs\<close> and the globals \<open>g\<close>, the code runs to \<open>ip'\<close>, \<open>ys\<close> and \<open>g'\<close>. The
  table of the globals does not grow.
\<close>

definition effect :: "env \<Rightarrow> nat \<Rightarrow> chunk \<Rightarrow> nat \<Rightarrow> jvalue list \<Rightarrow> bindings \<Rightarrow> nat \<Rightarrow> jvalue list \<Rightarrow> bindings \<Rightarrow> bool" where
  "effect E fp ck ip xs g ip' ys g' \<longleftrightarrow> (\<forall>vm m. at_point fp ck ip xs m vm \<longrightarrow> hm_map m = g \<longrightarrow> hm_count m < hm_limit \<longrightarrow>
     (\<exists>vm' m'. exec E fp vm vm' \<and> at_point fp ck ip' ys m' vm' \<and> hm_map m' = g' \<and> hm_count m' \<le> hm_count m))"

lemma effectD:
  assumes "effect E fp ck ip xs g ip' ys g'" and "at_point fp ck ip xs m vm" and "hm_map m = g" and "hm_count m < hm_limit"
  obtains vm' m' where "exec E fp vm vm'" and "at_point fp ck ip' ys m' vm'" and "hm_map m' = g'" and "hm_count m' \<le> hm_count m"
  using assms unfolding effect_def by blast

lemma effect_trans:
  assumes "effect E fp ck ip xs g ip1 ys g1" and "effect E fp ck ip1 ys g1 ip2 zs g2"
  shows "effect E fp ck ip xs g ip2 zs g2"
  unfolding effect_def
proof (intro allI impI)
  fix vm m
  assume m: "at_point fp ck ip xs m vm" "hm_map m = g" "hm_count m < hm_limit"
  obtain vm1 m1 where one: "exec E fp vm vm1" "at_point fp ck ip1 ys m1 vm1" "hm_map m1 = g1" "hm_count m1 \<le> hm_count m"
    by (rule effectD [OF assms(1) m])
  have "hm_count m1 < hm_limit" using one(4) m(3) by simp
  then obtain vm2 m2 where two: "exec E fp vm1 vm2" "at_point fp ck ip2 zs m2 vm2" "hm_map m2 = g2" "hm_count m2 \<le> hm_count m1"
    by (rule effectD [OF assms(2) one(2,3)])
  show "\<exists>vm' m'. exec E fp vm vm' \<and> at_point fp ck ip2 zs m' vm' \<and> hm_map m' = g2 \<and> hm_count m' \<le> hm_count m"
    using exec_trans [OF one(1) two(1)] two(2,3) le_trans [OF two(4) one(4)] by blast
qed

lemma effect_refl: "effect E fp ck ip xs g ip xs g"
  unfolding effect_def using exec_refl by blast

text \<open>One instruction that leaves the globals alone.\<close>

lemma effect_step:
  assumes "code_at ck ip [op_byte op]" and "op \<noteq> op_return" and "\<not> reloads_frame op"
    and "\<And>vm m. at_point fp ck (Suc ip) xs m vm \<Longrightarrow>
      \<exists>r vm'. dispatch E op fp vm = Inr (r, vm') \<and> at_point fp ck ip' ys m vm' \<and> moves fp vm vm'"
  shows "effect E fp ck ip xs g ip' ys g"
  unfolding effect_def
proof (intro allI impI)
  fix vm m
  assume m: "at_point fp ck ip xs m vm" "hm_map m = g"
  obtain vm' where "exec E fp vm vm'" "at_point fp ck ip' ys m vm'"
    by (rule step_at [OF m(1) assms(1-3), of E ip' ys m]) (use assms(4) in blast)
  with m(2) show "\<exists>vm' m'. exec E fp vm vm' \<and> at_point fp ck ip' ys m' vm' \<and> hm_map m' = g \<and> hm_count m' \<le> hm_count m" by blast
qed

lemma effect_expr:
  assumes "expr_ok e" and "code_at ck ip (expr_code e k)" and "constants_at ck k (expr_consts e)"
    and "length xs + length (expr_tokens e) \<le> constant_stack_max" and "eval E g e = Some v"
  shows "effect E fp ck ip xs g (ip + expr_size e) (xs @ [v]) g"
  unfolding effect_def
proof (intro allI impI)
  fix vm m
  assume m: "at_point fp ck ip xs m vm" "hm_map m = g"
  with expr_exec [OF assms(1) m(1) assms(2-4), of E v] assms(5)
  show "\<exists>vm' m'. exec E fp vm vm' \<and> at_point fp ck (ip + expr_size e) (xs @ [v]) m' vm' \<and> hm_map m' = g \<and> hm_count m' \<le> hm_count m"
    by auto
qed

lemma effect_pop:
  assumes "code_at ck ip [op_byte op_pop]"
  shows "effect E fp ck ip (xs @ [v]) g (Suc ip) xs g"
proof (rule effect_step [OF assms])
  fix vm m
  assume m: "at_point fp ck (Suc ip) (xs @ [v]) m vm"
  then have st: "stack_is vm (xs @ [v])" by (simp add: at_point_def)
  obtain vm' where "pop vm = Inr (v, vm')" "stack_is vm' xs" "same_rest vm vm'"
    using pop_stack [OF st] by (auto simp: same_rest_def)
  with at_point_rest [OF m, of vm' xs] show "\<exists>r vm'. dispatch E op_pop fp vm = Inr (r, vm') \<and> at_point fp ck (Suc ip) xs m vm' \<and> moves fp vm vm'"
    by (simp add: dispatch_def handle_op_pop_def ok_def act_simps)
qed (simp_all add: reloads_frame_def)

lemma code_at_take:
  "code_at ck ip bs \<longleftrightarrow> chunk_wf ck \<and> ip + length bs \<le> length (chunk_bytes ck) \<and> take (length bs) (drop ip (chunk_bytes ck)) = bs"
proof
  assume r: "chunk_wf ck \<and> ip + length bs \<le> length (chunk_bytes ck) \<and> take (length bs) (drop ip (chunk_bytes ck)) = bs"
  then have "chunk_bytes ck = take ip (chunk_bytes ck) @ bs @ drop (length bs) (drop ip (chunk_bytes ck))"
    by (metis append_take_drop_id)
  moreover have "length (take ip (chunk_bytes ck)) = ip" using r by simp
  ultimately show "code_at ck ip bs" using r unfolding code_at_def by blast
qed (auto simp: code_at_def)

lemma code_at_append_iff [simp]:
  "code_at ck ip (as @ bs) \<longleftrightarrow> code_at ck ip as \<and> code_at ck (ip + length as) bs"
  by (auto simp: code_at_take take_add add.commute append_eq_append_conv)

lemma effect_jump:
  assumes "code_at ck ip (jump_code op_jump j)" and "j \<le> 65535"
  shows "effect E fp ck ip xs g (ip + 3 + j) xs g"
proof (rule effect_step)
  have c: "code_at ck ip ([op_byte op_jump] @ [high_byte (int j), low_byte (int j)])" using assms(1) by (simp add: jump_code_def)
  then show "code_at ck ip [op_byte op_jump]" by (simp only: code_at_append_iff)
  have code: "code_at ck (Suc ip) [high_byte (int j), low_byte (int j)]" using c by (simp only: code_at_append_iff) simp
  fix vm m
  assume m: "at_point fp ck (Suc ip) xs m vm"
  obtain vm' where "handle_op_jump fp vm = Inr (interpret_ok, vm')" "at_point fp ck (Suc ip + 2 + nat (int j)) xs m vm'" "moves fp vm vm'"
    by (rule jump_at [OF m code]) (use assms(2) in \<open>simp_all add: UINT16_MAX_def\<close>)
  then show "\<exists>r vm'. dispatch E op_jump fp vm = Inr (r, vm') \<and> at_point fp ck (ip + 3 + j) xs m vm' \<and> moves fp vm vm'"
    by (auto simp: dispatch_def numeral_3_eq_3)
qed (simp_all add: reloads_frame_def)

lemma effect_loop:
  assumes "code_at ck ip (jump_code op_loop j)" and "j \<le> 65535" and "ip + 3 = start + j"
  shows "effect E fp ck ip xs g start xs g"
proof (rule effect_step)
  have c: "code_at ck ip ([op_byte op_loop] @ [high_byte (int j), low_byte (int j)])" using assms(1) by (simp add: jump_code_def)
  then show "code_at ck ip [op_byte op_loop]" by (simp only: code_at_append_iff)
  have code: "code_at ck (Suc ip) [high_byte (int j), low_byte (int j)]" using c by (simp only: code_at_append_iff) simp
  fix vm m
  assume m: "at_point fp ck (Suc ip) xs m vm"
  obtain vm' where "handle_op_loop fp vm = Inr (interpret_ok, vm')" "at_point fp ck (Suc ip + 2 - nat (int j)) xs m vm'" "moves fp vm vm'"
    by (rule loop_at [OF m code]) (use assms(2,3) in \<open>simp_all add: UINT16_MAX_def\<close>)
  moreover have "Suc ip + 2 - nat (int j) = start" using assms(3) by simp
  ultimately show "\<exists>r vm'. dispatch E op_loop fp vm = Inr (r, vm') \<and> at_point fp ck start xs m vm' \<and> moves fp vm vm'"
    by (auto simp: dispatch_def)
qed (simp_all add: reloads_frame_def)

lemma effect_jump_if_false:
  assumes "code_at ck ip (jump_code op_jump_if_false j)" and "j \<le> 65535"
  shows "effect E fp ck ip (xs @ [VBool b]) g (if b then ip + 3 else ip + 3 + j) (xs @ [VBool b]) g"
proof (rule effect_step)
  have c: "code_at ck ip ([op_byte op_jump_if_false] @ [high_byte (int j), low_byte (int j)])" using assms(1) by (simp add: jump_code_def)
  then show "code_at ck ip [op_byte op_jump_if_false]" by (simp only: code_at_append_iff)
  have code: "code_at ck (Suc ip) [high_byte (int j), low_byte (int j)]" using c by (simp only: code_at_append_iff) simp
  fix vm m
  let ?xs = "xs @ [VBool b]"
  assume m: "at_point fp ck (Suc ip) ?xs m vm"
  have "unat (high_byte (int j)) * 256 + unat (low_byte (int j)) = j" using jump_bytes [of "int j"] assms(2) by (simp add: UINT16_MAX_def)
  with read_short_at [OF m code] obtain vm1 where
    vm1: "read_short fp vm = Inr (j, vm1)" "at_point fp ck (Suc ip + 2) ?xs m vm1" "moves fp vm vm1" by metis
  have "stack_is vm1 ?xs" using vm1(2) by (simp add: at_point_def)
  then have peek: "peek_value 0 vm1 = Inr (VBool b, vm1)" using peek_stack(2) [of vm1 ?xs 0] by simp
  show "\<exists>r vm'. dispatch E op_jump_if_false fp vm = Inr (r, vm') \<and> at_point fp ck (if b then ip + 3 else ip + 3 + j) ?xs m vm' \<and> moves fp vm vm'"
  proof (cases b)
    case True
    with vm1 peek show ?thesis
      by (intro exI [of _ interpret_ok] exI [of _ vm1])
        (simp add: dispatch_def handle_op_jump_if_false_def is_falsey_def ok_def act_simps numeral_3_eq_3)
  next
    case False
    obtain f where f: "frame_at fp vm1 = Inr (f, vm1)" "cf_ip f = Suc ip + 2" using frame_ip_at [OF vm1(2)] by blast
    obtain vm2 where vm2: "set_ip fp (Suc ip + 2 + j) vm1 = Inr ((), vm2)" "at_point fp ck (Suc ip + 2 + j) ?xs m vm2" "moves fp vm1 vm2"
      by (rule set_ip_at [OF vm1(2)])
    with False vm1(1) peek f moves_trans [OF vm1(3) vm2(3)] show ?thesis
      by (intro exI [of _ interpret_ok] exI [of _ vm2])
        (simp add: dispatch_def handle_op_jump_if_false_def is_falsey_def jump_forward_def ok_def act_simps numeral_3_eq_3)
  qed
qed (simp_all add: reloads_frame_def)

text \<open>An assignment writes the entry that is there, so the table does not grow.\<close>

lemma assign_entry:
  assumes "hm_wf hash m" and "hm_count m < hm_limit" and "hm_map m k \<noteq> None"
  obtains m' i where "hashmap_get_entry hash m k = Inr (m', i)" and "\<not> is_empty_entry (hm_entries m' ! i)"
    and "\<And>v. let w = m'\<lparr>hm_entries := (hm_entries m')[i := (hm_entries m' ! i)\<lparr>e_value := v\<rparr>]\<rparr> in
      hm_wf hash w \<and> hm_map w = (hm_map m)(k \<mapsto> v) \<and> hm_count w \<le> hm_count m"
proof -
  obtain m1 where m1: "ensure_capacity hash m = Inr m1" "hm_wf hash m1" "hm_map m1 = hm_map m"
    "hm_count m1 \<le> hm_count m" "4 * (hm_count m1 + 1) \<le> 3 * hm_capacity m1"
    using ensure_capacity_correct [OF assms(1,2)] by blast
  have "hm_capacity m1 \<noteq> 0" using m1(5) by auto
  from hm_wf_good_slot [OF m1(2) this] obtain i where i: "good_slot hash (hm_entries m1) k i" .
  note slot = good_slotD [OF i m1(2)]
  have key: "e_key (hm_entries m1 ! i) = Some k" using slot(3,4) assms(3) m1(3) by auto
  have entry: "(hm_entries m1 ! i)\<lparr>e_value := v\<rparr> = \<lparr>e_key = Some k, e_value = v\<rparr>" for v
    using key by (cases "hm_entries m1 ! i") simp
  show thesis
  proof (rule that)
    show "hashmap_get_entry hash m k = Inr (m1, i)" using m1(1) slot(1) by (simp add: hashmap_get_entry_def)
    show "\<not> is_empty_entry (hm_entries m1 ! i)" using key by (simp add: is_empty_entry_def)
    fix v
    have "hm_wf hash (m1\<lparr>hm_entries := (hm_entries m1)[i := \<lparr>e_key = Some k, e_value = v\<rparr>]\<rparr>)"
      using m1(2) i slot(2) key by (simp add: hm_wf_def used_update good_slot_def is_empty_entry_def)
    moreover have "hm_map (m1\<lparr>hm_entries := (hm_entries m1)[i := \<lparr>e_key = Some k, e_value = v\<rparr>]\<rparr>) = (hm_map m)(k \<mapsto> v)"
      using i m1(3) by (simp add: hm_map_def good_slot_def)
    ultimately show "let w = m1\<lparr>hm_entries := (hm_entries m1)[i := (hm_entries m1 ! i)\<lparr>e_value := v\<rparr>]\<rparr> in
        hm_wf hash w \<and> hm_map w = (hm_map m)(k \<mapsto> v) \<and> hm_count w \<le> hm_count m"
      using m1(4) by (simp add: Let_def entry)
  qed
qed

lemma effect_assign:
  assumes "code_at ck ip [op_byte op_set_global, of_nat k]" and "constants_at ck k [string_value name]" and "g name \<noteq> None"
  shows "effect E fp ck ip (xs @ [v]) g (ip + 2) (xs @ [v]) (g(name \<mapsto> v))"
  unfolding effect_def
proof (intro allI impI)
  fix vm m
  let ?xs = "xs @ [v]"
  assume m: "at_point fp ck ip ?xs m vm" "hm_map m = g" "hm_count m < hm_limit"
  note code = code_at_Cons [OF assms(1)]
  have wf: "hm_wf hash_string m" using m(1) by (simp add: at_point_def)
  have "hm_map m name \<noteq> None" using m(2) assms(3) by simp
  from assign_entry [OF wf m(3) this] obtain m1 i where
    m1: "hashmap_get_entry hash_string m name = Inr (m1, i)" "\<not> is_empty_entry (hm_entries m1 ! i)"
    "let w = m1\<lparr>hm_entries := (hm_entries m1)[i := (hm_entries m1 ! i)\<lparr>e_value := v\<rparr>]\<rparr> in
      hm_wf hash_string w \<and> hm_map w = (hm_map m)(name \<mapsto> v) \<and> hm_count w \<le> hm_count m" by metis
  let ?m = "m1\<lparr>hm_entries := (hm_entries m1)[i := (hm_entries m1 ! i)\<lparr>e_value := v\<rparr>]\<rparr>"
  have "\<exists>r vm'. dispatch E op_set_global fp vm1 = Inr (r, vm') \<and> at_point fp ck (ip + 2) ?xs ?m vm' \<and> moves fp vm1 vm'"
    if vm1: "at_point fp ck (Suc ip) ?xs m vm1" for vm1
  proof -
    obtain vm2 where vm2: "read_string fp vm1 = Inr (name, vm2)" "at_point fp ck (Suc (Suc ip)) ?xs m vm2" "moves fp vm1 vm2"
      by (rule string_operand [OF vm1 code(2) assms(2)])
    have st: "stack_is (vm2\<lparr>vm_globals := m1\<rparr>) ?xs" and g: "vm_globals vm2 = m" using vm2(2) by (simp_all add: at_point_def)
    let ?vm' = "vm2\<lparr>vm_globals := ?m\<rparr>"
    have "peek_value 0 (vm2\<lparr>vm_globals := m1\<rparr>) = Inr (v, vm2\<lparr>vm_globals := m1\<rparr>)" using peek_stack(2) [OF st, of 0] by simp
    then have "dispatch E op_set_global fp vm1 = Inr (interpret_ok, ?vm')"
      using vm2(1) m1(1,2) g by (simp add: dispatch_def handle_op_set_global_def act_simps set_globals_def ok_def)
    moreover have "at_point fp ck (ip + 2) ?xs ?m ?vm'"
      using vm2(2) m1(3) by (simp add: at_point_def running_def Let_def)
    moreover have "moves fp vm1 ?vm'" using vm2(3) by (simp add: moves_def)
    ultimately show ?thesis by blast
  qed
  then obtain vm' where "exec E fp vm vm'" "at_point fp ck (ip + 2) ?xs ?m vm'"
    by (rule step_at [OF m(1) code(1), rotated 2]) (simp_all add: reloads_frame_def)
  then show "\<exists>vm' m'. exec E fp vm vm' \<and> at_point fp ck (ip + 2) ?xs m' vm' \<and> hm_map m' = g(name \<mapsto> v) \<and> hm_count m' \<le> hm_count m"
    using m1(3) m(2) by (intro exI [of _ vm'] exI [of _ ?m]) (simp add: Let_def)
qed

lemma constants_at_ConsD: "constants_at ck k (v # vs) \<Longrightarrow> constants_at ck k [v] \<and> constants_at ck (Suc k) vs"
  using constants_at_append [of ck k "[v]" vs] by simp

lemma length_one: "length [x] = 1"
  by simp

lemmas code_parts = code_at_append_iff length_expr_code length_jump_code length_stmt_code length_one

lemma code_moved: "code_at ck i bs \<Longrightarrow> i = j \<Longrightarrow> code_at ck j bs"
  by simp

lemma effect_to: "effect E fp ck i xs g i' ys g' \<Longrightarrow> i' = j \<Longrightarrow> effect E fp ck i xs g j ys g'"
  by simp

text \<open>
  The condition of a conditional or a loop: evaluated, tested, and popped on either way, before the statement
  \<open>s\<close> or behind the jump \<open>j\<close> that follows it.
\<close>

lemma effect_test:
  assumes "expr_ok e" and "stmt_size s + 4 \<le> 65535"
    and "code_at ck ip (expr_code e k @ jump_code op_jump_if_false (stmt_size s + 4) @ [op_byte op_pop] @ stmt_code s k' @ jump_code op j @
      [op_byte op_pop] @ bs)"
    and "constants_at ck k (expr_consts e @ ks)" and "length xs + length (expr_tokens e) \<le> constant_stack_max"
    and "eval E g e = Some (VBool b)"
  shows "effect E fp ck ip xs g (ip + expr_size e + 4 + (if b then 0 else stmt_size s + 4)) xs g"
proof -
  let ?j = "stmt_size s + 4"
  have c: "code_at ck ip (expr_code e k)" "code_at ck (ip + expr_size e) (jump_code op_jump_if_false ?j)"
    "code_at ck (ip + expr_size e + 3) [op_byte op_pop]"
    "code_at ck (ip + expr_size e + 3 + 1 + stmt_size s + 3) [op_byte op_pop]"
    using assms(3) by (simp_all only: code_parts)
  have exit: "code_at ck (ip + expr_size e + 3 + ?j) [op_byte op_pop]" by (rule code_moved [OF c(4)]) simp
  note go = effect_trans [OF effect_expr [OF assms(1) c(1) constants_at_append(1) [OF assms(4)] assms(5,6)]
      effect_jump_if_false [OF c(2) assms(2)], of fp]
  show ?thesis
  proof (cases b)
    case True
    from effect_trans [OF go [unfolded if_P [OF True]] effect_pop [OF c(3)]] True show ?thesis by (simp add: numeral_eq_Suc)
  next
    case False
    from effect_trans [OF go [unfolded if_not_P [OF False]] effect_pop [OF exit]] False show ?thesis by (simp add: numeral_eq_Suc)
  qed
qed

subsection \<open>The code of a statement does what the statement does\<close>

definition performs :: "env \<Rightarrow> nat \<Rightarrow> chunk \<Rightarrow> stmt \<Rightarrow> bindings \<Rightarrow> bindings \<Rightarrow> bool" where
  "performs E fp ck s g g' \<longleftrightarrow> (\<forall>ip k xs. stmt_ok s \<longrightarrow> code_at ck ip (stmt_code s k) \<longrightarrow> constants_at ck k (stmt_consts s) \<longrightarrow>
     length xs + length (stmt_tokens s) \<le> constant_stack_max \<longrightarrow> effect E fp ck ip xs g (ip + stmt_size s) xs g')"

definition performs_all :: "env \<Rightarrow> nat \<Rightarrow> chunk \<Rightarrow> stmt list \<Rightarrow> bindings \<Rightarrow> bindings \<Rightarrow> bool" where
  "performs_all E fp ck ss g g' \<longleftrightarrow> (\<forall>ip k xs. (\<forall>s\<in>set ss. stmt_ok s) \<longrightarrow> code_at ck ip (block_code ss k) \<longrightarrow>
     constants_at ck k (concat (map stmt_consts ss)) \<longrightarrow> length xs + length (concat (map stmt_tokens ss)) \<le> constant_stack_max \<longrightarrow>
     effect E fp ck ip xs g (ip + sum_list (map stmt_size ss)) xs g')"

lemma performsD:
  assumes "performs E fp ck s g g'" and "stmt_ok s" and "code_at ck ip (stmt_code s k)" and "constants_at ck k (stmt_consts s)"
    and "length xs + length (stmt_tokens s) \<le> constant_stack_max"
  shows "effect E fp ck ip xs g (ip + stmt_size s) xs g'"
  using assms unfolding performs_def by blast

lemma performs_assign:
  assumes "eval E g e = Some v" and "g (tk_lexeme x) \<noteq> None"
  shows "performs E fp ck (S_assign x a e s) g (g(tk_lexeme x \<mapsto> v))"
  unfolding performs_def
proof (intro allI impI)
  fix ip k and xs :: "jvalue list"
  assume ok: "stmt_ok (S_assign x a e s)" and code: "code_at ck ip (stmt_code (S_assign x a e s) k)"
    and ks: "constants_at ck k (stmt_consts (S_assign x a e s))"
    and room: "length xs + length (stmt_tokens (S_assign x a e s)) \<le> constant_stack_max"
  have c: "code_at ck ip (expr_code e (Suc k))" "code_at ck (ip + expr_size e) [op_byte op_set_global, of_nat k]"
    "code_at ck (ip + expr_size e + length [op_byte op_set_global, of_nat k]) [op_byte op_pop]"
    using code by (simp_all only: stmt_code.simps code_parts)
  have pop: "code_at ck (ip + expr_size e + 2) [op_byte op_pop]" using c(3) by simp
  have k: "constants_at ck k [string_value (tk_lexeme x)]" "constants_at ck (Suc k) (expr_consts e)"
    using constants_at_ConsD [of ck k "string_value (tk_lexeme x)" "expr_consts e"] ks by simp_all
  have e: "expr_ok e" "length xs + length (expr_tokens e) \<le> constant_stack_max" using ok room by simp_all
  from effect_trans [OF effect_trans [OF effect_expr [OF e(1) c(1) k(2) e(2) assms(1)] effect_assign [where g = g and name = "tk_lexeme x", OF c(2) k(1) assms(2)]] effect_pop [OF pop]]
  show "effect E fp ck ip xs g (ip + stmt_size (S_assign x a e s)) xs (g(tk_lexeme x \<mapsto> v))" by (rule effect_to) simp
qed

lemma performs_expr:
  assumes "eval E g e = Some v"
  shows "performs E fp ck (S_expr e s) g g"
  unfolding performs_def
proof (intro allI impI)
  fix ip k and xs :: "jvalue list"
  assume ok: "stmt_ok (S_expr e s)" and code: "code_at ck ip (stmt_code (S_expr e s) k)"
    and ks: "constants_at ck k (stmt_consts (S_expr e s))" and room: "length xs + length (stmt_tokens (S_expr e s)) \<le> constant_stack_max"
  have c: "code_at ck ip (expr_code e k)" "code_at ck (ip + expr_size e) [op_byte op_pop]"
    using code by (simp_all only: stmt_code.simps code_parts)
  have e: "expr_ok e" "length xs + length (expr_tokens e) \<le> constant_stack_max" "constants_at ck k (expr_consts e)" using ok room ks by simp_all
  from effect_trans [OF effect_expr [OF e(1) c(1) e(3,2) assms] effect_pop [OF c(2)]]
  show "effect E fp ck ip xs g (ip + stmt_size (S_expr e s)) xs g" by (rule effect_to) simp
qed

lemma performs_if:
  assumes "eval E g e = Some (VBool b)" and "if b then performs E fp ck s g g' else g' = g"
  shows "performs E fp ck (S_if i l e r s) g g'"
  unfolding performs_def
proof (intro allI impI)
  fix ip k and xs :: "jvalue list"
  let ?s = "S_if i l e r s" and ?k = "k + length (expr_consts e)"
  assume ok: "stmt_ok ?s" and code: "code_at ck ip (stmt_code ?s k)" and ks: "constants_at ck k (stmt_consts ?s)"
    and room: "length xs + length (stmt_tokens ?s) \<le> constant_stack_max"
  have all: "code_at ck ip (expr_code e k @ jump_code op_jump_if_false (stmt_size s + 4) @ [op_byte op_pop] @ stmt_code s ?k @
      jump_code op_jump 1 @ [op_byte op_pop] @ [])" using code by (simp only: stmt_code.simps append_Nil2)
  have c: "code_at ck (ip + expr_size e + 3 + 1) (stmt_code s ?k)" "code_at ck (ip + expr_size e + 3 + 1 + stmt_size s) (jump_code op_jump 1)"
    using all by (simp_all only: code_parts)
  have parts: "expr_ok e" "stmt_size s + 4 \<le> 65535" "constants_at ck k (expr_consts e @ stmt_consts s)"
    "length xs + length (expr_tokens e) \<le> constant_stack_max" "stmt_ok s" "length xs + length (stmt_tokens s) \<le> constant_stack_max"
    using ok ks room by simp_all
  note test = effect_test [OF parts(1,2) all parts(3,4) assms(1), of fp]
  have reach: "(1 :: nat) \<le> 65535" by simp
  show "effect E fp ck ip xs g (ip + stmt_size ?s) xs g'"
  proof (cases b)
    case False
    with test assms(2) show ?thesis by (auto intro!: effect_to [OF test])
  next
    case True
    have body: "effect E fp ck (ip + expr_size e + 3 + 1) xs g (ip + expr_size e + 3 + 1 + stmt_size s) xs g'"
      by (rule performsD [OF _ parts(5) c(1) constants_at_append(2) [OF parts(3)] parts(6)]) (use assms(2) True in simp)
    have "effect E fp ck ip xs g (ip + expr_size e + 3 + 1) xs g" by (rule effect_to [OF test]) (use True in simp)
    from effect_trans [OF effect_trans [OF this body] effect_jump [OF c(2) reach]] show ?thesis by (rule effect_to) simp
  qed
qed

lemma performs_if_else:
  assumes "eval E g e = Some (VBool b)" and "performs E fp ck (if b then s else t) g g'"
  shows "performs E fp ck (S_if_else i l e r s el t) g g'"
  unfolding performs_def
proof (intro allI impI)
  fix ip k and xs :: "jvalue list"
  let ?s = "S_if_else i l e r s el t" and ?k = "k + length (expr_consts e)"
  let ?k' = "?k + length (stmt_consts s)"
  assume ok: "stmt_ok ?s" and code: "code_at ck ip (stmt_code ?s k)" and ks: "constants_at ck k (stmt_consts ?s)"
    and room: "length xs + length (stmt_tokens ?s) \<le> constant_stack_max"
  have all: "code_at ck ip (expr_code e k @ jump_code op_jump_if_false (stmt_size s + 4) @ [op_byte op_pop] @ stmt_code s ?k @
      jump_code op_jump (stmt_size t + 1) @ [op_byte op_pop] @ stmt_code t ?k')" using code by (simp only: stmt_code.simps)
  have c: "code_at ck (ip + expr_size e + 3 + 1) (stmt_code s ?k)"
    "code_at ck (ip + expr_size e + 3 + 1 + stmt_size s) (jump_code op_jump (stmt_size t + 1))"
    "code_at ck (ip + expr_size e + 3 + 1 + stmt_size s + 3 + 1) (stmt_code t ?k')"
    using all by (simp_all only: code_parts)
  have parts: "expr_ok e" "stmt_size s + 4 \<le> 65535" "constants_at ck k (expr_consts e @ stmt_consts s @ stmt_consts t)"
    "length xs + length (expr_tokens e) \<le> constant_stack_max" "stmt_ok s" "length xs + length (stmt_tokens s) \<le> constant_stack_max"
    "stmt_ok t" "length xs + length (stmt_tokens t) \<le> constant_stack_max" "stmt_size t + 1 \<le> 65535"
    using ok ks room by simp_all
  note k = constants_at_append [OF constants_at_append(2) [OF parts(3)]]
  note test = effect_test [OF parts(1,2) all parts(3,4) assms(1), of fp]
  show "effect E fp ck ip xs g (ip + stmt_size ?s) xs g'"
  proof (cases b)
    case True
    have body: "effect E fp ck (ip + expr_size e + 3 + 1) xs g (ip + expr_size e + 3 + 1 + stmt_size s) xs g'"
      by (rule performsD [OF _ parts(5) c(1) k(1) parts(6)]) (use assms(2) True in simp)
    have "effect E fp ck ip xs g (ip + expr_size e + 3 + 1) xs g" by (rule effect_to [OF test]) (use True in simp)
    from effect_trans [OF effect_trans [OF this body] effect_jump [OF c(2) parts(9)]] show ?thesis by (rule effect_to) simp
  next
    case False
    have body: "effect E fp ck (ip + expr_size e + 3 + 1 + stmt_size s + 3 + 1) xs g
        (ip + expr_size e + 3 + 1 + stmt_size s + 3 + 1 + stmt_size t) xs g'"
      by (rule performsD [OF _ parts(7) c(3) k(2) parts(8)]) (use assms(2) False in simp)
    have "effect E fp ck ip xs g (ip + expr_size e + 3 + 1 + stmt_size s + 3 + 1) xs g"
      by (rule effect_to [OF test]) (use False in simp)
    from effect_trans [OF this body] show ?thesis by (rule effect_to) simp
  qed
qed

text \<open>A loop whose condition holds runs its body, goes back, and is where it was.\<close>

lemma performs_while:
  assumes "eval E g e = Some (VBool b)"
    and "if b then performs E fp ck s g g' \<and> performs E fp ck (S_while w l e r s) g' g'' else g'' = g"
  shows "performs E fp ck (S_while w l e r s) g g''"
  unfolding performs_def
proof (intro allI impI)
  fix ip k and xs :: "jvalue list"
  let ?s = "S_while w l e r s" and ?k = "k + length (expr_consts e)" and ?j = "expr_size e + stmt_size s + 7"
  assume ok: "stmt_ok ?s" and code: "code_at ck ip (stmt_code ?s k)" and ks: "constants_at ck k (stmt_consts ?s)"
    and room: "length xs + length (stmt_tokens ?s) \<le> constant_stack_max"
  have all: "code_at ck ip (expr_code e k @ jump_code op_jump_if_false (stmt_size s + 4) @ [op_byte op_pop] @ stmt_code s ?k @
      jump_code op_loop ?j @ [op_byte op_pop] @ [])" using code by (simp only: stmt_code.simps append_Nil2)
  have c: "code_at ck (ip + expr_size e + 3 + 1) (stmt_code s ?k)" "code_at ck (ip + expr_size e + 3 + 1 + stmt_size s) (jump_code op_loop ?j)"
    using all by (simp_all only: code_parts)
  have parts: "expr_ok e" "stmt_size s + 4 \<le> 65535" "constants_at ck k (expr_consts e @ stmt_consts s)"
    "length xs + length (expr_tokens e) \<le> constant_stack_max" "stmt_ok s" "length xs + length (stmt_tokens s) \<le> constant_stack_max"
    "?j \<le> 65535"
    using ok ks room by simp_all
  note test = effect_test [OF parts(1,2) all parts(3,4) assms(1), of fp]
  show "effect E fp ck ip xs g (ip + stmt_size ?s) xs g''"
  proof (cases b)
    case False
    with test assms(2) show ?thesis by (auto intro!: effect_to [OF test])
  next
    case True
    then have steps: "performs E fp ck s g g'" "performs E fp ck ?s g' g''" using assms(2) by simp_all
    have go: "effect E fp ck ip xs g (ip + expr_size e + 3 + 1) xs g" by (rule effect_to [OF test]) (use True in simp)
    note body = performsD [OF steps(1) parts(5) c(1) constants_at_append(2) [OF parts(3)] parts(6)]
    have again: "effect E fp ck (ip + expr_size e + 3 + 1 + stmt_size s) xs g' ip xs g'"
      by (rule effect_loop [OF c(2) parts(7)]) simp
    show ?thesis
      by (rule effect_trans [OF effect_trans [OF effect_trans [OF go body] again] performsD [OF steps(2) ok code ks room]])
  qed
qed

lemma performs_cons:
  assumes "performs E fp ck s g g'" and "performs_all E fp ck ss g' g''"
  shows "performs_all E fp ck (s # ss) g g''"
  unfolding performs_all_def
proof (intro allI impI)
  fix ip k and xs :: "jvalue list"
  assume ok: "\<forall>s\<in>set (s # ss). stmt_ok s" and code: "code_at ck ip (block_code (s # ss) k)"
    and ks: "constants_at ck k (concat (map stmt_consts (s # ss)))"
    and room: "length xs + length (concat (map stmt_tokens (s # ss))) \<le> constant_stack_max"
  have c: "code_at ck ip (stmt_code s k)" "code_at ck (ip + stmt_size s) (block_code ss (k + length (stmt_consts s)))"
    using code by (simp_all only: block_code.simps code_parts)
  have k: "constants_at ck k (stmt_consts s @ concat (map stmt_consts ss))" using ks by simp
  have "effect E fp ck ip xs g (ip + stmt_size s) xs g'"
    by (rule performsD [OF assms(1) _ c(1) constants_at_append(1) [OF k]]) (use ok room in simp_all)
  moreover have "effect E fp ck (ip + stmt_size s) xs g' (ip + stmt_size s + sum_list (map stmt_size ss)) xs g''"
    using assms(2) c(2) constants_at_append(2) [OF k] ok room by (simp add: performs_all_def)
  ultimately show "effect E fp ck ip xs g (ip + sum_list (map stmt_size (s # ss))) xs g''"
    by (auto intro: effect_to [OF effect_trans])
qed

lemma does_performs:
  "does E s g g' \<Longrightarrow> performs E fp ck s g g'" "does_all E ss g g' \<Longrightarrow> performs_all E fp ck ss g g'"
proof (induction rule: does_does_all.inducts)
  case (does_assign g e v x a s)
  then show ?case by (rule performs_assign)
next
  case (does_block ss g g' l r)
  then show ?case by (auto simp: performs_def performs_all_def)
next
  case (does_while_true g e s g' w l r g'')
  then show ?case by (intro performs_while [where b = True and g' = g']) simp_all
next
  case (does_nil g)
  show ?case by (simp add: performs_all_def effect_refl)
qed (auto intro: performs_assign performs_expr performs_if performs_if_else performs_while performs_cons)

subsection \<open>Programs\<close>

datatype item = Item_decl global_decl | Item_stmt stmt

primrec item_tokens :: "item \<Rightarrow> token list" where
  "item_tokens (Item_decl d) = decl_tokens d"
| "item_tokens (Item_stmt s) = stmt_tokens s"

primrec item_consts :: "item \<Rightarrow> jvalue list" where
  "item_consts (Item_decl d) = decl_consts d"
| "item_consts (Item_stmt s) = stmt_consts s"

primrec item_code :: "item \<Rightarrow> nat \<Rightarrow> u8 list" where
  "item_code (Item_decl d) = decl_code d"
| "item_code (Item_stmt s) = stmt_code s"

primrec item_ok :: "item \<Rightarrow> bool" where
  "item_ok (Item_decl d) = decl_ok d"
| "item_ok (Item_stmt s) = stmt_ok s"

primrec items_code :: "item list \<Rightarrow> nat \<Rightarrow> u8 list" where
  "items_code [] k = []"
| "items_code (i # is) k = item_code i k @ items_code is (k + length (item_consts i))"

abbreviation items_tokens :: "item list \<Rightarrow> token list" where
  "items_tokens is \<equiv> concat (map item_tokens is)"

abbreviation items_consts :: "item list \<Rightarrow> jvalue list" where
  "items_consts is \<equiv> concat (map item_consts is)"

inductive items_do :: "env \<Rightarrow> item list \<Rightarrow> bindings \<Rightarrow> bindings \<Rightarrow> bool" for E where
  items_nil: "items_do E [] g g"
| items_decl: "eval E g e = Some v \<Longrightarrow> items_do E is (g(tk_lexeme x \<mapsto> v)) g' \<Longrightarrow>
    items_do E (Item_decl (Declare t x a e s) # is) g g'"
| items_stmt: "does E s g g' \<Longrightarrow> items_do E is g' g'' \<Longrightarrow> items_do E (Item_stmt s # is) g g''"

inductive_simps items_do_simps: "items_do E [] g g'" "items_do E (i # is) g g'"

lemma items_do_append: "items_do E (is @ js) g g' \<longleftrightarrow> (\<exists>h. items_do E is g h \<and> items_do E js h g')"
  by (induction "is" arbitrary: g) (simp add: items_do_simps, simp add: items_do_simps, blast)

text \<open>The items of a program are read where declarations may stand.\<close>

lemma reads_item:
  assumes "item_ok i" and "length (item_tokens i) + 1 < fuel"
  shows "reads True (parse_fuel fuel L N_declaration) (item_tokens i) (item_code i) (item_consts i) \<and> heads (item_tokens i)"
proof (cases i)
  case (Item_decl d)
  with assms show ?thesis by (simp add: reads_decl heads_decl)
next
  case (Item_stmt s)
  with assms show ?thesis by (simp add: reads_stmt parses_all stmt_heads)
qed

lemma compile_items:
  assumes "list_all item_ok is" and "is \<noteq> []" and "tk_type u = token_eof"
    and "length (items_tokens is) + 1 < fuel" and "length (items_consts is) \<le> 255"
  obtains c p where "compile_tokens fuel L (init_parser h (items_tokens is @ u # us)) = Inr (c, p)"
    and "pa_heap p = write_obj (h_next h) (OFn (co_fn c)) (snd (new_fn h))" and "co_fn_at c = h_next h"
    and "co_fn c = empty_fn\<lparr>fn_chunk := fn_chunk (co_fn c)\<rparr>" and "chunk_wf (fn_chunk (co_fn c))"
    and "compiled c = items_code is 0 @ [op_byte op_return]" and "compiled_constants c = items_consts is"
    and "pa_errors p = []" and "\<not> pa_had_error p"
proof (rule compile_script [where toks = "items_tokens is" and code = "items_code is 0" and ks = "items_consts is"
      and u = u and us = us and fuel = fuel and L = L and h = h])
  have each: "reads True (parse_fuel fuel L N_declaration) (item_tokens i) (item_code i) (item_consts i) \<and> heads (item_tokens i)"
    if "i \<in> set is" for i
    using reads_item concat_length [OF that, of item_tokens] assms(1,4) that by (auto simp: list_all_iff)
  then have many: "length is \<le> length (items_tokens is)" by (simp add: concat_many)
  show "items_tokens is \<noteq> []" using assms(2) each [of "hd is"] by (cases "is") (auto simp: heads_def)
  show "\<exists>q. act_while fuel (act_not parse_is_at_end) (parse_fuel fuel L N_declaration) p = Inr ((), q) \<and>
      advanced (items_tokens is) (items_code is 0) (items_consts is) p q"
    if p: "primed p" "top_level p" "\<not> pa_panic_mode p" "pa_curr p = items_tokens is @ u # us" "constant_count p = 0" for p
    using declarations_run [where ds = "is" and out = True and f = "parse_fuel fuel L N_declaration" and toks = item_tokens
        and code = item_code and ks = item_consts and goes = "act_not parse_is_at_end" and u = u and us = us and p = p and n = fuel
        and whole = items_code]
      each many assms(3-5) p
    by (simp add: parse_is_at_end_def heads_def act_simps)
qed (use assms(3) in simp)

text \<open>The code of a program does what its items do, one after the other.\<close>

lemma items_exec:
  assumes "items_do E is g g'" and "list_all item_ok is" and "at_point fp ck ip xs m vm" and "hm_map m = g"
    and "code_at ck ip (items_code is k)" and "constants_at ck k (items_consts is)"
    and "\<forall>i\<in>set is. length xs + length (item_tokens i) \<le> constant_stack_max" and "hm_count m + length is < hm_limit"
  shows "\<exists>vm' m'. exec E fp vm vm' \<and> at_point fp ck (ip + length (items_code is k)) xs m' vm' \<and> hm_map m' = g' \<and>
    hm_count m' \<le> hm_count m + length is"
  using assms
proof (induction arbitrary: ip k vm m rule: items_do.induct)
  case (items_nil g)
  then show ?case using exec_refl [OF items_nil.prems(2)] by auto
next
  case (items_decl g e v "is" x g' t a s)
  let ?d = "Declare t x a e s" and ?k = "k + length (decl_consts (Declare t x a e s))"
  have c: "code_at ck ip (program_code [?d] k)" "code_at ck (ip + length (decl_code ?d k)) (items_code is ?k)"
    using items_decl.prems(4) by (simp_all del: decl_code.simps decl_consts.simps)
  have ks: "constants_at ck k (program_consts [?d])" "constants_at ck ?k (items_consts is)"
    using constants_at_append [of ck k "decl_consts ?d" "items_consts is"] items_decl.prems(5) by simp_all
  have "list_all decl_ok [?d]" "\<forall>d\<in>set [?d]. length xs + length (decl_tokens d) \<le> constant_stack_max"
    "hm_count m + length [?d] \<le> hm_limit" "eval_program E (hm_map m) [?d] = Some (g(tk_lexeme x \<mapsto> v))"
    using items_decl.prems(1,3,6,7) items_decl.hyps(1) by simp_all
  from program_exec [OF this(1) items_decl.prems(2) c(1) ks(1) this(2-4)] obtain vm1 m1 where
    one: "exec E fp vm vm1" "at_point fp ck (ip + length (decl_code ?d k)) xs m1 vm1" "hm_map m1 = g(tk_lexeme x \<mapsto> v)"
      "hm_count m1 \<le> Suc (hm_count m)" by (auto simp del: decl_code.simps)
  have "list_all item_ok is" "\<forall>i\<in>set is. length xs + length (item_tokens i) \<le> constant_stack_max" "hm_count m1 + length is < hm_limit"
    using items_decl.prems(1,6,7) one(4) by simp_all
  from items_decl.IH [OF this(1) one(2,3) c(2) ks(2) this(2,3)] obtain vm2 m2 where
    two: "exec E fp vm1 vm2" "at_point fp ck (ip + length (decl_code ?d k) + length (items_code is ?k)) xs m2 vm2" "hm_map m2 = g'"
      "hm_count m2 \<le> hm_count m1 + length is" by blast
  with exec_trans [OF one(1) two(1)] one(4) show ?case
    by (intro exI [of _ vm2] exI [of _ m2]) (simp del: decl_code.simps decl_consts.simps add: add.assoc)
next
  case (items_stmt s g g' "is" g'')
  let ?k = "k + length (stmt_consts s)"
  have c: "code_at ck ip (stmt_code s k)" "code_at ck (ip + stmt_size s) (items_code is ?k)"
    using items_stmt.prems(4) by simp_all
  have ks: "constants_at ck k (stmt_consts s)" "constants_at ck ?k (items_consts is)"
    using constants_at_append [of ck k "stmt_consts s" "items_consts is"] items_stmt.prems(5) by simp_all
  have "stmt_ok s" "length xs + length (stmt_tokens s) \<le> constant_stack_max" using items_stmt.prems(1,6) by simp_all
  from performsD [OF does_performs(1) [OF items_stmt.hyps(1)] this(1) c(1) ks(1) this(2)]
  have "effect E fp ck ip xs g (ip + stmt_size s) xs g'" .
  moreover have "hm_count m < hm_limit" using items_stmt.prems(7) by simp
  ultimately obtain vm1 m1 where one: "exec E fp vm vm1" "at_point fp ck (ip + stmt_size s) xs m1 vm1" "hm_map m1 = g'"
    "hm_count m1 \<le> hm_count m" using effectD items_stmt.prems(2,3) by metis
  have "list_all item_ok is" "\<forall>i\<in>set is. length xs + length (item_tokens i) \<le> constant_stack_max" "hm_count m1 + length is < hm_limit"
    using items_stmt.prems(1,6,7) one(4) by simp_all
  from items_stmt.IH [OF this(1) one(2,3) c(2) ks(2) this(2,3)] obtain vm2 m2 where
    two: "exec E fp vm1 vm2" "at_point fp ck (ip + stmt_size s + length (items_code is ?k)) xs m2 vm2" "hm_map m2 = g''"
      "hm_count m2 \<le> hm_count m1 + length is" by blast
  with exec_trans [OF one(1) two(1)] one(4) show ?case
    by (intro exI [of _ vm2] exI [of _ m2]) (simp add: add.assoc)
qed

lemma interpret_items_run:
  assumes "idle vm" and "scan source = Inr (items_tokens is @ u # us)" and "tk_type u = token_eof"
    and "list_all item_ok is" and "is \<noteq> []" and "length (items_consts is) \<le> 255"
    and "\<forall>i\<in>set is. length (item_tokens i) < constant_stack_max"
    and "hm_count (vm_globals vm) + length is < hm_limit" and "items_do E is (hm_map (vm_globals vm)) g"
    and "length (items_tokens is) + 1 < k"
  shows "\<exists>m vm'. (\<forall>n\<ge>m. interpret_source k n E L source vm = Inr (interpret_ok, vm')) \<and> idle vm' \<and>
    hm_map (vm_globals vm') = g \<and> vm_errors vm' = vm_errors vm \<and> vm_printed vm' = vm_printed vm \<and>
    hm_count (vm_globals vm') \<le> hm_count (vm_globals vm) + length is"
proof -
  let ?h = "vm_heap vm"
  obtain c p where c: "compile_tokens k L (init_parser ?h (items_tokens is @ u # us)) = Inr (c, p)"
    "pa_heap p = write_obj (h_next ?h) (OFn (co_fn c)) (snd (new_fn ?h))" "co_fn_at c = h_next ?h"
    "co_fn c = empty_fn\<lparr>fn_chunk := fn_chunk (co_fn c)\<rparr>" "chunk_wf (fn_chunk (co_fn c))"
    "compiled c = items_code is 0 @ [op_byte op_return]" "compiled_constants c = items_consts is" "pa_errors p = []"
    by (rule compile_items [OF assms(4,5,3,10,6)])
  have code: "code_at (fn_chunk (co_fn c)) 0 (items_code is 0)" using c(5,6) by (auto simp: code_at_def)
  have ks: "constants_at (fn_chunk (co_fn c)) 0 (items_consts is)" using c(5,7) assms(6) by (auto simp: constants_at_def)
  show ?thesis
  proof (rule interpret_compiled [OF assms(1,2) c(1-6,8)])
    fix vm1 x
    assume at: "at_point 0 (fn_chunk (co_fn c)) 0 [x] (vm_globals vm) vm1"
    have "\<forall>i\<in>set is. length [x] + length (item_tokens i) \<le> constant_stack_max" using assms(7) by (simp add: Suc_le_eq)
    from items_exec [OF assms(9,4) at refl code ks this assms(8)]
    show "\<exists>vm2 m. exec E 0 vm1 vm2 \<and> at_point 0 (fn_chunk (co_fn c)) (length (items_code is 0)) [x] m vm2 \<and>
        hm_map m = g \<and> hm_count m \<le> hm_count (vm_globals vm) + length is" by auto
  qed
qed


text \<open>A declaration and a loop over a conditional, as a source and as trees.\<close>

definition loop_source :: string where
  "loop_source = ''var x = 0; while (x < 3) { if (x == 1) x = x + 2; else x = x + 1; }''"

definition loop_items :: "item list" where
  "loop_items = (let t = (\<lambda>ty s. make_token ty s 1); x = t token_identifier ''x''; n = (\<lambda>s. Literal (t token_i32 s));
       l = t token_left_paren ''(''; r = t token_right_paren '')''; semi = t token_semicolon '';'';
       add = (\<lambda>s. S_assign x (t token_assign ''='') (Binary (Literal x) (t token_plus ''+'') (n s)) semi) in
     [Item_decl (Declare (t token_var ''var'') x (t token_assign ''='') (n ''0'') semi),
      Item_stmt (S_while (t token_while ''while'') l (Binary (Literal x) (t token_le ''<'') (n ''3'')) r
        (S_block (t token_left_brace ''{'')
          [S_if_else (t token_if ''if'') l (Binary (Literal x) (t token_eq ''=='') (n ''1'')) r (add ''2'')
             (t token_else ''else'') (add ''1'')]
          (t token_right_brace ''}'')))])"

lemma loop_scan: "scan loop_source = Inr (items_tokens loop_items @ [eof_token 1])"
  by (simp add: scan_simps scan_angle_def loop_source_def loop_items_def)

lemmas eval_simps = make_token_def literal_value_def strtoll_def is_digit_def code_of_def binary_op_def
  operator_of_def coerce_types_def macro_is_number_def numeric_type_promotion_def binary_basic_def
  handle_binary_i32_op_def checked_i32_def in_i32_def result_of_def

lemma loop_does: "items_do plain_env loop_items Map.empty [''x'' \<mapsto> VI32 3]"
proof -
  define x where "x = make_token token_identifier ''x'' 1"
  define n where "n s = Literal (make_token token_i32 s 1)" for s
  define less where "less = Binary (Literal x) (make_token token_le ''<'' 1) (n ''3'')"
  define one where "one = Binary (Literal x) (make_token token_eq ''=='' 1) (n ''1'')"
  define add where "add s = S_assign x (make_token token_assign ''='' 1) (Binary (Literal x) (make_token token_plus ''+'' 1) (n s))
    (make_token token_semicolon '';'' 1)" for s
  define body where "body = S_block (make_token token_left_brace ''{'' 1)
    [S_if_else (make_token token_if ''if'' 1) (make_token token_left_paren ''('' 1) one (make_token token_right_paren '')'' 1)
       (add ''2'') (make_token token_else ''else'' 1) (add ''1'')] (make_token token_right_brace ''}'' 1)"
  define loop where "loop = S_while (make_token token_while ''while'' 1) (make_token token_left_paren ''('' 1) less
    (make_token token_right_paren '')'' 1) body"
  have items: "loop_items = [Item_decl (Declare (make_token token_var ''var'' 1) x (make_token token_assign ''='' 1) (n ''0'')
      (make_token token_semicolon '';'' 1)), Item_stmt loop]"
    by (simp add: loop_items_def Let_def x_def n_def less_def one_def add_def body_def loop_def)
  note defs = x_def n_def less_def one_def add_def
  have less: "eval plain_env [''x'' \<mapsto> VI32 i] less = Some (VBool (sint i < 3))" for i
    by (simp add: defs eval_simps)
  have one: "eval plain_env [''x'' \<mapsto> VI32 i] one = Some (VBool (sint i = 1))" for i
    by (simp add: defs eval_simps)
  have add: "does plain_env (add ''2'') [''x'' \<mapsto> VI32 1] [''x'' \<mapsto> VI32 3]" "does plain_env (add ''1'') [''x'' \<mapsto> VI32 0] [''x'' \<mapsto> VI32 1]"
    using does_assign [of plain_env "[''x'' \<mapsto> VI32 1]" "Binary (Literal x) (make_token token_plus ''+'' 1) (n ''2'')" "VI32 3" x]
      does_assign [of plain_env "[''x'' \<mapsto> VI32 0]" "Binary (Literal x) (make_token token_plus ''+'' 1) (n ''1'')" "VI32 1" x]
    by (simp_all add: defs eval_simps)
  have body: "does plain_env body [''x'' \<mapsto> VI32 1] [''x'' \<mapsto> VI32 3]" "does plain_env body [''x'' \<mapsto> VI32 0] [''x'' \<mapsto> VI32 1]"
    unfolding body_def
    by (rule does_block, rule does_cons, rule does_then, simp add: one, rule add(1), rule does_nil)
      (rule does_block, rule does_cons, rule does_else, simp add: one, rule add(2), rule does_nil)
  have "does plain_env loop [''x'' \<mapsto> VI32 3] [''x'' \<mapsto> VI32 3]"
    unfolding loop_def by (rule does_while_false) (simp add: less)
  then have "does plain_env loop [''x'' \<mapsto> VI32 1] [''x'' \<mapsto> VI32 3]"
    unfolding loop_def by (rule does_while_true [OF _ body(1), rotated]) (simp add: less)
  then have "does plain_env loop [''x'' \<mapsto> VI32 0] [''x'' \<mapsto> VI32 3]"
    unfolding loop_def by (rule does_while_true [OF _ body(2), rotated]) (simp add: less)
  then have "items_do plain_env [Item_stmt loop] [''x'' \<mapsto> VI32 0] [''x'' \<mapsto> VI32 3]" by (rule items_stmt [OF _ items_nil])
  moreover have "eval plain_env Map.empty (n ''0'') = Some (VI32 0)" by (simp add: defs eval_simps)
  moreover have "tk_lexeme x = ''x''" by (simp add: x_def make_token_def)
  ultimately show ?thesis unfolding items using items_decl [of plain_env Map.empty "n ''0''" "VI32 0" "[Item_stmt loop]" x] by simp
qed

lemma loop_ok:
  "list_all item_ok loop_items" "loop_items \<noteq> []" "length (items_consts loop_items) \<le> 255"
  "\<forall>i\<in>set loop_items. length (item_tokens i) < constant_stack_max" "length loop_items = 2" "length (items_tokens loop_items) + 1 < 100"
  by (simp_all add: loop_items_def Let_def make_token_def binary_op_def token_level_def prec_level_def constant_stack_max_def
      has_constant_def literal_op_def rule_def frames_stack_max_def)

lemma loop_start: "hm_count (vm_globals fresh_vm) + length loop_items < hm_limit"
    "items_do plain_env loop_items (hm_map (vm_globals fresh_vm)) [''x'' \<mapsto> VI32 3]"
  using sample_start(1) loop_does loop_ok(5) by (simp_all add: fresh_vm_def hm_limit_def init_hashmap_def)

lemmas loop_facts = idle_fresh loop_scan sample_start(4) loop_ok(1-4) loop_start loop_ok(6)


end
