(* ===== verification/Joker_Repl.thy ===== *)
theory Joker_Repl
  imports Joker_Listing Joker_Codegen Joker_Programs
begin

text \<open>
  The command line of Joker: the read-eval-print loop, the run of a file and the options (src/repl.c,
  src/console.c).

  What the program does to its terminal is a list of events: text on the standard output or on the error
  output, and a command for the shell. The standard input is the list of the characters still to come; a file
  is what \<open>fopen\<close>, \<open>malloc\<close> and \<open>fread\<close> give for its path; whether the terminal has colours is read from the
  environment variable \<open>TERM\<close>. The interpreter, \<open>interp\<close>, is \<open>interpret_source\<close> with its fuel. What the program
  that is run prints itself is in the machine and not among the events.
\<close>

subsection \<open>The terminal\<close>

datatype console_event = Printed string | Warned string | Shell string

definition supports_color :: "string option \<Rightarrow> bool" where
  "supports_color term = (case term of None \<Rightarrow> False | Some t \<Rightarrow> t \<noteq> ''dumb'')"

definition color_code :: "bool \<Rightarrow> string \<Rightarrow> string" where
  "color_code enabled code = (if enabled then CHR 0x1B # code else [])"

definition COLOR_RESET :: "bool \<Rightarrow> string" where "COLOR_RESET enabled = color_code enabled ''[0m''"
definition COLOR_CYAN :: "bool \<Rightarrow> string" where "COLOR_CYAN enabled = color_code enabled ''[1;36m''"
definition COLOR_YELLOW :: "bool \<Rightarrow> string" where "COLOR_YELLOW enabled = color_code enabled ''[1;33m''"
definition COLOR_GREEN :: "bool \<Rightarrow> string" where "COLOR_GREEN enabled = color_code enabled ''[1;32m''"
definition COLOR_RED :: "bool \<Rightarrow> string" where "COLOR_RED enabled = color_code enabled ''[1;31m''"
definition COLOR_PURPLE :: "bool \<Rightarrow> string" where "COLOR_PURPLE enabled = color_code enabled ''[1;35m''"

definition JOKER_VERSION :: string where
  "JOKER_VERSION = ''0.1.0''"

definition COLUMN_PER_LINE :: nat where
  "COLUMN_PER_LINE = 4"

subsection \<open>The commands of the loop\<close>

definition repl_desc :: "bool \<Rightarrow> console_event list" where
  "repl_desc c =
     [Printed (COLOR_CYAN c @ ''Welcome to Joker REPL ('' @ JOKER_VERSION @ '')!'' @ COLOR_RESET c @ newline),
      Printed (COLOR_CYAN c @ ''Type 'help' for commands, 'quit' to exit.'' @ COLOR_RESET c @ newline)]"

definition repl_help :: "bool \<Rightarrow> console_event list" where
  "repl_help c =
     [Printed (COLOR_YELLOW c @ ''Joker REPL Commands:'' @ COLOR_RESET c @ newline),
      Printed (''  help      - Show this help message'' @ newline),
      Printed (''  keywords  - List language keywords'' @ newline),
      Printed (''  clear     - Clear the screen'' @ newline),
      Printed (''  version   - Show interpreter version'' @ newline),
      Printed (''  quit      - Exit the REPL'' @ newline)]"

definition keyword_list :: "string list" where
  "keyword_list =
     [''and'', ''class'', ''struct'', ''else'', ''false'', ''for'', ''fn'', ''if'', ''none'', ''or'',
      ''return'', ''super'', ''self'', ''true'', ''var'', ''while'', ''break'', ''continue'', ''match'', ''loop'',
      ''enum'']"

definition keyword_events :: "nat \<Rightarrow> console_event list" where
  "keyword_events i =
     (if i mod COLUMN_PER_LINE = 0 then [Printed newline] else []) @ [Printed (pad_right 12 (keyword_list ! i))]"

definition repl_keywords :: "bool \<Rightarrow> console_event list" where
  "repl_keywords c =
     Printed (COLOR_GREEN c @ ''Joker Keywords:'' @ COLOR_RESET c @ newline) #
     concat (map keyword_events [0..<length keyword_list]) @ [Printed (newline @ COLOR_RESET c)]"

definition clear_screen :: "console_event list" where
  "clear_screen = [Shell ''clear'']"

text \<open>\<open>None\<close> is the result false, otherwise the command has been carried out.\<close>

definition is_repl_command :: "bool \<Rightarrow> string \<Rightarrow> console_event list option" where
  "is_repl_command c line =
     (if line = ''help'' then Some (repl_help c)
      else if line = ''keywords'' then Some (repl_keywords c)
      else if line = ''clear'' then Some clear_screen
      else if line = ''version'' then Some [Printed (''Joker Version: '' @ JOKER_VERSION @ newline)]
      else None)"

subsection \<open>The input\<close>

definition REPL_BUFFER_SIZE :: nat where
  "REPL_BUFFER_SIZE = 1024"

primrec fgets_loop :: "nat \<Rightarrow> string \<Rightarrow> string \<times> string" where
  "fgets_loop 0 s = ([], s)"
| "fgets_loop (Suc n) s =
     (case s of [] \<Rightarrow> ([], [])
      | c # s \<Rightarrow> if c = NL then ([c], s) else (let (buf, rest) = fgets_loop n s in (c # buf, rest)))"

text \<open>\<open>fgets\<close> reads at most one character less than the buffer has, and keeps the line end.\<close>

definition fgets :: "nat \<Rightarrow> string \<Rightarrow> (string \<times> string) option" where
  "fgets bytes s = (if s = [] then None else Some (fgets_loop (bytes - 1) s))"

text \<open>The line end is overwritten by a zero byte; a zero byte before it ends the string already.\<close>

definition cut_line :: "string \<Rightarrow> string" where
  "cut_line buf = takeWhile (\<lambda>c. c \<noteq> NL \<and> c \<noteq> NUL) buf"

primrec drain :: "string \<Rightarrow> string" where
  "drain [] = []"
| "drain (c # s) = (if c = NL then s else drain s)"

subsection \<open>The loop\<close>

definition prompt :: "bool \<Rightarrow> console_event" where
  "prompt c = Printed (COLOR_PURPLE c @ ''>>>'' @ COLOR_RESET c @ '' '')"

definition too_long :: "bool \<Rightarrow> console_event" where
  "too_long c = Printed (COLOR_RED c @ ''Input exceeds '' @ int_text (int (REPL_BUFFER_SIZE - 1)) @ '' characters!'' @ COLOR_RESET c @ newline)"

primrec report_result :: "bool \<Rightarrow> interpret_result \<Rightarrow> console_event list" where
  "report_result c interpret_ok = []"
| "report_result c interpret_passed = [Printed (COLOR_RED c @ ''[Unknown Error]'' @ COLOR_RESET c @ newline)]"
| "report_result c interpret_compile_error = [Printed (COLOR_RED c @ ''[Error] Compilation failed!'' @ COLOR_RESET c @ newline)]"
| "report_result c interpret_runtime_error = [Printed (COLOR_RED c @ ''[Runtime Error]'' @ COLOR_RESET c @ '' '' @ newline)]"

type_synonym interpreter = "string \<Rightarrow> interpret_result vm_action"
type_synonym 'a session = "console_event list \<times> 'a outcome"

definition after :: "console_event list \<Rightarrow> 'a session \<Rightarrow> 'a session" where
  "after es s = (es @ fst s, snd s)"

lemma fgets_loop_rest: "length (snd (fgets_loop n s)) \<le> length s"
  by (induction n arbitrary: s) (auto split: list.splits prod.splits simp: le_SucI, metis le_SucI snd_conv)

lemma fgets_shorter: "fgets bytes s = Some (buf, rest) \<Longrightarrow> 1 < bytes \<Longrightarrow> length rest < length s"
proof -
  assume a: "fgets bytes s = Some (buf, rest)" "1 < bytes"
  then obtain n where n: "bytes - 1 = Suc n" by (cases "bytes - 1") auto
  obtain c t where s: "s = c # t" using a(1) by (cases s) (simp_all add: fgets_def)
  show ?thesis using a(1) n s fgets_loop_rest [of n t]
    by (auto simp: fgets_def less_Suc_eq_le split: if_splits prod.splits)
qed

lemma drain_shorter: "length (drain s) \<le> length s"
  by (induction s) auto

function repl_loop :: "interpreter \<Rightarrow> bool \<Rightarrow> string \<Rightarrow> vm \<Rightarrow> vm session" where
  "repl_loop interp c input vm =
     (case fgets REPL_BUFFER_SIZE input of
        None \<Rightarrow> ([prompt c, Printed newline], Inr vm)
      | Some (buf, input) \<Rightarrow>
          let line = cut_line buf in
          if length line = REPL_BUFFER_SIZE - 1 \<and> line ! (REPL_BUFFER_SIZE - 2) \<noteq> NL
          then after [prompt c, too_long c] (repl_loop interp c (drain input) vm)
          else if line = [] then after [prompt c] (repl_loop interp c input vm)
          else (case is_repl_command c line of
              Some es \<Rightarrow> after (prompt c # es) (repl_loop interp c input vm)
            | None \<Rightarrow>
                if line = ''quit'' then ([prompt c], Inr vm)
                else (case interp line vm of
                    Inl h \<Rightarrow> ([prompt c], Inl h)
                  | Inr (r, vm) \<Rightarrow> after (prompt c # report_result c r) (repl_loop interp c input vm))))"
  by pat_completeness auto
termination
proof (relation "measure (\<lambda>(interp, c, input, vm). length input)", goal_cases)
  case 1 show ?case by simp
qed (auto dest!: fgets_shorter simp: REPL_BUFFER_SIZE_def intro: le_less_trans [OF drain_shorter])

declare repl_loop.simps [simp del]

definition repl :: "interpreter \<Rightarrow> string option \<Rightarrow> string \<Rightarrow> vm \<Rightarrow> vm session" where
  "repl interp term input vm =
     (let c = supports_color term; (es, r) = repl_loop interp c input vm in
      (repl_desc c @ es @ (case r of Inl _ \<Rightarrow> [] | Inr _ \<Rightarrow> [Printed (COLOR_CYAN c @ ''Bye!'' @ COLOR_RESET c @ newline)]), r))"

subsection \<open>Files and options\<close>

text \<open>
  What the system gives for a path: the contents of the file, whether \<open>malloc\<close> has room for it and how many
  bytes \<open>fread\<close> returns.
\<close>

record source_file =
  sf_bytes :: string
  sf_room :: bool
  sf_read :: nat

type_synonym files = "string \<Rightarrow> source_file option"

definition file_error :: "string \<Rightarrow> string \<Rightarrow> console_event" where
  "file_error what file_name =
     Warned (''[main::read_file] Error file_error:'' @ newline @ CHR 0x09 # ''Could not '' @ what @ '' file ''
       @ CHR 0x27 # file_name @ CHR 0x27 # newline)"

text \<open>The buffer ends with the zero byte written behind what was read.\<close>

definition read_file :: "files \<Rightarrow> string \<Rightarrow> string session" where
  "read_file fs file_name =
     (case fs file_name of
        None \<Rightarrow> ([file_error ''open'' file_name], Inl (ExitCode 74))
      | Some f \<Rightarrow>
          if \<not> sf_room f then ([file_error ''allocate memory for'' file_name], Inl (ExitCode 74))
          else if sf_read f \<noteq> length (sf_bytes f) then ([file_error ''read'' file_name], Inl (ExitCode 74))
          else ([], Inr (c_string (sf_bytes f))))"

definition run_file :: "interpreter \<Rightarrow> files \<Rightarrow> string \<Rightarrow> vm \<Rightarrow> vm session" where
  "run_file interp fs file_name vm =
     (case read_file fs file_name of
        (es, Inl h) \<Rightarrow> (es, Inl h)
      | (es, Inr source) \<Rightarrow>
          (es, andThen (interp source vm) (\<lambda>(r, vm).
            if r = interpret_compile_error then Inl (ExitCode 65)
            else if r = interpret_runtime_error then Inl (ExitCode 70)
            else Inr vm)))"

definition console_help :: "console_event list" where
  "console_help = map (\<lambda>s. Printed (s @ newline))
     [''Usage: joker [options] [script]'',
      ''Options:'',
      ''  -h, --help               Print this help message and exit.'',
      ''  -v, --version            Print the version number and exit.'',
      ''  -i, --interactive        Start an interactive shell.'',
      ''  -e, --eval <code>        Evaluate the given code.'',
      ''  -c, --compile <file>     Compile the given file.'',
      ''  -m, --match <option>     Match the given option.'',
      ''  -o, --output <file>      Specify the output file.'',
      ''  -s, --stdin              Read from stdin.'',
      ''  -t, --test <file>        Run the given file as a test.'',
      ''  -w, --watch <file>       Watch the given file.'']"

definition console_version :: "console_event list" where
  "console_version = map (\<lambda>s. Printed (s @ newline))
     [''Joker '' @ JOKER_VERSION, ''Copyright (c) 2025 Kilig'', ''All rights reserved.'']"

text \<open>The function for an option, here what it prints; \<open>None\<close> is the null pointer.\<close>

definition console_match :: "string \<Rightarrow> console_event list option" where
  "console_match option =
     (if option = ''-H'' \<or> option = ''--help'' then Some console_help
      else if option = ''-V'' \<or> option = ''--version'' then Some console_version
      else None)"

definition console_repl :: "interpreter \<Rightarrow> files \<Rightarrow> string list \<Rightarrow> vm \<Rightarrow> vm session" where
  "console_repl interp fs argv vm =
     (case console_match (argv ! 1) of Some es \<Rightarrow> (es, Inr vm) | None \<Rightarrow> run_file interp fs (argv ! 1) vm)"

text \<open>The whole program; a normal end has the exit code 0.\<close>

definition joker_entry :: "interpreter \<Rightarrow> files \<Rightarrow> string option \<Rightarrow> string list \<Rightarrow> string \<Rightarrow> nat session" where
  "joker_entry interp fs term argv input =
     (case init_virtual_machine fresh_vm of
        Inl h \<Rightarrow> ([], Inl h)
      | Inr (_, vm) \<Rightarrow>
          let (es, r) =
            (if length argv = 1 then repl interp term input vm
             else if length argv = 2 then console_repl interp fs argv vm
             else ([Warned (''Usage: joker-compiler-c [path]'' @ newline)], Inl (ExitCode 64)))
          in (es, andThen r (\<lambda>_. Inr 0)))"

subsection \<open>Reading by lines\<close>

text \<open>The lines of an input, as an editor shows them; the last one need not be ended.\<close>

function split_lines :: "string \<Rightarrow> string list" where
  "split_lines [] = []"
| "split_lines (ch # s) = takeWhile (\<lambda>x. x \<noteq> NL) (ch # s) # split_lines (tl (dropWhile (\<lambda>x. x \<noteq> NL) (ch # s)))"
  by pat_completeness auto
termination
proof (relation "measure length", goal_cases)
  case (2 ch s)
  have "length (dropWhile (\<lambda>x. x \<noteq> NL) s) \<le> length s" by (rule length_dropWhile_le)
  then show ?case by auto
qed simp

text \<open>What the loop does with each of the lines: the buffer does not show.\<close>

primrec answer_lines :: "interpreter \<Rightarrow> bool \<Rightarrow> string list \<Rightarrow> vm \<Rightarrow> vm session" where
  "answer_lines interp c [] vm = ([prompt c, Printed newline], Inr vm)"
| "answer_lines interp c (l # ls) vm =
     (if REPL_BUFFER_SIZE - 1 \<le> length l then after [prompt c, too_long c] (answer_lines interp c ls vm)
      else if l = [] then after [prompt c] (answer_lines interp c ls vm)
      else (case is_repl_command c l of
          Some es \<Rightarrow> after (prompt c # es) (answer_lines interp c ls vm)
        | None \<Rightarrow>
            if l = ''quit'' then ([prompt c], Inr vm)
            else (case interp l vm of
                Inl h \<Rightarrow> ([prompt c], Inl h)
              | Inr (r, vm) \<Rightarrow> after (prompt c # report_result c r) (answer_lines interp c ls vm))))"

text \<open>The lines that are run, and their run one after the other.\<close>

definition accepted :: "string list \<Rightarrow> string list" where
  "accepted ls = filter (\<lambda>l. length l < REPL_BUFFER_SIZE - 1 \<and> l \<noteq> [] \<and> l \<notin> {''help'', ''keywords'', ''clear'', ''version''})
     (takeWhile (\<lambda>l. l \<noteq> ''quit'') ls)"

primrec run_sources :: "interpreter \<Rightarrow> string list \<Rightarrow> vm \<Rightarrow> vm outcome" where
  "run_sources interp [] vm = Inr vm"
| "run_sources interp (l # ls) vm = andThen (interp l vm) (\<lambda>(r, vm). run_sources interp ls vm)"

lemma fgets_loop_line:
  "length (takeWhile (\<lambda>x. x \<noteq> NL) s) < n \<Longrightarrow>
   \<exists>e. fgets_loop n s = (takeWhile (\<lambda>x. x \<noteq> NL) s @ e, tl (dropWhile (\<lambda>x. x \<noteq> NL) s)) \<and> (e = [] \<or> e = [NL])"
proof (induction s arbitrary: n)
  case Nil
  then show ?case by (cases n) simp_all
next
  case (Cons x s)
  from Cons.prems obtain m where n: "n = Suc m" by (cases n) simp_all
  show ?case
  proof (cases "x = NL")
    case False
    from False Cons.prems n have "length (takeWhile (\<lambda>x. x \<noteq> NL) s) < m" by simp
    from Cons.IH [OF this] show ?thesis using False n by auto
  qed (simp add: n)
qed

lemma fgets_loop_full:
  "n \<le> length (takeWhile (\<lambda>x. x \<noteq> NL) s) \<Longrightarrow>
   fgets_loop n s = (take n (takeWhile (\<lambda>x. x \<noteq> NL) s), drop n s) \<and> drain (drop n s) = tl (dropWhile (\<lambda>x. x \<noteq> NL) s)"
proof (induction n arbitrary: s)
  case 0
  have "drain s = tl (dropWhile (\<lambda>x. x \<noteq> NL) s)" by (induction s) auto
  then show ?case by simp
next
  case (Suc n)
  then obtain x t where s: "s = x # t" "x \<noteq> NL" by (cases s) (auto split: if_splits)
  with Suc.prems have "n \<le> length (takeWhile (\<lambda>x. x \<noteq> NL) t)" by simp
  from Suc.IH [OF this] show ?case using s by simp
qed

lemma cut_line_plain: "NUL \<notin> set s \<Longrightarrow> cut_line s = takeWhile (\<lambda>x. x \<noteq> NL) s"
  unfolding cut_line_def by (rule takeWhile_cong) auto

lemma cut_line_whole: "NUL \<notin> set w \<Longrightarrow> NL \<notin> set w \<Longrightarrow> e = [] \<or> e = [NL] \<Longrightarrow> cut_line (w @ e) = w"
  by (auto simp: cut_line_def takeWhile_append)

text \<open>One read of the loop takes one line, a long one together with the drain.\<close>

lemma read_line:
  assumes "NUL \<notin> set s" and "s \<noteq> []"
  obtains buf rest where "fgets REPL_BUFFER_SIZE s = Some (buf, rest)"
    and "length (takeWhile (\<lambda>x. x \<noteq> NL) s) < 1023 \<Longrightarrow>
           cut_line buf = takeWhile (\<lambda>x. x \<noteq> NL) s \<and> rest = tl (dropWhile (\<lambda>x. x \<noteq> NL) s)"
    and "1023 \<le> length (takeWhile (\<lambda>x. x \<noteq> NL) s) \<Longrightarrow>
           length (cut_line buf) = 1023 \<and> cut_line buf ! 1022 \<noteq> NL \<and> drain rest = tl (dropWhile (\<lambda>x. x \<noteq> NL) s)"
proof -
  let ?w = "takeWhile (\<lambda>x. x \<noteq> NL) s"
  have w: "NUL \<notin> set ?w" "NL \<notin> set ?w" using assms(1) by (auto dest: set_takeWhileD)
  have f: "fgets REPL_BUFFER_SIZE s = Some (fgets_loop 1023 s)" using assms(2) by (simp add: fgets_def REPL_BUFFER_SIZE_def)
  show thesis
  proof (cases "length ?w < 1023")
    case True
    from fgets_loop_line [OF True] obtain e where e:
      "fgets_loop 1023 s = (?w @ e, tl (dropWhile (\<lambda>x. x \<noteq> NL) s))" "e = [] \<or> e = [NL]" by blast
    show thesis by (rule that [OF f [unfolded e(1)]]) (use cut_line_whole [OF w e(2)] True in simp_all)
  next
    case False
    then have l: "1023 \<le> length ?w" by simp
    note g = fgets_loop_full [OF l]
    have t: "NUL \<notin> set (take 1023 ?w)" "NL \<notin> set (take 1023 ?w)" using w by (meson in_set_takeD)+
    have "cut_line (take 1023 ?w) = take 1023 ?w" using cut_line_whole [OF t, of "[]"] by simp
    moreover have "take 1023 ?w ! 1022 \<noteq> NL" using t(2) l nth_mem [of 1022 "take 1023 ?w"] by auto
    ultimately show thesis using that [OF f [unfolded conjunct1 [OF g]]] g l by simp
  qed
qed

lemma repl_loop_lines: "NUL \<notin> set input \<Longrightarrow> repl_loop interp c input vm = answer_lines interp c (split_lines input) vm"
proof (induction input arbitrary: vm rule: split_lines.induct)
  case 1
  then show ?case by (simp add: repl_loop.simps fgets_def)
next
  case (2 ch s)
  let ?s = "ch # s"
  let ?w = "takeWhile (\<lambda>x. x \<noteq> NL) ?s" and ?t = "tl (dropWhile (\<lambda>x. x \<noteq> NL) ?s)"
  obtain buf rest where r: "fgets REPL_BUFFER_SIZE ?s = Some (buf, rest)"
    "length ?w < 1023 \<Longrightarrow> cut_line buf = ?w \<and> rest = ?t"
    "1023 \<le> length ?w \<Longrightarrow> length (cut_line buf) = 1023 \<and> cut_line buf ! 1022 \<noteq> NL \<and> drain rest = ?t"
    by (rule read_line [OF 2(2)]) (simp, blast)
  have "NUL \<notin> set ?t" using 2(2) by (metis list.sel(2) list.set_sel(2) set_dropWhileD)
  note IH = 2(1) [OF this]
  have lines: "split_lines ?s = ?w # split_lines ?t" by simp
  show ?case
  proof (cases "length ?w < 1023")
    case True
    with r(2) have b: "cut_line buf = ?w" "rest = ?t" by auto
    show ?thesis using True IH unfolding lines repl_loop.simps [of interp c ?s] r(1) option.case prod.case b
      by (auto simp: Let_def REPL_BUFFER_SIZE_def simp del: takeWhile.simps dropWhile.simps split: option.split sum.split)
  next
    case False
    then have l: "1023 \<le> length ?w" by simp
    from r(3) [OF l] IH l show ?thesis unfolding lines repl_loop.simps [of interp c ?s] r(1) option.case prod.case
      by (simp add: Let_def REPL_BUFFER_SIZE_def del: takeWhile.simps dropWhile.simps)
  qed
qed

lemma snd_after [simp]: "snd (after es s) = snd s"
  by (simp add: after_def)

lemma answer_lines_run: "snd (answer_lines interp c ls vm) = run_sources interp (accepted ls) vm"
proof (induction ls arbitrary: vm)
  case Nil
  then show ?case by (simp add: accepted_def)
next
  case (Cons l ls)
  then show ?case
    by (auto simp: accepted_def is_repl_command_def REPL_BUFFER_SIZE_def andThen_def split: sum.splits)
qed

lemma repl_result: "snd (repl interp term input vm) = snd (repl_loop interp (supports_color term) input vm)"
  by (simp add: repl_def Let_def split: prod.splits)

lemma repl_runs: "NUL \<notin> set input \<Longrightarrow> snd (repl interp term input vm) = run_sources interp (accepted (split_lines input)) vm"
  by (simp add: repl_result repl_loop_lines answer_lines_run)

text \<open>
  C31: What the loop runs. On an input without zero bytes the loop ends, and what it has done to the machine is
  the run of the accepted lines one after the other: the lines before the first \<open>quit\<close> that are not empty, have
  fewer than 1023 characters and are no command. Lines that are too long are dropped whole, with the parts
  of them that did not fit the buffer.
\<close>

theorem repl_runs_sources:
  assumes "NUL \<notin> set input"
  shows "snd (repl interp term input vm) = run_sources interp (accepted (split_lines input)) vm"
  using assms by (rule repl_runs)

text \<open>A session: a command, a line that is run, \<open>quit\<close>, and a line that is not read any more.\<close>

definition sample_session :: string where
  "sample_session = ''help'' @ [NL] @ loop_source @ [NL, NL] @ ''quit'' @ [NL] @ ''var'' @ [NL]"

lemma sample_session_lines: "split_lines sample_session = [''help'', loop_source, [], ''quit'', ''var'']"
  by (simp add: sample_session_def loop_source_def NL_def)

lemma sample_session_accepted: "accepted (split_lines sample_session) = [loop_source]"
  unfolding sample_session_lines by (simp add: accepted_def loop_source_def REPL_BUFFER_SIZE_def)

lemma sample_session_plain: "NUL \<notin> set sample_session"
  by (simp add: sample_session_def loop_source_def NUL_def NL_def)

lemma repl_runs_sources_witness:
  "\<forall>interp vm. snd (repl interp None sample_session vm) = andThen (interp loop_source vm) (\<lambda>(r, vm). Inr vm)"
  using repl_runs_sources [OF sample_session_plain, of _ None] by (simp add: sample_session_accepted)

subsection \<open>Whole sessions\<close>

text \<open>\<open>source_of k (l, is)\<close>: the line \<open>l\<close> is the text of the items \<open>is\<close>, small enough for the compiler.\<close>

definition source_of :: "nat \<Rightarrow> string \<times> item list \<Rightarrow> bool" where
  "source_of k = (\<lambda>(l, is).
     (\<exists>u us. scan l = Inr (items_tokens is @ u # us) \<and> tk_type u = token_eof) \<and> list_all item_ok is \<and> is \<noteq> [] \<and>
     length (items_consts is) \<le> 255 \<and> (\<forall>i\<in>set is. length (item_tokens i) < constant_stack_max) \<and>
     length (items_tokens is) + 1 < k)"

lemma run_sources_programs:
  assumes "list_all (source_of k) lps" and "idle vm"
    and "hm_count (vm_globals vm) + length (concat (map snd lps)) < hm_limit"
    and "items_do E (concat (map snd lps)) (hm_map (vm_globals vm)) f"
  shows "\<exists>m vm'. (\<forall>n\<ge>m. run_sources (interpret_source k n E L) (map fst lps) vm = Inr vm') \<and> idle vm' \<and>
    hm_map (vm_globals vm') = f \<and> vm_errors vm' = vm_errors vm \<and> vm_printed vm' = vm_printed vm"
  using assms
proof (induction lps arbitrary: vm)
  case Nil
  then show ?case by (auto simp: items_do_simps)
next
  case (Cons p lps)
  obtain l "is" where p: "p = (l, is)" by (cases p)
  let ?rest = "concat (map snd lps)"
  from Cons.prems(4) p obtain g where g: "items_do E is (hm_map (vm_globals vm)) g" "items_do E ?rest g f"
    by (auto simp: items_do_append)
  from Cons.prems(1) p obtain u us where s: "scan l = Inr (items_tokens is @ u # us)" "tk_type u = token_eof" "list_all item_ok is"
    "is \<noteq> []" "length (items_consts is) \<le> 255" "\<forall>i\<in>set is. length (item_tokens i) < constant_stack_max"
    "length (items_tokens is) + 1 < k"
    by (auto simp: source_of_def)
  have "hm_count (vm_globals vm) + length is < hm_limit" using Cons.prems(3) p by simp
  from interpret_items_run [OF Cons.prems(2) s(1-6) this g(1) s(7), of L] obtain m1 vm1 where
    one: "\<forall>n\<ge>m1. interpret_source k n E L l vm = Inr (interpret_ok, vm1)" "idle vm1" "hm_map (vm_globals vm1) = g"
      "vm_errors vm1 = vm_errors vm" "vm_printed vm1 = vm_printed vm"
      "hm_count (vm_globals vm1) \<le> hm_count (vm_globals vm) + length is" by blast
  have "hm_count (vm_globals vm1) + length ?rest < hm_limit" using Cons.prems(3) one(6) p by simp
  from Cons.IH [OF _ one(2) this] Cons.prems(1) g(2) one(3) obtain m2 vm2 where
    two: "\<forall>n\<ge>m2. run_sources (interpret_source k n E L) (map fst lps) vm1 = Inr vm2" "idle vm2" "hm_map (vm_globals vm2) = f"
      "vm_errors vm2 = vm_errors vm1" "vm_printed vm2 = vm_printed vm1" by auto
  have "\<forall>n\<ge>max m1 m2. run_sources (interpret_source k n E L) (map fst (p # lps)) vm = Inr vm2"
    using one(1) two(1) p by (simp add: andThen_def)
  with two(2-5) one(4,5) show ?case by (intro exI [of _ "max m1 m2"] exI [of _ vm2]) simp
qed


lemma loop_source_of: "source_of 100 (loop_source, loop_items)"
  unfolding source_of_def prod.case using loop_scan sample_start(4) loop_ok by blast


subsection \<open>The exit code of a file\<close>

text \<open>The interpreter says \<open>interpret_ok\<close> or halts, so the exit codes 65 and 70 of \<open>run_file\<close> are never given.\<close>

lemma run_file_result:
  assumes "fs file_name = Some f" and "sf_room f" and "sf_read f = length (sf_bytes f)"
  shows "run_file (interpret_source k n E L) fs file_name vm =
    ([], andThen (interpret_source k n E L (c_string (sf_bytes f)) vm) (\<lambda>(r, vm). Inr vm))"
  using assms interpret_source_ok [of k n E L "c_string (sf_bytes f)" vm]
  by (auto simp: run_file_def read_file_def andThen_def split: sum.split)

lemma missing_file: "fs file_name = None \<Longrightarrow> snd (run_file interp fs file_name vm) = Inl (ExitCode 74)"
  by (simp add: run_file_def read_file_def)

text \<open>The options are spelt with a capital, other than the help says; \<open>-h\<close> is taken for the name of a file.\<close>

lemma help_says_otherwise:
  "Printed (''  -h, --help               Print this help message and exit.'' @ newline) \<in> set console_help"
  "console_match ''-h'' = None" "console_match ''-H'' = Some console_help"
  by (simp_all add: console_help_def console_match_def)

text \<open>The list of the keywords is out of date: \<open>none\<close> is an identifier, the keyword is \<open>None\<close>.\<close>

lemma keyword_list_outdated: "''none'' \<in> set keyword_list" "identifier_type ''none'' = token_identifier" "identifier_type ''None'' = token_none"
  by (simp_all add: keyword_list_def identifier_type_def check_keyword_def)


end
