(* ===== verification/Joker_Switch.thy ===== *)
theory Joker_Switch
  imports Joker_Interpret
begin

text \<open>
  The other loop of \<open>run\<close> in src/vm.c, a \<open>switch\<close> with the instructions written out in its cases. It is compiled
  where the compiler has no computed goto; the loop of \<open>Joker_Run\<close> with its handlers was made from it. Each
  case here is translated on its own, and the last part shows where the two loops agree: on every run without
  errors that avoids the four instructions whose cases have not kept up with their handlers.
\<close>

subsection \<open>Control\<close>

text \<open>How a case ends: with the next iteration, on the frame \<open>frame\<close> points to, or with a return from \<open>run\<close>.\<close>

datatype control = Again nat | Leave interpret_result

definition again :: "nat \<Rightarrow> control vm_action" where
  "again fp = act_return (Again fp)"

definition leave :: "interpret_result \<Rightarrow> control vm_action" where
  "leave r = act_return (Leave r)"

text \<open>\<open>frame = &self->frames[self->frame_count - 1]\<close>\<close>

definition reload :: "control vm_action" where
  "reload = act_bind current_frame again"

definition push_again :: "nat \<Rightarrow> jvalue \<Rightarrow> control vm_action" where
  "push_again fp v = act_then (push v) (again fp)"

definition macro_runtime_error_raised :: "nat \<Rightarrow> interpret_result vm_action \<Rightarrow> control vm_action" where
  "macro_runtime_error_raised fp m =
     act_bind m (\<lambda>result. if result = interpret_runtime_error then leave result else again fp)"

definition leave_at :: "nat \<Rightarrow> string \<Rightarrow> control vm_action" where
  "leave_at fp msg = act_then (runtime_error_at fp msg) (leave interpret_runtime_error)"

definition leave_with :: "string \<Rightarrow> control vm_action" where
  "leave_with msg = act_then (runtime_error msg) (leave interpret_runtime_error)"

subsection \<open>Constants and operators\<close>

definition case_constant :: "nat \<Rightarrow> control vm_action" where
  "case_constant fp = act_bind (read_constant fp) (push_again fp)"

definition case_constant_long :: "nat \<Rightarrow> control vm_action" where
  "case_constant_long fp = act_bind (read_constant_long fp) (push_again fp)"

definition case_value :: "nat \<Rightarrow> control vm_action" where
  "case_value fp = act_bind (read_byte fp) (\<lambda>b. push_again fp (VI32 (ucast b)))"

definition case_negate :: "nat \<Rightarrow> control vm_action" where
  "case_negate fp = macro_runtime_error_raised fp (update_top fp negate)"

definition case_not :: "nat \<Rightarrow> control vm_action" where
  "case_not fp = macro_runtime_error_raised fp (update_top fp not_value)"

definition case_dup :: "nat \<Rightarrow> control vm_action" where
  "case_dup fp = act_bind (peek_value 0) (push_again fp)"

text \<open>Equality is \<open>values_equal\<close>, without the conversion of the operands.\<close>

definition case_equal :: "nat \<Rightarrow> control vm_action" where
  "case_equal fp =
     act_bind pop (\<lambda>right. act_bind pop (\<lambda>left. act_bind (vm_values_equal left right) (\<lambda>b. push_again fp (VBool b))))"

definition case_not_equal :: "nat \<Rightarrow> control vm_action" where
  "case_not_equal fp =
     act_bind pop (\<lambda>right. act_bind pop (\<lambda>left. act_bind (vm_values_equal left right) (\<lambda>b. push_again fp (VBool (\<not> b)))))"

definition is_string_value :: "jvalue \<Rightarrow> bool" where
  "is_string_value v = (case v of VObject (StrRef _) \<Rightarrow> True | _ \<Rightarrow> False)"

text \<open>A null result has reported an error and so emptied the stack; the first \<open>pop\<close> panics then.\<close>

definition concatenate_string :: "unit vm_action" where
  "concatenate_string =
     act_bind (peek_value 0) (\<lambda>r. act_bind (act_lift (as_string r)) (\<lambda>right.
     act_bind (peek_value 1) (\<lambda>l. act_bind (act_lift (as_string l)) (\<lambda>left.
     act_bind (concat_contents left right) (\<lambda>result. act_bind pop (\<lambda>_. act_bind pop (\<lambda>_.
       case result of None \<Rightarrow> act_halt (Undefined ''null string'') | Some s \<Rightarrow> push (string_value s))))))))"

definition case_add :: "env \<Rightarrow> nat \<Rightarrow> control vm_action" where
  "case_add E fp =
     act_bind (peek_slot 0) (\<lambda>r_slot. act_bind (peek_slot 1) (\<lambda>l_slot. act_bind (read_slot l_slot) (\<lambda>l.
     act_bind (if is_string_value l then act_bind (read_slot r_slot) (\<lambda>r. act_return (is_string_value r)) else act_return False)
       (\<lambda>strings.
         if strings then act_then concatenate_string (again fp)
         else macro_runtime_error_raised fp (read_binary E OP_ADD fp)))))"

definition case_binary :: "env \<Rightarrow> operator \<Rightarrow> nat \<Rightarrow> control vm_action" where
  "case_binary E op fp = macro_runtime_error_raised fp (read_binary E op fp)"

definition case_bw_not :: "nat \<Rightarrow> control vm_action" where
  "case_bw_not fp = macro_runtime_error_raised fp (read_unary OP_BIT_NOT fp)"

definition case_pop :: "nat \<Rightarrow> control vm_action" where
  "case_pop fp = act_bind pop (\<lambda>_. again fp)"

subsection \<open>Variables\<close>

definition case_define_global :: "nat \<Rightarrow> control vm_action" where
  "case_define_global fp =
     act_bind (read_string fp) (\<lambda>identifier. act_bind (peek_value 0) (\<lambda>v.
     act_bind (act_get vm_globals) (\<lambda>globals. act_bind (insert_entry globals identifier v) (\<lambda>globals.
     act_then (set_globals globals) (act_bind pop (\<lambda>_. again fp))))))"

definition case_set_global :: "nat \<Rightarrow> control vm_action" where
  "case_set_global fp =
     act_bind (read_string fp) (\<lambda>identifier.
     act_bind (act_with (\<lambda>vm. hashmap_get_entry hash_string (vm_globals vm) identifier)) (\<lambda>(globals, i).
     act_then (set_globals globals)
       (if is_empty_entry (hm_entries globals ! i) then leave_at fp ''undefined global variable''
        else act_bind (peek_value 0) (\<lambda>v.
          act_then (set_globals (globals\<lparr>hm_entries :=
              (hm_entries globals)[i := (hm_entries globals ! i)\<lparr>e_value := v\<rparr>]\<rparr>)) (again fp)))))"

definition case_get_global :: "nat \<Rightarrow> control vm_action" where
  "case_get_global fp =
     act_bind (read_string fp) (\<lambda>identifier.
     act_bind (act_get vm_globals) (\<lambda>globals. act_bind (lookup globals identifier) (\<lambda>v.
       if macro_is_null v then leave_at fp ''undefined global variable'' else push_again fp v)))"

definition case_set_local :: "nat \<Rightarrow> control vm_action" where
  "case_set_local fp =
     act_bind (read_byte fp) (\<lambda>slot. act_bind (frame_slot fp (unat slot)) (\<lambda>i.
     act_bind (peek_value 0) (\<lambda>v. act_then (write_slot i v) (again fp))))"

definition case_get_local :: "nat \<Rightarrow> control vm_action" where
  "case_get_local fp =
     act_bind (read_byte fp) (\<lambda>slot. act_bind (frame_slot fp (unat slot)) (\<lambda>i. act_bind (read_slot i) (\<lambda>v.
       if macro_is_null v then leave_at fp ''undefined local variable'' else push_again fp v)))"

definition case_get_upvalue :: "nat \<Rightarrow> control vm_action" where
  "case_get_upvalue fp =
     act_bind (read_byte fp) (\<lambda>slot. act_bind (frame_upvalue_ptr fp (unat slot)) (\<lambda>a.
     act_bind (read_upvalue a) (push_again fp)))"

definition case_set_upvalue :: "nat \<Rightarrow> control vm_action" where
  "case_set_upvalue fp =
     act_bind (read_byte fp) (\<lambda>slot. act_bind (frame_upvalue_ptr fp (unat slot)) (\<lambda>a.
     act_bind (peek_value 0) (\<lambda>v. act_then (write_upvalue a v) (again fp))))"

subsection \<open>Properties\<close>

definition case_get_property :: "nat \<Rightarrow> control vm_action" where
  "case_get_property fp =
     act_bind (read_string fp) (\<lambda>name. act_bind (peek_value 0) (\<lambda>holder.
     act_bind (is_valid_property_holder holder) (\<lambda>valid.
       if \<not> valid then leave_with ''Property access on non-object type.''
       else act_bind (get_property holder name) (\<lambda>r.
         if r \<noteq> interpret_ok then leave interpret_runtime_error else again fp))))"

definition case_set_property :: "nat \<Rightarrow> control vm_action" where
  "case_set_property fp =
     act_bind (read_string fp) (\<lambda>name. act_bind (peek_value 0) (\<lambda>v. act_bind (peek_value 1) (\<lambda>holder.
     act_bind (is_valid_property_holder holder) (\<lambda>valid.
       if \<not> valid then leave_with ''Cannot set property on non-object type.''
       else act_bind (set_property holder name v) (\<lambda>r.
         if r \<noteq> interpret_ok then leave r
         else act_bind pop (\<lambda>_. act_bind pop (\<lambda>_. push_again fp v)))))))"

definition case_get_super :: "nat \<Rightarrow> control vm_action" where
  "case_get_super fp =
     act_bind (read_string fp) (\<lambda>name. act_bind pop (\<lambda>v. act_bind (act_lift (as_addr v)) (\<lambda>k.
     act_bind (bind_method k name) (\<lambda>b. if \<not> b then leave interpret_runtime_error else again fp))))"

definition case_get_layer_property :: "env \<Rightarrow> nat \<Rightarrow> control vm_action" where
  "case_get_layer_property E fp =
     act_bind (peek_value 0) (\<lambda>v. act_bind (read_string fp) (\<lambda>name.
     act_bind (get_layer_property E v name) (\<lambda>b. if \<not> b then leave interpret_runtime_error else again fp)))"

definition case_get_type :: "nat \<Rightarrow> control vm_action" where
  "case_get_type fp =
     act_bind (read_string fp) (\<lambda>identifier. act_bind (act_get vm_types) (\<lambda>types.
     act_bind (lookup types identifier) (\<lambda>t.
       if macro_is_null t then leave_at fp ''undefined global type variable'' else push_again fp t)))"

subsection \<open>Jumps and calls\<close>

definition case_jump_if_false :: "nat \<Rightarrow> control vm_action" where
  "case_jump_if_false fp =
     act_bind (read_short fp) (\<lambda>offset. act_bind (peek_value 0) (\<lambda>v. act_bind (is_falsey v) (\<lambda>b.
       act_then (if b then jump_forward fp offset else act_return ()) (again fp))))"

definition case_jump_if_neq :: "nat \<Rightarrow> control vm_action" where
  "case_jump_if_neq fp =
     act_bind pop (\<lambda>pattern. act_bind pop (\<lambda>matched. act_bind (vm_values_equal matched pattern) (\<lambda>eq.
     act_then
       (if \<not> eq then act_bind (read_short fp) (jump_forward fp) else jump_forward fp 2)
       (push_again fp matched))))"

definition case_jump :: "nat \<Rightarrow> control vm_action" where
  "case_jump fp = act_bind (read_short fp) (\<lambda>offset. act_then (jump_forward fp offset) (again fp))"

definition case_loop :: "nat \<Rightarrow> control vm_action" where
  "case_loop fp = act_bind (read_short fp) (\<lambda>offset. act_then (jump_back fp offset) (again fp))"

definition case_match :: "nat \<Rightarrow> control vm_action" where
  "case_match fp = act_bind (read_short fp) (\<lambda>_. again fp)"

definition case_break :: "nat \<Rightarrow> control vm_action" where
  "case_break fp = act_bind (read_short fp) (\<lambda>offset. act_then (jump_forward fp offset) (again fp))"

definition case_continue :: "nat \<Rightarrow> control vm_action" where
  "case_continue fp = act_bind (read_short fp) (\<lambda>offset. act_then (jump_back fp offset) (again fp))"

definition case_call :: "env \<Rightarrow> nat \<Rightarrow> control vm_action" where
  "case_call E fp =
     act_bind (read_byte fp) (\<lambda>b. act_bind (peek_value (unat b)) (\<lambda>callee.
     act_bind (call_value E callee (unat b)) (\<lambda>r. if \<not> r then leave interpret_runtime_error else reload)))"

definition case_invoke :: "env \<Rightarrow> nat \<Rightarrow> control vm_action" where
  "case_invoke E fp =
     act_bind (read_string fp) (\<lambda>name. act_bind (read_byte fp) (\<lambda>b.
     act_bind (invoke E name (unat b)) (\<lambda>r. if \<not> r then leave interpret_runtime_error else reload)))"

definition case_super_invoke :: "nat \<Rightarrow> control vm_action" where
  "case_super_invoke fp =
     act_bind (read_string fp) (\<lambda>name. act_bind (read_byte fp) (\<lambda>b. act_bind pop (\<lambda>v.
     act_bind (act_lift (as_addr v)) (\<lambda>super. act_bind (invoke_from_class super name (unat b)) (\<lambda>r.
       if \<not> r then leave_at fp ''undefined superclass method'' else reload)))))"

definition case_return :: "env \<Rightarrow> nat \<Rightarrow> control vm_action" where
  "case_return E fp =
     act_bind pop (\<lambda>result. act_bind (frame_at fp) (\<lambda>f.
     act_then (close_upvalues E (cf_slots f))
     (act_bind (act_get vm_frame_count) (\<lambda>n.
       if n = 0 then act_halt (Undefined ''frames[-2]'')
       else act_then (act_update (\<lambda>vm. vm\<lparr>vm_frame_count := n - 1\<rparr>))
         (if n = 1 then leave interpret_ok
          else act_then (act_update (\<lambda>vm. vm\<lparr>vm_stack_top := cf_slots f\<rparr>))
            (act_then (push result) reload))))))"

definition case_print :: "nat \<Rightarrow> control vm_action" where
  "case_print fp =
     act_bind pop (\<lambda>v. act_then (act_update (\<lambda>vm. vm\<lparr>vm_printed := vm_printed vm @ [v]\<rparr>)) (again fp))"

subsection \<open>Closures, classes and structs\<close>

definition case_closure :: "env \<Rightarrow> nat \<Rightarrow> control vm_action" where
  "case_closure E fp =
     act_bind (read_constant fp) (\<lambda>v. act_bind (act_lift (as_addr v)) (\<lambda>fn.
     act_bind (allocate_outcome (new_closure fn)) (\<lambda>c. act_then (push (obj_value c))
     (act_bind (on_heap (\<lambda>h. get_closure h c)) (\<lambda>closure.
       act_then (fill_upvalues (length (cl_upvalue_ptrs closure)) E fp c 0) (again fp))))))"

definition case_close_upvalue :: "env \<Rightarrow> nat \<Rightarrow> control vm_action" where
  "case_close_upvalue E fp =
     act_bind (act_get vm_stack_top) (\<lambda>top.
       if top = 0 then act_halt (Undefined ''stack[-1]'')
       else act_then (close_upvalues E (top - 1)) (act_bind pop (\<lambda>_. again fp)))"

definition case_class :: "nat \<Rightarrow> control vm_action" where
  "case_class fp =
     act_bind (read_string fp) (\<lambda>name. act_bind (allocate (new_class name)) (\<lambda>a. push_again fp (obj_value a)))"

definition case_inherit :: "nat \<Rightarrow> control vm_action" where
  "case_inherit fp =
     act_bind (peek_value 1) (\<lambda>superclass. act_bind (is_type superclass OBJ_CLASS) (\<lambda>is_class.
       if \<not> is_class then leave_at fp ''superclass must be a class''
       else act_bind (peek_value 0) (\<lambda>v. act_bind (deref v get_class) (\<lambda>(a, klass).
         act_bind (deref superclass get_class) (\<lambda>(_, super).
         act_bind (act_lift (hashmap_add_all hash_string (cls_methods super) (cls_methods klass))) (\<lambda>m.
         act_then (store_obj a (OClass (klass\<lparr>cls_methods := m\<rparr>))) (act_bind pop (\<lambda>_. again fp))))))))"

definition case_method :: "nat \<Rightarrow> control vm_action" where
  "case_method fp = act_bind (read_string fp) (\<lambda>name. act_then (define_method name) (again fp))"

definition case_struct :: "nat \<Rightarrow> control vm_action" where
  "case_struct fp =
     act_bind (read_string fp) (\<lambda>name. act_bind (allocate (new_struct name)) (\<lambda>a. push_again fp (obj_value a)))"

text \<open>The names of the fields are not inherited, only the fields and their number.\<close>

definition case_struct_inherit :: "nat \<Rightarrow> control vm_action" where
  "case_struct_inherit fp =
     act_bind (peek_value 1) (\<lambda>w. act_bind (is_type w OBJ_STRUCT) (\<lambda>is_struct.
       if \<not> is_struct then leave_at fp ''super must be a struct''
       else act_bind (deref w get_struct) (\<lambda>(_, super). act_bind (peek_value 0) (\<lambda>v.
         act_bind (deref v get_struct) (\<lambda>(a, s).
         act_bind (act_lift (hashmap_add_all hash_string (st_fields super) (st_fields s))) (\<lambda>m.
         act_then (store_obj a (OStruct (s\<lparr>st_fields := m, st_count := st_count super\<rparr>)))
           (act_bind pop (\<lambda>_. again fp))))))))"

definition case_member :: "nat \<Rightarrow> control vm_action" where
  "case_member fp = act_bind (read_string fp) (\<lambda>name. act_then (define_member name) (again fp))"

subsection \<open>Enums and vectors\<close>

definition case_enum :: "nat \<Rightarrow> control vm_action" where
  "case_enum fp =
     act_bind (read_string fp) (\<lambda>name. act_bind (allocate (new_enum name)) (\<lambda>a. push_again fp (obj_value a)))"

definition case_enum_define_member :: "env \<Rightarrow> nat \<Rightarrow> control vm_action" where
  "case_enum_define_member E fp =
     act_bind (read_string fp) (\<lambda>name. act_then (define_enum_member E name) (again fp))"

definition case_enum_get_member :: "nat \<Rightarrow> control vm_action" where
  "case_enum_get_member fp = act_bind (read_string fp) (\<lambda>name. push_again fp (string_value name))"

definition case_enum_member_match :: "nat \<Rightarrow> control vm_action" where
  "case_enum_member_match fp =
     act_bind pop (\<lambda>m. act_bind (act_lift (as_string m)) (\<lambda>member.
     act_bind pop (\<lambda>pattern. act_bind pop (\<lambda>matched. act_then (push matched)
     (act_bind (deref matched get_enum_instance) (\<lambda>(_, inst).
     act_bind (if ei_name inst = member
               then act_bind (act_lift (as_addr pattern)) (\<lambda>e. act_return (e = ei_enum_type inst))
               else act_return False) (\<lambda>matches.
       act_then
         (if matches then act_then (jump_forward fp 2) (push_values (ei_values inst))
          else act_bind (read_short fp) (jump_forward fp))
         (again fp))))))))"

definition case_enum_member_bind :: "nat \<Rightarrow> control vm_action" where
  "case_enum_member_bind fp =
     act_bind (read_byte fp) (\<lambda>bind_count. act_then (bind_members (unat bind_count) fp) (again fp))"

definition case_layer_property_call :: "env \<Rightarrow> nat \<Rightarrow> control vm_action" where
  "case_layer_property_call E fp =
     act_bind (read_string fp) (\<lambda>name. act_bind (read_byte fp) (\<lambda>b.
     act_bind (peek_value (unat b)) (\<lambda>w. act_bind (is_type w OBJ_CLASS) (\<lambda>is_class.
     act_bind (is_type w OBJ_ENUM) (\<lambda>is_enum.
       if is_class then
         act_bind (deref w get_class) (\<lambda>(_, k). act_bind (lookup (cls_methods k) name) (\<lambda>method.
           if macro_is_null method then leave_with ''Undefined static method''
           else act_then (write_below_top (unat b + 1) method)
             (act_bind (call_value E method (unat b)) (\<lambda>r. if \<not> r then leave interpret_runtime_error else reload))))
       else if is_enum then act_then (call_enum_member E w name (unat b)) (again fp)
       else again fp)))))"

text \<open>The class of the vectors is taken from the table without the check of \<open>type_find\<close>.\<close>

definition case_vector_new :: "nat \<Rightarrow> control vm_action" where
  "case_vector_new fp =
     act_bind (read_byte fp) (\<lambda>n. act_bind (pop_elements (unat n) (new_vec_with_capacity (unat n))) (\<lambda>v.
     act_bind (allocate (allocate_object (OVec v))) (\<lambda>d.
     act_bind (act_get vm_types) (\<lambda>types. act_bind (lookup types ''Vec'') (\<lambda>w. act_bind (act_lift (as_addr w)) (\<lambda>k.
     act_bind (allocate_outcome (new_instance k)) (\<lambda>a.
     act_bind (on_heap (\<lambda>h. get_instance h a)) (\<lambda>inst.
     act_bind (insert_entry (in_fields inst) ''_data'' (obj_value d)) (\<lambda>m.
     act_then (store_obj a (OInstance (inst\<lparr>in_fields := m\<rparr>))) (push_again fp (obj_value a)))))))))))"

definition case_checked_vector ::
    "nat \<Rightarrow> jvalue \<Rightarrow> jvalue \<Rightarrow> (nat \<Rightarrow> vec \<Rightarrow> nat \<Rightarrow> control vm_action) \<Rightarrow> control vm_action" where
  "case_checked_vector fp vec_val index_val f =
     act_bind (is_type vec_val OBJ_INSTANCE) (\<lambda>is_instance.
       if \<not> is_instance then act_halt (Undefined ''not an Instance'')
       else case index_val of
         VI32 w \<Rightarrow>
           act_bind (data_of vec_val) (\<lambda>d. act_bind (deref d get_vec) (\<lambda>(a, v).
             if sint w < 0 \<or> int (vec_len v) \<le> sint w then leave_at fp ''Vector index out of bounds''
             else f a v (nat (sint w))))
       | _ \<Rightarrow> leave_at fp ''Expected integer index'')"

definition case_vector_get :: "nat \<Rightarrow> control vm_action" where
  "case_vector_get fp =
     act_bind pop (\<lambda>index_val. act_bind pop (\<lambda>vec_val.
       case_checked_vector fp vec_val index_val (\<lambda>a v i. act_bind (act_lift (vec_get v i)) (push_again fp))))"

definition case_vector_set :: "nat \<Rightarrow> control vm_action" where
  "case_vector_set fp =
     act_bind pop (\<lambda>x. act_bind pop (\<lambda>index_val. act_bind pop (\<lambda>vec_val.
       case_checked_vector fp vec_val index_val (\<lambda>a v i.
         act_bind (act_lift (vec_set v i x)) (\<lambda>v. act_then (store_vec a v) (push_again fp x))))))"

subsection \<open>The loop\<close>

text \<open>There is no case for the remainder, which falls to the default.\<close>

definition switch_case :: "env \<Rightarrow> op_code \<Rightarrow> nat \<Rightarrow> control vm_action" where
  "switch_case E op fp =
     (case op of
        op_constant \<Rightarrow> case_constant fp
      | op_constant_long \<Rightarrow> case_constant_long fp
      | op_value \<Rightarrow> case_value fp
      | op_negate \<Rightarrow> case_negate fp
      | op_not \<Rightarrow> case_not fp
      | op_none \<Rightarrow> push_again fp VNone
      | op_true \<Rightarrow> push_again fp (VBool True)
      | op_false \<Rightarrow> push_again fp (VBool False)
      | op_dup \<Rightarrow> case_dup fp
      | op_equal \<Rightarrow> case_equal fp
      | op_not_equal \<Rightarrow> case_not_equal fp
      | op_greater \<Rightarrow> case_binary E OP_GT fp
      | op_greater_equal \<Rightarrow> case_binary E OP_GTE fp
      | op_less \<Rightarrow> case_binary E OP_LT fp
      | op_less_equal \<Rightarrow> case_binary E OP_LTE fp
      | op_add \<Rightarrow> case_add E fp
      | op_subtract \<Rightarrow> case_binary E OP_SUB fp
      | op_multiply \<Rightarrow> case_binary E OP_MUL fp
      | op_divide \<Rightarrow> case_binary E OP_DIV fp
      | op_bw_and \<Rightarrow> case_binary E OP_BIT_AND fp
      | op_bw_or \<Rightarrow> case_binary E OP_BIT_OR fp
      | op_bw_xor \<Rightarrow> case_binary E OP_BIT_XOR fp
      | op_bw_not \<Rightarrow> case_bw_not fp
      | op_bw_sl \<Rightarrow> case_binary E OP_SHL fp
      | op_bw_sr \<Rightarrow> case_binary E OP_SHR fp
      | op_pop \<Rightarrow> case_pop fp
      | op_define_global \<Rightarrow> case_define_global fp
      | op_set_global \<Rightarrow> case_set_global fp
      | op_get_global \<Rightarrow> case_get_global fp
      | op_set_local \<Rightarrow> case_set_local fp
      | op_get_local \<Rightarrow> case_get_local fp
      | op_get_upvalue \<Rightarrow> case_get_upvalue fp
      | op_set_upvalue \<Rightarrow> case_set_upvalue fp
      | op_get_property \<Rightarrow> case_get_property fp
      | op_set_property \<Rightarrow> case_set_property fp
      | op_get_super \<Rightarrow> case_get_super fp
      | op_jump_if_false \<Rightarrow> case_jump_if_false fp
      | op_jump_if_neq \<Rightarrow> case_jump_if_neq fp
      | op_jump \<Rightarrow> case_jump fp
      | op_loop \<Rightarrow> case_loop fp
      | op_match \<Rightarrow> case_match fp
      | op_call \<Rightarrow> case_call E fp
      | op_invoke \<Rightarrow> case_invoke E fp
      | op_super_invoke \<Rightarrow> case_super_invoke fp
      | op_break \<Rightarrow> case_break fp
      | op_continue \<Rightarrow> case_continue fp
      | op_class \<Rightarrow> case_class fp
      | op_inherit \<Rightarrow> case_inherit fp
      | op_method \<Rightarrow> case_method fp
      | op_closure \<Rightarrow> case_closure E fp
      | op_close_upvalue \<Rightarrow> case_close_upvalue E fp
      | op_struct \<Rightarrow> case_struct fp
      | op_struct_inherit \<Rightarrow> case_struct_inherit fp
      | op_member \<Rightarrow> case_member fp
      | op_enum \<Rightarrow> case_enum fp
      | op_enum_define_member \<Rightarrow> case_enum_define_member E fp
      | op_enum_get_member \<Rightarrow> case_enum_get_member fp
      | op_enum_member_match \<Rightarrow> case_enum_member_match fp
      | op_enum_member_bind \<Rightarrow> case_enum_member_bind fp
      | op_layer_property_call \<Rightarrow> case_layer_property_call E fp
      | op_get_layer_property \<Rightarrow> case_get_layer_property E fp
      | op_get_type \<Rightarrow> case_get_type fp
      | op_vector_new \<Rightarrow> case_vector_new fp
      | op_vector_get \<Rightarrow> case_vector_get fp
      | op_vector_set \<Rightarrow> case_vector_set fp
      | op_return \<Rightarrow> case_return E fp
      | op_print \<Rightarrow> case_print fp
      | op_mod \<Rightarrow> act_halt (Panic ''VirtualMachine::run''))"

definition switch_step :: "env \<Rightarrow> nat \<Rightarrow> control vm_action" where
  "switch_step E fp =
     act_bind (read_byte fp) (\<lambda>b.
       case op_of_byte b of None \<Rightarrow> act_halt (Panic ''VirtualMachine::run'') | Some op \<Rightarrow> switch_case E op fp)"

primrec switch_loop :: "nat \<Rightarrow> env \<Rightarrow> nat \<Rightarrow> interpret_result vm_action" where
  "switch_loop 0 E fp = act_halt Diverge"
| "switch_loop (Suc fuel) E fp =
     act_bind (switch_step E fp) (\<lambda>c. case c of Again fp \<Rightarrow> switch_loop fuel E fp | Leave r \<Rightarrow> act_return r)"

definition run_switch :: "nat \<Rightarrow> env \<Rightarrow> interpret_result vm_action" where
  "run_switch fuel E = act_bind current_frame (switch_loop fuel E)"

subsection \<open>Handlers and cases\<close>

text \<open>
  \<open>follows k m c\<close>: where the handler \<open>m\<close> comes back, the case \<open>c\<close> does the same and goes on with \<open>k\<close> or, after an
  error, leaves the loop.
\<close>

definition follows :: "control vm_action \<Rightarrow> interpret_result vm_action \<Rightarrow> control vm_action \<Rightarrow> bool" where
  "follows k m c \<longleftrightarrow>
     (\<forall>vm r vm'. m vm = Inr (r, vm') \<longrightarrow> c vm = (if r = interpret_ok then k vm' else Inr (Leave r, vm')))"

named_theorems follows_ok

lemma follows_bind [follows_ok]: "(\<And>x. follows k (f x) (g x)) \<Longrightarrow> follows k (act_bind m f) (act_bind m g)"
  by (auto simp: follows_def act_simps andThen_Inr_iff)

lemma follows_then [follows_ok]: "follows k f g \<Longrightarrow> follows k (act_then m f) (act_then m g)"
  by (auto simp: follows_def act_simps andThen_Inr_iff)

lemma follows_okay [follows_ok]: "follows k ok k"
  by (simp add: follows_def ok_def act_simps)

lemma follows_push [follows_ok]: "follows (again fp) (push_ok v) (push_again fp v)"
  unfolding push_ok_def push_again_def by (rule follows_then [OF follows_okay])

lemma follows_return_error [follows_ok]: "follows k (act_return interpret_runtime_error) (leave interpret_runtime_error)"
  by (simp add: follows_def leave_def act_simps)

lemma follows_fail [follows_ok]: "follows k (fail_at fp msg) (leave_at fp msg)" "follows k (fail_with msg) (leave_with msg)"
  unfolding fail_at_def leave_at_def fail_with_def leave_with_def by (intro follows_ok)+

lemma follows_halt [follows_ok]: "follows k (act_halt h) c"
  by (simp add: follows_def act_simps)

lemma follows_if [follows_ok]:
  "(b \<Longrightarrow> follows k m c) \<Longrightarrow> (\<not> b \<Longrightarrow> follows k n d) \<Longrightarrow> follows k (if b then m else n) (if b then c else d)"
  by simp

lemma follows_prod [follows_ok]:
  "(\<And>x y. follows k (f x y) (g x y)) \<Longrightarrow> follows k (case p of (x, y) \<Rightarrow> f x y) (case p of (x, y) \<Rightarrow> g x y)"
  by (cases p) simp

lemma follows_jvalue [follows_ok]:
  "(\<And>w. follows k (f w) (g w)) \<Longrightarrow> follows k m c \<Longrightarrow>
   follows k (case v of VI32 w \<Rightarrow> f w | _ \<Rightarrow> m) (case v of VI32 w \<Rightarrow> g w | _ \<Rightarrow> c)"
  by (cases v) simp_all

lemma follows_result [follows_ok]: "follows k (act_return (as_result b)) (if \<not> b then leave interpret_runtime_error else k)"
  by (simp add: follows_def as_result_def leave_def act_simps)

lemma follows_property [follows_ok]:
  "follows k (act_return (if r \<noteq> interpret_ok then interpret_runtime_error else interpret_ok))
     (if r \<noteq> interpret_ok then leave interpret_runtime_error else k)"
  by (simp add: follows_def leave_def act_simps)

lemma follows_set [follows_ok]:
  "follows k m c \<Longrightarrow> follows k (if r \<noteq> interpret_ok then act_return r else m) (if r \<noteq> interpret_ok then leave r else c)"
  by (simp add: follows_def leave_def act_simps)

lemma follows_if_not [follows_ok]: "follows k m c \<Longrightarrow> follows k n d \<Longrightarrow> follows k (if b then m else n) (if \<not> b then d else c)"
  by simp

text \<open>Operators end with \<open>interpret_ok\<close> or with an error and nothing else.\<close>

definition two_way :: "interpret_result vm_action \<Rightarrow> bool" where
  "two_way m \<longleftrightarrow> (\<forall>vm r vm'. m vm = Inr (r, vm') \<longrightarrow> r = interpret_ok \<or> r = interpret_runtime_error)"

named_theorems two_ways

lemma two_way_bind [two_ways]: "(\<And>x. two_way (f x)) \<Longrightarrow> two_way (act_bind m f)"
  by (fastforce simp: two_way_def act_simps andThen_Inr_iff)

lemma two_way_then [two_ways]: "two_way f \<Longrightarrow> two_way (act_then m f)"
  by (fastforce simp: two_way_def act_simps andThen_Inr_iff)

lemma two_way_ends [two_ways]: "two_way ok" "two_way (fail_at fp msg)" "two_way (fail_with msg)" "two_way (act_halt h)"
  by (auto simp: two_way_def ok_def fail_at_def fail_with_def act_simps andThen_Inr_iff)

lemma two_way_if [two_ways]: "two_way m \<Longrightarrow> two_way n \<Longrightarrow> two_way (if b then m else n)"
  by simp

lemma two_way_prod [two_ways]: "(\<And>x y. two_way (f x y)) \<Longrightarrow> two_way (case p of (x, y) \<Rightarrow> f x y)"
  by (cases p) simp

lemma two_way_value [two_ways]: "(\<And>r. two_way (f r)) \<Longrightarrow> two_way m \<Longrightarrow> two_way (case v of VObject r \<Rightarrow> f r | _ \<Rightarrow> m)"
  by (cases v) simp_all

lemma two_way_result [two_ways]:
  "(\<And>v. two_way (f v)) \<Longrightarrow> (\<And>m. two_way (g m)) \<Longrightarrow> two_way (case r of Result v \<Rightarrow> f v | Error m \<Rightarrow> g m)"
  by (cases r) simp_all

lemma two_way_operators [two_ways]: "two_way (read_binary E op fp)" "two_way (read_unary uop fp)" "two_way (update_top fp f)"
  unfolding read_binary_def finish_basic_def read_unary_def update_top_def by (intro two_ways)+

lemma follows_raised: "two_way m \<Longrightarrow> follows (again fp) m (macro_runtime_error_raised fp m)"
  by (fastforce simp: follows_def two_way_def macro_runtime_error_raised_def leave_def act_simps)

lemmas follows_operator [follows_ok] = follows_raised [OF two_way_operators(1)] follows_raised [OF two_way_operators(2)]
  follows_raised [OF two_way_operators(3)]

lemmas case_defs = case_constant_def case_constant_long_def case_value_def case_negate_def case_not_def case_dup_def
  case_binary_def case_bw_not_def case_pop_def case_define_global_def case_set_global_def case_get_global_def
  case_set_local_def case_get_local_def case_get_upvalue_def case_set_upvalue_def case_get_property_def
  case_set_property_def case_get_super_def case_get_layer_property_def case_get_type_def case_jump_if_false_def
  case_jump_if_neq_def case_jump_def case_loop_def case_match_def case_break_def case_continue_def case_call_def
  case_invoke_def case_super_invoke_def case_print_def case_closure_def case_close_upvalue_def case_class_def
  case_inherit_def case_method_def case_struct_def case_member_def case_enum_def case_enum_define_member_def
  case_enum_get_member_def case_enum_member_match_def case_enum_member_bind_def

text \<open>The cases that are their handlers.\<close>

lemma follows_stack [follows_ok]:
  "follows (again fp) (handle_op_constant fp) (case_constant fp)" "follows (again fp) (handle_op_constant_long fp) (case_constant_long fp)"
  "follows (again fp) (handle_op_value fp) (case_value fp)" "follows (again fp) (handle_op_none fp) (push_again fp VNone)"
  "follows (again fp) (handle_op_true fp) (push_again fp (VBool True))" "follows (again fp) (handle_op_false fp) (push_again fp (VBool False))"
  "follows (again fp) (handle_op_negate fp) (case_negate fp)" "follows (again fp) (handle_op_not fp) (case_not fp)"
  "follows (again fp) (handle_op_dup fp) (case_dup fp)" "follows (again fp) (handle_op_pop fp) (case_pop fp)"
  "follows (again fp) (handle_op_print fp) (case_print fp)" "follows (again fp) (read_binary E op fp) (case_binary E op fp)"
  "follows (again fp) (read_unary OP_BIT_NOT fp) (case_bw_not fp)"
  unfolding case_defs simple_handler_defs handle_op_print_def by (intro follows_ok)+

lemma follows_variables [follows_ok]:
  "follows (again fp) (handle_op_define_global fp) (case_define_global fp)" "follows (again fp) (handle_op_set_global fp) (case_set_global fp)"
  "follows (again fp) (handle_op_get_global fp) (case_get_global fp)" "follows (again fp) (handle_op_set_local fp) (case_set_local fp)"
  "follows (again fp) (handle_op_get_local fp) (case_get_local fp)" "follows (again fp) (handle_op_get_upvalue fp) (case_get_upvalue fp)"
  "follows (again fp) (handle_op_set_upvalue fp) (case_set_upvalue fp)"
  unfolding case_defs simple_handler_defs by (intro follows_ok)+

lemma follows_properties [follows_ok]:
  "follows (again fp) (handle_op_get_property fp) (case_get_property fp)" "follows (again fp) (handle_op_set_property fp) (case_set_property fp)"
  "follows (again fp) (handle_op_get_super fp) (case_get_super fp)" "follows (again fp) (handle_op_get_type fp) (case_get_type fp)"
  "follows (again fp) (handle_op_get_layer_property E fp) (case_get_layer_property E fp)"
  unfolding case_defs simple_handler_defs by (intro follows_ok)+

lemma follows_jumps [follows_ok]:
  "follows (again fp) (handle_op_jump_if_false fp) (case_jump_if_false fp)" "follows (again fp) (handle_op_jump_if_neq fp) (case_jump_if_neq fp)"
  "follows (again fp) (handle_op_jump fp) (case_jump fp)" "follows (again fp) (handle_op_loop fp) (case_loop fp)"
  "follows (again fp) (handle_op_match fp) (case_match fp)" "follows (again fp) (handle_op_break fp) (case_break fp)"
  "follows (again fp) (handle_op_continue fp) (case_continue fp)"
  unfolding case_defs simple_handler_defs by (intro follows_ok)+

lemma follows_calls [follows_ok]:
  "follows reload (handle_op_call E fp) (case_call E fp)" "follows reload (handle_op_invoke E fp) (case_invoke E fp)"
  "follows reload (handle_op_super_invoke fp) (case_super_invoke fp)" "follows (again fp) (handle_op_closure E fp) (case_closure E fp)"
  "follows (again fp) (handle_op_close_upvalue E fp) (case_close_upvalue E fp)"
  unfolding case_defs simple_handler_defs object_handler_defs by (intro follows_ok)+

lemma follows_objects [follows_ok]:
  "follows (again fp) (handle_op_class fp) (case_class fp)" "follows (again fp) (handle_op_inherit fp) (case_inherit fp)"
  "follows (again fp) (handle_op_method fp) (case_method fp)" "follows (again fp) (handle_op_struct fp) (case_struct fp)"
  "follows (again fp) (handle_op_member fp) (case_member fp)" "follows (again fp) (handle_op_enum fp) (case_enum fp)"
  "follows (again fp) (handle_op_enum_define_member E fp) (case_enum_define_member E fp)"
  "follows (again fp) (handle_op_enum_get_member fp) (case_enum_get_member fp)"
  "follows (again fp) (handle_op_enum_member_match fp) (case_enum_member_match fp)"
  "follows (again fp) (handle_op_enum_member_bind fp) (case_enum_member_bind fp)"
  unfolding case_defs object_handler_defs by (intro follows_ok)+

lemma follows_type_find [follows_ok]:
  "(\<And>a. follows k (f a) (g a)) \<Longrightarrow>
   follows k (act_bind (type_find name) (\<lambda>t. case t of None \<Rightarrow> act_halt h | Some a \<Rightarrow> f a))
     (act_bind (act_get vm_types) (\<lambda>types. act_bind (lookup types name) (\<lambda>w. act_bind (act_lift (as_addr w)) g)))"
  by (auto simp: follows_def type_find_def is_type_def lookup_def act_simps andThen_Inr_iff split: if_splits)

lemma follows_checked_vector [follows_ok]:
  assumes "\<And>a v i. i < vec_len v \<Longrightarrow> follows k (f a v i) (g a v i)"
  shows "follows k (checked_vector fp x y f) (case_checked_vector fp x y g)"
  unfolding checked_vector_def case_checked_vector_def
proof (intro follows_bind follows_if follows_halt follows_jvalue follows_prod follows_fail)
  fix w :: u32 and a :: nat and v :: vec
  assume "\<not> (sint w < 0 \<or> int (vec_len v) \<le> sint w)"
  then show "follows k (f a v (nat (sint w))) (g a v (nat (sint w)))" by (intro assms) (simp add: nat_less_iff)
qed

lemma follows_vectors [follows_ok]:
  "follows (again fp) (handle_op_vector_new fp) (case_vector_new fp)" "follows (again fp) (handle_op_vector_set fp) (case_vector_set fp)"
  unfolding handle_op_vector_new_def case_vector_new_def handle_op_vector_set_def case_vector_set_def by (intro follows_ok)+

lemma follows_vector_get [follows_ok]: "follows (again fp) (handle_op_vector_get fp) (case_vector_get fp)"
  unfolding handle_op_vector_get_def case_vector_get_def
  by (intro follows_bind follows_checked_vector) (simp add: vec_get_def follows_bind follows_push)

text \<open>A call of an enum member leaves the frames alone.\<close>

abbreviation frames_used :: "nat \<Rightarrow> vm \<Rightarrow> bool" where
  "frames_used n \<equiv> (\<lambda>vm. vm_frame_count vm = n)"

named_theorems frames_ok

lemma frames_basic [frames_ok]:
  "keeps (frames_used n) pop" "keeps (frames_used n) (push v)" "keeps (frames_used n) (read_byte fp)" "keeps (frames_used n) (peek_value d)"
  "keeps (frames_used n) (on_heap f)" "keeps (frames_used n) (store_obj a x)" "keeps (frames_used n) (is_type v t)"
  "keeps (frames_used n) (lookup m name)" "keeps (frames_used n) (constant_at fp i)"
  unfolding pop_def push_def read_byte_def set_ip_def set_frame_def frame_at_def frame_fn_def peek_value_def peek_slot_def
    read_slot_def on_heap_def store_obj_def is_type_def lookup_def constant_at_def
  by (intro keeps_intros keeps_update; simp)+

lemma frames_allocate [frames_ok]: "keeps (frames_used n) (allocate al)"
  by (auto simp: keeps_def allocate_def split: prod.splits)

lemma frames_calls [frames_ok]:
  "keeps (frames_used n) (read_string fp)" "keeps (frames_used n) (deref v get)"
  unfolding read_string_def read_constant_def deref_def by (intro keeps_intros frames_ok)+

lemma frames_pop_into [frames_ok]: "keeps (frames_used n) (pop_into i v)"
  by (induction i arbitrary: v) (auto intro!: keeps_intros frames_ok)

lemma frames_call_enum_member [frames_ok]: "keeps (frames_used n) (call_enum_member E w name i)"
  unfolding call_enum_member_def by (intro keeps_intros frames_ok)

definition follows_in :: "(vm \<Rightarrow> bool) \<Rightarrow> control vm_action \<Rightarrow> interpret_result vm_action \<Rightarrow> control vm_action \<Rightarrow> bool" where
  "follows_in P k m c \<longleftrightarrow>
     (\<forall>vm r vm'. P vm \<longrightarrow> m vm = Inr (r, vm') \<longrightarrow> c vm = (if r = interpret_ok then k vm' else Inr (Leave r, vm')))"

lemma follows_in_bind: "keeps P m \<Longrightarrow> (\<And>x. follows_in P k (f x) (g x)) \<Longrightarrow> follows_in P k (act_bind m f) (act_bind m g)"
  by (auto simp: follows_in_def act_simps andThen_Inr_iff dest: keepsD)

lemma follows_in_then: "keeps P m \<Longrightarrow> follows_in P k f g \<Longrightarrow> follows_in P k (act_then m f) (act_then m g)"
  unfolding act_then_def by (rule follows_in_bind)

lemma follows_in_okay: "follows_in (frames_used (Suc fp)) reload ok (again fp)"
  by (simp add: follows_in_def ok_def again_def reload_def current_frame_def act_simps)

lemma follows_in_if: "follows_in P k m c \<Longrightarrow> follows_in P k n d \<Longrightarrow> follows_in P k (if b then m else n) (if b then c else d)"
  by simp

lemma follows_follows_in: "follows k m c \<Longrightarrow> follows_in P k m c"
  by (simp add: follows_def follows_in_def)

lemma follows_layer_property_call:
  "follows_in (frames_used (Suc fp)) reload (handle_op_layer_property_call E fp) (case_layer_property_call E fp)"
  unfolding handle_op_layer_property_call_def case_layer_property_call_def
  by (intro follows_in_bind follows_in_if follows_in_then follows_in_okay frames_ok; rule follows_follows_in; intro follows_ok)

text \<open>An addition that is not of two strings.\<close>

definition adds_strings :: "vm \<Rightarrow> bool" where
  "adds_strings vm \<longleftrightarrow>
     (case (peek_value 0 vm, peek_value 1 vm) of (Inr (r, _), Inr (l, _)) \<Rightarrow> is_string_value l \<and> is_string_value r | _ \<Rightarrow> False)"

lemma act_bindE:
  assumes "act_bind m f s = Inr (y, s'')"
  obtains x s' where "m s = Inr (x, s')" and "f x s' = Inr (y, s'')"
  using assms by (auto simp: act_bind_apply andThen_Inr_iff)

lemma peek_slot_same: "peek_slot d vm = Inr (i, vm') \<Longrightarrow> vm' = vm"
  by (auto simp: peek_slot_def act_simps split: if_splits)

lemma read_slot_same: "read_slot i vm = Inr (v, vm') \<Longrightarrow> vm' = vm"
  by (auto simp: read_slot_def act_simps andThen_Inr_iff)

lemma coerce_slots_reads:
  assumes "coerce_slots E op j i vm = Inr (u, vm')"
  obtains x y where "read_slot j vm = Inr (x, vm)" and "read_slot i vm = Inr (y, vm)"
proof -
  from assms obtain x vm1 where x: "read_slot j vm = Inr (x, vm1)"
    "act_bind (read_slot i) (\<lambda>r. act_bind (act_with (\<lambda>vm. coerce_types (e_layout E) (obj_vtable (vm_heap vm)) (e_fmt E) op x r)) (\<lambda>(l, r).
       act_then (write_slot j l) (write_slot i r))) vm1 = Inr (u, vm')"
    unfolding coerce_slots_def by (rule act_bindE)
  from x(2) obtain y vm2 where "read_slot i vm1 = Inr (y, vm2)" by (rule act_bindE)
  with x(1) show thesis using that by (metis read_slot_same)
qed

lemma read_binary_operands:
  assumes "read_binary E op fp vm = Inr (r, vm')" and "MACRO_IN_BINARY_OP op"
  obtains i j x y where "peek_slot 0 vm = Inr (i, vm)" and "peek_slot 1 vm = Inr (j, vm)"
    and "read_slot j vm = Inr (x, vm)" and "read_slot i vm = Inr (y, vm)"
proof -
  obtain i vm1 where "peek_slot 0 vm = Inr (i, vm1)" using assms(1) unfolding read_binary_def by (rule act_bindE)
  then have i: "peek_slot 0 vm = Inr (i, vm)" using peek_slot_same by blast
  with assms(1) have "act_bind (peek_slot 1) (\<lambda>j. act_then (coerce_slots E op j i) (act_bind (read_slot j) (\<lambda>l.
            case l of
              VObject r \<Rightarrow>
                act_bind (act_get (\<lambda>vm. obj_vtable (vm_heap vm) r)) (\<lambda>vt.
                act_bind (binary_handler E vt op j i) (\<lambda>done.
                  if done then act_bind pop (\<lambda>_. ok) else fail_at fp ''Operator not supported''))
            | _ \<Rightarrow>
                act_bind (read_slot i) (\<lambda>r.
                act_bind (act_lift (binary_basic (e_layout E) op l r)) (finish_basic fp j))))) vm = Inr (r, vm')"
    using assms(2) by (simp add: read_binary_def act_bind_apply)
  then obtain j vm2 v vm3 where j: "peek_slot 1 vm = Inr (j, vm2)" "coerce_slots E op j i vm2 = Inr (v, vm3)"
    unfolding act_then_def by (elim act_bindE)
  with peek_slot_same have "coerce_slots E op j i vm = Inr (v, vm3)" by blast
  then obtain x y where "read_slot j vm = Inr (x, vm)" "read_slot i vm = Inr (y, vm)" by (rule coerce_slots_reads)
  with i j(1) show thesis using that by (metis peek_slot_same)
qed

lemma follows_add: "follows_in (\<lambda>vm. \<not> adds_strings vm) (again fp) (read_binary E OP_ADD fp) (case_add E fp)"
  unfolding follows_in_def
proof (intro allI impI)
  fix vm r vm'
  assume s: "\<not> adds_strings vm" and m: "read_binary E OP_ADD fp vm = Inr (r, vm')"
  have "MACRO_IN_BINARY_OP OP_ADD" by (simp add: MACRO_IN_BINARY_OP_def all_operators_def)
  from m this obtain i j x y where p: "peek_slot 0 vm = Inr (i, vm)" "peek_slot 1 vm = Inr (j, vm)"
    "read_slot j vm = Inr (x, vm)" "read_slot i vm = Inr (y, vm)" by (rule read_binary_operands)
  with s have "\<not> (is_string_value x \<and> is_string_value y)" by (simp add: adds_strings_def peek_value_def act_simps)
  with p have "case_add E fp vm = macro_runtime_error_raised fp (read_binary E OP_ADD fp) vm"
    by (auto simp: case_add_def act_simps)
  with m follows_operator(1) show "case_add E fp vm = (if r = interpret_ok then again fp vm' else Inr (Leave r, vm'))"
    by (auto simp: follows_def)
qed

text \<open>A return: from the last frame it ends the loop, otherwise it goes on in the caller.\<close>

definition follows_return :: "interpret_result vm_action \<Rightarrow> control vm_action \<Rightarrow> bool" where
  "follows_return m c \<longleftrightarrow>
     (\<forall>vm r vm'. m vm = Inr (r, vm') \<longrightarrow>
        c vm = (if r = interpret_ok then Inr (Leave interpret_ok, vm') else reload vm') \<and> r \<noteq> interpret_runtime_error)"

lemma follows_return_rules:
  "(\<And>x. follows_return (f x) (g x)) \<Longrightarrow> follows_return (act_bind m f) (act_bind m g)"
  "follows_return m' c \<Longrightarrow> follows_return (act_then u m') (act_then u c)"
  "follows_return m' c \<Longrightarrow> follows_return n d \<Longrightarrow> follows_return (if b then m' else n) (if b then c else d)"
  "follows_return (act_halt h) (act_halt h)" "follows_return ok (leave interpret_ok)"
  "follows_return (act_return interpret_passed) reload"
  by (auto simp: follows_return_def ok_def leave_def act_simps andThen_Inr_iff)

lemma case_return_run: "follows_return (handle_op_return E fp) (case_return E fp)"
  unfolding handle_op_return_def case_return_def by (intro follows_return_rules)

subsection \<open>The two loops\<close>

text \<open>
  The instructions whose cases do what their handlers do: not the remainder, which has no case, not the
  equalities, which do not convert, not the inheritance of structs, which leaves out the names, and not the
  addition of two strings, which takes another way. A call of an enum member counts on the frame pointer being
  that of the last frame, as it is while no error has been reported.
\<close>

definition shared :: "op_code \<Rightarrow> nat \<Rightarrow> vm \<Rightarrow> bool" where
  "shared op fp vm \<longleftrightarrow>
     op \<notin> {op_mod, op_equal, op_not_equal, op_struct_inherit} \<and> (op = op_add \<longrightarrow> \<not> adds_strings vm) \<and>
     (op = op_layer_property_call \<longrightarrow> vm_frame_count vm = Suc fp)"

definition goes_on :: "op_code \<Rightarrow> nat \<Rightarrow> interpret_result \<Rightarrow> control vm_action" where
  "goes_on op fp r =
     (if op = op_return then (if r = interpret_ok then leave interpret_ok else reload)
      else if r \<noteq> interpret_ok then leave r else if reloads_frame op then reload else again fp)"

lemma switch_case_run:
  assumes "shared op fp vm" and "dispatch E op fp vm = Inr (r, vm')"
  shows "switch_case E op fp vm = goes_on op fp r vm' \<and> (op = op_return \<longrightarrow> r \<noteq> interpret_runtime_error)"
proof (cases "op = op_return \<or> op = op_add \<or> op = op_layer_property_call")
  case True
  then consider "op = op_return" | "op = op_add" | "op = op_layer_property_call" by blast
  then show ?thesis
  proof cases
    case 1
    then show ?thesis using assms(2) case_return_run [of E fp]
      by (auto simp: dispatch_def switch_case_def follows_return_def goes_on_def leave_def act_simps)
  next
    case 2
    then show ?thesis using assms follows_add [of fp E]
      by (auto simp: dispatch_def switch_case_def follows_in_def goes_on_def shared_def reloads_frame_def leave_def act_simps)
  next
    case 3
    then show ?thesis using assms follows_layer_property_call [of fp E]
      by (auto simp: dispatch_def switch_case_def follows_in_def goes_on_def shared_def reloads_frame_def leave_def act_simps)
  qed
next
  case False
  have "follows (if reloads_frame op then reload else again fp) (dispatch E op fp) (switch_case E op fp)"
    using False assms(1)
    by (cases op) (simp_all add: dispatch_def switch_case_def reloads_frame_def shared_def follows_ok)
  with False assms(2) show ?thesis by (auto simp: follows_def goes_on_def leave_def act_simps)
qed

text \<open>A run of the computed-goto loop, for at most \<open>n\<close> instructions, on shared instructions and without an error.\<close>

primrec clean_run :: "nat \<Rightarrow> env \<Rightarrow> nat \<Rightarrow> vm \<Rightarrow> bool" where
  "clean_run 0 E fp vm = True"
| "clean_run (Suc n) E fp vm =
     (case read_byte fp vm of Inl _ \<Rightarrow> False
      | Inr (b, vm1) \<Rightarrow> (case op_of_byte b of None \<Rightarrow> False
         | Some op \<Rightarrow> shared op fp vm1 \<and> (case dispatch E op fp vm1 of Inl _ \<Rightarrow> False
            | Inr (r, vm2) \<Rightarrow> (op = op_return \<or> r = interpret_ok) \<and>
                (case step E fp vm of Inr (Some fp', vm') \<Rightarrow> clean_run n E fp' vm' | _ \<Rightarrow> True))))"

definition control_of :: "nat option \<Rightarrow> control" where
  "control_of f = (case f of None \<Rightarrow> Leave interpret_ok | Some fp \<Rightarrow> Again fp)"

lemma switch_step_run:
  assumes "read_byte fp vm = Inr (b, vm1)" and "op_of_byte b = Some op" and "shared op fp vm1"
    and "dispatch E op fp vm1 = Inr (r, vm2)" and "op = op_return \<or> r = interpret_ok"
  shows "switch_step E fp vm = andThen (step E fp vm) (\<lambda>(f, vm'). Inr (control_of f, vm'))"
proof -
  have s: "switch_step E fp vm = goes_on op fp r vm2"
    using assms switch_case_run [OF assms(3,4)] by (simp add: switch_step_def act_simps)
  have t: "step E fp vm =
      (if op = op_return \<and> r = interpret_ok then act_return None
       else if reloads_frame op then act_bind current_frame (\<lambda>fp. act_return (Some fp)) else act_return (Some fp)) vm2"
    using assms(1,2,4) by (simp add: step_def act_bind_apply)
  show ?thesis unfolding s t using assms(5)
    by (auto simp: goes_on_def reloads_frame_def reload_def again_def leave_def control_of_def act_simps andThen_def
        split: sum.splits)
qed

lemma switch_loop_run: "clean_run n E fp vm \<Longrightarrow> switch_loop n E fp vm = run_loop n E fp vm"
proof (induction n arbitrary: fp vm)
  case (Suc n)
  from Suc.prems obtain b vm1 where b: "read_byte fp vm = Inr (b, vm1)" by (cases "read_byte fp vm") auto
  with Suc.prems obtain op where op: "op_of_byte b = Some op" by (cases "op_of_byte b") auto
  with Suc.prems b obtain r vm2 where d: "dispatch E op fp vm1 = Inr (r, vm2)" by (cases "dispatch E op fp vm1") auto
  from Suc.prems b op d have sh: "shared op fp vm1" "op = op_return \<or> r = interpret_ok" by simp_all
  note s = b op sh(1) d sh(2)
  have rest: "clean_run n E fp' vm'" if "step E fp vm = Inr (Some fp', vm')" for fp' vm'
    using Suc.prems b op d that by simp
  show ?case
    using Suc.IH rest by (auto simp: act_bind_apply switch_step_run [OF s] control_of_def andThen_def ok_def split: sum.splits option.splits)
qed simp

text \<open>
  C7: The two loops of the machine agree. On a run whose instructions are shared and report no error, the
  \<open>switch\<close> and the computed goto come to the same result in the same number of instructions, or to the same halt,
  and leave the same machine.
\<close>

theorem switch_loop_agrees:
  assumes "clean_run n E fp vm"
  shows "switch_loop n E fp vm = run_loop n E fp vm"
  using assms by (rule switch_loop_run)

lemma switch_loop_agrees_witness:
  "\<exists>vm vm'. switch_loop 1 plain_env 0 vm = Inr (interpret_ok, vm') \<and> run_loop 1 plain_env 0 vm = Inr (interpret_ok, vm') \<and>
     vm_frame_count vm = 1 \<and> vm_frame_count vm' = 0"
proof -
  obtain ck where ck: "chunk_wf ck" "chunk_bytes ck = [op_byte op_return]"
    using write_bytes_bytes [of init_chunk "[op_byte op_return]" 1] chunk_wf_init by auto
  let ?fn = "empty_fn\<lparr>fn_chunk := ck\<rparr>"
  let ?vm = "fresh_vm\<lparr>vm_heap := \<lparr>h_objs = [0 \<mapsto> OFn ?fn], h_next = 1\<rparr>\<rparr>"
  have "stack_is ?vm []" "vm_frame_count ?vm = 0" "vm_open_upv_ptr ?vm = None" "hm_wf hash_string (vm_globals ?vm)"
    using idle_fresh by (simp_all add: idle_def stack_is_def machine_ok_def)
  note idle = this
  have fn: "get_fn (vm_heap ?vm) 0 = Inr ?fn" "fn_arity ?fn = 0" "0 < h_next (vm_heap ?vm)"
    by (simp_all add: get_fn_def empty_fn_def)
  obtain vm1 where vm1: "running vm1 0 ck 0" "stack_is vm1 [obj_value (h_next (vm_heap ?vm))]" "vm_frame_count vm1 = 1"
    "vm_globals vm1 = vm_globals ?vm" "vm_open_upv_ptr vm1 = None"
    by (rule call_script_run [OF idle(1,2) fn, of plain_env]) (use idle(3) in simp)
  have at: "at_point 0 ck 0 [obj_value (h_next (vm_heap ?vm))] (vm_globals ?vm) vm1"
    using vm1 idle(4) by (simp add: at_point_def)
  have code: "code_at ck 0 [op_byte op_return]" using ck by (auto simp: code_at_def)
  obtain vm2 where vm2: "step plain_env 0 vm1 = Inr (None, vm2)" "vm_frame_count vm2 = 0"
    by (rule return_run [OF at code vm1(3,5)])
  obtain vm3 where r: "read_byte 0 vm1 = Inr (op_byte op_return, vm3)" by (rule read_byte_at [OF at code])
  from vm2(1) r obtain q vm4 where d: "dispatch plain_env op_return 0 vm3 = Inr (q, vm4)"
    by (auto simp: step_def act_bind_apply op_of_byte_op_byte andThen_Inr_iff simp del: op_byte.simps)
  have "clean_run 1 plain_env 0 vm1"
    using r d vm2(1) by (simp add: op_of_byte_op_byte shared_def del: op_byte.simps)
  from switch_loop_agrees [OF this] vm1(3) vm2 show ?thesis
    by (intro exI [of _ vm1] exI [of _ vm2]) (simp add: act_simps ok_def)
qed



text \<open>The instructions that are not shared: an integer of 32 bits equals one of 64 bits in one loop only.\<close>

lemma equalities_differ:
  assumes "stack_is vm (xs @ [VI32 1, VI64 1])"
  shows "\<exists>vm'. switch_case plain_env op_equal fp vm = Inr (Again fp, vm') \<and> stack_is vm' (xs @ [VBool False])"
    and "\<exists>vm'. dispatch plain_env op_equal fp vm = Inr (interpret_ok, vm') \<and> stack_is vm' (xs @ [VBool True])"
proof -
  let ?vm1 = "vm\<lparr>vm_stack_top := Suc (length xs)\<rparr>" and ?vm2 = "vm\<lparr>vm_stack_top := length xs\<rparr>"
  have s1: "stack_is vm ((xs @ [VI32 1]) @ [VI64 1])" using assms by simp
  have p1: "pop vm = Inr (VI64 1, ?vm1)" "stack_is ?vm1 (xs @ [VI32 1])" using pop_stack [OF s1] by simp_all
  have p2: "pop ?vm1 = Inr (VI32 1, ?vm2)" "stack_is ?vm2 xs" using pop_stack [OF p1(2)] by simp_all
  have "length xs < constant_stack_max" using stack_isD [OF p1(2)] by simp
  then obtain vm3 where vm3: "push (VBool False) ?vm2 = Inr ((), vm3)" "stack_is vm3 (xs @ [VBool False])"
    using push_rest [OF p2(2)] by metis
  show "\<exists>vm'. switch_case plain_env op_equal fp vm = Inr (Again fp, vm') \<and> stack_is vm' (xs @ [VBool False])"
    using p1(1) p2(1) vm3 by (simp add: switch_case_def case_equal_def push_again_def again_def vm_values_equal_def on_heap_def act_simps)
  have one: "word_cat (0 :: u32) (1 :: u32) = (1 :: u64)" by (simp add: word_cat_eq)
  show "\<exists>vm'. dispatch plain_env op_equal fp vm = Inr (interpret_ok, vm') \<and> stack_is vm' (xs @ [VBool True])"
    using read_binary_run [OF assms, of OP_EQ "VI64 1" plain_env "VI64 1" "VBool True" fp]
    by (auto simp: dispatch_def MACRO_IN_BINARY_OP_def all_operators_def coerce_types_def numeric_type_promotion_def both_def
        binary_basic_def handle_binary_i64_op_def plain_env_def one)
qed

lemma no_remainder: "switch_case E op_mod fp vm = Inl (Panic ''VirtualMachine::run'')"
  by (simp add: switch_case_def act_simps)


end
