(* ===== verification/Joker_Time.thy ===== *)
theory Joker_Time
  imports Joker_Debug
begin

text \<open>
  The natives on time (src/native/src/time.c). What the clock of the system shows is a parameter: the processor
  time in ticks, the seconds since the epoch, and the local date as \<open>localtime\<close> breaks it down. \<open>sleep\<close> is the
  macro for systems with \<open>usleep\<close>.
\<close>

record tm =
  tm_year :: int
  tm_mon :: nat
  tm_mday :: nat
  tm_hour :: nat
  tm_min :: nat
  tm_sec :: nat

record os_clock =
  oc_ticks :: int
  oc_seconds :: int
  oc_local :: tm

definition CLOCKS_PER_SEC :: int where
  "CLOCKS_PER_SEC = 1000000"

definition native_clock :: "os_clock \<Rightarrow> jvalue list \<Rightarrow> jvalue outcome" where
  "native_clock clk args = Inr (VF64 (f64_div (f64_of_int (oc_ticks clk)) (f64_of_int CLOCKS_PER_SEC)))"

definition native_time :: "os_clock \<Rightarrow> jvalue list \<Rightarrow> jvalue outcome" where
  "native_time clk args = Inr (VF64 (f64_of_int (oc_seconds clk)))"

text \<open>The argument of \<open>usleep\<close>: the product is an \<open>int\<close>, the parameter is unsigned with 32 bits.\<close>

definition sleep_micros :: "u32 \<Rightarrow> u32 outcome" where
  "sleep_micros w =
     (if in_i32 (sint w * 1000000) then Inr (word_of_int (sint w * 1000000)) else Inl (Undefined ''signed overflow''))"

definition native_sleep :: "jvalue list \<Rightarrow> (jvalue \<times> u32) outcome" where
  "native_sleep args =
     (case args of
        [VI32 w] \<Rightarrow> andThen (sleep_micros w) (\<lambda>micros. Inr (VNull, micros))
      | _ \<Rightarrow> Inl (Panic ''Native::sleep''))"

text \<open>\<open>strftime\<close> with \<open>%Y-%m-%d %H:%M:%S\<close>; the text always fits the 100 bytes.\<close>

definition two_digits :: "nat \<Rightarrow> string" where
  "two_digits n = pad_left 2 CHR ''0'' (digits n)"

definition date_text :: "tm \<Rightarrow> string" where
  "date_text t =
     int_text (tm_year t + 1900) @ ''-'' @ two_digits (tm_mon t + 1) @ ''-'' @ two_digits (tm_mday t) @ '' '' @
     two_digits (tm_hour t) @ '':'' @ two_digits (tm_min t) @ '':'' @ two_digits (tm_sec t)"

definition native_date :: "os_clock \<Rightarrow> jvalue list \<Rightarrow> jvalue outcome" where
  "native_date clk args =
     (if args \<noteq> [] then Inl (Panic ''Native::date'') else Inr (VObject (StrRef (date_text (oc_local clk)))))"

definition native_now :: "os_clock \<Rightarrow> jvalue list \<Rightarrow> jvalue outcome" where
  "native_now clk args = native_date clk args"

text \<open>The natives under the names the machine registers them with, for the field \<open>e_extern\<close> of an environment.\<close>

definition time_natives :: "os_clock \<Rightarrow> string \<Rightarrow> jvalue list \<Rightarrow> jvalue outcome" where
  "time_natives clk name args =
     (if name = ''clock'' then native_clock clk args
      else if name = ''time'' then native_time clk args
      else if name = ''sleep'' then andThen (native_sleep args) (\<lambda>(v, micros). Inr v)
      else if name = ''date'' then native_date clk args
      else if name = ''now'' then native_now clk args
      else Inl (Undefined ''no such native''))"

subsection \<open>Sleeping\<close>

text \<open>
  \<open>sleep\<close> returns for at most 2147 seconds and sleeps that long; a longer time overflows the multiplication, and
  a negative one comes out as more than half an hour.
\<close>

lemma sleep_returns: "returns (sleep_micros w) \<longleftrightarrow> - 2147 \<le> sint w \<and> sint w \<le> 2147"
  by (auto simp: sleep_micros_def in_i32_def)

lemma sleep_time: "0 \<le> sint w \<Longrightarrow> sint w \<le> 2147 \<Longrightarrow> sleep_micros w = Inr (word_of_int (sint w * 1000000))"
  by (simp add: sleep_micros_def in_i32_def)

lemma sleep_negative:
  assumes "- 2147 \<le> sint w" and "sint w < 0" and "sleep_micros w = Inr m"
  shows "2147000000 \<le> uint m"
proof -
  have "m = word_of_int (sint w * 1000000)" using assms by (simp add: sleep_micros_def in_i32_def)
  then have "uint m = (sint w * 1000000) mod 2 ^ 32" by (simp only: uint_word_of_int) simp
  also have "\<dots> = sint w * 1000000 + 2 ^ 32"
    using assms(1,2) mod_pos_pos_trivial [of "sint w * 1000000 + 2 ^ 32" "2 ^ 32"] by simp
  finally show ?thesis using assms(1) by simp
qed

subsection \<open>Dates\<close>

definition valid_date :: "tm \<Rightarrow> bool" where
  "valid_date t \<longleftrightarrow> - 900 \<le> tm_year t \<and> tm_year t < 8100 \<and> tm_mon t < 12 \<and> tm_mday t < 32 \<and> tm_hour t < 24 \<and>
     tm_min t < 60 \<and> tm_sec t < 61"

lemma digits_small: "n < 10 \<Longrightarrow> digits n = [''0123456789'' ! n]"
  by (simp add: digits.simps)

lemma two_digits_eq: "n < 100 \<Longrightarrow> two_digits n = [''0123456789'' ! (n div 10), ''0123456789'' ! (n mod 10)]"
  by (cases "n < 10") (simp_all add: two_digits_def pad_left_def digits.simps [of n] digits_small)

lemma digit_inj: "i < 10 \<Longrightarrow> j < 10 \<Longrightarrow> (''0123456789'' ! i = ''0123456789'' ! j) = (i = j)"
  by (simp add: nth_eq_iff_index_eq)

lemma two_digits_inj: "m < 100 \<Longrightarrow> n < 100 \<Longrightarrow> (two_digits m = two_digits n) = (m = n)"
  by (auto simp: two_digits_eq digit_inj) (metis div_mult_mod_eq)

lemma year_text:
  assumes "1000 \<le> y" and "y < 10000"
  shows "int_text y = two_digits (nat y div 100) @ two_digits (nat y mod 100)"
proof -
  define n where "n = nat y"
  have n: "1000 \<le> n" "n < 10000" using assms by (simp_all add: n_def)
  have big: "\<not> n < 10" "\<not> n div 10 < 10" "\<not> n div 10 div 10 < 10"
    using n by (simp_all add: not_less less_eq_div_iff_mult_less_eq)
  have "digits n = digits (n div 10 div 10 div 10) @ [''0123456789'' ! (n div 10 div 10 mod 10)] @ [''0123456789'' ! (n div 10 mod 10)] @ [''0123456789'' ! (n mod 10)]"
    using big by (simp add: digits.simps [of n] digits.simps [of "n div 10"] digits.simps [of "n div 10 div 10"])
  moreover have "digits (n div 10 div 10 div 10) = [''0123456789'' ! (n div 10 div 10 div 10)]" using n by (intro digits_small) simp
  moreover have "n div 100 div 10 = n div 10 div 10 div 10" "n div 100 mod 10 = n div 10 div 10 mod 10"
    by (simp_all flip: div_mult2_eq)
  moreover have "n mod 100 = 10 * (n div 10 mod 10) + n mod 10" using mod_mult2_eq [of n 10 10] by simp
  then have "n mod 100 div 10 = n div 10 mod 10" "n mod 100 mod 10 = n mod 10" by simp_all
  moreover have "n div 100 < 100" "n mod 100 < 100" using n by (simp_all add: div_less_iff_less_mult)
  ultimately have "digits n = two_digits (n div 100) @ two_digits (n mod 100)" by (simp only: two_digits_eq append_Cons append_Nil)
  moreover have "int_text y = digits n" using assms by (simp add: int_text_def n_def)
  ultimately show ?thesis by (simp only: n_def)
qed

lemma two_digits_length: "n < 100 \<Longrightarrow> length (two_digits n) = 2"
  by (simp add: two_digits_eq)

text \<open>A date has 19 characters, and its text says which it is: two dates between the years 1000 and 9999 with the
  same text are the same.
\<close>

theorem date_text_faithful:
  assumes "valid_date s" and "valid_date t"
  shows "length (date_text s) = 19 \<and> (date_text s = date_text t) = (s = t)"
proof
  have y: "int_text (tm_year u + 1900) = two_digits (nat (tm_year u + 1900) div 100) @ two_digits (nat (tm_year u + 1900) mod 100)"
    "nat (tm_year u + 1900) div 100 < 100" if "valid_date u" for u
    using that year_text [of "tm_year u + 1900"] by (simp_all add: valid_date_def div_less_iff_less_mult nat_less_iff)
  have b: "tm_mon u + 1 < 100" "tm_mday u < 100" "tm_hour u < 100" "tm_min u < 100" "tm_sec u < 100" if "valid_date u" for u
    using that by (simp_all add: valid_date_def)
  show "length (date_text s) = 19"
    using y [OF assms(1)] b [OF assms(1)] by (simp add: date_text_def two_digits_length)
  have "s = t" if "date_text s = date_text t"
  proof -
    from that have e: "two_digits (nat (tm_year s + 1900) div 100) = two_digits (nat (tm_year t + 1900) div 100)"
      "two_digits (nat (tm_year s + 1900) mod 100) = two_digits (nat (tm_year t + 1900) mod 100)"
      "two_digits (tm_mon s + 1) = two_digits (tm_mon t + 1)" "two_digits (tm_mday s) = two_digits (tm_mday t)"
      "two_digits (tm_hour s) = two_digits (tm_hour t)" "two_digits (tm_min s) = two_digits (tm_min t)"
      "two_digits (tm_sec s) = two_digits (tm_sec t)"
      using y [OF assms(1)] y [OF assms(2)] b [OF assms(1)] b [OF assms(2)] by (simp_all add: date_text_def two_digits_length)
    then have "nat (tm_year s + 1900) div 100 = nat (tm_year t + 1900) div 100" "nat (tm_year s + 1900) mod 100 = nat (tm_year t + 1900) mod 100"
      and f: "tm_mon s = tm_mon t" "tm_mday s = tm_mday t" "tm_hour s = tm_hour t" "tm_min s = tm_min t" "tm_sec s = tm_sec t"
      using y(2) [OF assms(1)] y(2) [OF assms(2)] b [OF assms(1)] b [OF assms(2)] by (simp_all add: two_digits_inj)
    then have "nat (tm_year s + 1900) = nat (tm_year t + 1900)" by (metis div_mult_mod_eq)
    moreover have "0 \<le> tm_year s + 1900" "0 \<le> tm_year t + 1900" using assms by (simp_all add: valid_date_def)
    ultimately have "tm_year s = tm_year t" by (simp add: nat_eq_iff2)
    with f show "s = t" by simp
  qed
  then show "(date_text s = date_text t) = (s = t)" by blast
qed

lemma date_text_faithful_witness:
  "date_text \<lparr>tm_year = 125, tm_mon = 3, tm_mday = 9, tm_hour = 7, tm_min = 0, tm_sec = 59\<rparr> \<noteq>
   date_text \<lparr>tm_year = 125, tm_mon = 3, tm_mday = 9, tm_hour = 7, tm_min = 1, tm_sec = 0\<rparr>"
  by (subst date_text_faithful [THEN conjunct2]) (simp_all add: valid_date_def)

end
